(* ===== verification/C_Prelude.thy ===== *)
theory C_Prelude
  imports Main "HOL-Library.Word" "HOL-Library.Multiset"
begin

text \<open>
  Shared vocabulary of the development: the status codes of \<open>errno.h\<close> the programs return,
  the memory faults a C program can commit, a heap of list cells with its list-segment
  predicate, a thread-table counter, and the reachability relation of an executable
  transition system together with the locale every component's invariant is an
  interpretation of.
\<close>

named_theorems cnt_simps "counting lemmas for thread tables"
named_theorems heap_simps "rewriting of heap list segments under updates"

section \<open>Status codes\<close>

definition EINTR :: int where "EINTR = 4"
definition ENOMEM :: int where "ENOMEM = 12"
definition EBUSY :: int where "EBUSY = 16"
definition EINVAL :: int where "EINVAL = 22"
definition ETIMEDOUT :: int where "ETIMEDOUT = 110"

lemmas errno_defs = EINTR_def ENOMEM_def EBUSY_def EINVAL_def ETIMEDOUT_def

section \<open>Faults\<close>

text \<open>What the C standard leaves undefined is a fault of the model.\<close>

datatype fault = NullDeref | WildDeref nat | OutOfBounds | Uninitialised | UseDestroyed | Aborted int | Overflow

fun ebind :: "'e + 'a \<Rightarrow> ('a \<Rightarrow> 'e + 'b) \<Rightarrow> 'e + 'b" where
  "ebind (Inl e) f = Inl e"
| "ebind (Inr x) f = f x"

lemma ebind_eq_Inr [simp]: "ebind m f = Inr y \<longleftrightarrow> (\<exists>x. m = Inr x \<and> f x = Inr y)"
  by (cases m) auto

lemma ebind_eq_Inl: "ebind m f = Inl e \<longleftrightarrow> m = Inl e \<or> (\<exists>x. m = Inr x \<and> f x = Inl e)"
  by (cases m) auto

section \<open>Linked cells on the heap\<close>

text \<open>
  A pointer is \<open>None\<close> (\<open>NULL\<close>) or an address. The heap maps the live addresses to cells; an
  access through \<open>NULL\<close> or through an address that is not live faults.
\<close>

type_synonym addr = nat
type_synonym ptr = "addr option"

record 'a cell =
  cell_next :: ptr
  cell_data :: 'a

type_synonym 'a heap = "addr \<rightharpoonup> 'a cell"

fun deref :: "'a heap \<Rightarrow> ptr \<Rightarrow> fault + 'a cell" where
  "deref h None = Inl NullDeref"
| "deref h (Some p) = (case h p of None \<Rightarrow> Inl (WildDeref p) | Some c \<Rightarrow> Inr c)"

fun store_next :: "'a heap \<Rightarrow> ptr \<Rightarrow> ptr \<Rightarrow> fault + 'a heap" where
  "store_next h None n = Inl NullDeref"
| "store_next h (Some p) n =
     (case h p of None \<Rightarrow> Inl (WildDeref p) | Some c \<Rightarrow> Inr (h(p \<mapsto> c\<lparr>cell_next := n\<rparr>)))"

text \<open>\<open>lseg h p as q\<close>: following \<open>next\<close> from \<open>p\<close> visits the cells \<open>as\<close> and ends at \<open>q\<close>.\<close>

fun lseg :: "'a heap \<Rightarrow> ptr \<Rightarrow> addr list \<Rightarrow> ptr \<Rightarrow> bool" where
  "lseg h p [] q = (p = q)"
| "lseg h p (a # as) q = (p = Some a \<and> (\<exists>c. h a = Some c \<and> lseg h (cell_next c) as q))"

lemma lseg_append [heap_simps]:
  "lseg h p (as @ bs) q = (\<exists>r. lseg h p as r \<and> lseg h r bs q)"
  by (induction as arbitrary: p) auto

lemma lseg_upd_other [heap_simps]:
  "a \<notin> set as \<Longrightarrow> lseg (h(a \<mapsto> c)) p as q = lseg h p as q"
  by (induction as arbitrary: p) auto

lemma lseg_drop_other [heap_simps]:
  "a \<notin> set as \<Longrightarrow> lseg (h(a := None)) p as q = lseg h p as q"
  by (induction as arbitrary: p) auto

lemma lseg_Null_empty: "lseg h None as None \<longleftrightarrow> as = []"
  by (cases as) auto

lemma lseg_live: "lseg h p as q \<Longrightarrow> a \<in> set as \<Longrightarrow> a \<in> dom h"
  by (induction as arbitrary: p) auto

lemma lseg_first: "lseg h p as None \<Longrightarrow> as = [] \<longleftrightarrow> p = None"
  by (cases as) auto

text \<open>The payloads of the cells at a list of addresses.\<close>

definition payloads :: "'a heap \<Rightarrow> addr list \<Rightarrow> 'a list" where
  "payloads h as = map (\<lambda>a. cell_data (the (h a))) as"

lemma payloads_simps [simp]:
  "payloads h [] = []"
  "payloads h (a # as) = cell_data (the (h a)) # payloads h as"
  "payloads h (as @ bs) = payloads h as @ payloads h bs"
  by (simp_all add: payloads_def)

lemma payloads_upd_other [heap_simps]:
  "a \<notin> set as \<Longrightarrow> payloads (h(a := x)) as = payloads h as"
  by (auto simp: payloads_def)

lemma payloads_upd_next [heap_simps]:
  "h a = Some c \<Longrightarrow> payloads (h(a \<mapsto> c\<lparr>cell_next := n\<rparr>)) as = payloads h as"
  by (auto simp: payloads_def)

lemma length_payloads [simp]: "length (payloads h as) = length as"
  by (simp add: payloads_def)

text \<open>
  An intrusive first-in first-out queue: a list of cells from \<open>first\<close>, whose last cell is the
  one \<open>last\<close> points to.
\<close>

definition queue_at :: "'a heap \<Rightarrow> ptr \<Rightarrow> ptr \<Rightarrow> addr list \<Rightarrow> bool" where
  "queue_at h f l as \<longleftrightarrow> lseg h f as None \<and> distinct as \<and> l = (if as = [] then None else Some (last as))"

lemma queue_at_Nil [simp]: "queue_at h f l [] \<longleftrightarrow> f = None \<and> l = None"
  by (auto simp: queue_at_def)

lemma queue_at_first_None: "queue_at h f l as \<Longrightarrow> f = None \<longleftrightarrow> as = []"
  by (auto simp: queue_at_def dest: lseg_first)

text \<open>Linking a fresh cell behind the last one extends the segment.\<close>

lemma lseg_snoc:
  assumes seg: "lseg h f as None" and dist: "distinct as" and ne: "as \<noteq> []"
    and c: "h (last as) = Some c" and fresh: "p \<notin> set as"
  shows "lseg (h(p \<mapsto> \<lparr>cell_next = None, cell_data = d\<rparr>, last as \<mapsto> c\<lparr>cell_next := Some p\<rparr>)) f (as @ [p]) None"
proof -
  obtain bs b where as: "as = bs @ [b]" using ne by (cases as rule: rev_cases) auto
  from seg as c have "lseg h f bs (Some b)" by (auto simp: heap_simps)
  moreover have "b \<notin> set bs" "p \<noteq> b" "p \<notin> set bs" using dist fresh as by auto
  ultimately show ?thesis using as c by (auto simp: heap_simps)
qed

lemma queue_at_last_live: "queue_at h f l as \<Longrightarrow> as \<noteq> [] \<Longrightarrow> \<exists>c. h (last as) = Some c"
  by (meson domD last_in_set lseg_live queue_at_def)

lemma queue_at_snoc:
  assumes q: "queue_at h f l as" and ne: "as \<noteq> []" and c: "h (last as) = Some c"
    and fresh: "p \<notin> dom h"
  shows "queue_at (h(p \<mapsto> \<lparr>cell_next = None, cell_data = d\<rparr>, last as \<mapsto> c\<lparr>cell_next := Some p\<rparr>))
           f (Some p) (as @ [p])"
proof -
  have "p \<notin> set as" using q fresh lseg_live by (fastforce simp: queue_at_def)
  with q ne c show ?thesis by (auto simp: queue_at_def intro!: lseg_snoc)
qed

section \<open>Signed division\<close>

text \<open>Quotient and remainder of C, which round towards zero.\<close>

definition c_quot :: "int \<Rightarrow> int \<Rightarrow> int" where
  "c_quot x y = sgn x * sgn y * (\<bar>x\<bar> div \<bar>y\<bar>)"

definition c_rem :: "int \<Rightarrow> int \<Rightarrow> int" where
  "c_rem x y = x - c_quot x y * y"

lemma c_quot_nonneg [simp]: "0 \<le> x \<Longrightarrow> 0 < y \<Longrightarrow> c_quot x y = x div y"
  by (auto simp: c_quot_def sgn_if)

lemma c_rem_nonneg [simp]: "0 \<le> x \<Longrightarrow> 0 < y \<Longrightarrow> c_rem x y = x mod y"
  by (simp add: c_rem_def minus_div_mult_eq_mod)

section \<open>Counting entries of a thread table\<close>

definition cnt :: "('a \<Rightarrow> bool) \<Rightarrow> 'a list \<Rightarrow> int" where
  "cnt P xs = int (length (filter P xs))"

lemma cnt_basic [simp]:
  "cnt P [] = 0"
  "cnt P (x # xs) = of_bool (P x) + cnt P xs"
  "cnt P (xs @ ys) = cnt P xs + cnt P ys"
  by (simp_all add: cnt_def)

lemma cnt_nonneg [simp]: "0 \<le> cnt P xs"
  by (simp add: cnt_def)

lemma cnt_upd [cnt_simps]:
  "i < length xs \<Longrightarrow> cnt P (xs[i := y]) = cnt P xs - of_bool (P (xs ! i)) + of_bool (P y)"
proof (induction xs arbitrary: i)
  case (Cons x xs)
  then show ?case by (cases i) auto
qed simp

lemma cnt_pos: "i < length xs \<Longrightarrow> P (xs ! i) \<Longrightarrow> 1 \<le> cnt P xs"
proof (induction xs arbitrary: i)
  case (Cons x xs)
  show ?case
  proof (cases i)
    case 0
    with Cons.prems show ?thesis using cnt_nonneg [of P xs] by simp
  next
    case (Suc j)
    with Cons show ?thesis by fastforce
  qed
qed simp

lemma cnt_zero_iff: "cnt P xs = 0 \<longleftrightarrow> (\<forall>x \<in> set xs. \<not> P x)"
  by (auto simp: cnt_def filter_empty_conv)

lemma cnt_pos_set: "x \<in> set xs \<Longrightarrow> P x \<Longrightarrow> 0 < cnt P xs"
  using cnt_pos [of _ xs P] by (fastforce simp: in_set_conv_nth)

lemma cnt_pos_obtain:
  assumes "0 < cnt P xs"
  obtains x where "x \<in> set xs" "P x"
  using assms cnt_zero_iff [of P xs] by auto

lemma cnt_map: "cnt P (map f xs) = cnt (\<lambda>x. P (f x)) xs"
  by (induction xs) auto

lemma cnt_mono: "(\<And>x. P x \<Longrightarrow> Q x) \<Longrightarrow> cnt P xs \<le> cnt Q xs"
  by (induction xs) (auto simp: of_bool_def)

lemma cnt_all: "(\<forall>x \<in> set xs. P x) \<Longrightarrow> cnt P xs = int (length xs)"
  by (induction xs) auto

lemma cnt_eq_length: "cnt P xs = int (length xs) \<Longrightarrow> x \<in> set xs \<Longrightarrow> P x"
  by (metis cnt_def length_filter_less less_irrefl_nat of_nat_eq_iff)

lemma cnt_le_length: "cnt P xs \<le> int (length xs)"
  by (simp add: cnt_def)

lemma cnt_less_length: "x \<in> set xs \<Longrightarrow> \<not> P x \<Longrightarrow> cnt P xs < int (length xs)"
  by (simp add: cnt_def length_filter_less)

lemma cnt_replicate: "cnt P (replicate n x) = (if P x then int n else 0)"
  by (induction n) auto

section \<open>An \<open>int\<close> copy of an \<open>unsigned long\<close>\<close>

text \<open>
  Assigning an \<open>unsigned long\<close> to an \<open>int\<close> keeps the low 32 bits (\<open>ucast\<close>); comparing the
  \<open>int\<close> with an \<open>unsigned long\<close> converts it back by sign extension (\<open>scast\<close>).
\<close>

lemma sint_ucast_int: "sint (ucast (w :: 64 word) :: 32 word) = signed_take_bit 31 (sint w)"
  by (simp add: sint_uint unsigned_ucast_eq signed_take_bit_take_bit)

lemma sint_scast_long: "sint (scast (v :: 32 word) :: 64 word) = sint v"
  by (rule sint_up_scast) (simp add: is_up)

lemma signed_cast_back:
  "(scast (ucast (w :: 64 word) :: 32 word) :: 64 word) = w \<longleftrightarrow> - (2 ^ 31) \<le> sint w \<and> sint w < 2 ^ 31"
proof -
  have "(scast (ucast w :: 32 word) :: 64 word) = w \<longleftrightarrow> signed_take_bit 31 (sint w) = sint w"
    by (metis sint_ucast_int sint_scast_long signed_word_eqI)
  then show ?thesis by (simp add: signed_take_bit_int_eq_self_iff)
qed

lemma take_bit_small:
  "k < 2 ^ 31 \<Longrightarrow> take_bit 32 k = k" "k < 2 ^ 31 \<Longrightarrow> take_bit 64 k = k" for k :: nat
  by (auto intro: take_bit_nat_eq_self)

lemma sint_of_nat_int: "k < 2 ^ 31 \<Longrightarrow> sint (of_nat k :: 32 word) = int k"
  by (simp add: sint_uint unsigned_of_nat signed_take_bit_int_eq_self_iff take_bit_small)

lemma scast_of_nat_int: "k < 2 ^ 31 \<Longrightarrow> (scast (of_nat k :: 32 word) :: 64 word) = of_nat k"
  by (simp add: scast_eq sint_of_nat_int)

lemma long_of_nat_eq:
  "k < 2 ^ 31 \<Longrightarrow> c < 2 ^ 31 \<Longrightarrow> (of_nat k :: 64 word) = of_nat c \<longleftrightarrow> k = c"
  by (simp add: word_of_nat_eq_iff take_bit_small)

lemma ucast_of_nat_int: "(ucast (of_nat k :: 64 word) :: 32 word) = of_nat k"
  by (rule bit_word_eqI) (simp add: bit_simps)

lemma replicate_numeral: "replicate (numeral k) x = x # replicate (pred_numeral k) x"
  by (simp add: numeral_eq_Suc)

text \<open>What the entries of a table hold, as one multiset.\<close>

definition gather :: "('a \<Rightarrow> 'b multiset) \<Rightarrow> 'a list \<Rightarrow> 'b multiset" where
  "gather f xs = sum_list (map f xs)"

lemma gather_simps [simp]:
  "gather f [] = {#}" "gather f (x # xs) = f x + gather f xs"
  "gather f (xs @ ys) = gather f xs + gather f ys"
  by (simp_all add: gather_def)

lemma gather_replicate [simp]: "f x = {#} \<Longrightarrow> gather f (replicate n x) = {#}"
  by (induction n) auto

lemma gather_upd: "i < length xs \<Longrightarrow> gather f (xs[i := x]) + f (xs ! i) = gather f xs + f x"
proof (induction xs arbitrary: i)
  case (Cons y xs)
  then show ?case by (cases i) (auto simp: ac_simps)
qed simp

lemma gather_same: "i < length xs \<Longrightarrow> f (xs ! i) = f x \<Longrightarrow> gather f (xs[i := x]) = gather f xs"
  using gather_upd [of i xs f x] by simp

lemma gather_gain: "i < length xs \<Longrightarrow> f (xs ! i) = {#} \<Longrightarrow> gather f (xs[i := x]) = gather f xs + f x"
  using gather_upd [of i xs f x] by simp

lemma gather_lose: "i < length xs \<Longrightarrow> f x = {#} \<Longrightarrow> gather f xs = gather f (xs[i := x]) + f (xs ! i)"
  using gather_upd [of i xs f x] by simp

section \<open>Executable transition systems\<close>

text \<open>
  A component that several threads run is a function \<open>exec s e\<close>: the state after event \<open>e\<close>, or
  \<open>None\<close> where \<open>e\<close> is not enabled in \<open>s\<close>. An event says which thread moves and what the
  environment answers; every interleaving is a sequence of events.
\<close>

inductive reach :: "('s \<Rightarrow> bool) \<Rightarrow> ('s \<Rightarrow> 'e \<Rightarrow> 's option) \<Rightarrow> 's \<Rightarrow> bool"
  for init :: "'s \<Rightarrow> bool" and exec :: "'s \<Rightarrow> 'e \<Rightarrow> 's option" where
  reach_init: "init s \<Longrightarrow> reach init exec s"
| reach_step: "reach init exec s \<Longrightarrow> exec s e = Some t \<Longrightarrow> reach init exec t"

fun run :: "('s \<Rightarrow> 'e \<Rightarrow> 's option) \<Rightarrow> 's \<Rightarrow> 'e list \<Rightarrow> 's option" where
  "run exec s [] = Some s"
| "run exec s (e # es) = (case exec s e of None \<Rightarrow> None | Some t \<Rightarrow> run exec t es)"

lemma run_append: "run exec s (es @ fs) = (case run exec s es of None \<Rightarrow> None | Some t \<Rightarrow> run exec t fs)"
  by (induction es arbitrary: s) (auto split: option.splits)

lemma run_reach: "reach init exec s \<Longrightarrow> run exec s es = Some t \<Longrightarrow> reach init exec t"
proof (induction es arbitrary: s)
  case (Cons e es)
  then show ?case by (auto split: option.splits intro: reach_step)
qed simp

lemma reach_by_run: "init s \<Longrightarrow> run exec s es = Some t \<Longrightarrow> reach init exec t"
  by (rule run_reach) (rule reach_init)

locale invariant_system =
  fixes init :: "'s \<Rightarrow> bool" and exec :: "'s \<Rightarrow> 'e \<Rightarrow> 's option" and inv :: "'s \<Rightarrow> bool"
  assumes init_inv: "init s \<Longrightarrow> inv s"
    and exec_inv: "inv s \<Longrightarrow> exec s e = Some t \<Longrightarrow> inv t"
begin

lemma reach_inv: "reach init exec s \<Longrightarrow> inv s"
  by (induction rule: reach.induct) (auto intro: init_inv exec_inv)

lemma run_inv: "inv s \<Longrightarrow> run exec s es = Some t \<Longrightarrow> inv t"
proof (induction es arbitrary: s)
  case (Cons e es)
  then show ?case by (auto split: option.splits intro: exec_inv)
qed simp

end

end
