(* ===== verification/Outcome.thy ===== *)
theory Outcome
  imports C_Prelude
begin

text \<open>
  The outcome of a call in the C++ programs: a result, a fault, or no return within the fuel given to a loop.
\<close>

section \<open>Results\<close>

text \<open>A call returns, faults, or runs out of the fuel given to its loops.\<close>

datatype 'a res = Ok 'a | Fault fault | Timeout

fun obind :: "'a res \<Rightarrow> ('a \<Rightarrow> 'b res) \<Rightarrow> 'b res" where
  "obind (Ok x) f = f x"
| "obind (Fault e) f = Fault e"
| "obind Timeout f = Timeout"

lemma obind_eq_Ok [simp]: "obind m f = Ok y \<longleftrightarrow> (\<exists>x. m = Ok x \<and> f x = Ok y)"
  by (cases m) auto

text \<open>A sequence of statements.\<close>

fun seqs :: "('s \<Rightarrow> 's res) list \<Rightarrow> 's \<Rightarrow> 's res" where
  "seqs [] s = Ok s"
| "seqs (a # as) s = obind (a s) (seqs as)"

section \<open>The type int\<close>

text \<open>An \<open>int\<close> has 32 bits; a sum that does not fit is undefined.\<close>

definition in_int :: "int \<Rightarrow> bool" where
  "in_int x \<longleftrightarrow> - (2 ^ 31) \<le> x \<and> x < 2 ^ 31"

definition int_add :: "int \<Rightarrow> int \<Rightarrow> int res" where
  "int_add a b = (if in_int (a + b) then Ok (a + b) else Fault Overflow)"

section \<open>Objects that hold a set\<close>

text \<open>
  What an object promises whose insertion succeeds for an entry whose key is not there yet: built from the empty object by the
  insertion of entries with different keys, it holds these keys.
\<close>

locale growing_set =
  fixes new_set :: "'s" and inv :: "'s \<Rightarrow> bool" and contents :: "'s \<Rightarrow> 'k set" and key :: "'e \<Rightarrow> 'k" and ins :: "'e \<Rightarrow> 's \<Rightarrow> 's res"
  assumes new_inv: "inv new_set" and new_contents: "contents new_set = {}"
    and ins_new: "inv s \<Longrightarrow> key e \<notin> contents s \<Longrightarrow> \<exists>s'. ins e s = Ok s' \<and> inv s' \<and> contents s' = Set.insert (key e) (contents s)"
begin

lemma inserts_ok:
  "inv s \<Longrightarrow> distinct (map key es) \<Longrightarrow> contents s \<inter> key ` set es = {} \<Longrightarrow>
   \<exists>s'. seqs (map ins es) s = Ok s' \<and> inv s' \<and> contents s' = contents s \<union> key ` set es"
proof (induction es arbitrary: s)
  case (Cons e es)
  from ins_new [of s e] Cons.prems obtain s1 where s1: "ins e s = Ok s1" "inv s1" "contents s1 = Set.insert (key e) (contents s)" by auto
  from Cons.IH [OF s1(2)] Cons.prems s1 show ?case by auto
qed simp

lemma inserts_new: "distinct (map key es) \<Longrightarrow> \<exists>s'. seqs (map ins es) new_set = Ok s' \<and> inv s' \<and> contents s' = key ` set es"
  using inserts_ok [OF new_inv, of es] by (simp add: new_contents)

end

end
