(* ===== verification/Accumulate.thy ===== *)
theory Accumulate
  imports Outcome "HOL-Library.Word"
begin

text \<open>
  The sum of a range in several threads (\<open>accumulate.cpp\<close>). The range is cut into blocks, one for each thread, the last one for the
  caller. A thread reads the range, which nobody writes, and its own result, and writes its own result once, when its block is summed
  up (\<open>result = std::accumulate(first, last, result)\<close>); the caller reads the results after the joins. So a block is one step: no other thread can tell
  how far it is. The number of hardware threads is an argument. The operator \<open>+\<close> of the type \<open>T\<close> and the value \<open>T()\<close> that
  the results start from are arguments as well: they are what the template is instantiated with.
\<close>

section \<open>The code\<close>

definition min_per_thread :: nat where
  "min_per_thread = 50"

definition max_threads :: "nat \<Rightarrow> nat" where
  "max_threads len = (len + min_per_thread - 1) div min_per_thread"

definition num_threads :: "nat \<Rightarrow> nat \<Rightarrow> nat" where
  "num_threads hardware_threads len = min (if hardware_threads \<noteq> 0 then hardware_threads else 2) (max_threads len)"

definition block_size :: "nat \<Rightarrow> nat \<Rightarrow> nat" where
  "block_size hardware_threads len = len div num_threads hardware_threads len"

text \<open>\<open>std::accumulate\<close>, and the block of a thread, which starts from the value in its result.\<close>

definition accumulate :: "('a \<Rightarrow> 'a \<Rightarrow> 'a) \<Rightarrow> 'a list \<Rightarrow> 'a \<Rightarrow> 'a" where
  "accumulate f xs init = foldl f init xs"

definition accumulate_block :: "('a \<Rightarrow> 'a \<Rightarrow> 'a) \<Rightarrow> 'a list \<Rightarrow> nat \<times> nat \<Rightarrow> 'a \<Rightarrow> 'a" where
  "accumulate_block f xs b r = accumulate f (take (snd b - fst b) (drop (fst b) xs)) r"

text \<open>The loop that launches threads: their blocks, and the start of the next one.\<close>

fun launch :: "nat \<Rightarrow> nat \<Rightarrow> nat \<Rightarrow> (nat \<times> nat) list \<times> nat" where
  "launch 0 sz block_start = ([], block_start)"
| "launch (Suc n) sz block_start =
     (let block_end = block_start + sz; (bs, st) = launch n sz block_end in ((block_start, block_end) # bs, st))"

definition blocks :: "nat \<Rightarrow> nat \<Rightarrow> (nat \<times> nat) list" where
  "blocks hw len = (let (bs, block_start) = launch (num_threads hw len - 1) (block_size hw len) 0 in bs @ [(block_start, len)])"

record 'a team =
  results :: "'a list"
  running :: "bool list"

definition team_start :: "'a \<Rightarrow> nat \<Rightarrow> 'a list \<Rightarrow> 'a team" where
  "team_start zero hw xs = \<lparr>results = replicate (num_threads hw (length xs)) zero, running = replicate (num_threads hw (length xs)) True\<rparr>"

definition team_exec :: "('a \<Rightarrow> 'a \<Rightarrow> 'a) \<Rightarrow> nat \<Rightarrow> 'a list \<Rightarrow> 'a team \<Rightarrow> nat \<Rightarrow> 'a team option" where
  "team_exec f hw xs s i =
     (if i < length (running s) \<and> running s ! i then
        Some (s\<lparr>results := (results s)[i := accumulate_block f xs (blocks hw (length xs) ! i) (results s ! i)], running := (running s)[i := False]\<rparr>)
      else None)"

text \<open>What a call can return: \<open>join\<close> waits for every thread.\<close>

definition parallel_accumulate :: "('a \<Rightarrow> 'a \<Rightarrow> 'a) \<Rightarrow> 'a \<Rightarrow> nat \<Rightarrow> 'a list \<Rightarrow> 'a \<Rightarrow> 'a \<Rightarrow> bool" where
  "parallel_accumulate f zero hw xs init y \<longleftrightarrow>
     (if xs = [] then y = init
      else \<exists>s. reach (\<lambda>s. s = team_start zero hw xs) (team_exec f hw xs) s \<and> True \<notin> set (running s) \<and> y = accumulate f (results s) init)"

section \<open>Blocks\<close>

lemma num_threads_bounds:
  assumes "0 < len"
  shows "0 < num_threads hw len" "num_threads hw len \<le> len"
proof -
  have "0 < max_threads len" "max_threads len \<le> len" using assms by (auto simp: max_threads_def min_per_thread_def div_greater_zero_iff)
  then show "0 < num_threads hw len" "num_threads hw len \<le> len" by (auto simp: num_threads_def)
qed

text \<open>The blocks follow one another, end in the range, and cover it.\<close>

definition part_of :: "'a list \<Rightarrow> nat \<times> nat \<Rightarrow> 'a list" where
  "part_of xs b = take (snd b - fst b) (drop (fst b) xs)"

lemma launch_blocks:
  "start + n * sz \<le> length xs \<Longrightarrow> launch n sz start = (bs, st) \<Longrightarrow>
   length bs = n \<and> st = start + n * sz \<and> concat (map (part_of xs) bs) = take (n * sz) (drop start xs) \<and>
   (\<forall>b \<in> set bs. fst b \<le> snd b \<and> snd b \<le> length xs)"
proof (induction n arbitrary: start bs)
  case (Suc n)
  obtain bs' where l: "launch n sz (start + sz) = (bs', st)" "bs = (start, start + sz) # bs'"
    using Suc.prems(2) by (auto simp: Let_def split: prod.splits)
  have le: "start + sz + n * sz \<le> length xs" using Suc.prems(1) by simp
  have "part_of xs (start, start + sz) @ take (n * sz) (drop (start + sz) xs) = take (Suc n * sz) (drop start xs)"
    by (simp add: part_of_def take_add add.commute)
  then show ?case using Suc.IH [OF le l(1)] l(2) le by auto
qed simp

lemma blocks_cover:
  assumes "xs \<noteq> []"
  shows "length (blocks hw (length xs)) = num_threads hw (length xs)" "concat (map (part_of xs) (blocks hw (length xs))) = xs"
    "\<forall>b \<in> set (blocks hw (length xs)). fst b \<le> snd b \<and> snd b \<le> length xs"
proof -
  let ?n = "num_threads hw (length xs)" and ?sz = "block_size hw (length xs)"
  have n: "0 < ?n" using num_threads_bounds assms by simp
  have "?n * ?sz \<le> length xs" by (simp add: block_size_def)
  then have le: "0 + (?n - 1) * ?sz \<le> length xs" by (metis add_0 diff_le_self le_trans mult_le_mono1)
  obtain bs st where l: "launch (?n - 1) ?sz 0 = (bs, st)" by fastforce
  note b = launch_blocks [OF le l]
  show "length (blocks hw (length xs)) = ?n" using b l n by (simp add: blocks_def)
  show "concat (map (part_of xs) (blocks hw (length xs))) = xs" using b l by (simp add: blocks_def) (simp add: part_of_def)
  show "\<forall>b \<in> set (blocks hw (length xs)). fst b \<le> snd b \<and> snd b \<le> length xs" using b l le by (auto simp: blocks_def)
qed

section \<open>Every interleaving\<close>

definition team_inv :: "('a \<Rightarrow> 'a \<Rightarrow> 'a) \<Rightarrow> 'a \<Rightarrow> nat \<Rightarrow> 'a list \<Rightarrow> 'a team \<Rightarrow> bool" where
  "team_inv f zero hw xs s \<longleftrightarrow> length (results s) = num_threads hw (length xs) \<and> length (running s) = num_threads hw (length xs) \<and>
     (\<forall>i < num_threads hw (length xs). results s ! i = (if running s ! i then zero else accumulate_block f xs (blocks hw (length xs) ! i) zero))"

interpretation team: invariant_system "\<lambda>s. s = team_start zero hw xs" "team_exec f hw xs" "team_inv f zero hw xs" for zero f hw xs
  by unfold_locales (auto simp: team_inv_def team_start_def team_exec_def nth_list_update split: if_splits)

text \<open>What the template needs of its type: an associative operation for which the initial value of the results is neutral.\<close>

locale accumulation =
  fixes f :: "'a \<Rightarrow> 'a \<Rightarrow> 'a" and zero :: 'a
  assumes assoc: "f (f a b) c = f a (f b c)" and neutral: "f a zero = a"
begin

lemma foldl_out: "f a (foldl f b xs) = foldl f (f a b) xs"
  by (induction xs arbitrary: b) (simp_all add: assoc)

lemma accumulate_parts: "accumulate f (map (\<lambda>xs. accumulate f xs zero) xss) init = accumulate f (concat xss) init"
  by (induction xss arbitrary: init) (simp_all add: accumulate_def foldl_out neutral)

lemma done_result:
  assumes "xs \<noteq> []" "team_inv f zero hw xs s" "True \<notin> set (running s)"
  shows "accumulate f (results s) init = accumulate f xs init"
proof -
  have run: "\<not> running s ! i" if "i < num_threads hw (length xs)" for i
  proof -
    have "running s ! i \<in> set (running s)" using assms(2) that by (simp add: team_inv_def)
    then show ?thesis using assms(3) by auto
  qed
  have "results s = map (\<lambda>b. accumulate f (part_of xs b) zero) (blocks hw (length xs))"
    using assms(2) run by (intro nth_equalityI) (auto simp: team_inv_def blocks_cover [OF assms(1)] accumulate_block_def part_of_def)
  then show ?thesis using accumulate_parts [of "map (part_of xs) (blocks hw (length xs))" init]
    by (simp add: blocks_cover [OF assms(1)] comp_def)
qed

end

text \<open>Unsigned machine integers are such a type, since their sums wrap around.\<close>

interpretation unsigned_sum: accumulation "(+)" "0 :: 32 word"
  by unfold_locales (simp_all add: ac_simps)

text \<open>While a thread runs it can go on, and every step ends one: so a run of the team ends.\<close>

lemma team_progress: "True \<in> set (running s) \<Longrightarrow> \<exists>i t. team_exec f hw xs s i = Some t"
  by (auto simp: in_set_conv_nth team_exec_def)

lemma team_step_ends:
  assumes "team_exec f hw xs s i = Some t"
  shows "card {i. i < length (running t) \<and> running t ! i} < card {i. i < length (running s) \<and> running s ! i}"
proof (rule psubset_card_mono)
  have t: "running t = (running s)[i := False]" "i < length (running s)" "running s ! i" using assms by (auto simp: team_exec_def split: if_splits)
  then show "{i. i < length (running t) \<and> running t ! i} \<subset> {i. i < length (running s) \<and> running s ! i}"
    by (auto simp: nth_list_update psubset_eq split: if_splits)
qed simp

lemma team_ends:
  "reach init (team_exec f hw xs) s \<Longrightarrow> \<exists>t. reach init (team_exec f hw xs) t \<and> True \<notin> set (running t)"
proof (induction "card {i. i < length (running s) \<and> running s ! i}" arbitrary: s rule: less_induct)
  case less
  show ?case
  proof (cases "True \<in> set (running s)")
    case True
    then obtain i t where t: "team_exec f hw xs s i = Some t" using team_progress by blast
    show ?thesis by (rule less.hyps [OF team_step_ends [OF t] reach_step [OF less.prems t]])
  qed (use less.prems in blast)
qed

context accumulation
begin

lemma returns: "parallel_accumulate f zero hw xs init y \<longleftrightarrow> y = accumulate f xs init"
proof (cases "xs = []")
  case False
  have "accumulate f (results s) init = accumulate f xs init"
    if "reach (\<lambda>s. s = team_start zero hw xs) (team_exec f hw xs) s" "True \<notin> set (running s)" for s
    using done_result [OF False team.reach_inv [OF that(1)] that(2)] .
  moreover have "\<exists>s. reach (\<lambda>s. s = team_start zero hw xs) (team_exec f hw xs) s \<and> True \<notin> set (running s)"
    by (rule team_ends) (rule reach_init, rule refl)
  ultimately show ?thesis using False by (auto simp: parallel_accumulate_def)
qed (simp add: parallel_accumulate_def accumulate_def)

end

text \<open>
  C35: for every type whose operator \<open>+\<close> is associative and whose value \<open>T()\<close> is neutral on the right, with any number of hardware threads and in every
  interleaving of its threads \<open>parallel_accumulate\<close> returns what one call of \<open>std::accumulate\<close> returns, and it can return.
  Unsigned integers are such a type; floating point numbers, whose sums depend on the order, and signed integers whose sums
  overflow are not.
\<close>

theorem parallel_accumulate_equiv:
  assumes "\<And>a b c. f (f a b) c = f a (f b c)" "\<And>a. f a zero = a"
  shows "parallel_accumulate f zero hw xs init y \<longleftrightarrow> y = accumulate f xs init"
proof (rule accumulation.returns)
  show "accumulation f zero" by (rule accumulation.intro) (rule assms)+
qed

theorem parallel_accumulate_equiv_witness:
  "parallel_accumulate (+) (0 :: 32 word) 4 (replicate 120 (2 ^ 31)) 7 7"
proof -
  have "accumulate (+) (replicate 120 (2 ^ 31 :: 32 word)) 7 = 7" by code_simp
  then show ?thesis using parallel_accumulate_equiv [of "(+)" "0 :: 32 word"] by (simp add: ac_simps)
qed

end
