(* ===== verification/C_String.thy ===== *)
theory C_String
  imports C_Prelude
begin

text \<open>
  The string functions of the C library the programs use, on lists of characters. A buffer is the
  list of its initialised bytes; a C string in it ends at the first zero byte, and reading one that
  has no zero byte runs out of the buffer.
\<close>

section \<open>Reading and searching\<close>

text \<open>\<open>fgets\<close> into a buffer of \<open>n + 1\<close> bytes: at most \<open>n\<close> characters, up to and including a newline.\<close>

fun fgets :: "nat \<Rightarrow> string \<Rightarrow> string \<times> string" where
  "fgets 0 s = ([], s)"
| "fgets (Suc n) [] = ([], [])"
| "fgets (Suc n) (c # s) =
     (if c = CHR 0x0A then ([c], s) else (case fgets n s of (b, r) \<Rightarrow> (c # b, r)))"

definition cstr :: "string \<Rightarrow> string" where
  "cstr s = takeWhile (\<lambda>c. c \<noteq> CHR 0x00) s"

fun has_prefix :: "string \<Rightarrow> string \<Rightarrow> bool" where
  "has_prefix [] s = True"
| "has_prefix (p # ps) [] = False"
| "has_prefix (p # ps) (c # cs) = (p = c \<and> has_prefix ps cs)"

fun strstr :: "string \<Rightarrow> string \<Rightarrow> bool" where
  "strstr [] pat = has_prefix pat []"
| "strstr (c # cs) pat = (has_prefix pat (c # cs) \<or> strstr cs pat)"

lemma fgets_append: "fgets n s = (b, r) \<Longrightarrow> b @ r = s"
  by (induction n s arbitrary: b r rule: fgets.induct) (auto split: if_splits prod.splits)

lemma fgets_progress: "(b, r) = fgets n s \<Longrightarrow> 0 < n \<Longrightarrow> s \<noteq> [] \<Longrightarrow> length r < length s"
  using fgets_append [of n s b r] by (cases s; cases n) (auto split: if_splits prod.splits)

lemma has_prefix_append: "has_prefix p s \<Longrightarrow> \<exists>b. s = p @ b"
  by (induction p s rule: has_prefix.induct) auto

lemma strstr_sound: "strstr s p \<Longrightarrow> \<exists>a b. s = a @ p @ b"
proof (induction s p rule: strstr.induct)
  case (2 c cs p)
  then show ?case
  proof (cases "has_prefix p (c # cs)")
    case True
    then show ?thesis using has_prefix_append [of p "c # cs"] by (metis append_Nil)
  next
    case False
    with 2 obtain a b where "cs = a @ p @ b" by auto
    then have "c # cs = (c # a) @ p @ b" by simp
    then show ?thesis by blast
  qed
qed (auto dest: has_prefix_append)

section \<open>Buffers\<close>

abbreviation NUL :: char where
  "NUL \<equiv> CHR 0x00"

text \<open>\<open>strncpy\<close> pads with zeros and does not terminate a source of \<open>n\<close> characters or more.\<close>

definition strncpy :: "nat \<Rightarrow> string \<Rightarrow> string" where
  "strncpy n src = take n (src @ replicate n NUL)"

definition buf_str :: "string \<Rightarrow> fault + string" where
  "buf_str buf = (if NUL \<in> set buf then Inr (cstr buf) else Inl OutOfBounds)"

lemma cstr_append_NUL [simp]: "NUL \<notin> set s \<Longrightarrow> cstr (s @ NUL # r) = s"
  unfolding cstr_def by (subst takeWhile_append2) auto

lemma buf_str_terminated [simp]: "NUL \<notin> set s \<Longrightarrow> buf_str (s @ NUL # r) = Inr s"
  by (simp add: buf_str_def)

lemma cstr_replicate [simp]: "cstr (replicate n NUL) = []"
  by (cases n) (simp_all add: cstr_def)

lemma strncpy_short: "NUL \<notin> set s \<Longrightarrow> length s < n \<Longrightarrow> buf_str (strncpy n s) = Inr s"
proof -
  assume s: "NUL \<notin> set s" "length s < n"
  then have "strncpy n s = s @ NUL # replicate (n - length s - 1) NUL"
    by (cases "n - length s") (auto simp: strncpy_def)
  with s show ?thesis by simp
qed

lemma strncpy_long: "NUL \<notin> set s \<Longrightarrow> n \<le> length s \<Longrightarrow> buf_str (strncpy n s) = Inl OutOfBounds"
  by (auto simp: strncpy_def buf_str_def dest: in_set_takeD)

section \<open>Formatting\<close>

text \<open>\<open>%d\<close> of a number that is not negative, and \<open>sprintf\<close> into a buffer of \<open>n\<close> bytes.\<close>

fun decimal :: "nat \<Rightarrow> string" where
  "decimal n = (if n < 10 then [char_of (48 + n)] else decimal (n div 10) @ [char_of (48 + n mod 10)])"

declare decimal.simps [simp del]

definition sprintf :: "nat \<Rightarrow> string \<Rightarrow> fault + string" where
  "sprintf n s = (if length s < n then Inr s else Inl OutOfBounds)"

lemma decimal_nonempty: "0 < length (decimal n)"
  by (subst decimal.simps) simp

lemma decimal_small: "n < 10 \<Longrightarrow> decimal n = [char_of (48 + n)]"
  by (subst decimal.simps) simp

end
