(* ===== verification/Arg_List.thy ===== *)
theory Arg_List
  imports C_String Outcome
begin

text \<open>
  The arguments of a process (\<open>print-arg-list.c\<close>): the file of the process holds its arguments, each with a zero byte behind it. What \<open>read\<close>
  returns is an argument of the model, \<open>None\<close> for an error.
\<close>

section \<open>The code\<close>

definition arg_size :: nat where
  "arg_size = 1024"

text \<open>The loop over the arguments; the buffer ends with the zero byte written behind the text.\<close>

function arg_loop :: "string \<Rightarrow> nat \<Rightarrow> nat \<Rightarrow> string list" where
  "arg_loop buf len next_arg =
     (if next_arg < len then (let a = cstr (drop next_arg buf) in a # arg_loop buf len (next_arg + length a + 1)) else [])"
  by pat_completeness auto
termination
  by (relation "measure (\<lambda>(buf, len, next_arg). len - next_arg)") auto

text \<open>The result -1 of \<open>read\<close> is a large number as a \<open>size_t\<close>.\<close>

definition print_process_arg_list :: "string option \<Rightarrow> string list res" where
  "print_process_arg_list bytes =
     (case bytes of None \<Rightarrow> Fault OutOfBounds
      | Some b \<Rightarrow> if length b < arg_size then Ok (arg_loop (b @ [NUL]) (length b) 0) else Fault OutOfBounds)"

section \<open>Arguments and their text\<close>

definition cmdline :: "string list \<Rightarrow> string" where
  "cmdline args = concat (map (\<lambda>a. a @ [NUL]) args)"

declare arg_loop.simps [simp del]

lemma cstr_append: "NUL \<notin> set a \<Longrightarrow> cstr (a @ NUL # r) = a"
  by (induction a) (auto simp: cstr_def)

lemma arg_loop_cmdline:
  "\<forall>a \<in> set args. NUL \<notin> set a \<Longrightarrow> NUL \<notin> set l \<Longrightarrow>
   arg_loop (p @ cmdline args @ l @ [NUL]) (length (p @ cmdline args @ l)) (length p) = args @ (if l = [] then [] else [l])"
proof (induction args arbitrary: p)
  case Nil
  then show ?case using cstr_append [of l "[]"] by (simp add: arg_loop.simps [of _ _ "length p"] arg_loop.simps [of _ _ "Suc _"] cmdline_def Let_def)
next
  case (Cons a args)
  let ?buf = "p @ cmdline (a # args) @ l @ [NUL]"
  have "cstr (drop (length p) ?buf) = a" using Cons.prems(1) cstr_append [of a "cmdline args @ l @ [NUL]"] by (simp add: cmdline_def)
  then have "arg_loop ?buf (length (p @ cmdline (a # args) @ l)) (length p) =
      a # arg_loop ?buf (length (p @ cmdline (a # args) @ l)) (length (p @ a @ [NUL]))"
    by (subst arg_loop.simps) (simp add: cmdline_def Let_def)
  then show ?case using Cons.IH [of "p @ a @ [NUL]"] Cons.prems by (simp add: cmdline_def)
qed

text \<open>
  The arguments of a process are printed as they are, one by one and the empty ones too, as long as their text is shorter than the
  buffer; a last argument without a zero byte is printed as well. A text that fills the buffer, and an error of \<open>read\<close>, lead to a
  write out of bounds.
\<close>

theorem print_arg_list_roundtrip:
  assumes "\<forall>a \<in> set args. NUL \<notin> set a" "NUL \<notin> set l"
  shows "print_process_arg_list (Some (cmdline args @ l)) =
    (if length (cmdline args @ l) < 1024 then Ok (args @ (if l = [] then [] else [l])) else Fault OutOfBounds)"
  using arg_loop_cmdline [OF assms, of "[]"] by (simp add: print_process_arg_list_def arg_size_def)

lemma print_arg_list_error: "print_process_arg_list None = Fault OutOfBounds"
  by (simp add: print_process_arg_list_def)

theorem print_arg_list_roundtrip_witness: "print_process_arg_list (Some (cmdline [''ls'', '''', ''-l''])) = Ok [''ls'', '''', ''-l'']"
  using print_arg_list_roundtrip [of "[''ls'', '''', ''-l'']" "[]"] by (simp add: cmdline_def)

end
