(* ===== verification/Cut_Vertex.thy ===== *)
theory Cut_Vertex
  imports Main
begin

text \<open>
  Cut vertices of an undirected graph and depth first forests, as the program for articulation points relies on them. The forest
  is given by the parent of each vertex, with a discovery time and a low value; the laws of these are local, and the main result is
  that they find exactly the vertices whose removal separates two connected ones.
\<close>

section \<open>Definitions\<close>

definition without :: "nat \<Rightarrow> (nat \<times> nat) set \<Rightarrow> (nat \<times> nat) set" where
  "without u E = {(a, b) \<in> E. a \<noteq> u \<and> b \<noteq> u}"

definition is_cut :: "(nat \<times> nat) set \<Rightarrow> nat \<Rightarrow> bool" where
  "is_cut E u \<longleftrightarrow> (\<exists>x y. x \<noteq> u \<and> y \<noteq> u \<and> (x, y) \<in> E\<^sup>* \<and> (x, y) \<notin> (without u E)\<^sup>*)"

definition tree :: "(nat \<Rightarrow> nat option) \<Rightarrow> (nat \<times> nat) set" where
  "tree par = {(p, c). par c = Some p}"

text \<open>
  Tree edges are edges to later vertices; the ends of every edge are ancestors of one another; a low value is below a bound exactly
  if the time of the vertex, the low value of a child, or the time of a neighbour that is not the parent is.
\<close>

definition dfs_forest :: "(nat \<times> nat) set \<Rightarrow> (nat \<Rightarrow> nat option) \<Rightarrow> (nat \<Rightarrow> int) \<Rightarrow> (nat \<Rightarrow> int) \<Rightarrow> bool" where
  "dfs_forest E par disc low \<longleftrightarrow> sym E \<and> finite (tree par) \<and>
     (\<forall>(p, c) \<in> tree par. (p, c) \<in> E \<and> disc p < disc c) \<and>
     (\<forall>(x, y) \<in> E. (x, y) \<in> (tree par)\<^sup>* \<or> (y, x) \<in> (tree par)\<^sup>*) \<and>
     (\<forall>v t. low v < t \<longleftrightarrow> disc v < t \<or> (\<exists>c. par c = Some v \<and> low c < t) \<or> (\<exists>y. (v, y) \<in> E \<and> par v \<noteq> Some y \<and> disc y < t))"

definition reported :: "(nat \<Rightarrow> nat option) \<Rightarrow> (nat \<Rightarrow> int) \<Rightarrow> (nat \<Rightarrow> int) \<Rightarrow> nat \<Rightarrow> bool" where
  "reported par disc low u \<longleftrightarrow>
     (if par u = None then \<exists>c c'. c \<noteq> c' \<and> par c = Some u \<and> par c' = Some u else \<exists>c. par c = Some u \<and> disc u \<le> low c)"

lemma without_sym: "sym E \<Longrightarrow> sym (without u E)"
  by (auto simp: without_def sym_def)

lemma rtrancl_sym: "sym E \<Longrightarrow> (x, y) \<in> E\<^sup>* \<Longrightarrow> (y, x) \<in> E\<^sup>*"
  by (metis sym_rtrancl symD)

lemma path_avoids: "(x, y) \<in> E\<^sup>* \<Longrightarrow> x \<noteq> u \<Longrightarrow> (x, y) \<in> (without u E)\<^sup>* \<or> (u, y) \<in> E\<^sup>*"
proof (induction rule: rtrancl_induct)
  case (step y z)
  then show ?case
  proof (cases "y = u \<or> z = u")
    case False
    then show ?thesis using step by (auto simp: without_def intro: rtrancl.intros)
  next
    case True
    then show ?thesis using step(2) by auto
  qed
qed simp

section \<open>The forest\<close>

lemma dfs_forestD:
  assumes "dfs_forest E par disc low"
  shows "sym E" "finite (tree par)" "par c = Some p \<Longrightarrow> (p, c) \<in> E \<and> disc p < disc c"
    "(x, y) \<in> E \<Longrightarrow> (x, y) \<in> (tree par)\<^sup>* \<or> (y, x) \<in> (tree par)\<^sup>*"
    "low v < t \<longleftrightarrow> disc v < t \<or> (\<exists>c. par c = Some v \<and> low c < t) \<or> (\<exists>y. (v, y) \<in> E \<and> par v \<noteq> Some y \<and> disc y < t)"
  using assms unfolding dfs_forest_def tree_def by blast+

lemma anc_disc:
  assumes "dfs_forest E par disc low" "(x, y) \<in> (tree par)\<^sup>*"
  shows "x = y \<or> disc x < disc y"
  using assms(2)
proof (induction rule: rtrancl_induct)
  case (step y z)
  then have "disc y < disc z" using dfs_forestD(3) [OF assms(1)] by (simp add: tree_def)
  then show ?case using step.IH by auto
qed simp

lemma anc_linear:
  assumes "(a, x) \<in> (tree par)\<^sup>*" "(b, x) \<in> (tree par)\<^sup>*"
  shows "(a, b) \<in> (tree par)\<^sup>* \<or> (b, a) \<in> (tree par)\<^sup>*"
proof -
  have "single_valued ((tree par)\<inverse>)" by (auto simp: single_valued_def tree_def)
  from single_valued_confluent [OF this, of x a b] assms show ?thesis by (auto simp: rtrancl_converse)
qed

lemma anc_parent: "(a, c) \<in> (tree par)\<^sup>* \<Longrightarrow> a \<noteq> c \<Longrightarrow> par c = Some p \<Longrightarrow> (a, p) \<in> (tree par)\<^sup>*"
  by (erule rtranclE) (auto simp: tree_def)

lemma anc_root: "(a, u) \<in> (tree par)\<^sup>* \<Longrightarrow> par u = None \<Longrightarrow> a = u"
  by (erule rtranclE) (auto simp: tree_def)

lemma anc_child: "(u, y) \<in> (tree par)\<^sup>* \<Longrightarrow> y \<noteq> u \<Longrightarrow> \<exists>c. par c = Some u \<and> (c, y) \<in> (tree par)\<^sup>*"
  by (erule converse_rtranclE) (auto simp: tree_def)

text \<open>A low value is below a bound if some descendant leads below it by one edge.\<close>

lemma low_down:
  assumes f: "dfs_forest E par disc low"
  shows "low v < t \<Longrightarrow> \<exists>x. (v, x) \<in> (tree par)\<^sup>* \<and> (disc x < t \<or> (\<exists>y. (x, y) \<in> E \<and> par x \<noteq> Some y \<and> disc y < t))"
proof (induction "card {e \<in> tree par. disc v < disc (snd e)}" arbitrary: v rule: less_induct)
  case less
  consider "disc v < t" | c where "par c = Some v" "low c < t" | y where "(v, y) \<in> E" "par v \<noteq> Some y" "disc y < t"
    using less.prems dfs_forestD(5) [OF f, of v t] by blast
  then show ?case
  proof cases
    case (2 c)
    have vc: "disc v < disc c" "(v, c) \<in> tree par" using dfs_forestD(3) [OF f 2(1)] 2(1) by (auto simp: tree_def)
    have "card {e \<in> tree par. disc c < disc (snd e)} < card {e \<in> tree par. disc v < disc (snd e)}"
    proof (rule psubset_card_mono)
      show "finite {e \<in> tree par. disc v < disc (snd e)}" using dfs_forestD(2) [OF f] by simp
      have "(v, c) \<in> {e \<in> tree par. disc v < disc (snd e)} - {e \<in> tree par. disc c < disc (snd e)}" using vc by simp
      then show "{e \<in> tree par. disc c < disc (snd e)} \<subset> {e \<in> tree par. disc v < disc (snd e)}" using vc(1) by force
    qed
    from less.hyps [OF this 2(2)] show ?thesis using vc(2) by (meson converse_rtrancl_into_rtrancl)
  qed blast+
qed

lemma low_up:
  assumes f: "dfs_forest E par disc low" and "(v, x) \<in> (tree par)\<^sup>*" "low x < t"
  shows "low v < t"
  using assms(2,3)
proof (induction rule: converse_rtrancl_induct)
  case (step y z)
  then show ?case using dfs_forestD(5) [OF f, of y t] by (auto simp: tree_def)
qed

section \<open>Tree paths that avoid a vertex\<close>

lemma tree_path_outside:
  assumes f: "dfs_forest E par disc low" and "(a, x) \<in> (tree par)\<^sup>*" "(u, x) \<notin> (tree par)\<^sup>*"
  shows "(a, x) \<in> (without u E)\<^sup>*"
  using assms(2,3)
proof (induction rule: rtrancl_induct)
  case (step w x)
  have w: "(u, w) \<notin> (tree par)\<^sup>*" using step(2,4) by (meson rtrancl.rtrancl_into_rtrancl)
  then have "w \<noteq> u" "x \<noteq> u" using step(4) by auto
  then have "(w, x) \<in> without u E" using step(2) dfs_forestD(3) [OF f] by (auto simp: without_def tree_def)
  then show ?case using step(3) w by (meson rtrancl.rtrancl_into_rtrancl)
qed simp

lemma tree_path_below:
  assumes f: "dfs_forest E par disc low" and "(c, x) \<in> (tree par)\<^sup>*" "par c = Some u"
  shows "(c, x) \<in> (without u E)\<^sup>*"
  using assms(2)
proof (induction rule: rtrancl_induct)
  case (step w x)
  have uc: "disc u < disc c" using dfs_forestD(3) [OF f assms(3)] by simp
  have "(c, x) \<in> (tree par)\<^sup>*" using step(1,2) by simp
  then have "w \<noteq> u" "x \<noteq> u" using anc_disc [OF f step(1)] anc_disc [OF f, of c x] uc by auto
  then have "(w, x) \<in> without u E" using step(2) dfs_forestD(3) [OF f] by (auto simp: without_def tree_def)
  then show ?case using step(3) by simp
qed simp

text \<open>A subtree below \<open>u\<close> is only connected to \<open>u\<close> unless it leads above \<open>u\<close>.\<close>

lemma subtree_closed:
  assumes f: "dfs_forest E par disc low" and c: "par c = Some u" "par u = None \<or> disc u \<le> low c"
  shows "(x, y) \<in> (without u E)\<^sup>* \<Longrightarrow> (c, x) \<in> (tree par)\<^sup>* \<Longrightarrow> (c, y) \<in> (tree par)\<^sup>*"
proof (induction rule: rtrancl_induct)
  case (step y z)
  then have cy: "(c, y) \<in> (tree par)\<^sup>*" and e: "(y, z) \<in> E" "z \<noteq> u" by (auto simp: without_def)
  show ?case
  proof (rule ccontr)
    assume n: "(c, z) \<notin> (tree par)\<^sup>*"
    then have "(z, y) \<in> (tree par)\<^sup>*" using dfs_forestD(4) [OF f e(1)] cy by (meson rtrancl_trans)
    then have "(z, c) \<in> (tree par)\<^sup>*" using anc_linear [OF cy] n by blast
    then have zu: "(z, u) \<in> (tree par)\<^sup>*" using anc_parent c(1) n by blast
    then have "par u \<noteq> None" using anc_root e(2) by metis
    then have low: "disc u \<le> low c" using c(2) by auto
    have "disc z < disc u" using anc_disc [OF f zu] e(2) by simp
    moreover have "par y \<noteq> Some z"
    proof
      assume p: "par y = Some z"
      then have "y \<noteq> c" using c(1) e(2) by auto
      then show False using anc_parent [OF cy _ p] n by auto
    qed
    ultimately have "low y < disc u" using e(1) dfs_forestD(5) [OF f, of y "disc u"] by blast
    then show False using low_up [OF f cy] low by fastforce
  qed
qed simp

section \<open>Reported vertices are the cut vertices\<close>

lemma reported_cut:
  assumes f: "dfs_forest E par disc low" and rep: "reported par disc low u"
  shows "is_cut E u"
proof -
  have "\<exists>c y. par c = Some u \<and> (par u = None \<or> disc u \<le> low c) \<and> y \<noteq> u \<and> (u, y) \<in> E \<and> (c, y) \<notin> (tree par)\<^sup>*"
  proof (cases "par u")
    case None
    then obtain c c' where c: "c \<noteq> c'" "par c = Some u" "par c' = Some u" using rep by (auto simp: reported_def)
    have "(c, c') \<notin> (tree par)\<^sup>*"
    proof
      assume "(c, c') \<in> (tree par)\<^sup>*"
      then have "(c, u) \<in> (tree par)\<^sup>*" using anc_parent [of c c' par u] c(1,3) by blast
      then show False using anc_disc [OF f] dfs_forestD(3) [OF f c(2)] by fastforce
    qed
    moreover have "c' \<noteq> u" "(u, c') \<in> E" using dfs_forestD(3) [OF f c(3)] by auto
    ultimately show ?thesis using None c(2) by blast
  next
    case (Some p)
    then obtain c where c: "par c = Some u" "disc u \<le> low c" using rep by (auto simp: reported_def)
    have p: "(p, u) \<in> E" "disc p < disc u" "disc u < disc c" using dfs_forestD(3) [OF f] Some c(1) by auto
    then have "(c, p) \<notin> (tree par)\<^sup>*" "p \<noteq> u" using anc_disc [OF f, of c p] by auto
    then show ?thesis using c p(1) dfs_forestD(1) [OF f] by (meson symD)
  qed
  then obtain c y where c: "par c = Some u" "par u = None \<or> disc u \<le> low c" "y \<noteq> u" "(u, y) \<in> E" "(c, y) \<notin> (tree par)\<^sup>*" by blast
  have uc: "(c, u) \<in> E" "c \<noteq> u" using dfs_forestD(1,3) [OF f] c(1) by (auto dest: symD)
  have "(c, y) \<in> E\<^sup>*" using uc(1) c(4) by (meson converse_rtrancl_into_rtrancl rtrancl.rtrancl_refl)
  moreover have "(c, y) \<notin> (without u E)\<^sup>*" using subtree_closed [OF f c(1,2)] c(5) by blast
  ultimately show ?thesis using uc(2) c(3) unfolding is_cut_def by blast
qed

text \<open>If \<open>u\<close> is not reported, one vertex reaches all neighbours of \<open>u\<close> without \<open>u\<close>.\<close>

lemma unreported_up:
  assumes f: "dfs_forest E par disc low" and c: "par c = Some u" "par u = Some p" "low c < disc u"
  shows "(p, c) \<in> (without u E)\<^sup>*"
proof -
  have sym: "sym (without u E)" using without_sym dfs_forestD(1) [OF f] by blast
  have d: "disc p < disc u" "disc u < disc c" using dfs_forestD(3) [OF f] c(1,2) by auto
  obtain x where x: "(c, x) \<in> (tree par)\<^sup>*" "disc x < disc u \<or> (\<exists>y. (x, y) \<in> E \<and> par x \<noteq> Some y \<and> disc y < disc u)"
    using low_down [OF f c(3)] by blast
  have dx: "disc u < disc x" using anc_disc [OF f x(1)] d(2) by auto
  then obtain z where z: "(x, z) \<in> E" "disc z < disc u" using x(2) by fastforce
  then have "(z, x) \<in> (tree par)\<^sup>*" using dfs_forestD(4) [OF f z(1)] anc_disc [OF f, of x z] dx by auto
  then have "(z, c) \<in> (tree par)\<^sup>*" using anc_linear [OF x(1)] anc_disc [OF f, of c z] z(2) d(2) by force
  then have "(z, u) \<in> (tree par)\<^sup>*" using anc_parent [of z c par u] c(1) z(2) d(2) by force
  then have zp: "(z, p) \<in> (tree par)\<^sup>*" using anc_parent [of z u par p] c(2) z(2) by force
  have "(u, p) \<notin> (tree par)\<^sup>*" using anc_disc [OF f, of u p] d(1) by auto
  then have "(z, p) \<in> (without u E)\<^sup>*" using tree_path_outside [OF f zp] by blast
  moreover have "(x, z) \<in> without u E" using z dx by (auto simp: without_def)
  moreover have "(c, x) \<in> (without u E)\<^sup>*" using tree_path_below [OF f x(1) c(1)] .
  ultimately have "(c, p) \<in> (without u E)\<^sup>*" by (meson rtrancl.rtrancl_into_rtrancl rtrancl_trans)
  then show ?thesis using rtrancl_sym [OF sym] by blast
qed

lemma unreported_hub:
  assumes f: "dfs_forest E par disc low" and "\<not> reported par disc low u"
  shows "\<exists>h. \<forall>y. (u, y) \<in> E \<longrightarrow> y \<noteq> u \<longrightarrow> (h, y) \<in> (without u E)\<^sup>*"
proof (cases "par u")
  case None
  have "\<exists>h. \<forall>c. par c = Some u \<longrightarrow> c = h" using assms(2) None by (auto simp: reported_def) metis
  then obtain h where h: "\<And>c. par c = Some u \<Longrightarrow> c = h" by blast
  have "(h, y) \<in> (without u E)\<^sup>*" if y: "(u, y) \<in> E" "y \<noteq> u" for y
  proof -
    have "(u, y) \<in> (tree par)\<^sup>*" using dfs_forestD(4) [OF f y(1)] anc_root None y(2) by metis
    then obtain c where c: "par c = Some u" "(c, y) \<in> (tree par)\<^sup>*" using anc_child y(2) by blast
    then show ?thesis using h [OF c(1)] tree_path_below [OF f c(2,1)] by simp
  qed
  then show ?thesis by blast
next
  case (Some p)
  have sym: "sym (without u E)" using without_sym dfs_forestD(1) [OF f] by blast
  have "disc p < disc u" using dfs_forestD(3) [OF f Some] by simp
  then have up: "(u, p) \<notin> (tree par)\<^sup>*" using anc_disc [OF f, of u p] by auto
  have "(p, y) \<in> (without u E)\<^sup>*" if y: "(u, y) \<in> E" "y \<noteq> u" for y
  proof (cases "(u, y) \<in> (tree par)\<^sup>*")
    case True
    then obtain c where c: "par c = Some u" "(c, y) \<in> (tree par)\<^sup>*" using anc_child y(2) by blast
    have "low c < disc u" using assms(2) Some c(1) by (auto simp: reported_def not_le)
    from unreported_up [OF f c(1) Some this] tree_path_below [OF f c(2,1)] show ?thesis by (rule rtrancl_trans)
  next
    case False
    then have "(y, u) \<in> (tree par)\<^sup>*" using dfs_forestD(4) [OF f y(1)] by blast
    then have "(y, p) \<in> (tree par)\<^sup>*" using anc_parent Some y(2) by metis
    from tree_path_outside [OF f this up] show ?thesis by (rule rtrancl_sym [OF sym])
  qed
  then show ?thesis by blast
qed

lemma unreported_not_cut:
  assumes f: "dfs_forest E par disc low" and "\<not> reported par disc low u"
  shows "\<not> is_cut E u"
proof
  assume "is_cut E u"
  then obtain x y where xy: "x \<noteq> u" "y \<noteq> u" "(x, y) \<in> E\<^sup>*" "(x, y) \<notin> (without u E)\<^sup>*" by (auto simp: is_cut_def)
  have sym: "sym E" "sym (without u E)" using without_sym dfs_forestD(1) [OF f] by blast+
  obtain h where h: "\<And>y. (u, y) \<in> E \<Longrightarrow> y \<noteq> u \<Longrightarrow> (h, y) \<in> (without u E)\<^sup>*" using unreported_hub [OF assms] by blast
  have reach: "z = u \<or> (h, z) \<in> (without u E)\<^sup>*" if "(u, z) \<in> E\<^sup>*" for z
    using that
  proof (induction rule: rtrancl_induct)
    case (step y z)
    show ?case
    proof (cases "y = u \<or> z = u")
      case True
      then show ?thesis using h step(2) by blast
    next
      case False
      then have "(y, z) \<in> without u E" using step(2) by (simp add: without_def)
      then show ?thesis using step(3) False by (meson rtrancl.rtrancl_into_rtrancl)
    qed
  qed simp
  have uy: "(u, y) \<in> E\<^sup>*" using path_avoids [OF xy(3,1)] xy(4) by blast
  then have "(u, x) \<in> E\<^sup>*" using rtrancl_sym [OF sym(1) xy(3)] by (rule rtrancl_trans)
  then have "(h, x) \<in> (without u E)\<^sup>*" "(h, y) \<in> (without u E)\<^sup>*" using reach uy xy(1,2) by blast+
  then show False using rtrancl_sym [OF sym(2)] xy(4) by (meson rtrancl_trans)
qed

lemma reported_iff_cut: "dfs_forest E par disc low \<Longrightarrow> reported par disc low u \<longleftrightarrow> is_cut E u"
  using reported_cut unreported_not_cut by blast

end
