(* ===== verification/Articulation.thy ===== *)
theory Articulation
  imports Outcome Cut_Vertex
begin

text \<open>
  Articulation points (\<open>articulation.cpp\<close>): a depth first search that numbers the vertices and computes how far up each subtree leads. The arrays
  \<open>disc\<close> and \<open>low\<close> are not initialised by the code: \<open>None\<close> is an entry that was not written. The parent \<open>NIL\<close> is \<open>None\<close>. The counter of the
  search is a static \<open>int\<close> that is never set back, so it goes on from one graph to the next, and overflows in the end.
\<close>

section \<open>The code\<close>

record graph =
  gV :: nat
  adj :: "nat list list"

definition Graph :: "nat \<Rightarrow> graph" where
  "Graph n = \<lparr>gV = n, adj = replicate n []\<rparr>"

definition push_back :: "nat \<Rightarrow> nat \<Rightarrow> graph \<Rightarrow> graph" where
  "push_back v w g = g\<lparr>adj := (adj g)[v := adj g ! v @ [w]]\<rparr>"

definition addEdge :: "int \<Rightarrow> int \<Rightarrow> graph \<Rightarrow> graph res" where
  "addEdge v w g =
     (if 0 \<le> v \<and> v < int (gV g) \<and> 0 \<le> w \<and> w < int (gV g) then Ok (push_back (nat w) (nat v) (push_back (nat v) (nat w) g))
      else Fault OutOfBounds)"

record search =
  visited :: "bool list"
  disc :: "int option list"
  low :: "int option list"
  parent :: "nat option list"
  ap :: "bool list"
  time :: int

definition rd :: "'a list \<Rightarrow> nat \<Rightarrow> 'a res" where
  "rd a i = (if i < length a then Ok (a ! i) else Fault OutOfBounds)"

definition rd_int :: "int option list \<Rightarrow> nat \<Rightarrow> int res" where
  "rd_int a i = obind (rd a i) (\<lambda>x. case x of None \<Rightarrow> Fault Uninitialised | Some n \<Rightarrow> Ok n)"

text \<open>The statements before the loop of \<open>APUtil\<close>.\<close>

definition enter :: "nat \<Rightarrow> search \<Rightarrow> search res" where
  "enter u s = obind (int_add (time s) 1) (\<lambda>t.
     Ok (s\<lparr>visited := (visited s)[u := True], time := t, disc := (disc s)[u := Some t], low := (low s)[u := Some t]\<rparr>))"

text \<open>The statements after the recursive call for a child, and the branch for a vertex that was visited.\<close>

definition set_low :: "nat \<Rightarrow> int \<Rightarrow> search \<Rightarrow> search res" where
  "set_low u x s = obind (rd_int (low s) u) (\<lambda>l. Ok (s\<lparr>low := (low s)[u := Some (min l x)]\<rparr>))"

definition mark :: "nat \<Rightarrow> search \<Rightarrow> search" where
  "mark u s = s\<lparr>ap := (ap s)[u := True]\<rparr>"

definition child_done :: "nat \<Rightarrow> nat \<Rightarrow> nat \<Rightarrow> search \<Rightarrow> search res" where
  "child_done u v children s =
     obind (rd_int (low s) v) (\<lambda>x. obind (set_low u x s) (\<lambda>s.
     obind (rd (parent s) u) (\<lambda>p.
     let s = (if p = None \<and> children > 1 then mark u s else s) in
     if p \<noteq> None then
       obind (rd_int (low s) v) (\<lambda>x. obind (rd_int (disc s) u) (\<lambda>d. Ok (if x \<ge> d then mark u s else s)))
     else Ok s)))"

definition back_edge :: "nat \<Rightarrow> nat \<Rightarrow> search \<Rightarrow> search res" where
  "back_edge u v s =
     obind (rd (parent s) u) (\<lambda>p. if p \<noteq> Some v then obind (rd_int (disc s) v) (\<lambda>x. set_low u x s) else Ok s)"

text \<open>\<open>APUtil\<close> with its loop over the neighbours that are left; the fuel bounds the depth of the recursion.\<close>

fun APUtil :: "nat \<Rightarrow> graph \<Rightarrow> nat \<Rightarrow> search \<Rightarrow> search res"
  and ap_loop :: "nat \<Rightarrow> graph \<Rightarrow> nat \<Rightarrow> nat \<Rightarrow> nat list \<Rightarrow> search \<Rightarrow> search res" where
  "APUtil 0 g u s = Timeout"
| "APUtil (Suc fuel) g u s = obind (enter u s) (ap_loop fuel g u 0 (adj g ! u))"
| "ap_loop fuel g u children [] s = Ok s"
| "ap_loop fuel g u children (v # vs) s =
     obind (rd (visited s) v) (\<lambda>b.
       if \<not> b then
         obind (APUtil fuel g v (s\<lparr>parent := (parent s)[v := Some u]\<rparr>)) (\<lambda>s.
         obind (child_done u v (children + 1) s) (\<lambda>s. ap_loop fuel g u (children + 1) vs s))
       else obind (back_edge u v s) (\<lambda>s. ap_loop fuel g u children vs s))"

definition ap_start :: "nat \<Rightarrow> int \<Rightarrow> search" where
  "ap_start n t = \<lparr>visited = replicate n False, disc = replicate n None, low = replicate n None, parent = replicate n None,
     ap = replicate n False, time = t\<rparr>"

text \<open>The points printed by \<open>AP\<close> and the counter after it.\<close>

definition AP :: "nat \<Rightarrow> graph \<Rightarrow> int \<Rightarrow> (nat list \<times> int) res" where
  "AP fuel g t =
     obind (seqs (map (\<lambda>i s. if \<not> visited s ! i then APUtil fuel g i s else Ok s) [0..<gV g]) (ap_start (gV g) t)) (\<lambda>s.
       Ok (filter (\<lambda>i. ap s ! i) [0..<gV g], time s))"

definition build :: "nat \<Rightarrow> (int \<times> int) list \<Rightarrow> graph res" where
  "build n es = seqs (map (\<lambda>(v, w). addEdge v w) es) (Graph n)"

section \<open>States of the search\<close>

definition Vis :: "search \<Rightarrow> nat set" where
  "Vis s = {v. v < length (visited s) \<and> visited s ! v}"

abbreviation D :: "search \<Rightarrow> nat \<Rightarrow> int" where
  "D s v \<equiv> the (disc s ! v)"

abbreviation L :: "search \<Rightarrow> nat \<Rightarrow> int" where
  "L s v \<equiv> the (low s ! v)"

abbreviation P :: "search \<Rightarrow> nat \<Rightarrow> nat option" where
  "P s v \<equiv> parent s ! v"

abbreviation A :: "search \<Rightarrow> nat \<Rightarrow> bool" where
  "A s v \<equiv> ap s ! v"

abbreviation nb :: "graph \<Rightarrow> nat \<Rightarrow> nat set" where
  "nb g v \<equiv> set (adj g ! v)"

definition kids :: "search \<Rightarrow> nat \<Rightarrow> nat set" where
  "kids s w = {c \<in> Vis s. P s c = Some w}"

definition wf_graph :: "graph \<Rightarrow> bool" where
  "wf_graph g \<longleftrightarrow> length (adj g) = gV g \<and> (\<forall>u < gV g. \<forall>v \<in> nb g u. v < gV g \<and> u \<in> nb g v)"

definition sized :: "graph \<Rightarrow> search \<Rightarrow> bool" where
  "sized g s \<longleftrightarrow> length (visited s) = gV g \<and> length (disc s) = gV g \<and> length (low s) = gV g \<and> length (parent s) = gV g \<and> length (ap s) = gV g"

text \<open>What holds between calls: visited vertices have their numbers and a parent visited before them, the other ones are untouched.\<close>

definition ok :: "graph \<Rightarrow> search \<Rightarrow> bool" where
  "ok g s \<longleftrightarrow> sized g s \<and>
     (\<forall>v \<in> Vis s. disc s ! v \<noteq> None \<and> low s ! v \<noteq> None \<and> D s v \<le> time s \<and>
        (\<forall>p. P s v = Some p \<longrightarrow> p \<in> Vis s \<and> v \<in> nb g p \<and> D s p < D s v)) \<and>
     (\<forall>v < gV g. v \<notin> Vis s \<longrightarrow> P s v = None \<and> \<not> A s v)"

text \<open>What the search at \<open>u\<close> leaves, and the parents of the vertices it adds.\<close>

definition frame :: "graph \<Rightarrow> nat \<Rightarrow> search \<Rightarrow> search \<Rightarrow> bool" where
  "frame g u s s' \<longleftrightarrow> ok g s' \<and> Vis s \<subseteq> Vis s' \<and> time s' = time s + int (card (Vis s')) - int (card (Vis s)) \<and>
     (\<forall>v \<in> Vis s. D s' v = D s v \<and> P s' v = P s v \<and> (v \<noteq> u \<longrightarrow> L s' v = L s v \<and> A s' v = A s v)) \<and>
     (\<forall>w \<in> Vis s' - Vis s. \<exists>p \<in> insert u (Vis s' - Vis s). P s' w = Some p)"

text \<open>The low value and the mark of \<open>w\<close> when the neighbours in \<open>Y\<close> have been looked at.\<close>

definition part :: "search \<Rightarrow> nat \<Rightarrow> nat set \<Rightarrow> bool" where
  "part s w Y \<longleftrightarrow> Y \<subseteq> Vis s \<and>
     (\<forall>t. L s w < t \<longleftrightarrow> D s w < t \<or> (\<exists>c \<in> kids s w. L s c < t) \<or> (\<exists>y \<in> Y. P s w \<noteq> Some y \<and> D s y < t)) \<and>
     (A s w \<longleftrightarrow> (if P s w = None then 1 < card (kids s w) else \<exists>c \<in> kids s w. D s w \<le> L s c))"

lemma Vis_range: "ok g s \<Longrightarrow> v \<in> Vis s \<Longrightarrow> v < gV g"
  by (simp add: ok_def sized_def Vis_def)

lemma ok_parent: "ok g s \<Longrightarrow> v \<in> Vis s \<Longrightarrow> P s v = Some p \<Longrightarrow> p \<in> Vis s \<and> v \<in> nb g p \<and> D s p < D s v"
  by (simp add: ok_def)

lemma ok_unvisited: "ok g s \<Longrightarrow> v < gV g \<Longrightarrow> v \<notin> Vis s \<Longrightarrow> P s v = None \<and> \<not> A s v"
  by (simp add: ok_def)

lemma frame_ok: "frame g u s s' \<Longrightarrow> ok g s'"
  by (simp add: frame_def)

lemma frame_old:
  assumes "frame g u s s'" "v \<in> Vis s"
  shows "v \<in> Vis s'" "D s' v = D s v" "P s' v = P s v" "v \<noteq> u \<Longrightarrow> L s' v = L s v \<and> A s' v = A s v"
  using assms by (auto simp: frame_def)

lemma frame_new: "frame g u s s' \<Longrightarrow> w \<in> Vis s' \<Longrightarrow> w \<notin> Vis s \<Longrightarrow> \<exists>p. P s' w = Some p \<and> (p = u \<or> p \<in> Vis s' \<and> p \<notin> Vis s)"
  by (auto simp: frame_def)

lemma frame_trans:
  assumes 1: "frame g a s s1" and 2: "frame g b s1 s2" and b: "b = a \<or> b \<in> Vis s1 \<and> b \<notin> Vis s"
  shows "frame g a s s2"
  unfolding frame_def
proof (intro conjI ballI)
  show "ok g s2" by (rule frame_ok [OF 2])
  show "Vis s \<subseteq> Vis s2" using frame_old(1) [OF 1] frame_old(1) [OF 2] by blast
  show "time s2 = time s + int (card (Vis s2)) - int (card (Vis s))" using 1 2 by (simp add: frame_def)
  fix v assume v: "v \<in> Vis s"
  then have v1: "v \<in> Vis s1" by (rule frame_old(1) [OF 1])
  show "D s2 v = D s v" "P s2 v = P s v"
    using frame_old(2,3) [OF 1 v] frame_old(2,3) [OF 2 v1] by simp_all
  show "v \<noteq> a \<longrightarrow> L s2 v = L s v \<and> A s2 v = A s v"
  proof
    assume a: "v \<noteq> a"
    then have "v \<noteq> b" using b v by auto
    then show "L s2 v = L s v \<and> A s2 v = A s v" using frame_old(4) [OF 1 v a] frame_old(4) [OF 2 v1] by simp
  qed
next
  fix w assume w: "w \<in> Vis s2 - Vis s"
  show "\<exists>p \<in> insert a (Vis s2 - Vis s). P s2 w = Some p"
  proof (cases "w \<in> Vis s1")
    case True
    then obtain p where p: "P s1 w = Some p" "p = a \<or> p \<in> Vis s1 \<and> p \<notin> Vis s" using frame_new [OF 1] w by blast
    then have "p = a \<or> p \<in> Vis s2 - Vis s" using frame_old(1) [OF 2] by blast
    then show ?thesis using p(1) frame_old(3) [OF 2 True] by auto
  next
    case False
    then obtain p where p: "P s2 w = Some p" "p = b \<or> p \<in> Vis s2 \<and> p \<notin> Vis s1" using frame_new [OF 2] w by blast
    then have "p = a \<or> p \<in> Vis s2 - Vis s" using b frame_old(1) [OF 1] frame_old(1) [OF 2] by blast
    then show ?thesis using p(1) by auto
  qed
qed

lemma kids_frame:
  assumes "frame g b s s'" "w \<in> Vis s" "w \<noteq> b"
  shows "kids s' w = kids s w"
proof (intro set_eqI iffI)
  fix c assume c: "c \<in> kids s' w"
  then have "c \<in> Vis s" using frame_new [OF assms(1), of c] assms(2,3) by (auto simp: kids_def)
  then show "c \<in> kids s w" using c frame_old(3) [OF assms(1)] by (simp add: kids_def)
next
  fix c assume "c \<in> kids s w"
  then show "c \<in> kids s' w" using frame_old(1,3) [OF assms(1)] by (simp add: kids_def)
qed

lemma part_frame:
  assumes f: "frame g b s s'" and w: "w \<in> Vis s" "w \<noteq> b" "P s b \<noteq> Some w" and p: "part s w Y"
  shows "part s' w Y"
proof -
  have k: "kids s' w = kids s w" using kids_frame [OF f w(1,2)] .
  have kL: "L s' c = L s c" if "c \<in> kids s w" for c
    using that w(3) frame_old(4) [OF f, of c] by (auto simp: kids_def)
  have Y: "Y \<subseteq> Vis s" using p by (simp add: part_def)
  then have yD: "D s' y = D s y" if "y \<in> Y" for y using that frame_old(2) [OF f] by blast
  have o: "D s' w = D s w" "P s' w = P s w" "L s' w = L s w" "A s' w = A s w" using frame_old [OF f w(1)] w(2) by auto
  have "(\<exists>c \<in> kids s w. L s' c < t) \<longleftrightarrow> (\<exists>c \<in> kids s w. L s c < t)" for t using kL by auto
  moreover have "(\<exists>c \<in> kids s w. D s w \<le> L s' c) \<longleftrightarrow> (\<exists>c \<in> kids s w. D s w \<le> L s c)" using kL by auto
  moreover have "(\<exists>y \<in> Y. P s w \<noteq> Some y \<and> D s' y < t) \<longleftrightarrow> (\<exists>y \<in> Y. P s w \<noteq> Some y \<and> D s y < t)" for t using yD by auto
  moreover have "Y \<subseteq> Vis s'" using Y frame_old(1) [OF f] by blast
  ultimately show ?thesis using p unfolding part_def o k by simp
qed

section \<open>One statement at a time\<close>

definition visit :: "nat \<Rightarrow> nat option \<Rightarrow> search \<Rightarrow> search" where
  "visit v p s = s\<lparr>parent := (parent s)[v := p], visited := (visited s)[v := True], time := time s + 1,
     disc := (disc s)[v := Some (time s + 1)], low := (low s)[v := Some (time s + 1)]\<rparr>"

lemma enter_visit: "in_int (time s + 1) \<Longrightarrow> enter v (s\<lparr>parent := (parent s)[v := p]\<rparr>) = Ok (visit v p s)"
  by (simp add: enter_def int_add_def visit_def)

lemma visit_fields:
  assumes "ok g s" "v < gV g"
  shows "sized g (visit v p s)" "Vis (visit v p s) = insert v (Vis s)" "time (visit v p s) = time s + 1"
    "disc (visit v p s) ! w = (if w = v then Some (time s + 1) else disc s ! w)"
    "low (visit v p s) ! w = (if w = v then Some (time s + 1) else low s ! w)"
    "P (visit v p s) w = (if w = v then p else P s w)" "A (visit v p s) w = A s w"
  using assms by (auto simp: visit_def ok_def sized_def Vis_def nth_list_update)

lemma visit_kids: "ok g s \<Longrightarrow> v < gV g \<Longrightarrow> v \<notin> Vis s \<Longrightarrow> kids (visit v p s) w = (if p = Some w then insert v (kids s w) else kids s w)"
  by (auto simp: kids_def visit_fields)

lemma visit_ok:
  assumes "ok g s" "v < gV g" "v \<notin> Vis s" and p: "\<And>u. p = Some u \<Longrightarrow> u \<in> Vis s \<and> v \<in> nb g u"
  shows "ok g (visit v p s)"
  unfolding ok_def
proof (intro conjI ballI allI impI)
  show "sized g (visit v p s)" by (rule visit_fields(1) [OF assms(1,2)])
  fix w assume w: "w \<in> Vis (visit v p s)"
  show "disc (visit v p s) ! w \<noteq> None" "low (visit v p s) ! w \<noteq> None" "D (visit v p s) w \<le> time (visit v p s)"
    using w assms(1) by (auto simp: visit_fields [OF assms(1,2)] ok_def)
  fix q assume q: "P (visit v p s) w = Some q"
  have "q \<in> Vis s \<and> w \<in> nb g q \<and> (w \<noteq> v \<longrightarrow> D s q < D s w)"
    using w q p ok_parent [OF assms(1), of w q] by (auto simp: visit_fields [OF assms(1,2)] split: if_splits)
  moreover have "D s q \<le> time s" if "q \<in> Vis s" for q using that assms(1) by (simp add: ok_def)
  ultimately show "q \<in> Vis (visit v p s)" "w \<in> nb g q" "D (visit v p s) q < D (visit v p s) w"
    using assms(3) by (auto simp: visit_fields [OF assms(1,2)])
next
  fix w assume "w < gV g" "w \<notin> Vis (visit v p s)"
  then show "P (visit v p s) w = None" "\<not> A (visit v p s) w"
    using ok_unvisited [OF assms(1)] by (auto simp: visit_fields [OF assms(1,2)])
qed

lemma no_kids: "ok g s \<Longrightarrow> v \<notin> Vis s \<Longrightarrow> kids s v = {}"
  using ok_parent by (auto simp: kids_def)

lemma visit_part:
  assumes "ok g s" "v < gV g" "v \<notin> Vis s" "p \<noteq> Some v"
  shows "part (visit v p s) v {}" "kids (visit v p s) v = {}"
proof -
  show k: "kids (visit v p s) v = {}" using visit_kids [OF assms(1-3)] no_kids [OF assms(1,3)] assms(4) by simp
  show "part (visit v p s) v {}"
    using ok_unvisited [OF assms(1-3)] unfolding part_def k by (simp add: visit_fields [OF assms(1,2)])
qed

lemma visit_frame:
  assumes "ok g s" "v < gV g" "v \<notin> Vis s" "u \<in> Vis s" "v \<in> nb g u"
  shows "frame g u s (visit v (Some u) s)"
proof -
  have "finite (Vis s)" by (rule finite_subset [of _ "{..<gV g}"]) (use Vis_range [OF assms(1)] in auto)
  then have "card (insert v (Vis s)) = Suc (card (Vis s))" using assms(3) by simp
  then show ?thesis unfolding frame_def using visit_ok [OF assms(1-3), of "Some u"] assms
    by (auto simp: visit_fields [OF assms(1,2)])
qed

text \<open>A change of the low value and the mark of \<open>u\<close> only.\<close>

definition touched :: "nat \<Rightarrow> int \<Rightarrow> bool \<Rightarrow> search \<Rightarrow> search" where
  "touched u l m s = s\<lparr>low := (low s)[u := Some l], ap := (ap s)[u := m]\<rparr>"

lemma touched_fields:
  assumes "ok g s" "u \<in> Vis s"
  shows "Vis (touched u l m s) = Vis s" "D (touched u l m s) w = D s w" "P (touched u l m s) w = P s w" "kids (touched u l m s) w = kids s w"
    "low (touched u l m s) ! w = (if w = u then Some l else low s ! w)" "A (touched u l m s) w = (if w = u then m else A s w)"
  using assms Vis_range [OF assms] by (auto simp: touched_def Vis_def kids_def nth_list_update ok_def sized_def)

lemma touched_frame:
  assumes "ok g s" "u \<in> Vis s"
  shows "frame g u s (touched u l m s)"
proof -
  have "ok g (touched u l m s)"
    using assms unfolding ok_def [of g "touched u l m s"]
    by (auto simp: touched_fields [OF assms]) (auto simp: touched_def ok_def sized_def)
  moreover have "time (touched u l m s) = time s" by (simp add: touched_def)
  ultimately show ?thesis unfolding frame_def by (simp add: touched_fields [OF assms])
qed

lemma back_edge_ok:
  assumes "ok g s" "u \<in> Vis s" "v \<in> Vis s"
  shows "back_edge u v s = Ok (touched u (if P s u \<noteq> Some v then min (L s u) (D s v) else L s u) (A s u) s)"
proof -
  have b: "u < gV g" "v < gV g" using Vis_range assms by auto
  obtain l d where ld: "low s ! u = Some l" "disc s ! v = Some d" using assms by (fastforce simp: ok_def)
  have "sized g s" using assms(1) by (simp add: ok_def)
  then show ?thesis using b ld
    by (auto simp: back_edge_def rd_def rd_int_def set_low_def touched_def sized_def list_update_same_conv [THEN iffD2])
qed

lemma child_done_ok:
  assumes "ok g s" "u \<in> Vis s" "v \<in> Vis s" "u \<noteq> v"
  shows "child_done u v n s = Ok (touched u (min (L s u) (L s v)) (A s u \<or> (if P s u = None then 1 < n else D s u \<le> L s v)) s)"
proof -
  have b: "u < gV g" "v < gV g" using Vis_range assms by auto
  obtain l d l' where ld: "low s ! u = Some l" "disc s ! u = Some d" "low s ! v = Some l'" using assms by (fastforce simp: ok_def)
  have "sized g s" using assms(1) by (simp add: ok_def)
  then show ?thesis using b ld assms(4)
    by (auto simp: child_done_def rd_def rd_int_def set_low_def touched_def mark_def sized_def Let_def list_update_same_conv [THEN iffD2])
qed

lemma part_back:
  assumes "ok g s" "u \<in> Vis s" "v \<in> Vis s" and p: "part s u Y"
  shows "part (touched u (if P s u \<noteq> Some v then min (L s u) (D s v) else L s u) (A s u) s) u (insert v Y)"
proof -
  have k: "u \<notin> kids s u" using ok_parent [OF assms(1,2)] by (auto simp: kids_def)
  then have c: "c \<noteq> u" if "c \<in> kids s u" for c using that by auto
  have L: "(if P s u \<noteq> Some v then min (L s u) (D s v) else L s u) < t \<longleftrightarrow> L s u < t \<or> P s u \<noteq> Some v \<and> D s v < t" for t by auto
  from p show ?thesis using assms(3) c unfolding part_def
    by (simp add: touched_fields [OF assms(1,2)] L del: if_image_distrib) blast
qed

lemma part_child:
  assumes p: "part s u Y" and n: "finite (kids s u)" "v \<notin> kids s u"
    and k: "kids s' u = insert v (kids s u)" "\<And>c. c \<in> kids s u \<Longrightarrow> L s' c = L s c" "\<And>y. y \<in> Y \<Longrightarrow> D s' y = D s y"
    and e: "D s' u = D s u" "P s' u = P s u" "L s' u = min (L s u) (L s' v)" "L s' v \<le> D s' v"
    and a: "A s' u \<longleftrightarrow> A s u \<or> (if P s u = None then 1 < card (kids s u) + 1 else D s u \<le> L s' v)"
    and v: "insert v Y \<subseteq> Vis s'"
  shows "part s' u (insert v Y)"
  unfolding part_def
proof (intro conjI allI)
  show "insert v Y \<subseteq> Vis s'" by (rule v)
  fix t
  have "L s u < t \<longleftrightarrow> D s u < t \<or> (\<exists>c \<in> kids s u. L s' c < t) \<or> (\<exists>y \<in> Y. P s u \<noteq> Some y \<and> D s' y < t)"
    using p k(2,3) by (simp add: part_def)
  moreover have "L s' u < t \<longleftrightarrow> L s u < t \<or> L s' v < t" using e(3) by auto
  moreover have "D s' v < t \<Longrightarrow> L s' v < t" using e(4) by simp
  ultimately show "L s' u < t \<longleftrightarrow> D s' u < t \<or> (\<exists>c \<in> kids s' u. L s' c < t) \<or> (\<exists>y \<in> insert v Y. P s' u \<noteq> Some y \<and> D s' y < t)"
    unfolding e(1,2) k(1) by blast
next
  have "A s u \<longleftrightarrow> (if P s u = None then 1 < card (kids s u) else \<exists>c \<in> kids s u. D s u \<le> L s' c)"
    using p k(2) by (simp add: part_def)
  then show "A s' u \<longleftrightarrow> (if P s' u = None then 1 < card (kids s' u) else \<exists>c \<in> kids s' u. D s' u \<le> L s' c)"
    unfolding a e(1,2) k(1) using n by auto
qed

section \<open>The search\<close>

definition rel :: "search \<Rightarrow> (nat \<times> nat) set" where
  "rel s = {(p, c). c \<in> Vis s \<and> P s c = Some p}"

definition comparable :: "search \<Rightarrow> nat \<Rightarrow> nat \<Rightarrow> bool" where
  "comparable s x y \<longleftrightarrow> (x, y) \<in> (rel s)\<^sup>* \<or> (y, x) \<in> (rel s)\<^sup>*"

text \<open>The vertices added between two states are finished, below \<open>u\<close>, and their edges lead up or down.\<close>

definition added :: "graph \<Rightarrow> nat \<Rightarrow> search \<Rightarrow> search \<Rightarrow> bool" where
  "added g u s s' \<longleftrightarrow> (\<forall>w \<in> Vis s' - Vis s. part s' w (nb g w) \<and> (u, w) \<in> (rel s')\<^sup>* \<and>
     (\<forall>y \<in> Vis s' - Vis s. y \<in> nb g w \<longrightarrow> comparable s' w y))"

lemma rel_mono: "frame g u s s' \<Longrightarrow> rel s \<subseteq> rel s'"
  using frame_old(1,3) by (auto simp: rel_def)

lemma rel_star_mono: "frame g u s s' \<Longrightarrow> (x, y) \<in> (rel s)\<^sup>* \<Longrightarrow> (x, y) \<in> (rel s')\<^sup>*"
  using rtrancl_mono [OF rel_mono] by blast

lemma comparable_mono: "frame g u s s' \<Longrightarrow> comparable s x y \<Longrightarrow> comparable s' x y"
  using rel_star_mono by (auto simp: comparable_def)

lemma comparable_sym: "comparable s x y \<Longrightarrow> comparable s y x"
  by (auto simp: comparable_def)

lemma addedD:
  assumes "added g u s s'" "w \<in> Vis s'" "w \<notin> Vis s"
  shows "part s' w (nb g w)" "(u, w) \<in> (rel s')\<^sup>*" "y \<in> Vis s' \<Longrightarrow> y \<notin> Vis s \<Longrightarrow> y \<in> nb g w \<Longrightarrow> comparable s' w y"
  using assms by (auto simp: added_def)

lemma added_none: "Vis s' = Vis s \<Longrightarrow> added g u s s'"
  by (simp add: added_def)

text \<open>No edge leads from a finished vertex to one that is added later.\<close>

lemma no_late_edge:
  assumes "wf_graph g" "ok g s'" "part s w (nb g w)" "w \<in> Vis s'" "y \<in> Vis s'" "y \<notin> Vis s"
  shows "y \<notin> nb g w" "w \<notin> nb g y"
proof -
  show y: "y \<notin> nb g w" using assms(3,6) by (auto simp: part_def)
  show "w \<notin> nb g y" using y assms(1) Vis_range [OF assms(2)] assms(4,5) unfolding wf_graph_def by blast
qed

lemma added_trans:
  assumes g: "wf_graph g" and u: "u \<in> Vis s" "ok g s"
    and 1: "frame g u s s1" "added g u s s1" and 2: "frame g u s1 s2" "added g u s1 s2"
  shows "added g u s s2"
  unfolding added_def
proof (intro ballI conjI impI)
  note up = frame_old(1) [OF 2(1)]
  have u1: "u \<in> Vis s1" "P s1 u = P s u" using frame_old [OF 1(1) u(1)] by auto
  fix w assume w: "w \<in> Vis s2 - Vis s"
  have old: "part s2 w (nb g w)" "(u, w) \<in> (rel s2)\<^sup>*" if w1: "w \<in> Vis s1"
  proof -
    have "P s1 u \<noteq> Some w" using ok_parent [OF u(2,1)] u1(2) w by auto
    moreover have "w \<noteq> u" using w u(1) by auto
    ultimately show "part s2 w (nb g w)" using part_frame [OF 2(1) w1] addedD(1) [OF 1(2) w1] w by blast
    show "(u, w) \<in> (rel s2)\<^sup>*" using rel_star_mono [OF 2(1)] addedD(2) [OF 1(2) w1] w by blast
  qed
  show "part s2 w (nb g w)" "(u, w) \<in> (rel s2)\<^sup>*" using old addedD(1,2) [OF 2(2)] w by blast+
  fix y assume y: "y \<in> Vis s2 - Vis s" "y \<in> nb g w"
  have late: "z \<notin> nb g x \<and> x \<notin> nb g z" if "x \<in> Vis s1" "x \<notin> Vis s" "z \<in> Vis s2" "z \<notin> Vis s1" for x z
    using no_late_edge [OF g frame_ok [OF 2(1)] addedD(1) [OF 1(2) that(1,2)]] up that by blast
  show "comparable s2 w y"
  proof (cases "w \<in> Vis s1")
    case True
    then have y1: "y \<in> Vis s1" using late [of w y] w y by blast
    then show ?thesis using addedD(3) [OF 1(2) True _ y1] w y comparable_mono [OF 2(1)] by blast
  next
    case False
    then have y1: "y \<notin> Vis s1" using late [of y w] w y by blast
    then show ?thesis using addedD(3) [OF 2(2) _ False] w y by blast
  qed
qed

text \<open>The branch for a vertex that was not visited: what the recursive call gives, and the statements after it.\<close>

lemma child_added:
  assumes s: "ok g s" "u \<in> Vis s" "v \<in> nb g u" "v < gV g" "v \<notin> Vis s"
    and 2: "frame g v (visit v (Some u) s) s2" "part s2 v (nb g v)" "added g v (visit v (Some u) s) s2"
  shows "frame g u s s2" "added g u s s2"
proof -
  let ?s1 = "visit v (Some u) s"
  note f1 = visit_fields [OF s(1,4)]
  have v1: "v \<in> Vis ?s1" by (simp add: f1)
  show "frame g u s s2" using frame_trans [OF visit_frame [OF s(1,4,5,2,3)] 2(1)] v1 s(5) by blast
  have v2: "v \<in> Vis s2" "P s2 v = Some u" using frame_old(1,3) [OF 2(1) v1] by (auto simp: f1)
  then have uv: "(u, v) \<in> rel s2" by (simp add: rel_def)
  have below: "(v, w) \<in> (rel s2)\<^sup>* \<and> part s2 w (nb g w)" if "w \<in> Vis s2 - Vis s" for w
    using that 2(2) addedD(1,2) [OF 2(3), of w] by (cases "w = v") (auto simp: f1)
  show "added g u s s2"
    unfolding added_def
  proof (intro ballI conjI impI)
    fix w assume w: "w \<in> Vis s2 - Vis s"
    show "part s2 w (nb g w)" "(u, w) \<in> (rel s2)\<^sup>*" using below [OF w] uv by (auto intro: converse_rtrancl_into_rtrancl)
    fix y assume y: "y \<in> Vis s2 - Vis s" "y \<in> nb g w"
    show "comparable s2 w y"
    proof (cases "w = v \<or> y = v")
      case True
      then show ?thesis using below [OF w] below [OF y(1)] by (auto simp: comparable_def)
    next
      case False
      then show ?thesis using addedD(3) [OF 2(3), of w y] w y by (simp add: f1)
    qed
  qed
qed

lemma child_step:
  assumes g: "wf_graph g" and s: "ok g s" "u \<in> Vis s" "v \<in> nb g u" "v < gV g" "v \<notin> Vis s" and p: "part s u Y"
    and 2: "frame g v (visit v (Some u) s) s2" "part s2 v (nb g v)" "added g v (visit v (Some u) s) s2"
  shows "\<exists>s3. child_done u v (card (kids s u) + 1) s2 = Ok s3 \<and> frame g u s s3 \<and> part s3 u (insert v Y) \<and>
    kids s3 u = insert v (kids s u) \<and> added g u s s3 \<and> v \<in> Vis s3"
proof -
  let ?s1 = "visit v (Some u) s"
  define s3 where "s3 = touched u (min (L s2 u) (L s2 v)) (A s2 u \<or> (if P s2 u = None then 1 < card (kids s u) + 1 else D s2 u \<le> L s2 v)) s2"
  note f1 = visit_fields [OF s(1,4)] and c = child_added [OF s 2]
  have uv: "u \<noteq> v" "u \<in> Vis ?s1" "v \<in> Vis ?s1" using s(2,5) by (auto simp: f1)
  have ok2: "ok g s2" by (rule frame_ok [OF 2(1)])
  have in2: "u \<in> Vis s2" "v \<in> Vis s2" using frame_old(1) [OF 2(1)] uv by auto
  note f3 = touched_fields [OF ok2 in2(1)]
  have old: "D s2 w = D s w" "P s2 w = P s w" "L s2 w = L s w" "A s2 w = A s w" if "w \<in> Vis s" for w
    using frame_old(2-4) [OF 2(1), of w] that s(5) by (auto simp: f1)
  have k: "kids s3 u = insert v (kids s u)"
    using kids_frame [OF 2(1) uv(2,1)] visit_kids [OF s(1,4,5)] by (simp add: s3_def f3)
  have "child_done u v (card (kids s u) + 1) s2 = Ok s3" using child_done_ok [OF ok2 in2 uv(1)] by (simp add: s3_def)
  moreover have f: "frame g u s2 s3" unfolding s3_def by (rule touched_frame [OF ok2 in2(1)])
  moreover have "frame g u s s3" using frame_trans [OF c(1) f] by blast
  moreover have "added g u s s3" by (rule added_trans [OF g s(2,1) c f added_none]) (simp add: s3_def f3)
  moreover have "part s3 u (insert v Y)"
  proof (rule part_child [OF p])
    have "kids s u \<subseteq> {..<gV g}" using Vis_range [OF s(1)] by (auto simp: kids_def)
    then show "finite (kids s u)" by (rule finite_subset) simp
    show "v \<notin> kids s u" using s(5) by (simp add: kids_def)
    show "kids s3 u = insert v (kids s u)" by (rule k)
    fix c assume c: "c \<in> kids s u"
    then have "c \<noteq> u" "c \<in> Vis s" using ok_parent [OF s(1,2)] by (auto simp: kids_def)
    then show "L s3 c = L s c" using old by (simp add: s3_def f3)
  next
    have Y: "Y \<subseteq> Vis s" using p by (simp add: part_def)
    then show "y \<in> Y \<Longrightarrow> D s3 y = D s y" for y using old by (auto simp: s3_def f3)
    show "insert v Y \<subseteq> Vis s3" using Y in2(2) frame_old(1) [OF c(1)] by (auto simp: s3_def f3)
    show "D s3 u = D s u" "P s3 u = P s u" "L s3 u = min (L s u) (L s3 v)" using old [OF s(2)] uv(1) by (auto simp: s3_def f3)
    have "L s2 v < D s2 v + 1" using 2(2) unfolding part_def by (metis zle_add1_eq_le order_refl)
    then show "L s3 v \<le> D s3 v" using uv(1) by (simp add: s3_def f3)
    show "A s3 u \<longleftrightarrow> A s u \<or> (if P s u = None then 1 < card (kids s u) + 1 else D s u \<le> L s3 v)"
      using old [OF s(2)] uv(1) by (simp add: s3_def f3)
  qed
  moreover have "v \<in> Vis s3" using in2(2) by (simp add: s3_def f3)
  ultimately show ?thesis using k by blast
qed

text \<open>What a call of \<open>APUtil\<close> does for a vertex that was not visited, with fuel for the vertices that are left.\<close>

definition left :: "graph \<Rightarrow> search \<Rightarrow> nat" where
  "left g s = gV g - card (Vis s)"

text \<open>The counter does not overflow as long as there is room for the vertices that are left.\<close>

definition room :: "graph \<Rightarrow> search \<Rightarrow> bool" where
  "room g s \<longleftrightarrow> - (2 ^ 31) \<le> time s \<and> time s + int (gV g) - int (card (Vis s)) < 2 ^ 31"

definition call_ok :: "graph \<Rightarrow> nat \<Rightarrow> bool" where
  "call_ok g fuel \<longleftrightarrow> (\<forall>v p s. ok g s \<longrightarrow> v < gV g \<longrightarrow> v \<notin> Vis s \<longrightarrow> (\<forall>u. p = Some u \<longrightarrow> u \<in> Vis s \<and> v \<in> nb g u) \<longrightarrow> left g s \<le> fuel \<longrightarrow> room g s \<longrightarrow>
     (\<exists>s'. APUtil fuel g v (s\<lparr>parent := (parent s)[v := p]\<rparr>) = Ok s' \<and> frame g v (visit v p s) s' \<and> part s' v (nb g v) \<and>
       added g v (visit v p s) s'))"

lemma Vis_subset: "ok g s \<Longrightarrow> Vis s \<subseteq> {..<gV g}"
  using Vis_range by auto

lemma left_visit:
  assumes "ok g s" "v < gV g" "v \<notin> Vis s"
  shows "left g (visit v p s) < left g s"
proof -
  have f: "finite (Vis s)" using Vis_subset [OF assms(1)] finite_subset by auto
  have "insert v (Vis s) \<subseteq> {..<gV g}" using Vis_subset assms by auto
  then have "card (insert v (Vis s)) \<le> card {..<gV g}" by (intro card_mono) simp
  then show ?thesis using f assms(3) by (simp add: left_def visit_fields [OF assms(1,2)])
qed

lemma card_Vis: "ok g s \<Longrightarrow> card (Vis s) \<le> gV g \<and> finite (Vis s)"
  using card_mono [OF _ Vis_subset] finite_subset [OF Vis_subset] by fastforce

lemma room_frame: "frame g u s s' \<Longrightarrow> room g s \<Longrightarrow> room g s'"
proof -
  assume f: "frame g u s s'" "room g s"
  have "Vis s \<subseteq> Vis s'" "finite (Vis s')" using f(1) card_Vis [OF frame_ok [OF f(1)]] by (auto simp: frame_def)
  then have "card (Vis s) \<le> card (Vis s')" by (intro card_mono)
  then show ?thesis using f by (simp add: room_def frame_def)
qed

lemma visit_room:
  assumes "ok g s" "v < gV g" "v \<notin> Vis s" "room g s"
  shows "room g (visit v p s)" "in_int (time s + 1)"
proof -
  have c: "card (insert v (Vis s)) = Suc (card (Vis s))" using card_Vis [OF assms(1)] assms(3) by simp
  then show "room g (visit v p s)" using assms(4) by (simp add: room_def visit_fields [OF assms(1,2)])
  have "card (insert v (Vis s)) \<le> card {..<gV g}" by (rule card_mono) (use Vis_subset [OF assms(1)] assms(2) in auto)
  then show "in_int (time s + 1)" using assms(4) c by (simp add: room_def in_int_def)
qed

lemma left_frame: "ok g s \<Longrightarrow> frame g u s s' \<Longrightarrow> left g s' \<le> left g s"
proof -
  assume f: "ok g s" "frame g u s s'"
  have "finite (Vis s')" using Vis_subset [OF frame_ok [OF f(2)]] finite_subset by auto
  moreover have "Vis s \<subseteq> Vis s'" using f(2) by (simp add: frame_def)
  ultimately have "card (Vis s) \<le> card (Vis s')" by (rule card_mono)
  then show ?thesis by (simp add: left_def)
qed

lemma ap_loop_ok:
  assumes g: "wf_graph g" and rec: "call_ok g fuel"
  shows "ok g s \<Longrightarrow> u \<in> Vis s \<Longrightarrow> set vs \<subseteq> nb g u \<Longrightarrow> part s u Y \<Longrightarrow> left g s \<le> fuel \<Longrightarrow> room g s \<Longrightarrow>
    \<exists>s'. ap_loop fuel g u (card (kids s u)) vs s = Ok s' \<and> frame g u s s' \<and> part s' u (Y \<union> set vs) \<and> added g u s s'"
proof (induction vs arbitrary: s Y)
  case Nil
  have "frame g u s s" using Nil(1) by (simp add: frame_def)
  then show ?case using Nil by (simp add: added_none)
next
  case (Cons v vs)
  note s = Cons.prems(1,2)
  have vn: "v \<in> nb g u" "set vs \<subseteq> nb g u" using Cons.prems(3) by auto
  have v: "v < gV g" using g vn(1) Vis_range [OF s] unfolding wf_graph_def by blast
  have vis: "rd (visited s) v = Ok (v \<in> Vis s)" using v s(1) by (simp add: rd_def ok_def sized_def Vis_def)
  have "\<exists>s1. ap_loop fuel g u (card (kids s u)) (v # vs) s = ap_loop fuel g u (card (kids s1 u)) vs s1 \<and>
      frame g u s s1 \<and> part s1 u (insert v Y) \<and> added g u s s1"
  proof (cases "v \<in> Vis s")
    case True
    define s1 where "s1 = touched u (if P s u \<noteq> Some v then min (L s u) (D s v) else L s u) (A s u) s"
    have "kids s1 u = kids s u" "Vis s1 = Vis s" by (simp_all add: s1_def touched_fields [OF s])
    moreover have "part s1 u (insert v Y)" unfolding s1_def by (rule part_back [OF s True Cons.prems(4)])
    moreover have "frame g u s s1" unfolding s1_def by (rule touched_frame [OF s])
    moreover have "back_edge u v s = Ok s1" unfolding s1_def by (rule back_edge_ok [OF s True])
    ultimately show ?thesis using vis True added_none by (intro exI [of _ s1]) simp
  next
    case False
    obtain s2 where 2: "APUtil fuel g v (s\<lparr>parent := (parent s)[v := Some u]\<rparr>) = Ok s2" "frame g v (visit v (Some u) s) s2"
        "part s2 v (nb g v)" "added g v (visit v (Some u) s) s2"
      using rec s v False vn(1) Cons.prems(5,6) unfolding call_ok_def by blast
    obtain s3 where 3: "child_done u v (card (kids s u) + 1) s2 = Ok s3" "frame g u s s3" "part s3 u (insert v Y)"
        "kids s3 u = insert v (kids s u)" "added g u s s3"
      using child_step [OF g s vn(1) v False Cons.prems(4) 2(2-4)] by blast
    have "finite (kids s u)" using Vis_subset [OF s(1)] finite_subset by (fastforce simp: kids_def)
    moreover have "v \<notin> kids s u" using False by (simp add: kids_def)
    ultimately have "card (kids s3 u) = card (kids s u) + 1" using 3(4) by simp
    then show ?thesis using vis False 2(1) 3 by (intro exI [of _ s3]) simp
  qed
  then obtain s1 where 1: "ap_loop fuel g u (card (kids s u)) (v # vs) s = ap_loop fuel g u (card (kids s1 u)) vs s1"
    "frame g u s s1" "part s1 u (insert v Y)" "added g u s s1" by blast
  have "left g s1 \<le> fuel" using left_frame [OF s(1) 1(2)] Cons.prems(5) by linarith
  from Cons.IH [OF frame_ok [OF 1(2)] frame_old(1) [OF 1(2) s(2)] vn(2) 1(3) this room_frame [OF 1(2) Cons.prems(6)]] obtain s'
    where s': "ap_loop fuel g u (card (kids s1 u)) vs s1 = Ok s'" "frame g u s1 s'" "part s' u (insert v Y \<union> set vs)" "added g u s1 s'" by blast
  have "frame g u s s'" using frame_trans [OF 1(2) s'(2)] by blast
  moreover have "added g u s s'" by (rule added_trans [OF g s(2,1) 1(2,4) s'(2,4)])
  moreover have "part s' u (Y \<union> set (v # vs))" using s'(3) by simp
  ultimately show ?case unfolding 1(1) using s'(1) by blast
qed

lemma APUtil_ok: "wf_graph g \<Longrightarrow> call_ok g fuel"
proof (induction fuel)
  case 0
  have False if "ok g s" "v < gV g" "v \<notin> Vis s" "left g s \<le> 0" for v s
    using left_visit [OF that(1-3)] that(4) by (metis less_nat_zero_code le_zero_eq)
  then show ?case unfolding call_ok_def by blast
next
  case (Suc fuel)
  show ?case
    unfolding call_ok_def
  proof (intro allI impI)
    fix v p s
    assume s: "ok g s" "v < gV g" "v \<notin> Vis s" and p: "\<forall>u. p = Some u \<longrightarrow> u \<in> Vis s \<and> v \<in> nb g u" and l: "left g s \<le> Suc fuel" and rm: "room g s"
    have ok1: "ok g (visit v p s)" using visit_ok [OF s] p by blast
    have v1: "v \<in> Vis (visit v p s)" by (simp add: visit_fields [OF s(1,2)])
    have pv: "p \<noteq> Some v" using p s(3) by blast
    note k = visit_part [OF s pv]
    have "left g (visit v p s) \<le> fuel" using left_visit [OF s, of p] l by linarith
    from ap_loop_ok [OF Suc.prems Suc.IH [OF Suc.prems] ok1 v1 subset_refl k(1) this visit_room(1) [OF s rm]]
    show "\<exists>s'. APUtil (Suc fuel) g v (s\<lparr>parent := (parent s)[v := p]\<rparr>) = Ok s' \<and> frame g v (visit v p s) s' \<and> part s' v (nb g v) \<and>
       added g v (visit v p s) s'"
      unfolding k(2) using enter_visit [OF visit_room(2) [OF s rm], of v p] by (simp del: obind_eq_Ok)
  qed
qed

section \<open>The whole graph\<close>

definition finished :: "graph \<Rightarrow> search \<Rightarrow> bool" where
  "finished g s \<longleftrightarrow> ok g s \<and> (\<forall>w \<in> Vis s. part s w (nb g w) \<and> (\<forall>y \<in> Vis s. y \<in> nb g w \<longrightarrow> comparable s w y))"

lemma root_visit:
  assumes "ok g s" "i < gV g" "i \<notin> Vis s" "w \<in> Vis s" "part s w Y"
  shows "part (visit i None s) w Y"
proof -
  note f = visit_fields [OF assms(1,2)] visit_kids [OF assms(1-3)]
  have w: "w \<noteq> i" using assms(3,4) by auto
  have Y: "D (visit i None s) y = D s y" if "y \<in> Y" for y using that assms(3,5) by (auto simp: f part_def)
  have k: "L (visit i None s) c = L s c" if "c \<in> kids s w" for c using that assms(3) by (auto simp: f kids_def)
  show ?thesis using assms(5) w Y k unfolding part_def by (auto simp: f)
qed

lemma root_step:
  assumes g: "wf_graph g" and R: "finished g s" and i: "i < gV g" "i \<notin> Vis s" and l: "left g s \<le> fuel" "room g s"
  shows "\<exists>s'. APUtil fuel g i s = Ok s' \<and> finished g s' \<and> left g s' \<le> left g s \<and> insert i (Vis s) \<subseteq> Vis s' \<and>
    time s' = time s + int (card (Vis s')) - int (card (Vis s))"
proof -
  have s: "ok g s" using R by (simp add: finished_def)
  let ?s1 = "visit i None s"
  have "(parent s)[i := None] = parent s" using ok_unvisited [OF s i] by (metis list_update_id)
  then obtain s' where s': "APUtil fuel g i s = Ok s'" "frame g i ?s1 s'" "part s' i (nb g i)" "added g i ?s1 s'"
    using APUtil_ok [OF g, of fuel] s i l unfolding call_ok_def by (metis option.distinct(1) search.surjective search.update_convs(4))
  note f1 = visit_fields [OF s i(1)]
  have ok1: "ok g ?s1" using visit_ok [OF s i, of None] by simp
  have in': "insert i (Vis s) \<subseteq> Vis s'" using frame_old(1) [OF s'(2)] by (auto simp: f1)
  have "part s' w (nb g w)" if w: "w \<in> Vis s'" for w
  proof -
    consider "w \<in> Vis s" | "w = i" | "w \<notin> Vis ?s1" by (auto simp: f1)
    then show ?thesis
    proof cases
      case 1
      then have "part ?s1 w (nb g w)" using root_visit [OF s i] R by (simp add: finished_def)
      then show ?thesis using part_frame [OF s'(2)] 1 i(2) by (auto simp: f1)
    qed (use s'(3) addedD(1) [OF s'(4) w] in auto)
  qed
  moreover have "comparable s' w y" if w: "w \<in> Vis s'" and y: "y \<in> Vis s'" "y \<in> nb g w" for w y
  proof -
    have late: "z \<notin> nb g x \<and> x \<notin> nb g z" if "x \<in> Vis s" "z \<in> Vis s'" "z \<notin> Vis s" for x z
      using no_late_edge [OF g frame_ok [OF s'(2)]] R that in' unfolding finished_def by blast
    have "rel s \<subseteq> rel ?s1" using i(2) by (auto simp: rel_def f1)
    then have mono: "comparable ?s1 w y" if "comparable s w y" using that rtrancl_mono unfolding comparable_def by blast
    consider "w \<in> Vis s" "y \<in> Vis s" | "w \<notin> Vis s" "y \<notin> Vis s" using late w y by blast
    then show ?thesis
    proof cases
      case 1
      then show ?thesis using R y(2) mono comparable_mono [OF s'(2)] unfolding finished_def by blast
    next
      case 2
      then show ?thesis
      proof (cases "w = i \<or> y = i")
        case True
        then show ?thesis using 2 addedD(2) [OF s'(4)] w y(1) by (cases "w = y") (auto simp: comparable_def f1)
      next
        case False
        then show ?thesis using 2 addedD(3) [OF s'(4) w _ y(1) _ y(2)] by (simp add: f1)
      qed
    qed
  qed
  moreover have "card (insert i (Vis s)) = Suc (card (Vis s))" using card_Vis [OF s] i(2) by simp
  then have "time s' = time s + int (card (Vis s')) - int (card (Vis s))" using s'(2) by (simp add: frame_def f1)
  moreover have "left g s' \<le> left g s" using left_frame [OF ok1 s'(2)] left_visit [OF s i, of None] by linarith
  ultimately show ?thesis using s'(1) in' frame_ok [OF s'(2)] unfolding finished_def by blast
qed

lemma roots_ok:
  assumes g: "wf_graph g"
  shows "finished g s \<Longrightarrow> left g s \<le> fuel \<Longrightarrow> set is \<subseteq> {..<gV g} \<Longrightarrow> room g s \<Longrightarrow>
    \<exists>s'. seqs (map (\<lambda>i s. if \<not> visited s ! i then APUtil fuel g i s else Ok s) is) s = Ok s' \<and> finished g s' \<and> Vis s \<union> set is \<subseteq> Vis s' \<and>
      time s' = time s + int (card (Vis s')) - int (card (Vis s))"
proof (induction "is" arbitrary: s)
  case (Cons i "is")
  have i: "i < gV g" using Cons.prems(3) by simp
  have vis: "visited s ! i \<longleftrightarrow> i \<in> Vis s" using i Cons.prems(1) by (simp add: finished_def ok_def sized_def Vis_def)
  obtain s1 where 1: "(if \<not> visited s ! i then APUtil fuel g i s else Ok s) = Ok s1" "finished g s1" "left g s1 \<le> fuel" "insert i (Vis s) \<subseteq> Vis s1"
    "time s1 = time s + int (card (Vis s1)) - int (card (Vis s))"
  proof (cases "i \<in> Vis s")
    case True
    then show ?thesis using that [of s] Cons.prems(1,2) vis by auto
  next
    case False
    from root_step [OF g Cons.prems(1) i False Cons.prems(2,4)] obtain s' where
      "APUtil fuel g i s = Ok s'" "finished g s'" "left g s' \<le> left g s" "insert i (Vis s) \<subseteq> Vis s'"
      "time s' = time s + int (card (Vis s')) - int (card (Vis s))" by blast
    then show ?thesis using that [of s'] False vis Cons.prems(2) by simp
  qed
  have "finite (Vis s1)" "Vis s \<subseteq> Vis s1" using 1(2,4) card_Vis [of g s1] by (auto simp: finished_def)
  then have "card (Vis s) \<le> card (Vis s1)" by (rule card_mono)
  then have "room g s1" using Cons.prems(4) 1(5) by (simp add: room_def)
  from Cons.IH [OF 1(2,3) _ this] Cons.prems(3) obtain s' where
    "seqs (map (\<lambda>i s. if \<not> visited s ! i then APUtil fuel g i s else Ok s) is) s1 = Ok s'" "finished g s'" "Vis s1 \<union> set is \<subseteq> Vis s'"
    "time s' = time s1 + int (card (Vis s')) - int (card (Vis s1))" by auto
  then show ?case using 1(1,4,5) by (intro exI [of _ s']) auto
qed simp

lemma ap_start_finished: "finished g (ap_start (gV g) t)" "Vis (ap_start (gV g) t) = {}"
proof -
  show "Vis (ap_start (gV g) t) = {}" by (auto simp: Vis_def ap_start_def)
  have "Vis (ap_start (gV g) t) = {}" by (auto simp: Vis_def ap_start_def)
  then show "finished g (ap_start (gV g) t)" by (simp add: finished_def ok_def sized_def) (simp add: ap_start_def)
qed

definition edges :: "graph \<Rightarrow> (nat \<times> nat) set" where
  "edges g = {(u, v). u < gV g \<and> v \<in> nb g u}"

text \<open>The forest of a search that has visited every vertex.\<close>

definition par_of :: "graph \<Rightarrow> search \<Rightarrow> nat \<Rightarrow> nat option" where
  "par_of g s v = (if v < gV g then P s v else None)"

definition disc_of :: "graph \<Rightarrow> search \<Rightarrow> nat \<Rightarrow> int" where
  "disc_of g s v = (if v < gV g then D s v else 0)"

definition low_of :: "graph \<Rightarrow> search \<Rightarrow> nat \<Rightarrow> int" where
  "low_of g s v = (if v < gV g then L s v else 0)"

lemma search_forest:
  assumes g: "wf_graph g" and R: "finished g s" and all: "Vis s = {..<gV g}"
  shows "dfs_forest (edges g) (par_of g s) (disc_of g s) (low_of g s)"
proof -
  have s: "ok g s" using R by (simp add: finished_def)
  have inr: "y < gV g" if "v < gV g" "y \<in> nb g v" for v y using g that unfolding wf_graph_def by blast
  have tree: "tree (par_of g s) = rel s" by (auto simp: tree_def rel_def par_of_def all split: if_splits)
  have range: "p < gV g \<and> c < gV g" if "par_of g s c = Some p" for p c
    using that ok_parent [OF s, of c p] by (auto simp: par_of_def all split: if_splits)
  have up: "(p, c) \<in> edges g \<and> disc_of g s p < disc_of g s c" if "(p, c) \<in> rel s" for p c
    using that ok_parent [OF s, of c p] by (auto simp: rel_def edges_def disc_of_def all)
  have "sym (edges g)" using g unfolding sym_def edges_def wf_graph_def by blast
  moreover have "finite (tree (par_of g s))"
    by (rule finite_subset [of _ "{..<gV g} \<times> {..<gV g}"]) (use range in \<open>auto simp: tree_def\<close>)
  moreover have "comparable s x y" if "(x, y) \<in> edges g" for x y
  proof -
    have "x < gV g" "y \<in> nb g x" using that by (auto simp: edges_def)
    moreover from this have "y < gV g" using inr by blast
    ultimately show ?thesis using R by (simp add: finished_def all)
  qed
  moreover have "low_of g s v < t \<longleftrightarrow> disc_of g s v < t \<or> (\<exists>c. par_of g s c = Some v \<and> low_of g s c < t) \<or>
      (\<exists>y. (v, y) \<in> edges g \<and> par_of g s v \<noteq> Some y \<and> disc_of g s y < t)" for v t
  proof (cases "v < gV g")
    case True
    have "part s v (nb g v)" using R True by (simp add: finished_def all)
    then have "L s v < t \<longleftrightarrow> D s v < t \<or> (\<exists>c \<in> kids s v. L s c < t) \<or> (\<exists>y \<in> nb g v. P s v \<noteq> Some y \<and> D s y < t)"
      by (simp add: part_def)
    moreover have "(\<exists>c \<in> kids s v. L s c < t) \<longleftrightarrow> (\<exists>c. par_of g s c = Some v \<and> low_of g s c < t)"
      by (auto simp: kids_def all par_of_def low_of_def split: if_splits)
    moreover have "(\<exists>y \<in> nb g v. P s v \<noteq> Some y \<and> D s y < t) \<longleftrightarrow> (\<exists>y. (v, y) \<in> edges g \<and> par_of g s v \<noteq> Some y \<and> disc_of g s y < t)"
      using True inr [OF True] by (auto simp: edges_def par_of_def disc_of_def)
    ultimately show ?thesis using True by (simp add: low_of_def disc_of_def)
  next
    case False
    then show ?thesis using range by (auto simp: low_of_def disc_of_def edges_def)
  qed
  ultimately show ?thesis using up unfolding dfs_forest_def tree comparable_def by blast
qed

lemma two_elements: "finite S \<Longrightarrow> 1 < card S \<longleftrightarrow> (\<exists>c c'. c \<noteq> c' \<and> c \<in> S \<and> c' \<in> S)"
  by (metis One_nat_def card_le_Suc0_iff_eq not_le)

lemma search_reported:
  assumes R: "finished g s" and all: "Vis s = {..<gV g}" and u: "u < gV g"
  shows "A s u \<longleftrightarrow> reported (par_of g s) (disc_of g s) (low_of g s) u"
proof -
  have s: "ok g s" using R by (simp add: finished_def)
  have k: "c \<in> kids s u \<longleftrightarrow> par_of g s c = Some u" for c by (auto simp: kids_def all par_of_def split: if_splits)
  have f: "finite (kids s u)" by (rule finite_subset [of _ "{..<gV g}"]) (auto simp: kids_def all)
  have "A s u \<longleftrightarrow> (if P s u = None then 1 < card (kids s u) else \<exists>c \<in> kids s u. D s u \<le> L s c)"
    using R u by (simp add: finished_def all part_def)
  moreover have "(\<exists>c \<in> kids s u. D s u \<le> L s c) \<longleftrightarrow> (\<exists>c. par_of g s c = Some u \<and> disc_of g s u \<le> low_of g s c)"
    using u by (auto simp: disc_of_def low_of_def kids_def all par_of_def split: if_splits)
  ultimately show ?thesis unfolding reported_def two_elements [OF f] k using u by (simp add: par_of_def)
qed

lemma AP_ok:
  assumes "wf_graph g" "gV g \<le> fuel" "- (2 ^ 31) \<le> t" "t + int (gV g) < 2 ^ 31"
  shows "AP fuel g t = Ok (filter (is_cut (edges g)) [0..<gV g], t + int (gV g))"
proof -
  have "left g (ap_start (gV g) t) \<le> fuel" using assms(2) by (simp add: left_def)
  moreover have "room g (ap_start (gV g) t)" using assms(3,4) ap_start_finished(2) by (simp add: room_def) (simp add: ap_start_def)
  ultimately obtain s where
    s: "seqs (map (\<lambda>i s. if \<not> visited s ! i then APUtil fuel g i s else Ok s) [0..<gV g]) (ap_start (gV g) t) = Ok s" "finished g s"
      "{..<gV g} \<subseteq> Vis s" "time s = t + int (card (Vis s))"
    using roots_ok [OF assms(1) ap_start_finished(1) [of g t], of fuel "[0..<gV g]"] ap_start_finished(2) [of g t]
    by (auto simp: lessThan_atLeast0) (auto simp: ap_start_def)
  have all: "Vis s = {..<gV g}" using s(2,3) Vis_subset by (auto simp: finished_def)
  have "filter (\<lambda>i. A s i) [0..<gV g] = filter (is_cut (edges g)) [0..<gV g]"
    using search_reported [OF s(2) all] reported_iff_cut [OF search_forest [OF assms(1) s(2) all]] by (intro filter_cong) auto
  then show ?thesis using s(1,4) all by (simp add: AP_def)
qed

section \<open>The construction of the graph\<close>

lemma push_back_fields:
  assumes "v < length (adj g)"
  shows "gV (push_back v w g) = gV g" "length (adj (push_back v w g)) = length (adj g)"
    "nb (push_back v w g) u = (if u = v then insert w (nb g u) else nb g u)"
  using assms by (auto simp: push_back_def nth_list_update)

lemma addEdge_ok:
  assumes "wf_graph g" "0 \<le> v" "v < int (gV g)" "0 \<le> w" "w < int (gV g)"
  shows "\<exists>g'. addEdge v w g = Ok g' \<and> wf_graph g' \<and> gV g' = gV g \<and> edges g' = edges g \<union> {(nat v, nat w), (nat w, nat v)}"
proof -
  have len: "length (adj g) = gV g" using assms(1) by (simp add: wf_graph_def)
  have vw: "nat v < gV g" "nat w < gV g" using assms(2-) by auto
  define g' where "g' = push_back (nat w) (nat v) (push_back (nat v) (nat w) g)"
  have f: "gV g' = gV g" "length (adj g') = gV g"
      "nb g' u = nb g u \<union> (if u = nat v then {nat w} else {}) \<union> (if u = nat w then {nat v} else {})" for u
    using vw by (simp_all add: g'_def push_back_fields len)
  have nbs: "x \<in> nb g' u \<longleftrightarrow> x \<in> nb g u \<or> u = nat v \<and> x = nat w \<or> u = nat w \<and> x = nat v" for u x unfolding f by auto
  have "wf_graph g'" using assms(1) vw unfolding wf_graph_def f(1,2) Ball_def nbs by blast
  moreover have "edges g' = edges g \<union> {(nat v, nat w), (nat w, nat v)}" using vw unfolding edges_def f(1) nbs by auto
  moreover have "addEdge v w g = Ok g'" using assms(2-) by (simp add: addEdge_def g'_def)
  ultimately show ?thesis using f(1) by blast
qed

definition edge_set :: "(int \<times> int) list \<Rightarrow> (nat \<times> nat) set" where
  "edge_set es = {(a, b). (int a, int b) \<in> set es \<or> (int b, int a) \<in> set es}"

definition in_range :: "nat \<Rightarrow> (int \<times> int) list \<Rightarrow> bool" where
  "in_range n es \<longleftrightarrow> (\<forall>(v, w) \<in> set es. 0 \<le> v \<and> v < int n \<and> 0 \<le> w \<and> w < int n)"

lemma edge_set_Cons: "0 \<le> v \<Longrightarrow> 0 \<le> w \<Longrightarrow> edge_set ((v, w) # es) = {(nat v, nat w), (nat w, nat v)} \<union> edge_set es"
  by (auto simp: edge_set_def)

lemma addEdges_ok:
  "wf_graph g \<Longrightarrow> in_range (gV g) es \<Longrightarrow>
   \<exists>g'. seqs (map (\<lambda>(v, w). addEdge v w) es) g = Ok g' \<and> wf_graph g' \<and> gV g' = gV g \<and> edges g' = edges g \<union> edge_set es"
proof (induction es arbitrary: g)
  case (Cons e es)
  obtain v w where e: "e = (v, w)" by fastforce
  have r: "0 \<le> v" "v < int (gV g)" "0 \<le> w" "w < int (gV g)" "in_range (gV g) es" using Cons.prems(2) e by (auto simp: in_range_def)
  from addEdge_ok [OF Cons.prems(1) r(1-4)] obtain g1 where
    1: "addEdge v w g = Ok g1" "wf_graph g1" "gV g1 = gV g" "edges g1 = edges g \<union> {(nat v, nat w), (nat w, nat v)}" by blast
  from Cons.IH [OF 1(2)] r(5) 1(3) obtain g2 where
    2: "seqs (map (\<lambda>(v, w). addEdge v w) es) g1 = Ok g2" "wf_graph g2" "gV g2 = gV g" "edges g2 = edges g1 \<union> edge_set es" by auto
  have "edges g2 = edges g \<union> edge_set (e # es)" using 1(4) 2(4) edge_set_Cons [OF r(1,3)] e by auto
  then show ?case using 1(1) 2(1-3) e by simp
qed (simp add: edge_set_def)

text \<open>
  C8: for a graph built by \<open>addEdge\<close> with ends in range, and a counter that has room for the vertices (the counter is a static \<open>int\<close>, so it
  must not reach the end of its range), \<open>AP\<close> returns and prints exactly the cut vertices, in order: those whose removal separates two connected
  vertices. The counter goes up by the number of vertices, the recursion is no deeper than this number, and no array is accessed out of its bounds or
  read before it is written.
\<close>

theorem AP_cut_vertices:
  assumes "in_range n es" "n \<le> fuel" "- (2 ^ 31) \<le> t" "t + int n < 2 ^ 31"
  shows "\<exists>g. build n es = Ok g \<and> AP fuel g t = Ok (filter (is_cut (edge_set es)) [0..<n], t + int n)"
proof -
  have "wf_graph (Graph n)" "gV (Graph n) = n" "edges (Graph n) = {}" by (auto simp: wf_graph_def Graph_def edges_def)
  with addEdges_ok [of "Graph n" es] assms(1) obtain g where
    g: "build n es = Ok g" "wf_graph g" "gV g = n" "edges g = edge_set es" by (auto simp: build_def)
  from AP_ok [OF g(2), of fuel t] g(1,3,4) assms(2-4) show ?thesis by auto
qed

text \<open>When the range ends, the search of a path of three vertices overflows at the third one.\<close>

lemma AP_overflows: "obind (build 3 [(0, 1), (1, 2)]) (\<lambda>g. AP 3 g (2 ^ 31 - 3)) = Fault Overflow"
  by code_simp

text \<open>The graphs of \<open>main\<close>, with the counter going on.\<close>

lemma main_1: "obind (build 3 [(0, 1), (0, 2)]) (\<lambda>g. AP 3 g 0) = Ok ([0], 3)"
  by code_simp

lemma main_2: "obind (build 4 [(0, 1), (1, 2), (2, 3)]) (\<lambda>g. AP 4 g 3) = Ok ([1, 2], 7)"
  by code_simp

lemma main_3: "obind (build 7 [(0, 1), (1, 2), (2, 0), (1, 3), (1, 4), (1, 6), (3, 5), (4, 5)]) (\<lambda>g. AP 7 g 7) = Ok ([1], 14)"
  by code_simp

lemma addEdge_out_of_range: "build 3 [(0, 3)] = Fault OutOfBounds"
  by code_simp

theorem AP_cut_vertices_witness:
  "\<exists>g. build 4 [(0, 1), (1, 2), (2, 3)] = Ok g \<and> AP 4 g 3 = Ok (filter (is_cut (edge_set [(0, 1), (1, 2), (2, 3)])) [0..<4], 7)"
  using AP_cut_vertices [of 4 "[(0, 1), (1, 2), (2, 3)]" 4 3] by (simp add: in_range_def)

end
