(* ===== verification/Graph_Cycle.thy ===== *)
theory Graph_Cycle
  imports Outcome
begin

text \<open>
  Detection of a cycle in an undirected graph (\<open>FindCycleInGraph.h\<close>), with sets of vertices as trees in an array of parents. The array
  stands for a partition of the vertices: what \<open>find\<close> returns is the same for two vertices if and only if the edges so far connect them.
\<close>

section \<open>The code\<close>

record graph =
  gV :: nat
  gedge :: "(int \<times> int) list"

fun find :: "nat \<Rightarrow> int list \<Rightarrow> int \<Rightarrow> int res" where
  "find 0 parent i = Timeout"
| "find (Suc fuel) parent i =
     (if 0 \<le> i \<and> nat i < length parent then if parent ! nat i = - 1 then Ok i else find fuel parent (parent ! nat i)
      else Fault OutOfBounds)"

definition Union :: "nat \<Rightarrow> int list \<Rightarrow> int \<Rightarrow> int \<Rightarrow> int list res" where
  "Union fuel parent x y =
     obind (find fuel parent x) (\<lambda>xset. obind (find fuel parent y) (\<lambda>yset. Ok (parent[nat xset := yset])))"

fun cycle_loop :: "nat \<Rightarrow> int list \<Rightarrow> (int \<times> int) list \<Rightarrow> int res" where
  "cycle_loop fuel parent [] = Ok 0"
| "cycle_loop fuel parent ((src, dest) # es) =
     obind (find fuel parent src) (\<lambda>x. obind (find fuel parent dest) (\<lambda>y.
       if x = y then Ok 1 else obind (Union fuel parent x y) (\<lambda>parent. cycle_loop fuel parent es)))"

definition isCycle :: "nat \<Rightarrow> graph \<Rightarrow> int res" where
  "isCycle fuel g = cycle_loop fuel (replicate (gV g) (- 1)) (gedge g)"

section \<open>Connected vertices\<close>

definition conn :: "(int \<times> int) set \<Rightarrow> int \<Rightarrow> int \<Rightarrow> bool" where
  "conn E u v \<longleftrightarrow> (u, v) \<in> (E \<union> E\<inverse>)\<^sup>*"

lemma conn_refl [simp]: "conn E u u"
  by (simp add: conn_def)

lemma conn_sym: "conn E u v \<Longrightarrow> conn E v u"
proof -
  have "sym ((E \<union> E\<inverse>)\<^sup>*)" by (rule sym_rtrancl) (auto simp: sym_def)
  then show "conn E u v \<Longrightarrow> conn E v u" by (auto simp: conn_def sym_def)
qed

lemma conn_trans: "conn E u v \<Longrightarrow> conn E v w \<Longrightarrow> conn E u w"
  by (auto simp: conn_def)

lemma conn_mono: "conn E u v \<Longrightarrow> E \<subseteq> F \<Longrightarrow> conn F u v"
  unfolding conn_def by (erule rtrancl_mono [THEN subsetD, rotated]) auto

lemma conn_edge: "(u, v) \<in> E \<Longrightarrow> conn E u v"
  by (auto simp: conn_def)

lemma conn_insert:
  "conn (insert (a, b) E) u v \<longleftrightarrow> conn E u v \<or> conn E u a \<and> conn E b v \<or> conn E u b \<and> conn E a v"
proof
  assume "conn (insert (a, b) E) u v"
  then have "(u, v) \<in> (insert (a, b) E \<union> (insert (a, b) E)\<inverse>)\<^sup>*" by (simp add: conn_def)
  then show "conn E u v \<or> conn E u a \<and> conn E b v \<or> conn E u b \<and> conn E a v"
  proof (induction rule: rtrancl_induct)
    case (step y z)
    then consider "(y, z) \<in> E \<union> E\<inverse>" | "y = a" "z = b" | "y = b" "z = a" by auto
    then show ?case
    proof cases
      case 1
      then have "conn E y z" by (auto simp: conn_def)
      then show ?thesis using step.IH conn_trans by blast
    qed (use step.IH conn_refl conn_sym conn_trans in blast)+
  qed simp
next
  have ab: "conn (insert (a, b) E) a b" by (rule conn_edge) simp
  have up: "conn E x y \<Longrightarrow> conn (insert (a, b) E) x y" for x y by (erule conn_mono) auto
  assume "conn E u v \<or> conn E u a \<and> conn E b v \<or> conn E u b \<and> conn E a v"
  then show "conn (insert (a, b) E) u v" using ab up conn_sym conn_trans by meson
qed

text \<open>A cycle: the ends of an edge are connected without it.\<close>

definition cyclic :: "(int \<times> int) list \<Rightarrow> bool" where
  "cyclic es \<longleftrightarrow> (\<exists>as u v bs. es = as @ (u, v) # bs \<and> conn (set (as @ bs)) u v)"

lemma cyclic_append: "cyclic es \<Longrightarrow> cyclic (es @ fs)"
proof -
  assume "cyclic es"
  then obtain as u v bs where "es = as @ (u, v) # bs" "conn (set (as @ bs)) u v" by (auto simp: cyclic_def)
  then have "es @ fs = as @ (u, v) # (bs @ fs)" "conn (set (as @ (bs @ fs))) u v" by (auto elim: conn_mono)
  then show "cyclic (es @ fs)" unfolding cyclic_def by blast
qed

lemma cyclic_snoc: "cyclic (es @ [(a, b)]) \<longleftrightarrow> cyclic es \<or> conn (set es) a b"
proof
  assume "cyclic es \<or> conn (set es) a b"
  then show "cyclic (es @ [(a, b)])"
  proof
    assume "conn (set es) a b"
    then have "es @ [(a, b)] = es @ (a, b) # []" "conn (set (es @ [])) a b" by simp_all
    then show ?thesis unfolding cyclic_def by blast
  qed (rule cyclic_append)
next
  assume "cyclic (es @ [(a, b)])"
  then obtain as u v bs where e: "es @ [(a, b)] = as @ (u, v) # bs" "conn (set (as @ bs)) u v" by (auto simp: cyclic_def)
  show "cyclic es \<or> conn (set es) a b"
  proof (cases bs rule: rev_cases)
    case Nil
    then show ?thesis using e by simp
  next
    case (snoc bs' e')
    then have es: "es = as @ (u, v) # bs'" "e' = (a, b)" using e(1) by auto
    have uv: "conn (set es) u v" using es by (intro conn_edge) simp
    have "conn (insert (a, b) (set (as @ bs'))) u v" using e(2) snoc es(2) by simp
    then consider "conn (set (as @ bs')) u v" | "conn (set (as @ bs')) u a" "conn (set (as @ bs')) b v" | "conn (set (as @ bs')) u b" "conn (set (as @ bs')) a v"
      unfolding conn_insert by blast
    then show ?thesis
    proof cases
      case 1
      then show ?thesis using es(1) cyclic_def by blast
    next
      case 2
      then have "conn (set es) u a" "conn (set es) b v" using es(1) by (auto elim: conn_mono)
      then show ?thesis using uv conn_sym conn_trans by blast
    next
      case 3
      then have "conn (set es) u b" "conn (set es) a v" using es(1) by (auto elim: conn_mono)
      then show ?thesis using uv conn_sym conn_trans by blast
    qed
  qed
qed

section \<open>The array of parents\<close>

abbreviation vertex :: "'a list \<Rightarrow> int \<Rightarrow> bool" where
  "vertex p i \<equiv> 0 \<le> i \<and> nat i < length p"

text \<open>\<open>r\<close> gives the root of a vertex and \<open>d\<close> the number of steps to it.\<close>

definition forest :: "int list \<Rightarrow> (int \<Rightarrow> int) \<Rightarrow> (int \<Rightarrow> nat) \<Rightarrow> bool" where
  "forest p r d \<longleftrightarrow>
     (\<forall>i. vertex p i \<longrightarrow>
        (if p ! nat i = - 1 then r i = i \<and> d i = 0
         else vertex p (p ! nat i) \<and> r i = r (p ! nat i) \<and> d i = Suc (d (p ! nat i))))"

lemma forest_root: "forest p r d \<Longrightarrow> vertex p i \<Longrightarrow> p ! nat i = - 1 \<Longrightarrow> r i = i \<and> d i = 0"
  by (auto simp: forest_def)

lemma forest_step: "forest p r d \<Longrightarrow> vertex p i \<Longrightarrow> p ! nat i \<noteq> - 1 \<Longrightarrow> vertex p (p ! nat i) \<and> r i = r (p ! nat i) \<and> d i = Suc (d (p ! nat i))"
  by (auto simp: forest_def)

lemma find_root: "forest p r d \<Longrightarrow> vertex p i \<Longrightarrow> d i < fuel \<Longrightarrow> find fuel p i = Ok (r i)"
proof (induction fuel arbitrary: i)
  case (Suc fuel)
  show ?case
  proof (cases "p ! nat i = - 1")
    case True
    then show ?thesis using Suc.prems forest_root [OF Suc.prems(1,2) True] by simp
  next
    case False
    then have f: "vertex p (p ! nat i)" "r i = r (p ! nat i)" "d i = Suc (d (p ! nat i))" using forest_step Suc.prems by blast+
    have "find fuel p (p ! nat i) = Ok (r (p ! nat i))" by (rule Suc.IH) (use Suc.prems f in auto)
    then show ?thesis using Suc.prems False f(2) by simp
  qed
qed simp

lemma root_vertex: "forest p r d \<Longrightarrow> vertex p i \<Longrightarrow> vertex p (r i) \<and> p ! nat (r i) = - 1 \<and> r (r i) = r i \<and> d (r i) = 0"
proof (induction "d i" arbitrary: i)
  case 0
  then have "p ! nat i = - 1" using forest_step by fastforce
  then show ?case using forest_root [OF 0(2,3)] 0(3) by simp
next
  case (Suc n)
  then have "p ! nat i \<noteq> - 1" using forest_root by fastforce
  then have f: "vertex p (p ! nat i)" "r i = r (p ! nat i)" "d i = Suc (d (p ! nat i))" using forest_step Suc.prems by blast+
  then show ?case using Suc.hyps(1) [of "p ! nat i"] Suc.hyps(2) Suc.prems by simp
qed

lemma forest_union:
  assumes f: "forest p r d" and x: "vertex p x" "p ! nat x = - 1" and y: "vertex p y" "p ! nat y = - 1" and ne: "x \<noteq> y"
  shows "forest (p[nat x := y]) (\<lambda>i. if r i = x then y else r i) (\<lambda>i. if r i = x then Suc (d i) else d i)"
  unfolding forest_def
proof (intro allI impI)
  fix i
  assume i: "vertex (p[nat x := y]) i"
  have rx: "r x = x" "d x = 0" "r y = y" "d y = 0" using forest_root [OF f] x y by auto
  show "if p[nat x := y] ! nat i = - 1 then (if r i = x then y else r i) = i \<and> (if r i = x then Suc (d i) else d i) = 0
     else vertex (p[nat x := y]) (p[nat x := y] ! nat i) \<and>
       (if r i = x then y else r i) = (if r (p[nat x := y] ! nat i) = x then y else r (p[nat x := y] ! nat i)) \<and>
       (if r i = x then Suc (d i) else d i) = Suc (if r (p[nat x := y] ! nat i) = x then Suc (d (p[nat x := y] ! nat i)) else d (p[nat x := y] ! nat i))"
  proof (cases "i = x")
    case True
    then show ?thesis using x y rx ne by auto
  next
    case False
    then have p: "p[nat x := y] ! nat i = p ! nat i" using i x(1) by (simp add: nth_list_update) linarith
    show ?thesis
    proof (cases "p ! nat i = - 1")
      case True
      then have "r i = i" "d i = 0" using forest_root [OF f] i by auto
      then show ?thesis using p True False by simp
    next
      case nr: False
      then show ?thesis using forest_step [OF f _ nr] i p by auto
    qed
  qed
qed

section \<open>Cycles are detected\<close>

definition partition_of :: "int list \<Rightarrow> (int \<Rightarrow> int) \<Rightarrow> (int \<Rightarrow> nat) \<Rightarrow> (int \<times> int) list \<Rightarrow> bool" where
  "partition_of p r d es \<longleftrightarrow>
     forest p r d \<and> (\<forall>i. vertex p i \<longrightarrow> d i \<le> length es) \<and> (\<forall>u v. vertex p u \<and> vertex p v \<longrightarrow> (r u = r v) = conn (set es) u v)"

lemma cycle_loop_correct:
  "partition_of p r d es \<Longrightarrow> \<not> cyclic es \<Longrightarrow> \<forall>(u, v) \<in> set fs. vertex p u \<and> vertex p v \<Longrightarrow> length es + length fs < fuel \<Longrightarrow>
   cycle_loop fuel p fs = Ok (if cyclic (es @ fs) then 1 else 0)"
proof (induction fs arbitrary: p r d es)
  case (Cons e fs)
  obtain a b where e: "e = (a, b)" by (cases e)
  have f: "forest p r d" and dep: "\<forall>i. vertex p i \<longrightarrow> d i \<le> length es"
    and part: "\<And>u v. vertex p u \<Longrightarrow> vertex p v \<Longrightarrow> (r u = r v) = conn (set es) u v"
    using Cons.prems(1) by (auto simp: partition_of_def)
  have ab: "vertex p a" "vertex p b" using Cons.prems(3) e by auto
  have find: "find fuel p i = Ok (r i)" if "vertex p i" for i
    by (rule find_root [OF f that]) (use dep that Cons.prems(4) in force)
  show ?case
  proof (cases "r a = r b")
    case True
    then have "conn (set es) a b" using part ab by simp
    then have "cyclic (es @ [(a, b)])" by (simp add: cyclic_snoc)
    then have "cyclic (es @ e # fs)" using cyclic_append [of "es @ [(a, b)]" fs] e by simp
    then show ?thesis using e find [OF ab(1)] find [OF ab(2)] True by simp
  next
    case False
    let ?x = "r a" and ?y = "r b"
    let ?p = "p[nat ?x := ?y]" and ?r = "\<lambda>i. if r i = ?x then ?y else r i" and ?d = "\<lambda>i. if r i = ?x then Suc (d i) else d i"
    have rx: "vertex p ?x" "p ! nat ?x = - 1" "r ?x = ?x" and ry: "vertex p ?y" "p ! nat ?y = - 1" "r ?y = ?y"
      using root_vertex [OF f] ab by blast+
    have "Union fuel p ?x ?y = Ok ?p" using find [OF rx(1)] find [OF ry(1)] rx(3) ry(3) by (simp add: Union_def)
    then have step: "cycle_loop fuel p (e # fs) = cycle_loop fuel ?p fs"
      using e find [OF ab(1)] find [OF ab(2)] False by (simp del: obind_eq_Ok)
    have "forest ?p ?r ?d" by (rule forest_union [OF f rx(1,2) ry(1,2) False])
    moreover have "(?r u = ?r v) = conn (set (es @ [(a, b)])) u v" if "vertex p u" "vertex p v" for u v
    proof -
      have "conn (set (es @ [(a, b)])) u v \<longleftrightarrow> r u = r v \<or> r u = r a \<and> r b = r v \<or> r u = r b \<and> r a = r v"
        using part that ab by (simp add: conn_insert)
      then show ?thesis using False by metis
    qed
    ultimately have "partition_of ?p ?r ?d (es @ [(a, b)])" using dep by (simp add: partition_of_def le_SucI)
    moreover have "\<not> cyclic (es @ [(a, b)])" using Cons.prems(2) part [OF ab] False by (simp add: cyclic_snoc)
    ultimately have "cycle_loop fuel ?p fs = Ok (if cyclic ((es @ [(a, b)]) @ fs) then 1 else 0)"
      by (rule Cons.IH) (use Cons.prems(3,4) in auto)
    then show ?thesis using step e by simp
  qed
qed simp

text \<open>
  C30: on a graph whose edges join its vertices, \<open>isCycle\<close> returns 1 if the ends of some edge are connected by the other edges, and 0
  otherwise. Fuel beyond the number of edges is enough: the paths in the array of parents are no longer.
\<close>

theorem isCycle_correct:
  assumes "\<forall>(u, v) \<in> set (gedge g). 0 \<le> u \<and> nat u < gV g \<and> 0 \<le> v \<and> nat v < gV g" and "length (gedge g) < fuel"
  shows "isCycle fuel g = Ok (if cyclic (gedge g) then 1 else 0)"
proof -
  let ?p = "replicate (gV g) (- 1 :: int)"
  have "partition_of ?p id (\<lambda>_. 0) []" by (auto simp: partition_of_def forest_def conn_def)
  moreover have "\<not> cyclic []" by (simp add: cyclic_def)
  ultimately show ?thesis using cycle_loop_correct [of ?p id "\<lambda>_. 0" "[]" "gedge g" fuel] assms by (auto simp: isCycle_def)
qed

theorem isCycle_correct_witness:
  "isCycle 4 \<lparr>gV = 3, gedge = [(0, 1), (1, 2), (0, 2)]\<rparr> = Ok (if cyclic [(0, 1), (1, 2), (0, 2)] then 1 else 0)"
  using isCycle_correct [of "\<lparr>gV = 3, gedge = [(0, 1), (1, 2), (0, 2)]\<rparr>" 4] by simp

end
