(* ===== verification/Perm_Cycles.thy ===== *)
theory Perm_Cycles
  imports Outcome
begin

text \<open>
  Permutations in arrays (\<open>Cyclic.cpp\<close>, \<open>computation.cpp\<close>): the cycles are printed, a permutation is tested for being one cycle and for
  being the inverse of another. \<open>make_inverse\<close> marks only the first element of a cycle, so it destroys longer cycles; the program
  then prints for ever.
\<close>

section \<open>The code\<close>

definition rd :: "int list \<Rightarrow> int \<Rightarrow> int res" where
  "rd a i = (if 0 \<le> i \<and> nat i < length a then Ok (a ! nat i) else Fault OutOfBounds)"

definition wr :: "int list \<Rightarrow> int \<Rightarrow> int \<Rightarrow> int list res" where
  "wr a i x = (if 0 \<le> i \<and> nat i < length a then Ok (a[nat i := x]) else Fault OutOfBounds)"

text \<open>The inner loop of \<open>print_cycles\<close>: the elements printed from \<open>i\<close> on, until \<open>k\<close> comes next, and the marks.\<close>

fun print_cycle :: "nat \<Rightarrow> int list \<Rightarrow> int \<Rightarrow> int \<Rightarrow> int list \<Rightarrow> (int list \<times> int list) res" where
  "print_cycle 0 f k i tb = Timeout"
| "print_cycle (Suc fuel) f k i tb =
     obind (wr tb i 1) (\<lambda>tb. obind (rd f i) (\<lambda>j.
       if j \<noteq> k then obind (print_cycle fuel f k j tb) (\<lambda>(out, tb). Ok (i # out, tb)) else Ok ([i], tb)))"

fun print_cycles_from :: "nat \<Rightarrow> int list \<Rightarrow> int list \<Rightarrow> int list \<Rightarrow> int list list res" where
  "print_cycles_from fuel f [] tb = Ok []"
| "print_cycles_from fuel f (k # ks) tb =
     obind (rd tb k) (\<lambda>t.
       if t = 1 then print_cycles_from fuel f ks tb
       else obind (print_cycle fuel f k k tb) (\<lambda>(out, tb). obind (print_cycles_from fuel f ks tb) (\<lambda>outs. Ok (out # outs))))"

definition print_cycles :: "nat \<Rightarrow> int list \<Rightarrow> nat \<Rightarrow> int list \<Rightarrow> int list list res" where
  "print_cycles fuel f n tb = print_cycles_from fuel f (map int [0..<n]) tb"

text \<open>The loop of \<open>is_cyclic\<close> returns \<open>k\<close>.\<close>

fun cycle_length :: "nat \<Rightarrow> int list \<Rightarrow> int \<Rightarrow> int \<Rightarrow> int res" where
  "cycle_length 0 f k e = Timeout"
| "cycle_length (Suc fuel) f k e = obind (rd f e) (\<lambda>e. if e \<noteq> 0 then cycle_length fuel f (k + 1) e else Ok (k + 1))"

definition is_cyclic :: "nat \<Rightarrow> int list \<Rightarrow> nat \<Rightarrow> bool res" where
  "is_cyclic fuel f n = (if n \<le> 1 then Ok True else obind (cycle_length fuel f 0 0) (\<lambda>k. Ok (k = int n)))"

fun inverse_from :: "int list \<Rightarrow> int list \<Rightarrow> int list \<Rightarrow> bool res" where
  "inverse_from f g [] = Ok True"
| "inverse_from f g (k # ks) = obind (rd g k) (\<lambda>j. obind (rd f j) (\<lambda>x. if x \<noteq> k then Ok False else inverse_from f g ks))"

definition is_inverse :: "int list \<Rightarrow> int list \<Rightarrow> nat \<Rightarrow> bool res" where
  "is_inverse f g n = inverse_from f g (map int [0..<n])"

text \<open>The inner loop of \<open>make_inverse\<close> ends with \<open>f[g] = i\<close>.\<close>

fun invert_cycle :: "nat \<Rightarrow> int list \<Rightarrow> int list \<Rightarrow> int \<Rightarrow> int \<Rightarrow> int list res" where
  "invert_cycle 0 f tp i g = Timeout"
| "invert_cycle (Suc fuel) f tp i g =
     obind (rd tp g) (\<lambda>b.
       if b \<noteq> 1 then obind (rd f g) (\<lambda>t. obind (wr f g i) (\<lambda>f. invert_cycle fuel f tp g t))
       else wr f g i)"

fun invert_from :: "nat \<Rightarrow> int list \<Rightarrow> int list \<Rightarrow> int list \<Rightarrow> (int list \<times> int list) res" where
  "invert_from fuel [] f tp = Ok (f, tp)"
| "invert_from fuel (k # ks) f tp =
     obind (rd tp k) (\<lambda>t.
       if t = 1 then invert_from fuel ks f tp
       else obind (wr tp k 1) (\<lambda>tp. obind (rd f k) (\<lambda>g. obind (invert_cycle fuel f tp k g) (\<lambda>f. invert_from fuel ks f tp))))"

definition make_inverse :: "nat \<Rightarrow> int list \<Rightarrow> nat \<Rightarrow> int list \<Rightarrow> (int list \<times> int list) res" where
  "make_inverse fuel f n bp = invert_from fuel (map int [0..<n]) f bp"

definition clear :: "int list \<Rightarrow> nat \<Rightarrow> int list" where
  "clear bp n = replicate n 0 @ drop n bp"

text \<open>\<open>main\<close>: it inverts a cycle of four elements and prints the cycles.\<close>

definition main_cycles :: "nat \<Rightarrow> int list list res" where
  "main_cycles fuel = obind (make_inverse fuel [3, 0, 1, 2] 4 [0, 0, 0, 0]) (\<lambda>(f, tb). print_cycles fuel f 4 (clear tb 4))"

section \<open>Orbits\<close>

definition perm :: "int list \<Rightarrow> bool" where
  "perm f \<longleftrightarrow> distinct f \<and> set f = int ` {0..<length f}"

abbreviation app :: "int list \<Rightarrow> int \<Rightarrow> int" where
  "app f i \<equiv> f ! nat i"

abbreviation points :: "int list \<Rightarrow> int set" where
  "points f \<equiv> int ` {0..<length f}"

lemma points_iff: "i \<in> points f \<longleftrightarrow> 0 \<le> i \<and> nat i < length f"
  by (auto simp: image_iff intro: bexI [of _ "nat i"])

lemma rd_point [simp]: "i \<in> points f \<Longrightarrow> rd f i = Ok (app f i)"
  by (simp add: rd_def points_iff)

lemma perm_app: "perm f \<Longrightarrow> i \<in> points f \<Longrightarrow> app f i \<in> points f"
  unfolding perm_def using nth_mem [of "nat i" f] by (metis points_iff)

lemma perm_inj: "perm f \<Longrightarrow> i \<in> points f \<Longrightarrow> j \<in> points f \<Longrightarrow> app f i = app f j \<Longrightarrow> i = j"
  unfolding perm_def points_iff by (metis nat_eq_iff2 nth_eq_iff_index_eq)

abbreviation iter :: "int list \<Rightarrow> nat \<Rightarrow> int \<Rightarrow> int" where
  "iter f j \<equiv> app f ^^ j"

lemma iter_point: "perm f \<Longrightarrow> i \<in> points f \<Longrightarrow> iter f j i \<in> points f"
  by (induction j) (auto simp del: atLeast0LessThan intro: perm_app)

lemma iter_inj: "perm f \<Longrightarrow> i \<in> points f \<Longrightarrow> i' \<in> points f \<Longrightarrow> iter f j i = iter f j i' \<Longrightarrow> i = i'"
proof (induction j)
  case (Suc j)
  have "app f (iter f j i) = app f (iter f j i')" using Suc.prems(4) by simp
  then have "iter f j i = iter f j i'" by (rule perm_inj [OF Suc.prems(1) iter_point [OF Suc.prems(1,2)] iter_point [OF Suc.prems(1,3)]])
  then show ?case by (rule Suc.IH [OF Suc.prems(1-3)])
qed simp

lemma iter_returns:
  assumes "perm f" and "i \<in> points f"
  shows "\<exists>j. 0 < j \<and> j \<le> length f \<and> iter f j i = i"
proof -
  have "\<not> inj_on (\<lambda>j. iter f j i) {0..length f}"
  proof
    assume "inj_on (\<lambda>j. iter f j i) {0..length f}"
    then have "card {0..length f} \<le> card (points f)" by (rule card_inj_on_le) (use iter_point [OF assms] in auto)
    then show False by (simp add: card_image)
  qed
  then obtain a b where ab: "a < b" "b \<le> length f" "iter f a i = iter f b i"
    unfolding inj_on_def by (metis atLeastAtMost_iff linorder_neqE_nat)
  then have "iter f a i = iter f a (iter f (b - a) i)" by (simp flip: funpow_add [THEN fun_cong, unfolded o_apply])
  then have "iter f (b - a) i = i" using iter_inj [OF assms iter_point [OF assms, of "b - a"], of a] by simp
  with ab show ?thesis by (intro exI [of _ "b - a"]) simp
qed

text \<open>The number of steps until an element comes back to itself.\<close>

definition period :: "int list \<Rightarrow> int \<Rightarrow> nat" where
  "period f i = (LEAST j. 0 < j \<and> iter f j i = i)"

lemma period_props:
  assumes "perm f" and "i \<in> points f"
  shows "0 < period f i" "iter f (period f i) i = i" "period f i \<le> length f" "\<And>j. 0 < j \<Longrightarrow> j < period f i \<Longrightarrow> iter f j i \<noteq> i"
proof -
  obtain j where j: "0 < j" "j \<le> length f" "iter f j i = i" using iter_returns [OF assms] by blast
  have "0 < period f i \<and> iter f (period f i) i = i" unfolding period_def by (rule LeastI [of _ j]) (use j in blast)
  then show "0 < period f i" "iter f (period f i) i = i" by blast+
  show "period f i \<le> length f" unfolding period_def using Least_le [of "\<lambda>j. 0 < j \<and> iter f j i = i" j] j by simp
  show "\<And>j. 0 < j \<Longrightarrow> j < period f i \<Longrightarrow> iter f j i \<noteq> i" unfolding period_def using not_less_Least by blast
qed

lemma period_distinct:
  assumes "perm f" and "i \<in> points f"
  shows "distinct (map (\<lambda>j. iter f j i) [0..<period f i])"
proof -
  note p = period_props [OF assms]
  have "iter f a i \<noteq> iter f b i" if "a < b" "b < period f i" for a b
  proof
    assume "iter f a i = iter f b i"
    then have "iter f a i = iter f a (iter f (b - a) i)" using that(1) by (simp flip: funpow_add [THEN fun_cong, unfolded o_apply])
    then have "iter f (b - a) i = i" using iter_inj [OF assms iter_point [OF assms, of "b - a"], of a] by simp
    then show False using p(4) [of "b - a"] that by simp
  qed
  then have "inj_on (\<lambda>j. iter f j i) {0..<period f i}" by (auto simp: inj_on_def) (metis linorder_neqE_nat)+
  then show ?thesis by (simp add: distinct_map)
qed

lemma orbit_period:
  assumes "perm f" and "i \<in> points f"
  shows "range (\<lambda>j. iter f j i) = (\<lambda>j. iter f j i) ` {0..<period f i}"
proof -
  note p = period_props [OF assms]
  have "iter f j i = iter f (j mod period f i) i" for j using funpow_mod_eq [OF p(2)] by simp
  moreover have "j mod period f i < period f i" for j using p(1) by simp
  ultimately show ?thesis by (fastforce simp: image_iff)
qed

lemma cycle_length_period:
  assumes "perm f" and "0 \<in> points f" and "j < period f 0" and "period f 0 - j \<le> fuel"
  shows "cycle_length fuel f (int j) (iter f j 0) = Ok (int (period f 0))"
  using assms(3,4)
proof (induction fuel arbitrary: j)
  case (Suc fuel)
  have pt: "iter f j 0 \<in> points f" using iter_point [OF assms(1,2)] .
  show ?case
  proof (cases "Suc j = period f 0")
    case True
    have "app f (iter f j 0) = 0" using True period_props(2) [OF assms(1,2)] by (metis funpow.simps(2) o_apply)
    then have "cycle_length (Suc fuel) f (int j) (iter f j 0) = Ok (int j + 1)" using pt by simp
    then show ?thesis using True [symmetric] by (simp del: cycle_length.simps)
  next
    case False
    then have "iter f (Suc j) 0 \<noteq> 0" using period_props(4) [OF assms(1,2), of "Suc j"] Suc.prems(1) by simp
    moreover have "cycle_length fuel f (int (Suc j)) (iter f (Suc j) 0) = Ok (int (period f 0))" by (rule Suc.IH) (use Suc.prems False in auto)
    ultimately show ?thesis using pt by (simp add: add.commute del: obind_eq_Ok)
  qed
qed simp

text \<open>
  On a permutation of at least two elements \<open>is_cyclic\<close> returns whether it is one cycle: whether every element is reached from 0.
\<close>

theorem is_cyclic_correct:
  assumes "perm f" and "1 < length f" and "length f \<le> fuel"
  shows "is_cyclic fuel f (length f) = Ok (range (\<lambda>j. iter f j 0) = points f)"
proof -
  have z: "0 \<in> points f" unfolding points_iff using assms(2) by (simp del: length_greater_0_conv)
  note p = period_props [OF assms(1) z]
  have "cycle_length fuel f 0 0 = Ok (int (period f 0))" using cycle_length_period [OF assms(1) z p(1), of fuel] p(3) assms(3) by simp
  then have r: "is_cyclic fuel f (length f) = Ok (period f 0 = length f)" using assms(2) by (simp add: is_cyclic_def)
  have sub: "range (\<lambda>j. iter f j 0) \<subseteq> points f" using iter_point [OF assms(1) z] by auto
  have "card (range (\<lambda>j. iter f j 0)) = period f 0"
    unfolding orbit_period [OF assms(1) z] using period_distinct [OF assms(1) z] by (simp add: distinct_map card_image)
  moreover have "card (points f) = length f" by (simp add: card_image)
  ultimately have "(period f 0 = length f) = (range (\<lambda>j. iter f j 0) = points f)"
    using sub card_subset_eq [of "points f" "range (\<lambda>j. iter f j 0)"] by (metis finite_atLeastLessThan finite_imageI)
  with r show ?thesis by simp
qed

theorem is_cyclic_correct_witness: "is_cyclic 4 [3, 0, 1, 2] 4 = Ok (range (\<lambda>j. iter [3, 0, 1, 2] j 0) = points [3, 0, 1, 2])"
proof -
  have "perm [3, 0, 1, 2]" by (auto simp: perm_def image_iff eval_nat_numeral atLeastLessThanSuc)
  from is_cyclic_correct [OF this, of 4] show ?thesis by (simp add: eval_nat_numeral)
qed

section \<open>The cycles printed\<close>

definition mark :: "int list \<Rightarrow> int list \<Rightarrow> int list" where
  "mark tb is = foldl (\<lambda>tb i. tb[nat i := 1]) tb is"

definition marked :: "int list \<Rightarrow> int set" where
  "marked tb = {i \<in> points tb. app tb i = 1}"

lemma length_mark [simp]: "length (mark tb is) = length tb"
  unfolding mark_def by (induction "is" arbitrary: tb) auto

lemma marked_mark: "set is \<subseteq> points tb \<Longrightarrow> marked (mark tb is) = marked tb \<union> set is"
proof (induction "is" arbitrary: tb)
  case Nil
  then show ?case by (simp add: mark_def)
next
  case (Cons i "is")
  have "marked (tb[nat i := 1]) = insert i (marked tb)"
    using Cons.prems by (auto simp: marked_def points_iff nth_list_update)
  moreover have "marked (mark (tb[nat i := 1]) is) = marked (tb[nat i := 1]) \<union> set is" by (rule Cons.IH) (use Cons.prems in simp)
  moreover have "mark tb (i # is) = mark (tb[nat i := 1]) is" by (simp add: mark_def)
  ultimately show ?case by simp
qed

abbreviation cycle_of :: "int list \<Rightarrow> int \<Rightarrow> int list" where
  "cycle_of f k \<equiv> map (\<lambda>j. iter f j k) [0..<period f k]"

lemma print_cycle_from:
  assumes "perm f" and "k \<in> points f" and "j < period f k" and "period f k - j \<le> fuel" and "length tb = length f"
  shows "print_cycle fuel f k (iter f j k) tb =
    Ok (map (\<lambda>j. iter f j k) [j..<period f k], mark tb (map (\<lambda>j. iter f j k) [j..<period f k]))"
  using assms(3-5)
proof (induction fuel arbitrary: j tb)
  case (Suc fuel)
  have pt: "iter f j k \<in> points f" using iter_point [OF assms(1,2)] .
  then have wr: "wr tb (iter f j k) 1 = Ok (tb[nat (iter f j k) := 1])" using Suc.prems(3) by (simp add: wr_def points_iff)
  have upt: "[j..<period f k] = j # [Suc j..<period f k]" using Suc.prems(1) by (rule upt_conv_Cons)
  show ?case
  proof (cases "Suc j = period f k")
    case True
    have "app f (iter f j k) = k" using True period_props(2) [OF assms(1,2)] by (metis funpow.simps(2) o_apply)
    then show ?thesis unfolding upt using pt wr True by (simp add: mark_def del: obind_eq_Ok)
  next
    case False
    then have ne: "app f (iter f j k) \<noteq> k" using period_props(4) [OF assms(1,2), of "Suc j"] Suc.prems(1) by simp
    have "print_cycle fuel f k (iter f (Suc j) k) (tb[nat (iter f j k) := 1]) =
      Ok (map (\<lambda>j. iter f j k) [Suc j..<period f k], mark (tb[nat (iter f j k) := 1]) (map (\<lambda>j. iter f j k) [Suc j..<period f k]))"
      by (rule Suc.IH) (use Suc.prems False in auto)
    then show ?thesis unfolding upt using pt wr ne by (simp add: mark_def del: obind_eq_Ok)
  qed
qed simp

definition is_cycle :: "int list \<Rightarrow> int list \<Rightarrow> bool" where
  "is_cycle f c \<longleftrightarrow> c \<noteq> [] \<and> (\<forall>i < length c. app f (c ! i) = c ! (Suc i mod length c))"

lemma is_cycle_of: "perm f \<Longrightarrow> k \<in> points f \<Longrightarrow> is_cycle f (cycle_of f k)"
  unfolding is_cycle_def
proof (intro conjI allI impI)
  assume p: "perm f" "k \<in> points f"
  show "cycle_of f k \<noteq> []" using period_props(1) [OF p] by simp
  fix i
  assume i: "i < length (cycle_of f k)"
  then show "app f (cycle_of f k ! i) = cycle_of f k ! (Suc i mod length (cycle_of f k))"
    using period_props(2) [OF p] by (cases "Suc i = period f k") (auto, metis funpow.simps(2) o_apply)
qed

text \<open>An element that is not marked has no marked element in its cycle.\<close>

lemma cycle_unmarked:
  assumes "perm f" and "k \<in> points f" and "\<forall>i \<in> M. app f i \<in> M" and "k \<notin> M"
  shows "set (cycle_of f k) \<inter> M = {}"
proof -
  have "iter f j k \<notin> M" if "j < period f k" for j
  proof
    assume "iter f j k \<in> M"
    then have "iter f n (iter f j k) \<in> M" for n using assms(3) by (induction n) auto
    from this [of "period f k - j"] have "iter f (period f k) k \<in> M"
      using that by (simp flip: funpow_add [THEN fun_cong, unfolded o_apply])
    then show False using period_props(2) [OF assms(1,2)] assms(4) by simp
  qed
  then show ?thesis by auto
qed

lemma cycle_closed: "perm f \<Longrightarrow> k \<in> points f \<Longrightarrow> \<forall>i \<in> set (cycle_of f k). app f i \<in> set (cycle_of f k)"
proof
  fix i
  assume p: "perm f" "k \<in> points f" and "i \<in> set (cycle_of f k)"
  then obtain j where "i = iter f j k" by auto
  then have "app f i = iter f (Suc j) k" by simp
  then have "app f i \<in> range (\<lambda>j. iter f j k)" by blast
  then show "app f i \<in> set (cycle_of f k)" using orbit_period [OF p] by simp
qed

lemma print_cycles_from_all:
  "perm f \<Longrightarrow> length tb = length f \<Longrightarrow> \<forall>i \<in> marked tb. app f i \<in> marked tb \<Longrightarrow> set ks \<subseteq> points f \<Longrightarrow> length f \<le> fuel \<Longrightarrow>
   \<exists>outs. print_cycles_from fuel f ks tb = Ok outs \<and> distinct (concat outs) \<and> (\<forall>c \<in> set outs. is_cycle f c) \<and>
     set (concat outs) \<inter> marked tb = {} \<and> set ks \<subseteq> marked tb \<union> set (concat outs) \<and> set (concat outs) \<subseteq> points f"
proof (induction ks arbitrary: tb)
  case (Cons k ks)
  have k: "k \<in> points f" "set ks \<subseteq> points f" using Cons.prems(4) by auto
  have rd: "rd tb k = Ok (app tb k)" using k(1) Cons.prems(2) by (simp add: rd_def points_iff)
  show ?case
  proof (cases "app tb k = 1")
    case True
    then have "k \<in> marked tb" using k(1) Cons.prems(2) by (simp add: marked_def)
    then show ?thesis using Cons.IH [OF Cons.prems(1-3) k(2) Cons.prems(5)] rd True by auto
  next
    case False
    let ?c = "cycle_of f k" and ?tb = "mark tb (cycle_of f k)"
    have nk: "k \<notin> marked tb" using False by (simp add: marked_def)
    note p = period_props [OF Cons.prems(1) k(1)]
    have pc: "print_cycle fuel f k k tb = Ok (?c, ?tb)"
      using print_cycle_from [OF Cons.prems(1) k(1) p(1), of fuel tb] p(3) Cons.prems(2,5) by simp
    have cp: "set ?c \<subseteq> points f" using iter_point [OF Cons.prems(1) k(1)] by auto
    have kc: "k \<in> set ?c" using p(1) by (auto intro: image_eqI [of _ _ 0])
    have mk: "marked ?tb = marked tb \<union> set ?c" by (rule marked_mark) (use cp Cons.prems(2) in simp)
    have "\<forall>i \<in> marked ?tb. app f i \<in> marked ?tb" unfolding mk using Cons.prems(3) cycle_closed [OF Cons.prems(1) k(1)] by blast
    then obtain outs where o: "print_cycles_from fuel f ks ?tb = Ok outs" "distinct (concat outs)" "\<forall>c \<in> set outs. is_cycle f c"
      "set (concat outs) \<inter> marked ?tb = {}" "set ks \<subseteq> marked ?tb \<union> set (concat outs)" "set (concat outs) \<subseteq> points f"
      using Cons.IH [of ?tb] Cons.prems(1,2,5) k(2) by auto
    have "print_cycles_from fuel f (k # ks) tb = Ok (?c # outs)" using rd False pc o(1) by (simp del: obind_eq_Ok)
    moreover have un: "set ?c \<inter> marked tb = {}" by (rule cycle_unmarked [OF Cons.prems(1) k(1) Cons.prems(3) nk])
    moreover have "distinct (concat (?c # outs))"
      unfolding concat.simps distinct_append using period_distinct [OF Cons.prems(1) k(1)] o(2,4) mk by blast
    moreover have "\<forall>c \<in> set (?c # outs). is_cycle f c" using o(3) is_cycle_of [OF Cons.prems(1) k(1)] unfolding list.set by blast
    moreover have "set (concat (?c # outs)) \<inter> marked tb = {}" unfolding concat.simps set_append using un o(4) mk by blast
    moreover have "set (k # ks) \<subseteq> marked tb \<union> set (concat (?c # outs))" unfolding concat.simps set_append list.set using kc o(5) mk by blast
    moreover have "set (concat (?c # outs)) \<subseteq> points f" unfolding concat.simps set_append using cp o(6) by blast
    ultimately show ?thesis by blast
  qed
qed simp

text \<open>
  C31: with no marks set, \<open>print_cycles\<close> returns on every permutation and prints its cycles: what it prints are cycles of the
  permutation, and every element is printed once.
\<close>

theorem print_cycles_correct:
  assumes "perm f" and "length f \<le> fuel"
  shows "\<exists>outs. print_cycles fuel f (length f) (replicate (length f) 0) = Ok outs \<and> (\<forall>c \<in> set outs. is_cycle f c) \<and>
    distinct (concat outs) \<and> set (concat outs) = points f"
proof -
  let ?tb = "replicate (length f) (0 :: int)"
  have m: "marked ?tb = {}" by (auto simp: marked_def)
  have ks: "set (map int [0..<length f]) \<subseteq> points f" by simp
  from print_cycles_from_all [OF assms(1) _ _ ks assms(2), of ?tb] m
  obtain outs where "print_cycles fuel f (length f) ?tb = Ok outs" "distinct (concat outs)" "\<forall>c \<in> set outs. is_cycle f c"
    "set (map int [0..<length f]) \<subseteq> set (concat outs)" "set (concat outs) \<subseteq> points f"
    by (auto simp: print_cycles_def)
  then show ?thesis by (intro exI [of _ outs]) (simp add: set_eq_subset)
qed

theorem print_cycles_correct_witness:
  "\<exists>outs. print_cycles 4 [3, 0, 1, 2] 4 (replicate 4 0) = Ok outs \<and> (\<forall>c \<in> set outs. is_cycle [3, 0, 1, 2] c) \<and>
    distinct (concat outs) \<and> set (concat outs) = points [3, 0, 1, 2]"
proof -
  have "perm [3, 0, 1, 2]" by (auto simp: perm_def image_iff eval_nat_numeral atLeastLessThanSuc)
  from print_cycles_correct [OF this, of 4] show ?thesis by (simp add: eval_nat_numeral)
qed

section \<open>Inverses\<close>

lemma inverse_from_iff:
  "set ks \<subseteq> points g \<Longrightarrow> set g \<subseteq> points f \<Longrightarrow> inverse_from f g ks = Ok (\<forall>k \<in> set ks. app f (app g k) = k)"
proof (induction ks)
  case (Cons k ks)
  have "k \<in> points g" using Cons.prems(1) by simp
  then have k: "rd g k = Ok (app g k)" "app g k \<in> points f"
    using Cons.prems(2) nth_mem [of "nat k" g] points_iff [of k g] rd_point by blast+
  have "rd f (app g k) = Ok (app f (app g k))" by (rule rd_point [OF k(2)])
  then show ?case using Cons k(1) by (simp del: obind_eq_Ok)
qed simp

lemma is_inverse_iff: "set g \<subseteq> points f \<Longrightarrow> is_inverse f g (length g) = Ok (\<forall>k \<in> points g. app f (app g k) = k)"
  using inverse_from_iff [of "map int [0..<length g]" g f] by (simp add: is_inverse_def)

text \<open>What \<open>make_inverse\<close> leaves in \<open>main\<close> is not a permutation.\<close>

lemma make_inverse_breaks: "make_inverse (Suc (Suc (Suc (Suc n)))) [3, 0, 1, 2] 4 [0, 0, 0, 0] = Ok ([3, 2, 3, 2], [1, 1, 1, 1])"
  by (simp add: make_inverse_def rd_def wr_def eval_nat_numeral upt_rec del: obind_eq_Ok)

lemma broken_cycle: "length tb = 4 \<Longrightarrow> i \<in> {2, 3} \<Longrightarrow> print_cycle fuel [3, 2, 3, 2] 0 i tb = Timeout"
proof (induction fuel arbitrary: i tb)
  case (Suc fuel)
  then have "rd [3, 2, 3, 2] i \<in> {Ok 3, Ok 2}" "\<exists>tb'. wr tb i 1 = Ok tb' \<and> length tb' = 4" by (auto simp: rd_def wr_def)
  then show ?case using Suc.IH by (auto simp del: obind_eq_Ok)
qed simp

text \<open>
  The program never ends: whatever number of rounds its loops are given, \<open>main\<close> has not returned. After \<open>make_inverse\<close> the array is
  not a permutation, and \<open>print_cycles\<close> does not come back to the element 0.
\<close>

theorem main_cycles_diverges: "main_cycles fuel = Timeout"
proof (cases "fuel < 4")
  case True
  then have "fuel = 0 \<or> fuel = 1 \<or> fuel = 2 \<or> fuel = 3" by auto
  then show ?thesis by (auto simp: main_cycles_def make_inverse_def rd_def wr_def eval_nat_numeral upt_rec)
next
  case False
  then obtain n where "fuel = 4 + n" using le_Suc_ex [of 4 fuel] by fastforce
  then have n: "fuel = Suc (Suc (Suc (Suc n)))" by (simp add: eval_nat_numeral)
  have "print_cycle fuel [3, 2, 3, 2] 0 0 [0, 0, 0, 0] = Timeout"
    using broken_cycle [of "[1, 0, 0, 0]" 3 "Suc (Suc (Suc n))"] n by (simp add: rd_def wr_def del: obind_eq_Ok)
  then show ?thesis using make_inverse_breaks [of n] n
    by (simp add: main_cycles_def print_cycles_def clear_def rd_def eval_nat_numeral upt_rec del: obind_eq_Ok print_cycle.simps)
qed

end
