(* ===== verification/Cuckoo.thy ===== *)
theory Cuckoo
  imports Outcome
begin

text \<open>
  Cuckoo hashing (\<open>Cucoo.cpp\<close>): two tables of 11 places, a hash function for each. A key is put at its place in one table, and the
  key that was there moves to its place in the other one, as often as there are keys; then one key is reported as not placed.
\<close>

section \<open>The code\<close>

definition MAXN :: nat where
  "MAXN = 11"

definition EMPTY :: int where
  "EMPTY = - (2 ^ 31)"

type_synonym tables = "int list list"

definition initTable :: tables where
  "initTable = replicate 2 (replicate MAXN EMPTY)"

definition hash :: "nat \<Rightarrow> int \<Rightarrow> int" where
  "hash i key = (if i = 1 then c_rem key (int MAXN) else c_rem (c_quot key (int MAXN)) (int MAXN))"

definition rd :: "tables \<Rightarrow> nat \<Rightarrow> int \<Rightarrow> int res" where
  "rd h i j = (if 0 \<le> j \<and> nat j < MAXN then Ok (h ! i ! nat j) else Fault OutOfBounds)"

definition wr :: "tables \<Rightarrow> nat \<Rightarrow> int \<Rightarrow> int \<Rightarrow> tables res" where
  "wr h i j x = (if 0 \<le> j \<and> nat j < MAXN then Ok (h[i := (h ! i)[nat j := x]]) else Fault OutOfBounds)"

text \<open>
  \<open>place\<close> with the number of calls left, \<open>n - cnt\<close>; the tables it leaves and the keys it reports as not placed. The global \<open>pos\<close>
  is written before it is used in every call.
\<close>

fun place :: "nat \<Rightarrow> int \<Rightarrow> nat \<Rightarrow> tables \<Rightarrow> (tables \<times> int list) res" where
  "place 0 key tableID h = Ok (h, [key])"
| "place (Suc calls) key tableID h =
     obind (rd h 0 (hash 1 key)) (\<lambda>x. if x = key then Ok (h, []) else
     obind (rd h 1 (hash 2 key)) (\<lambda>y. if y = key then Ok (h, []) else
     obind (rd h tableID (hash (tableID + 1) key)) (\<lambda>dis.
     obind (wr h tableID (hash (tableID + 1) key) key) (\<lambda>h.
       if dis \<noteq> EMPTY then place calls dis ((tableID + 1) mod 2) h else Ok (h, [])))))"

fun place_all :: "nat \<Rightarrow> int list \<Rightarrow> tables \<Rightarrow> (tables \<times> int list) res" where
  "place_all n [] h = Ok (h, [])"
| "place_all n (k # ks) h = obind (place n k 0 h) (\<lambda>(h, out). obind (place_all n ks h) (\<lambda>(h, outs). Ok (h, out @ outs)))"

text \<open>The tables as \<open>printTable\<close> prints them, with a mark for an empty place.\<close>

definition printTable :: "tables \<Rightarrow> int option list list" where
  "printTable h = map (map (\<lambda>x. if x = EMPTY then None else Some x)) h"

definition cuckoo :: "int list \<Rightarrow> (int option list list \<times> int list) res" where
  "cuckoo keys = obind (place_all (length keys) keys initTable) (\<lambda>(h, outs). Ok (printTable h, outs))"

section \<open>The tables\<close>

definition entry :: "tables \<Rightarrow> nat \<Rightarrow> nat \<Rightarrow> int" where
  "entry h i j = h ! i ! j"

definition contents :: "tables \<Rightarrow> int set" where
  "contents h = {entry h i j |i j. i < 2 \<and> j < MAXN \<and> entry h i j \<noteq> EMPTY}"

text \<open>Every key is at its place, and in one table only.\<close>

definition wf :: "tables \<Rightarrow> bool" where
  "wf h \<longleftrightarrow> length h = 2 \<and> (\<forall>t \<in> set h. length t = MAXN) \<and>
     (\<forall>i < 2. \<forall>j < MAXN. entry h i j \<noteq> EMPTY \<longrightarrow> 0 \<le> entry h i j \<and> hash (i + 1) (entry h i j) = int j) \<and>
     (\<forall>j < MAXN. \<forall>j' < MAXN. entry h 0 j \<noteq> EMPTY \<longrightarrow> entry h 0 j \<noteq> entry h 1 j')"

lemma hash_bounds: "0 \<le> key \<Longrightarrow> 0 \<le> hash i key \<and> nat (hash i key) < MAXN"
  by (auto simp: hash_def MAXN_def nat_less_iff)

lemma hash_index: "0 \<le> key \<Longrightarrow> int (nat (hash i key)) = hash i key"
  using hash_bounds by simp

lemma wf_lengths:
  assumes "wf h" "i < 2"
  shows "i < length h" "length (h ! i) = MAXN"
  using assms by (auto simp: wf_def)

lemma rd_wf: "0 \<le> key \<Longrightarrow> rd h i (hash f key) = Ok (entry h i (nat (hash f key)))"
  using hash_bounds by (simp add: rd_def entry_def)

lemma wr_wf: "0 \<le> key \<Longrightarrow> wr h i (hash f key) x = Ok (h[i := (h ! i)[nat (hash f key) := x]])"
  using hash_bounds by (simp add: wr_def)

lemma entry_upd:
  assumes "wf h" "t < 2" "j < MAXN"
  shows "entry (h[t := (h ! t)[j := x]]) i j' = (if i = t \<and> j' = j then x else entry h i j')"
  using assms wf_lengths by (simp add: entry_def nth_list_update)

lemma wf_entry:
  assumes "wf h" "i < 2" "j < MAXN" "entry h i j \<noteq> EMPTY"
  shows "0 \<le> entry h i j" "hash (i + 1) (entry h i j) = int j"
  using assms unfolding wf_def by blast+

lemma wf_once:
  assumes "wf h" "i < 2" "i' < 2" "j < MAXN" "j' < MAXN" "entry h i j \<noteq> EMPTY" "entry h i j = entry h i' j'"
  shows "i = i'"
proof -
  have "entry h 0 a \<noteq> entry h 1 b" if "a < MAXN" "b < MAXN" "entry h 0 a \<noteq> EMPTY" for a b
    using assms(1) that unfolding wf_def by blast
  then show ?thesis using assms(2-) by (auto simp: less_2_cases_iff) metis+
qed

lemma contentsI: "i < 2 \<Longrightarrow> j < MAXN \<Longrightarrow> entry h i j \<noteq> EMPTY \<Longrightarrow> entry h i j \<in> contents h"
  unfolding contents_def by blast

text \<open>A key is in the tables exactly if it is at one of its two places.\<close>

lemma contents_iff:
  assumes "wf h" "0 \<le> key"
  shows "key \<in> contents h \<longleftrightarrow> entry h 0 (nat (hash 1 key)) = key \<or> entry h 1 (nat (hash 2 key)) = key"
proof
  assume "key \<in> contents h"
  then obtain i j where ij: "i < 2" "j < MAXN" "entry h i j \<noteq> EMPTY" "key = entry h i j" by (auto simp: contents_def)
  then have *: "hash (i + 1) key = int j" using wf_entry [OF assms(1) ij(1-3)] by simp
  have "i = 0 \<or> i = 1" using ij(1) by auto
  then show "entry h 0 (nat (hash 1 key)) = key \<or> entry h 1 (nat (hash 2 key)) = key"
    using ij * by (elim disjE) (simp_all add: one_add_one del: One_nat_def)
next
  have "key \<noteq> EMPTY" using assms by (simp add: EMPTY_def)
  then show "entry h 0 (nat (hash 1 key)) = key \<or> entry h 1 (nat (hash 2 key)) = key \<Longrightarrow> key \<in> contents h"
    using hash_bounds [OF assms(2)] contentsI [of 0 "nat (hash 1 key)" h] contentsI [of 1 "nat (hash 2 key)" h] by auto
qed

text \<open>Two places with the same key are the same place.\<close>

lemma entry_inj:
  assumes "wf h" "i < 2" "i' < 2" "j < MAXN" "j' < MAXN" "entry h i j \<noteq> EMPTY" "entry h i j = entry h i' j'"
  shows "i = i' \<and> j = j'"
proof -
  have i: "i = i'" using wf_once [OF assms] .
  have "entry h i' j' \<noteq> EMPTY" using assms(6) unfolding assms(7) .
  then have "int j = int j'"
    using wf_entry(2) [OF assms(1,2,4,6), unfolded assms(7)] wf_entry(2) [OF assms(1,3,5)] i by simp
  then show ?thesis using i by simp
qed

text \<open>What one replacement does: the new key comes, the old one goes.\<close>

lemma replace_key:
  assumes "wf h" "t < 2" "0 \<le> key" "key \<notin> contents h"
  defines "j \<equiv> nat (hash (t + 1) key)"
  defines "dis \<equiv> entry h t j"
  defines "h' \<equiv> h[t := (h ! t)[j := key]]"
  shows "wf h'" "contents h' = insert key (contents h - {dis})" "dis \<noteq> EMPTY \<Longrightarrow> dis \<in> contents h \<and> 0 \<le> dis"
proof -
  have j: "j < MAXN" "int j = hash (t + 1) key" using hash_bounds [OF assms(3)] hash_index [OF assms(3)] by (auto simp: j_def)
  have e: "entry h' i j' = (if i = t \<and> j' = j then key else entry h i j')" for i j'
    using entry_upd [OF assms(1,2) j(1)] by (simp add: h'_def)
  have ne: "entry h i j' \<noteq> key" if "i < 2" "j' < MAXN" for i j'
    using assms(3,4) that by (auto simp: contents_def EMPTY_def)
  have len: "length h' = 2" "\<forall>t \<in> set h'. length t = MAXN"
    using assms(1,2) by (auto simp: h'_def wf_def dest!: set_update_subset_insert [THEN subsetD])
  have key: "key \<noteq> EMPTY" using assms(3) by (simp add: EMPTY_def)
  show "wf h'"
    unfolding wf_def
  proof (intro conjI allI impI)
    fix i j' assume "i < 2" "j' < MAXN" "entry h' i j' \<noteq> EMPTY"
    then show "0 \<le> entry h' i j'" "hash (i + 1) (entry h' i j') = int j'"
      using assms(3) j wf_entry [OF assms(1), of i j'] by (auto simp: e)
  next
    fix j' j'' assume "j' < MAXN" "j'' < MAXN" "entry h' 0 j' \<noteq> EMPTY"
    then show "entry h' 0 j' \<noteq> entry h' 1 j''"
      using ne [of 0 j'] ne [of 1 j''] wf_once [OF assms(1), of 0 1 j' j''] by (auto simp: e split: if_splits)
  qed (use len in auto)
  show dis: "dis \<in> contents h \<and> 0 \<le> dis" if "dis \<noteq> EMPTY"
    using that assms(2) j(1) wf_entry [OF assms(1,2) j(1)] by (auto simp: dis_def contents_def)
  show "contents h' = insert key (contents h - {dis})"
  proof (intro set_eqI iffI)
    fix x assume "x \<in> contents h'"
    then obtain i j' where x: "i < 2" "j' < MAXN" "x = entry h' i j'" "x \<noteq> EMPTY" by (auto simp: contents_def)
    show "x \<in> insert key (contents h - {dis})"
    proof (cases "i = t \<and> j' = j")
      case True
      then show ?thesis using x(3) e by simp
    next
      case False
      then have x': "x = entry h i j'" unfolding x(3) e by auto
      then have "x \<noteq> dis" using False x(4) entry_inj [OF assms(1) x(1) assms(2) x(2) j(1)] by (auto simp: dis_def)
      then show ?thesis using x' x(4) contentsI [OF x(1,2)] by auto
    qed
  next
    fix x assume x: "x \<in> insert key (contents h - {dis})"
    show "x \<in> contents h'"
    proof (cases "x = key")
      case True
      have "entry h' t j = key" by (simp add: e)
      then show ?thesis using True assms(2) j(1) key unfolding contents_def by blast
    next
      case False
      then obtain i j' where x: "i < 2" "j' < MAXN" "x = entry h i j'" "x \<noteq> EMPTY" "x \<noteq> dis"
        using x by (auto simp: contents_def)
      then have "entry h' i j' = x" by (auto simp: e dis_def)
      then show ?thesis using x unfolding contents_def by blast
    qed
  qed
qed

section \<open>Placing keys\<close>

lemma place_keeps:
  "wf h \<Longrightarrow> t < 2 \<Longrightarrow> 0 \<le> key \<Longrightarrow> \<exists>h' out. place n key t h = Ok (h', out) \<and> wf h' \<and>
     contents h' \<union> set out = insert key (contents h) \<and> length out \<le> 1"
proof (induction n arbitrary: key t h)
  case (Suc calls)
  note rw = rd_wf [OF Suc.prems(3)] wr_wf [OF Suc.prems(3)]
  show ?case
  proof (cases "key \<in> contents h")
    case True
    then have "insert key (contents h) = contents h" by blast
    moreover have "place (Suc calls) key t h = Ok (h, [])"
      using True contents_iff [OF Suc.prems(1,3)] by (simp add: rw del: obind_eq_Ok) blast
    ultimately show ?thesis using Suc.prems(1) by (simp del: place.simps)
  next
    case False
    define j dis h' where defs: "j = nat (hash (t + 1) key)" "dis = entry h t j" "h' = h[t := (h ! t)[j := key]]"
    note r = replace_key [OF Suc.prems False, folded defs(1), folded defs(2,3)]
    have p: "place (Suc calls) key t h = (if dis \<noteq> EMPTY then place calls dis ((t + 1) mod 2) h' else Ok (h', []))"
      using False contents_iff [OF Suc.prems(1,3)] by (simp add: rw defs del: obind_eq_Ok)
    show ?thesis
    proof (cases "dis = EMPTY")
      case True
      have "dis \<notin> contents h" using True by (auto simp: contents_def)
      then show ?thesis using True p r by (simp del: place.simps)
    next
      case dis: False
      have "insert dis (contents h') = insert key (contents h)" using r dis by auto
      moreover have "\<exists>h'' out. place calls dis ((t + 1) mod 2) h' = Ok (h'', out) \<and> wf h'' \<and>
          contents h'' \<union> set out = insert dis (contents h') \<and> length out \<le> 1"
        using Suc.IH [OF r(1)] r(3) dis by simp
      ultimately show ?thesis using dis p by (simp del: place.simps)
    qed
  qed
qed auto

lemma place_all_keeps:
  "wf h \<Longrightarrow> \<forall>k \<in> set ks. 0 \<le> k \<Longrightarrow> \<exists>h' outs. place_all n ks h = Ok (h', outs) \<and> wf h' \<and>
     contents h' \<union> set outs = set ks \<union> contents h"
proof (induction ks arbitrary: h)
  case (Cons k ks)
  obtain h1 out where 1: "place n k 0 h = Ok (h1, out)" "wf h1" "contents h1 \<union> set out = insert k (contents h)"
    using place_keeps [of h 0 k n] Cons.prems by auto
  obtain h2 outs where 2: "place_all n ks h1 = Ok (h2, outs)" "wf h2" "contents h2 \<union> set outs = set ks \<union> contents h1"
    using Cons.IH [OF 1(2)] Cons.prems by auto
  have "contents h2 \<union> set (out @ outs) = set (k # ks) \<union> contents h" using 1(3) 2(3) by auto
  then show ?case using 1(1) 2(1,2) by simp
qed auto

lemma initTable_wf: "wf initTable" "contents initTable = {}"
proof -
  have "entry initTable i j = EMPTY" if "i < 2" "j < MAXN" for i j
    using that by (simp add: initTable_def entry_def)
  then show "wf initTable" "contents initTable = {}" by (auto simp: wf_def contents_def initTable_def)
qed

text \<open>
  C32: for keys that are not negative, \<open>cuckoo\<close> never leaves the tables: every key is in the tables or reported as not placed, every key
  in the tables is at its place in one of the two tables only, so that it is found at one of its two places, and nothing else is found.
\<close>

theorem cuckoo_keeps_keys:
  assumes "\<forall>k \<in> set keys. 0 \<le> k"
  shows "\<exists>h outs. place_all (length keys) keys initTable = Ok (h, outs) \<and> cuckoo keys = Ok (printTable h, outs) \<and>
    wf h \<and> contents h \<union> set outs = set keys \<and>
    (\<forall>k \<ge> 0. k \<in> contents h \<longleftrightarrow> rd h 0 (hash 1 k) = Ok k \<or> rd h 1 (hash 2 k) = Ok k)"
proof -
  obtain h outs where h: "place_all (length keys) keys initTable = Ok (h, outs)" "wf h" "contents h \<union> set outs = set keys"
    using place_all_keeps [OF initTable_wf(1) assms, of "length keys"] by (auto simp: initTable_wf(2))
  then have "\<forall>k \<ge> 0. k \<in> contents h \<longleftrightarrow> rd h 0 (hash 1 k) = Ok k \<or> rd h 1 (hash 2 k) = Ok k"
    using contents_iff rd_wf by simp
  then show ?thesis using h by (auto simp: cuckoo_def)
qed

definition keys_1 :: "int list" where
  "keys_1 = [20, 50, 53, 75, 100, 67, 105, 3, 36, 39]"

definition keys_2 :: "int list" where
  "keys_2 = [20, 50, 53, 75, 100, 67, 105, 3, 36, 39, 6]"

text \<open>The two arrays of \<open>main\<close>: all keys of the first are placed, and 105 is reported for the second.\<close>

lemma main_keys_1: "cuckoo keys_1 =
  Ok ([[None, Some 100, None, Some 36, None, None, Some 50, None, None, Some 75, None],
    [Some 3, Some 20, None, Some 39, Some 53, None, Some 67, None, None, Some 105, None]], [])"
  by code_simp

lemma main_keys_2: "case cuckoo keys_2 of Ok (h, outs) \<Rightarrow> outs = [105] | _ \<Rightarrow> False"
  by code_simp

text \<open>A negative key may be hashed to a negative index.\<close>

lemma cuckoo_negative: "cuckoo [- 1] = Fault OutOfBounds"
  by code_simp

theorem cuckoo_keeps_keys_witness:
  "\<exists>h outs. place_all (length keys_2) keys_2 initTable = Ok (h, outs) \<and> wf h \<and> contents h \<union> set outs = set keys_2"
proof -
  have "\<forall>k \<in> set keys_2. 0 \<le> k" by code_simp
  from cuckoo_keeps_keys [OF this] show ?thesis by blast
qed

end
