(* ===== verification/Coin_Game.thy ===== *)
theory Coin_Game
  imports Outcome
begin

text \<open>
  The coin game (\<open>Game.cpp\<close>): two players take a coin from one of the two ends of a row in turn. \<open>optimalStrategyOfGame\<close> fills a table
  of four by four subproblems by diagonals. The entries of the table are options: \<open>None\<close> is an entry that was not written. A sum that
  does not fit an \<open>int\<close> is a fault.
\<close>

section \<open>The code\<close>

type_synonym table = "int option list list"

definition no_table :: table where
  "no_table = replicate 4 (replicate 4 None)"

definition get :: "table \<Rightarrow> nat \<Rightarrow> nat \<Rightarrow> int res" where
  "get tb i j =
     (if i < 4 \<and> j < 4 then case tb ! i ! j of None \<Rightarrow> Fault Uninitialised | Some x \<Rightarrow> Ok x else Fault OutOfBounds)"

definition put :: "table \<Rightarrow> nat \<Rightarrow> nat \<Rightarrow> int \<Rightarrow> table res" where
  "put tb i j x = (if i < 4 \<and> j < 4 then Ok (tb[i := (tb ! i)[j := Some x]]) else Fault OutOfBounds)"

definition coin :: "int list \<Rightarrow> nat \<Rightarrow> int res" where
  "coin arr i = (if i < length arr then Ok (arr ! i) else Fault OutOfBounds)"

definition fill :: "int list \<Rightarrow> nat \<Rightarrow> nat \<Rightarrow> table \<Rightarrow> table res" where
  "fill arr i j tb =
     obind (if i + 2 \<le> j then get tb (i + 2) j else Ok 0) (\<lambda>x.
     obind (if int i + 1 \<le> int j - 1 then get tb (i + 1) (j - 1) else Ok 0) (\<lambda>y.
     obind (if int i \<le> int j - 2 then get tb i (j - 2) else Ok 0) (\<lambda>z.
     obind (coin arr i) (\<lambda>a. obind (coin arr j) (\<lambda>b.
     obind (int_add a (min x y)) (\<lambda>p. obind (int_add b (min y z)) (\<lambda>q.
       put tb i j (max p q))))))))"

text \<open>The two loops: \<open>j\<close> runs from \<open>gap\<close> on, and \<open>i\<close> with it.\<close>

definition diagonal :: "int list \<Rightarrow> nat \<Rightarrow> nat \<Rightarrow> table \<Rightarrow> table res" where
  "diagonal arr n gap = seqs (map (\<lambda>i. fill arr i (i + gap)) [0..<n - gap])"

definition optimalStrategyOfGame :: "int list \<Rightarrow> nat \<Rightarrow> int res" where
  "optimalStrategyOfGame arr n =
     obind (seqs (map (diagonal arr n) [0..<n]) no_table) (\<lambda>tb. if n = 0 then Fault OutOfBounds else get tb 0 (n - 1))"

section \<open>The game\<close>

text \<open>
  What the player who moves gets when both players take as much as they can: a coin, and what the other player leaves of the rest.
\<close>

function play :: "int list \<Rightarrow> int" where
  "play [] = 0"
| "play (x # xs) =
     max (x + (sum_list xs - play xs))
         (last (x # xs) + (sum_list (butlast (x # xs)) - play (butlast (x # xs))))"
  by pat_completeness auto
termination
  by (relation "measure length") auto

declare play.simps(2) [simp del]

lemma play_move:
  "xs \<noteq> [] \<Longrightarrow> play xs = max (hd xs + (sum_list (tl xs) - play (tl xs))) (last xs + (sum_list (butlast xs) - play (butlast xs)))"
  by (cases xs) (simp_all only: play.simps list.sel list.distinct simp_thms)

lemma sum_list_butlast: "xs \<noteq> [] \<Longrightarrow> last xs + sum_list (butlast xs) = sum_list (xs :: int list)"
  by (induction xs) auto

text \<open>The other player leaves the smaller of the two continuations.\<close>

lemma leave: "sum_list xs - play xs = min (play (tl xs)) (play (butlast xs))"
proof (cases "xs = []")
  case False
  have "hd xs + sum_list (tl xs) = sum_list xs" using False by (cases xs) auto
  then show ?thesis using play_move [OF False] sum_list_butlast [OF False] by linarith
qed simp

lemma play_min:
  "xs \<noteq> [] \<Longrightarrow> play xs = max (hd xs + min (play (tl (tl xs))) (play (butlast (tl xs))))
     (last xs + min (play (tl (butlast xs))) (play (butlast (butlast xs))))"
  using play_move [of xs] leave [of "tl xs"] leave [of "butlast xs"] by simp

section \<open>The table\<close>

lemma seqs_append: "seqs (as @ bs) s = obind (seqs as s) (seqs bs)"
proof (induction as arbitrary: s)
  case (Cons a as)
  then show ?case by (cases "a s") simp_all
qed simp

abbreviation row :: "int list \<Rightarrow> nat \<Rightarrow> nat \<Rightarrow> int list" where
  "row arr i k \<equiv> take k (drop i arr)"

lemma row_min:
  assumes "i + k < length arr"
  shows "play (row arr i (k + 1)) = max (arr ! i + min (play (row arr (i + 2) (k - 1))) (play (row arr (i + 1) (k - 1))))
     (arr ! (i + k) + min (play (row arr (i + 1) (k - 1))) (play (row arr i (k - 1))))"
proof -
  have r: "row arr i (k + 1) \<noteq> []" "hd (row arr i (k + 1)) = arr ! i" "last (row arr i (k + 1)) = arr ! (i + k)"
    using assms by (auto simp: hd_drop_conv_nth last_conv_nth)
  have tl: "tl (row arr i' k') = row arr (i' + 1) (k' - 1)" for i' k'
    by (simp add: tl_take drop_Suc tl_drop)
  have bl: "butlast (row arr i' k') = row arr i' (k' - 1)" if "i' + k' \<le> length arr" for i' k'
    using that by (simp add: butlast_take)
  show ?thesis
    unfolding play_min [OF r(1)] r(2,3) using assms by (cases k) (simp_all add: tl bl)
qed

text \<open>No value is greater than the sum of the coins, without their signs.\<close>

definition weight :: "int list \<Rightarrow> int" where
  "weight xs = sum_list (map abs xs)"

lemma weight_append [simp]: "weight (xs @ ys) = weight xs + weight ys" "weight [] = 0" "weight (x # xs) = \<bar>x\<bar> + weight xs"
  by (simp_all add: weight_def)

lemma weight_nonneg [simp]: "0 \<le> weight xs"
  by (induction xs) auto

lemma weight_tl: "weight (tl xs) \<le> weight xs"
  by (cases xs) auto

lemma weight_butlast: "weight (butlast xs) \<le> weight xs"
  by (cases xs rule: rev_cases) auto

lemma weight_ends:
  assumes "xs \<noteq> []"
  shows "\<bar>hd xs\<bar> + weight (tl xs) = weight xs" "\<bar>last xs\<bar> + weight (butlast xs) = weight xs"
  subgoal using assms by (cases xs) auto
  subgoal using assms by (cases xs rule: rev_cases) auto
  done

lemma weight_row: "weight (row arr i k) \<le> weight arr"
proof -
  have "arr = take i arr @ row arr i k @ drop k (drop i arr)" by (simp only: append_take_drop_id)
  then have "weight arr = weight (take i arr) + weight (row arr i k) + weight (drop k (drop i arr))" by (metis weight_append(1) add.assoc)
  then show ?thesis using weight_nonneg [of "take i arr"] weight_nonneg [of "drop k (drop i arr)"] by linarith
qed

lemma take_end_bound:
  assumes "\<bar>h\<bar> + w = (W :: int)" "\<bar>x\<bar> \<le> u" "u \<le> w" "\<bar>y\<bar> \<le> v" "v \<le> w"
  shows "\<bar>h + min x y\<bar> \<le> W"
  using assms by (cases "x \<le> y") (simp_all add: min_def)

lemma abs_max_bound: "\<bar>p\<bar> \<le> W \<Longrightarrow> \<bar>q\<bar> \<le> W \<Longrightarrow> \<bar>max p q\<bar> \<le> (W :: int)"
  by (simp add: max_def)

lemma play_weight: "\<bar>play xs\<bar> \<le> weight xs"
proof (induction "length xs" arbitrary: xs rule: less_induct)
  case less
  show ?case
  proof (cases "xs = []")
    case False
    then have l: "length (tl (tl xs)) < length xs" "length (butlast (tl xs)) < length xs" "length (tl (butlast xs)) < length xs"
        "length (butlast (butlast xs)) < length xs" by (simp_all add: diff_less)
    note p = less [OF l(1)] less [OF l(2)] less [OF l(3)] less [OF l(4)]
    show ?thesis unfolding play_min [OF False]
      by (rule abs_max_bound [OF take_end_bound [OF weight_ends(1) [OF False] p(1) weight_tl p(2) weight_butlast]
          take_end_bound [OF weight_ends(2) [OF False] p(3) weight_tl p(4) weight_butlast]])
  qed simp
qed

lemma row_weight:
  assumes "i + k < length arr"
  shows "\<bar>arr ! i + min (play (row arr (i + 2) (k - 1))) (play (row arr (i + 1) (k - 1)))\<bar> \<le> weight arr"
    "\<bar>arr ! (i + k) + min (play (row arr (i + 1) (k - 1))) (play (row arr i (k - 1)))\<bar> \<le> weight arr"
proof -
  let ?xs = "row arr i (k + 1)"
  have r: "?xs \<noteq> []" "hd ?xs = arr ! i" "last ?xs = arr ! (i + k)"
    using assms by (auto simp: hd_drop_conv_nth last_conv_nth)
  have tl: "row arr (i + 1) k = tl ?xs" "row arr (i + 2) (k - 1) = tl (tl ?xs)" "row arr (i + 1) (k - 1) = butlast (tl ?xs)"
    using assms by (cases k; simp add: tl_take tl_drop drop_Suc butlast_take)+
  have bl: "row arr i (k - 1) = butlast (butlast ?xs)" using assms by (cases k) (simp_all add: butlast_take)
  have "row arr (i + 1) (k - 1) = tl (butlast ?xs)" using assms by (cases k) (simp_all add: butlast_take tl_take tl_drop drop_Suc)
  note w = weight_row [where arr = arr and i = i and k = "k + 1"]
  show "\<bar>arr ! i + min (play (row arr (i + 2) (k - 1))) (play (row arr (i + 1) (k - 1)))\<bar> \<le> weight arr"
    unfolding tl(2,3) using take_end_bound [OF weight_ends(1) [OF r(1)] play_weight weight_tl play_weight weight_butlast] w
    unfolding r(2) by linarith
  show "\<bar>arr ! (i + k) + min (play (row arr (i + 1) (k - 1))) (play (row arr i (k - 1)))\<bar> \<le> weight arr"
    unfolding bl \<open>row arr (i + 1) (k - 1) = tl (butlast ?xs)\<close>
    using take_end_bound [OF weight_ends(2) [OF r(1)] play_weight weight_tl play_weight weight_butlast] w
    unfolding r(3) by linarith
qed

lemma int_add_weight: "weight arr < 2 ^ 31 \<Longrightarrow> \<bar>a + b\<bar> \<le> weight arr \<Longrightarrow> int_add a b = Ok (a + b)"
  by (auto simp: int_add_def in_int_def)

text \<open>The entries below diagonal \<open>g\<close>, and the first \<open>m\<close> of diagonal \<open>g\<close>, hold the values of the game.\<close>

definition filled :: "int list \<Rightarrow> nat \<Rightarrow> nat \<Rightarrow> table \<Rightarrow> bool" where
  "filled arr g m tb \<longleftrightarrow> length tb = 4 \<and> (\<forall>r \<in> set tb. length r = 4) \<and>
     (\<forall>i k. i + k < length arr \<longrightarrow> k < g \<or> k = g \<and> i < m \<longrightarrow> tb ! i ! (i + k) = Some (play (row arr i (k + 1))))"

lemma filled_get:
  assumes "filled arr g m tb" "length arr \<le> 4" "i + k < length arr" "k < g"
  shows "get tb i (i + k) = Ok (play (row arr i (k + 1)))"
  using assms by (auto simp: filled_def get_def)

lemma fill_ok:
  assumes f: "filled arr g m tb" and n: "length arr \<le> 4" and m: "m + g < length arr" and wt: "weight arr < 2 ^ 31"
  shows "\<exists>tb'. fill arr m (m + g) tb = Ok tb' \<and> filled arr g (Suc m) tb'"
proof -
  have x: "(if m + 2 \<le> m + g then get tb (m + 2) (m + g) else Ok 0) = Ok (play (row arr (m + 2) (g - 1)))"
    using filled_get [OF f n, of "m + 2" "g - 2"] m by (cases "2 \<le> g") (auto simp: Suc_diff_Suc numeral_2_eq_2)
  have y: "(if int m + 1 \<le> int (m + g) - 1 then get tb (m + 1) (m + g - 1) else Ok 0) = Ok (play (row arr (m + 1) (g - 1)))"
    using filled_get [OF f n, of "m + 1" "g - 2"] m by (cases "2 \<le> g") (auto simp: Suc_diff_Suc numeral_2_eq_2)
  have z: "(if int m \<le> int (m + g) - 2 then get tb m (m + g - 2) else Ok 0) = Ok (play (row arr m (g - 1)))"
    using filled_get [OF f n, of m "g - 2"] m by (cases "2 \<le> g") (auto simp: Suc_diff_Suc numeral_2_eq_2)
  define tb' where "tb' = tb[m := (tb ! m)[m + g := Some (play (row arr m (g + 1)))]]"
  have "fill arr m (m + g) tb = Ok tb'"
    unfolding fill_def x y z using m n int_add_weight [OF wt row_weight(1) [OF m]] int_add_weight [OF wt row_weight(2) [OF m]]
    by (simp add: coin_def put_def tb'_def row_min [OF m, simplified])
  moreover have "filled arr g (Suc m) tb'"
    using f n m unfolding filled_def tb'_def
    by (auto simp: nth_list_update less_Suc_eq dest!: set_update_subset_insert [THEN subsetD])
  ultimately show ?thesis by blast
qed

lemma diagonal_ok:
  assumes f: "filled arr g 0 tb" and n: "length arr \<le> 4" and wt: "weight arr < 2 ^ 31"
  shows "\<exists>tb'. diagonal arr (length arr) g tb = Ok tb' \<and> filled arr (Suc g) 0 tb'"
proof -
  have "\<exists>tb'. seqs (map (\<lambda>i. fill arr i (i + g)) [m..<length arr - g]) tb = Ok tb' \<and> filled arr g (length arr - g) tb'"
    if "m \<le> length arr - g" "filled arr g m tb" for m tb
    using that
  proof (induction m arbitrary: tb rule: inc_induct)
    case (step m)
    then obtain tb1 where "fill arr m (m + g) tb = Ok tb1" "filled arr g (Suc m) tb1" using fill_ok [OF _ n _ wt] by fastforce
    then show ?case using step by (simp add: upt_rec [of m] del: upt_Suc)
  qed simp
  from this [OF _ f] obtain tb' where tb': "diagonal arr (length arr) g tb = Ok tb'" "filled arr g (length arr - g) tb'"
    by (auto simp: diagonal_def)
  then have "filled arr (Suc g) 0 tb'" unfolding filled_def by (auto simp: less_Suc_eq)
  then show ?thesis using tb'(1) by blast
qed

lemma table_ok:
  assumes "length arr \<le> 4" "weight arr < 2 ^ 31"
  shows "g \<le> length arr \<Longrightarrow> \<exists>tb. seqs (map (diagonal arr (length arr)) [0..<g]) no_table = Ok tb \<and> filled arr g 0 tb"
proof (induction g)
  case 0
  then show ?case by (auto simp: filled_def no_table_def)
next
  case (Suc g)
  then show ?case using diagonal_ok [OF _ assms] by (fastforce simp: seqs_append)
qed

text \<open>With a fifth coin the first diagonal leaves the table.\<close>

lemma fill_first:
  assumes "i < length arr" "weight arr < 2 ^ 31"
  shows "fill arr i i tb = put tb i i (arr ! i)"
proof -
  have "\<bar>arr ! i\<bar> \<le> weight arr" using weight_row [where arr = arr and i = i and k = 1] assms(1) by (simp add: take_Suc hd_drop_conv_nth)
  then have "int_add (arr ! i) 0 = Ok (arr ! i)" using int_add_weight [OF assms(2), of "arr ! i" 0] by simp
  then show ?thesis using assms(1) by (simp add: fill_def coin_def del: obind_eq_Ok)
qed

lemma diagonal_overflows:
  assumes "4 < length arr" "weight arr < 2 ^ 31"
  shows "diagonal arr (length arr) 0 tb = Fault OutOfBounds"
proof -
  have "[0..<length arr] = [0, 1, 2, 3, 4] @ [5..<length arr]"
    using assms by (simp add: upt_rec [of _ "length arr"] eval_nat_numeral del: length_greater_0_conv)
  then show ?thesis using assms by (simp add: diagonal_def fill_first put_def del: length_greater_0_conv)
qed

text \<open>
  C34: as long as the coins, without their signs, add up to less than \<open>2 ^ 31\<close>, \<open>optimalStrategyOfGame\<close> returns what the player who moves
  first can get in the game for one to four coins, and no sum overflows. The number of coins need not be even, although the
  comment asks for it. With no coin or more than four coins the function leaves its table.
\<close>

theorem optimalStrategyOfGame_equiv:
  assumes "sum_list (map abs arr) < 2 ^ 31"
  shows "optimalStrategyOfGame arr (length arr) = (if arr = [] \<or> 4 < length arr then Fault OutOfBounds else Ok (play arr))"
proof -
  have wt: "weight arr < 2 ^ 31" using assms by (simp add: weight_def)
  consider "arr = []" | "4 < length arr" | "arr \<noteq> []" "length arr \<le> 4" by linarith
  then show ?thesis
  proof cases
    case 2
    then have "0 < length arr" by linarith
    then have "[0..<length arr] = 0 # [Suc 0..<length arr]" by (rule upt_conv_Cons)
    then show ?thesis using 2 diagonal_overflows [OF 2 wt] by (simp add: optimalStrategyOfGame_def)
  next
    case 3
    then obtain tb where "seqs (map (diagonal arr (length arr)) [0..<length arr]) no_table = Ok tb" "filled arr (length arr) 0 tb"
      using table_ok wt by blast
    then show ?thesis using 3 filled_get [of arr "length arr" 0 tb 0 "length arr - 1"] by (simp add: optimalStrategyOfGame_def)
  qed (simp add: optimalStrategyOfGame_def)
qed

theorem optimalStrategyOfGame_equiv_witness: "optimalStrategyOfGame [8, 15, 3, 7] 4 = Ok (play [8, 15, 3, 7])"
  using optimalStrategyOfGame_equiv [of "[8, 15, 3, 7]"] by (simp add: eval_nat_numeral)

text \<open>Coins that are too large overflow.\<close>

lemma game_overflows: "optimalStrategyOfGame [2 ^ 31 - 1, 1, 1, 2 ^ 31 - 1] 4 = Fault Overflow"
  by code_simp

text \<open>The row of \<open>main\<close>.\<close>

lemma main_game: "optimalStrategyOfGame [8, 15, 3, 7] 4 = Ok 22"
  by code_simp

end
