(* ===== verification/Grid_Path.thy ===== *)
theory Grid_Path
  imports Outcome
begin

text \<open>
  The longest path in a matrix of three by three numbers (\<open>FindLongestPath.cpp\<close>): each step of a path goes to a neighbour that is greater
  by one. The lengths found are kept in a table. The increment of a number is an integer without overflow.
\<close>

section \<open>The code\<close>

definition N :: nat where
  "N = 3"

type_synonym matrix = "int list list"

definition at :: "matrix \<Rightarrow> nat \<Rightarrow> nat \<Rightarrow> int" where
  "at m i j = m ! i ! j"

definition set_at :: "matrix \<Rightarrow> nat \<Rightarrow> nat \<Rightarrow> int \<Rightarrow> matrix" where
  "set_at m i j x = m[i := (m ! i)[j := x]]"

text \<open>The length of the path from a cell and the table after the call; the guards keep the indices within the matrix.\<close>

fun findLongestFromACell :: "nat \<Rightarrow> nat \<Rightarrow> nat \<Rightarrow> matrix \<Rightarrow> matrix \<Rightarrow> (int \<times> matrix) res" where
  "findLongestFromACell 0 i j mat dp = Timeout"
| "findLongestFromACell (Suc fuel) i j mat dp =
     (if at dp i j \<noteq> - 1 then Ok (at dp i j, dp)
      else if j < N - 1 \<and> at mat i j + 1 = at mat i (j + 1) then
        obind (findLongestFromACell fuel i (j + 1) mat dp) (\<lambda>(r, dp). Ok (1 + r, set_at dp i j (1 + r)))
      else if j > 0 \<and> at mat i j + 1 = at mat i (j - 1) then
        obind (findLongestFromACell fuel i (j - 1) mat dp) (\<lambda>(r, dp). Ok (1 + r, set_at dp i j (1 + r)))
      else if i > 0 \<and> at mat i j + 1 = at mat (i - 1) j then
        obind (findLongestFromACell fuel (i - 1) j mat dp) (\<lambda>(r, dp). Ok (1 + r, set_at dp i j (1 + r)))
      else if i < N - 1 \<and> at mat i j + 1 = at mat (i + 1) j then
        obind (findLongestFromACell fuel (i + 1) j mat dp) (\<lambda>(r, dp). Ok (1 + r, set_at dp i j (1 + r)))
      else Ok (1, set_at dp i j 1))"

definition overall_step :: "nat \<Rightarrow> matrix \<Rightarrow> nat \<times> nat \<Rightarrow> int \<times> matrix \<Rightarrow> (int \<times> matrix) res" where
  "overall_step fuel mat = (\<lambda>(i, j) (result, dp).
     obind (if at dp i j = - 1 then obind (findLongestFromACell fuel i j mat dp) (\<lambda>(r, dp). Ok dp) else Ok dp) (\<lambda>dp.
       Ok (max result (at dp i j), dp)))"

definition finLongestOverAll :: "nat \<Rightarrow> matrix \<Rightarrow> int res" where
  "finLongestOverAll fuel mat =
     obind (seqs (map (overall_step fuel mat) (List.product [0..<N] [0..<N])) (1, replicate N (replicate N (- 1))))
       (\<lambda>(result, dp). Ok result)"

section \<open>Paths\<close>

type_synonym cell = "nat \<times> nat"

definition cells :: "cell set" where
  "cells = {..<N} \<times> {..<N}"

definition val :: "matrix \<Rightarrow> cell \<Rightarrow> int" where
  "val mat c = at mat (fst c) (snd c)"

fun adjacent :: "cell \<Rightarrow> cell \<Rightarrow> bool" where
  "adjacent (i, j) d \<longleftrightarrow> d = (i, j + 1) \<or> j > 0 \<and> d = (i, j - 1) \<or> i > 0 \<and> d = (i - 1, j) \<or> d = (i + 1, j)"

definition follows :: "matrix \<Rightarrow> cell \<Rightarrow> cell \<Rightarrow> bool" where
  "follows mat c d \<longleftrightarrow> d \<in> cells \<and> adjacent c d \<and> val mat d = val mat c + 1"

fun path :: "matrix \<Rightarrow> cell list \<Rightarrow> bool" where
  "path mat [] \<longleftrightarrow> False"
| "path mat [c] \<longleftrightarrow> c \<in> cells"
| "path mat (c # d # p) \<longleftrightarrow> c \<in> cells \<and> follows mat c d \<and> path mat (d # p)"

definition square :: "matrix \<Rightarrow> bool" where
  "square m \<longleftrightarrow> length m = N \<and> (\<forall>r \<in> set m. length r = N)"

text \<open>The numbers of the matrix are different.\<close>

definition unique :: "matrix \<Rightarrow> bool" where
  "unique mat \<longleftrightarrow> inj_on (val mat) cells"

lemma finite_cells [simp]: "finite cells"
  by (simp add: cells_def)

lemma follows_unique: "unique mat \<Longrightarrow> follows mat c d \<Longrightarrow> follows mat c d' \<Longrightarrow> d = d'"
  unfolding unique_def follows_def by (metis inj_onD)

text \<open>The call either has its cell in the table, or goes on at the neighbour, or ends.\<close>

lemma follows_iff:
  assumes "(i, j) \<in> cells"
  shows "follows mat (i, j) d \<longleftrightarrow>
    j < N - 1 \<and> at mat i j + 1 = at mat i (j + 1) \<and> d = (i, j + 1) \<or>
    j > 0 \<and> at mat i j + 1 = at mat i (j - 1) \<and> d = (i, j - 1) \<or>
    i > 0 \<and> at mat i j + 1 = at mat (i - 1) j \<and> d = (i - 1, j) \<or>
    i < N - 1 \<and> at mat i j + 1 = at mat (i + 1) j \<and> d = (i + 1, j)"
proof -
  have "i < N" "j < N" using assms by (auto simp: cells_def)
  then have c: "(i, j + 1) \<in> cells \<longleftrightarrow> j < N - 1" "j > 0 \<Longrightarrow> (i, j - 1) \<in> cells" "i > 0 \<Longrightarrow> (i - 1, j) \<in> cells"
    "(i + 1, j) \<in> cells \<longleftrightarrow> i < N - 1" by (auto simp: cells_def)
  have v: "val mat (a, b) = val mat (i, j) + 1 \<longleftrightarrow> at mat i j + 1 = at mat a b" for a b by (auto simp: val_def)
  show ?thesis unfolding follows_def adjacent.simps using c v by metis
qed

lemma findLongest_cases:
  assumes "(i, j) \<in> cells" "at dp i j = - 1"
  shows "(\<exists>d. follows mat (i, j) d \<and> findLongestFromACell (Suc fuel) i j mat dp =
      obind (findLongestFromACell fuel (fst d) (snd d) mat dp) (\<lambda>(r, dp). Ok (1 + r, set_at dp i j (1 + r)))) \<or>
    (\<forall>d. \<not> follows mat (i, j) d) \<and> findLongestFromACell (Suc fuel) i j mat dp = Ok (1, set_at dp i j 1)"
proof -
  consider (A) "j < N - 1" "at mat i j + 1 = at mat i (j + 1)"
    | (B) "\<not> (j < N - 1 \<and> at mat i j + 1 = at mat i (j + 1))" "j > 0" "at mat i j + 1 = at mat i (j - 1)"
    | (C) "\<not> (j < N - 1 \<and> at mat i j + 1 = at mat i (j + 1))" "\<not> (j > 0 \<and> at mat i j + 1 = at mat i (j - 1))"
        "i > 0" "at mat i j + 1 = at mat (i - 1) j"
    | (D) "\<not> (j < N - 1 \<and> at mat i j + 1 = at mat i (j + 1))" "\<not> (j > 0 \<and> at mat i j + 1 = at mat i (j - 1))"
        "\<not> (i > 0 \<and> at mat i j + 1 = at mat (i - 1) j)" "i < N - 1" "at mat i j + 1 = at mat (i + 1) j"
    | (E) "\<not> (j < N - 1 \<and> at mat i j + 1 = at mat i (j + 1))" "\<not> (j > 0 \<and> at mat i j + 1 = at mat i (j - 1))"
        "\<not> (i > 0 \<and> at mat i j + 1 = at mat (i - 1) j)" "\<not> (i < N - 1 \<and> at mat i j + 1 = at mat (i + 1) j)"
    by satx
  then show ?thesis
  proof cases
    case A
    then show ?thesis unfolding follows_iff [OF assms(1)] by (intro disjI1 exI [of _ "(i, j + 1)"]) (simp add: assms(2))
  next
    case B
    then show ?thesis unfolding follows_iff [OF assms(1)] by (intro disjI1 exI [of _ "(i, j - 1)"]) (auto simp: assms(2))
  next
    case C
    then show ?thesis unfolding follows_iff [OF assms(1)] by (intro disjI1 exI [of _ "(i - 1, j)"]) (auto simp: assms(2))
  next
    case D
    then show ?thesis unfolding follows_iff [OF assms(1)] by (intro disjI1 exI [of _ "(i + 1, j)"]) (auto simp: assms(2))
  next
    case E
    then have "\<forall>d. \<not> follows mat (i, j) d" unfolding follows_iff [OF assms(1)] by blast
    moreover have "findLongestFromACell (Suc fuel) i j mat dp = Ok (1, set_at dp i j 1)"
      using E assms(2) by (simp only: findLongestFromACell.simps if_False if_True not_True_eq_False simp_thms)
    ultimately show ?thesis by blast
  qed
qed

lemma at_set_at: "square m \<Longrightarrow> (i, j) \<in> cells \<Longrightarrow> (i', j') \<in> cells \<Longrightarrow> at (set_at m i j x) i' j' = (if i' = i \<and> j' = j then x else at m i' j')"
  by (auto simp: square_def at_def set_at_def cells_def nth_list_update)

lemma square_set_at:
  assumes "square m" "i < N"
  shows "square (set_at m i j x)"
proof -
  have "length (m ! i) = N" using assms by (simp add: square_def)
  then show ?thesis using assms by (auto simp: square_def set_at_def dest!: set_update_subset_insert [THEN subsetD])
qed

text \<open>The number of cells above a cell bounds the paths from it.\<close>

definition above :: "matrix \<Rightarrow> cell \<Rightarrow> nat" where
  "above mat c = card {d \<in> cells. val mat c < val mat d}"

lemma above_follows:
  assumes "follows mat c d"
  shows "above mat d < above mat c"
  unfolding above_def
proof (rule psubset_card_mono)
  have "d \<in> {e \<in> cells. val mat c < val mat e} - {e \<in> cells. val mat d < val mat e}" using assms by (simp add: follows_def)
  moreover have "{e \<in> cells. val mat d < val mat e} \<subseteq> {e \<in> cells. val mat c < val mat e}"
    using assms by (auto simp: follows_def)
  ultimately show "{e \<in> cells. val mat d < val mat e} \<subset> {e \<in> cells. val mat c < val mat e}" by blast
qed simp

lemma above_bound: "c \<in> cells \<Longrightarrow> above mat c < N * N"
proof -
  assume "c \<in> cells"
  then have "{d \<in> cells. val mat c < val mat d} \<subset> cells" by auto
  then have "card {d \<in> cells. val mat c < val mat d} < card cells" by (rule psubset_card_mono [OF finite_cells])
  then show ?thesis by (simp add: above_def cells_def)
qed

text \<open>\<open>k\<close> is the length of the longest path from a cell.\<close>

definition longest :: "matrix \<Rightarrow> cell \<Rightarrow> nat \<Rightarrow> bool" where
  "longest mat c k \<longleftrightarrow> (\<exists>p. path mat p \<and> hd p = c \<and> length p = k) \<and> (\<forall>p. path mat p \<longrightarrow> hd p = c \<longrightarrow> length p \<le> k)"

lemma longest_end: "c \<in> cells \<Longrightarrow> \<forall>d. \<not> follows mat c d \<Longrightarrow> longest mat c 1"
  unfolding longest_def
proof (intro conjI allI impI exI [of _ "[c]"])
  fix p assume "\<forall>d. \<not> follows mat c d" "path mat p" "hd p = c"
  then show "length p \<le> 1" by (cases "(mat, p)" rule: path.cases) auto
qed auto

lemma longest_step:
  assumes "unique mat" "c \<in> cells" "follows mat c d" "longest mat d k"
  shows "longest mat c (Suc k)"
proof -
  obtain p where p: "path mat p" "hd p = d" "length p = k" using assms(4) by (auto simp: longest_def)
  then have "path mat (c # p)" using assms(2,3) by (cases p) auto
  moreover have "length q \<le> Suc k" if q: "path mat q" "hd q = c" for q
  proof (cases "(mat, q)" rule: path.cases)
    case (3 mat' c' d' q')
    then have "d' = d" using q follows_unique [OF assms(1) _ assms(3)] by auto
    then have "path mat (d # q')" using 3 q by auto
    then have "length (d # q') \<le> k" using assms(4) unfolding longest_def by (metis list.sel(1))
    then show ?thesis using 3 by simp
  qed (use q in auto)
  ultimately show ?thesis using p(3) unfolding longest_def by (metis length_Cons list.sel(1))
qed

lemma longest_fun: "longest mat c k \<Longrightarrow> longest mat c k' \<Longrightarrow> k = k'"
  unfolding longest_def by (metis le_antisym)

text \<open>The table holds lengths of longest paths only.\<close>

definition table_ok :: "matrix \<Rightarrow> matrix \<Rightarrow> bool" where
  "table_ok mat dp \<longleftrightarrow> square dp \<and> (\<forall>c \<in> cells. val dp c = - 1 \<or> (\<exists>k. val dp c = int k \<and> longest mat c k))"

lemma table_ok_set: "table_ok mat dp \<Longrightarrow> (i, j) \<in> cells \<Longrightarrow> longest mat (i, j) k \<Longrightarrow> table_ok mat (set_at dp i j (int k))"
  by (auto simp: table_ok_def square_set_at val_def at_set_at cells_def)

lemma findLongest_ok:
  "unique mat \<Longrightarrow> table_ok mat dp \<Longrightarrow> (i, j) \<in> cells \<Longrightarrow> above mat (i, j) < fuel \<Longrightarrow>
   \<exists>k dp'. findLongestFromACell fuel i j mat dp = Ok (int k, dp') \<and> longest mat (i, j) k \<and> table_ok mat dp' \<and> at dp' i j = int k"
proof (induction fuel arbitrary: i j dp)
  case (Suc fuel)
  show ?case
  proof (cases "at dp i j = - 1")
    case False
    then obtain k where "at dp i j = int k" "longest mat (i, j) k" using Suc.prems(2,3) by (auto simp: table_ok_def val_def)
    then show ?thesis using Suc.prems(2) False by auto
  next
    case True
    consider (step) d where "follows mat (i, j) d" "findLongestFromACell (Suc fuel) i j mat dp =
        obind (findLongestFromACell fuel (fst d) (snd d) mat dp) (\<lambda>(r, dp). Ok (1 + r, set_at dp i j (1 + r)))"
      | (stop) "\<forall>d. \<not> follows mat (i, j) d" "findLongestFromACell (Suc fuel) i j mat dp = Ok (1, set_at dp i j 1)"
      using findLongest_cases [OF Suc.prems(3) True, of mat fuel] by blast
    then show ?thesis
    proof cases
      case (step d)
      have d: "(fst d, snd d) \<in> cells" "above mat (fst d, snd d) < fuel"
        using step(1) above_follows [OF step(1)] Suc.prems(4) by (auto simp: follows_def)
      from Suc.IH [OF Suc.prems(1,2) d] obtain k dp' where
        k: "findLongestFromACell fuel (fst d) (snd d) mat dp = Ok (int k, dp')" "longest mat d k" "table_ok mat dp'" by auto
      have l: "longest mat (i, j) (Suc k)" using longest_step [OF Suc.prems(1,3) step(1) k(2)] .
      have "square dp'" using k(3) by (simp add: table_ok_def)
      then have "at (set_at dp' i j (int (Suc k))) i j = int (Suc k)" using Suc.prems(3) by (simp add: at_set_at)
      moreover have "table_ok mat (set_at dp' i j (int (Suc k)))" using table_ok_set [OF k(3) Suc.prems(3) l] .
      moreover have "findLongestFromACell (Suc fuel) i j mat dp = Ok (int (Suc k), set_at dp' i j (int (Suc k)))"
        unfolding step(2) k(1) by (simp add: add.commute)
      ultimately show ?thesis using l by blast
    next
      case stop
      have l: "longest mat (i, j) 1" using longest_end [OF Suc.prems(3) stop(1)] .
      have "square dp" using Suc.prems(2) by (simp add: table_ok_def)
      then have "at (set_at dp i j (int 1)) i j = int 1" using Suc.prems(3) by (simp add: at_set_at)
      then show ?thesis using stop(2) l table_ok_set [OF Suc.prems(2,3) l] by (metis of_nat_1)
    qed
  qed
qed simp

lemma overall_step_ok:
  assumes "unique mat" "table_ok mat dp" "c \<in> cells" "N * N \<le> fuel"
  shows "\<exists>k dp'. overall_step fuel mat c (r, dp) = Ok (max r (int k), dp') \<and> longest mat c k \<and> table_ok mat dp'"
proof -
  obtain i j where c: "c = (i, j)" by fastforce
  show ?thesis
  proof (cases "at dp i j = - 1")
    case True
    have "above mat (i, j) < fuel" using above_bound assms(3,4) c by (meson less_le_trans)
    then obtain k dp' where "findLongestFromACell fuel i j mat dp = Ok (int k, dp')" "longest mat c k" "table_ok mat dp'" "at dp' i j = int k"
      using findLongest_ok [OF assms(1,2)] assms(3) c by blast
    then show ?thesis using True c by (auto simp: overall_step_def)
  next
    case False
    then obtain k where "at dp i j = int k" "longest mat c k" using assms(2,3) c by (auto simp: table_ok_def val_def)
    then show ?thesis using False assms(2) c by (auto simp: overall_step_def)
  qed
qed

lemma overall_ok:
  assumes "unique mat" "N * N \<le> fuel"
  shows "table_ok mat dp \<Longrightarrow> set cs \<subseteq> cells \<Longrightarrow> \<exists>r' dp'. seqs (map (overall_step fuel mat) cs) (r, dp) = Ok (r', dp') \<and> r \<le> r' \<and>
    (\<forall>c \<in> set cs. \<exists>k. longest mat c k \<and> int k \<le> r') \<and> (r' = r \<or> (\<exists>c \<in> set cs. \<exists>k. longest mat c k \<and> r' = int k))"
proof (induction cs arbitrary: r dp)
  case (Cons c cs)
  have cs: "set cs \<subseteq> cells" "c \<in> cells" using Cons.prems(2) by auto
  obtain k dp1 where 1: "overall_step fuel mat c (r, dp) = Ok (max r (int k), dp1)" "longest mat c k" "table_ok mat dp1"
    using overall_step_ok [OF assms(1) Cons.prems(1) cs(2) assms(2)] by blast
  obtain r' dp' where 2: "seqs (map (overall_step fuel mat) cs) (max r (int k), dp1) = Ok (r', dp')" "max r (int k) \<le> r'"
      "\<forall>c \<in> set cs. \<exists>k. longest mat c k \<and> int k \<le> r'" "r' = max r (int k) \<or> (\<exists>c \<in> set cs. \<exists>k. longest mat c k \<and> r' = int k)"
    using Cons.IH [OF 1(3) cs(1), of "max r (int k)"] by blast
  have "seqs (map (overall_step fuel mat) (c # cs)) (r, dp) = Ok (r', dp')" using 1(1) 2(1) by simp
  moreover have "\<exists>k. longest mat c k \<and> int k \<le> r'" using 1(2) 2(2) by (intro exI [of _ k]) auto
  moreover have "r' = r \<or> (\<exists>c \<in> set (c # cs). \<exists>k. longest mat c k \<and> r' = int k)"
    using 1(2) 2(4) by (auto simp: max_def split: if_splits)
  ultimately show ?case using 2(2,3) by (intro exI [of _ r'] exI [of _ dp']) simp
qed auto

lemma path_start: "path mat p \<Longrightarrow> hd p \<in> cells"
  by (cases "(mat, p)" rule: path.cases) auto

text \<open>
  C33: for a matrix of different numbers \<open>finLongestOverAll\<close> returns the length of the longest path of neighbours whose numbers
  increase by one; nine nested calls are enough.
\<close>

theorem finLongestOverAll_longest:
  assumes "square mat" "unique mat" "9 \<le> fuel"
  shows "\<exists>r. finLongestOverAll fuel mat = Ok (int r) \<and> (\<exists>p. path mat p \<and> length p = r) \<and> (\<forall>p. path mat p \<longrightarrow> length p \<le> r)"
proof -
  let ?dp = "replicate N (replicate N (- 1)) :: matrix" and ?cs = "List.product [0..<N] [0..<N]"
  have dp: "table_ok mat ?dp" by (auto simp: table_ok_def square_def val_def at_def cells_def)
  have cs: "set ?cs = cells" by (auto simp: cells_def)
  have fuel: "N * N \<le> fuel" using assms(3) by (simp add: N_def)
  obtain r' dp' where r: "seqs (map (overall_step fuel mat) ?cs) (1, ?dp) = Ok (r', dp')" "1 \<le> r'"
      "\<forall>c \<in> cells. \<exists>k. longest mat c k \<and> int k \<le> r'" "r' = 1 \<or> (\<exists>c \<in> cells. \<exists>k. longest mat c k \<and> r' = int k)"
    using overall_ok [OF assms(2) fuel dp, of ?cs 1] unfolding cs by blast
  have "\<exists>p. path mat p \<and> int (length p) = r'"
  proof (cases "r' = 1")
    case True
    have "path mat [(0, 0)]" by (simp add: cells_def N_def)
    then show ?thesis using True by (intro exI [of _ "[(0, 0)]"]) simp
  next
    case False
    then show ?thesis using r(4) unfolding longest_def by metis
  qed
  moreover have "int (length p) \<le> r'" if p: "path mat p" for p
  proof -
    obtain k where "longest mat (hd p) k" "int k \<le> r'" using r(3) path_start [OF p] by blast
    moreover from this(1) have "length p \<le> k" using p by (simp add: longest_def)
    ultimately show ?thesis by linarith
  qed
  moreover have "finLongestOverAll fuel mat = Ok r'" using r(1) by (simp add: finLongestOverAll_def)
  ultimately show ?thesis by (intro exI [of _ "nat r'"]) (use r(2) in \<open>auto simp: nat_eq_iff\<close>)
qed

text \<open>The matrix of \<open>main\<close>.\<close>

definition main_mat :: matrix where
  "main_mat = [[1, 2, 9], [5, 3, 8], [4, 6, 7]]"

lemma main_longest: "finLongestOverAll 9 main_mat = Ok 4"
  by code_simp

text \<open>When a number occurs twice, the first direction that fits is taken and a longer path may be missed.\<close>

lemma twice_misses: "finLongestOverAll 9 [[1, 2, 7], [2, 9, 9], [3, 9, 9]] = Ok 2 \<and> path [[1, 2, 7], [2, 9, 9], [3, 9, 9]] [(0, 0), (1, 0), (2, 0)]"
  by code_simp

theorem finLongestOverAll_longest_witness:
  "\<exists>r. finLongestOverAll 9 main_mat = Ok (int r) \<and> (\<exists>p. path main_mat p \<and> length p = r) \<and> (\<forall>p. path main_mat p \<longrightarrow> length p \<le> r)"
proof (rule finLongestOverAll_longest)
  show "square main_mat" by code_simp
  show "unique main_mat" by code_simp
qed simp

end
