(* ===== verification/Alternate.thy ===== *)
theory Alternate
  imports Outcome "HOL-Library.Sublist"
begin

text \<open>
  All increasing arrays of alternate elements of two arrays (\<open>GeneratePairsFromArray.cpp\<close>). The output array has six places, of which
  \<open>None\<close> are the ones that were not written; what is printed is collected in a list of arrays.
\<close>

section \<open>The code\<close>

type_synonym st = "int option list \<times> int list list"

definition elem :: "int list \<Rightarrow> nat \<Rightarrow> int res" where
  "elem a k = (if k < length a then Ok (a ! k) else Fault OutOfBounds)"

definition rd_out :: "int option list \<Rightarrow> nat \<Rightarrow> int res" where
  "rd_out c k = (if k < length c then case c ! k of None \<Rightarrow> Fault Uninitialised | Some x \<Rightarrow> Ok x else Fault OutOfBounds)"

definition wr_out :: "int option list \<Rightarrow> nat \<Rightarrow> int \<Rightarrow> int option list res" where
  "wr_out c k x = (if k < length c then Ok (c[k := Some x]) else Fault OutOfBounds)"

fun print_from :: "int option list \<Rightarrow> nat list \<Rightarrow> int list res" where
  "print_from c [] = Ok []"
| "print_from c (k # ks) = obind (rd_out c k) (\<lambda>x. obind (print_from c ks) (\<lambda>xs. Ok (x # xs)))"

definition printArr :: "nat \<Rightarrow> st \<Rightarrow> st res" where
  "printArr n s = obind (print_from (fst s) [0..<n]) (\<lambda>xs. Ok (fst s, snd s @ [xs]))"

fun generateUtil :: "nat \<Rightarrow> int list \<Rightarrow> int list \<Rightarrow> nat \<Rightarrow> nat \<Rightarrow> nat \<Rightarrow> nat \<Rightarrow> nat \<Rightarrow> bool \<Rightarrow> st \<Rightarrow> st res" where
  "generateUtil 0 A B i j m n len flag s = Timeout"
| "generateUtil (Suc fuel) A B i j m n len flag s =
     (if flag then
        obind (if len \<noteq> 0 then printArr (len + 1) s else Ok s)
          (seqs (map (\<lambda>k s.
             if len = 0 then
               obind (elem A k) (\<lambda>a. obind (wr_out (fst s) len a) (\<lambda>c.
                 generateUtil fuel A B (k + 1) j m n len (\<not> flag) (c, snd s)))
             else
               obind (elem A k) (\<lambda>a. obind (rd_out (fst s) len) (\<lambda>x.
                 if a > x then obind (wr_out (fst s) (len + 1) a) (\<lambda>c.
                   generateUtil fuel A B (k + 1) j m n (len + 1) (\<not> flag) (c, snd s))
                 else Ok s))) [i..<m]))
      else
        seqs (map (\<lambda>l s.
          obind (elem B l) (\<lambda>b. obind (rd_out (fst s) len) (\<lambda>x.
            if b > x then obind (wr_out (fst s) (len + 1) b) (\<lambda>c.
              generateUtil fuel A B i (l + 1) m n (len + 1) (\<not> flag) (c, snd s))
            else Ok s))) [j..<n]) s)"

definition generate :: "nat \<Rightarrow> int list \<Rightarrow> int list \<Rightarrow> nat \<Rightarrow> nat \<Rightarrow> int list list res" where
  "generate fuel A B m n = obind (generateUtil fuel A B 0 0 m n 0 True (replicate 6 None, [])) (\<lambda>s. Ok (snd s))"

section \<open>The arrays to print\<close>

function alternate :: "int list \<Rightarrow> int list \<Rightarrow> int list" where
  "alternate (a # as) bs = a # alternate bs as"
| "alternate [] bs = bs"
  by pat_completeness auto
termination
  by (relation "measure (\<lambda>(as, bs). length as + length bs)") auto

text \<open>
  The increasing continuations after \<open>x\<close> with the next element from \<open>xs\<close>: alternate elements of subsequences of \<open>xs\<close> and \<open>ys\<close>, the last one
  from the second array of the program, which is \<open>ys\<close> if the flag is set and \<open>xs\<close> otherwise.
\<close>

definition conts :: "bool \<Rightarrow> int list \<Rightarrow> int list \<Rightarrow> int \<Rightarrow> int list set" where
  "conts flag xs ys x = {alternate as bs |as bs. subseq as xs \<and> subseq bs ys \<and>
     length as = length bs + (if flag then 0 else 1) \<and> sorted_wrt (<) (x # alternate as bs)}"

lemma subseq_Cons_drop: "subseq (a # as) (drop i A) \<longleftrightarrow> (\<exists>k. i \<le> k \<and> k < length A \<and> A ! k = a \<and> subseq as (drop (Suc k) A))"
proof
  assume "subseq (a # as) (drop i A)"
  then obtain us vs where *: "drop i A = us @ a # vs" "subseq as vs" by (auto dest: list_emb_ConsD)
  then have "length us < length (drop i A)" by simp
  moreover have "A ! (i + length us) = a"
    using arg_cong [OF *(1), of "\<lambda>l. l ! length us"] calculation by (simp add: nth_append)
  moreover have "vs = drop (Suc (i + length us)) A" using arg_cong [OF *(1), of "drop (Suc (length us))"] by (simp add: add.commute)
  ultimately show "\<exists>k. i \<le> k \<and> k < length A \<and> A ! k = a \<and> subseq as (drop (Suc k) A)"
    using *(2) by (intro exI [of _ "i + length us"]) auto
next
  assume "\<exists>k. i \<le> k \<and> k < length A \<and> A ! k = a \<and> subseq as (drop (Suc k) A)"
  then obtain k where k: "i \<le> k" "k < length A" "A ! k = a" "subseq as (drop (Suc k) A)" by blast
  then have "subseq (a # as) (drop k A)" by (simp add: Cons_nth_drop_Suc [symmetric])
  moreover have "subseq (drop k A) (drop i A)"
    using k(1) suffix_drop [of "k - i" "drop i A"] by (simp add: suffix_imp_subseq)
  ultimately show "subseq (a # as) (drop i A)" by (rule subseq_order.trans)
qed

lemma sorted_Cons2: "sorted_wrt (<) (x # a # zs) \<longleftrightarrow> x < a \<and> sorted_wrt (<) (a # zs)" for x :: int
  by auto

lemma conts_step:
  "conts flag (drop i xs) ys x = (if flag then {[]} else {}) \<union>
     (\<Union>k \<in> {i..<length xs}. if x < xs ! k then (#) (xs ! k) ` conts (\<not> flag) ys (drop (Suc k) xs) (xs ! k) else {})"
  (is "?L = ?R")
proof (intro set_eqI iffI)
  fix zs assume "zs \<in> ?L"
  then obtain as bs where z: "zs = alternate as bs" "subseq as (drop i xs)" "subseq bs ys" "length as = length bs + (if flag then 0 else 1)"
    "sorted_wrt (<) (x # alternate as bs)" by (auto simp: conts_def)
  show "zs \<in> ?R"
  proof (cases as)
    case Nil
    then have "flag" "zs = []" using z(1,4) by (cases flag; cases bs; simp)+
    then show ?thesis by (intro UnI1) simp
  next
    case (Cons a as')
    then obtain k where k: "i \<le> k" "k < length xs" "xs ! k = a" "subseq as' (drop (Suc k) xs)"
      using z(2) subseq_Cons_drop [of a as' i xs] by auto
    have "x < a" "sorted_wrt (<) (a # alternate bs as')" using z(5) unfolding Cons alternate.simps sorted_Cons2 by auto
    then have "alternate bs as' \<in> conts (\<not> flag) ys (drop (Suc k) xs) a"
      using z(3,4) k(4) Cons unfolding conts_def by (intro CollectI exI [of _ bs] exI [of _ as']) (auto split: if_splits)
    then show ?thesis using k(1-3) \<open>x < a\<close> z(1) Cons by (intro UnI2 UN_I [of k]) auto
  qed
next
  fix zs assume "zs \<in> ?R"
  then consider "flag" "zs = []" | k where "i \<le> k" "k < length xs" "x < xs ! k" "zs \<in> (#) (xs ! k) ` conts (\<not> flag) ys (drop (Suc k) xs) (xs ! k)"
    by (auto split: if_splits)
  then show "zs \<in> ?L"
  proof cases
    case 1
    then show ?thesis unfolding conts_def by (intro CollectI exI [of _ "[]"]) simp
  next
    case (2 k)
    then obtain as bs where z: "zs = xs ! k # alternate as bs" "subseq as ys" "subseq bs (drop (Suc k) xs)"
      "length as = length bs + (if flag then 1 else 0)" "sorted_wrt (<) (xs ! k # alternate as bs)"
      by (auto simp: conts_def)
    have "subseq (xs ! k # bs) (drop i xs)" using subseq_Cons_drop [of "xs ! k" bs i xs] 2(1,2) z(3) by auto
    moreover have "zs = alternate (xs ! k # bs) as" using z(1) by simp
    moreover have "sorted_wrt (<) (x # alternate (xs ! k # bs) as)"
      using z(5) 2(3) unfolding alternate.simps sorted_Cons2 by blast
    ultimately show ?thesis using z(2,4) unfolding conts_def by (intro CollectI exI [of _ "xs ! k # bs"] exI [of _ as]) (auto split: if_splits)
  qed
qed

section \<open>The search\<close>

text \<open>A step leaves the first \<open>q\<close> elements of the output array and prints the arrays of a set.\<close>

definition prints :: "nat \<Rightarrow> int list set \<Rightarrow> st \<Rightarrow> st res \<Rightarrow> bool" where
  "prints q S s r \<longleftrightarrow> (\<exists>c outs. r = Ok (c, snd s @ outs) \<and> length c = length (fst s) \<and> take q c = take q (fst s) \<and> set outs = S)"

lemma prints_none: "prints q {} s (Ok s)"
  by (cases s) (simp add: prints_def)

lemma prints_seqs:
  assumes "\<And>k s. k \<in> set ks \<Longrightarrow> length (fst s) = 6 \<Longrightarrow> take q (fst s) = p \<Longrightarrow> prints q (S k) s (f k s)"
  shows "length (fst s) = 6 \<Longrightarrow> take q (fst s) = p \<Longrightarrow> prints q (\<Union>k \<in> set ks. S k) s (seqs (map f ks) s)"
  using assms
proof (induction ks arbitrary: s)
  case (Cons k ks)
  obtain c outs where c: "f k s = Ok (c, snd s @ outs)" "length c = length (fst s)" "take q c = take q (fst s)" "set outs = S k"
    using Cons.prems(3) [of k s] Cons.prems(1,2) by (auto simp: prints_def)
  have "prints q (\<Union>k \<in> set ks. S k) (c, snd s @ outs) (seqs (map f ks) (c, snd s @ outs))"
    using Cons.IH [of "(c, snd s @ outs)"] Cons.prems c by simp
  then show ?case using c unfolding prints_def by fastforce
qed (simp add: prints_none)

lemma prints_obind:
  assumes "prints q S s r" "\<And>s'. length (fst s') = length (fst s) \<Longrightarrow> take q (fst s') = take q (fst s) \<Longrightarrow> prints q S' s' (f s')"
  shows "prints q (S \<union> S') s (obind r f)"
proof -
  obtain c outs where c: "r = Ok (c, snd s @ outs)" "length c = length (fst s)" "take q c = take q (fst s)" "set outs = S"
    using assms(1) by (auto simp: prints_def)
  have "prints q S' (c, snd s @ outs) (f (c, snd s @ outs))" using assms(2) [of "(c, snd s @ outs)"] c by simp
  then show ?thesis using c by (fastforce simp: prints_def)
qed

text \<open>The output array holds \<open>p\<close> up to \<open>len\<close>.\<close>

definition holds :: "int list \<Rightarrow> nat \<Rightarrow> int option list \<Rightarrow> bool" where
  "holds p len c \<longleftrightarrow> length c = 6 \<and> length p = Suc len \<and> take (Suc len) c = map Some p"

lemma holds_nth: "holds p len c \<Longrightarrow> k \<le> len \<Longrightarrow> c ! k = Some (p ! k) \<and> k < length c"
proof -
  assume h: "holds p len c" "k \<le> len"
  then have "take (Suc len) c ! k = map Some p ! k" "Suc len \<le> length c"
    unfolding holds_def by (auto dest: arg_cong [of _ _ length])
  then show ?thesis using h by (simp add: holds_def)
qed

lemma holds_rd: "holds p len c \<Longrightarrow> rd_out c len = Ok (last p)"
  using holds_nth [of p len c len] by (auto simp: rd_out_def holds_def last_conv_nth simp flip: length_0_conv)

lemma holds_print:
  assumes "holds p len (fst s)"
  shows "prints (Suc len) {p} s (printArr (Suc len) s)"
proof -
  have "n \<le> Suc len \<Longrightarrow> print_from (fst s) [k..<n] = Ok (map ((!) p) [k..<n])" for k n
  proof (induction "n - k" arbitrary: k)
    case (Suc d)
    then have "k < n" "k \<le> len" by auto
    then show ?case using Suc holds_nth [OF assms, of k] by (simp add: upt_conv_Cons rd_out_def)
  qed simp
  from this [of "Suc len" 0] have "print_from (fst s) [0..<Suc len] = Ok p"
    using assms by (simp add: holds_def map_nth del: upt_Suc) (metis map_nth)
  then show ?thesis by (simp add: printArr_def prints_def del: upt_Suc)
qed

lemma holds_wr:
  assumes "holds p len c" "len < 5"
  shows "\<exists>c'. wr_out c (Suc len) a = Ok c' \<and> holds (p @ [a]) (Suc len) c' \<and> take (Suc len) c' = take (Suc len) c"
  using assms by (auto simp: wr_out_def holds_def take_Suc_conv_app_nth)

text \<open>One more element: the rest of the search prints the continuations behind it.\<close>

lemma prints_next:
  assumes "holds p len (fst s)" "len < 5"
    and "\<And>c. holds (p @ [a]) (Suc len) c \<Longrightarrow> prints (Suc (Suc len)) ((@) (p @ [a]) ` Z) (c, snd s) (f c)"
  shows "prints (Suc len) ((@) p ` (#) a ` Z) s (obind (wr_out (fst s) (Suc len) a) f)"
proof -
  obtain c where c: "wr_out (fst s) (Suc len) a = Ok c" "holds (p @ [a]) (Suc len) c" "take (Suc len) c = take (Suc len) (fst s)"
    using holds_wr [OF assms(1,2)] by blast
  obtain c' outs where c': "f c = Ok (c', snd s @ outs)" "length c' = length c" "take (Suc (Suc len)) c' = take (Suc (Suc len)) c"
      "set outs = (@) (p @ [a]) ` Z"
    using assms(3) [OF c(2)] by (auto simp: prints_def)
  have "take (Suc len) c' = take (Suc len) c" using arg_cong [OF c'(3), of "take (Suc len)"] by simp
  then show ?thesis using c c' assms(1) by (auto simp: prints_def holds_def image_image)
qed

lemma loop_prints:
  assumes p: "holds p len (fst s)" and len: "i < length X \<Longrightarrow> len < 5"
    and g: "\<And>k c out. i \<le> k \<Longrightarrow> k < length X \<Longrightarrow> holds (p @ [X ! k]) (Suc len) c \<Longrightarrow>
      prints (Suc (Suc len)) ((@) (p @ [X ! k]) ` conts flag Y (drop (Suc k) X) (X ! k)) (c, out) (g k (c, out))"
  shows "prints (Suc len) (\<Union>k \<in> set [i..<length X]. (@) p ` (if last p < X ! k then (#) (X ! k) ` conts flag Y (drop (Suc k) X) (X ! k) else {})) s
    (seqs (map (\<lambda>k s. obind (elem X k) (\<lambda>a. obind (rd_out (fst s) len) (\<lambda>x.
       if a > x then obind (wr_out (fst s) (len + 1) a) (\<lambda>c. g k (c, snd s)) else Ok s))) [i..<length X]) s)"
proof (rule prints_seqs)
  fix k and s' :: st
  assume k: "k \<in> set [i..<length X]" and s': "length (fst s') = 6" "take (Suc len) (fst s') = take (Suc len) (fst s)"
  have h: "holds p len (fst s')" using p s' by (simp add: holds_def)
  have "prints (Suc len) ((@) p ` (#) (X ! k) ` conts flag Y (drop (Suc k) X) (X ! k)) s' (obind (wr_out (fst s') (Suc len) (X ! k)) (\<lambda>c. g k (c, snd s')))"
    using prints_next [OF h] len g k by simp
  then show "prints (Suc len) ((@) p ` (if last p < X ! k then (#) (X ! k) ` conts flag Y (drop (Suc k) X) (X ! k) else {})) s'
      (obind (elem X k) (\<lambda>a. obind (rd_out (fst s') len) (\<lambda>x.
       if a > x then obind (wr_out (fst s') (len + 1) a) (\<lambda>c. g k (c, snd s')) else Ok s')))"
    using k by (simp add: elem_def holds_rd [OF h] prints_none)
qed (use p in \<open>simp_all add: holds_def\<close>)

lemma generateUtil_prints:
  "length A - i + (length B - j) < fuel \<Longrightarrow> len + 1 + (length A - i) + (length B - j) \<le> 6 \<Longrightarrow> holds p len (fst s) \<Longrightarrow>
   len \<noteq> 0 \<or> \<not> flag \<Longrightarrow>
   prints (Suc len) ((@) p ` (if flag then conts True (drop i A) (drop j B) (last p) else conts False (drop j B) (drop i A) (last p))) s
     (generateUtil fuel A B i j (length A) (length B) len flag s)"
proof (induction fuel arbitrary: i j len flag p s)
  case (Suc fuel)
  show ?case
  proof (cases flag)
    case True
    let ?f = "\<lambda>k s. obind (elem A k) (\<lambda>a. obind (rd_out (fst s) len) (\<lambda>x. if a > x then obind (wr_out (fst s) (len + 1) a) (\<lambda>c.
      generateUtil fuel A B (k + 1) j (length A) (length B) (len + 1) False (c, snd s)) else Ok s))"
    let ?S = "\<Union>k \<in> set [i..<length A]. (@) p ` (if last p < A ! k then (#) (A ! k) ` conts False (drop j B) (drop (Suc k) A) (A ! k) else {})"
    have loop: "prints (Suc len) ?S s' (seqs (map ?f [i..<length A]) s')" if s': "holds p len (fst s')" for s'
    proof (rule loop_prints [OF s'])
      fix k c out assume "i \<le> k" "k < length A" "holds (p @ [A ! k]) (Suc len) c"
      then show "prints (Suc (Suc len)) ((@) (p @ [A ! k]) ` conts False (drop j B) (drop (Suc k) A) (A ! k)) (c, out)
          (generateUtil fuel A B (k + 1) j (length A) (length B) (len + 1) False (c, out))"
        using Suc.IH [of "Suc k" j "Suc len" "p @ [A ! k]" "(c, out)" False] Suc.prems(1,2) by simp
    qed (use Suc.prems(2) in simp)
    have "prints (Suc len) ({p} \<union> ?S) s (obind (printArr (Suc len) s) (seqs (map ?f [i..<length A])))"
      by (rule prints_obind [OF holds_print [OF Suc.prems(3)] loop]) (use Suc.prems(3) in \<open>simp add: holds_def\<close>)
    moreover have "(@) p ` conts True (drop i A) (drop j B) (last p) = {p} \<union> ?S"
      unfolding conts_step [of True] by (simp only: if_True not_True_eq_False image_Un image_UN image_insert image_empty append_Nil2 set_upt)
    moreover have "generateUtil (Suc fuel) A B i j (length A) (length B) len flag s = obind (printArr (Suc len) s) (seqs (map ?f [i..<length A]))"
      using True Suc.prems(4) by (simp cong: if_cong)
    ultimately show ?thesis using True by simp
  next
    case False
    let ?f = "\<lambda>l s. obind (elem B l) (\<lambda>b. obind (rd_out (fst s) len) (\<lambda>x. if b > x then obind (wr_out (fst s) (len + 1) b) (\<lambda>c.
      generateUtil fuel A B i (l + 1) (length A) (length B) (len + 1) True (c, snd s)) else Ok s))"
    let ?S = "\<Union>k \<in> set [j..<length B]. (@) p ` (if last p < B ! k then (#) (B ! k) ` conts True (drop i A) (drop (Suc k) B) (B ! k) else {})"
    have "prints (Suc len) ?S s (seqs (map ?f [j..<length B]) s)"
    proof (rule loop_prints [OF Suc.prems(3)])
      fix k c out assume "j \<le> k" "k < length B" "holds (p @ [B ! k]) (Suc len) c"
      then show "prints (Suc (Suc len)) ((@) (p @ [B ! k]) ` conts True (drop i A) (drop (Suc k) B) (B ! k)) (c, out)
          (generateUtil fuel A B i (k + 1) (length A) (length B) (len + 1) True (c, out))"
        using Suc.IH [of i "Suc k" "Suc len" "p @ [B ! k]" "(c, out)" True] Suc.prems(1,2) by simp
    qed (use Suc.prems(2) in simp)
    moreover have "(@) p ` conts False (drop j B) (drop i A) (last p) = ?S"
      unfolding conts_step [of False] by (simp only: if_False not_False_eq_True image_UN Un_empty_left set_upt)
    moreover have "generateUtil (Suc fuel) A B i j (length A) (length B) len flag s = seqs (map ?f [j..<length B]) s"
      using False by (simp cong: if_cong)
    ultimately show ?thesis using False by simp
  qed
qed simp

definition alternations :: "int list \<Rightarrow> int list \<Rightarrow> int list set" where
  "alternations A B = {alternate as bs |as bs. subseq as A \<and> subseq bs B \<and> length as = length bs \<and> as \<noteq> [] \<and>
     sorted_wrt (<) (alternate as bs)}"

lemma subseq_set: "subseq xs ys \<Longrightarrow> set xs \<subseteq> set ys"
  by (auto elim: subseq_order.trans simp: subseq_singleton_left [symmetric] dest: subseq_order.trans)

lemma alternations_step:
  "alternations A B = (\<Union>k \<in> {0..<length A}. (#) (A ! k) ` conts False B (drop (Suc k) A) (A ! k))"
proof -
  define x where "x = Min (insert 0 (set A)) - 1"
  have x: "x < a" if "a \<in> set A" for a
  proof -
    have "Min (insert 0 (set A)) \<le> a" using that by simp
    then show ?thesis by (simp add: x_def)
  qed
  have "alternations A B = conts True A B x - {[]}"
  proof (intro set_eqI iffI)
    fix zs assume "zs \<in> alternations A B"
    then obtain as bs where z: "zs = alternate as bs" "subseq as A" "subseq bs B" "length as = length bs" "as \<noteq> []"
      "sorted_wrt (<) (alternate as bs)" by (auto simp: alternations_def)
    then obtain a as' where as: "as = a # as'" by (cases as) auto
    then have "x < a" using x subseq_set [OF z(2)] by simp
    then have "sorted_wrt (<) (x # alternate as bs)" using z(6) unfolding as alternate.simps sorted_Cons2 by simp
    then have "zs \<in> conts True A B x" using z(1-4) unfolding conts_def by (intro CollectI exI [of _ as] exI [of _ bs]) simp
    then show "zs \<in> conts True A B x - {[]}" using z(1) as by simp
  next
    fix zs assume "zs \<in> conts True A B x - {[]}"
    then obtain as bs where z: "zs = alternate as bs" "subseq as A" "subseq bs B" "length as = length bs" "zs \<noteq> []"
      "sorted_wrt (<) (x # alternate as bs)" by (auto simp: conts_def)
    then have "as \<noteq> []" by (cases as) auto
    then show "zs \<in> alternations A B" using z unfolding alternations_def by auto
  qed
  moreover have "conts True A B x = {[]} \<union> (\<Union>k \<in> {0..<length A}. (#) (A ! k) ` conts False B (drop (Suc k) A) (A ! k))"
    using conts_step [of True 0 A B x] x by simp
  ultimately show ?thesis by auto
qed

text \<open>
  For two arrays with at most six elements together \<open>generate\<close> prints exactly the increasing arrays of alternate elements of a
  subsequence of the first array and one of the same length of the second, and its recursion ends; nothing is read before it is written.
\<close>

theorem generate_prints:
  assumes "length A + length B \<le> 6" "length A + length B + 1 < fuel"
  shows "\<exists>outs. generate fuel A B (length A) (length B) = Ok outs \<and> set outs = alternations A B"
proof -
  obtain f where fuel: "fuel = Suc f" "length A + length B < f" using assms(2) by (cases fuel) auto
  let ?f = "\<lambda>k s. obind (elem A k) (\<lambda>a. obind (wr_out (fst s) 0 a) (\<lambda>c.
    generateUtil f A B (k + 1) 0 (length A) (length B) 0 False (c, snd s)))"
  let ?s = "(replicate 6 None, []) :: st"
  have "prints 0 (\<Union>k \<in> set [0..<length A]. (#) (A ! k) ` conts False B (drop (Suc k) A) (A ! k)) ?s (seqs (map ?f [0..<length A]) ?s)"
  proof (rule prints_seqs [where p = "[]"])
    fix k and s :: st assume k: "k \<in> set [0..<length A]" and s: "length (fst s) = 6"
    let ?c = "(fst s)[0 := Some (A ! k)]"
    have "holds [A ! k] 0 ?c" using s by (cases "fst s") (auto simp: holds_def)
    then have "prints (Suc 0) ((@) [A ! k] ` conts False B (drop (Suc k) A) (A ! k)) (?c, snd s)
        (generateUtil f A B (Suc k) 0 (length A) (length B) 0 False (?c, snd s))"
      using generateUtil_prints [of A "Suc k" B 0 f 0 "[A ! k]" "(?c, snd s)" False] k fuel(2) assms(1) by simp
    then show "prints 0 ((#) (A ! k) ` conts False B (drop (Suc k) A) (A ! k)) s (?f k s)"
      using s k by (auto simp: prints_def elem_def wr_out_def simp del: generateUtil.simps)
  qed simp_all
  then show ?thesis unfolding alternations_step by (auto simp: generate_def fuel(1) prints_def)
qed

text \<open>The arrays of \<open>main\<close>, and a longer array for which the output array is too short.\<close>

lemma main_generate: "generate 8 [10, 15, 25] [5, 20, 30] 3 3 =
  Ok [[10, 20], [10, 20, 25, 30], [10, 30], [15, 20], [15, 20, 25, 30], [15, 30], [25, 30]]"
  by code_simp

lemma generate_overflows: "generate 9 [1, 3, 5, 7] [2, 4, 6] 4 3 = Fault OutOfBounds"
  by code_simp

theorem generate_prints_witness:
  "\<exists>outs. generate 8 [10, 15, 25] [5, 20, 30] 3 3 = Ok outs \<and> set outs = alternations [10, 15, 25] [5, 20, 30]"
  using generate_prints [of "[10, 15, 25]" "[5, 20, 30]" 8] by (simp add: eval_nat_numeral)

end
