(* ===== verification/Bin_Trees.thy ===== *)
theory Bin_Trees
  imports Outcome "HOL-Library.Tree"
begin

text \<open>
  The exercises on binary trees of \<open>src/computation\<close> that only follow the pointers of a tree down: no function compares or keeps
  addresses, so a tree is a value of type \<open>tree\<close> of the library, with \<open>Leaf\<close> for the null pointer. What a function prints is
  part of its result.
\<close>

section \<open>Paths to the leaves\<close>

text \<open>The values on the way from the root to each node without children, from left to right.\<close>

fun leaf_paths :: "'a tree \<Rightarrow> 'a list list" where
  "leaf_paths Leaf = []"
| "leaf_paths (Node l x r) = (if l = Leaf \<and> r = Leaf then [[x]] else map ((#) x) (leaf_paths l @ leaf_paths r))"

lemma leaf_paths_Nil [simp]: "leaf_paths t = [] \<longleftrightarrow> t = Leaf"
  by (induction t) auto

lemma leaf_paths_ne: "[] \<notin> set (leaf_paths t)"
  by (induction t) auto

section \<open>Full trees\<close>

fun isFullTree :: "'a tree \<Rightarrow> bool" where
  "isFullTree Leaf = True"
| "isFullTree (Node l x r) =
     (if l = Leaf \<and> r = Leaf then True else if l \<noteq> Leaf \<and> r \<noteq> Leaf then isFullTree l \<and> isFullTree r else False)"

text \<open>Every node has no child or two.\<close>

definition no_or_two :: "'a tree \<Rightarrow> bool" where
  "no_or_two t \<longleftrightarrow> (\<forall>l x r. Node l x r \<in> subtrees t \<longrightarrow> (l = Leaf) = (r = Leaf))"

lemma no_or_two_simps [simp]:
  "no_or_two Leaf" "no_or_two (Node l x r) \<longleftrightarrow> (l = Leaf) = (r = Leaf) \<and> no_or_two l \<and> no_or_two r"
  unfolding no_or_two_def by (simp, simp only: subtrees.simps insert_iff Un_iff tree.inject) blast

lemma isFullTree_iff: "isFullTree t \<longleftrightarrow> no_or_two t"
  by (induction t) auto

section \<open>The least depth of a leaf\<close>

fun minDepth :: "'a tree \<Rightarrow> int" where
  "minDepth Leaf = 0"
| "minDepth (Node l x r) =
     (if l = Leaf \<and> r = Leaf then 1
      else if l = Leaf then minDepth r + 1
      else if r = Leaf then minDepth l + 1
      else min (minDepth l) (minDepth r) + 1)"

abbreviation leaf_depths :: "'a tree \<Rightarrow> int set" where
  "leaf_depths t \<equiv> (\<lambda>p. int (length p)) ` set (leaf_paths t)"

lemma leaf_depths_Node: "\<not> (l = Leaf \<and> r = Leaf) \<Longrightarrow> leaf_depths (Node l x r) = (\<lambda>d. d + 1) ` (leaf_depths l \<union> leaf_depths r)"
  by (auto simp: image_Un image_image)

lemma minDepth_least: "t \<noteq> Leaf \<Longrightarrow> minDepth t \<in> leaf_depths t \<and> (\<forall>d \<in> leaf_depths t. minDepth t \<le> d)"
proof (induction t)
  case (Node l x r)
  show ?case
  proof (cases "l = Leaf \<and> r = Leaf")
    case False
    then show ?thesis unfolding leaf_depths_Node [OF False] using Node.IH by (fastforce simp: min_def)
  qed auto
qed simp

section \<open>The greatest sum of a path\<close>

text \<open>\<open>INT_MIN\<close>, from which the search starts. The sums themselves are integers without overflow.\<close>

definition INT_MIN :: int where
  "INT_MIN = - (2 ^ 31)"

fun findMaxUtil :: "int tree \<Rightarrow> int \<Rightarrow> int \<times> int" where
  "findMaxUtil Leaf res = (0, res)"
| "findMaxUtil (Node lt x rt) res =
     (case findMaxUtil lt res of (l, res) \<Rightarrow>
      case findMaxUtil rt res of (r, res) \<Rightarrow>
        let max_single = max (max l r + x) x;
            max_top = max max_single (l + r + x)
        in (max_single, max res max_top))"

definition findMaxSum :: "int tree \<Rightarrow> int" where
  "findMaxSum t = snd (findMaxUtil t INT_MIN)"

text \<open>The sums of the paths that go down from the root, and of all paths.\<close>

fun down_sums :: "int tree \<Rightarrow> int set" where
  "down_sums Leaf = {}"
| "down_sums (Node l x r) = (\<lambda>a. a + x) ` (insert 0 (down_sums l \<union> down_sums r))"

fun path_sums :: "int tree \<Rightarrow> int set" where
  "path_sums Leaf = {}"
| "path_sums (Node l x r) = path_sums l \<union> path_sums r \<union> {a + b + x |a b. a \<in> insert 0 (down_sums l) \<and> b \<in> insert 0 (down_sums r)}"

lemma down_sums_finite [simp]: "finite (down_sums t)"
  by (induction t) auto

lemma path_sums_finite [simp]: "finite (path_sums t)"
proof (induction t)
  case (Node l x r)
  have "finite {a + b + x |a b. a \<in> A \<and> b \<in> B}" if "finite A" "finite B" for A B :: "int set"
    using that finite_image_set2 [of "\<lambda>a. a \<in> A" "\<lambda>b. b \<in> B" "\<lambda>a b. a + b + x"] by simp
  from this [of "insert 0 (down_sums l)" "insert 0 (down_sums r)"] show ?case using Node by simp
qed simp

definition greatest :: "int set \<Rightarrow> int \<Rightarrow> bool" where
  "greatest A m \<longleftrightarrow> m \<in> A \<and> (\<forall>a \<in> A. a \<le> m)"

lemma greatest_Max: "greatest A m \<Longrightarrow> finite A \<Longrightarrow> Max A = m"
  by (auto simp: greatest_def intro: Max_eqI)

lemma greatest_Un: "greatest A m \<Longrightarrow> greatest B n \<Longrightarrow> greatest (A \<union> B) (max m n)"
  by (auto simp: greatest_def max_def)

lemma greatest_plus: "greatest A m \<Longrightarrow> greatest B n \<Longrightarrow> greatest {a + b + x |a b. a \<in> A \<and> b \<in> B} (m + n + x)"
  by (force simp: greatest_def)

lemma greatest_shift: "greatest A m \<Longrightarrow> greatest ((\<lambda>a. a + x) ` A) (m + x)"
  by (auto simp: greatest_def)

lemma greatest_singleton [simp]: "greatest {x} y \<longleftrightarrow> y = x"
  by (auto simp: greatest_def)

lemma greatest_chain:
  assumes "greatest (insert a A) b" and "greatest (insert b B) c"
  shows "greatest (insert a (A \<union> B)) c"
proof -
  have le: "a \<le> b" "b \<le> c" "\<forall>x \<in> A. x \<le> b" "\<forall>x \<in> B. x \<le> c" using assms by (simp_all add: greatest_def)
  have "c \<in> insert a (A \<union> B)" using assms by (simp add: greatest_def) blast
  then show ?thesis using le unfolding greatest_def by fastforce
qed

lemma max_single: "max (max l r + x) x = max (max 0 l) (max 0 r) + (x :: int)"
  by (simp add: max_def)

lemma max_top: "max (max (max 0 l) (max 0 r) + x) (l + r + x) = max 0 l + max 0 r + (x :: int)"
  by (simp add: max_def)

lemma findMaxUtil_greatest:
  "findMaxUtil t res = (m, res') \<Longrightarrow> greatest (insert 0 (down_sums t)) (max 0 m) \<and> (t \<noteq> Leaf \<longrightarrow> greatest (down_sums t) m) \<and> (t = Leaf \<longrightarrow> m = 0) \<and>
     greatest (insert res (path_sums t)) res'"
proof (induction t arbitrary: res m res')
  case (Node lt x rt)
  obtain l res1 where l: "findMaxUtil lt res = (l, res1)" by fastforce
  obtain r res2 where r: "findMaxUtil rt res1 = (r, res2)" by fastforce
  have L: "greatest (insert 0 (down_sums lt)) (max 0 l)" "greatest (insert res (path_sums lt)) res1" using Node.IH(1) [OF l] by blast+
  have R: "greatest (insert 0 (down_sums rt)) (max 0 r)" "greatest (insert res1 (path_sums rt)) res2" using Node.IH(2) [OF r] by blast+
  have m: "m = max (max 0 l) (max 0 r) + x" "res' = max res2 (max 0 l + max 0 r + x)"
  proof -
    have "m = max (max l r + x) x \<and> res' = max res2 (max (max (max l r + x) x) (l + r + x))"
      using Node.prems unfolding findMaxUtil.simps l r prod.case Let_def prod.inject by (rule conjE) (intro conjI; erule sym)
    then show "m = max (max 0 l) (max 0 r) + x" "res' = max res2 (max 0 l + max 0 r + x)" unfolding max_single max_top by blast+
  qed
  have "greatest (insert 0 (down_sums lt) \<union> insert 0 (down_sums rt)) (max (max 0 l) (max 0 r))" by (rule greatest_Un [OF L(1) R(1)])
  from greatest_shift [OF this, of x] have single: "greatest (down_sums (Node lt x rt)) m" unfolding m(1) by simp
  have tops: "greatest {a + b + x |a b. a \<in> insert 0 (down_sums lt) \<and> b \<in> insert 0 (down_sums rt)} (max 0 l + max 0 r + x)"
    by (rule greatest_plus [OF L(1) R(1)])
  have below: "greatest (insert res (path_sums lt \<union> path_sums rt)) res2" by (rule greatest_chain [OF L(2) R(2)])
  have "greatest (insert res (path_sums (Node lt x rt))) res'" using greatest_Un [OF below tops] unfolding m(2) by simp
  moreover have "greatest (insert 0 (down_sums (Node lt x rt))) (max 0 m)"
    using greatest_Un [of "{0}" 0, OF _ single] by (simp add: insert_commute)
  ultimately show ?case using single by simp
qed auto

text \<open>
  In a tree that is not empty, \<open>findMaxSum\<close> is the greatest sum of the values on a path between two nodes, as long as
  the value of some node is not below \<open>INT_MIN\<close>; for the empty tree it is \<open>INT_MIN\<close>.
\<close>

theorem findMaxSum_greatest:
  "findMaxSum t = (if \<exists>s \<in> path_sums t. INT_MIN \<le> s then Max (path_sums t) else INT_MIN)"
proof -
  obtain m res where f: "findMaxUtil t INT_MIN = (m, res)" by fastforce
  have g: "greatest (insert INT_MIN (path_sums t)) res" using findMaxUtil_greatest [OF f] by simp
  show ?thesis
  proof (cases "\<exists>s \<in> path_sums t. INT_MIN \<le> s")
    case True
    then have "greatest (path_sums t) res" using g by (auto simp: greatest_def intro: antisym)
    then show ?thesis using True f greatest_Max path_sums_finite by (simp add: findMaxSum_def)
  next
    case False
    then show ?thesis using g f by (auto simp: findMaxSum_def greatest_def)
  qed
qed

section \<open>The lowest common ancestor\<close>

text \<open>The node returned is given by the subtree it is the root of.\<close>

fun lca :: "int tree \<Rightarrow> int \<Rightarrow> int \<Rightarrow> int tree" where
  "lca Leaf n1 n2 = Leaf"
| "lca (Node l x r) n1 n2 =
     (if x > n1 \<and> x > n2 then lca l n1 n2
      else if x < n1 \<and> x < n2 then lca r n1 n2
      else Node l x r)"

lemma subtrees_set: "s \<in> subtrees t \<Longrightarrow> set_tree s \<subseteq> set_tree t"
  by (induction t) auto

lemma subtrees_self [simp]: "t \<in> subtrees t"
  by (cases t) auto

text \<open>
  In a search tree that holds both values, \<open>lca\<close> returns a subtree with both of them, and it lies in every subtree that holds
  both: it is the lowest common ancestor.
\<close>

theorem lca_lowest:
  assumes "bst t" and "n1 \<in> set_tree t" and "n2 \<in> set_tree t"
  shows "lca t n1 n2 \<in> subtrees t \<and> n1 \<in> set_tree (lca t n1 n2) \<and> n2 \<in> set_tree (lca t n1 n2) \<and>
    (\<forall>s \<in> subtrees t. n1 \<in> set_tree s \<and> n2 \<in> set_tree s \<longrightarrow> lca t n1 n2 \<in> subtrees s)"
  using assms
proof (induction t)
  case (Node l x r)
  consider (left) "x > n1" "x > n2" | (right) "x < n1" "x < n2" | (here) "\<not> (x > n1 \<and> x > n2)" "\<not> (x < n1 \<and> x < n2)" by blast
  then show ?case
  proof cases
    case left
    then have in_l: "n1 \<in> set_tree l" "n2 \<in> set_tree l" using Node.prems by auto
    have "\<forall>y \<in> set_tree r. x < y" using Node.prems by auto
    then have "n1 \<notin> set_tree r" using left by force
    then have "s \<in> subtrees r \<Longrightarrow> n1 \<notin> set_tree s" for s using subtrees_set by blast
    then show ?thesis using left in_l Node by auto
  next
    case right
    then have in_r: "n1 \<in> set_tree r" "n2 \<in> set_tree r" using Node.prems by auto
    have "\<forall>y \<in> set_tree l. y < x" using Node.prems by auto
    then have "n1 \<notin> set_tree l" using right by force
    then have "s \<in> subtrees l \<Longrightarrow> n1 \<notin> set_tree s" for s using subtrees_set by blast
    then show ?thesis using right in_r Node by auto
  next
    case here
    have "\<forall>y \<in> set_tree l. y < x" "\<forall>y \<in> set_tree r. x < y" using Node.prems by auto
    then have "\<not> (n1 \<in> set_tree l \<and> n2 \<in> set_tree l)" "\<not> (n1 \<in> set_tree r \<and> n2 \<in> set_tree r)" using here by blast+
    then have "s \<in> subtrees l \<union> subtrees r \<Longrightarrow> \<not> (n1 \<in> set_tree s \<and> n2 \<in> set_tree s)" for s using subtrees_set by blast
    then show ?thesis using here Node.prems by auto
  qed
qed simp

text \<open>The tree of \<open>main\<close>, and the ancestors it prints.\<close>

definition main_lca :: "int tree" where
  "main_lca = Node (Node (Node Leaf 4 Leaf) 8 (Node (Node Leaf 10 Leaf) 12 (Node Leaf 14 Leaf))) 20 (Node Leaf 22 Leaf)"

theorem lca_lowest_witness:
  "lca main_lca 10 14 \<in> subtrees main_lca \<and> 10 \<in> set_tree (lca main_lca 10 14) \<and> 14 \<in> set_tree (lca main_lca 10 14) \<and>
    (\<forall>s \<in> subtrees main_lca. 10 \<in> set_tree s \<and> 14 \<in> set_tree s \<longrightarrow> lca main_lca 10 14 \<in> subtrees s)"
proof -
  have "bst main_lca" "10 \<in> set_tree main_lca" "14 \<in> set_tree main_lca" by (simp_all add: main_lca_def)
  from lca_lowest [OF this] show ?thesis .
qed

lemma main_lca_prints: "map (\<lambda>(a, b). value (lca main_lca a b)) [(10, 14), (14, 8), (10, 22)] = [12, 8, 20]"
  by (simp add: main_lca_def)

section \<open>Removal of short paths\<close>

text \<open>The tree left, and the values of the nodes deleted, in this order.\<close>

fun removeShortPathNodesUtil :: "'a tree \<Rightarrow> int \<Rightarrow> int \<Rightarrow> 'a tree \<times> 'a list" where
  "removeShortPathNodesUtil Leaf level k = (Leaf, [])"
| "removeShortPathNodesUtil (Node l x r) level k =
     (case removeShortPathNodesUtil l (level + 1) k of (l, dl) \<Rightarrow>
      case removeShortPathNodesUtil r (level + 1) k of (r, dr) \<Rightarrow>
        if l = Leaf \<and> r = Leaf \<and> level < k then (Leaf, dl @ dr @ [x]) else (Node l x r, dl @ dr))"

definition removeShortPathNodes :: "'a tree \<Rightarrow> int \<Rightarrow> 'a tree \<times> 'a list" where
  "removeShortPathNodes root k = removeShortPathNodesUtil root 1 k"

lemma removeUtil_keeps_long: "k \<le> level \<Longrightarrow> removeShortPathNodesUtil t level k = (t, [])"
  by (induction t arbitrary: level) auto

lemma removeUtil_paths:
  "leaf_paths (fst (removeShortPathNodesUtil t level k)) = filter (\<lambda>p. k \<le> level - 1 + int (length p)) (leaf_paths t)"
proof (induction t arbitrary: level)
  case (Node l x r)
  show ?case
  proof (cases "k \<le> level")
    case True
    have "p \<noteq> []" if "p \<in> set (leaf_paths (Node l x r))" for p using that leaf_paths_ne [of "Node l x r"] by metis
    then have "1 \<le> int (length p)" if "p \<in> set (leaf_paths (Node l x r))" for p using that by (simp add: Suc_le_eq)
    then have "filter (\<lambda>p. k \<le> level - 1 + int (length p)) (leaf_paths (Node l x r)) = leaf_paths (Node l x r)"
      using True by (intro filter_True) force
    then show ?thesis using removeUtil_keeps_long [OF True, of "Node l x r"] by (simp only: fst_conv)
  next
    case False
    obtain l' dl r' dr where lr: "removeShortPathNodesUtil l (level + 1) k = (l', dl)" "removeShortPathNodesUtil r (level + 1) k = (r', dr)"
      by (meson surj_pair)
    have "leaf_paths l' = filter (\<lambda>p. k \<le> level + int (length p)) (leaf_paths l)"
      "leaf_paths r' = filter (\<lambda>p. k \<le> level + int (length p)) (leaf_paths r)"
      using Node.IH(1) [of "level + 1"] Node.IH(2) [of "level + 1"] lr by simp_all
    then show ?thesis using False lr by (auto simp: filter_map o_def)
  qed
qed simp

lemma removeUtil_nodes:
  "mset (inorder (fst (removeShortPathNodesUtil t level k))) + mset (snd (removeShortPathNodesUtil t level k)) = mset (inorder t)"
proof (induction t arbitrary: level)
  case (Node l x r)
  obtain l' dl r' dr where lr: "removeShortPathNodesUtil l (level + 1) k = (l', dl)" "removeShortPathNodesUtil r (level + 1) k = (r', dr)"
    by (meson surj_pair)
  have "mset (inorder l') + mset dl = mset (inorder l)" "mset (inorder r') + mset dr = mset (inorder r)"
    using Node.IH(1) [of "level + 1"] Node.IH(2) [of "level + 1"] lr by simp_all
  from this [symmetric] show ?case using lr by (auto simp: ac_simps)
qed simp

text \<open>
  \<open>removeShortPathNodes\<close> keeps exactly the paths to leaves that have at least \<open>k\<close> nodes, in their order, and every node of the
  tree is either kept or deleted once.
\<close>

theorem removeShortPathNodes_filters:
  "leaf_paths (fst (removeShortPathNodes t k)) = filter (\<lambda>p. k \<le> int (length p)) (leaf_paths t) \<and>
   mset (inorder (fst (removeShortPathNodes t k))) + mset (snd (removeShortPathNodes t k)) = mset (inorder t)"
  using removeUtil_paths [of t 1 k] removeUtil_nodes [of t 1 k] by (simp add: removeShortPathNodes_def)

fun print_inorder :: "'a tree \<Rightarrow> 'a list" where
  "print_inorder Leaf = []"
| "print_inorder (Node l x r) = print_inorder l @ [x] @ print_inorder r"

lemma print_inorder_eq [simp]: "print_inorder t = inorder t"
  by (induction t) auto

text \<open>The tree of \<open>main\<close>, and what it prints before and after the removal.\<close>

definition main_short :: "int tree" where
  "main_short = Node (Node (Node (Node Leaf 7 Leaf) 4 Leaf) 2 (Node Leaf 5 Leaf)) 1 (Node Leaf 3 (Node (Node Leaf 8 Leaf) 6 Leaf))"

lemma main_short_prints: "print_inorder main_short = [7, 4, 2, 5, 1, 3, 8, 6]" "print_inorder (fst (removeShortPathNodes main_short 5)) = []"
  by (simp_all add: main_short_def removeShortPathNodes_def)

section \<open>The sum of the left leaves\<close>

text \<open>What is printed, and the global variable \<open>sum\<close>.\<close>

fun printInorder :: "int tree \<Rightarrow> int \<Rightarrow> int list \<times> int" where
  "printInorder Leaf s = ([], s)"
| "printInorder (Node l x r) s =
     (case printInorder l s of (xs, s) \<Rightarrow>
      case printInorder r (case l of Node Leaf y Leaf \<Rightarrow> s + y | _ \<Rightarrow> s) of (ys, s) \<Rightarrow>
        (xs @ [x] @ ys, s))"

fun printPreorder :: "int tree \<Rightarrow> int list" where
  "printPreorder Leaf = []"
| "printPreorder (Node l x r) = x # printPreorder l @ printPreorder r"

fun printPostorder :: "int tree \<Rightarrow> int list" where
  "printPostorder Leaf = []"
| "printPostorder (Node l x r) = printPostorder l @ printPostorder r @ [x]"

text \<open>The leaves that are left children, with a mark passed down as the comment in the code suggests.\<close>

fun left_leaves :: "bool \<Rightarrow> int tree \<Rightarrow> int list" where
  "left_leaves b Leaf = []"
| "left_leaves b (Node l x r) = (if l = Leaf \<and> r = Leaf then if b then [x] else [] else left_leaves True l @ left_leaves False r)"

lemma left_leaves_True: "sum_list (left_leaves True t) = sum_list (left_leaves False t) + (case t of Node Leaf y Leaf \<Rightarrow> y | _ \<Rightarrow> 0)"
  by (cases t) (auto split: tree.splits)

text \<open>
  The inorder traversal prints the values in order and adds to \<open>sum\<close> the values of the leaves that are left children.
\<close>

theorem printInorder_sums: "printInorder t s = (inorder t, s + sum_list (left_leaves False t))"
proof (induction t arbitrary: s)
  case (Node l x r)
  then show ?case using left_leaves_True [of l] by (auto split: tree.splits)
qed simp

lemma traversals_print: "printPreorder t = preorder t" "printPostorder t = postorder t"
  by (induction t) auto

text \<open>The tree of \<open>main\<close>.\<close>

definition main_left :: "int tree" where
  "main_left =
     Node (Node (Node (Node Leaf 8 Leaf) 4 (Node Leaf 9 Leaf)) 2 (Node Leaf 5 Leaf)) 1
          (Node (Node Leaf 6 Leaf) 3 (Node (Node Leaf 10 Leaf) 7 (Node Leaf 11 Leaf)))"

lemma main_left_prints:
  "printPreorder main_left = [1, 2, 4, 8, 9, 5, 3, 6, 7, 10, 11]"
  "printInorder main_left 0 = ([8, 4, 9, 2, 5, 1, 6, 3, 10, 7, 11], 24)"
  "printPostorder main_left = [8, 9, 4, 5, 2, 6, 10, 11, 7, 3, 1]"
  by (simp_all add: main_left_def)

section \<open>The paths to the leaves, printed in two ways\<close>

text \<open>
  The first version copies the path and restores it; its result is what it prints and the path it leaves. The second one
  overwrites the path from a position on; a write or a read behind its end is a fault.
\<close>

fun print_paths :: "int tree \<Rightarrow> int list \<Rightarrow> int list list \<times> int list" where
  "print_paths Leaf path = ([], path)"
| "print_paths (Node l x r) path =
     (let path = path @ [x]; oldPath = path;
          out = (if l = Leaf \<and> r = Leaf then [path] else [])
      in case print_paths l path of (out1, _) \<Rightarrow>
         case print_paths r oldPath of (out2, _) \<Rightarrow> (out @ out1 @ out2, oldPath))"

definition PrintPathLength :: "int list \<Rightarrow> nat \<Rightarrow> int list res" where
  "PrintPathLength path len = (if len \<le> length path then Ok (take len path) else Fault OutOfBounds)"

fun print_paths_len :: "int tree \<Rightarrow> int list \<Rightarrow> nat \<Rightarrow> (int list list \<times> int list) res" where
  "print_paths_len Leaf path len = Ok ([], path)"
| "print_paths_len (Node l x r) path len =
     obind (if len = length path then Ok (path @ [x]) else if len < length path then Ok (path[len := x]) else Fault OutOfBounds) (\<lambda>path.
       let len = len + 1 in
       if l = Leaf \<and> r = Leaf then obind (PrintPathLength path len) (\<lambda>out. Ok ([out], path))
       else obind (print_paths_len l path len) (\<lambda>(out1, path). obind (print_paths_len r path len) (\<lambda>(out2, path). Ok (out1 @ out2, path))))"

lemma print_paths_all: "fst (print_paths t path) = map ((@) path) (leaf_paths t)"
proof (induction t arbitrary: path)
  case (Node l x r)
  obtain o1 q1 o2 q2 where lr: "print_paths l (path @ [x]) = (o1, q1)" "print_paths r (path @ [x]) = (o2, q2)" by (meson surj_pair)
  then have "o1 = map ((@) (path @ [x])) (leaf_paths l)" "o2 = map ((@) (path @ [x])) (leaf_paths r)"
    using Node.IH(1) [of "path @ [x]"] Node.IH(2) [of "path @ [x]"] by simp_all
  then show ?case using lr by (auto simp: Let_def)
qed simp

lemma print_paths_len_all:
  "len \<le> length path \<Longrightarrow>
   \<exists>path'. print_paths_len t path len = Ok (map ((@) (take len path)) (leaf_paths t), path') \<and> len \<le> length path' \<and> take len path' = take len path"
proof (induction t arbitrary: path len)
  case (Node l x r)
  obtain p0 where p0: "(if len = length path then Ok (path @ [x]) else if len < length path then Ok (path[len := x]) else Fault OutOfBounds) = Ok p0"
    and p: "len + 1 \<le> length p0" "take (len + 1) p0 = take len path @ [x]"
    using Node.prems by (cases "len = length path") (auto simp: take_Suc_conv_app_nth)
  obtain p1 where p1: "print_paths_len l p0 (len + 1) = Ok (map ((@) (take len path @ [x])) (leaf_paths l), p1)" "len + 1 \<le> length p1"
    "take (len + 1) p1 = take len path @ [x]"
    using Node.IH(1) [OF p(1)] p(2) by auto
  obtain p2 where p2: "print_paths_len r p1 (len + 1) = Ok (map ((@) (take len path @ [x])) (leaf_paths r), p2)" "len + 1 \<le> length p2"
    "take (len + 1) p2 = take len path @ [x]"
    using Node.IH(2) [OF p1(2)] p1(3) by auto
  have t: "take len q = take len path" if "take (len + 1) q = take len path @ [x]" for q :: "int list"
    using arg_cong [OF that, of "take len"] Node.prems by simp
  show ?case
  proof (cases "l = Leaf \<and> r = Leaf")
    case True
    then show ?thesis using p0 p t [OF p(2)] by (intro exI [of _ p0]) (simp add: Let_def PrintPathLength_def del: obind_eq_Ok)
  next
    case False
    then show ?thesis using p0 p1 p2 t [OF p2(3)] by (intro exI [of _ p2]) (auto simp add: Let_def simp del: obind_eq_Ok)
  qed
qed simp

text \<open>
  Both versions print the same: the paths from the root to the leaves, from left to right, and the second one stays inside its vector.
\<close>

theorem print_paths_equiv: "\<exists>path'. print_paths_len t [] 0 = Ok (fst (print_paths t []), path') \<and> fst (print_paths t []) = leaf_paths t"
  using print_paths_len_all [of 0 "[]" t] print_paths_all [of t "[]"] by (auto simp: map_idI)

text \<open>The tree of \<open>main\<close>.\<close>

definition main_paths :: "int tree" where
  "main_paths = Node (Node (Node (Node Leaf 7 Leaf) 4 Leaf) 2 Leaf) 1 (Node (Node (Node Leaf 8 Leaf) 6 (Node Leaf 9 Leaf)) 3 Leaf)"

lemma main_paths_prints: "fst (print_paths main_paths []) = [[1, 2, 4, 7], [1, 3, 6, 8], [1, 3, 6, 9]]"
  by (simp add: main_paths_def Let_def)

end
