(* ===== verification/Bin_Arrays.thy ===== *)
theory Bin_Arrays
  imports Bin_Trees C_String
begin

text \<open>
  Two exercises that write a tree of characters into arrays of \<open>MAX\<close> characters: the test for a subtree, which compares the
  traversals with marks for the null pointers, and the reversal of every second level. An array is given by what has been
  written to it; a write behind its end is a fault.
\<close>

section \<open>Arrays of characters\<close>

definition MAXLEN :: nat where
  "MAXLEN = 100"

definition store :: "char \<Rightarrow> string \<Rightarrow> string res" where
  "store c arr = (if length arr < MAXLEN then Ok (arr @ [c]) else Fault OutOfBounds)"

definition store_all :: "string \<Rightarrow> string \<Rightarrow> string res" where
  "store_all cs arr = (if length (arr @ cs) \<le> MAXLEN then Ok (arr @ cs) else Fault OutOfBounds)"

lemma store_all_simps [simp]:
  "length arr \<le> MAXLEN \<Longrightarrow> store_all [] arr = Ok arr" "store c arr = store_all [c] arr"
  "length arr \<le> MAXLEN \<Longrightarrow> obind (store_all cs arr) (store_all ds) = store_all (cs @ ds) arr"
  by (auto simp: store_def store_all_def)

section \<open>Subtrees\<close>

fun storeInorder :: "char tree \<Rightarrow> string \<Rightarrow> string res" where
  "storeInorder Leaf arr = store CHR ''$'' arr"
| "storeInorder (Node l k r) arr = obind (storeInorder l arr) (\<lambda>arr. obind (store k arr) (\<lambda>arr. storeInorder r arr))"

fun storePreOrder :: "char tree \<Rightarrow> string \<Rightarrow> string res" where
  "storePreOrder Leaf arr = store CHR ''$'' arr"
| "storePreOrder (Node l k r) arr = obind (store k arr) (\<lambda>arr. obind (storePreOrder l arr) (\<lambda>arr. storePreOrder r arr))"

definition isSubtree :: "char tree \<Rightarrow> char tree \<Rightarrow> bool res" where
  "isSubtree T S =
     (if S = Leaf then Ok True
      else if T = Leaf then Ok False
      else
        obind (storeInorder T []) (\<lambda>inT. obind (storeInorder S []) (\<lambda>inS.
        obind (store NUL inT) (\<lambda>inT. obind (store NUL inS) (\<lambda>inS.
          if \<not> strstr (cstr inT) (cstr inS) then Ok False
          else
            obind (storePreOrder T []) (\<lambda>preT. obind (storePreOrder S []) (\<lambda>preS.
            obind (store NUL preT) (\<lambda>preT. obind (store NUL preS) (\<lambda>preS. Ok (strstr (cstr preT) (cstr preS)))))))))))"

text \<open>The two traversals, with a dollar for a null pointer.\<close>

fun ins :: "char tree \<Rightarrow> string" where
  "ins Leaf = ''$''"
| "ins (Node l k r) = ins l @ [k] @ ins r"

fun pres :: "char tree \<Rightarrow> string" where
  "pres Leaf = ''$''"
| "pres (Node l k r) = [k] @ pres l @ pres r"

lemma length_orders [simp]: "length (ins t) = 2 * size t + 1" "length (pres t) = 2 * size t + 1"
  by (induction t) auto

lemma set_orders [simp]: "set (ins t) = insert (CHR ''$'') (set_tree t)" "set (pres t) = insert (CHR ''$'') (set_tree t)"
  by (induction t) auto

lemma obind_store_all: "obind (store_all cs arr) f = (if length (arr @ cs) \<le> MAXLEN then f (arr @ cs) else Fault OutOfBounds)"
  by (simp add: store_all_def)

lemma storeInorder_all: "storeInorder t arr = store_all (ins t) arr"
  by (induction t arbitrary: arr) (auto simp: obind_store_all simp del: obind_eq_Ok, simp_all add: store_all_def)

lemma storePreOrder_all: "storePreOrder t arr = store_all (pres t) arr"
  by (induction t arbitrary: arr) (auto simp: obind_store_all simp del: obind_eq_Ok, simp_all add: store_all_def)

lemma has_prefix_self: "has_prefix p (p @ b)"
  by (induction p) auto

lemma strstr_complete: "strstr (a @ p @ b) p"
proof (induction a)
  case Nil
  then show ?case using has_prefix_self [of p b] by (cases "p @ b") auto
qed simp

lemma strstr_iff: "strstr s p \<longleftrightarrow> (\<exists>a b. s = a @ p @ b)"
  using strstr_sound strstr_complete by blast

lemma pres_prefix_code: "CHR ''$'' \<notin> set_tree s \<Longrightarrow> CHR ''$'' \<notin> set_tree t \<Longrightarrow> pres s @ xs = pres t @ ys \<Longrightarrow> s = t \<and> xs = ys"
proof (induction s arbitrary: t xs ys)
  case Leaf
  then show ?case by (cases t) auto
next
  case (Node l k r)
  have "t \<noteq> Leaf" using Node.prems by auto
  then obtain l' k' r' where t: "t = Node l' k' r'" by (cases t) simp
  then have "pres l @ pres r @ xs = pres l' @ pres r' @ ys" using Node.prems by simp
  then have lr: "l = l'" "pres r @ xs = pres r' @ ys" using Node.IH(1) [of l' "pres r @ xs" "pres r' @ ys"] Node.prems(1,2) t by simp_all
  then show ?case using Node.IH(2) [of r' xs ys] Node.prems t by simp
qed

lemma pres_at_key: "pres t = ps @ c # q \<Longrightarrow> c \<noteq> CHR ''$'' \<Longrightarrow> \<exists>u rest. u \<in> subtrees t \<and> c # q = pres u @ rest"
proof (induction t arbitrary: ps q)
  case Leaf
  then show ?case by (cases ps) auto
next
  case (Node l k r)
  show ?case
  proof (cases ps)
    case Nil
    then show ?thesis using Node.prems by (intro exI [of _ "Node l k r"] exI [of _ "[]"]) simp
  next
    case (Cons k' ps')
    then have "pres l @ pres r = ps' @ c # q" using Node.prems(1) by simp
    then consider (left) us where "pres l = ps' @ us" "us @ pres r = c # q" | (right) us where "pres l @ us = ps'" "pres r = us @ c # q"
      unfolding append_eq_append_conv2 by blast
    then show ?thesis
    proof cases
      case left
      show ?thesis
      proof (cases us)
        case Nil
        then have "pres r = [] @ c # q" using left by simp
        then show ?thesis using Node.IH(2) [OF _ Node.prems(2), of "[]" q] by (metis UnI2 subtrees.simps(2))
      next
        case (Cons c' us')
        then have "pres l = ps' @ c # us'" "q = us' @ pres r" using left by auto
        moreover obtain u rest where "u \<in> subtrees l" "c # us' = pres u @ rest"
          using Node.IH(1) [OF \<open>pres l = ps' @ c # us'\<close> Node.prems(2)] by blast
        ultimately show ?thesis by (intro exI [of _ u] exI [of _ "rest @ pres r"]) (simp add: append_Cons [symmetric] del: append_Cons)
      qed
    next
      case right
      then show ?thesis using Node.IH(2) [OF right(2) Node.prems(2)] by (metis UnI2 subtrees.simps(2))
    qed
  qed
qed

lemma pres_occurs:
  assumes "CHR ''$'' \<notin> set_tree t" and "s \<noteq> Leaf"
  shows "pres t = a @ pres s @ b \<Longrightarrow> CHR ''$'' \<notin> set_tree s \<Longrightarrow> s \<in> subtrees t"
proof -
  assume eq: "pres t = a @ pres s @ b" and s: "CHR ''$'' \<notin> set_tree s"
  obtain l k r where k: "s = Node l k r" using assms(2) by (cases s) auto
  then have "pres t = a @ k # (pres l @ pres r @ b)" "k \<noteq> CHR ''$''" using eq s by auto
  from pres_at_key [OF this] obtain u rest where u: "u \<in> subtrees t" "pres s @ b = pres u @ rest" using k by auto
  have "CHR ''$'' \<notin> set_tree u" using subtrees_set [OF u(1)] assms(1) by blast
  then show "s \<in> subtrees t" using pres_prefix_code [OF s _ u(2)] u(1) by simp
qed

lemma subtree_occurs: "s \<in> subtrees t \<Longrightarrow> (\<exists>a b. ins t = a @ ins s @ b) \<and> (\<exists>a b. pres t = a @ pres s @ b)"
proof (induction t)
  case Leaf
  then show ?case by (intro conjI exI [of _ "[]"]) auto
next
  case (Node l k r)
  then consider (self) "s = Node l k r" | (left) "s \<in> subtrees l" | (right) "s \<in> subtrees r" by auto
  then show ?case
  proof cases
    case self
    then show ?thesis by (intro conjI exI [of _ "[]"]) auto
  next
    case left
    then obtain a b c d where "ins l = a @ ins s @ b" "pres l = c @ pres s @ d" using Node.IH(1) by blast
    then have "ins (Node l k r) = a @ ins s @ (b @ [k] @ ins r)" "pres (Node l k r) = ([k] @ c) @ pres s @ (d @ pres r)" by simp_all
    then show ?thesis by blast
  next
    case right
    then obtain a b c d where "ins r = a @ ins s @ b" "pres r = c @ pres s @ d" using Node.IH(2) by blast
    then have "ins (Node l k r) = (ins l @ [k] @ a) @ ins s @ b" "pres (Node l k r) = ([k] @ pres l @ c) @ pres s @ d" by simp_all
    then show ?thesis by blast
  qed
qed

text \<open>
  For trees of at most 49 nodes whose keys are neither a dollar nor the zero character, \<open>isSubtree\<close> returns whether the
  second tree is a subtree of the first.
\<close>

theorem isSubtree_correct:
  assumes "size T \<le> 49" and "size S \<le> 49" and "set_tree T \<inter> {CHR ''$'', NUL} = {}" and "set_tree S \<inter> {CHR ''$'', NUL} = {}"
  shows "isSubtree T S = Ok (S \<in> subtrees T)"
proof (cases "S = Leaf \<or> T = Leaf")
  case True
  have "Leaf \<in> subtrees T" by (induction T) auto
  then show ?thesis using True by (auto simp: isSubtree_def)
next
  case False
  have len: "2 * size T + 2 \<le> MAXLEN" "2 * size S + 2 \<le> MAXLEN" using assms(1,2) by (simp_all add: MAXLEN_def)
  have nul: "NUL \<notin> set (ins T)" "NUL \<notin> set (ins S)" "NUL \<notin> set (pres T)" "NUL \<notin> set (pres S)" using assms(3,4) by auto
  have eq: "isSubtree T S = Ok (strstr (ins T) (ins S) \<and> strstr (pres T) (pres S))"
    using False len nul by (simp add: isSubtree_def storeInorder_all storePreOrder_all obind_store_all del: obind_eq_Ok)
  have "strstr (pres T) (pres S) \<Longrightarrow> S \<in> subtrees T" using pres_occurs [of T S] assms(3,4) False by (auto simp: strstr_iff)
  moreover have "S \<in> subtrees T \<Longrightarrow> strstr (ins T) (ins S) \<and> strstr (pres T) (pres S)" unfolding strstr_iff by (rule subtree_occurs)
  ultimately have "(strstr (ins T) (ins S) \<and> strstr (pres T) (pres S)) = (S \<in> subtrees T)" by blast
  with eq show ?thesis by simp
qed

text \<open>The trees of \<open>main\<close>.\<close>

definition main_T :: "char tree" where
  "main_T = Node (Node (Node Leaf CHR ''c'' Leaf) CHR ''b'' Leaf) CHR ''a'' (Node Leaf CHR ''d'' (Node Leaf CHR ''e'' Leaf))"

definition main_S :: "char tree" where
  "main_S = Node (Node (Node Leaf CHR ''c'' Leaf) CHR ''b'' Leaf) CHR ''a'' (Node Leaf CHR ''d'' Leaf)"

theorem isSubtree_correct_witness: "isSubtree main_T main_S = Ok (main_S \<in> subtrees main_T)"
  by (rule isSubtree_correct) (simp_all add: main_T_def main_S_def)

text \<open>With fifty nodes or more the arrays overflow; and a dollar as a key is taken for a null pointer.\<close>

lemma isSubtree_overflows: "49 < size T \<Longrightarrow> S \<noteq> Leaf \<Longrightarrow> size S \<le> 49 \<Longrightarrow> isSubtree T S = Fault OutOfBounds"
  by (auto simp: isSubtree_def storeInorder_all obind_store_all MAXLEN_def simp del: obind_eq_Ok)

lemma isSubtree_dollar: "isSubtree (Node Leaf CHR ''a'' (Node Leaf CHR ''$'' Leaf)) (Node Leaf CHR ''a'' Leaf) = Ok True"
  by code_simp

section \<open>Reversal of every second level\<close>

fun storeAlternate :: "char tree \<Rightarrow> string \<Rightarrow> nat \<Rightarrow> string res" where
  "storeAlternate Leaf arr l = Ok arr"
| "storeAlternate (Node lt x rt) arr l =
     obind (storeAlternate lt arr (l + 1)) (\<lambda>arr.
     obind (if l mod 2 \<noteq> 0 then store x arr else Ok arr) (\<lambda>arr.
     storeAlternate rt arr (l + 1)))"

text \<open>Reading the array behind what has been stored is a fault.\<close>

fun modifyTree :: "char tree \<Rightarrow> string \<Rightarrow> nat \<Rightarrow> nat \<Rightarrow> (char tree \<times> nat) res" where
  "modifyTree Leaf arr index l = Ok (Leaf, index)"
| "modifyTree (Node lt x rt) arr index l =
     obind (modifyTree lt arr index (l + 1)) (\<lambda>(lt, index).
     obind (if l mod 2 \<noteq> 0 then if index < length arr then Ok (arr ! index, index + 1) else Fault OutOfBounds else Ok (x, index)) (\<lambda>(x, index).
     obind (modifyTree rt arr index (l + 1)) (\<lambda>(rt, index). Ok (Node lt x rt, index))))"

text \<open>The loop of \<open>reverse\<close>, with the positions \<open>l\<close> and \<open>r\<close>.\<close>

function reverse_loop :: "int \<Rightarrow> int \<Rightarrow> string \<Rightarrow> string" where
  "reverse_loop l r arr =
     (if l < r then reverse_loop (l + 1) (r - 1) (arr[nat l := arr ! nat r, nat r := arr ! nat l]) else arr)"
  by auto
termination by (relation "measure (\<lambda>(l, r, arr). nat (r - l))") auto

definition reverse :: "string \<Rightarrow> nat \<Rightarrow> string" where
  "reverse arr n = reverse_loop 0 (int n - 1) arr"

definition reverseAlternate :: "char tree \<Rightarrow> char tree res" where
  "reverseAlternate root =
     obind (storeAlternate root [] 0) (\<lambda>arr.
     obind (modifyTree root (reverse arr (length arr)) 0 0) (\<lambda>(root, _). Ok root))"

declare reverse_loop.simps [simp del]

lemma reverse_loop_rev: "reverse_loop (int (length ps)) (int (length ps + length xs) - 1) (ps @ xs @ ss) = ps @ rev xs @ ss"
proof (induction "length xs" arbitrary: ps xs ss rule: less_induct)
  case less
  show ?case
  proof (cases xs)
    case Nil
    then show ?thesis by (simp add: reverse_loop.simps)
  next
    case (Cons a ys)
    show ?thesis
    proof (cases ys rule: rev_cases)
      case Nil
      then show ?thesis using Cons by (simp add: reverse_loop.simps)
    next
      case (snoc zs b)
      have "reverse_loop (int (length (ps @ [b]))) (int (length (ps @ [b]) + length zs) - 1) ((ps @ [b]) @ zs @ ([a] @ ss)) = (ps @ [b]) @ rev zs @ ([a] @ ss)"
        by (rule less) (simp add: Cons snoc)
      moreover have "(ps @ xs @ ss)[length ps := (ps @ xs @ ss) ! (length ps + length ys), length ps + length ys := (ps @ xs @ ss) ! length ps] = (ps @ [b]) @ zs @ ([a] @ ss)"
        using Cons snoc by (simp add: nth_append list_update_append)
      ultimately show ?thesis using Cons snoc reverse_loop.simps [of "int (length ps)"] by (simp add: nat_add_distrib ac_simps)
    qed
  qed
qed

lemma reverse_rev: "reverse arr (length arr) = rev arr"
  using reverse_loop_rev [of "[]" arr "[]"] by (simp add: reverse_def)

text \<open>The values at odd levels in order, the tree with those of another one, and the values of a level.\<close>

fun odd_in :: "nat \<Rightarrow> 'a tree \<Rightarrow> 'a list" where
  "odd_in l Leaf = []"
| "odd_in l (Node lt x rt) = odd_in (l + 1) lt @ (if odd l then [x] else []) @ odd_in (l + 1) rt"

fun alternate :: "nat \<Rightarrow> 'a tree \<Rightarrow> 'a tree \<Rightarrow> 'a tree" where
  "alternate l (Node a x b) (Node c y d) = Node (alternate (l + 1) a c) (if odd l then y else x) (alternate (l + 1) b d)"
| "alternate l s t = Leaf"

fun level :: "nat \<Rightarrow> 'a tree \<Rightarrow> 'a list" where
  "level d Leaf = []"
| "level 0 (Node l x r) = [x]"
| "level (Suc d) (Node l x r) = level d l @ level d r"

abbreviation same_shape :: "'a tree \<Rightarrow> 'a tree \<Rightarrow> bool" where
  "same_shape s t \<equiv> map_tree (\<lambda>_. ()) s = map_tree (\<lambda>_. ()) t"

lemma shape_Node: "same_shape (Node a x b) t \<longleftrightarrow> (\<exists>c y d. t = Node c y d \<and> same_shape a c \<and> same_shape b d)"
  by (cases t) auto

lemma same_shape_complete: "complete s \<Longrightarrow> complete t \<Longrightarrow> height s = height t \<Longrightarrow> same_shape s t"
proof (induction s arbitrary: t)
  case Leaf
  then show ?case by (cases t) auto
next
  case (Node l x r)
  then show ?case by (cases t) auto
qed

lemma complete_mirror [simp]: "complete (mirror t) = complete t"
  by (induction t) auto

lemma odd_in_mirror: "odd_in l (mirror t) = rev (odd_in l t)"
  by (induction t arbitrary: l) auto

lemma level_mirror: "level d (mirror t) = rev (level d t)"
  by (induction d t rule: level.induct) auto

lemma level_alternate: "same_shape s t \<Longrightarrow> level d (alternate l s t) = (if odd (l + d) then level d t else level d s)"
proof (induction d s arbitrary: l t rule: level.induct)
  case (3 d a x b)
  obtain c y e where "t = Node c y e" "same_shape a c" "same_shape b e" using iffD1 [OF shape_Node, OF "3.prems"] by blast
  then show ?case using "3.IH" by simp
next
  case (2 a x b)
  then show ?case using iffD1 [OF shape_Node, OF "2.prems"] by auto
qed simp

lemma storeAlternate_all: "length arr \<le> MAXLEN \<Longrightarrow> storeAlternate t arr l = store_all (odd_in l t) arr"
proof (induction t arbitrary: arr l)
  case (Node lt x rt)
  then show ?case
    by (cases "odd l") (auto simp: obind_store_all odd_iff_mod_2_eq_one simp del: obind_eq_Ok, simp_all add: store_all_def)
qed simp

lemma modifyTree_fills:
  "same_shape s t \<Longrightarrow> modifyTree s (ps @ odd_in l t @ ss) (length ps) l = Ok (alternate l s t, length ps + length (odd_in l t))"
proof (induction s arbitrary: t ps ss l)
  case (Node a x b)
  obtain c y d where t: "t = Node c y d" "same_shape a c" "same_shape b d" using iffD1 [OF shape_Node, OF Node.prems] by blast
  let ?o = "if odd l then [y] else []"
  have 1: "modifyTree a (ps @ odd_in l t @ ss) (length ps) (l + 1) = Ok (alternate (l + 1) a c, length ps + length (odd_in (l + 1) c))"
    using Node.IH(1) [OF t(2), of ps "l + 1" "?o @ odd_in (l + 1) d @ ss"] t(1) by simp
  have 2: "modifyTree b (ps @ odd_in l t @ ss) (length (ps @ odd_in (l + 1) c @ ?o)) (l + 1) =
      Ok (alternate (l + 1) b d, length (ps @ odd_in (l + 1) c @ ?o) + length (odd_in (l + 1) d))"
    using Node.IH(2) [OF t(3), of "ps @ odd_in (l + 1) c @ ?o" "l + 1" ss] t(1) by simp
  show ?case using 1 2 t(1) by (cases "odd l") (auto simp: nth_append odd_iff_mod_2_eq_one simp del: obind_eq_Ok)
qed simp

lemma reverseAlternate_eq:
  assumes "same_shape t (mirror t)" and "length (odd_in 0 t) \<le> MAXLEN"
  shows "reverseAlternate t = Ok (alternate 0 t (mirror t))"
proof -
  have "storeAlternate t [] 0 = Ok (odd_in 0 t)" using assms(2) by (simp add: storeAlternate_all store_all_def)
  moreover have "modifyTree t (odd_in 0 (mirror t)) 0 0 = Ok (alternate 0 t (mirror t), length (odd_in 0 (mirror t)))"
    using modifyTree_fills [OF assms(1), of "[]" 0 "[]"] by simp
  ultimately show ?thesis by (simp add: reverseAlternate_def reverse_rev odd_in_mirror)
qed

fun odd_count :: "nat \<Rightarrow> nat \<Rightarrow> nat" where
  "odd_count l 0 = 0"
| "odd_count l (Suc h) = 2 * odd_count (l + 1) h + (if odd l then 1 else 0)"

lemma length_odd_in: "complete t \<Longrightarrow> length (odd_in l t) = odd_count l (height t)"
  by (induction t arbitrary: l) auto

lemma odd_counts: "\<forall>h \<in> set [0..<8]. odd_count 0 h \<le> MAXLEN"
  by code_simp

text \<open>
  In a complete tree of height at most 7, \<open>reverseAlternate\<close> reverses the values of every odd level and leaves those of the
  others.
\<close>

theorem reverseAlternate_levels:
  assumes "complete t" and "height t \<le> 7"
  shows "\<exists>t'. reverseAlternate t = Ok t' \<and> (\<forall>d. level d t' = (if odd d then rev (level d t) else level d t))"
proof -
  have sh: "same_shape t (mirror t)" using assms(1) by (intro same_shape_complete) auto
  have "reverseAlternate t = Ok (alternate 0 t (mirror t))"
    using reverseAlternate_eq [OF sh] length_odd_in [OF assms(1)] odd_counts assms(2) by simp
  then show ?thesis using level_alternate [OF sh, of _ 0] by (simp add: level_mirror)
qed

text \<open>The tree of \<open>main\<close>.\<close>

definition main_alternate :: "char tree" where
  "main_alternate =
     Node
       (Node (Node (Node Leaf CHR ''h'' Leaf) CHR ''d'' (Node Leaf CHR ''i'' Leaf)) CHR ''b''
             (Node (Node Leaf CHR ''j'' Leaf) CHR ''e'' (Node Leaf CHR ''k'' Leaf)))
       CHR ''a''
       (Node (Node (Node Leaf CHR ''l'' Leaf) CHR ''f'' (Node Leaf CHR ''m'' Leaf)) CHR ''c''
             (Node (Node Leaf CHR ''n'' Leaf) CHR ''g'' (Node Leaf CHR ''o'' Leaf)))"

theorem reverseAlternate_levels_witness:
  "\<exists>t'. reverseAlternate main_alternate = Ok t' \<and> (\<forall>d. level d t' = (if odd d then rev (level d main_alternate) else level d main_alternate))"
  by (rule reverseAlternate_levels) (simp_all add: main_alternate_def)

text \<open>The array overflows when there are too many nodes at odd levels, which happens first at height 8; in trees that are not complete levels are mixed.\<close>

lemma reverseAlternate_overflows: "MAXLEN < length (odd_in 0 t) \<Longrightarrow> reverseAlternate t = Fault OutOfBounds"
  by (simp add: reverseAlternate_def storeAlternate_all store_all_def)

lemma odd_count_eight: "odd_count 0 8 = 170"
  by code_simp


lemma reverseAlternate_mixes:
  "reverseAlternate (Node (Node (Node (Node Leaf CHR ''d'' Leaf) CHR ''c'' Leaf) CHR ''b'' Leaf) CHR ''a'' Leaf) =
     Ok (Node (Node (Node (Node Leaf CHR ''b'' Leaf) CHR ''c'' Leaf) CHR ''d'' Leaf) CHR ''a'' Leaf)"
  by code_simp

end
