(* ===== verification/Bin_Bottom.thy ===== *)
theory Bin_Bottom
  imports Bin_Trees
begin

text \<open>
  The bottom view of a tree (\<open>BottomView.cpp\<close>): a walk in level order with a queue writes the value of every node into an ordered map
  under its horizontal distance, so that the last one stays: the rightmost of the deepest ones.
\<close>

section \<open>The code\<close>

text \<open>\<open>m[k] = v\<close> for a \<open>std::map\<close>, a list of pairs with increasing keys.\<close>

fun map_put :: "'k::linorder \<Rightarrow> 'v \<Rightarrow> ('k \<times> 'v) list \<Rightarrow> ('k \<times> 'v) list" where
  "map_put k v [] = [(k, v)]"
| "map_put k v ((k', v') # m) = (if k < k' then (k, v) # (k', v') # m else if k = k' then (k, v) # m else (k', v') # map_put k v m)"

text \<open>A node in the queue has its horizontal distance in the member \<open>hd\<close>, which is written when it is queued.\<close>

function bottom_loop :: "(int tree \<times> int) list \<Rightarrow> (int \<times> int) list \<Rightarrow> (int \<times> int) list res" where
  "bottom_loop [] m = Ok m"
| "bottom_loop ((Leaf, h) # q) m = Fault NullDeref"
| "bottom_loop ((Node l x r, h) # q) m =
     bottom_loop (q @ (if l \<noteq> Leaf then [(l, h - 1)] else []) @ (if r \<noteq> Leaf then [(r, h + 1)] else [])) (map_put h x m)"
  by pat_completeness auto
termination by (relation "measure (\<lambda>(q, m). sum_list (map (\<lambda>(t, h). size t) q))") auto

definition bottomView :: "int tree \<Rightarrow> int list res" where
  "bottomView root = (if root = Leaf then Ok [] else obind (bottom_loop [(root, 0)] []) (\<lambda>m. Ok (map snd m)))"

section \<open>Level order\<close>

text \<open>The distances and values of the nodes at depth \<open>n\<close>, from left to right.\<close>

fun level_at :: "nat \<Rightarrow> int \<Rightarrow> int tree \<Rightarrow> (int \<times> int) list" where
  "level_at n h Leaf = []"
| "level_at 0 h (Node l x r) = [(h, x)]"
| "level_at (Suc n) h (Node l x r) = level_at n (h - 1) l @ level_at n (h + 1) r"

definition levels_at :: "nat \<Rightarrow> (int tree \<times> int) list \<Rightarrow> (int \<times> int) list" where
  "levels_at n q = concat (map (\<lambda>(t, h). level_at n h t) q)"

fun below :: "int tree \<times> int \<Rightarrow> (int tree \<times> int) list" where
  "below (Leaf, h) = []"
| "below (Node l x r, h) = (if l \<noteq> Leaf then [(l, h - 1)] else []) @ (if r \<noteq> Leaf then [(r, h + 1)] else [])"

abbreviation put_all :: "(int \<times> int) list \<Rightarrow> (int \<times> int) list \<Rightarrow> (int \<times> int) list" where
  "put_all vs m \<equiv> fold (\<lambda>(h, x). map_put h x) vs m"

lemma levels_at_simps [simp]: "levels_at n [] = []" "levels_at n (p # q) = level_at n (snd p) (fst p) @ levels_at n q"
  "levels_at n (q @ q') = levels_at n q @ levels_at n q'"
  by (auto simp: levels_at_def split: prod.splits)

lemma levels_at_Suc: "levels_at (Suc n) q = levels_at n (concat (map below q))"
proof (induction q)
  case (Cons p q)
  then show ?case by (cases p rule: below.cases) auto
qed simp

lemma bottom_loop_level: "\<forall>p \<in> set q. fst p \<noteq> Leaf \<Longrightarrow> bottom_loop (q @ q') m = bottom_loop (q' @ concat (map below q)) (put_all (levels_at 0 q) m)"
proof (induction q arbitrary: q' m)
  case (Cons p q)
  then obtain l x r h where p: "p = (Node l x r, h)" by (cases p rule: below.cases) auto
  have "bottom_loop (q @ (q' @ below p)) (map_put h x m) = bottom_loop ((q' @ below p) @ concat (map below q)) (put_all (levels_at 0 q) (map_put h x m))"
    by (rule Cons.IH) (use Cons.prems in simp)
  then show ?case using p by simp
qed simp

lemma below_height: "\<forall>p \<in> set q. fst p \<noteq> Leaf \<and> height (fst p) \<le> Suc H \<Longrightarrow> p \<in> set (concat (map below q)) \<Longrightarrow> fst p \<noteq> Leaf \<and> height (fst p) \<le> H"
proof (induction q)
  case (Cons a q)
  then show ?case by (cases a rule: below.cases) (auto split: if_splits)
qed simp

lemma bottom_loop_levels:
  "\<forall>p \<in> set q. fst p \<noteq> Leaf \<and> height (fst p) \<le> H \<Longrightarrow> bottom_loop q m = Ok (put_all (concat (map (\<lambda>n. levels_at n q) [0..<H])) m)"
proof (induction H arbitrary: q m)
  case 0
  then have "q = []" by (cases q) auto
  then show ?case by simp
next
  case (Suc H)
  let ?q = "concat (map below q)"
  have "bottom_loop q m = bottom_loop ?q (put_all (levels_at 0 q) m)" using bottom_loop_level [of q "[]" m] Suc.prems by simp
  also have "\<dots> = Ok (put_all (concat (map (\<lambda>n. levels_at n ?q) [0..<H])) (put_all (levels_at 0 q) m))"
    using Suc.IH [of ?q] below_height [OF Suc.prems] by blast
  also have "map (\<lambda>n. levels_at n ?q) [0..<H] = map (\<lambda>n. levels_at n q) (map Suc [0..<H])" by (simp add: levels_at_Suc)
  also have "put_all (concat \<dots>) (put_all (levels_at 0 q) m) = put_all (concat (map (\<lambda>n. levels_at n q) [0..<Suc H])) m"
    by (simp add: upt_conv_Cons map_Suc_upt del: upt_Suc)
  finally show ?case .
qed

section \<open>The map\<close>

lemma map_put_map_of [simp]: "sorted_wrt (<) (map fst m) \<Longrightarrow> map_of (map_put k v m) = (map_of m)(k \<mapsto> v)"
  by (induction k v m rule: map_put.induct) (auto simp: fun_eq_iff)

lemma map_put_keys: "fst ` set (map_put k v m) = insert k (fst ` set m)"
  by (induction k v m rule: map_put.induct) auto

lemma map_put_sorted: "sorted_wrt (<) (map fst m) \<Longrightarrow> sorted_wrt (<) (map fst (map_put k v m))"
proof (induction k v m rule: map_put.induct)
  case (2 k v k' v' m)
  then show ?case using map_put_keys [of k v m] by (auto simp: image_iff)
qed simp

lemma put_all_sorted: "sorted_wrt (<) (map fst m) \<Longrightarrow> sorted_wrt (<) (map fst (put_all vs m))"
  by (induction vs arbitrary: m) (auto simp: map_put_sorted)

lemma put_all_map_of: "sorted_wrt (<) (map fst m) \<Longrightarrow> map_of (put_all vs m) = map_of m ++ map_of (rev vs)"
  by (induction vs arbitrary: m) (auto simp: map_put_sorted)

lemma values_by_key: "sorted_wrt (<) (map fst m) \<Longrightarrow> map snd m = map (\<lambda>k. the (map_of m k)) (sorted_list_of_set (dom (map_of m)))"
proof -
  assume s: "sorted_wrt (<) (map fst m)"
  then have d: "distinct (map fst m)" "sorted (map fst m)" by (auto simp: strict_sorted_iff)
  then have "sorted_list_of_set (dom (map_of m)) = map fst m"
    by (simp add: dom_map_of_conv_image_fst sorted_list_of_set.idem_if_sorted_distinct flip: set_map)
  moreover have "map snd m = map (\<lambda>k. the (map_of m k)) (map fst m)" using d(1) by auto
  ultimately show ?thesis by simp
qed

lemma map_of_last_level:
  assumes "h \<in> fst ` set (L n)" and "n < N" and "\<forall>i. n < i \<and> i < N \<longrightarrow> h \<notin> fst ` set (L i)"
  shows "map_of (rev (concat (map L [0..<N]))) h = map_of (rev (L n)) h"
  using assms(2,3)
proof (induction N)
  case (Suc N)
  show ?case
  proof (cases "n = N")
    case True
    have "map_of (rev (L n)) h \<noteq> None" using assms(1) by (simp add: map_of_eq_None_iff)
    then show ?thesis using True by (auto simp: map_add_def split: option.splits)
  next
    case False
    then have "h \<notin> fst ` set (L N)" "n < N" using Suc.prems by auto
    moreover from this(1) have "map_of (rev (L N)) h = None" by (simp add: map_of_eq_None_iff)
    ultimately show ?thesis using Suc by (simp add: map_add_def)
  qed
qed simp

section \<open>The bottom view\<close>

definition distances :: "int tree \<Rightarrow> int set" where
  "distances t = (\<Union>n. fst ` set (level_at n 0 t))"

definition depth_at :: "int tree \<Rightarrow> int \<Rightarrow> nat" where
  "depth_at t h = Max {n. h \<in> fst ` set (level_at n 0 t)}"

definition bottom :: "int tree \<Rightarrow> int \<Rightarrow> int" where
  "bottom t h = snd (last (filter (\<lambda>p. fst p = h) (level_at (depth_at t h) 0 t)))"

lemma level_at_height: "height t \<le> n \<Longrightarrow> level_at n h t = []"
  by (induction n h t rule: level_at.induct) auto

lemma map_of_rev_last: "k \<in> fst ` set ps \<Longrightarrow> map_of (rev ps) k = Some (snd (last (filter (\<lambda>p. fst p = k) ps)))"
proof (induction ps rule: rev_induct)
  case (snoc p ps)
  then show ?case by (cases p; cases "fst p = k") auto
qed simp

lemma depth_at_props:
  assumes "h \<in> distances t"
  shows "h \<in> fst ` set (level_at (depth_at t h) 0 t)" "depth_at t h < height t" "\<forall>i. depth_at t h < i \<longrightarrow> h \<notin> fst ` set (level_at i 0 t)"
proof -
  let ?D = "{n. h \<in> fst ` set (level_at n 0 t)}"
  have sub: "?D \<subseteq> {..<height t}" using level_at_height [of t _ 0] by (metis (lifting) empty_iff empty_set image_empty leI lessThan_iff mem_Collect_eq subsetI)
  then have f: "finite ?D" by (rule finite_subset) simp
  have "?D \<noteq> {}" using assms by (auto simp: distances_def)
  then have "depth_at t h \<in> ?D" unfolding depth_at_def using f by (rule Max_in [rotated])
  then show "h \<in> fst ` set (level_at (depth_at t h) 0 t)" "depth_at t h < height t" using sub by auto
  show "\<forall>i. depth_at t h < i \<longrightarrow> h \<notin> fst ` set (level_at i 0 t)"
  proof (intro allI impI notI)
    fix i
    assume i: "depth_at t h < i" "h \<in> fst ` set (level_at i 0 t)"
    then have "i \<le> depth_at t h" unfolding depth_at_def using Max_ge [OF f, of i] by blast
    with i(1) show False by simp
  qed
qed

lemma distances_eq: "distances t = fst ` set (concat (map (\<lambda>n. level_at n 0 t) [0..<height t]))"
proof (intro equalityI subsetI)
  fix h
  assume "h \<in> distances t"
  from depth_at_props(1,2) [OF this] show "h \<in> fst ` set (concat (map (\<lambda>n. level_at n 0 t) [0..<height t]))"
    by (auto simp: image_Union intro!: bexI [of _ "depth_at t h"])
next
  fix h
  assume "h \<in> fst ` set (concat (map (\<lambda>n. level_at n 0 t) [0..<height t]))"
  then show "h \<in> distances t" by (auto simp: distances_def)
qed

text \<open>
  \<open>bottomView\<close> prints, for the horizontal distances of the nodes in increasing order, the value of the rightmost of the deepest
  nodes at this distance.
\<close>

theorem bottomView_deepest: "bottomView t = Ok (map (bottom t) (sorted_list_of_set (distances t)))"
proof (cases "t = Leaf")
  case True
  then show ?thesis by (simp add: bottomView_def distances_def)
next
  case False
  let ?vs = "concat (map (\<lambda>n. level_at n 0 t) [0..<height t])"
  let ?m = "put_all ?vs []"
  have "bottom_loop [(t, 0)] [] = Ok ?m" using bottom_loop_levels [of "[(t, 0)]" "height t" "[]"] False by simp
  then have b: "bottomView t = Ok (map snd ?m)" using False by (simp add: bottomView_def)
  have mo: "map_of ?m = map_of (rev ?vs)" using put_all_map_of [of "[]" ?vs] by simp
  have dom: "dom (map_of ?m) = distances t" unfolding mo dom_map_of_conv_image_fst distances_eq by simp
  have "the (map_of ?m h) = bottom t h" if "h \<in> distances t" for h
  proof -
    note d = depth_at_props [OF that]
    have "map_of (rev ?vs) h = map_of (rev (level_at (depth_at t h) 0 t)) h"
      using map_of_last_level [of h "\<lambda>n. level_at n 0 t" "depth_at t h" "height t"] d by blast
    then show ?thesis using map_of_rev_last [OF d(1)] by (simp add: mo bottom_def)
  qed
  moreover have "finite (distances t)" using finite_dom_map_of [of ?m] dom by simp
  moreover have "map snd ?m = map (\<lambda>k. the (map_of ?m k)) (sorted_list_of_set (distances t))"
    using values_by_key [OF put_all_sorted [of "[]" ?vs]] dom by simp
  ultimately show ?thesis using b by simp
qed

text \<open>The tree of \<open>main\<close>.\<close>

definition main_bottom :: "int tree" where
  "main_bottom = Node (Node (Node Leaf 5 Leaf) 8 (Node (Node Leaf 10 Leaf) 3 (Node Leaf 14 Leaf))) 20 (Node (Node Leaf 4 Leaf) 22 (Node Leaf 25 Leaf))"

lemma main_bottom_prints: "bottomView main_bottom = Ok [5, 10, 4, 14, 25]"
  by (simp add: main_bottom_def bottomView_def)

end
