(* ===== verification/Threaded.thy ===== *)
theory Threaded
  imports Outcome "HOL-Library.Tree" "HOL-Library.Word"
begin

text \<open>
  The threaded tree of \<open>ThreadedTree.cpp\<close>: the nodes without a right child get a pointer to their successor in order, taken
  from a queue of all nodes. The last node takes the front of an empty queue, which is undefined in C++; what this read gives, a fault or any pointer, is an argument
  \<open>e\<close> of the model, as is what a new node has in \<open>isThreaded\<close>, which \<open>newNode\<close> does not write. The theorem on \<open>createThreaded\<close> holds
  for all values of both.
\<close>

section \<open>The code\<close>

record tnode =
  tkey :: int
  tleft :: ptr
  tright :: ptr
  isThreaded :: "bool option"

type_synonym theap = "addr \<rightharpoonup> tnode"

fun get :: "(tnode \<Rightarrow> 'a) \<Rightarrow> ptr \<Rightarrow> theap \<Rightarrow> 'a res" where
  "get f None h = Fault NullDeref"
| "get f (Some p) h = (case h p of None \<Rightarrow> Fault (WildDeref p) | Some n \<Rightarrow> Ok (f n))"

definition newNode :: "int \<Rightarrow> bool option \<Rightarrow> tnode" where
  "newNode k g = \<lparr>tkey = k, tleft = None, tright = None, isThreaded = g\<rparr>"

fun populateQueue :: "nat \<Rightarrow> ptr \<Rightarrow> theap \<Rightarrow> ptr list \<Rightarrow> ptr list res" where
  "populateQueue 0 root h q = Timeout"
| "populateQueue (Suc fuel) root h q =
     (if root = None then Ok q
      else obind (get tleft root h) (\<lambda>l.
           obind (if l \<noteq> None then populateQueue fuel l h q else Ok q) (\<lambda>q.
           let q = q @ [root] in
           obind (get tright root h) (\<lambda>r. if r \<noteq> None then populateQueue fuel r h q else Ok q))))"

fun pop :: "ptr list \<Rightarrow> ptr list res" where
  "pop [] = Fault OutOfBounds"
| "pop (p # q) = Ok q"

fun front :: "ptr res \<Rightarrow> ptr list \<Rightarrow> ptr res" where
  "front e [] = e"
| "front e (p # q) = Ok p"

fun set_thread :: "ptr \<Rightarrow> ptr \<Rightarrow> theap \<Rightarrow> theap res" where
  "set_thread None p h = Fault NullDeref"
| "set_thread (Some a) p h =
     (case h a of None \<Rightarrow> Fault (WildDeref a) | Some n \<Rightarrow> Ok (h(a \<mapsto> n\<lparr>tright := p, isThreaded := Some True\<rparr>)))"

fun createThreadedUtil :: "ptr res \<Rightarrow> nat \<Rightarrow> ptr \<Rightarrow> theap \<Rightarrow> ptr list \<Rightarrow> (theap \<times> ptr list) res" where
  "createThreadedUtil e 0 root h q = Timeout"
| "createThreadedUtil e (Suc fuel) root h q =
     (if root = None then Ok (h, q)
      else obind (get tleft root h) (\<lambda>l.
           obind (if l \<noteq> None then createThreadedUtil e fuel l h q else Ok (h, q)) (\<lambda>(h, q).
           obind (pop q) (\<lambda>q.
           obind (get tright root h) (\<lambda>r.
             if r \<noteq> None then createThreadedUtil e fuel r h q
             else obind (front e q) (\<lambda>p. obind (set_thread root p h) (\<lambda>h. Ok (h, q))))))))"

definition createThreaded :: "ptr res \<Rightarrow> nat \<Rightarrow> ptr \<Rightarrow> theap \<Rightarrow> theap res" where
  "createThreaded e fuel root h =
     obind (populateQueue fuel root h []) (\<lambda>q. obind (createThreadedUtil e fuel root h q) (\<lambda>(h, _). Ok h))"

fun leftMost :: "nat \<Rightarrow> ptr \<Rightarrow> theap \<Rightarrow> ptr res" where
  "leftMost 0 root h = Timeout"
| "leftMost (Suc fuel) root h =
     (if root = None then Ok root else obind (get tleft root h) (\<lambda>l. if l \<noteq> None then leftMost fuel l h else Ok root))"

text \<open>The loop of \<open>inOrder\<close>, with the keys it prints.\<close>

fun walk :: "nat \<Rightarrow> ptr \<Rightarrow> theap \<Rightarrow> int list res" where
  "walk 0 cur h = Timeout"
| "walk (Suc fuel) cur h =
     (if cur = None then Ok []
      else obind (get tkey cur h) (\<lambda>k.
           obind (get isThreaded cur h) (\<lambda>t.
           obind (get tright cur h) (\<lambda>r.
           obind (case t of None \<Rightarrow> Fault Uninitialised | Some t \<Rightarrow> if t then Ok r else leftMost fuel r h) (\<lambda>cur.
           obind (walk fuel cur h) (\<lambda>ks. Ok (k # ks)))))))"

definition inOrder :: "nat \<Rightarrow> ptr \<Rightarrow> theap \<Rightarrow> int list res" where
  "inOrder fuel root h = (if root = None then Ok [] else obind (leftMost fuel root h) (\<lambda>cur. walk fuel cur h))"

section \<open>Trees on the heap\<close>

type_synonym atree = "(addr \<times> int) tree"

fun rt :: "atree \<Rightarrow> ptr" where
  "rt Leaf = None"
| "rt (Node l (a, k) r) = Some a"

abbreviation taddrs :: "atree \<Rightarrow> addr list" where
  "taddrs t \<equiv> map fst (inorder t)"

text \<open>\<open>g a\<close> is what node \<open>a\<close> has in \<open>isThreaded\<close> before it is written.\<close>

fun rep :: "(addr \<Rightarrow> bool option) \<Rightarrow> theap \<Rightarrow> atree \<Rightarrow> bool" where
  "rep g h Leaf = True"
| "rep g h (Node l (a, k) r) \<longleftrightarrow> h a = Some \<lparr>tkey = k, tleft = rt l, tright = rt r, isThreaded = g a\<rparr> \<and> rep g h l \<and> rep g h r"

text \<open>The tree with its threads, when \<open>q\<close> is the successor of its last node.\<close>

fun threaded :: "(addr \<Rightarrow> bool option) \<Rightarrow> theap \<Rightarrow> atree \<Rightarrow> ptr \<Rightarrow> bool" where
  "threaded g h Leaf q = True"
| "threaded g h (Node l (a, k) r) q \<longleftrightarrow>
     h a = Some \<lparr>tkey = k, tleft = rt l, tright = (if r = Leaf then q else rt r), isThreaded = (if r = Leaf then Some True else g a)\<rparr> \<and>
     threaded g h l (Some a) \<and> threaded g h r q"

lemma rt_None [simp]: "rt t = None \<longleftrightarrow> t = Leaf" "None = rt t \<longleftrightarrow> t = Leaf"
  by (cases t rule: rt.cases; simp)+

lemma thr_rep_cong: "(\<And>a. a \<in> set (taddrs t) \<Longrightarrow> h' a = h a) \<Longrightarrow> rep g h' t = rep g h t"
  by (induction g h t rule: rep.induct) auto

lemma threaded_cong: "(\<And>a. a \<in> set (taddrs t) \<Longrightarrow> h' a = h a) \<Longrightarrow> threaded g h' t q = threaded g h t q"
  by (induction g h t q rule: threaded.induct) auto

lemma populateQueue_all: "rep g h t \<Longrightarrow> height t < fuel \<Longrightarrow> populateQueue fuel (rt t) h q = Ok (q @ map Some (taddrs t))"
proof (induction t arbitrary: fuel q)
  case Leaf
  then show ?case by (cases fuel) auto
next
  case (Node l p r)
  obtain a k where p: "p = (a, k)" by (cases p)
  obtain f where f: "fuel = Suc f" using Node.prems(2) by (cases fuel) auto
  have "populateQueue f (rt l) h q = Ok (q @ map Some (taddrs l))" for q using Node.IH(1) [of f q] Node.prems p f by simp
  moreover have "populateQueue f (rt r) h q = Ok (q @ map Some (taddrs r))" for q using Node.IH(2) [of f q] Node.prems p f by simp
  ultimately show ?case using Node.prems(1) p f by (auto simp: Let_def simp del: obind_eq_Ok)
qed

section \<open>Threads\<close>

lemma createThreadedUtil_step:
  assumes rep: "rep g h (Node l (a, k) r)" and d: "distinct (taddrs (Node l (a, k) r))"
    and left: "l \<noteq> Leaf \<Longrightarrow> \<exists>h'. createThreadedUtil e fuel (rt l) h (map Some (taddrs l) @ Some a # map Some (taddrs r) @ rest) =
        Ok (h', Some a # map Some (taddrs r) @ rest) \<and> threaded g h' l (Some a) \<and> (\<forall>b. b \<notin> set (taddrs l) \<longrightarrow> h' b = h b)"
  shows "\<exists>h1. threaded g h1 l (Some a) \<and> (\<forall>b. b \<notin> set (taddrs l) \<longrightarrow> h1 b = h b) \<and>
     createThreadedUtil e (Suc fuel) (Some a) h (map Some (taddrs (Node l (a, k) r)) @ rest) =
       (if r \<noteq> Leaf then createThreadedUtil e fuel (rt r) h1 (map Some (taddrs r) @ rest)
        else obind (front e rest) (\<lambda>p. obind (set_thread (Some a) p h1) (\<lambda>h. Ok (h, rest))))"
proof -
  obtain h1 where h1: "(if rt l \<noteq> None then createThreadedUtil e fuel (rt l) h (map Some (taddrs l) @ Some a # map Some (taddrs r) @ rest)
      else Ok (h, map Some (taddrs l) @ Some a # map Some (taddrs r) @ rest)) = Ok (h1, Some a # map Some (taddrs r) @ rest)"
    "threaded g h1 l (Some a)" "\<forall>b. b \<notin> set (taddrs l) \<longrightarrow> h1 b = h b"
    using left by (cases "l = Leaf") auto
  have "a \<notin> set (taddrs l)" using d by auto
  then have "h1 a = h a" using h1(3) by blast
  then show ?thesis using h1 rep by (intro exI [of _ h1]) (cases "l = Leaf"; cases "r = Leaf"; simp del: obind_eq_Ok)
qed

lemma createThreadedUtil_threads:
  "t \<noteq> Leaf \<Longrightarrow> rep g h t \<Longrightarrow> distinct (taddrs t) \<Longrightarrow> height t < fuel \<Longrightarrow>
   \<exists>h'. createThreadedUtil e fuel (rt t) h (map Some (taddrs t) @ rest) = obind (front e rest) (\<lambda>q. Ok (h' q, rest)) \<and>
     (\<forall>q. threaded g (h' q) t q \<and> (\<forall>b. b \<notin> set (taddrs t) \<longrightarrow> h' q b = h b))"
proof (induction t arbitrary: fuel h rest)
  case (Node l p r)
  obtain a k where p: "p = (a, k)" by (cases p)
  obtain f where f: "fuel = Suc f" using Node.prems(4) by (cases fuel) auto
  have rep: "rep g h l" "rep g h r" "h a = Some \<lparr>tkey = k, tleft = rt l, tright = rt r, isThreaded = g a\<rparr>" using Node.prems(2) p by auto
  have d: "distinct (taddrs l)" "distinct (taddrs r)" "a \<notin> set (taddrs l)" "a \<notin> set (taddrs r)" "set (taddrs l) \<inter> set (taddrs r) = {}"
    using Node.prems(3) p by auto
  have left: "l \<noteq> Leaf \<Longrightarrow> \<exists>h'. createThreadedUtil e f (rt l) h (map Some (taddrs l) @ Some a # map Some (taddrs r) @ rest) =
        Ok (h', Some a # map Some (taddrs r) @ rest) \<and> threaded g h' l (Some a) \<and> (\<forall>b. b \<notin> set (taddrs l) \<longrightarrow> h' b = h b)"
    using Node.IH(1) [OF _ rep(1) d(1), of f "Some a # map Some (taddrs r) @ rest"] f Node.prems(4) by auto
  obtain h1 where h1: "threaded g h1 l (Some a)" "\<forall>b. b \<notin> set (taddrs l) \<longrightarrow> h1 b = h b"
    "createThreadedUtil e (Suc f) (Some a) h (map Some (taddrs (Node l (a, k) r)) @ rest) =
       (if r \<noteq> Leaf then createThreadedUtil e f (rt r) h1 (map Some (taddrs r) @ rest)
        else obind (front e rest) (\<lambda>p. obind (set_thread (Some a) p h1) (\<lambda>h. Ok (h, rest))))"
    using createThreadedUtil_step [of g h l a k r e f rest] left Node.prems(2,3) p by blast
  have h1a: "h1 a = h a" using h1(2) d(3) by blast
  show ?case
  proof (cases "r = Leaf")
    case True
    let ?h = "\<lambda>q. h1(a \<mapsto> \<lparr>tkey = k, tleft = rt l, tright = q, isThreaded = Some True\<rparr>)"
    have "threaded g (?h q) l (Some a) = threaded g h1 l (Some a)" for q by (rule threaded_cong) (use d(3) in auto)
    moreover have "createThreadedUtil e fuel (rt (Node l p r)) h (map Some (taddrs (Node l p r)) @ rest) =
        obind (front e rest) (\<lambda>q. Ok (?h q, rest))"
      using h1(3) f p h1a rep(3) True by (simp del: createThreadedUtil.simps obind_eq_Ok)
    ultimately show ?thesis using h1(1,2) p True
      by (intro exI [of _ ?h]) (simp add: fun_upd_same fun_upd_other del: fun_upd_apply createThreadedUtil.simps obind_eq_Ok)
  next
    case False
    have "rep g h1 r = rep g h r" by (rule thr_rep_cong) (use h1(2) d(5) in blast)
    then obtain h2 where h2: "createThreadedUtil e f (rt r) h1 (map Some (taddrs r) @ rest) = obind (front e rest) (\<lambda>q. Ok (h2 q, rest))"
      "\<And>q. threaded g (h2 q) r q" "\<And>q b. b \<notin> set (taddrs r) \<Longrightarrow> h2 q b = h1 b"
      using Node.IH(2) [OF False _ d(2), of h1 f rest] rep(2) f Node.prems(4) by auto
    have "threaded g (h2 q) l (Some a)" for q
      using threaded_cong [of l "h2 q" h1 g "Some a"] h2(3) d(5) h1(1) by blast
    moreover have "h2 q a = h a" for q using h2(3) d(4) h1a by metis
    moreover have "\<forall>b. b \<notin> set (taddrs (Node l p r)) \<longrightarrow> h2 q b = h b" for q using h2(3) h1(2) p by simp
    ultimately show ?thesis using h1(3) h2(1,2) f p False rep(3) by (intro exI [of _ h2]) (simp del: createThreadedUtil.simps obind_eq_Ok)
  qed
qed simp

section \<open>The walk\<close>

fun first :: "atree \<Rightarrow> ptr \<Rightarrow> ptr" where
  "first Leaf q = q"
| "first (Node l (a, k) r) q = first l (Some a)"

lemma leftMost_first: "threaded g h t q \<Longrightarrow> t \<noteq> Leaf \<Longrightarrow> size t < fuel \<Longrightarrow> leftMost fuel (rt t) h = Ok (first t q')"
proof (induction t arbitrary: fuel q q')
  case (Node l p r)
  obtain a k where p: "p = (a, k)" by (cases p)
  obtain f where f: "fuel = Suc f" using Node.prems(3) by (cases fuel) auto
  show ?case
  proof (cases "l = Leaf")
    case True
    then show ?thesis using Node.prems p f by (simp del: obind_eq_Ok)
  next
    case False
    then show ?thesis using Node.IH(1) [of "Some a" f "Some a"] Node.prems p f by (auto simp del: obind_eq_Ok)
  qed
qed simp

lemma walk_threaded:
  "threaded (\<lambda>a. Some False) h t q \<Longrightarrow>
   walk (Suc n + size t) (first t q) h = obind (walk (Suc n) q h) (\<lambda>ks. Ok (map snd (inorder t) @ ks))"
proof (induction t arbitrary: q n)
  case Leaf
  show ?case by (cases "walk (Suc n) q h") (simp_all del: walk.simps)
next
  case (Node l p r)
  obtain a k where p: "p = (a, k)" by (cases p)
  let ?n = "Suc n + size r"
  have l: "walk (Suc ?n + size l) (first l (Some a)) h = obind (walk (Suc ?n) (Some a) h) (\<lambda>ks. Ok (map snd (inorder l) @ ks))"
    by (rule Node.IH(1)) (use Node.prems p in simp)
  have r: "walk ?n (first r q) h = obind (walk (Suc n) q h) (\<lambda>ks. Ok (map snd (inorder r) @ ks))"
    by (rule Node.IH(2)) (use Node.prems p in simp)
  have lm: "r \<noteq> Leaf \<Longrightarrow> leftMost ?n (rt r) h = Ok (first r q)"
    by (rule leftMost_first [of "\<lambda>a. Some False" h r q]) (use Node.prems p in auto)
  have step: "walk (Suc ?n) (Some a) h = obind (walk ?n (first r q) h) (\<lambda>ks. Ok (k # ks))"
  proof (cases "r = Leaf")
    case True
    then show ?thesis using Node.prems p by (simp del: obind_eq_Ok)
  next
    case False
    then show ?thesis using Node.prems p lm unfolding walk.simps(2) [of ?n] by (simp del: obind_eq_Ok walk.simps)
  qed
  have "Suc n + size (Node l p r) = Suc ?n + size l" by simp
  then show ?case unfolding p first.simps using l step r by (cases "walk (Suc n) q h") (simp_all add: ac_simps del: walk.simps)
qed

text \<open>A threaded tree, with the marks written, is walked in order.\<close>

lemma inOrder_threaded:
  assumes "threaded (\<lambda>a. Some False) h t None" "size t + 1 < fuel"
  shows "inOrder fuel (rt t) h = Ok (map snd (inorder t))"
proof (cases "t = Leaf")
  case False
  obtain n where n: "fuel = Suc (Suc n) + size t" using assms(2) by (metis add.commute add_Suc_right less_iff_Suc_add One_nat_def add_0_right add_Suc)
  have "leftMost fuel (rt t) h = Ok (first t None)" by (rule leftMost_first [OF assms(1) False]) (use assms(2) in simp)
  moreover have "walk fuel (first t None) h = Ok (map snd (inorder t))" using walk_threaded [OF assms(1), of "Suc n"] n by simp
  ultimately show ?thesis using False by (simp add: inOrder_def)
qed (simp add: inOrder_def)

text \<open>
  C29: on every tree that is not empty, whatever its nodes have in \<open>isThreaded\<close>, and whatever the read of the front of the empty queue gives,
  \<open>createThreaded\<close> ends as this read does; it is the only access that is not defined. If it gives a pointer \<open>p\<close>, every node without a right child has been
  threaded to its successor and the last one to \<open>p\<close>, and no other memory has changed. So in C++, where this read is undefined, \<open>createThreaded\<close> is undefined for
  every tree that is not empty.
\<close>

theorem createThreaded_threads:
  assumes "rep g h t" and "distinct (taddrs t)" and "height t < fuel" and "t \<noteq> Leaf"
  shows "\<exists>h'. createThreaded e fuel (rt t) h = obind e (\<lambda>p. Ok (h' p)) \<and>
     (\<forall>p. threaded g (h' p) t p \<and> (\<forall>b. b \<notin> set (taddrs t) \<longrightarrow> h' p b = h b))"
proof -
  have q: "populateQueue fuel (rt t) h [] = Ok (map Some (taddrs t))" using populateQueue_all [OF assms(1,3), of "[]"] by simp
  obtain h' where h': "createThreadedUtil e fuel (rt t) h (map Some (taddrs t)) = obind e (\<lambda>q. Ok (h' q, []))"
    "\<forall>q. threaded g (h' q) t q \<and> (\<forall>b. b \<notin> set (taddrs t) \<longrightarrow> h' q b = h b)"
    using createThreadedUtil_threads [OF assms(4,1,2,3), of e "[]"] by auto
  have "createThreaded e fuel (rt t) h = obind e (\<lambda>p. Ok (h' p))"
    unfolding createThreaded_def q using h'(1) by (cases e) (simp_all del: obind_eq_Ok)
  then show ?thesis using h'(2) by blast
qed

text \<open>The tree of \<open>main\<close>, with its nodes in the order of their allocation.\<close>

definition main_tree :: atree where
  "main_tree = Node (Node (Node Leaf (3, 4) Leaf) (1, 2) (Node Leaf (4, 5) Leaf)) (0, 1) (Node (Node Leaf (5, 6) Leaf) (2, 3) (Node Leaf (6, 7) Leaf))"

definition main_heap :: theap where
  "main_heap = [0 \<mapsto> (newNode 1 None)\<lparr>tleft := Some 1, tright := Some 2\<rparr>, 1 \<mapsto> (newNode 2 None)\<lparr>tleft := Some 3, tright := Some 4\<rparr>,
     2 \<mapsto> (newNode 3 None)\<lparr>tleft := Some 5, tright := Some 6\<rparr>, 3 \<mapsto> newNode 4 None, 4 \<mapsto> newNode 5 None,
     5 \<mapsto> newNode 6 None, 6 \<mapsto> newNode 7 None]"

theorem createThreaded_threads_witness:
  "\<exists>h'. createThreaded (Fault OutOfBounds) 9 (rt main_tree) main_heap = obind (Fault OutOfBounds) (\<lambda>p. Ok (h' p)) \<and>
     (\<forall>p. threaded (\<lambda>a. None) (h' p) main_tree p \<and> (\<forall>b. b \<notin> set (taddrs main_tree) \<longrightarrow> h' p b = main_heap b))"
  by (rule createThreaded_threads) (simp_all add: main_tree_def main_heap_def newNode_def)

text \<open>Reading \<open>isThreaded\<close> of a node with a right child reads what was never written, when it is not zero by luck.\<close>

lemma inOrder_uninitialised:
  "obind (createThreaded (Ok None) 5 (Some 0) [0 \<mapsto> (newNode 1 None)\<lparr>tright := Some 1\<rparr>, 1 \<mapsto> newNode 2 None]) (inOrder 5 (Some 0)) = Fault Uninitialised"
  by (simp add: createThreaded_def inOrder_def newNode_def eval_nat_numeral)

section \<open>Addition without plus\<close>

unbundle bit_operations_syntax

text \<open>The loop of \<open>getSum\<close> on 32 bit integers, where shifting a sign away wraps around.\<close>

fun getSum_loop :: "nat \<Rightarrow> 32 word \<Rightarrow> 32 word \<Rightarrow> 32 word res" where
  "getSum_loop 0 a b = Timeout"
| "getSum_loop (Suc fuel) a b = (if b \<noteq> 0 then getSum_loop fuel (a XOR b) (push_bit 1 (a AND b)) else Ok a)"

lemma sum_bits: "(a XOR b) + push_bit 1 (a AND b) = a + (b :: 32 word)"
proof -
  have "(a XOR b) AND (a AND b) = 0" by (rule bit_eqI) (auto simp: bit_simps)
  then have "(a XOR b) + (a AND b) = (a XOR b) OR (a AND b)" by (rule disjunctive_add_eq_or)
  also have "\<dots> = a OR b" by (rule bit_eqI) (auto simp: bit_simps)
  finally have "(a XOR b) + (a AND b) + (a AND b) = a + b" using word_plus_and_or [of a b] by (simp add: ac_simps)
  then show ?thesis by (simp add: push_bit_eq_mult algebra_simps)
qed

lemma getSum_loop_sum: "(\<forall>i < 32 - n. \<not> bit b i) \<Longrightarrow> n \<le> 32 \<Longrightarrow> getSum_loop (Suc n) a b = Ok (a + b)"
proof (induction n arbitrary: a b)
  case 0
  then have "b = 0" by (intro bit_word_eqI) auto
  then show ?case by simp
next
  case (Suc n)
  have low: "\<forall>i < 32 - n. \<not> bit (push_bit 1 (a AND b)) i"
    unfolding bit_push_bit_iff bit_and_iff using Suc.prems by auto
  have "getSum_loop (Suc n) (a XOR b) (push_bit 1 (a AND b)) = Ok ((a XOR b) + push_bit 1 (a AND b))"
    by (rule Suc.IH [OF low]) (use Suc.prems in simp)
  then show ?case unfolding sum_bits getSum_loop.simps(2) [of "Suc n" a b] by (metis add_0_right)
qed

text \<open>
  \<open>getSum\<close> ends after at most 33 tests of its loop, with the sum of its arguments modulo \<open>2 ^ 32\<close>.
\<close>

theorem getSum_adds: "getSum_loop 33 a b = Ok (a + b)"
  using getSum_loop_sum [of 32 b a] by simp

end
