(* ===== verification/Pthread.thy ===== *)
theory Pthread
  imports C_Prelude
begin

text \<open>
  The part of POSIX threads the programs use. Every call may fail: its status is an argument of
  the model (an \<open>penv\<close>), so that each error branch of the source is a branch of the definitions.
  A mutex or condition variable is raw, live or destroyed. A thread table holds, for every
  thread, whether it is ready to run from a program point (it will first reacquire the mutex
  where the code does), blocked in \<open>pthread_cond_wait\<close> on a condition variable, or finished.
  Code between acquiring a mutex and releasing it (or waiting) is one step: all programs access
  their shared data under the mutex only.
\<close>

section \<open>Statuses of the library calls\<close>

datatype pcall =
    Attr_init | Attr_setdetachstate | Attr_destroy
  | Mutex_init | Mutex_destroy | Mutex_lock | Mutex_unlock
  | Cond_init | Cond_destroy | Cond_wait | Cond_signal | Cond_broadcast
  | Create | Join | Kill | Once | Key_create | Setspecific

type_synonym penv = "pcall \<Rightarrow> int"

definition all_ok :: penv where
  "all_ok = (\<lambda>_. 0)"

lemma all_ok_apply [simp]: "all_ok c = 0"
  by (simp add: all_ok_def)

text \<open>Life cycle of a synchronisation object.\<close>

datatype syncobj = Raw | Live | Destroyed

text \<open>An initialiser brings the object to life exactly when it reports success.\<close>

definition init_obj :: "int \<Rightarrow> syncobj \<Rightarrow> syncobj" where
  "init_obj st o1 = (if st = 0 then Live else o1)"

definition destroy_obj :: "int \<Rightarrow> syncobj \<Rightarrow> syncobj" where
  "destroy_obj st o1 = (if st = 0 then Destroyed else o1)"

lemmas sync_defs = init_obj_def destroy_obj_def

section \<open>Thread tables and condition variables\<close>

datatype ('c, 'p) tstate = Ready 'p | Waiting 'c 'p | Finished

fun is_waiting :: "'c \<Rightarrow> ('c, 'p) tstate \<Rightarrow> bool" where
  "is_waiting c (Waiting d p) = (c = d)"
| "is_waiting c _ = False"

fun wake :: "'c \<Rightarrow> ('c, 'p) tstate \<Rightarrow> ('c, 'p) tstate" where
  "wake c (Waiting d p) = (if c = d then Ready p else Waiting d p)"
| "wake c t = t"

text \<open>\<open>pthread_cond_broadcast\<close> readies every waiter of the condition variable.\<close>

definition cond_broadcast :: "'c \<Rightarrow> ('c, 'p) tstate list \<Rightarrow> ('c, 'p) tstate list" where
  "cond_broadcast c ts = map (wake c) ts"

text \<open>
  \<open>pthread_cond_signal\<close> readies one waiter, if there is one; which one is the scheduler's choice
  \<open>j\<close>. A choice that names no waiter is legal only where nobody waits.
\<close>

definition signal_ok :: "'c \<Rightarrow> nat \<Rightarrow> ('c, 'p) tstate list \<Rightarrow> bool" where
  "signal_ok c j ts \<longleftrightarrow> (j < length ts \<and> is_waiting c (ts ! j)) \<or> \<not> list_ex (is_waiting c) ts"

definition cond_signal :: "'c \<Rightarrow> nat \<Rightarrow> ('c, 'p) tstate list \<Rightarrow> ('c, 'p) tstate list" where
  "cond_signal c j ts = (if j < length ts then ts[j := wake c (ts ! j)] else ts)"

text \<open>A waiter may also return without a signal, or because its timed wait expired.\<close>

definition spurious :: "nat \<Rightarrow> 'c \<Rightarrow> ('c, 'p) tstate list \<Rightarrow> ('c, 'p) tstate list" where
  "spurious j c ts = (if j < length ts then ts[j := wake c (ts ! j)] else ts)"

lemma wake_not_waiting [simp]: "\<not> is_waiting c (wake c t)"
  by (cases t) auto

lemma wake_id: "\<not> is_waiting c t \<Longrightarrow> wake c t = t"
  by (cases t) auto

lemma length_cond [simp]:
  "length (cond_broadcast c ts) = length ts"
  "length (cond_signal c j ts) = length ts"
  "length (spurious j c ts) = length ts"
  by (simp_all add: cond_broadcast_def cond_signal_def spurious_def)

lemma nth_broadcast [simp]: "i < length ts \<Longrightarrow> cond_broadcast c ts ! i = wake c (ts ! i)"
  by (simp add: cond_broadcast_def)

text \<open>
  Waking does not change what a predicate that ignores the wait state counts: the counts of
  threads at a program point survive signals and broadcasts.
\<close>

definition wake_stable :: "(('c, 'p) tstate \<Rightarrow> bool) \<Rightarrow> bool" where
  "wake_stable P \<longleftrightarrow> (\<forall>c t. P (wake c t) = P t)"

lemma wake_stableI: "(\<And>c p. P (Waiting c p) = P (Ready p)) \<Longrightarrow> wake_stable P"
proof -
  assume h: "\<And>c p. P (Waiting c p) = P (Ready p)"
  have "P (wake c t) = P t" for c t by (cases t) (auto simp: h)
  then show ?thesis by (simp add: wake_stable_def)
qed

lemma cnt_broadcast [cnt_simps]: "wake_stable P \<Longrightarrow> cnt P (cond_broadcast c ts) = cnt P ts"
  by (simp add: cond_broadcast_def cnt_map wake_stable_def)

lemma cnt_signal [cnt_simps]: "wake_stable P \<Longrightarrow> cnt P (cond_signal c j ts) = cnt P ts"
  by (simp add: cond_signal_def cnt_upd wake_stable_def)

lemma cnt_spurious [cnt_simps]: "wake_stable P \<Longrightarrow> cnt P (spurious j c ts) = cnt P ts"
  by (simp add: spurious_def cnt_upd wake_stable_def)

text \<open>A predicate that waking can only make true counts at least as many threads afterwards.\<close>

definition wake_mono :: "(('c, 'p) tstate \<Rightarrow> bool) \<Rightarrow> bool" where
  "wake_mono P \<longleftrightarrow> (\<forall>c t. P t \<longrightarrow> P (wake c t))"

lemma cnt_wake_mono:
  assumes "wake_mono P"
  shows "cnt P ts \<le> cnt P (cond_broadcast c ts)"
    and "cnt P ts \<le> cnt P (cond_signal c j ts)"
    and "cnt P ts \<le> cnt P (spurious j c ts)"
proof -
  show "cnt P ts \<le> cnt P (cond_broadcast c ts)"
    using assms by (simp add: cond_broadcast_def cnt_map wake_mono_def cnt_mono)
  have "cnt P ts \<le> cnt P (ts[j := wake c (ts ! j)])" if "j < length ts"
    using assms that by (auto simp: cnt_upd wake_mono_def of_bool_def)
  then show "cnt P ts \<le> cnt P (cond_signal c j ts)" "cnt P ts \<le> cnt P (spurious j c ts)"
    by (simp_all add: cond_signal_def spurious_def)
qed

text \<open>A property of all threads that waking preserves.\<close>

lemma list_all_cond:
  assumes "list_all P ts" and "\<And>t. P t \<Longrightarrow> P (wake c t)"
  shows "list_all P (cond_broadcast c ts)" "list_all P (cond_signal c j ts)" "list_all P (spurious j c ts)"
  using assms
  by (auto simp: list_all_length cond_broadcast_def cond_signal_def spurious_def nth_list_update)

lemma list_all_upd: "list_all P ts \<Longrightarrow> P u \<Longrightarrow> list_all P (ts[i := u])"
  by (auto simp: list_all_iff dest!: set_update_subset_insert [THEN subsetD])

lemma broadcast_no_waiter: "\<not> list_ex (is_waiting c) (cond_broadcast c ts)"
  by (simp add: cond_broadcast_def list_ex_iff)

text \<open>After a signal some thread is ready, unless nobody was waiting.\<close>

lemma signal_wakes:
  assumes "signal_ok c j ts" and "i < length ts" and "ts ! i = Waiting c p"
  shows "\<exists>k q. k < length ts \<and> ts ! k = Waiting c q \<and> cond_signal c j ts ! k = Ready q"
proof -
  have "list_ex (is_waiting c) ts" using assms(2,3) by (auto simp: list_ex_length)
  with assms(1) have j: "j < length ts" "is_waiting c (ts ! j)" by (auto simp: signal_ok_def)
  then obtain q where "ts ! j = Waiting c q" by (cases "ts ! j") auto
  with j show ?thesis by (auto simp: cond_signal_def)
qed

lemma gather_cond:
  assumes "\<And>t. f (wake c t) = f t"
  shows "gather f (cond_broadcast c ts) = gather f ts" "gather f (cond_signal c j ts) = gather f ts"
    "gather f (spurious j c ts) = gather f ts"
proof -
  have "gather f (ts[j := wake c (ts ! j)]) = gather f ts"
    using assms by (cases "j < length ts") (simp_all add: gather_same list_update_beyond)
  then show "gather f (cond_signal c j ts) = gather f ts" "gather f (spurious j c ts) = gather f ts"
    by (simp_all add: cond_signal_def spurious_def)
  show "gather f (cond_broadcast c ts) = gather f ts"
    using assms by (simp add: gather_def cond_broadcast_def comp_def)
qed

fun is_ready :: "('c, 'p) tstate \<Rightarrow> bool" where
  "is_ready (Ready p) = True"
| "is_ready _ = False"

definition awake :: "(('c, 'p) tstate \<Rightarrow> bool) \<Rightarrow> ('c, 'p) tstate \<Rightarrow> bool" where
  "awake W t \<longleftrightarrow> W t \<and> is_ready t"

lemma awake_simps [simp]: "awake W (Ready p) = W (Ready p)" "\<not> awake W (Waiting c p)" "\<not> awake W Finished"
  by (simp_all add: awake_def)

lemma awake_mono: "wake_stable W \<Longrightarrow> wake_mono (awake W)"
proof -
  assume W: "wake_stable W"
  have "awake W t \<Longrightarrow> awake W (wake c t)" for c t
    using W by (cases t) (auto simp: awake_def wake_stable_def)
  then show ?thesis by (simp add: wake_mono_def)
qed

text \<open>
  When the threads of a kind wait only on \<open>c\<close> and only they do, a signal on \<open>c\<close> leaves one of them
  awake, unless there is none.
\<close>

lemma signal_leaves_awake:
  assumes W: "wake_stable W" and kind: "list_all (\<lambda>t. W t \<longleftrightarrow> is_waiting c t \<or> awake W t) ts"
    and sig: "signal_ok c j ts" and some: "0 < cnt W ts"
  shows "0 < cnt (awake W) (cond_signal c j ts)"
proof (cases "list_ex (is_waiting c) ts")
  case True
  with sig have j: "j < length ts" "is_waiting c (ts ! j)" by (auto simp: signal_ok_def)
  then obtain p where p: "ts ! j = Waiting c p" by (cases "ts ! j") auto
  have "W (ts ! j)" using kind j by (auto simp: list_all_length)
  with W p have "W (Ready p)" unfolding wake_stable_def by (metis wake.simps(1))
  with j p show ?thesis using cnt_pos [of j "cond_signal c j ts" "awake W"] by (simp add: cond_signal_def)
next
  case False
  from some obtain t where t: "t \<in> set ts" "W t" by (rule cnt_pos_obtain)
  with False kind have "awake W t" by (auto simp: list_ex_iff list_all_iff)
  with t have "0 < cnt (awake W) ts" by (auto intro: cnt_pos_set)
  with cnt_wake_mono(2) [OF awake_mono [OF W], of ts c j] show ?thesis by linarith
qed

end
