(* ===== verification/Barrier.thy ===== *)
theory Barrier
  imports Pthread
begin

text \<open>
  The barrier package of \<open>barrier.h\<close>, \<open>barrier.c\<close> and \<open>barrier_main.c\<close>. \<open>barrier_int\<close>,
  \<open>barrier_destroy\<close> and \<open>barrier_wait\<close> are the three operations; \<open>barrier_wait\<close> is split at its
  condition wait into the code up to the wait (\<open>barrier_wait_enter\<close>) and the code run when the
  wait returns (\<open>barrier_wait_resume\<close>). \<open>bar_exec\<close> runs any number of threads that call
  \<open>barrier_wait\<close> again and again, in every interleaving. The field \<open>cycle\<close> is an
  \<open>unsigned long\<close> and the local copy an \<open>int\<close>: both are kept at their width.
\<close>

section \<open>The barrier and its operations\<close>

record barrier =
  b_mutex :: syncobj
  b_cv :: syncobj
  valid :: int
  threshold :: int
  counter :: int
  cycle :: "64 word"
  updatingIncrement :: int

definition BARRIER_VALID :: int where
  "BARRIER_VALID = 0xdbcafe"

definition barrier_int :: "penv \<Rightarrow> barrier \<Rightarrow> int \<Rightarrow> int \<times> barrier" where
  "barrier_int st b n =
     (let b = b\<lparr>threshold := n, counter := n, cycle := 0\<rparr>;
          b = b\<lparr>b_mutex := init_obj (st Mutex_init) (b_mutex b)\<rparr>
      in if st Mutex_init \<noteq> 0 then (st Mutex_init, b)
         else let b = b\<lparr>b_cv := init_obj (st Cond_init) (b_cv b)\<rparr>
              in if st Cond_init \<noteq> 0
                 then (st Cond_init, b\<lparr>b_mutex := destroy_obj (st Mutex_destroy) (b_mutex b)\<rparr>)
                 else (0, b\<lparr>valid := BARRIER_VALID, updatingIncrement := 0\<rparr>))"

definition barrier_destroy :: "penv \<Rightarrow> barrier \<Rightarrow> int \<times> barrier" where
  "barrier_destroy st b =
     (if valid b \<noteq> BARRIER_VALID then (EINVAL, b)
      else if st Mutex_lock \<noteq> 0 then (st Mutex_lock, b)
      else if counter b \<noteq> threshold b then (EBUSY, b)
      else let b = b\<lparr>valid := 0\<rparr>
           in if st Mutex_unlock \<noteq> 0 then (st Mutex_unlock, b)
              else let b = b\<lparr>b_mutex := destroy_obj (st Mutex_destroy) (b_mutex b),
                             b_cv := destroy_obj (st Cond_destroy) (b_cv b)\<rparr>
                   in (if st Mutex_destroy \<noteq> 0 then st Mutex_destroy else st Cond_destroy, b))"

text \<open>
  The local \<open>int cycle\<close> holds the low 32 bits of the field; in \<open>cycle == barrier->cycle\<close> it is
  converted back by sign extension.
\<close>

definition local_cycle :: "barrier \<Rightarrow> 32 word" where
  "local_cycle b = ucast (cycle b)"

definition same_cycle :: "32 word \<Rightarrow> barrier \<Rightarrow> bool" where
  "same_cycle cyc b \<longleftrightarrow> scast cyc = cycle b"

datatype wait_result = Return int | Block "32 word"

text \<open>The third component tells whether the condition variable was broadcast.\<close>

definition barrier_wait_enter :: "penv \<Rightarrow> barrier \<Rightarrow> wait_result \<times> barrier \<times> bool" where
  "barrier_wait_enter st b =
     (if valid b \<noteq> BARRIER_VALID then (Return EINVAL, b, False)
      else if st Mutex_lock \<noteq> 0 then (Return (st Mutex_lock), b, False)
      else let cyc = local_cycle b; b = b\<lparr>counter := counter b - 1\<rparr>
           in if counter b = 0
              then let b = b\<lparr>cycle := cycle b + 1, counter := threshold b\<rparr>
                   in (Return (if st Cond_broadcast = 0 then - 1 else st Cond_broadcast),
                       b, st Cond_broadcast = 0)
              else if same_cycle cyc b then (Block cyc, b, False)
              else (Return (st Mutex_lock), b, False))"

definition barrier_wait_resume :: "32 word \<Rightarrow> int \<Rightarrow> barrier \<Rightarrow> wait_result" where
  "barrier_wait_resume cyc status b =
     (if status \<noteq> 0 then Return status
      else if same_cycle cyc b then Block cyc
      else Return status)"

section \<open>Threads calling the barrier\<close>

datatype bpc = Outside | InLoop "32 word"

text \<open>
  \<open>entered\<close> and \<open>departed\<close> count, per thread, the calls begun and returned; \<open>rounds\<close> the releases and
  \<open>elected\<close> the calls that returned \<open>-1\<close>. They are observations, no code reads them.
\<close>

record bar_sys =
  bar :: barrier
  thr :: "(unit, bpc) tstate list"
  entered :: "nat list"
  departed :: "nat list"
  rounds :: nat
  elected :: nat

datatype bar_event = Enter nat | Resume nat | Spurious nat

definition leave :: "nat \<Rightarrow> int \<Rightarrow> bar_sys \<Rightarrow> bar_sys" where
  "leave i r s = s\<lparr>thr := (thr s)[i := Ready Outside],
                   departed := (departed s)[i := Suc (departed s ! i)],
                   elected := elected s + (if r = - 1 then 1 else 0)\<rparr>"

fun bar_exec :: "bar_sys \<Rightarrow> bar_event \<Rightarrow> bar_sys option" where
  "bar_exec s (Enter i) =
     (if i < length (thr s) \<and> thr s ! i = Ready Outside then
        let s1 = s\<lparr>entered := (entered s)[i := Suc (entered s ! i)]\<rparr>
        in case barrier_wait_enter all_ok (bar s) of
             (Return r, b, bc) \<Rightarrow>
               Some (leave i r (s1\<lparr>bar := b, thr := (if bc then cond_broadcast () (thr s) else thr s),
                                   rounds := rounds s + (if bc then 1 else 0)\<rparr>))
           | (Block cyc, b, bc) \<Rightarrow> Some (s1\<lparr>bar := b, thr := (thr s)[i := Waiting () (InLoop cyc)]\<rparr>)
      else None)"
| "bar_exec s (Resume i) =
     (if i < length (thr s) then
        case thr s ! i of
          Ready (InLoop cyc) \<Rightarrow>
            (case barrier_wait_resume cyc 0 (bar s) of
               Return r \<Rightarrow> Some (leave i r s)
             | Block cyc' \<Rightarrow> Some (s\<lparr>thr := (thr s)[i := Waiting () (InLoop cyc')]\<rparr>))
        | _ \<Rightarrow> None
      else None)"
| "bar_exec s (Spurious i) = Some (s\<lparr>thr := spurious i () (thr s)\<rparr>)"

text \<open>The start: a barrier initialised for as many threads as will use it.\<close>

definition bar_start :: "barrier \<Rightarrow> nat \<Rightarrow> bar_sys" where
  "bar_start b n =
     \<lparr>bar = snd (barrier_int all_ok b (int n)), thr = replicate n (Ready Outside),
      entered = replicate n 0, departed = replicate n 0, rounds = 0, elected = 0\<rparr>"

definition bar_init :: "bar_sys \<Rightarrow> bool" where
  "bar_init s \<longleftrightarrow> (\<exists>b n. 0 < n \<and> s = bar_start b n)"

section \<open>The width of the cycle counter\<close>

lemma same_cycle_local: "same_cycle (local_cycle b) b \<longleftrightarrow> - (2 ^ 31) \<le> sint (cycle b) \<and> sint (cycle b) < 2 ^ 31"
  by (simp only: same_cycle_def local_cycle_def signed_cast_back)

lemma same_cycle_nat:
  "cycle b = of_nat c \<Longrightarrow> c < 2 ^ 31 \<Longrightarrow> k < 2 ^ 31 \<Longrightarrow> same_cycle (of_nat k) b \<longleftrightarrow> k = c"
  by (simp add: same_cycle_def scast_of_nat_int long_of_nat_eq)

lemma local_cycle_nat: "cycle b = of_nat c \<Longrightarrow> local_cycle b = of_nat c"
  by (simp add: local_cycle_def ucast_of_nat_int)

section \<open>The invariant\<close>

text \<open>
  Between two releases every thread has departed \<open>rounds\<close> calls or (still inside the
  previous one) one less; a thread blocked on the condition variable is waiting for the current
  cycle; and the field \<open>counter\<close> is the number of threads yet to enter.
\<close>

fun thr_ok :: "nat \<Rightarrow> (unit, bpc) tstate \<Rightarrow> nat \<Rightarrow> nat \<Rightarrow> bool" where
  "thr_ok c (Ready Outside) e d = (e = c \<and> d = c)"
| "thr_ok c (Ready (InLoop cyc)) e d =
     (e = Suc d \<and> (cyc = of_nat c \<and> d = c \<or> cyc = of_nat d \<and> c = Suc d))"
| "thr_ok c (Waiting _ (InLoop cyc)) e d = (e = Suc c \<and> d = c \<and> cyc = of_nat c)"
| "thr_ok c (Waiting _ Outside) e d = False"
| "thr_ok c Finished e d = False"

definition bar_inv_core :: "bar_sys \<Rightarrow> bool" where
  "bar_inv_core s \<longleftrightarrow>
     valid (bar s) = BARRIER_VALID \<and>
     threshold (bar s) = int (length (thr s)) \<and>
     cycle (bar s) = of_nat (rounds s) \<and>
     length (entered s) = length (thr s) \<and> length (departed s) = length (thr s) \<and>
     0 < counter (bar s) \<and>
     counter (bar s) = threshold (bar s) - cnt (\<lambda>e. e = Suc (rounds s)) (entered s) \<and>
     elected s = rounds s \<and>
     (\<forall>i < length (thr s). thr_ok (rounds s) (thr s ! i) (entered s ! i) (departed s ! i))"

definition bar_inv :: "bar_sys \<Rightarrow> bool" where
  "bar_inv s \<longleftrightarrow> (rounds s < 2 ^ 31 \<longrightarrow> bar_inv_core s)"

lemma bar_thr_ok_wake: "thr_ok c t e d \<Longrightarrow> thr_ok c (wake w t) e d"
  by (induction c t e d rule: thr_ok.induct) auto

text \<open>When the last thread enters, every other thread is waiting for the current cycle.\<close>

lemma thr_ok_release: "thr_ok c t (Suc c) d \<Longrightarrow> thr_ok (Suc c) (wake () t) (Suc c) d"
  by (cases "(c, t, Suc c, d)" rule: thr_ok.cases) auto

lemma thr_ok_entered: "thr_ok c t e d \<Longrightarrow> e = c \<or> e = Suc c"
  by (induction c t e d rule: thr_ok.induct) auto

lemma thr_ok_departed: "thr_ok c t e d \<Longrightarrow> d \<le> c"
  by (induction c t e d rule: thr_ok.induct) auto

lemma bar_start_inv: "bar_init s \<Longrightarrow> bar_inv s"
  by (auto simp: bar_init_def bar_start_def bar_inv_def bar_inv_core_def barrier_int_def
      sync_defs Let_def cnt_replicate)

lemma enter_block:
  assumes inv: "bar_inv_core s" and c: "rounds s < 2 ^ 31" and i: "i < length (thr s)"
    and t: "thr s ! i = Ready Outside" and cnt: "counter (bar s) \<noteq> 1"
  shows "barrier_wait_enter all_ok (bar s) =
           (Block (of_nat (rounds s)), (bar s)\<lparr>counter := counter (bar s) - 1\<rparr>, False)"
proof -
  have cyc: "cycle (bar s) = of_nat (rounds s)" and v: "valid (bar s) = BARRIER_VALID"
    using inv by (auto simp: bar_inv_core_def)
  have "same_cycle (of_nat (rounds s)) ((bar s)\<lparr>counter := counter (bar s) - 1\<rparr>)"
    using cyc c by (simp add: same_cycle_nat)
  with v cnt cyc show ?thesis
    by (simp add: barrier_wait_enter_def Let_def local_cycle_nat)
qed

lemma enter_release:
  assumes "bar_inv_core s" and "counter (bar s) = 1"
  shows "barrier_wait_enter all_ok (bar s) =
           (Return (- 1), (bar s)\<lparr>counter := threshold (bar s), cycle := cycle (bar s) + 1\<rparr>, True)"
  using assms by (simp add: barrier_wait_enter_def Let_def bar_inv_core_def)

lemma all_entered:
  assumes inv: "bar_inv_core s" and one: "counter (bar s) = 1" and i: "i < length (thr s)"
    and e: "entered s ! i = rounds s" and j: "j < length (thr s)" "j \<noteq> i"
  shows "entered s ! j = Suc (rounds s)"
proof -
  let ?P = "\<lambda>e. e = Suc (rounds s)" and ?es = "(entered s)[i := Suc (rounds s)]"
  have "cnt ?P ?es = int (length ?es)"
    using inv one i e by (simp add: bar_inv_core_def cnt_upd)
  moreover have "?es ! j \<in> set ?es" using inv j by (intro nth_mem) (simp add: bar_inv_core_def)
  ultimately show ?thesis using cnt_eq_length [of ?P ?es] j by simp
qed

lemma release_inv:
  assumes inv: "bar_inv_core s" and i: "i < length (thr s)" and t: "thr s ! i = Ready Outside"
    and one: "counter (bar s) = 1"
  shows "bar_inv_core (leave i (- 1) (s\<lparr>entered := (entered s)[i := Suc (entered s ! i)],
           bar := (bar s)\<lparr>counter := threshold (bar s), cycle := cycle (bar s) + 1\<rparr>,
           thr := cond_broadcast () (thr s), rounds := Suc (rounds s)\<rparr>))"
proof -
  have ei: "entered s ! i = rounds s" "departed s ! i = rounds s"
    using inv i t by (auto simp: bar_inv_core_def)
  have all: "entered s ! j = Suc (rounds s)" if "j < length (thr s)" "j \<noteq> i" for j
    using all_entered [OF inv one i ei(1) that] .
  have "(entered s)[i := Suc (rounds s)] ! j = Suc (rounds s)" if "j < length (entered s)" for j
    using inv all [of j] that by (cases "j = i") (auto simp: bar_inv_core_def)
  then have zero: "cnt (\<lambda>e. e = Suc (Suc (rounds s))) ((entered s)[i := Suc (rounds s)]) = 0"
    unfolding cnt_zero_iff by (auto simp: in_set_conv_nth)
  have "thr_ok (Suc (rounds s)) (wake () (thr s ! j)) (entered s ! j) (departed s ! j)"
    if "j < length (thr s)" "j \<noteq> i" for j
    using inv that all [OF that] thr_ok_release by (auto simp: bar_inv_core_def)
  with inv i ei zero show ?thesis
    by (auto simp: bar_inv_core_def leave_def nth_list_update)
qed

lemma block_inv:
  assumes inv: "bar_inv_core s" and i: "i < length (thr s)" and t: "thr s ! i = Ready Outside"
    and more: "counter (bar s) \<noteq> 1"
  shows "bar_inv_core (s\<lparr>entered := (entered s)[i := Suc (entered s ! i)],
           bar := (bar s)\<lparr>counter := counter (bar s) - 1\<rparr>,
           thr := (thr s)[i := Waiting () (InLoop (of_nat (rounds s)))]\<rparr>)"
proof -
  have ei: "entered s ! i = rounds s" "departed s ! i = rounds s"
    using inv i t by (auto simp: bar_inv_core_def)
  with inv i more show ?thesis
    by (auto simp: bar_inv_core_def cnt_upd nth_list_update)
qed

lemma resume_inv:
  assumes inv: "bar_inv_core s" and c: "rounds s < 2 ^ 31" and e: "bar_exec s (Resume i) = Some t"
  shows "bar_inv_core t"
proof -
  from e obtain cyc where i: "i < length (thr s)" and ti: "thr s ! i = Ready (InLoop cyc)"
    by (auto split: if_splits tstate.splits bpc.splits)
  with inv have ok: "thr_ok (rounds s) (Ready (InLoop cyc)) (entered s ! i) (departed s ! i)"
    by (metis bar_inv_core_def)
  have cb: "cycle (bar s) = of_nat (rounds s)" using inv by (simp add: bar_inv_core_def)
  show ?thesis
  proof (cases "cyc = of_nat (rounds s) \<and> departed s ! i = rounds s")
    case True
    then have "same_cycle cyc (bar s)" using cb c by (simp add: same_cycle_nat)
    with e i ti True ok have "t = s\<lparr>thr := (thr s)[i := Waiting () (InLoop cyc)]\<rparr>"
      by (simp add: barrier_wait_resume_def)
    with inv i ok True show ?thesis by (auto simp: bar_inv_core_def nth_list_update)
  next
    case False
    with ok have d: "cyc = of_nat (departed s ! i)" "rounds s = Suc (departed s ! i)" by auto
    then have "\<not> same_cycle cyc (bar s)"
      using same_cycle_nat [OF cb c, of "departed s ! i"] c by simp
    with e i ti have "t = leave i 0 s" by (simp add: barrier_wait_resume_def)
    with inv i ok d show ?thesis by (auto simp: bar_inv_core_def leave_def nth_list_update)
  qed
qed

lemma enter_inv:
  assumes inv: "bar_inv_core s" and c: "rounds s < 2 ^ 31" and e: "bar_exec s (Enter i) = Some t"
  shows "bar_inv_core t"
proof -
  from e have i: "i < length (thr s)" and ti: "thr s ! i = Ready Outside" by (auto split: if_splits)
  show ?thesis
  proof (cases "counter (bar s) = 1")
    case True
    with release_inv [OF inv i ti] e i ti enter_release [OF inv] show ?thesis by simp
  next
    case False
    with block_inv [OF inv i ti] e i ti enter_block [OF inv c i ti] show ?thesis by simp
  qed
qed

lemma spurious_inv: "bar_inv_core s \<Longrightarrow> bar_inv_core (s\<lparr>thr := spurious i () (thr s)\<rparr>)"
  by (auto simp: bar_inv_core_def spurious_def nth_list_update intro: bar_thr_ok_wake)

lemma rounds_mono: "bar_exec s e = Some t \<Longrightarrow> rounds s \<le> rounds t"
  by (cases e) (auto simp: leave_def Let_def split: if_splits prod.splits wait_result.splits tstate.splits bpc.splits)

lemma bar_exec_inv: "bar_inv s \<Longrightarrow> bar_exec s e = Some t \<Longrightarrow> bar_inv t"
  using rounds_mono [of s e t]
  by (cases e) (auto simp: bar_inv_def simp del: bar_exec.simps(1,2) intro: enter_inv resume_inv spurious_inv)

declare bar_exec.simps [simp del]

interpretation bar: invariant_system bar_init bar_exec bar_inv
  by unfold_locales (auto intro: bar_start_inv bar_exec_inv)


section \<open>Properties\<close>

text \<open>
  C4: no thread gets past the barrier before all have reached it. In every interleaving, with
  spurious wake-ups, of any number of threads calling \<open>barrier_wait\<close> on a barrier initialised for
  them, each thread has returned from at most as many calls as any other thread has begun, as
  long as fewer than \<open>2 ^ 31\<close> rounds have been completed. The library calls succeed.
\<close>

theorem barrier_separates_rounds:
  assumes "reach bar_init bar_exec s" and "rounds s < 2 ^ 31"
    and "i < length (thr s)" and "j < length (thr s)"
  shows "departed s ! i \<le> entered s ! j"
proof -
  have "bar_inv_core s" using bar.reach_inv [OF assms(1)] assms(2) by (simp add: bar_inv_def)
  then have ok: "\<And>k. k < length (thr s) \<Longrightarrow>
      thr_ok (rounds s) (thr s ! k) (entered s ! k) (departed s ! k)"
    by (simp add: bar_inv_core_def)
  show ?thesis
    using thr_ok_departed [OF ok [OF assms(3)]] thr_ok_entered [OF ok [OF assms(4)]] by linarith
qed

definition raw_barrier :: barrier where
  "raw_barrier = \<lparr>b_mutex = Raw, b_cv = Raw, valid = 0, threshold = 0, counter = 0, cycle = 0,
     updatingIncrement = 0\<rparr>"

definition two_threads :: bar_sys where
  "two_threads = bar_start raw_barrier 2"

lemma two_threads_reach: "run bar_exec two_threads es = Some t \<Longrightarrow> reach bar_init bar_exec t"
proof (rule reach_by_run [where s = two_threads])
  show "bar_init two_threads" unfolding bar_init_def two_threads_def
    by (intro exI [of _ raw_barrier] exI [of _ 2]) simp
qed

lemmas bar_eval = bar_exec.simps two_threads_def raw_barrier_def bar_start_def barrier_int_def barrier_wait_enter_def
  barrier_wait_resume_def Let_def sync_defs local_cycle_def same_cycle_def leave_def
  cond_broadcast_def spurious_def numeral_2_eq_2

lemma round_run: "\<exists>t. run bar_exec two_threads [Enter 0, Enter 1] = Some t \<and> length (thr t) = 2 \<and>
    rounds t = 1 \<and> departed t = [0, 1] \<and> entered t = [1, 1] \<and> thr t = [Ready (InLoop 0), Ready Outside]
    \<and> counter (bar t) = threshold (bar t) \<and> valid (bar t) = BARRIER_VALID"
  by (simp add: bar_eval)

theorem barrier_separates_rounds_witness:
  "\<exists>s. reach bar_init bar_exec s \<and> departed s ! 1 \<le> entered s ! 0 \<and> departed s ! 1 = 1"
proof -
  obtain t where t: "run bar_exec two_threads [Enter 0, Enter 1] = Some t" "length (thr t) = 2"
    "rounds t = 1" "departed t = [0, 1]" using round_run by blast
  from two_threads_reach [OF t(1)] have r: "reach bar_init bar_exec t" .
  show ?thesis using barrier_separates_rounds [OF r, of 1 0] r t by auto
qed

text \<open>
  Exactly one thread per round is told \<open>-1\<close>, so the work a caller hangs on that value is
  done once per round.
\<close>

theorem barrier_elects_one_per_round:
  assumes "reach bar_init bar_exec s" and "rounds s < 2 ^ 31"
  shows "elected s = rounds s"
  using bar.reach_inv [OF assms(1)] assms(2) by (simp add: bar_inv_def bar_inv_core_def)

theorem barrier_elects_one_per_round_witness:
  "\<exists>s. reach bar_init bar_exec s \<and> rounds s = 1 \<and> elected s = 1"
proof -
  obtain t where t: "run bar_exec two_threads [Enter 0, Enter 1] = Some t" "rounds t = 1"
    using round_run by blast
  from two_threads_reach [OF t(1)] have r: "reach bar_init bar_exec t" .
  show ?thesis using barrier_elects_one_per_round [OF r] r t by auto
qed

text \<open>
  C18: the threads cannot all be asleep. As long as fewer than \<open>2 ^ 31\<close> rounds have been completed, in every reachable state some
  thread can make a step of its own code (no spurious wake-up is needed), so no release is ever lost. The library calls succeed.
\<close>

theorem barrier_never_stuck:
  assumes "reach bar_init bar_exec s" and "rounds s < 2 ^ 31"
  shows "\<exists>i t. bar_exec s (Enter i) = Some t \<or> bar_exec s (Resume i) = Some t"
proof -
  have inv: "bar_inv_core s" using bar.reach_inv [OF assms(1)] assms(2) by (simp add: bar_inv_def)
  then have "cnt (\<lambda>e. e = Suc (rounds s)) (entered s) < int (length (entered s))"
    by (simp add: bar_inv_core_def)
  then obtain e where "e \<in> set (entered s)" "e \<noteq> Suc (rounds s)"
    using cnt_all by (metis (mono_tags, lifting) less_irrefl)
  then obtain i where i: "i < length (thr s)" "entered s ! i \<noteq> Suc (rounds s)"
    using inv by (auto simp: in_set_conv_nth bar_inv_core_def)
  then have "thr_ok (rounds s) (thr s ! i) (entered s ! i) (departed s ! i)"
    using inv by (simp add: bar_inv_core_def)
  with i(2) have "thr s ! i = Ready Outside \<or> (\<exists>cyc. thr s ! i = Ready (InLoop cyc))"
    by (cases "(rounds s, thr s ! i, entered s ! i, departed s ! i)" rule: thr_ok.cases) auto
  then show ?thesis
  proof
    assume "thr s ! i = Ready Outside"
    with i(1) have "\<exists>t. bar_exec s (Enter i) = Some t"
      by (auto simp: bar_exec.simps Let_def split: prod.splits wait_result.splits)
    then show ?thesis by blast
  next
    assume "\<exists>cyc. thr s ! i = Ready (InLoop cyc)"
    with i(1) have "\<exists>t. bar_exec s (Resume i) = Some t"
      by (auto simp: bar_exec.simps split: wait_result.splits)
    then show ?thesis by blast
  qed
qed

theorem barrier_never_stuck_witness:
  "\<exists>s. thr s = [Ready (InLoop 0), Ready Outside] \<and>
       (\<exists>i t. bar_exec s (Enter i) = Some t \<or> bar_exec s (Resume i) = Some t)"
proof -
  obtain t where t: "run bar_exec two_threads [Enter 0, Enter 1] = Some t" "rounds t = 1"
    "thr t = [Ready (InLoop 0), Ready Outside]" using round_run by blast
  from two_threads_reach [OF t(1)] have r: "reach bar_init bar_exec t" .
  show ?thesis using barrier_never_stuck [OF r] t by auto
qed

text \<open>
  The bound on the number of rounds is needed. The cycle is copied to an \<open>int\<close>: when the
  signed value of the field leaves the range of \<open>int\<close>, a thread that is not the last one does
  not wait at all but returns 0 at once, and otherwise it blocks.
\<close>

theorem barrier_wait_blocks_iff_cycle_fits:
  assumes "valid b = BARRIER_VALID" and "counter b \<noteq> 1"
  shows "fst (barrier_wait_enter all_ok b) =
           (if - (2 ^ 31) \<le> sint (cycle b) \<and> sint (cycle b) < 2 ^ 31
            then Block (local_cycle b) else Return 0)"
proof -
  have "same_cycle (local_cycle b) (b\<lparr>counter := counter b - 1\<rparr>) = same_cycle (local_cycle b) b"
    by (simp add: same_cycle_def)
  with assms show ?thesis
    using same_cycle_local [of b] by (simp add: barrier_wait_enter_def Let_def)
qed

theorem barrier_wait_blocks_iff_cycle_fits_witness:
  "fst (barrier_wait_enter all_ok \<lparr>b_mutex = Live, b_cv = Live, valid = BARRIER_VALID,
      threshold = 2, counter = 2, cycle = 2147483648, updatingIncrement = 0\<rparr>) = Return 0"
  by (subst barrier_wait_blocks_iff_cycle_fits) simp_all

text \<open>
  A barrier whose initialisation fails holds no live synchronisation object and is not
  marked valid, so every later call reports \<open>EINVAL\<close>.
\<close>

theorem barrier_int_failure_clean:
  assumes "fst (barrier_int st b n) \<noteq> 0" and "st Mutex_destroy = 0"
    and "b_mutex b \<noteq> Live" and "b_cv b \<noteq> Live" and "valid b \<noteq> BARRIER_VALID"
  shows "b_mutex (snd (barrier_int st b n)) \<noteq> Live \<and> b_cv (snd (barrier_int st b n)) \<noteq> Live \<and>
         fst (barrier_wait_enter st' (snd (barrier_int st b n))) = Return EINVAL \<and>
         barrier_destroy st' (snd (barrier_int st b n)) = (EINVAL, snd (barrier_int st b n))"
  using assms
  by (auto simp: barrier_int_def Let_def sync_defs barrier_wait_enter_def barrier_destroy_def
      split: if_splits)

theorem barrier_int_failure_clean_witness:
  "b_mutex (snd (barrier_int (all_ok(Cond_init := 11)) raw_barrier 2)) \<noteq> Live"
proof -
  have "fst (barrier_int (all_ok(Cond_init := 11)) raw_barrier 2) \<noteq> 0"
    by (simp add: barrier_int_def)
  then show ?thesis
    using barrier_int_failure_clean [of "all_ok(Cond_init := 11)" raw_barrier 2]
    by (simp add: raw_barrier_def BARRIER_VALID_def)
qed

text \<open>
  \<open>barrier_destroy\<close> refuses with \<open>EBUSY\<close>, changing nothing, while a thread has entered the
  current round and not been released.
\<close>

theorem barrier_destroy_busy:
  assumes "reach bar_init bar_exec s" and "rounds s < 2 ^ 31" and "Suc (rounds s) \<in> set (entered s)"
  shows "barrier_destroy all_ok (bar s) = (EBUSY, bar s)"
proof -
  have inv: "bar_inv_core s" using bar.reach_inv [OF assms(1)] assms(2) by (simp add: bar_inv_def)
  have "1 \<le> cnt (\<lambda>e. e = Suc (rounds s)) (entered s)"
    using assms(3) by (auto simp: in_set_conv_nth intro: cnt_pos)
  with inv show ?thesis by (auto simp: barrier_destroy_def bar_inv_core_def)
qed

theorem barrier_destroy_busy_witness:
  "\<exists>s :: bar_sys. Suc (rounds s) \<in> set (entered s) \<and> barrier_destroy all_ok (bar s) = (EBUSY, bar s)"
proof -
  have "\<exists>t. run bar_exec two_threads [Enter 0] = Some t \<and> rounds t = 0 \<and> entered t = [1, 0]"
    by (simp add: bar_eval)
  then obtain t where t: "run bar_exec two_threads [Enter 0] = Some t" "rounds t = 0" "entered t = [1, 0]"
    by blast
  have "barrier_destroy all_ok (bar t) = (EBUSY, bar t)"
    using barrier_destroy_busy [OF two_threads_reach [OF t(1)]] t by simp
  with t show ?thesis by (intro exI [of _ t]) simp
qed

text \<open>
  The check of \<open>barrier_destroy\<close> does not see released threads: there is a run after which it
  succeeds and destroys the mutex that a thread still inside \<open>barrier_wait\<close> is about to reacquire.
\<close>

theorem barrier_destroy_before_departure:
  "\<exists>t. reach bar_init bar_exec t \<and> thr t ! 0 = Ready (InLoop 0) \<and>
      fst (barrier_destroy all_ok (bar t)) = 0 \<and> b_mutex (snd (barrier_destroy all_ok (bar t))) = Destroyed"
proof -
  obtain t where t: "run bar_exec two_threads [Enter 0, Enter 1] = Some t"
    "thr t = [Ready (InLoop 0), Ready Outside]" "counter (bar t) = threshold (bar t)"
    "valid (bar t) = BARRIER_VALID" using round_run by blast
  from two_threads_reach [OF t(1)] have "reach bar_init bar_exec t" .
  with t show ?thesis
    by (intro exI [of _ t]) (simp add: barrier_destroy_def Let_def sync_defs)
qed

end
