(* ===== verification/Barrier_Demo.thy ===== *)
theory Barrier_Demo
  imports Barrier
begin

text \<open>
  The program of \<open>barrier_main.c\<close>, a client of the barrier: in each of its loops a thread waits, adds its
  increment to its array, waits again, and the thread that is told \<open>-1\<close> then increases the increments
  of all threads. \<open>demo_exec\<close> interleaves the calls of \<open>barrier_wait\<close> (steps of \<open>bar_exec\<close>) with the code
  between the calls (\<open>demo_local\<close>), and \<open>main_exec\<close> interleaves this with \<open>main\<close>, which joins one thread after the other,
  prints the numbers of the thread after each join, and destroys the barrier at last. The library calls succeed, so that
  no thread gets to \<open>err_abort\<close>. All threads are initialised in the first state: \<open>main\<close> initialises a thread
  before it creates it, and no thread gets past its first wait before the last one has been created.
\<close>

section \<open>The program\<close>

definition ARRAY :: nat where "ARRAY = 6"

definition INLOOPS :: nat where "INLOOPS = 1"

definition OUTLOOPS :: nat where "OUTLOOPS = 1"

record thread_t =
  increment :: int
  arrays :: "int list"

text \<open>\<open>pend ! i\<close> is the status with which thread \<open>i\<close> has returned from its last call, while the code after it is yet to run.\<close>

record demo =
  dbar :: bar_sys
  thread :: "thread_t list"
  pend :: "int option list"

text \<open>How many times each thread calls \<open>barrier_wait\<close>: the outer loop runs up to and including \<open>OUTLOOPS\<close>.\<close>

definition calls :: nat where "calls = 2 * (OUTLOOPS + 1)"

definition add_increment :: "thread_t \<Rightarrow> thread_t" where
  "add_increment t = t\<lparr>arrays := map (\<lambda>a. a + increment t) (arrays t)\<rparr>"

text \<open>The code after a call: the inner loop after the first, the election after the second.\<close>

definition demo_local :: "nat \<Rightarrow> demo \<Rightarrow> demo option" where
  "demo_local i s =
     (if i < length (pend s) then
        case pend s ! i of
          None \<Rightarrow> None
        | Some r \<Rightarrow>
            let s' = s\<lparr>pend := (pend s)[i := None]\<rparr>
            in Some (if odd (departed (dbar s) ! i)
                     then s'\<lparr>thread := (thread s)[i := (add_increment ^^ INLOOPS) (thread s ! i)]\<rparr>
                     else if r = - 1 then s'\<lparr>thread := map (\<lambda>t. t\<lparr>increment := increment t + 1\<rparr>) (thread s)\<rparr>
                     else s')
      else None)"

definition wait_status :: "bar_sys \<Rightarrow> bar_event \<Rightarrow> wait_result option" where
  "wait_status b e =
     (case e of
        Enter i \<Rightarrow> Some (fst (barrier_wait_enter all_ok (bar b)))
      | Resume i \<Rightarrow> (case thr b ! i of Ready (InLoop cyc) \<Rightarrow> Some (barrier_wait_resume cyc 0 (bar b)) | _ \<Rightarrow> None)
      | Spurious i \<Rightarrow> None)"

definition demo_returns :: "nat \<Rightarrow> wait_result option \<Rightarrow> int option list \<Rightarrow> int option list" where
  "demo_returns i r p = (case r of Some (Return v) \<Rightarrow> p[i := Some v] | _ \<Rightarrow> p)"

datatype demo_event = Call nat | Wake nat | SpuriousWake nat | Local nat

fun demo_exec :: "demo \<Rightarrow> demo_event \<Rightarrow> demo option" where
  "demo_exec s (Call i) =
     (if i < length (pend s) \<and> pend s ! i = None \<and> departed (dbar s) ! i < calls then
        map_option (\<lambda>b. s\<lparr>dbar := b, pend := demo_returns i (wait_status (dbar s) (Enter i)) (pend s)\<rparr>)
          (bar_exec (dbar s) (Enter i))
      else None)"
| "demo_exec s (Wake i) =
     map_option (\<lambda>b. s\<lparr>dbar := b, pend := demo_returns i (wait_status (dbar s) (Resume i)) (pend s)\<rparr>)
       (bar_exec (dbar s) (Resume i))"
| "demo_exec s (SpuriousWake i) = map_option (\<lambda>b. s\<lparr>dbar := b\<rparr>) (bar_exec (dbar s) (Spurious i))"
| "demo_exec s (Local i) = demo_local i s"

declare demo_exec.simps [simp del]

text \<open>\<open>main\<close> initialises the barrier and the threads.\<close>

definition new_thread :: "nat \<Rightarrow> thread_t" where
  "new_thread i = \<lparr>increment = int i, arrays = map (\<lambda>c. int c + 1) [0..<ARRAY]\<rparr>"

definition demo_start :: "barrier \<Rightarrow> nat \<Rightarrow> demo" where
  "demo_start b n = \<lparr>dbar = bar_start b n, thread = map new_thread [0..<n], pend = replicate n None\<rparr>"

definition demo_init :: "nat \<Rightarrow> demo \<Rightarrow> bool" where
  "demo_init n s \<longleftrightarrow> (\<exists>b. s = demo_start b n)"

definition demo_over :: "demo \<Rightarrow> bool" where
  "demo_over s \<longleftrightarrow> list_all (\<lambda>d. d = calls) (departed (dbar s)) \<and> list_all (\<lambda>p. p = None) (pend s)"

text \<open>
  The joins of \<open>main\<close>: \<open>pthread_join\<close> returns when the thread has returned from its last call and run the code after it. Then
  \<open>main\<close> reads and prints the increment and the array of this thread, while the other threads go on. The result of \<open>barrier_destroy\<close> is kept
  apart, since no thread uses the barrier then.
\<close>

definition thread_over :: "demo \<Rightarrow> nat \<Rightarrow> bool" where
  "thread_over s i \<longleftrightarrow> departed (dbar s) ! i = calls \<and> pend s ! i = None"

record demo_main =
  demo_threads :: demo
  printed :: "(int \<times> int list) list"
  ended :: "(int \<times> barrier) option"

datatype main_event = Thread demo_event | Join | Destroy

fun main_exec :: "demo_main \<Rightarrow> main_event \<Rightarrow> demo_main option" where
  "main_exec s (Thread e) = map_option (\<lambda>d. s\<lparr>demo_threads := d\<rparr>) (demo_exec (demo_threads s) e)"
| "main_exec s Join =
     (let d = demo_threads s; i = length (printed s)
      in if i < length (thread d) \<and> thread_over d i
         then Some (s\<lparr>printed := printed s @ [(increment (thread d ! i), arrays (thread d ! i))]\<rparr>)
         else None)"
| "main_exec s Destroy =
     (let d = demo_threads s
      in if length (printed s) = length (thread d) \<and> ended s = None
         then Some (s\<lparr>ended := Some (barrier_destroy all_ok (bar (dbar d)))\<rparr>)
         else None)"

definition main_init :: "nat \<Rightarrow> demo_main \<Rightarrow> bool" where
  "main_init n s \<longleftrightarrow> (\<exists>d. demo_init n d \<and> s = \<lparr>demo_threads = d, printed = [], ended = None\<rparr>)"

section \<open>The invariant\<close>

text \<open>The increments made so far, and the additions thread \<open>i\<close> has made.\<close>

definition bumps :: "demo \<Rightarrow> nat" where
  "bumps s = rounds (dbar s) div 2 - (if even (rounds (dbar s)) \<and> Some (- 1) \<in> set (pend s) then 1 else 0)"

definition additions :: "nat \<Rightarrow> int option \<Rightarrow> nat" where
  "additions d p = (d + 1) div 2 - (if odd d \<and> p \<noteq> None then 1 else 0)"

definition gain :: "nat \<Rightarrow> nat \<Rightarrow> int" where
  "gain i w = (\<Sum>k < w. int i + int k)"

definition thread_at :: "nat \<Rightarrow> nat \<Rightarrow> nat \<Rightarrow> thread_t" where
  "thread_at i m w = \<lparr>increment = int i + int m, arrays = map (\<lambda>c. int c + 1 + gain i w) [0..<ARRAY]\<rparr>"

definition demo_inv :: "nat \<Rightarrow> demo \<Rightarrow> bool" where
  "demo_inv n s \<longleftrightarrow> bar_inv_core (dbar s) \<and> length (thr (dbar s)) = n \<and> (\<forall>e \<in> set (entered (dbar s)). e \<le> calls) \<and>
     rounds (dbar s) \<le> calls \<and> length (pend s) = n \<and> length (thread s) = n \<and>
     (\<forall>i < n. pend s ! i \<noteq> None \<longrightarrow> thr (dbar s) ! i = Ready Outside \<and> 0 < departed (dbar s) ! i) \<and>
     (\<forall>i < n. \<forall>j < n. pend s ! i = Some (- 1) \<longrightarrow> pend s ! j = Some (- 1) \<longrightarrow> i = j) \<and>
     (\<forall>i < n. thread s ! i = thread_at i (bumps s) (additions (departed (dbar s) ! i) (pend s ! i)))"

lemma thread_at_new: "new_thread i = thread_at i 0 0"
  by (simp add: new_thread_def thread_at_def gain_def)

lemma additions_return: "additions (Suc d) (Some v) = additions d None"
  by (auto simp: additions_def elim: oddE)

lemma additions_odd: "odd d \<Longrightarrow> additions d None = Suc (additions d (Some v))"
  by (auto simp: additions_def elim: oddE)

lemma additions_even: "even d \<Longrightarrow> additions d p = additions d None"
  by (simp add: additions_def)

lemma add_increment_at: "m = w \<Longrightarrow> add_increment (thread_at i m w) = thread_at i m (Suc w)"
  by (simp add: add_increment_def thread_at_def gain_def)

lemma bump_at: "(thread_at i m w)\<lparr>increment := increment (thread_at i m w) + 1\<rparr> = thread_at i (Suc m) w"
  by (simp add: thread_at_def)

lemma demo_start_inv: "0 < n \<Longrightarrow> demo_init n s \<Longrightarrow> demo_inv n s"
  using bar_start_inv [of "bar_start _ n"]
  by (auto simp: demo_init_def demo_start_def demo_inv_def bar_inv_def bar_start_def bar_init_def thread_at_new
      additions_def bumps_def cnt_replicate bar_inv_core_def barrier_int_def sync_defs Let_def)

lemma calls_small: "calls < 2 ^ 31"
  by (simp add: calls_def OUTLOOPS_def)

lemma demo_invD:
  assumes "demo_inv n s"
  shows "bar_inv_core (dbar s)" "length (thr (dbar s)) = n" "rounds (dbar s) < 2 ^ 31" "length (pend s) = n" "length (thread s) = n"
    "length (departed (dbar s)) = n" "length (entered (dbar s)) = n"
  using assms calls_small by (auto simp: demo_inv_def bar_inv_core_def)

lemma demo_thr_ok:
  assumes "demo_inv n s" and "i < n"
  shows "thr_ok (rounds (dbar s)) (thr (dbar s) ! i) (entered (dbar s) ! i) (departed (dbar s) ! i)"
  using assms by (simp add: demo_inv_def bar_inv_core_def)

lemma demo_outside:
  assumes "demo_inv n s" and "i < n" and "thr (dbar s) ! i = Ready Outside"
  shows "entered (dbar s) ! i = rounds (dbar s)" "departed (dbar s) ! i = rounds (dbar s)"
  using demo_thr_ok [OF assms(1,2)] assms(3) by auto

text \<open>Waiting for the others.\<close>

lemma demo_call_block:
  assumes inv: "demo_inv n s" and i: "i < n" "pend s ! i = None" "departed (dbar s) ! i < calls"
    and t: "thr (dbar s) ! i = Ready Outside" and more: "counter (bar (dbar s)) \<noteq> 1" and e: "demo_exec s (Call i) = Some s'"
  shows "demo_inv n s'"
proof -
  note D = demo_invD [OF inv]
  have io: "i < length (thr (dbar s))" using i D(2) by simp
  let ?b = "(dbar s)\<lparr>entered := (entered (dbar s))[i := Suc (entered (dbar s) ! i)],
           bar := (bar (dbar s))\<lparr>counter := counter (bar (dbar s)) - 1\<rparr>,
           thr := (thr (dbar s))[i := Waiting () (InLoop (of_nat (rounds (dbar s))))]\<rparr>"
  have "bar_exec (dbar s) (Enter i) = Some ?b"
    using enter_block [OF D(1,3) io t more] io t by (simp add: bar_exec.simps)
  with e i D enter_block [OF D(1,3) io t more] have s': "s' = s\<lparr>dbar := ?b\<rparr>"
    by (simp add: demo_exec.simps wait_status_def demo_returns_def)
  have "\<forall>e \<in> set (entered ?b). e \<le> calls"
    using inv i demo_outside [OF inv i(1) t] D by (auto simp: demo_inv_def dest!: set_update_subset_insert [THEN subsetD])
  moreover have "bar_inv_core ?b" by (rule block_inv [OF D(1) io t more])
  ultimately show ?thesis using inv i unfolding s' by (auto simp: demo_inv_def nth_list_update bumps_def)
qed

text \<open>The last thread: all others are inside, so no code is pending.\<close>

lemma demo_call_release:
  assumes inv: "demo_inv n s" and i: "i < n" "pend s ! i = None" "departed (dbar s) ! i < calls"
    and t: "thr (dbar s) ! i = Ready Outside" and one: "counter (bar (dbar s)) = 1" and e: "demo_exec s (Call i) = Some s'"
  shows "demo_inv n s'"
proof -
  note D = demo_invD [OF inv] and O = demo_outside [OF inv i(1) t]
  have io: "i < length (thr (dbar s))" using i D(2) by simp
  let ?R = "rounds (dbar s)"
  let ?b = "leave i (- 1) ((dbar s)\<lparr>entered := (entered (dbar s))[i := Suc (entered (dbar s) ! i)],
           bar := (bar (dbar s))\<lparr>counter := threshold (bar (dbar s)), cycle := cycle (bar (dbar s)) + 1\<rparr>,
           thr := cond_broadcast () (thr (dbar s)), rounds := Suc ?R\<rparr>)"
  have be: "bar_exec (dbar s) (Enter i) = Some ?b"
    using enter_release [OF D(1) one] io t by (simp add: bar_exec.simps)
  with e i D enter_release [OF D(1) one] have s': "s' = s\<lparr>dbar := ?b, pend := (pend s)[i := Some (- 1)]\<rparr>"
    by (simp add: demo_exec.simps wait_status_def demo_returns_def)
  have others: "pend s ! j = None" if "j < n" "j \<noteq> i" for j
  proof (rule ccontr)
    assume "pend s ! j \<noteq> None"
    with inv that have "thr (dbar s) ! j = Ready Outside" by (simp add: demo_inv_def)
    from demo_outside(1) [OF inv that(1) this] all_entered [OF D(1) one io O(1), of j] that D show False by simp
  qed
  then have none: "Some (- 1) \<notin> set (pend s)" using i D by (auto simp: in_set_conv_nth) (metis option.distinct(1))
  have some: "Some (- 1) \<in> set ((pend s)[i := Some (- 1)])" using i D by (simp add: set_update_memI)
  have bumps: "bumps s' = bumps s" using none some unfolding s' by (auto simp: bumps_def leave_def elim: oddE)
  have "bar_inv_core ?b" by (rule release_inv [OF D(1) io t one])
  moreover have "\<forall>e \<in> set (entered ?b). e \<le> calls"
    using inv i O D by (auto simp: demo_inv_def leave_def dest!: set_update_subset_insert [THEN subsetD])
  ultimately have "demo_inv n s'" if "\<forall>j < n. thread s' ! j = thread_at j (bumps s') (additions (departed (dbar s') ! j) (pend s' ! j))"
    using inv i O others that D unfolding s' by (auto simp: demo_inv_def nth_list_update leave_def split: if_splits)
  moreover have "thread s' ! j = thread_at j (bumps s') (additions (departed (dbar s') ! j) (pend s' ! j))" if j: "j < n" for j
  proof -
    have "thread s ! j = thread_at j (bumps s) (additions (departed (dbar s) ! j) (pend s ! j))" using inv j by (simp add: demo_inv_def)
    then show ?thesis unfolding bumps using i j D unfolding s' by (auto simp: leave_def nth_list_update additions_return)
  qed
  ultimately show ?thesis by blast
qed

lemma demo_wake:
  assumes inv: "demo_inv n s" and e: "demo_exec s (Wake i) = Some s'"
  shows "demo_inv n s'"
proof -
  note D = demo_invD [OF inv]
  from e obtain b where be: "bar_exec (dbar s) (Resume i) = Some b" by (auto simp: demo_exec.simps)
  then obtain cyc where io: "i < length (thr (dbar s))" and ti: "thr (dbar s) ! i = Ready (InLoop cyc)"
    by (auto simp: bar_exec.simps split: if_splits tstate.splits bpc.splits)
  have i: "i < n" using io D by simp
  have ok: "thr_ok (rounds (dbar s)) (Ready (InLoop cyc)) (entered (dbar s) ! i) (departed (dbar s) ! i)"
    using demo_thr_ok [OF inv i] ti by simp
  have p: "pend s ! i = None" using inv i ti by (auto simp: demo_inv_def)
  have core: "bar_inv_core b" by (rule resume_inv [OF D(1,3) be])
  show ?thesis
  proof (cases "same_cycle cyc (bar (dbar s))")
    case True
    with be e io ti have s': "b = (dbar s)\<lparr>thr := (thr (dbar s))[i := Waiting () (InLoop cyc)]\<rparr>" "s' = s\<lparr>dbar := b\<rparr>"
      by (auto simp: demo_exec.simps bar_exec.simps wait_status_def barrier_wait_resume_def demo_returns_def)
    with inv core p i show ?thesis by (auto simp: demo_inv_def nth_list_update bumps_def)
  next
    case False
    with be e io ti have s': "b = leave i 0 (dbar s)" "s' = s\<lparr>dbar := b, pend := (pend s)[i := Some 0]\<rparr>"
      by (auto simp: demo_exec.simps bar_exec.simps wait_status_def barrier_wait_resume_def demo_returns_def)
    have "Some (- 1) \<in> set ((pend s)[i := Some 0]) \<longleftrightarrow> Some (- 1) \<in> set (pend s)"
      using p i D by (auto simp: in_set_conv_nth nth_list_update) (metis option.distinct(1))
    then have bumps: "bumps s' = bumps s" unfolding s' by (simp add: bumps_def leave_def)
    have "thread s' ! j = thread_at j (bumps s') (additions (departed (dbar s') ! j) (pend s' ! j))" if j: "j < n" for j
    proof -
      have "thread s ! j = thread_at j (bumps s) (additions (departed (dbar s) ! j) (pend s ! j))" using inv j by (simp add: demo_inv_def)
      then show ?thesis unfolding bumps using i j D p unfolding s' by (auto simp: leave_def nth_list_update additions_return)
    qed
    with inv core p i D show ?thesis unfolding s' by (auto simp: demo_inv_def nth_list_update leave_def split: if_splits)
  qed
qed

text \<open>The code between the calls.\<close>

lemma demo_local_odd:
  assumes inv: "demo_inv n s" and i: "i < n" "pend s ! i = Some r" and odd: "odd (departed (dbar s) ! i)"
  shows "demo_inv n (s\<lparr>pend := (pend s)[i := None], thread := (thread s)[i := (add_increment ^^ INLOOPS) (thread s ! i)]\<rparr>)"
    (is "demo_inv n ?s")
proof -
  note D = demo_invD [OF inv]
  have "thr (dbar s) ! i = Ready Outside" using inv i by (simp add: demo_inv_def)
  from demo_outside [OF inv i(1) this] have R: "departed (dbar s) ! i = rounds (dbar s)" "odd (rounds (dbar s))" using odd by auto
  then have bumps: "bumps ?s = bumps s" "bumps s = additions (departed (dbar s) ! i) (Some r)"
    by (auto simp: bumps_def additions_def elim: oddE)
  have "thread s ! i = thread_at i (bumps s) (additions (departed (dbar s) ! i) (Some r))" using inv i by (auto simp: demo_inv_def)
  then have "(add_increment ^^ INLOOPS) (thread s ! i) = thread_at i (bumps s) (additions (departed (dbar s) ! i) None)"
    using bumps(2) odd by (simp add: INLOOPS_def add_increment_at additions_odd [of _ r])
  then show ?thesis using inv i bumps(1) by (auto simp: demo_inv_def nth_list_update split: if_splits)
qed

lemma demo_local_bump:
  assumes inv: "demo_inv n s" and i: "i < n" "pend s ! i = Some (- 1)" and even: "even (departed (dbar s) ! i)"
  shows "demo_inv n (s\<lparr>pend := (pend s)[i := None], thread := map (\<lambda>t. t\<lparr>increment := increment t + 1\<rparr>) (thread s)\<rparr>)"
    (is "demo_inv n ?s")
proof -
  note D = demo_invD [OF inv]
  have "thr (dbar s) ! i = Ready Outside" "0 < departed (dbar s) ! i" using inv i by (simp_all add: demo_inv_def)
  with demo_outside [OF inv i(1)] have R: "departed (dbar s) ! i = rounds (dbar s)" "even (rounds (dbar s))" "0 < rounds (dbar s)"
    using even by auto
  have gone: "pend s ! j \<noteq> Some (- 1)" if "j < n" "j \<noteq> i" for j using inv i that by (auto simp: demo_inv_def)
  have "Some (- 1) \<in> set (pend s)" using i D by (metis nth_mem)
  moreover have "(pend s)[i := None] ! j \<noteq> Some (- 1)" if "j < n" for j
    using gone [OF that] i D by (cases "j = i") auto
  then have "Some (- 1) \<notin> set ((pend s)[i := None])"
    unfolding in_set_conv_nth using D(4) by auto
  ultimately have bumps: "bumps ?s = Suc (bumps s)" using R(2,3) by (auto simp: bumps_def elim: evenE)
  have "thread ?s ! j = thread_at j (bumps ?s) (additions (departed (dbar ?s) ! j) (pend ?s ! j))" if j: "j < n" for j
  proof -
    have "thread s ! j = thread_at j (bumps s) (additions (departed (dbar s) ! j) (pend s ! j))" using inv j by (simp add: demo_inv_def)
    then have "thread ?s ! j = thread_at j (Suc (bumps s)) (additions (departed (dbar s) ! j) (pend s ! j))"
      using j D bump_at by simp
    then show ?thesis using bumps even i j D additions_even [of _ "Some (- 1)"] by (cases "j = i") auto
  qed
  with inv i show ?thesis by (auto simp: demo_inv_def nth_list_update split: if_splits)
qed

lemma demo_local_skip:
  assumes inv: "demo_inv n s" and i: "i < n" "pend s ! i = Some r" "r \<noteq> - 1" and even: "even (departed (dbar s) ! i)"
  shows "demo_inv n (s\<lparr>pend := (pend s)[i := None]\<rparr>)" (is "demo_inv n ?s")
proof -
  note D = demo_invD [OF inv]
  have "Some (- 1) \<in> set ((pend s)[i := None]) \<longleftrightarrow> Some (- 1) \<in> set (pend s)"
    using i D by (auto simp: in_set_conv_nth nth_list_update) (metis option.inject)
  then have bumps: "bumps ?s = bumps s" by (simp add: bumps_def)
  have "thread s ! i = thread_at i (bumps s) (additions (departed (dbar s) ! i) None)"
    using inv i additions_even [OF even, of "pend s ! i"] by (auto simp: demo_inv_def)
  with inv i bumps show ?thesis by (auto simp: demo_inv_def nth_list_update split: if_splits)
qed

lemma demo_exec_inv: "demo_inv n s \<Longrightarrow> demo_exec s e = Some s' \<Longrightarrow> demo_inv n s'"
proof (cases e)
  case (Call i)
  assume inv: "demo_inv n s" and e: "demo_exec s e = Some s'"
  from e Call have i: "i < length (pend s)" "pend s ! i = None" "departed (dbar s) ! i < calls" "thr (dbar s) ! i = Ready Outside"
    by (auto simp: demo_exec.simps bar_exec.simps split: if_splits)
  with demo_invD [OF inv] have "i < n" by simp
  with demo_call_block [OF inv _ i(2-4)] demo_call_release [OF inv _ i(2-4)] e Call show ?thesis
    by (cases "counter (bar (dbar s)) = 1") simp_all
next
  case (Wake i)
  assume "demo_inv n s" "demo_exec s e = Some s'"
  with Wake demo_wake show ?thesis by blast
next
  case (SpuriousWake i)
  assume "demo_inv n s" "demo_exec s e = Some s'"
  with SpuriousWake spurious_inv [of "dbar s" i] show ?thesis
    by (auto simp: demo_exec.simps bar_exec.simps demo_inv_def bumps_def spurious_def nth_list_update)
next
  case (Local i)
  assume inv: "demo_inv n s" and e: "demo_exec s e = Some s'"
  from e Local demo_invD [OF inv] obtain r where "i < n" "pend s ! i = Some r"
    by (auto simp: demo_exec.simps demo_local_def split: if_splits option.splits)
  with inv e Local demo_local_odd demo_local_bump demo_local_skip demo_invD [OF inv] show ?thesis
    by (auto simp: demo_exec.simps demo_local_def Let_def split: if_splits)
qed

section \<open>The joins\<close>

text \<open>What a thread has when it is over: both additions, and the last change of the increments may be yet to come.\<close>

lemma thread_over_at:
  assumes inv: "demo_inv n s" and i: "i < n" and over: "thread_over s i"
  shows "thread s ! i = thread_at i (bumps s) 2" "bumps s = (if Some (- 1) \<in> set (pend s) then 1 else 2)"
proof -
  have d: "departed (dbar s) ! i = 4" "pend s ! i = None" using over by (simp_all add: thread_over_def calls_def OUTLOOPS_def)
  have "rounds (dbar s) = 4"
    using thr_ok_departed [OF demo_thr_ok [OF inv i]] inv d by (simp add: demo_inv_def calls_def OUTLOOPS_def)
  then show "bumps s = (if Some (- 1) \<in> set (pend s) then 1 else 2)" by (simp add: bumps_def)
  show "thread s ! i = thread_at i (bumps s) 2" using inv i d by (auto simp: demo_inv_def additions_def)
qed

lemma thread_at_two: "thread_at i m 2 = \<lparr>increment = int i + int m, arrays = map (\<lambda>c. int c + 1 + int i + (int i + 1)) [0..<6]\<rparr>"
  by (simp add: thread_at_def gain_def numeral_2_eq_2 ARRAY_def add.assoc)

lemma all_over: "demo_inv n s \<Longrightarrow> (\<And>i. i < n \<Longrightarrow> thread_over s i) \<Longrightarrow> demo_over s"
  using demo_invD [of n s] by (auto simp: demo_over_def thread_over_def list_all_length)

lemma demo_over_each: "demo_inv n s \<Longrightarrow> demo_over s \<Longrightarrow> i < n \<Longrightarrow> thread_over s i"
  using demo_invD [of n s] by (auto simp: demo_over_def thread_over_def list_all_length)

lemma demo_over_elected: "demo_over s \<Longrightarrow> Some (- 1) \<notin> set (pend s)"
  by (auto simp: demo_over_def list_all_iff)

text \<open>A thread that is over stays so.\<close>

lemma departed_le_calls:
  assumes "demo_inv n s" "i < n"
  shows "departed (dbar s) ! i \<le> calls"
  using thr_ok_departed [OF demo_thr_ok [OF assms]] assms by (simp add: demo_inv_def)

lemma departed_other:
  assumes "bar_exec b e = Some b'" "e = Enter j \<or> e = Resume j" "j \<noteq> i"
  shows "departed b' ! i = departed b ! i"
  using assms by (auto simp: bar_exec.simps leave_def Let_def split: if_splits prod.splits wait_result.splits tstate.splits bpc.splits)

lemma returns_other: "j \<noteq> i \<Longrightarrow> demo_returns j r p ! i = p ! i"
  by (auto simp: demo_returns_def split: option.splits wait_result.splits)

lemma thread_over_stays:
  assumes inv: "demo_inv n s" and i: "i < n" and over: "thread_over s i" and e: "demo_exec s ev = Some s'"
  shows "thread_over s' i"
proof -
  note D = demo_invD [OF inv] and D' = departed_le_calls [OF demo_exec_inv [OF inv e] i]
  show ?thesis
  proof (cases ev)
    case (Call j)
    then have "j \<noteq> i" using e over by (auto simp: demo_exec.simps thread_over_def split: if_splits)
    with Call e over show ?thesis
      by (auto simp: demo_exec.simps thread_over_def departed_other returns_other simp del: bar_exec.simps split: if_splits)
  next
    case (Wake j)
    then obtain b where b: "bar_exec (dbar s) (Resume j) = Some b"
        "s' = s\<lparr>dbar := b, pend := demo_returns j (wait_status (dbar s) (Resume j)) (pend s)\<rparr>"
      using e by (auto simp: demo_exec.simps)
    have "\<exists>cyc. thr (dbar s) ! j = Ready (InLoop cyc)" using b(1) by (auto simp: bar_exec.simps split: if_splits tstate.splits bpc.splits)
    moreover have "thr (dbar s) ! i \<noteq> Ready (InLoop cyc)" for cyc
    proof
      assume "thr (dbar s) ! i = Ready (InLoop cyc)"
      then have "entered (dbar s) ! i = Suc calls" using demo_thr_ok [OF inv i] over by (auto simp: thread_over_def)
      moreover have "entered (dbar s) ! i \<in> set (entered (dbar s))" using D i by simp
      ultimately show False using inv by (auto simp: demo_inv_def)
    qed
    ultimately have "j \<noteq> i" by auto
    then show ?thesis using over b by (simp add: thread_over_def departed_other [OF b(1)] returns_other)
  next
    case (SpuriousWake j)
    then show ?thesis using e over by (auto simp: demo_exec.simps bar_exec.simps thread_over_def split: if_splits)
  next
    case (Local j)
    then show ?thesis using e over D i
      by (auto simp: demo_exec.simps demo_local_def thread_over_def Let_def nth_list_update split: if_splits option.splits)
  qed
qed

text \<open>
  The threads keep their invariant while \<open>main\<close> joins them; what has been printed is final but for the last change of the increments,
  which may come after the print unless all threads had been joined by then.
\<close>

definition print_ok :: "nat \<Rightarrow> nat \<Rightarrow> int \<times> int list \<Rightarrow> bool" where
  "print_ok n i p \<longleftrightarrow> fst p \<in> {int i + 1, int i + 2} \<and> (Suc i = n \<longrightarrow> fst p = int i + 2) \<and>
     snd p = map (\<lambda>c. int c + 1 + int i + (int i + 1)) [0..<6]"

definition main_inv :: "nat \<Rightarrow> demo_main \<Rightarrow> bool" where
  "main_inv n s \<longleftrightarrow> demo_inv n (demo_threads s) \<and> length (printed s) \<le> n \<and>
     (\<forall>i < length (printed s). thread_over (demo_threads s) i \<and> print_ok n i (printed s ! i)) \<and>
     (\<forall>st b. ended s = Some (st, b) \<longrightarrow> length (printed s) = n \<and> st = 0)"

lemma main_start_inv: "0 < n \<Longrightarrow> main_init n s \<Longrightarrow> main_inv n s"
  using demo_start_inv by (auto simp: main_init_def main_inv_def)

lemma print_final:
  assumes inv: "demo_inv n d" and i: "i < n" "\<And>j. j \<le> i \<Longrightarrow> thread_over d j"
  shows "print_ok n i (increment (thread d ! i), arrays (thread d ! i))"
proof -
  have "Some (- 1) \<notin> set (pend d)" if "Suc i = n"
    using all_over [OF inv] i that demo_over_elected by (metis less_Suc_eq_le)
  then show ?thesis using thread_over_at [OF inv i(1)] i(2) by (auto simp: print_ok_def thread_at_two)
qed

lemma destroy_over:
  assumes inv: "demo_inv n d" and over: "demo_over d"
  shows "fst (barrier_destroy all_ok (bar (dbar d))) = 0"
proof -
  note D = demo_invD [OF inv]
  have "entered (dbar d) ! i \<noteq> Suc (rounds (dbar d))" if "i < n" for i
  proof -
    have "departed (dbar d) ! i = calls" using demo_over_each [OF inv over that] by (simp add: thread_over_def)
    then have "rounds (dbar d) = calls" using thr_ok_departed [OF demo_thr_ok [OF inv that]] inv by (simp add: demo_inv_def)
    moreover have "entered (dbar d) ! i \<in> set (entered (dbar d))" using D that by simp
    ultimately show ?thesis using inv by (auto simp: demo_inv_def)
  qed
  then have "cnt (\<lambda>e. e = Suc (rounds (dbar d))) (entered (dbar d)) = 0"
    using D unfolding cnt_zero_iff by (metis in_set_conv_nth)
  then show ?thesis using D(1) by (simp add: bar_inv_core_def barrier_destroy_def Let_def)
qed

lemma main_exec_inv:
  assumes inv: "main_inv n s" and e: "main_exec s ev = Some s'"
  shows "main_inv n s'"
proof -
  note I = inv [unfolded main_inv_def]
  have di: "demo_inv n (demo_threads s)" using I by blast
  note D = demo_invD [OF di]
  show ?thesis
  proof (cases ev)
    case (Thread x)
    then obtain d where d: "demo_exec (demo_threads s) x = Some d" "s' = s\<lparr>demo_threads := d\<rparr>" using e by auto
    have "thread_over d i" if "i < length (printed s)" for i
      using thread_over_stays [OF di _ _ d(1)] I that by simp
    then show ?thesis using I demo_exec_inv [OF di d(1)] by (simp add: main_inv_def d(2))
  next
    case Join
    let ?i = "length (printed s)" and ?d = "demo_threads s"
    have j: "?i < n" "thread_over ?d ?i" "s' = s\<lparr>printed := printed s @ [(increment (thread ?d ! ?i), arrays (thread ?d ! ?i))]\<rparr>"
      using e Join D(5) by (auto simp: Let_def split: if_splits)
    have all: "thread_over ?d k" if "k \<le> ?i" for k using I j(2) that by (cases "k = ?i") auto
    have "ended s = None" using I j(1) by (cases "ended s") auto
    then show ?thesis using I j all print_final [OF di j(1) all] by (auto simp: main_inv_def nth_append less_Suc_eq)
  next
    case Destroy
    then have d: "length (printed s) = n" "s' = s\<lparr>ended := Some (barrier_destroy all_ok (bar (dbar (demo_threads s))))\<rparr>"
      using e D(5) by (auto simp: Let_def split: if_splits)
    have "demo_over (demo_threads s)" using all_over [OF di] I d(1) by simp
    then show ?thesis using I d destroy_over [OF di] by (auto simp: main_inv_def)
  qed
qed

interpretation demo_program: invariant_system "main_init (Suc k)" main_exec "main_inv (Suc k)" for k
  by unfold_locales (auto intro: main_start_inv main_exec_inv)

section \<open>Properties\<close>

text \<open>
  C10: the program that uses the barrier, with its library calls succeeding, in every interleaving of the threads and \<open>main\<close>. When all threads are
  through, thread \<open>i\<close> has added its increment \<open>i\<close> in the first loop and \<open>i + 1\<close> in the second, and
  every increment has gone up by two. There is no race among the threads: while one of them is about to
  change the increments, none is about to read its own. The arrays that \<open>main\<close> prints after its joins are the final ones;
  the increment it prints for a thread is the final one for the last thread, and for the others the final one or the one
  before the last change, which an elected thread that has not been joined yet may still have to make. When \<open>main\<close> destroys the barrier, every thread has been
  joined and printed, and it succeeds.
\<close>

theorem barrier_demo_result:
  assumes "reach (main_init n) main_exec s" and "0 < n"
  shows "(demo_over (demo_threads s) \<longrightarrow> (\<forall>i < n. increment (thread (demo_threads s) ! i) = int i + 2 \<and>
            arrays (thread (demo_threads s) ! i) = map (\<lambda>c. int c + 1 + int i + (int i + 1)) [0..<6])) \<and>
         (\<forall>i < n. \<forall>j < n. pend (demo_threads s) ! i \<noteq> None \<and> even (departed (dbar (demo_threads s)) ! i) \<longrightarrow>
            \<not> (pend (demo_threads s) ! j \<noteq> None \<and> odd (departed (dbar (demo_threads s)) ! j))) \<and>
         (\<forall>i < length (printed s). snd (printed s ! i) = map (\<lambda>c. int c + 1 + int i + (int i + 1)) [0..<6] \<and>
            fst (printed s ! i) \<in> {int i + 1, int i + 2} \<and> (Suc i = n \<longrightarrow> fst (printed s ! i) = int i + 2)) \<and>
         (\<forall>st b. ended s = Some (st, b) \<longrightarrow> length (printed s) = n \<and> st = 0)"
proof (intro conjI)
  let ?d = "demo_threads s"
  from assms(2) obtain k where k: "n = Suc k" by (cases n) auto
  have minv: "main_inv n s" using demo_program.reach_inv [of k s] assms(1) k by simp
  then have inv: "demo_inv n ?d" by (simp add: main_inv_def)
  show "demo_over ?d \<longrightarrow> (\<forall>i < n. increment (thread ?d ! i) = int i + 2 \<and>
      arrays (thread ?d ! i) = map (\<lambda>c. int c + 1 + int i + (int i + 1)) [0..<6])"
    using thread_over_at [OF inv] demo_over_each [OF inv] demo_over_elected [of ?d] by (simp add: thread_at_two)
  have out: "departed (dbar ?d) ! i = rounds (dbar ?d)" if "i < n" "pend ?d ! i \<noteq> None" for i
    using inv that demo_outside(2) [OF inv that(1)] by (auto simp: demo_inv_def)
  then show "\<forall>i < n. \<forall>j < n. pend ?d ! i \<noteq> None \<and> even (departed (dbar ?d) ! i) \<longrightarrow>
      \<not> (pend ?d ! j \<noteq> None \<and> odd (departed (dbar ?d) ! j))" by metis
  show "\<forall>i < length (printed s). snd (printed s ! i) = map (\<lambda>c. int c + 1 + int i + (int i + 1)) [0..<6] \<and>
      fst (printed s ! i) \<in> {int i + 1, int i + 2} \<and> (Suc i = n \<longrightarrow> fst (printed s ! i) = int i + 2)"
    "\<forall>st b. ended s = Some (st, b) \<longrightarrow> length (printed s) = n \<and> st = 0"
    using minv by (simp_all add: main_inv_def print_ok_def)
qed

definition demo_schedule :: "main_event list" where
  "demo_schedule = map Thread (concat (replicate 4 [Call 0, Call 1, Wake 0, Local 1, Local 0])) @ [Join, Join, Destroy]"

definition two_demo :: demo_main where
  "two_demo = \<lparr>demo_threads = demo_start raw_barrier 2, printed = [], ended = None\<rparr>"

lemma two_demo_reach: "run main_exec two_demo es = Some t \<Longrightarrow> reach (main_init 2) main_exec t"
  by (rule reach_by_run [of "main_init 2" two_demo]) (auto simp: main_init_def demo_init_def two_demo_def)

theorem barrier_demo_result_witness:
  "\<exists>s. run main_exec two_demo demo_schedule = Some s \<and> ended s \<noteq> None \<and> length (printed s) = 2 \<and>
     snd (printed s ! 1) = [4, 5, 6, 7, 8, 9] \<and> fst (printed s ! 1) = 3"
proof -
  have "case run main_exec two_demo demo_schedule of None \<Rightarrow> False | Some t \<Rightarrow> \<not> Option.is_none (ended t)" by code_simp
  then obtain t st b where t: "run main_exec two_demo demo_schedule = Some t" "ended t = Some (st, b)"
    by (auto split: option.splits simp: Option.is_none_def)
  note R = barrier_demo_result [OF two_demo_reach [OF t(1)] zero_less_numeral]
  have len: "length (printed t) = 2" using R t(2) by blast
  have "snd (printed t ! 1) = map (\<lambda>c. int c + 1 + int 1 + (int 1 + 1)) [0..<6] \<and> (Suc 1 = 2 \<longrightarrow> fst (printed t ! 1) = int 1 + 2)"
    using R [THEN conjunct2, THEN conjunct2, THEN conjunct1, THEN spec, of 1] unfolding len by simp
  then have "snd (printed t ! 1) = [4, 5, 6, 7, 8, 9]" "fst (printed t ! 1) = 3" by (simp_all add: upt_rec numeral_2_eq_2)
  with t len show ?thesis by simp
qed

text \<open>
  The increment that \<open>main\<close> prints is not determined: thread \<open>0\<close> can be through, joined and printed while thread \<open>1\<close>, which was elected in
  the last round, has yet to change the increments.
\<close>

lemma demo_print_races:
  "\<exists>s t. reach (main_init 2) main_exec s \<and> reach (main_init 2) main_exec t \<and>
     map fst (printed s) = [1] \<and> map fst (printed t) = [2]"
proof -
  let ?early = "map Thread (concat (replicate 3 [Call 0, Call 1, Wake 0, Local 1, Local 0]) @ [Call 0, Call 1, Wake 0, Local 0]) @ [Join]"
  let ?late = "map Thread (concat (replicate 4 [Call 0, Call 1, Wake 0, Local 1, Local 0])) @ [Join]"
  have "case run main_exec two_demo ?early of None \<Rightarrow> False | Some t \<Rightarrow> map fst (printed t) = [1]" by code_simp
  moreover have "case run main_exec two_demo ?late of None \<Rightarrow> False | Some t \<Rightarrow> map fst (printed t) = [2]" by code_simp
  ultimately obtain s t where "run main_exec two_demo ?early = Some s" "map fst (printed s) = [1]"
      "run main_exec two_demo ?late = Some t" "map fst (printed t) = [2]" by (auto split: option.splits)
  then show ?thesis using two_demo_reach [of ?early s] two_demo_reach [of ?late t] by (intro exI [of _ s] exI [of _ t] conjI)
qed

end
