(* ===== verification/Workq.thy ===== *)
theory Workq
  imports Pthread
begin

text \<open>
  The work queue manager of \<open>workq.h\<close> and \<open>workq.c\<close>. The queue is a linked list of
  \<open>workq_ele_t\<close> cells on the heap, guarded by one mutex and one condition variable. The
  operations \<open>workq_init\<close>, \<open>workq_add\<close>, \<open>workq_destroy\<close> and the server thread
  \<open>workq_server\<close> are translated branch by branch; code that waits is cut at the wait.
  \<open>wq_exec\<close> runs any number of client threads and the servers they create in every
  interleaving. In these runs \<open>pthread_create\<close> in \<open>workq_add\<close> and the timed wait of a server may fail; \<open>failed\<close> records
  that one has. The other library calls succeed. A fault (an access through \<open>NULL\<close>, a lock on a destroyed mutex) ends the process.
\<close>

section \<open>Data\<close>

type_synonym data = nat

record workq =
  wq_mutex :: syncobj
  wq_cv :: syncobj
  wq_attr :: syncobj
  wq_heap :: "data heap"
  wq_first :: ptr
  wq_last :: ptr
  wq_valid :: int
  wq_quit :: int
  wq_parallelism :: int
  wq_counter :: int
  wq_idle :: int
  wq_engine :: nat

definition WORKQ_VALID :: int where
  "WORKQ_VALID = 0xdec1992"

section \<open>Initialisation\<close>

definition workq_init :: "penv \<Rightarrow> workq \<Rightarrow> int \<Rightarrow> nat \<Rightarrow> int \<times> workq" where
  "workq_init st wq threads engine =
     (let wq = wq\<lparr>wq_attr := init_obj (st Attr_init) (wq_attr wq)\<rparr>
      in if st Attr_init \<noteq> 0 then (st Attr_init, wq)
         else if st Attr_setdetachstate \<noteq> 0 then (st Attr_setdetachstate, wq)
         else let wq = wq\<lparr>wq_mutex := init_obj (st Mutex_init) (wq_mutex wq)\<rparr>
              in if st Mutex_init \<noteq> 0 then (st Mutex_init, wq)
                 else let wq = wq\<lparr>wq_cv := init_obj (st Cond_init) (wq_cv wq)\<rparr>
                      in if st Cond_init \<noteq> 0
                         then (st Cond_init, wq\<lparr>wq_mutex := destroy_obj (st Mutex_destroy) (wq_mutex wq)\<rparr>)
                         else (0, wq\<lparr>wq_quit := 0, wq_first := None, wq_last := None,
                                     wq_parallelism := threads, wq_counter := 0, wq_idle := 0,
                                     wq_engine := engine, wq_valid := WORKQ_VALID\<rparr>))"

section \<open>Adding work\<close>

text \<open>What else the call did: woke an idle server, or created a new one.\<close>

datatype add_effect = Nothing | Signalled | Spawned

definition workq_link :: "addr \<Rightarrow> workq \<Rightarrow> fault + workq" where
  "workq_link item wq =
     (if wq_first wq = None then Inr (wq\<lparr>wq_first := Some item, wq_last := Some item\<rparr>)
      else ebind (store_next (wq_heap wq) (wq_last wq) (Some item))
             (\<lambda>h. Inr (wq\<lparr>wq_heap := h, wq_last := Some item\<rparr>)))"

text \<open>The part of \<open>workq_add\<close> behind the validity test; \<open>mem\<close> is what \<open>malloc\<close> returned.\<close>

definition workq_add_locked :: "penv \<Rightarrow> ptr \<Rightarrow> workq \<Rightarrow> data \<Rightarrow> fault + (int \<times> workq \<times> add_effect)" where
  "workq_add_locked st mem wq element =
     (case mem of
        None \<Rightarrow> Inr (ENOMEM, wq, Nothing)
      | Some item \<Rightarrow>
          if st Mutex_lock \<noteq> 0 then Inr (st Mutex_lock, wq, Nothing)
          else ebind (workq_link item
                        (wq\<lparr>wq_heap := (wq_heap wq)(item \<mapsto> \<lparr>cell_next = None, cell_data = element\<rparr>)\<rparr>))
                 (\<lambda>wq.
                    if wq_idle wq > 0 then
                      (if st Cond_signal \<noteq> 0 then Inr (st Cond_signal, wq, Nothing)
                       else Inr (0, wq, Signalled))
                    else if wq_counter wq < wq_parallelism wq then
                      (if st Create \<noteq> 0 then Inr (st Create, wq, Nothing)
                       else Inr (0, wq\<lparr>wq_counter := wq_counter wq + 1\<rparr>, Spawned))
                    else Inr (0, wq, Nothing)))"

definition workq_add :: "penv \<Rightarrow> ptr \<Rightarrow> workq \<Rightarrow> data \<Rightarrow> fault + (int \<times> workq \<times> add_effect)" where
  "workq_add st mem wq element =
     (if wq_valid wq \<noteq> WORKQ_VALID then Inr (EINVAL, wq, Nothing)
      else workq_add_locked st mem wq element)"

section \<open>The server thread\<close>

text \<open>
  Where the code goes next: into the timed wait, out to the engine with a work item (the flag
  \<open>timedout\<close> is still live), out of the thread (broadcasting on the way or not), or back to the top
  of the outer loop.
\<close>

datatype server_next = SBlock | SCall addr data bool | SExit bool | SLoop

definition server_after :: "bool \<Rightarrow> workq \<Rightarrow> workq \<times> server_next" where
  "server_after timedout wq =
     (if wq_first wq = None \<and> wq_quit wq \<noteq> 0 then
        let wq = wq\<lparr>wq_counter := wq_counter wq - 1\<rparr> in (wq, SExit (wq_counter wq = 0))
      else if wq_first wq = None \<and> timedout then
        (wq\<lparr>wq_counter := wq_counter wq - 1\<rparr>, SExit False)
      else (wq, SLoop))"

text \<open>
  Taking an item. The source tests \<open>if (wq->last = we)\<close>: an assignment, whose value is the
  non-null \<open>we\<close>, so \<open>last\<close> is cleared whatever remains in the queue.
\<close>

definition server_body :: "penv \<Rightarrow> bool \<Rightarrow> workq \<Rightarrow> fault + (workq \<times> server_next)" where
  "server_body st timedout wq =
     (case wq_first wq of
        None \<Rightarrow> Inr (server_after timedout wq)
      | Some we \<Rightarrow>
          ebind (deref (wq_heap wq) (Some we))
            (\<lambda>c. let wq = wq\<lparr>wq_first := cell_next c\<rparr>;
                     wq = wq\<lparr>wq_last := Some we\<rparr>;
                     wq = (if wq_last wq \<noteq> None then wq\<lparr>wq_last := None\<rparr> else wq)
                 in if st Mutex_unlock \<noteq> 0 then Inr (wq, SExit False)
                    else Inr (wq, SCall we (cell_data c) timedout)))"

definition server_head :: "penv \<Rightarrow> workq \<Rightarrow> fault + (workq \<times> server_next)" where
  "server_head st wq =
     (if wq_first wq = None \<and> wq_quit wq = 0 then Inr (wq\<lparr>wq_idle := wq_idle wq + 1\<rparr>, SBlock)
      else server_body st False wq)"

text \<open>The entry of the thread: a server that cannot lock returns at once.\<close>

definition workq_server :: "penv \<Rightarrow> workq \<Rightarrow> fault + (workq \<times> server_next)" where
  "workq_server st wq = (if st Mutex_lock \<noteq> 0 then Inr (wq, SExit False) else server_head st wq)"

definition server_resume :: "penv \<Rightarrow> int \<Rightarrow> workq \<Rightarrow> fault + (workq \<times> server_next)" where
  "server_resume st status wq =
     (let wq = wq\<lparr>wq_idle := wq_idle wq - 1\<rparr>
      in if status = ETIMEDOUT then server_body st True wq
         else if status \<noteq> 0 then Inr (wq\<lparr>wq_counter := wq_counter wq - 1\<rparr>, SExit False)
         else if wq_first wq = None \<and> wq_quit wq = 0 then Inr (wq\<lparr>wq_idle := wq_idle wq + 1\<rparr>, SBlock)
         else server_body st False wq)"

text \<open>The engine has returned: the item is freed, the mutex locked again.\<close>

definition server_done :: "penv \<Rightarrow> addr \<Rightarrow> bool \<Rightarrow> workq \<Rightarrow> workq \<times> server_next" where
  "server_done st we timedout wq =
     (let wq = wq\<lparr>wq_heap := (wq_heap wq)(we := None)\<rparr>
      in if st Mutex_lock \<noteq> 0 then (wq, SExit False) else server_after timedout wq)"

text \<open>\<open>SLoop\<close> continues at the top of the outer loop without giving up the mutex.\<close>

definition server_cont :: "penv \<Rightarrow> workq \<times> server_next \<Rightarrow> fault + (workq \<times> server_next)" where
  "server_cont st r = (case r of (wq, SLoop) \<Rightarrow> server_head st wq | _ \<Rightarrow> Inr r)"

section \<open>Destroying the queue\<close>

datatype destroy_next = DReturn int | DBlock

definition destroy_finish :: "penv \<Rightarrow> workq \<Rightarrow> workq \<times> destroy_next" where
  "destroy_finish st wq =
     (if st Mutex_unlock \<noteq> 0 then (wq, DReturn (st Mutex_unlock))
      else (wq\<lparr>wq_mutex := destroy_obj (st Mutex_destroy) (wq_mutex wq),
               wq_cv := destroy_obj (st Cond_destroy) (wq_cv wq)\<rparr>, DReturn (st Mutex_destroy)))"

definition destroy_wait :: "penv \<Rightarrow> workq \<Rightarrow> workq \<times> destroy_next" where
  "destroy_wait st wq = (if wq_counter wq > 0 then (wq, DBlock) else destroy_finish st wq)"

text \<open>The part behind the validity test; the last component says that \<open>cv\<close> was broadcast.\<close>

definition workq_destroy_locked :: "penv \<Rightarrow> workq \<Rightarrow> (workq \<times> destroy_next) \<times> bool" where
  "workq_destroy_locked st wq =
     (if st Mutex_lock \<noteq> 0 then ((wq, DReturn (st Mutex_lock)), False)
      else let wq = wq\<lparr>wq_valid := 0\<rparr>
           in if wq_counter wq > 0 then
                let wq = wq\<lparr>wq_quit := 1\<rparr>
                in if wq_idle wq > 0 then
                     (if st Cond_broadcast \<noteq> 0 then ((wq, DReturn (st Cond_broadcast)), False)
                      else (destroy_wait st wq, True))
                   else (destroy_wait st wq, False)
              else (destroy_finish st wq, False))"

definition workq_destroy :: "penv \<Rightarrow> workq \<Rightarrow> (workq \<times> destroy_next) \<times> bool" where
  "workq_destroy st wq =
     (if wq_valid wq \<noteq> WORKQ_VALID then ((wq, DReturn EINVAL), False)
      else workq_destroy_locked st wq)"

definition workq_destroy_resume :: "penv \<Rightarrow> int \<Rightarrow> workq \<Rightarrow> workq \<times> destroy_next" where
  "workq_destroy_resume st status wq =
     (if status \<noteq> 0 then (wq, DReturn status) else destroy_wait st wq)"

section \<open>Clients and servers running together\<close>

text \<open>
  Program points of clients (\<open>CAdd\<close> and \<open>CDestroyLock\<close> have passed the validity test, which is
  made without the mutex; \<open>CDestroyWait\<close> is the wait for the servers to leave) and of servers.
\<close>

datatype wq_pc =
    CIdle | CAdd data | CDestroyLock | CDestroyWait
  | SStart | SWait bool | SEngine addr data bool

text \<open>
  \<open>added\<close>, \<open>taken\<close> and \<open>served\<close> record the data queued, dequeued and run through the engine; \<open>failed\<close> records that
  the creation of a server or the wait of a server has failed.
\<close>

record wq_sys =
  wq :: workq
  thr :: "(unit, wq_pc) tstate list"
  crash :: "fault option"
  added :: "data list"
  taken :: "data list"
  served :: "data list"
  failed :: bool

datatype wq_event =
    CallAdd nat data | AddLocked nat ptr nat | AddNoServer nat ptr
  | CallDestroy nat | DestroyLocked nat | DestroyResume nat
  | ServerStart nat | ServerResume nat | ServerDone nat
  | Timeout nat | WaitFails nat | Spurious nat

definition at :: "wq_sys \<Rightarrow> nat \<Rightarrow> (unit, wq_pc) tstate \<Rightarrow> bool" where
  "at s i t \<longleftrightarrow> i < length (thr s) \<and> thr s ! i = t"

text \<open>Locking the mutex after it has been destroyed is a fault.\<close>

definition locked :: "wq_sys \<Rightarrow> wq_sys option \<Rightarrow> wq_sys option" where
  "locked s r = (if wq_mutex (wq s) = Live then r else Some (s\<lparr>crash := Some UseDestroyed\<rparr>))"

fun server_put :: "nat \<Rightarrow> fault + (workq \<times> server_next) \<Rightarrow> wq_sys \<Rightarrow> wq_sys" where
  "server_put i (Inl f) s = s\<lparr>crash := Some f\<rparr>"
| "server_put i (Inr (q, SBlock)) s = s\<lparr>wq := q, thr := (thr s)[i := Waiting () (SWait False)]\<rparr>"
| "server_put i (Inr (q, SCall we d timedout)) s =
     s\<lparr>wq := q, thr := (thr s)[i := Ready (SEngine we d timedout)], taken := taken s @ [d]\<rparr>"
| "server_put i (Inr (q, SExit bc)) s =
     s\<lparr>wq := q, thr := (if bc then cond_broadcast () ((thr s)[i := Finished]) else (thr s)[i := Finished])\<rparr>"
| "server_put i (Inr (q, SLoop)) s = s\<lparr>wq := q, thr := (thr s)[i := Ready SStart]\<rparr>"

definition destroy_put :: "nat \<Rightarrow> (workq \<times> destroy_next) \<times> bool \<Rightarrow> wq_sys \<Rightarrow> wq_sys" where
  "destroy_put i r s =
     (case r of ((q, nx), bc) \<Rightarrow>
        let s = s\<lparr>wq := q, thr := (if bc then cond_broadcast () (thr s) else thr s)\<rparr>
        in s\<lparr>thr := (thr s)[i := (case nx of DBlock \<Rightarrow> Waiting () CDestroyWait | DReturn _ \<Rightarrow> Ready CIdle)]\<rparr>)"

definition add_put :: "nat \<Rightarrow> nat \<Rightarrow> data \<Rightarrow> fault + (int \<times> workq \<times> add_effect) \<Rightarrow> wq_sys \<Rightarrow> wq_sys option" where
  "add_put i j d r s =
     (case r of
        Inl f \<Rightarrow> Some (s\<lparr>crash := Some f\<rparr>)
      | Inr (status, q, eff) \<Rightarrow>
          let ts = (thr s)[i := Ready CIdle];
              s = s\<lparr>wq := q, added := (if status = ENOMEM then added s else added s @ [d])\<rparr>
          in case eff of
               Nothing \<Rightarrow> Some (s\<lparr>thr := ts\<rparr>)
             | Signalled \<Rightarrow> if signal_ok () j ts then Some (s\<lparr>thr := cond_signal () j ts\<rparr>) else None
             | Spawned \<Rightarrow> Some (s\<lparr>thr := ts @ [Ready SStart]\<rparr>))"

text \<open>\<open>malloc\<close> returns \<open>NULL\<close> or an address that is not in use.\<close>

definition malloc_ok :: "'a heap \<Rightarrow> ptr \<Rightarrow> bool" where
  "malloc_ok h mem \<longleftrightarrow> (case mem of None \<Rightarrow> True | Some p \<Rightarrow> h p = None)"

text \<open>The calls when \<open>pthread_create\<close> fails, with \<open>EAGAIN\<close>.\<close>

definition no_thread :: penv where
  "no_thread = all_ok(Create := 11)"

fun wq_step :: "wq_sys \<Rightarrow> wq_event \<Rightarrow> wq_sys option" where
  "wq_step s (CallAdd i d) =
     (if at s i (Ready CIdle) then
        Some (if wq_valid (wq s) \<noteq> WORKQ_VALID then s else s\<lparr>thr := (thr s)[i := Ready (CAdd d)]\<rparr>)
      else None)"
| "wq_step s (AddLocked i mem j) =
     (if i < length (thr s) \<and> malloc_ok (wq_heap (wq s)) mem then
        case thr s ! i of
          Ready (CAdd d) \<Rightarrow> locked s (add_put i j d (workq_add_locked all_ok mem (wq s) d) s)
        | _ \<Rightarrow> None
      else None)"
| "wq_step s (AddNoServer i mem) =
     (if i < length (thr s) \<and> mem \<noteq> None \<and> malloc_ok (wq_heap (wq s)) mem \<and>
         \<not> wq_idle (wq s) > 0 \<and> wq_counter (wq s) < wq_parallelism (wq s) then
        case thr s ! i of
          Ready (CAdd d) \<Rightarrow> locked s (add_put i 0 d (workq_add_locked no_thread mem (wq s) d) (s\<lparr>failed := True\<rparr>))
        | _ \<Rightarrow> None
      else None)"
| "wq_step s (CallDestroy i) =
     (if at s i (Ready CIdle) then
        Some (if wq_valid (wq s) \<noteq> WORKQ_VALID then s else s\<lparr>thr := (thr s)[i := Ready CDestroyLock]\<rparr>)
      else None)"
| "wq_step s (DestroyLocked i) =
     (if at s i (Ready CDestroyLock)
      then locked s (Some (destroy_put i (workq_destroy_locked all_ok (wq s)) s)) else None)"
| "wq_step s (DestroyResume i) =
     (if at s i (Ready CDestroyWait)
      then locked s (Some (destroy_put i (workq_destroy_resume all_ok 0 (wq s), False) s)) else None)"
| "wq_step s (ServerStart i) =
     (if at s i (Ready SStart) then locked s (Some (server_put i (workq_server all_ok (wq s)) s)) else None)"
| "wq_step s (ServerResume i) =
     (if i < length (thr s) then
        case thr s ! i of
          Ready (SWait timedout) \<Rightarrow>
            locked s (Some (server_put i
              (ebind (server_resume all_ok (if timedout then ETIMEDOUT else 0) (wq s)) (server_cont all_ok)) s))
        | _ \<Rightarrow> None
      else None)"
| "wq_step s (ServerDone i) =
     (if i < length (thr s) then
        case thr s ! i of
          Ready (SEngine we d timedout) \<Rightarrow>
            locked s (Some (server_put i (server_cont all_ok (server_done all_ok we timedout (wq s)))
              (s\<lparr>served := served s @ [d]\<rparr>)))
        | _ \<Rightarrow> None
      else None)"
| "wq_step s (Timeout i) =
     (if i < length (thr s) then
        case thr s ! i of
          Waiting c (SWait _) \<Rightarrow> Some (s\<lparr>thr := (thr s)[i := Ready (SWait True)]\<rparr>)
        | _ \<Rightarrow> None
      else None)"
| "wq_step s (WaitFails i) =
     (if i < length (thr s) then
        case thr s ! i of
          Waiting c (SWait _) \<Rightarrow> locked s (Some (server_put i (server_resume all_ok EINVAL (wq s)) (s\<lparr>failed := True\<rparr>)))
        | _ \<Rightarrow> None
      else None)"
| "wq_step s (Spurious i) = Some (s\<lparr>thr := spurious i () (thr s)\<rparr>)"

definition wq_exec :: "wq_sys \<Rightarrow> wq_event \<Rightarrow> wq_sys option" where
  "wq_exec s e = (if crash s = None then wq_step s e else None)"

text \<open>The start: an initialised queue that allows at least one server, and idle clients.\<close>

definition wq_start :: "workq \<Rightarrow> int \<Rightarrow> nat \<Rightarrow> nat \<Rightarrow> wq_sys" where
  "wq_start q threads engine n =
     \<lparr>wq = snd (workq_init all_ok q threads engine), thr = replicate n (Ready CIdle), crash = None,
      added = [], taken = [], served = [], failed = False\<rparr>"

definition wq_init :: "wq_sys \<Rightarrow> bool" where
  "wq_init s \<longleftrightarrow> (\<exists>q threads engine n. 0 < threads \<and> s = wq_start q threads engine n)"

section \<open>One round of the server\<close>

text \<open>
  Whatever the entry point, a server that holds the mutex ends its round in one of three ways;
  with the calls succeeding it never returns to the loop top without blocking or taking an item.
\<close>

inductive outcome :: "workq \<Rightarrow> workq \<Rightarrow> server_next \<Rightarrow> bool" where
  block: "wq_first q = None \<Longrightarrow> wq_quit q = 0 \<Longrightarrow> outcome q (q\<lparr>wq_idle := wq_idle q + 1\<rparr>) SBlock"
| call: "wq_first q = Some we \<Longrightarrow> wq_heap q we = Some c \<Longrightarrow>
     outcome q (q\<lparr>wq_first := cell_next c, wq_last := None\<rparr>) (SCall we (cell_data c) timedout)"
| exit: "wq_first q = None \<Longrightarrow>
     outcome q (q\<lparr>wq_counter := wq_counter q - 1\<rparr>) (SExit (wq_quit q \<noteq> 0 \<and> wq_counter q = 1))"

inductive_cases outcome_blockE [elim!]: "outcome q q' SBlock"
inductive_cases outcome_callE [elim!]: "outcome q q' (SCall we d timedout)"
inductive_cases outcome_exitE [elim!]: "outcome q q' (SExit b)"
inductive_cases outcome_loopE [elim!]: "outcome q q' SLoop"

lemma server_body_call:
  "wq_first q = Some we \<Longrightarrow> server_body all_ok timedout q = Inr (q', nx) \<Longrightarrow> outcome q q' nx"
  by (auto simp: server_body_def split: option.splits intro: outcome.intros)

lemma server_head_outcome: "server_head all_ok q = Inr (q', nx) \<Longrightarrow> outcome q q' nx"
  using outcome.exit [of q]
  by (cases "wq_first q")
     (auto simp: server_head_def server_body_def server_after_def Let_def
       intro: outcome.intros split: if_splits option.splits)

lemma workq_server_outcome: "workq_server all_ok q = Inr (q', nx) \<Longrightarrow> outcome q q' nx"
  by (simp add: workq_server_def server_head_outcome)

lemma server_after_outcome:
  assumes "server_cont all_ok (server_after timedout q) = Inr (q', nx)"
  shows "outcome q q' nx"
proof (cases "wq_first q = None \<and> (wq_quit q \<noteq> 0 \<or> timedout)")
  case True
  with assms show ?thesis using outcome.exit [of q]
    by (auto simp: server_cont_def server_after_def Let_def split: if_splits)
next
  case False
  then have "server_after timedout q = (q, SLoop)" by (auto simp: server_after_def)
  with assms show ?thesis by (simp add: server_cont_def server_head_outcome)
qed

lemma server_resume_outcome:
  assumes "ebind (server_resume all_ok (if timedout then ETIMEDOUT else 0) q) (server_cont all_ok) = Inr (q', nx)"
  shows "outcome (q\<lparr>wq_idle := wq_idle q - 1\<rparr>) q' nx"
proof -
  let ?q = "q\<lparr>wq_idle := wq_idle q - 1\<rparr>"
  have eq: "server_resume all_ok (if timedout then ETIMEDOUT else 0) q =
      (if timedout then server_body all_ok True ?q else server_head all_ok ?q)"
    by (simp add: server_resume_def server_head_def ETIMEDOUT_def Let_def)
  from assms obtain r where r: "server_resume all_ok (if timedout then ETIMEDOUT else 0) q = Inr r"
    "server_cont all_ok r = Inr (q', nx)" by auto
  have cont: "outcome q1 q2 n \<Longrightarrow> server_cont all_ok (q2, n) = Inr (q2, n)" for q1 q2 n
    by (cases n) (auto simp: server_cont_def)
  show ?thesis
  proof (cases "wq_first q")
    case None
    with r eq show ?thesis
      using server_after_outcome [of True ?q] server_head_outcome [of ?q] cont [of ?q]
      by (cases r) (auto simp: server_body_def split: if_splits)
  next
    case (Some we)
    with r eq have "outcome ?q (fst r) (snd r)"
      using server_body_call [of ?q we _ "fst r" "snd r"] server_head_outcome [of ?q "fst r" "snd r"]
      by (cases r) (auto split: if_splits)
    with r(2) cont [of ?q "fst r" "snd r"] show ?thesis by (cases r) auto
  qed
qed

lemma server_done_outcome:
  "server_cont all_ok (server_done all_ok we timedout q) = Inr (q', nx) \<Longrightarrow>
     outcome (q\<lparr>wq_heap := (wq_heap q)(we := None)\<rparr>) q' nx"
  by (simp add: server_done_def Let_def server_after_outcome)

section \<open>The invariant\<close>

fun pc_of :: "('c, 'p) tstate \<Rightarrow> 'p option" where
  "pc_of (Ready p) = Some p"
| "pc_of (Waiting c p) = Some p"
| "pc_of Finished = None"

definition is_server :: "(unit, wq_pc) tstate \<Rightarrow> bool" where
  "is_server t \<longleftrightarrow> (case pc_of t of
     Some SStart \<Rightarrow> True | Some (SWait _) \<Rightarrow> True | Some (SEngine _ _ _) \<Rightarrow> True | _ \<Rightarrow> False)"

definition is_idle :: "(unit, wq_pc) tstate \<Rightarrow> bool" where
  "is_idle t \<longleftrightarrow> (case pc_of t of Some (SWait _) \<Rightarrow> True | _ \<Rightarrow> False)"

lemma server_simps [simp]:
  "is_server (Ready CIdle) = False" "is_server (Ready (CAdd d)) = False"
  "is_server (Ready CDestroyLock) = False" "is_server (Ready CDestroyWait) = False"
  "is_server (Waiting c CDestroyWait) = False"
  "is_server Finished = False" "is_server (Ready SStart)" "is_server (Ready (SWait b))"
  "is_server (Waiting c (SWait b))" "is_server (Ready (SEngine we d b))"
  "is_idle (Ready CIdle) = False" "is_idle (Ready (CAdd d)) = False"
  "is_idle (Ready CDestroyLock) = False" "is_idle (Ready CDestroyWait) = False"
  "is_idle (Waiting c CDestroyWait) = False"
  "is_idle Finished = False" "is_idle (Ready SStart) = False" "is_idle (Ready (SWait b))"
  "is_idle (Waiting c (SWait b))" "is_idle (Ready (SEngine we d b)) = False"
  by (simp_all add: is_server_def is_idle_def)

lemma wake_stable_server [simp]: "wake_stable is_server" "wake_stable is_idle"
  by (auto intro!: wake_stableI simp: is_server_def is_idle_def)

text \<open>What each thread may be doing, given the quit flag.\<close>

fun thr_ok :: "int \<Rightarrow> (unit, wq_pc) tstate \<Rightarrow> bool" where
  "thr_ok quit (Waiting _ (SWait b)) = (quit = 0 \<and> \<not> b)"
| "thr_ok quit (Waiting _ CDestroyWait) = (quit \<noteq> 0)"
| "thr_ok quit (Ready CDestroyWait) = (quit \<noteq> 0)"
| "thr_ok quit (Waiting _ _) = False"
| "thr_ok quit _ = True"

definition ready_server :: "(unit, wq_pc) tstate \<Rightarrow> bool" where
  "ready_server t \<longleftrightarrow> is_server t \<and> (\<exists>p. t = Ready p)"

text \<open>
  The counters of the queue count the threads; a queued item has a server awake to
  serve it unless a call has failed; a destroyed queue has no server left.
\<close>

definition wq_counts :: "wq_sys \<Rightarrow> bool" where
  "wq_counts s \<longleftrightarrow>
     wq_counter (wq s) = cnt is_server (thr s) \<and>
     wq_idle (wq s) = cnt is_idle (thr s) \<and>
     wq_counter (wq s) \<le> wq_parallelism (wq s) \<and> 0 < wq_parallelism (wq s) \<and>
     list_all (thr_ok (wq_quit (wq s))) (thr s) \<and>
     (wq_first (wq s) \<noteq> None \<longrightarrow> \<not> failed s \<longrightarrow> 0 < cnt ready_server (thr s)) \<and>
     (wq_mutex (wq s) = Live \<or>
      wq_mutex (wq s) = Destroyed \<and> wq_counter (wq s) = 0 \<and> (failed s \<or> wq_first (wq s) = None))"

lemma wq_thr_ok_wake: "thr_ok quit t \<Longrightarrow> thr_ok quit (wake c t)"
  by (induction quit t rule: thr_ok.induct) auto

lemma thr_ok_quit: "thr_ok 0 t \<Longrightarrow> thr_ok 1 (wake () t)"
  by (induction "0 :: int" t rule: thr_ok.induct) auto

lemma thr_ok_no_wait: "thr_ok quit t \<Longrightarrow> \<not> is_idle t \<Longrightarrow> thr_ok quit' t \<or> quit = 0 \<or> quit' = 0"
  by (induction quit t rule: thr_ok.induct) auto

lemma wake_mono_ready [simp]: "wake_mono ready_server"
proof -
  have "ready_server t \<Longrightarrow> ready_server (wake c t)" for c and t :: "(unit, wq_pc) tstate"
    by (cases t) (auto simp: ready_server_def)
  then show ?thesis by (simp add: wake_mono_def)
qed

lemma ready_simps [simp]:
  "ready_server (Ready p) = is_server (Ready p)" "\<not> ready_server (Waiting c p)"
  "\<not> ready_server Finished"
  by (simp_all add: ready_server_def)

lemma wq_start_counts: "wq_init s \<Longrightarrow> wq_counts s"
  by (auto simp: wq_init_def wq_start_def wq_counts_def workq_init_def sync_defs Let_def cnt_replicate
      list_all_length)

text \<open>A server's round keeps the counts, from a state in which it is at the loop top.\<close>

lemma outcome_counts:
  assumes inv: "wq_counts s" and i: "i < length (thr s)" "thr s ! i = Ready SStart"
    and o1: "outcome (wq s) q nx" and live: "wq_mutex (wq s) = Live"
  shows "wq_counts (server_put i (Inr (q, nx)) s)"
  using o1
proof cases
  case block
  with inv i live show ?thesis by (auto simp: wq_counts_def cnt_upd intro!: list_all_upd)
next
  case (call we c timedout)
  with inv i live show ?thesis
    using cnt_pos [OF i(1), of ready_server]
    by (auto simp: wq_counts_def cnt_upd intro!: list_all_upd)
next
  case exit
  with inv i live show ?thesis
    by (auto simp: wq_counts_def cnt_upd cnt_broadcast intro!: list_all_upd list_all_cond wq_thr_ok_wake)
qed

lemma server_put_overwrite:
  "server_put i (Inr r) (s\<lparr>wq := q, thr := (thr s)[i := t]\<rparr>) = server_put i (Inr r) s"
proof -
  obtain q' nx where "r = (q', nx)" by (cases r)
  then show ?thesis by (cases nx) auto
qed

lemma server_round_counts:
  assumes inv: "wq_counts (s\<lparr>wq := q, thr := (thr s)[i := Ready SStart]\<rparr>)"
    and i: "i < length (thr s)" and live: "wq_mutex q = Live"
    and r: "\<And>q' nx. r = Inr (q', nx) \<Longrightarrow> outcome q q' nx"
    and ok: "crash (server_put i r s) = None"
  shows "wq_counts (server_put i r s)"
proof -
  obtain q' nx where r': "r = Inr (q', nx)" using ok by (cases r) auto
  let ?s = "s\<lparr>wq := q, thr := (thr s)[i := Ready SStart]\<rparr>"
  have "wq_counts (server_put i (Inr (q', nx)) ?s)"
    by (rule outcome_counts [OF inv]) (use i live r [OF r'] in auto)
  then show ?thesis by (simp add: server_put_overwrite r')
qed

lemma resume_pre:
  "wq_counts s \<Longrightarrow> i < length (thr s) \<Longrightarrow> thr s ! i = Ready (SWait b) \<Longrightarrow>
   wq_counts (s\<lparr>wq := (wq s)\<lparr>wq_idle := wq_idle (wq s) - 1\<rparr>, thr := (thr s)[i := Ready SStart]\<rparr>)"
  by (auto simp: wq_counts_def cnt_upd intro!: list_all_upd)

lemma done_pre:
  "wq_counts s \<Longrightarrow> i < length (thr s) \<Longrightarrow> thr s ! i = Ready (SEngine we d b) \<Longrightarrow>
   wq_counts (s\<lparr>served := ds, wq := (wq s)\<lparr>wq_heap := h\<rparr>, thr := (thr s)[i := Ready SStart]\<rparr>)"
  by (auto simp: wq_counts_def cnt_upd intro!: list_all_upd)

lemma start_pre:
  "wq_counts s \<Longrightarrow> thr s ! i = Ready SStart \<Longrightarrow>
   wq_counts (s\<lparr>wq := wq s, thr := (thr s)[i := Ready SStart]\<rparr>)"
  by (simp add: wq_counts_def list_update_same_conv) (metis list_update_id)

lemma is_idle_cases: "is_idle t \<Longrightarrow> (\<exists>b. t = Ready (SWait b)) \<or> (\<exists>b. t = Waiting () (SWait b))"
  by (cases t) (auto simp: is_idle_def split: wq_pc.splits)

lemma ready_if_busy:
  assumes "list_all (thr_ok quit) ts" and "cnt is_idle ts \<le> 0" and "0 < cnt is_server ts"
  shows "0 < cnt ready_server ts"
proof -
  have "cnt is_idle ts = 0" using assms(2) cnt_nonneg [of is_idle ts] by linarith
  then have idle: "\<forall>t \<in> set ts. \<not> is_idle t" by (simp add: cnt_zero_iff)
  from assms(3) obtain t where t: "t \<in> set ts" "is_server t" by (rule cnt_pos_obtain)
  with idle assms(1) have "thr_ok quit t" "\<not> is_idle t" by (auto simp: list_all_iff)
  with t(2) have "ready_server t" by (cases "(quit, t)" rule: thr_ok.cases) (auto simp: ready_server_def)
  with t(1) show ?thesis by (rule cnt_pos_set)
qed

lemma ready_if_signalled:
  assumes ok: "list_all (thr_ok quit) ts" and idle: "0 < cnt is_idle ts" and sig: "signal_ok () j ts"
  shows "0 < cnt ready_server (cond_signal () j ts)"
proof (cases "0 < cnt ready_server ts")
  case True
  then show ?thesis using cnt_wake_mono(2) [OF wake_mono_ready, of ts "()" j] by linarith
next
  case False
  from idle obtain t where t: "t \<in> set ts" "is_idle t" by (rule cnt_pos_obtain)
  have "\<not> ready_server t" using False cnt_pos_set [OF t(1), of ready_server] by blast
  with t(2) obtain b where tb: "t = Waiting () (SWait b)" by (auto dest: is_idle_cases)
  with t(1) ok have w: "quit = 0" by (auto simp: list_all_iff)
  with sig t(1) have j: "j < length ts" "is_waiting () (ts ! j)"
    using tb by (auto simp: signal_ok_def list_ex_iff)
  then have "thr_ok 0 (ts ! j)" using ok w by (simp add: list_all_length)
  with j(2) obtain b where "ts ! j = Waiting () (SWait b)"
    by (cases "(0 :: int, ts ! j)" rule: thr_ok.cases) auto
  with j(1) have "cond_signal () j ts ! j = Ready (SWait b)" by (simp add: cond_signal_def)
  then show ?thesis using cnt_pos [of j "cond_signal () j ts" ready_server] j(1) by simp
qed


lemma locked_cases:
  assumes "locked s r = Some t" and "crash t = None" and "crash s = None"
  shows "wq_mutex (wq s) = Live \<and> r = Some t"
  using assms by (auto simp: locked_def split: if_splits)

lemma link_fields:
  assumes "workq_link item q = Inr q'"
  shows "wq_idle q' = wq_idle q" "wq_counter q' = wq_counter q" "wq_parallelism q' = wq_parallelism q"
    "wq_quit q' = wq_quit q" "wq_mutex q' = wq_mutex q" "wq_first q' \<noteq> None"
  using assms by (auto simp: workq_link_def split: if_splits)

lemma add_counts:
  assumes inv: "wq_counts s" and i: "i < length (thr s)" and c: "thr s ! i = Ready (CAdd d)"
    and live: "wq_mutex (wq s) = Live" and ok: "crash t = None" "crash s = None"
    and r: "add_put i j d (workq_add_locked all_ok mem (wq s) d) s = Some t"
  shows "wq_counts t"
proof (cases mem)
  case None
  with r inv i c show ?thesis
    by (auto simp: add_put_def workq_add_locked_def wq_counts_def cnt_upd Let_def intro!: list_all_upd)
next
  case (Some item)
  let ?q0 = "(wq s)\<lparr>wq_heap := (wq_heap (wq s))(item \<mapsto> \<lparr>cell_next = None, cell_data = d\<rparr>)\<rparr>"
  let ?ts = "(thr s)[i := Ready CIdle]"
  from r Some ok obtain q where q: "workq_link item ?q0 = Inr q"
    by (cases "workq_link item ?q0") (auto simp: add_put_def workq_add_locked_def)
  note f = link_fields [OF q]
  have ts: "list_all (thr_ok (wq_quit (wq s))) ?ts" "cnt is_server ?ts = cnt is_server (thr s)"
    "cnt is_idle ?ts = cnt is_idle (thr s)" "cnt ready_server ?ts = cnt ready_server (thr s)"
    using inv i c by (auto simp: wq_counts_def cnt_upd intro!: list_all_upd)
  show ?thesis
  proof (cases "0 < wq_idle q")
    case True
    with r Some q have "signal_ok () j ?ts" and t: "t = s\<lparr>wq := q, added := added s @ [d], thr := cond_signal () j ?ts\<rparr>"
      by (auto simp: add_put_def workq_add_locked_def ENOMEM_def Let_def split: if_splits)
    moreover have "0 < cnt is_idle ?ts" using True f ts inv by (simp add: wq_counts_def)
    ultimately show ?thesis
      using inv f ts live ready_if_signalled [OF ts(1)]
      by (auto simp: wq_counts_def cnt_signal intro!: list_all_cond wq_thr_ok_wake)
  next
    case busy: False
    show ?thesis
    proof (cases "wq_counter q < wq_parallelism q")
      case True
      with busy r Some q have t: "t = s\<lparr>wq := q\<lparr>wq_counter := wq_counter q + 1\<rparr>, added := added s @ [d], thr := ?ts @ [Ready SStart]\<rparr>"
        by (auto simp: add_put_def workq_add_locked_def ENOMEM_def Let_def)
      with inv f ts live True show ?thesis by (auto simp: wq_counts_def intro: add_nonneg_pos)
    next
      case False
      with busy r Some q have t: "t = s\<lparr>wq := q, added := added s @ [d], thr := ?ts\<rparr>"
        by (auto simp: add_put_def workq_add_locked_def ENOMEM_def Let_def)
      have "0 < cnt ready_server ?ts"
        by (rule ready_if_busy [OF ts(1)]) (use busy False f ts inv in \<open>auto simp: wq_counts_def\<close>)
      with t inv f ts live show ?thesis by (auto simp: wq_counts_def)
    qed
  qed
qed

lemma add_no_server_counts:
  assumes inv: "wq_counts s" and i: "i < length (thr s)" and c: "thr s ! i = Ready (CAdd d)"
    and g: "mem = Some item" "\<not> wq_idle (wq s) > 0" "wq_counter (wq s) < wq_parallelism (wq s)"
    and live: "wq_mutex (wq s) = Live" and ok: "crash t = None" "crash s = None"
    and r: "add_put i 0 d (workq_add_locked no_thread mem (wq s) d) (s\<lparr>failed := True\<rparr>) = Some t"
  shows "wq_counts t"
proof -
  let ?q0 = "(wq s)\<lparr>wq_heap := (wq_heap (wq s))(item \<mapsto> \<lparr>cell_next = None, cell_data = d\<rparr>)\<rparr>"
  from r g ok obtain q where q: "workq_link item ?q0 = Inr q"
    by (cases "workq_link item ?q0") (auto simp: add_put_def workq_add_locked_def no_thread_def)
  note f = link_fields [OF q]
  have "t = s\<lparr>failed := True, wq := q, added := added s @ [d], thr := (thr s)[i := Ready CIdle]\<rparr>"
    using r g q f by (auto simp: add_put_def workq_add_locked_def no_thread_def ENOMEM_def Let_def)
  then show ?thesis using inv i c f live by (auto simp: wq_counts_def cnt_upd intro!: list_all_upd)
qed

lemma wait_fails: "server_resume all_ok EINVAL q = Inr (q\<lparr>wq_idle := wq_idle q - 1, wq_counter := wq_counter q - 1\<rparr>, SExit False)"
  by (simp add: server_resume_def errno_defs Let_def)

lemma destroy_finish_counts:
  assumes inv: "wq_counts s" and i: "i < length (thr s)" "\<not> is_server (thr s ! i)" "\<not> is_idle (thr s ! i)"
    and zero: "wq_counter (wq s) \<le> 0" and live: "wq_mutex (wq s) = Live"
  shows "wq_counts (destroy_put i (destroy_finish all_ok (wq s), False) s)"
proof -
  have z: "wq_counter (wq s) = 0" using inv zero cnt_nonneg [of is_server "thr s"]
    by (auto simp: wq_counts_def)
  then have "cnt ready_server (thr s) = 0"
    using inv cnt_mono [of ready_server is_server "thr s"] cnt_nonneg [of ready_server "thr s"]
    by (auto simp: wq_counts_def ready_server_def)
  with inv have "failed s \<or> wq_first (wq s) = None" by (auto simp: wq_counts_def)
  with inv i z show ?thesis
    by (auto simp: destroy_put_def destroy_finish_def wq_counts_def cnt_upd sync_defs ready_server_def
        intro!: list_all_upd)
qed

lemma destroy_resume_counts:
  assumes inv: "wq_counts s" and i: "i < length (thr s)" "thr s ! i = Ready CDestroyWait"
    and live: "wq_mutex (wq s) = Live"
  shows "wq_counts (destroy_put i (workq_destroy_resume all_ok 0 (wq s), False) s)"
proof (cases "wq_counter (wq s) > 0")
  case True
  moreover have "wq_quit (wq s) \<noteq> 0"
    using inv i by (auto simp: wq_counts_def list_all_length)
  ultimately show ?thesis using inv i live
    by (auto simp: workq_destroy_resume_def destroy_wait_def destroy_put_def wq_counts_def cnt_upd
        intro!: list_all_upd)
next
  case False
  with destroy_finish_counts [OF inv i(1)] i live show ?thesis
    by (simp add: workq_destroy_resume_def destroy_wait_def)
qed

lemma thr_ok_not_idle: "thr_ok quit t \<Longrightarrow> \<not> is_idle t \<Longrightarrow> thr_ok 1 t"
  by (induction quit t rule: thr_ok.induct) auto

lemma quit_ok:
  assumes ok: "list_all (thr_ok quit) ts"
  shows "list_all (thr_ok 1) (cond_broadcast () ts)"
    and "cnt is_idle ts \<le> 0 \<Longrightarrow> list_all (thr_ok 1) ts"
proof -
  have "thr_ok quit t \<Longrightarrow> thr_ok 1 (wake () t)" for t
    by (induction quit t rule: thr_ok.induct) auto
  with ok show "list_all (thr_ok 1) (cond_broadcast () ts)"
    by (auto simp: list_all_length)
  assume "cnt is_idle ts \<le> 0"
  then have "cnt is_idle ts = 0" using cnt_nonneg [of is_idle ts] by linarith
  then have "\<forall>t \<in> set ts. \<not> is_idle t" by (simp add: cnt_zero_iff)
  with ok show "list_all (thr_ok 1) ts" by (auto simp: list_all_iff intro: thr_ok_not_idle)
qed

lemma destroy_locked_counts:
  assumes inv: "wq_counts s" and i: "i < length (thr s)" "thr s ! i = Ready CDestroyLock"
    and live: "wq_mutex (wq s) = Live"
  shows "wq_counts (destroy_put i (workq_destroy_locked all_ok (wq s)) s)"
proof (cases "wq_counter (wq s) > 0")
  case True
  have ok: "list_all (thr_ok (wq_quit (wq s))) (thr s)" using inv by (simp add: wq_counts_def)
  have mono: "cnt ready_server (thr s) \<le> cnt ready_server (cond_broadcast () (thr s))"
    by (rule cnt_wake_mono) simp
  show ?thesis
  proof (cases "wq_idle (wq s) > 0")
    case idle: True
    from inv i live True idle quit_ok(1) [OF ok] mono show ?thesis
      by (auto simp: workq_destroy_locked_def destroy_wait_def destroy_put_def wq_counts_def cnt_upd
          cnt_broadcast Let_def intro!: list_all_upd)
  next
    case False
    with inv i live True quit_ok(2) [OF ok] show ?thesis
      by (auto simp: workq_destroy_locked_def destroy_wait_def destroy_put_def wq_counts_def cnt_upd
          Let_def intro!: list_all_upd)
  qed
next
  case False
  let ?s = "s\<lparr>wq := (wq s)\<lparr>wq_valid := 0\<rparr>\<rparr>"
  have "wq_counts ?s" using inv by (auto simp: wq_counts_def)
  from destroy_finish_counts [OF this, of i] False i live show ?thesis
    by (simp add: workq_destroy_locked_def destroy_put_def Let_def)
qed

lemma wq_step_counts:
  assumes inv: "wq_counts s" and e: "wq_step s e = Some t" and ok: "crash t = None" "crash s = None"
  shows "wq_counts t"
proof (cases e)
  case (CallAdd i d)
  with e inv show ?thesis
    by (auto simp: at_def wq_counts_def cnt_upd split: if_splits intro!: list_all_upd)
next
  case (AddLocked i mem j)
  with e obtain d where i: "i < length (thr s)" "thr s ! i = Ready (CAdd d)"
    and l: "locked s (add_put i j d (workq_add_locked all_ok mem (wq s) d) s) = Some t"
    by (auto split: if_splits tstate.splits wq_pc.splits)
  from locked_cases [OF l ok] add_counts [OF inv i] ok show ?thesis by blast
next
  case (AddNoServer i mem)
  with e obtain d item where i: "i < length (thr s)" "thr s ! i = Ready (CAdd d)"
      "mem = Some item" "\<not> wq_idle (wq s) > 0" "wq_counter (wq s) < wq_parallelism (wq s)"
    and l: "locked s (add_put i 0 d (workq_add_locked no_thread mem (wq s) d) (s\<lparr>failed := True\<rparr>)) = Some t"
    by (auto split: if_splits tstate.splits wq_pc.splits)
  from locked_cases [OF l ok] add_no_server_counts [OF inv i] ok show ?thesis by blast
next
  case (CallDestroy i)
  with e inv show ?thesis
    by (auto simp: at_def wq_counts_def cnt_upd split: if_splits intro!: list_all_upd)
next
  case (DestroyLocked i)
  with e have i: "i < length (thr s)" "thr s ! i = Ready CDestroyLock"
    and l: "locked s (Some (destroy_put i (workq_destroy_locked all_ok (wq s)) s)) = Some t"
    by (auto simp: at_def split: if_splits)
  from locked_cases [OF l ok] destroy_locked_counts [OF inv i] show ?thesis by auto
next
  case (DestroyResume i)
  with e have i: "i < length (thr s)" "thr s ! i = Ready CDestroyWait"
    and l: "locked s (Some (destroy_put i (workq_destroy_resume all_ok 0 (wq s), False) s)) = Some t"
    by (auto simp: at_def split: if_splits)
  from locked_cases [OF l ok] destroy_resume_counts [OF inv i] show ?thesis by auto
next
  case (ServerStart i)
  with e have i: "i < length (thr s)" "thr s ! i = Ready SStart"
    and l: "locked s (Some (server_put i (workq_server all_ok (wq s)) s)) = Some t"
    by (auto simp: at_def split: if_splits)
  from locked_cases [OF l ok] have live: "wq_mutex (wq s) = Live" and t: "t = server_put i (workq_server all_ok (wq s)) s"
    by auto
  show ?thesis unfolding t
    by (rule server_round_counts [OF start_pre [OF inv i(2)] i(1) live])
       (use workq_server_outcome ok t in auto)
next
  case (ServerResume i)
  with e obtain b where i: "i < length (thr s)" "thr s ! i = Ready (SWait b)"
    and l: "locked s (Some (server_put i
       (ebind (server_resume all_ok (if b then ETIMEDOUT else 0) (wq s)) (server_cont all_ok)) s)) = Some t"
    by (auto split: if_splits tstate.splits wq_pc.splits)
  from locked_cases [OF l ok] have live: "wq_mutex (wq s) = Live" and t: "t = server_put i
       (ebind (server_resume all_ok (if b then ETIMEDOUT else 0) (wq s)) (server_cont all_ok)) s"
    by auto
  show ?thesis unfolding t
    by (rule server_round_counts [OF resume_pre [OF inv i] i(1)])
       (use server_resume_outcome live ok t in auto)
next
  case (ServerDone i)
  with e obtain we d b where i: "i < length (thr s)" "thr s ! i = Ready (SEngine we d b)"
    and l: "locked s (Some (server_put i (server_cont all_ok (server_done all_ok we b (wq s)))
       (s\<lparr>served := served s @ [d]\<rparr>))) = Some t"
    by (auto split: if_splits tstate.splits wq_pc.splits)
  from locked_cases [OF l ok] have live: "wq_mutex (wq s) = Live"
    and t: "t = server_put i (server_cont all_ok (server_done all_ok we b (wq s))) (s\<lparr>served := served s @ [d]\<rparr>)"
    by auto
  have pre: "wq_counts ((s\<lparr>served := served s @ [d]\<rparr>)\<lparr>wq := (wq s)\<lparr>wq_heap := (wq_heap (wq s))(we := None)\<rparr>,
      thr := (thr (s\<lparr>served := served s @ [d]\<rparr>))[i := Ready SStart]\<rparr>)"
    using done_pre [OF inv i] by simp
  show ?thesis unfolding t
    by (rule server_round_counts [OF pre]) (use server_done_outcome live ok t i in auto)
next
  case (Timeout i)
  with e inv show ?thesis
    by (auto simp: wq_counts_def cnt_upd split: if_splits tstate.splits wq_pc.splits intro!: list_all_upd)
next
  case (WaitFails i)
  with e obtain b c where i: "i < length (thr s)" "thr s ! i = Waiting c (SWait b)"
    and l: "locked s (Some (server_put i (server_resume all_ok EINVAL (wq s)) (s\<lparr>failed := True\<rparr>))) = Some t"
    by (auto split: if_splits tstate.splits wq_pc.splits)
  from locked_cases [OF l ok] i inv show ?thesis by (auto simp: wait_fails wq_counts_def cnt_upd intro!: list_all_upd)
next
  case (Spurious i)
  with e inv cnt_wake_mono(3) [OF wake_mono_ready, of "thr s" i "()"] show ?thesis
    by (auto simp: wq_counts_def cnt_spurious intro!: list_all_cond wq_thr_ok_wake)
qed

definition wq_counts_inv :: "wq_sys \<Rightarrow> bool" where
  "wq_counts_inv s \<longleftrightarrow> (crash s = None \<longrightarrow> wq_counts s)"

lemma wq_exec_counts: "wq_counts_inv s \<Longrightarrow> wq_exec s e = Some t \<Longrightarrow> wq_counts_inv t"
  by (auto simp: wq_counts_inv_def wq_exec_def split: if_splits intro: wq_step_counts)

interpretation wq_counting: invariant_system wq_init wq_exec wq_counts_inv
  by unfold_locales (simp add: wq_counts_inv_def wq_start_counts, rule wq_exec_counts)

section \<open>The list on the heap and the order of service\<close>

definition own :: "(unit, wq_pc) tstate \<Rightarrow> (addr \<times> data) option" where
  "own t = (case pc_of t of Some (SEngine we d _) \<Rightarrow> Some (we, d) | _ \<Rightarrow> None)"

abbreviation owners :: "wq_sys \<Rightarrow> (addr \<times> data) option list" where
  "owners s \<equiv> map own (thr s)"

lemma own_simps [simp]:
  "own (Ready (SEngine we d b)) = Some (we, d)" "own Finished = None" "own (Ready CIdle) = None"
  "own (Ready (CAdd d)) = None" "own (Ready CDestroyLock) = None" "own (Ready CDestroyWait) = None"
  "own (Waiting c CDestroyWait) = None" "own (Ready SStart) = None" "own (Ready (SWait b)) = None"
  "own (Waiting c (SWait b)) = None"
  by (simp_all add: own_def)

lemma own_wake [simp]: "own (wake c t) = own t"
  by (cases t) (auto simp: own_def)

lemma own_cond [simp]:
  "map own (cond_broadcast c ts) = map own ts"
  "map own (cond_signal c j ts) = map own ts"
  "map own (spurious j c ts) = map own ts"
  by (auto simp: cond_broadcast_def cond_signal_def spurious_def map_update list_update_same_conv)

lemma own_same: "i < length ts \<Longrightarrow> own (ts ! i) = own u \<Longrightarrow> map own (ts[i := u]) = map own ts"
  by (simp add: map_update list_update_same_conv)

fun running :: "(addr \<times> data) option \<Rightarrow> data multiset" where
  "running None = {#}"
| "running (Some (we, d)) = {#d#}"

definition in_engine :: "(addr \<times> data) option list \<Rightarrow> data multiset" where
  "in_engine os = sum_list (map running os)"

lemma in_engine_simps [simp]:
  "in_engine [] = {#}" "in_engine (x # os) = running x + in_engine os"
  "in_engine (os @ ps) = in_engine os + in_engine ps"
  by (simp_all add: in_engine_def)

lemma in_engine_replicate [simp]: "in_engine (replicate n None) = {#}"
  by (induction n) auto

lemma in_engine_upd:
  "i < length os \<Longrightarrow> in_engine (os[i := x]) + running (os ! i) = in_engine os + running x"
proof (induction os arbitrary: i)
  case (Cons y os)
  then show ?case by (cases i) (auto simp: ac_simps)
qed simp

text \<open>
  A server owns the cell it took off the list until it frees it; no two threads and no thread and
  the list share a cell.
\<close>

definition own_ok :: "data heap \<Rightarrow> addr list \<Rightarrow> (addr \<times> data) option list \<Rightarrow> bool" where
  "own_ok h as os \<longleftrightarrow>
     (\<forall>i < length os. \<forall>we d. os ! i = Some (we, d) \<longrightarrow> we \<in> dom h \<and> we \<notin> set as) \<and>
     (\<forall>i < length os. \<forall>j < length os. \<forall>we d e. os ! i = Some (we, d) \<longrightarrow> os ! j = Some (we, e) \<longrightarrow> i = j)"

text \<open>
  The list itself: \<open>last\<close> is the last cell or, after a dequeue, \<open>NULL\<close>.
\<close>

definition list_ok :: "workq \<Rightarrow> addr list \<Rightarrow> bool" where
  "list_ok q as \<longleftrightarrow> lseg (wq_heap q) (wq_first q) as None \<and> distinct as \<and>
     (wq_last q = None \<or> as \<noteq> [] \<and> wq_last q = Some (last as))"

definition wq_order :: "wq_sys \<Rightarrow> bool" where
  "wq_order s \<longleftrightarrow> (\<exists>as. list_ok (wq s) as \<and> own_ok (wq_heap (wq s)) as (owners s) \<and>
     added s = taken s @ payloads (wq_heap (wq s)) as \<and>
     mset (taken s) = mset (served s) + in_engine (owners s))"

lemma own_ok_fresh: "own_ok h as os \<Longrightarrow> h p = None \<Longrightarrow> own_ok (h(p \<mapsto> c)) as os"
  by (fastforce simp: own_ok_def)

lemma own_ok_snoc: "own_ok h as os \<Longrightarrow> h p = None \<Longrightarrow> dom h \<subseteq> dom h' \<Longrightarrow> own_ok h' (as @ [p]) os"
  unfolding own_ok_def by (auto 4 4)

lemma own_ok_new_thread: "own_ok h as os \<Longrightarrow> own_ok h as (os @ [None])"
  by (auto simp: own_ok_def nth_append split: if_splits)

lemma own_ok_call:
  assumes "own_ok h (we # as) os" and "we \<in> dom h" and "distinct (we # as)" and "i < length os"
  shows "own_ok h as (os[i := Some (we, d)])"
  using assms by (auto simp: own_ok_def nth_list_update split: if_splits)

lemma own_ok_done:
  assumes "own_ok h as os" and "i < length os" and "os ! i = Some (we, d)"
  shows "own_ok (h(we := None)) as (os[i := None])" and "we \<notin> set as"
  using assms by (auto simp: own_ok_def nth_list_update split: if_splits)

lemma wq_order_frame:
  assumes "wq_order s" and "wq_heap (wq t) = wq_heap (wq s)" "wq_first (wq t) = wq_first (wq s)"
    "wq_last (wq t) = wq_last (wq s)" "owners t = owners s"
    "added t = added s" "taken t = taken s" "served t = served s"
  shows "wq_order t"
  using assms by (simp add: wq_order_def list_ok_def)

lemma wq_start_order: "wq_init s \<Longrightarrow> wq_order s"
  by (auto simp: wq_init_def wq_start_def wq_order_def list_ok_def own_ok_def workq_init_def Let_def
      intro!: exI [of _ "[]"])

text \<open>Linking an item: it goes to the end of the list, unless \<open>last\<close> is \<open>NULL\<close> on a non-empty list.\<close>

lemma link_list_ok:
  assumes ok: "list_ok q as" and fresh: "wq_heap q item = None"
    and l: "workq_link item (q\<lparr>wq_heap := (wq_heap q)(item \<mapsto> \<lparr>cell_next = None, cell_data = d\<rparr>)\<rparr>) = Inr q'"
  shows "list_ok q' (as @ [item]) \<and> payloads (wq_heap q') (as @ [item]) = payloads (wq_heap q) as @ [d] \<and>
         dom (wq_heap q) \<subseteq> dom (wq_heap q')"
proof (cases "as = []")
  case True
  with ok l show ?thesis by (auto simp: list_ok_def workq_link_def)
next
  case False
  have seg: "lseg (wq_heap q) (wq_first q) as None" and dist: "distinct as"
    using ok by (auto simp: list_ok_def)
  have item: "item \<notin> set as" using lseg_live [OF seg] fresh by auto
  have f: "wq_first q \<noteq> None" using lseg_first [OF seg] False by auto
  have last: "wq_last q = Some (last as)" using ok f l by (auto simp: list_ok_def workq_link_def split: if_splits)
  obtain c where c: "wq_heap q (last as) = Some c"
    using lseg_live [OF seg] False by (meson domD last_in_set)
  let ?h = "(wq_heap q)(item \<mapsto> \<lparr>cell_next = None, cell_data = d\<rparr>, last as \<mapsto> c\<lparr>cell_next := Some item\<rparr>)"
  have ne: "last as \<noteq> item" using item False by (metis last_in_set)
  have q': "q' = q\<lparr>wq_heap := ?h, wq_last := Some item\<rparr>"
    using l f last c ne by (auto simp: workq_link_def)
  have "lseg ?h (wq_first q) (as @ [item]) None"
    using lseg_snoc [OF seg dist False c item] .
  moreover have "payloads ?h as = payloads (wq_heap q) as"
    using item c ne by (auto simp: payloads_def)
  moreover have "cell_data (the (?h item)) = d" using ne by auto
  ultimately show ?thesis using q' dist item by (auto simp: list_ok_def)
qed


lemma add_order:
  assumes inv: "wq_order s" and i: "i < length (thr s)" and c: "thr s ! i = Ready (CAdd d)"
    and fresh: "malloc_ok (wq_heap (wq s)) mem"
    and ok: "crash t = None" "crash s = None"
    and st: "st = all_ok \<or> st = no_thread"
    and r: "add_put i j d (workq_add_locked st mem (wq s) d) s = Some t"
  shows "wq_order t"
proof (cases mem)
  case None
  with r i c st have "t = s\<lparr>wq := wq s, thr := (thr s)[i := Ready CIdle]\<rparr>"
    by (auto simp: add_put_def workq_add_locked_def no_thread_def Let_def)
  with i c show ?thesis by (intro wq_order_frame [OF inv]) (auto simp: own_same)
next
  case (Some item)
  let ?q0 = "(wq s)\<lparr>wq_heap := (wq_heap (wq s))(item \<mapsto> \<lparr>cell_next = None, cell_data = d\<rparr>)\<rparr>"
  from r Some ok st obtain q where q: "workq_link item ?q0 = Inr q"
    by (cases "workq_link item ?q0") (auto simp: add_put_def workq_add_locked_def no_thread_def)
  from inv obtain as where as: "list_ok (wq s) as" "own_ok (wq_heap (wq s)) as (owners s)"
    "added s = taken s @ payloads (wq_heap (wq s)) as"
    "mset (taken s) = mset (served s) + in_engine (owners s)" by (auto simp: wq_order_def)
  have item: "wq_heap (wq s) item = None" using fresh Some by (simp add: malloc_ok_def)
  note l = link_list_ok [OF as(1) item q]
  have own: "own_ok (wq_heap q) (as @ [item]) (owners s)"
    using own_ok_snoc [OF as(2) item] l by blast
  have t: "wq_heap (wq t) = wq_heap q" "wq_first (wq t) = wq_first q" "wq_last (wq t) = wq_last q"
    "added t = added s @ [d]" "taken t = taken s" "served t = served s"
    "owners t = owners s \<or> owners t = owners s @ [None]"
    using r Some q i c st
    by (auto simp: add_put_def workq_add_locked_def no_thread_def ENOMEM_def Let_def own_same split: if_splits)
  have "list_ok (wq t) (as @ [item])" using l t by (simp add: list_ok_def)
  moreover have "own_ok (wq_heap (wq t)) (as @ [item]) (owners t)"
    using t own own_ok_new_thread [OF own] by auto
  moreover have "in_engine (owners t) = in_engine (owners s)" using t(7) by auto
  ultimately show ?thesis using as t l by (auto simp: wq_order_def intro!: exI [of _ "as @ [item]"])
qed

lemma outcome_order:
  assumes inv: "wq_order s" and i: "i < length (thr s)" "thr s ! i = Ready SStart"
    and o1: "outcome (wq s) q nx"
  shows "wq_order (server_put i (Inr (q, nx)) s)"
  using o1
proof cases
  case block
  with i show ?thesis by (intro wq_order_frame [OF inv]) (auto simp: own_same)
next
  case exit
  with i show ?thesis by (intro wq_order_frame [OF inv]) (auto simp: own_same)
next
  case (call we c timedout)
  from inv obtain as where as: "list_ok (wq s) as" "own_ok (wq_heap (wq s)) as (owners s)"
    "added s = taken s @ payloads (wq_heap (wq s)) as"
    "mset (taken s) = mset (served s) + in_engine (owners s)" by (auto simp: wq_order_def)
  from as(1) call obtain bs where bs: "as = we # bs" "lseg (wq_heap (wq s)) (cell_next c) bs None"
    by (cases as) (auto simp: list_ok_def)
  let ?os = "(owners s)[i := Some (we, cell_data c)]"
  have "own_ok (wq_heap (wq s)) bs ?os"
    using own_ok_call [of "wq_heap (wq s)" we bs "owners s" i] as bs call i by (auto simp: list_ok_def)
  moreover have "in_engine ?os = in_engine (owners s) + {#cell_data c#}"
    using in_engine_upd [of i "owners s" "Some (we, cell_data c)"] i by simp
  ultimately show ?thesis using as bs call
    by (auto simp: wq_order_def list_ok_def map_update intro!: exI [of _ bs])
qed

lemma server_round_order:
  assumes inv: "wq_order (s\<lparr>wq := q, thr := (thr s)[i := Ready SStart]\<rparr>)"
    and i: "i < length (thr s)"
    and r: "\<And>q' nx. r = Inr (q', nx) \<Longrightarrow> outcome q q' nx"
    and ok: "crash (server_put i r s) = None"
  shows "wq_order (server_put i r s)"
proof -
  obtain q' nx where r': "r = Inr (q', nx)" using ok by (cases r) auto
  have "wq_order (server_put i (Inr (q', nx)) (s\<lparr>wq := q, thr := (thr s)[i := Ready SStart]\<rparr>))"
    by (rule outcome_order [OF inv]) (use i r [OF r'] in auto)
  then show ?thesis by (simp add: server_put_overwrite r')
qed

lemma done_order:
  assumes inv: "wq_order s" and i: "i < length (thr s)" "thr s ! i = Ready (SEngine we d b)"
  shows "wq_order (s\<lparr>served := served s @ [d], wq := (wq s)\<lparr>wq_heap := (wq_heap (wq s))(we := None)\<rparr>,
           thr := (thr s)[i := Ready SStart]\<rparr>)"
proof -
  from inv obtain as where as: "list_ok (wq s) as" "own_ok (wq_heap (wq s)) as (owners s)"
    "added s = taken s @ payloads (wq_heap (wq s)) as"
    "mset (taken s) = mset (served s) + in_engine (owners s)" by (auto simp: wq_order_def)
  have o1: "owners s ! i = Some (we, d)" "i < length (owners s)" using i by auto
  note own = own_ok_done [OF as(2) o1(2,1)]
  have "in_engine (owners s) = in_engine ((owners s)[i := None]) + {#d#}"
    using in_engine_upd [OF o1(2), of None] o1 by simp
  with as own show ?thesis
    by (auto simp: wq_order_def list_ok_def map_update heap_simps intro!: exI [of _ as])
qed

lemma destroy_put_order:
  assumes inv: "wq_order s" and i: "i < length (thr s)" "own (thr s ! i) = None"
    and q: "wq_heap (fst (fst r)) = wq_heap (wq s)" "wq_first (fst (fst r)) = wq_first (wq s)"
      "wq_last (fst (fst r)) = wq_last (wq s)"
  shows "wq_order (destroy_put i r s)"
  by (rule wq_order_frame [OF inv])
     (use i q in \<open>auto simp: destroy_put_def Let_def own_same
       split: prod.splits destroy_next.splits\<close>)

lemma destroy_fields:
  "wq_heap (fst (destroy_finish st q)) = wq_heap q" "wq_first (fst (destroy_finish st q)) = wq_first q"
  "wq_last (fst (destroy_finish st q)) = wq_last q"
  by (simp_all add: destroy_finish_def)

lemmas destroy_all = destroy_fields workq_destroy_locked_def workq_destroy_resume_def destroy_wait_def Let_def

lemma wq_step_order:
  assumes inv: "wq_order s" and e: "wq_step s e = Some t" and ok: "crash t = None" "crash s = None"
  shows "wq_order t"
proof (cases e)
  case (CallAdd i d)
  with e show ?thesis
    by (intro wq_order_frame [OF inv]) (auto simp: at_def own_same split: if_splits)
next
  case (AddLocked i mem j)
  with e obtain d where i: "i < length (thr s)" "thr s ! i = Ready (CAdd d)" "malloc_ok (wq_heap (wq s)) mem"
    and l: "locked s (add_put i j d (workq_add_locked all_ok mem (wq s) d) s) = Some t"
    by (auto split: if_splits tstate.splits wq_pc.splits)
  from locked_cases [OF l ok] add_order [OF inv i] ok show ?thesis by blast
next
  case (AddNoServer i mem)
  let ?s = "s\<lparr>failed := True\<rparr>"
  from AddNoServer e obtain d where i: "i < length (thr ?s)" "thr ?s ! i = Ready (CAdd d)" "malloc_ok (wq_heap (wq ?s)) mem"
    and l: "locked s (add_put i 0 d (workq_add_locked no_thread mem (wq ?s) d) ?s) = Some t"
    by (auto split: if_splits tstate.splits wq_pc.splits)
  have "wq_order ?s" by (rule wq_order_frame [OF inv]) auto
  from locked_cases [OF l ok] add_order [OF this i] ok show ?thesis by auto
next
  case (CallDestroy i)
  with e show ?thesis
    by (intro wq_order_frame [OF inv]) (auto simp: at_def own_same split: if_splits)
next
  case (DestroyLocked i)
  with e have i: "i < length (thr s)" "thr s ! i = Ready CDestroyLock"
    and l: "locked s (Some (destroy_put i (workq_destroy_locked all_ok (wq s)) s)) = Some t"
    by (auto simp: at_def split: if_splits)
  with locked_cases [OF l ok] have "t = destroy_put i (workq_destroy_locked all_ok (wq s)) s" by simp
  with i show ?thesis by (auto simp: destroy_all intro!: destroy_put_order [OF inv])
next
  case (DestroyResume i)
  with e have i: "i < length (thr s)" "thr s ! i = Ready CDestroyWait"
    and l: "locked s (Some (destroy_put i (workq_destroy_resume all_ok 0 (wq s), False) s)) = Some t"
    by (auto simp: at_def split: if_splits)
  with locked_cases [OF l ok] have "t = destroy_put i (workq_destroy_resume all_ok 0 (wq s), False) s" by simp
  with i show ?thesis by (auto simp: destroy_all intro!: destroy_put_order [OF inv])
next
  case (ServerStart i)
  with e have i: "i < length (thr s)" "thr s ! i = Ready SStart"
    and l: "locked s (Some (server_put i (workq_server all_ok (wq s)) s)) = Some t"
    by (auto simp: at_def split: if_splits)
  with locked_cases [OF l ok] have t: "t = server_put i (workq_server all_ok (wq s)) s" by auto
  have pre: "wq_order (s\<lparr>wq := wq s, thr := (thr s)[i := Ready SStart]\<rparr>)"
    by (rule wq_order_frame [OF inv]) (use i in \<open>auto simp: own_same\<close>)
  show ?thesis unfolding t
    by (rule server_round_order [OF pre i(1)]) (use workq_server_outcome ok t in auto)
next
  case (ServerResume i)
  with e obtain b where i: "i < length (thr s)" "thr s ! i = Ready (SWait b)"
    and l: "locked s (Some (server_put i
       (ebind (server_resume all_ok (if b then ETIMEDOUT else 0) (wq s)) (server_cont all_ok)) s)) = Some t"
    by (auto split: if_splits tstate.splits wq_pc.splits)
  with locked_cases [OF l ok] have t: "t = server_put i
       (ebind (server_resume all_ok (if b then ETIMEDOUT else 0) (wq s)) (server_cont all_ok)) s"
    by auto
  have pre: "wq_order (s\<lparr>wq := (wq s)\<lparr>wq_idle := wq_idle (wq s) - 1\<rparr>, thr := (thr s)[i := Ready SStart]\<rparr>)"
    by (rule wq_order_frame [OF inv]) (use i in \<open>auto simp: own_same\<close>)
  show ?thesis unfolding t
    by (rule server_round_order [OF pre i(1)]) (use server_resume_outcome ok t in auto)
next
  case (ServerDone i)
  with e obtain we d b where i: "i < length (thr s)" "thr s ! i = Ready (SEngine we d b)"
    and l: "locked s (Some (server_put i (server_cont all_ok (server_done all_ok we b (wq s)))
       (s\<lparr>served := served s @ [d]\<rparr>))) = Some t"
    by (auto split: if_splits tstate.splits wq_pc.splits)
  from locked_cases [OF l ok]
  have t: "t = server_put i (server_cont all_ok (server_done all_ok we b (wq s))) (s\<lparr>served := served s @ [d]\<rparr>)"
    by auto
  have pre: "wq_order ((s\<lparr>served := served s @ [d]\<rparr>)\<lparr>wq := (wq s)\<lparr>wq_heap := (wq_heap (wq s))(we := None)\<rparr>,
      thr := (thr (s\<lparr>served := served s @ [d]\<rparr>))[i := Ready SStart]\<rparr>)"
    using done_order [OF inv i] by simp
  show ?thesis unfolding t
    by (rule server_round_order [OF pre]) (use server_done_outcome ok t i in auto)
next
  case (Timeout i)
  with e show ?thesis
    by (intro wq_order_frame [OF inv]) (auto simp: own_same split: if_splits tstate.splits wq_pc.splits)
next
  case (WaitFails i)
  with e obtain b c where i: "i < length (thr s)" "thr s ! i = Waiting c (SWait b)"
    and l: "locked s (Some (server_put i (server_resume all_ok EINVAL (wq s)) (s\<lparr>failed := True\<rparr>))) = Some t"
    by (auto split: if_splits tstate.splits wq_pc.splits)
  from locked_cases [OF l ok] i show ?thesis by (intro wq_order_frame [OF inv]) (auto simp: wait_fails own_same)
next
  case (Spurious i)
  with e show ?thesis by (intro wq_order_frame [OF inv]) auto
qed

definition wq_order_inv :: "wq_sys \<Rightarrow> bool" where
  "wq_order_inv s \<longleftrightarrow> (crash s = None \<longrightarrow> wq_order s)"

lemma wq_exec_order: "wq_order_inv s \<Longrightarrow> wq_exec s e = Some t \<Longrightarrow> wq_order_inv t"
  by (auto simp: wq_order_inv_def wq_exec_def split: if_splits intro: wq_step_order)

interpretation wq_ordering: invariant_system wq_init wq_exec wq_order_inv
  by unfold_locales (simp add: wq_order_inv_def wq_start_order, rule wq_exec_order)

section \<open>What the work queue guarantees\<close>

text \<open>C3: items leave the queue in the order in which they were added: what has been dequeued is a
  prefix of what was added, the rest is exactly the list that starts at \<open>first\<close>, and every dequeued
  item has been served or is in the engine of one server.\<close>

theorem workq_serves_in_order:
  assumes "reach wq_init wq_exec s" and "crash s = None"
  shows "\<exists>as. lseg (wq_heap (wq s)) (wq_first (wq s)) as None \<and>
           added s = taken s @ payloads (wq_heap (wq s)) as \<and>
           mset (taken s) = mset (served s) + in_engine (owners s)"
  using wq_ordering.reach_inv [OF assms(1)] assms(2)
  by (auto simp: wq_order_inv_def wq_order_def list_ok_def)

text \<open>C38: \<open>counter\<close> is the number of server threads and never exceeds \<open>parallelism\<close>; \<open>idle\<close> is
  the number of servers in the timed wait.\<close>

theorem workq_servers_bounded:
  assumes "reach wq_init wq_exec s" and "crash s = None"
  shows "wq_counter (wq s) = cnt is_server (thr s) \<and> wq_idle (wq s) = cnt is_idle (thr s) \<and>
         cnt is_server (thr s) \<le> wq_parallelism (wq s)"
  using wq_counting.reach_inv [OF assms(1)] assms(2)
  by (auto simp: wq_counts_inv_def wq_counts_def)

lemma ready_server_moves:
  assumes "i < length (thr s)" and "ready_server (thr s ! i)" and "crash s = None"
  shows "\<exists>e t. e \<in> {ServerStart i, ServerResume i, ServerDone i} \<and> wq_exec s e = Some t"
proof -
  from assms(2) obtain p where p: "thr s ! i = Ready p" by (auto simp: ready_server_def)
  then have "p = SStart \<or> (\<exists>b. p = SWait b) \<or> (\<exists>we d b. p = SEngine we d b)"
    using assms(2) by (auto simp: is_server_def split: wq_pc.splits)
  then show ?thesis using assms p by (auto simp: wq_exec_def locked_def at_def)
qed

text \<open>
  C17: no wake-up is lost: while an item is queued some server is awake and can take its next
  step at once, unless the creation of a server by \<open>workq_add\<close> or the timed wait of a server has failed before (all other library
  calls succeed).
\<close>

theorem workq_no_lost_wakeup:
  assumes "reach wq_init wq_exec s" and "crash s = None" and "\<not> failed s" and "wq_first (wq s) \<noteq> None"
  shows "\<exists>i e t. i < length (thr s) \<and> is_server (thr s ! i) \<and>
           e \<in> {ServerStart i, ServerResume i, ServerDone i} \<and> wq_exec s e = Some t"
proof -
  from wq_counting.reach_inv [OF assms(1)] assms(2-4) have "0 < cnt ready_server (thr s)"
    by (auto simp: wq_counts_inv_def wq_counts_def)
  then obtain u where "u \<in> set (thr s)" "ready_server u" by (rule cnt_pos_obtain)
  then obtain i where i: "i < length (thr s)" "ready_server (thr s ! i)"
    by (auto simp: in_set_conv_nth)
  with ready_server_moves [OF i assms(2)] show ?thesis by (auto simp: ready_server_def)
qed

lemma own_server: "\<not> is_server t \<Longrightarrow> own t = None"
  by (auto simp: own_def is_server_def split: option.splits wq_pc.splits)

lemma no_server_no_engine:
  assumes "cnt is_server ts = 0"
  shows "in_engine (map own ts) = {#}"
proof -
  have "\<forall>t \<in> set ts. own t = None"
    using assms by (auto simp: cnt_zero_iff own_server)
  then have "map own ts = replicate (length ts) None" by (induction ts) auto
  then show ?thesis by simp
qed

text \<open>
  C11: when \<open>workq_destroy\<close> has destroyed the mutex, no server thread is left; and unless the creation of a server by \<open>workq_add\<close> or the timed
  wait of a server has failed before (all other library calls succeed), the queue is drained: every item ever added has been dequeued,
  and each has been run through the engine.
\<close>

theorem workq_destroyed_drained:
  assumes "reach wq_init wq_exec s" and "crash s = None" and "wq_mutex (wq s) = Destroyed"
  shows "cnt is_server (thr s) = 0 \<and> (\<not> failed s \<longrightarrow> taken s = added s \<and> mset (served s) = mset (added s))"
proof (intro conjI impI)
  show z: "cnt is_server (thr s) = 0"
    using wq_counting.reach_inv [OF assms(1)] assms(2,3) by (auto simp: wq_counts_inv_def wq_counts_def)
  assume "\<not> failed s"
  then have first: "wq_first (wq s) = None"
    using wq_counting.reach_inv [OF assms(1)] assms(2,3) by (auto simp: wq_counts_inv_def wq_counts_def)
  from wq_ordering.reach_inv [OF assms(1)] assms(2) obtain as
    where as: "list_ok (wq s) as" "added s = taken s @ payloads (wq_heap (wq s)) as"
      "mset (taken s) = mset (served s) + in_engine (owners s)"
    by (auto simp: wq_order_inv_def wq_order_def)
  have "as = []" using as(1) first by (cases as) (auto simp: list_ok_def)
  with as no_server_no_engine [OF z] show "taken s = added s" "mset (served s) = mset (added s)" by simp_all
qed

lemma list_ok_no_fault:
  assumes "list_ok q as"
  shows "\<exists>r. server_body all_ok b q = Inr r"
proof (cases as)
  case Nil
  with assms show ?thesis by (auto simp: list_ok_def server_body_def)
next
  case (Cons a bs)
  with assms show ?thesis by (auto simp: list_ok_def server_body_def)
qed

lemma server_cont_no_fault:
  assumes "list_ok q as" and "snd r \<noteq> SLoop \<or> fst r = q"
  shows "\<exists>r'. server_cont all_ok r = Inr r'"
  using assms list_ok_no_fault [OF assms(1), of False]
  by (cases r; cases "snd r") (auto simp: server_cont_def server_head_def)

lemma server_resume_no_fault:
  assumes "list_ok q as"
  shows "\<exists>r. ebind (server_resume all_ok st q) (server_cont all_ok) = Inr r"
proof -
  let ?q = "q\<lparr>wq_idle := wq_idle q - 1\<rparr>"
  have ok: "list_ok ?q as" using assms by (simp add: list_ok_def)
  have body: "\<exists>r. server_body all_ok b ?q = Inr r \<and> (snd r \<noteq> SLoop \<or> fst r = ?q)" for b
    using list_ok_no_fault [OF ok, of b]
    by (auto simp: server_body_def server_after_def Let_def split: option.splits if_splits)
  from body [of True] body [of False] server_cont_no_fault [OF ok]
  show ?thesis
    by (auto simp: server_resume_def Let_def server_cont_def [of _ "(_, SExit _)"] server_cont_def [of _ "(_, SBlock)"])
qed

lemma server_done_no_fault:
  assumes "list_ok q as" and "we \<notin> set as"
  shows "\<exists>r. server_cont all_ok (server_done all_ok we b q) = Inr r"
proof -
  have "list_ok (q\<lparr>wq_heap := (wq_heap q)(we := None)\<rparr>) as"
    using assms by (simp add: list_ok_def heap_simps)
  then show ?thesis
    by (rule server_cont_no_fault) (auto simp: server_done_def server_after_def Let_def)
qed


lemma locked_crash:
  "locked s r = Some t \<Longrightarrow> wq_mutex (wq s) = Live \<Longrightarrow> r = Some t"
  by (simp add: locked_def)

lemma server_put_crash [simp]: "crash (server_put i (Inr r) s) = crash s"
proof -
  obtain q nx where "r = (q, nx)" by (cases r)
  then show ?thesis by (cases nx) auto
qed

lemma server_live: "wq_counts s \<Longrightarrow> i < length (thr s) \<Longrightarrow> is_server (thr s ! i) \<Longrightarrow> wq_mutex (wq s) = Live"
  using cnt_pos [of i "thr s" is_server] by (auto simp: wq_counts_def)

lemma server_step_safe:
  assumes inv: "wq_counts s" "wq_order s" and ok: "crash s = None"
    and e: "e \<in> {ServerStart i, ServerResume i, ServerDone i}" "wq_step s e = Some t"
  shows "crash t = None"
proof -
  from inv(2) obtain as where as: "list_ok (wq s) as" "own_ok (wq_heap (wq s)) as (owners s)"
    by (auto simp: wq_order_def)
  consider "e = ServerStart i" | "e = ServerResume i" | "e = ServerDone i" using e(1) by blast
  then show ?thesis
  proof cases
    case 1
    with e(2) have i: "i < length (thr s)" "thr s ! i = Ready SStart"
      and l: "locked s (Some (server_put i (workq_server all_ok (wq s)) s)) = Some t"
      by (auto simp: at_def split: if_splits)
    obtain r where "workq_server all_ok (wq s) = Inr r"
      using list_ok_no_fault [OF as(1), of False]
      by (cases "wq_first (wq s) = None \<and> wq_quit (wq s) = 0") (auto simp: workq_server_def server_head_def)
    with locked_crash [OF l server_live [OF inv(1) i(1)]] i ok show ?thesis by auto
  next
    case 2
    with e(2) obtain b where i: "i < length (thr s)" "thr s ! i = Ready (SWait b)"
      and l: "locked s (Some (server_put i
         (ebind (server_resume all_ok (if b then ETIMEDOUT else 0) (wq s)) (server_cont all_ok)) s)) = Some t"
      by (auto split: if_splits tstate.splits wq_pc.splits)
    from locked_crash [OF l server_live [OF inv(1) i(1)]] i ok
      server_resume_no_fault [OF as(1), of "if b then ETIMEDOUT else 0"]
    show ?thesis by (metis server_put_crash option.inject server_simps(8))
  next
    case 3
    with e(2) obtain we d b where i: "i < length (thr s)" "thr s ! i = Ready (SEngine we d b)"
      and l: "locked s (Some (server_put i (server_cont all_ok (server_done all_ok we b (wq s)))
         (s\<lparr>served := served s @ [d]\<rparr>))) = Some t"
      by (auto split: if_splits tstate.splits wq_pc.splits)
    have "we \<notin> set as" using own_ok_done(2) [OF as(2), of i we d] i by simp
    then obtain r where "server_cont all_ok (server_done all_ok we b (wq s)) = Inr r"
      using server_done_no_fault [OF as(1)] by blast
    with locked_crash [OF l server_live [OF inv(1) i(1)]] i ok show ?thesis by auto
  qed
qed

text \<open>A server thread never faults: whenever the process dies, the step that killed it is a
  client inside \<open>workq_add\<close> or \<open>workq_destroy\<close>.\<close>

theorem workq_server_never_faults:
  assumes "reach wq_init wq_exec s" and "wq_exec s e = Some t" and "crash t \<noteq> None"
  shows "\<exists>i mem j. e = AddLocked i mem j \<or> e = AddNoServer i mem \<or> e = DestroyLocked i \<or> e = DestroyResume i"
proof (rule ccontr)
  assume no: "\<not> ?thesis"
  have ok: "crash s = None" and st: "wq_step s e = Some t"
    using assms(2) by (auto simp: wq_exec_def split: if_splits)
  have inv: "wq_counts s" "wq_order s"
    using wq_counting.reach_inv [OF assms(1)] wq_ordering.reach_inv [OF assms(1)] ok
    by (auto simp: wq_counts_inv_def wq_order_inv_def)
  from no server_step_safe [OF inv ok _ st] assms(3) st ok show False
    by (cases e) (auto simp: wait_fails locked_def dest!: server_live [OF inv(1)] split: if_splits tstate.splits wq_pc.splits)
qed

text \<open>On a well-formed list \<open>workq_add\<close> dereferences \<open>NULL\<close> exactly when \<open>last\<close> is \<open>NULL\<close> while
  the list is not empty, and otherwise appends the item; this state arises because the server's test
  \<open>wq->last = we\<close> is an assignment.\<close>

theorem workq_add_faults_iff:
  assumes "list_ok q as" and "wq_valid q = WORKQ_VALID" and "wq_heap q item = None"
  shows "if as \<noteq> [] \<and> wq_last q = None then workq_add all_ok (Some item) q d = Inl NullDeref
         else \<exists>q' eff. workq_add all_ok (Some item) q d = Inr (0, q', eff) \<and> list_ok q' (as @ [item]) \<and>
                payloads (wq_heap q') (as @ [item]) = payloads (wq_heap q) as @ [d]"
proof (cases "as \<noteq> [] \<and> wq_last q = None")
  case True
  with assms lseg_first show ?thesis
    by (auto simp: list_ok_def workq_add_def workq_add_locked_def workq_link_def)
next
  case False
  let ?q0 = "q\<lparr>wq_heap := (wq_heap q)(item \<mapsto> \<lparr>cell_next = None, cell_data = d\<rparr>)\<rparr>"
  have "\<exists>q'. workq_link item ?q0 = Inr q'"
  proof (cases "as = []")
    case True
    with assms(1) show ?thesis by (auto simp: list_ok_def workq_link_def)
  next
    case ne: False
    with False assms(1) have l: "wq_last q = Some (last as)" "last as \<in> dom (wq_heap q)"
      by (auto simp: list_ok_def dest!: lseg_live)
    with assms(3) show ?thesis by (auto simp: workq_link_def)
  qed
  then obtain q' where q': "workq_link item ?q0 = Inr q'" by blast
  have "\<exists>q'' eff. workq_add all_ok (Some item) q d = Inr (0, q'', eff) \<and> wq_heap q'' = wq_heap q' \<and>
      wq_first q'' = wq_first q' \<and> wq_last q'' = wq_last q'"
    using q' assms(2) by (auto simp: workq_add_def workq_add_locked_def)
  then show ?thesis using False link_list_ok [OF assms(1,3) q'] by (auto simp: list_ok_def)
qed

section \<open>Runs\<close>

definition raw_workq :: workq where
  "raw_workq = \<lparr>wq_mutex = Raw, wq_cv = Raw, wq_attr = Raw, wq_heap = Map.empty, wq_first = None,
     wq_last = None, wq_valid = 0, wq_quit = 0, wq_parallelism = 0, wq_counter = 0, wq_idle = 0,
     wq_engine = 0\<rparr>"

definition two_clients :: wq_sys where
  "two_clients = wq_start raw_workq 4 0 2"

lemma two_clients_reach: "run wq_exec two_clients es = Some t \<Longrightarrow> reach wq_init wq_exec t"
  by (rule reach_by_run [of _ two_clients]) (force simp: wq_init_def two_clients_def)+

lemmas wq_eval = two_clients_def wq_start_def raw_workq_def workq_init_def Let_def sync_defs wq_exec_def
  at_def locked_def malloc_ok_def workq_add_locked_def workq_link_def add_put_def errno_defs
  workq_server_def server_head_def server_body_def server_after_def server_resume_def server_done_def
  server_cont_def destroy_put_def workq_destroy_locked_def workq_destroy_resume_def destroy_wait_def
  destroy_finish_def cond_broadcast_def cond_signal_def signal_ok_def replicate_numeral


declare wq_step.simps [simp del]

text \<open>
  Two items are queued by one client while the server created for the first one has not run yet; the
  server takes one item and is in the engine.
\<close>

definition busy_run :: "wq_event list" where
  "busy_run = [CallAdd 0 7, AddLocked 0 (Some 100) 0, CallAdd 0 8, AddLocked 0 (Some 101) 0, ServerStart 2]"

lemma busy_state:
  "\<exists>t. run wq_exec two_clients busy_run = Some t \<and> crash t = None \<and> \<not> failed t \<and> added t = [7, 8] \<and> taken t = [7] \<and>
     served t = [] \<and> wq_first (wq t) = Some 101 \<and> wq_last (wq t) = None \<and>
     thr t = [Ready CIdle, Ready CIdle, Ready (SEngine 100 7 False), Ready SStart] \<and>
     wq_counter (wq t) = 2 \<and> wq_valid (wq t) = WORKQ_VALID \<and> wq_mutex (wq t) = Live \<and>
     wq_heap (wq t) 101 = Some \<lparr>cell_next = None, cell_data = 8\<rparr> \<and> wq_heap (wq t) 102 = None"
  by (simp add: busy_run_def wq_step.simps wq_eval)

text \<open>The queue is then used up and destroyed.\<close>

definition drain_run :: "wq_event list" where
  "drain_run = [ServerDone 2, ServerDone 2, CallDestroy 1, DestroyLocked 1, ServerResume 2, ServerStart 3,
     DestroyResume 1]"

lemma drain_state:
  "\<exists>t. run wq_exec two_clients (busy_run @ drain_run) = Some t \<and> crash t = None \<and> \<not> failed t \<and>
     wq_mutex (wq t) = Destroyed \<and> added t = [7, 8]"
  by (simp add: busy_run_def drain_run_def wq_step.simps wq_eval)

theorem workq_serves_in_order_witness:
  "\<exists>s. added s = [7, 8] \<and> taken s = [7] \<and> mset (taken s) = mset (served s) + in_engine (owners s)"
proof -
  obtain t where t: "run wq_exec two_clients busy_run = Some t" "crash t = None" "added t = [7, 8]" "taken t = [7]"
    using busy_state by blast
  from workq_serves_in_order [OF two_clients_reach [OF t(1)] t(2)] t show ?thesis by blast
qed

theorem workq_servers_bounded_witness: "\<exists>s :: wq_sys. wq_counter (wq s) = 2 \<and> cnt is_server (thr s) = 2"
proof -
  obtain t where t: "run wq_exec two_clients busy_run = Some t" "crash t = None" "wq_counter (wq t) = 2"
    using busy_state by blast
  from workq_servers_bounded [OF two_clients_reach [OF t(1)] t(2)] t show ?thesis by auto
qed

theorem workq_no_lost_wakeup_witness:
  "\<exists>(s :: wq_sys) i. wq_first (wq s) = Some 101 \<and> i < length (thr s) \<and> is_server (thr s ! i)"
proof -
  obtain t where t: "run wq_exec two_clients busy_run = Some t" "crash t = None" "\<not> failed t" "wq_first (wq t) = Some 101"
    using busy_state by blast
  from workq_no_lost_wakeup [OF two_clients_reach [OF t(1)] t(2,3)] t show ?thesis by auto
qed

theorem workq_destroyed_drained_witness:
  "\<exists>s :: wq_sys. wq_mutex (wq s) = Destroyed \<and> cnt is_server (thr s) = 0 \<and> mset (served s) = {#7, 8#}"
proof -
  obtain t where t: "run wq_exec two_clients (busy_run @ drain_run) = Some t" "crash t = None"
    "wq_mutex (wq t) = Destroyed" "added t = [7, 8]" "\<not> failed t"
    using drain_state by blast
  from workq_destroyed_drained [OF two_clients_reach [OF t(1)] t(2,3)] t show ?thesis by auto
qed

text \<open>
  After \<open>busy_run\<close> the list is not empty and \<open>last\<close> is \<open>NULL\<close>; the next \<open>workq_add\<close>
  dereferences it.
\<close>

lemma crash_state:
  "\<exists>s t. run wq_exec two_clients (busy_run @ [CallAdd 1 9]) = Some s \<and> crash s = None \<and>
     thr s = [Ready CIdle, Ready (CAdd 9), Ready (SEngine 100 7 False), Ready SStart] \<and>
     wq_valid (wq s) = WORKQ_VALID \<and> wq_heap (wq s) 102 = None \<and>
     wq_exec s (AddLocked 1 (Some 102) 0) = Some t \<and> crash t = Some NullDeref \<and> \<not> failed t \<and>
     workq_add all_ok (Some 102) (wq s) 9 = Inl NullDeref"
  by (simp add: busy_run_def wq_step.simps wq_eval workq_add_def)

text \<open>
  C40: the process can crash in \<open>workq_add\<close>, without the failure of any library call. With two clients and two servers there is a reachable state in which the second client is inside
  \<open>workq_add\<close> with memory from \<open>malloc\<close>, one server is in the engine and the other one has yet to run, and the call dereferences \<open>NULL\<close>: two items had been queued and one
  taken, which cleared \<open>last\<close>.
\<close>

theorem workq_add_crashes:
  "\<exists>s t. reach wq_init wq_exec s \<and> crash s = None \<and>
     thr s = [Ready CIdle, Ready (CAdd 9), Ready (SEngine 100 7 False), Ready SStart] \<and>
     malloc_ok (wq_heap (wq s)) (Some 102) \<and> workq_add all_ok (Some 102) (wq s) 9 = Inl NullDeref \<and>
     wq_exec s (AddLocked 1 (Some 102) 0) = Some t \<and> crash t = Some NullDeref \<and> \<not> failed t"
  using crash_state two_clients_reach by (fastforce simp: malloc_ok_def)

text \<open>
  When \<open>pthread_create\<close> fails, \<open>workq_add\<close> reports it but leaves the item in the queue, with no server; \<open>workq_destroy\<close> then
  destroys the queue with the item in it.
\<close>

lemma workq_create_failure_loses_work:
  "\<exists>t. run wq_exec two_clients [CallAdd 0 7, AddNoServer 0 (Some 100), CallDestroy 1, DestroyLocked 1] = Some t \<and>
     failed t \<and> wq_mutex (wq t) = Destroyed \<and> added t = [7] \<and> served t = [] \<and> wq_first (wq t) = Some 100"
  by (simp add: wq_step.simps wq_eval no_thread_def)

theorem workq_server_never_faults_witness:
  "\<exists>t e i mem j. crash (t :: wq_sys) = Some NullDeref \<and>
     (e = AddLocked i mem j \<or> e = AddNoServer i mem \<or> e = DestroyLocked i \<or> e = DestroyResume i)"
proof -
  obtain s t where t: "run wq_exec two_clients (busy_run @ [CallAdd 1 9]) = Some s"
    "wq_exec s (AddLocked 1 (Some 102) 0) = Some t" "crash t = Some NullDeref"
    using crash_state by blast
  from workq_server_never_faults [OF two_clients_reach [OF t(1)] t(2)] t(3) show ?thesis by auto
qed

theorem workq_add_faults_iff_witness:
  "\<exists>q. wq_last q = None \<and> wq_first q = Some 101 \<and> workq_add all_ok (Some 102) q 9 = Inl NullDeref"
proof -
  let ?q = "raw_workq\<lparr>wq_valid := WORKQ_VALID, wq_first := Some 101,
      wq_heap := [101 \<mapsto> \<lparr>cell_next = None, cell_data = 8\<rparr>]\<rparr>"
  have "list_ok ?q [101]" by (simp add: list_ok_def raw_workq_def)
  from workq_add_faults_iff [OF this, of 102 9] show ?thesis
    by (intro exI [of _ ?q]) (simp add: raw_workq_def)
qed

text \<open>A failing \<open>workq_init\<close> reports the failing call's status and leaves the queue invalid and
  without a live mutex, but the thread attributes object it initialised stays live when a later call
  fails.\<close>

theorem workq_init_failure:
  assumes "fst (workq_init st q n eng) \<noteq> 0" and "st Mutex_destroy = 0"
    and "wq_valid q \<noteq> WORKQ_VALID" and "wq_mutex q \<noteq> Live"
  shows "fst (workq_init st q n eng) \<in> st ` {Attr_init, Attr_setdetachstate, Mutex_init, Cond_init} \<and>
         wq_mutex (snd (workq_init st q n eng)) \<noteq> Live \<and>
         workq_add st' mem (snd (workq_init st q n eng)) d = Inr (EINVAL, snd (workq_init st q n eng), Nothing) \<and>
         (st Attr_init = 0 \<longrightarrow> wq_attr (snd (workq_init st q n eng)) = Live)"
  using assms by (auto simp: workq_init_def Let_def sync_defs workq_add_def split: if_splits)

theorem workq_init_failure_witness:
  "wq_attr (snd (workq_init (all_ok(Cond_init := 11)) raw_workq 4 0)) = Live"
proof -
  have "fst (workq_init (all_ok(Cond_init := 11)) raw_workq 4 0) \<noteq> 0"
    by (simp add: workq_init_def)
  then show ?thesis
    using workq_init_failure [of "all_ok(Cond_init := 11)" raw_workq 4 0]
    by (simp add: raw_workq_def WORKQ_VALID_def)
qed

end
