(* ===== verification/Workq_Demo.thy ===== *)
theory Workq_Demo
  imports Pthread
begin

text \<open>
  The program around the work queue of \<open>workq.c\<close>: two threads queue requests to raise a random number to
  a random power, the server threads run \<open>engine_routine\<close> for each, count their calls in thread-specific
  data, and leave their counts on a list when they exit; \<open>main\<close> adds them up. The random numbers are an
  argument, the \<open>int\<close> of the engine is kept at its width.
\<close>

section \<open>Requests\<close>

definition ITERATIONS :: nat where "ITERATIONS = 15"

record power_t =
  power_value :: int
  power_exp :: int

text \<open>\<open>rand k\<close> is the \<open>k\<close>-th number \<open>rand_r\<close> returns: each pass of the loop takes three, the last for its sleep.\<close>

definition request :: "(nat \<Rightarrow> nat) \<Rightarrow> nat \<Rightarrow> power_t" where
  "request rand k = \<lparr>power_value = int (rand (3 * k)) mod 20, power_exp = int (rand (3 * k + 1)) mod 7\<rparr>"

definition requests :: "(nat \<Rightarrow> nat) \<Rightarrow> power_t list" where
  "requests rand = map (request rand) [0..<ITERATIONS]"

section \<open>The engine\<close>

text \<open>\<open>for (count = 1; count <= power; count++) result *= value\<close>\<close>

function engine_loop :: "32 word \<Rightarrow> int \<Rightarrow> int \<Rightarrow> 32 word \<Rightarrow> 32 word" where
  "engine_loop v p c result =
     (if c \<le> p then engine_loop v p (c + 1) (result * v) else result)"
  by pat_completeness auto
termination
  by (relation "measure (\<lambda>(v, p, c, result). nat (p + 1 - c))") auto

declare engine_loop.simps [simp del]

record engine_t =
  engine_thread :: nat
  engine_calls :: nat

record engine_sys =
  tsd :: "nat \<Rightarrow> engine_t option"
  engine_list :: "engine_t list"

definition engine_routine :: "nat \<Rightarrow> power_t \<Rightarrow> engine_sys \<Rightarrow> 32 word \<times> engine_sys" where
  "engine_routine self arg s =
     (let engine = (case tsd s self of
                      None \<Rightarrow> \<lparr>engine_thread = self, engine_calls = 1\<rparr>
                    | Some e \<Rightarrow> e\<lparr>engine_calls := engine_calls e + 1\<rparr>)
      in (engine_loop (of_int (power_value arg)) (power_exp arg) 1 1, s\<lparr>tsd := (tsd s)(self \<mapsto> engine)\<rparr>))"

text \<open>A thread that exits with its key set puts its record in front of the list.\<close>

definition destructor :: "nat \<Rightarrow> engine_sys \<Rightarrow> engine_sys" where
  "destructor self s =
     (case tsd s self of
        None \<Rightarrow> s
      | Some e \<Rightarrow> s\<lparr>engine_list := e # engine_list s, tsd := (tsd s)(self := None)\<rparr>)"

text \<open>The sum \<open>main\<close> prints. (The number of engines it prints starts from an uninitialised variable.)\<close>

definition total_calls :: "engine_t list \<Rightarrow> nat" where
  "total_calls es = fold (\<lambda>e calls. calls + engine_calls e) es 0"

datatype engine_event = Serve nat power_t | Exit nat

fun engine_exec :: "engine_sys \<Rightarrow> engine_event \<Rightarrow> engine_sys" where
  "engine_exec s (Serve t arg) = snd (engine_routine t arg s)"
| "engine_exec s (Exit t) = destructor t s"

definition engine_start :: engine_sys where
  "engine_start = \<lparr>tsd = (\<lambda>_. None), engine_list = []\<rparr>"

fun is_serve :: "engine_event \<Rightarrow> bool" where
  "is_serve (Serve _ _) = True"
| "is_serve (Exit _) = False"

section \<open>Correctness\<close>

lemma engine_loop_power: "engine_loop v p c r = r * v ^ nat (p + 1 - c)"
proof (induction v p c r rule: engine_loop.induct)
  case (1 v p c r)
  show ?case
  proof (cases "c \<le> p")
    case True
    then have "nat (p + 1 - c) = Suc (nat (p + 1 - (c + 1)))" by auto
    with True 1 show ?thesis by (subst engine_loop.simps) (simp add: mult.assoc)
  next
    case False
    then show ?thesis by (subst engine_loop.simps) simp
  qed
qed

lemma power_fits:
  fixes v :: int and n :: nat
  assumes "0 \<le> v" "v \<le> 19" "n \<le> 6"
  shows "0 \<le> v ^ n" "v ^ n < 2 ^ 31"
proof -
  have "v ^ n \<le> 19 ^ n" using assms by (intro power_mono) auto
  also have "(19 :: int) ^ n \<le> 19 ^ 6" using assms by (intro power_increasing) auto
  finally show "v ^ n < 2 ^ 31" by simp
qed (use assms in simp)

lemma sint_small: "0 \<le> k \<Longrightarrow> k < 2 ^ 31 \<Longrightarrow> sint (of_int k :: 32 word) = k"
  using sint_of_nat_int [of "nat k"] by simp

text \<open>Counting the calls on the list and in the threads.\<close>

lemma total_calls_Cons: "total_calls (e # es) = engine_calls e + total_calls es"
proof -
  have "fold (\<lambda>e calls. calls + engine_calls e) es n = n + fold (\<lambda>e calls. calls + engine_calls e) es 0" for n
  proof (induction es arbitrary: n)
    case (Cons e es)
    from Cons.IH [of "n + engine_calls e"] Cons.IH [of "engine_calls e"] show ?case by simp
  qed simp
  from this [of "engine_calls e"] show ?thesis by (simp add: total_calls_def)
qed

definition held_calls :: "nat \<Rightarrow> engine_sys \<Rightarrow> nat" where
  "held_calls n s = (\<Sum>t < n. case tsd s t of None \<Rightarrow> 0 | Some e \<Rightarrow> engine_calls e)"

fun event_thread :: "engine_event \<Rightarrow> nat" where
  "event_thread (Serve t _) = t"
| "event_thread (Exit t) = t"

lemma held_upd:
  assumes "t < n" and "\<And>u. u \<noteq> t \<Longrightarrow> tsd s' u = tsd s u"
  shows "held_calls n s' + (case tsd s t of None \<Rightarrow> 0 | Some e \<Rightarrow> engine_calls e) =
         held_calls n s + (case tsd s' t of None \<Rightarrow> 0 | Some e \<Rightarrow> engine_calls e)"
proof -
  let ?f = "\<lambda>s u. case tsd s u of None \<Rightarrow> 0 | Some e \<Rightarrow> engine_calls e"
  have "sum (?f s') ({..<n} - {t}) = sum (?f s) ({..<n} - {t})" by (rule sum.cong) (auto simp: assms(2))
  with assms(1) show ?thesis
    unfolding held_calls_def by (simp add: sum.remove [of "{..<n}" t "?f s"] sum.remove [of "{..<n}" t "?f s'"])
qed

lemma engine_exec_counts:
  assumes "event_thread e < n"
  shows "total_calls (engine_list (engine_exec s e)) + held_calls n (engine_exec s e) =
         total_calls (engine_list s) + held_calls n s + (if is_serve e then 1 else 0)"
proof (cases e)
  case (Serve t arg)
  with held_upd [of t n "engine_exec s e" s] assms show ?thesis
    by (auto simp: engine_routine_def Let_def split: option.splits)
next
  case (Exit t)
  with held_upd [of t n "engine_exec s e" s] assms show ?thesis
    by (cases "tsd s t") (auto simp: destructor_def total_calls_Cons)
qed

lemma engine_run_counts:
  assumes "list_all (\<lambda>e. event_thread e < n) es"
  shows "total_calls (engine_list (foldl engine_exec s es)) + held_calls n (foldl engine_exec s es) =
         total_calls (engine_list s) + held_calls n s + length (filter is_serve es)"
  using assms
proof (induction es arbitrary: s)
  case (Cons e es)
  with engine_exec_counts [of e n s] Cons.IH [of "engine_exec s e"] show ?case by simp
qed simp

text \<open>The program around the work queue. The engine computes the power it is asked for, without leaving the
  range of \<open>int\<close>, for every request the program can make; and when all threads have exited, in
  whatever order requests were served and threads exited, the calls that \<open>main\<close> adds up are exactly
  the requests served.\<close>

theorem engine_correct:
  assumes "list_all (\<lambda>e. event_thread e < n) es" and "\<forall>t < n. tsd (foldl engine_exec engine_start es) t = None"
  shows "(\<forall>arg \<in> set (requests rand). sint (fst (engine_routine t arg s)) = power_value arg ^ nat (power_exp arg)) \<and>
         total_calls (engine_list (foldl engine_exec engine_start es)) = length (filter is_serve es)"
proof
  show "\<forall>arg \<in> set (requests rand). sint (fst (engine_routine t arg s)) = power_value arg ^ nat (power_exp arg)"
  proof
    fix arg assume "arg \<in> set (requests rand)"
    then have "0 \<le> power_value arg" "power_value arg \<le> 19" "nat (power_exp arg) \<le> 6"
      by (auto simp: requests_def request_def)
    from power_fits [OF this] show "sint (fst (engine_routine t arg s)) = power_value arg ^ nat (power_exp arg)"
      using sint_small by (simp add: engine_routine_def Let_def engine_loop_power flip: of_int_power)
  qed
  have "held_calls n (foldl engine_exec engine_start es) = 0" using assms(2) by (simp add: held_calls_def)
  with engine_run_counts [OF assms(1), of engine_start] show
    "total_calls (engine_list (foldl engine_exec engine_start es)) = length (filter is_serve es)"
    by (simp add: engine_start_def total_calls_def held_calls_def)
qed

theorem engine_correct_witness:
  "total_calls (engine_list (foldl engine_exec engine_start
     [Serve 0 (request id 4), Serve 1 (request id 2), Serve 0 (request id 3), Exit 1, Exit 0])) = 3 \<and>
   sint (fst (engine_routine 0 (request id 4) engine_start)) = 12 ^ 6"
proof -
  let ?es = "[Serve 0 (request id 4), Serve 1 (request id 2), Serve 0 (request id 3), Exit 1, Exit 0]"
  have "list_all (\<lambda>e. event_thread e < 2) ?es" "\<forall>t < 2. tsd (foldl engine_exec engine_start ?es) t = None"
    by (simp_all add: engine_routine_def destructor_def engine_start_def Let_def)
  note c = engine_correct [OF this, of id 0 engine_start]
  have "request id 4 \<in> set (requests id)" by (simp add: requests_def ITERATIONS_def)
  moreover have "power_value (request id 4) = 12" "power_exp (request id 4) = 6" by (simp_all add: request_def)
  ultimately show ?thesis using c by auto
qed

end
