(* ===== verification/Fifo.thy ===== *)
theory Fifo
  imports C_Prelude
begin

text \<open>
  The contract of the first-in first-out queues that \<open>crew.c\<close> and \<open>server.c\<close> each write out with
  a \<open>first\<close> and a \<open>last\<close> pointer. A provider names its enqueue (which links a cell \<open>malloc\<close> has just
  returned), its dequeue and the list of values a state stands for; a client that only uses the
  contract gets the values out in the order it put them in.
\<close>

datatype 'x qop = Put addr 'x | Get

locale fifo =
  fixes enq :: "addr \<Rightarrow> 'x \<Rightarrow> 'q \<Rightarrow> fault + 'q"
    and deq :: "'q \<Rightarrow> fault + ('x \<times> 'q) option"
    and unused :: "'q \<Rightarrow> addr \<Rightarrow> bool"
    and repr :: "'q \<Rightarrow> 'x list \<Rightarrow> bool"
  assumes enq_law: "repr q xs \<Longrightarrow> unused q a \<Longrightarrow> \<exists>q'. enq a x q = Inr q' \<and> repr q' (xs @ [x])"
    and deq_empty: "repr q [] \<Longrightarrow> deq q = Inr None"
    and deq_law: "repr q (x # xs) \<Longrightarrow> \<exists>q'. deq q = Inr (Some (x, q')) \<and> repr q' xs"
begin

lemma enq_repr: "repr q xs \<Longrightarrow> unused q a \<Longrightarrow> enq a x q = Inr q' \<Longrightarrow> repr q' (xs @ [x])"
  using enq_law [of q xs a x] by auto

lemma deq_repr:
  assumes "repr q xs" and "deq q = Inr (Some (x, q'))"
  shows "\<exists>ys. xs = x # ys \<and> repr q' ys"
proof (cases xs)
  case Nil
  with assms deq_empty show ?thesis by auto
next
  case (Cons y ys)
  with assms deq_law [of q y ys] show ?thesis by auto
qed

lemma deq_none: "repr q xs \<Longrightarrow> deq q = Inr None \<longleftrightarrow> xs = []"
  using deq_empty deq_law by (cases xs) fastforce+

lemma no_fault: "repr q xs \<Longrightarrow> \<exists>r. deq q = Inr r"
  using deq_empty deq_law by (cases xs) blast+

text \<open>A sequence of operations; an address in use is never returned by \<open>malloc\<close>.\<close>

fun serve :: "'x qop list \<Rightarrow> 'q \<Rightarrow> (fault + ('x list \<times> 'q)) option" where
  "serve [] q = Some (Inr ([], q))"
| "serve (Put a x # ops) q =
     (if unused q a then (case enq a x q of Inl f \<Rightarrow> Some (Inl f) | Inr q' \<Rightarrow> serve ops q') else None)"
| "serve (Get # ops) q =
     (case deq q of
        Inl f \<Rightarrow> Some (Inl f)
      | Inr None \<Rightarrow> serve ops q
      | Inr (Some (x, q')) \<Rightarrow>
          map_option (map_sum id (\<lambda>(out, r). (x # out, r))) (serve ops q'))"

fun puts :: "'x qop list \<Rightarrow> 'x list" where
  "puts [] = []"
| "puts (Put a x # ops) = x # puts ops"
| "puts (Get # ops) = puts ops"

lemma serve_fifo:
  "repr q xs \<Longrightarrow> serve ops q = Some r \<Longrightarrow>
   \<exists>out q' ys. r = Inr (out, q') \<and> repr q' ys \<and> xs @ puts ops = out @ ys"
proof (induction ops q arbitrary: xs r rule: serve.induct)
  case (2 a x ops q)
  then have u: "unused q a" by (auto split: if_splits)
  from enq_law [OF 2(2) u] obtain q' where q': "enq a x q = Inr q'" "repr q' (xs @ [x])" by blast
  from 2(1) [OF u q'] 2(3) u q' show ?case by auto
next
  case (3 ops q)
  show ?case
  proof (cases xs)
    case Nil
    with 3(3) have d: "deq q = Inr None" by (simp add: deq_empty)
    with 3(4) have "serve ops q = Some r" by simp
    with 3(1) [OF d refl 3(3)] show ?thesis by simp
  next
    case (Cons y ys)
    with deq_law [of q y ys] 3(3) obtain q' where q': "deq q = Inr (Some (y, q'))" "repr q' ys" by auto
    from 3(4) q' obtain r' where "serve ops q' = Some r'" "r = map_sum id (\<lambda>(out, r). (y # out, r)) r'"
      by (auto simp: map_option_case split: option.splits)
    with 3(2) [OF q'(1) refl refl q'(2)] Cons show ?thesis by auto
  qed
qed auto

end

end
