(* ===== verification/Crew.thy ===== *)
theory Crew
  imports Pthread Fifo C_String
begin

text \<open>
  The work crew of \<open>crew.c\<close>: a fixed set of worker threads that search the files below a path. The
  items of work are a linked queue guarded by one mutex; \<open>go\<close> tells the workers that there is work,
  \<open>done\<close> tells \<open>crew_start\<close> that all of it has been processed. What the file system answers is a
  parameter (\<open>fsys\<close>). \<open>crew_exec\<close> runs the workers and any number of callers of \<open>crew_start\<close>, in every
  interleaving.
\<close>

section \<open>Data\<close>

definition CREW_SIZE :: int where "CREW_SIZE = 5"

record work =
  path :: string
  search_string :: string

record crew =
  crew_size :: int
  work_count :: int
  crew_heap :: "work heap"
  first :: ptr
  last_work :: ptr
  crew_mutex :: syncobj
  done_cv :: syncobj
  go_cv :: syncobj
  path_max :: int
  name_max :: int

datatype fmode = LNK | DIR | REG | Other

text \<open>
  The file system: \<open>lstat\<close> fails or gives the type; \<open>opendir\<close> fails or gives the names the calls of
  \<open>readdir_r\<close> return up to the end of the directory or the first error; \<open>fopen\<close> fails or gives the
  contents; \<open>pathconf\<close> gives a limit and \<open>errno\<close>.
\<close>

record fsys =
  lstat :: "string \<Rightarrow> fmode option"
  opendir :: "string \<Rightarrow> string list option"
  fopen :: "string \<Rightarrow> string option"
  pathconf_path :: "string \<Rightarrow> int \<times> int"
  pathconf_name :: "string \<Rightarrow> int \<times> int"

section \<open>The queue of work\<close>

definition crew_push :: "addr \<Rightarrow> work \<Rightarrow> crew \<Rightarrow> fault + crew" where
  "crew_push new_work w crew =
     (let crew = crew\<lparr>crew_heap := (crew_heap crew)(new_work \<mapsto> \<lparr>cell_next = None, cell_data = w\<rparr>)\<rparr>
      in if first crew = None then Inr (crew\<lparr>first := Some new_work, last_work := Some new_work\<rparr>)
         else ebind (store_next (crew_heap crew) (last_work crew) (Some new_work))
                (\<lambda>h. Inr (crew\<lparr>crew_heap := h, last_work := Some new_work\<rparr>)))"

definition crew_pop :: "crew \<Rightarrow> fault + (work \<times> crew) option" where
  "crew_pop crew =
     (case first crew of
        None \<Rightarrow> Inr None
      | Some p \<Rightarrow>
          ebind (deref (crew_heap crew) (Some p))
            (\<lambda>c. let crew = crew\<lparr>first := cell_next c\<rparr>;
                     crew = (if first crew = None then crew\<lparr>last_work := None\<rparr> else crew)
                 in Inr (Some (cell_data c, crew))))"

definition crew_unused :: "crew \<Rightarrow> addr \<Rightarrow> bool" where
  "crew_unused crew a \<longleftrightarrow> crew_heap crew a = None"

definition queued :: "crew \<Rightarrow> work list \<Rightarrow> bool" where
  "queued crew ws \<longleftrightarrow>
     (\<exists>as. queue_at (crew_heap crew) (first crew) (last_work crew) as \<and> ws = payloads (crew_heap crew) as)"

lemma crew_push_queued:
  assumes q: "queued crew ws" and a: "crew_unused crew a"
  shows "\<exists>c'. crew_push a w crew = Inr c' \<and> queued c' (ws @ [w])"
proof -
  from q obtain as where as: "queue_at (crew_heap crew) (first crew) (last_work crew) as"
    "ws = payloads (crew_heap crew) as" by (auto simp: queued_def)
  have fresh: "a \<notin> set as" using as a lseg_live by (fastforce simp: queue_at_def crew_unused_def)
  show ?thesis
  proof (cases "as = []")
    case True
    with as show ?thesis by (auto simp: crew_push_def queued_def queue_at_def Let_def intro!: exI [of _ "[a]"])
  next
    case False
    then obtain c where c: "crew_heap crew (last as) = Some c" using queue_at_last_live as by blast
    let ?h = "(crew_heap crew)(a \<mapsto> \<lparr>cell_next = None, cell_data = w\<rparr>, last as \<mapsto> c\<lparr>cell_next := Some a\<rparr>)"
    have ne: "last as \<noteq> a" using fresh False last_in_set by metis
    have l: "last_work crew = Some (last as)" "first crew \<noteq> None"
      using as(1) False queue_at_first_None [OF as(1)] by (auto simp: queue_at_def)
    have "crew_push a w crew = Inr (crew\<lparr>crew_heap := ?h, last_work := Some a\<rparr>)"
      using l c ne by (auto simp: crew_push_def Let_def)
    moreover have "queue_at ?h (first crew) (Some a) (as @ [a])"
      by (rule queue_at_snoc [OF as(1) False c]) (use a in \<open>auto simp: crew_unused_def\<close>)
    moreover have "payloads ?h (as @ [a]) = ws @ [w]"
      using as(2) fresh c ne by (auto simp: payloads_def)
    ultimately show ?thesis by (auto simp: queued_def intro!: exI [of _ "as @ [a]"])
  qed
qed

lemma crew_pop_queued:
  assumes "queued crew (w # ws)"
  shows "\<exists>c'. crew_pop crew = Inr (Some (w, c')) \<and> queued c' ws"
proof -
  from assms obtain a as where as: "queue_at (crew_heap crew) (first crew) (last_work crew) (a # as)"
    "w # ws = payloads (crew_heap crew) (a # as)" by (cases "[] :: addr list") (auto simp: queued_def payloads_def)
  then obtain c where c: "first crew = Some a" "crew_heap crew a = Some c" by (auto simp: queue_at_def)
  with as show ?thesis
    by (cases as) (auto simp: crew_pop_def queued_def queue_at_def Let_def intro!: exI [of _ as])
qed

interpretation crew_queue: fifo crew_push crew_pop crew_unused queued
proof
  show "\<exists>q'. crew_push a x q = Inr q' \<and> queued q' (xs @ [x])" if "queued q xs" "crew_unused q a" for q xs a x
    using crew_push_queued that by blast
  show "crew_pop q = Inr None" if "queued q []" for q
    using that by (auto simp: queued_def crew_pop_def payloads_def)
  show "\<exists>q'. crew_pop q = Inr (Some (x, q')) \<and> queued q' xs" if "queued q (x # xs)" for q x xs
    using crew_pop_queued that by blast
qed

section \<open>Creating the crew\<close>

text \<open>The third component is the number of worker threads created: always \<open>CREW_SIZE\<close>.\<close>

definition crew_create :: "penv \<Rightarrow> crew \<Rightarrow> int \<Rightarrow> fault + (int \<times> crew \<times> nat)" where
  "crew_create st crew n =
     (if n > CREW_SIZE then Inr (EINVAL, crew, 0)
      else let crew = crew\<lparr>crew_size := n, work_count := 0, first := None, last_work := None\<rparr>;
               crew = crew\<lparr>crew_mutex := init_obj (st Mutex_init) (crew_mutex crew)\<rparr>
           in if st Mutex_init \<noteq> 0 then Inr (st Mutex_init, crew, 0)
              else let crew = crew\<lparr>done_cv := init_obj (st Cond_init) (done_cv crew)\<rparr>
                   in if st Cond_init \<noteq> 0 then Inr (st Cond_init, crew, 0)
                      else let crew = crew\<lparr>go_cv := init_obj (st Cond_init) (go_cv crew)\<rparr>
                           in if st Create \<noteq> 0 then Inl (Aborted (st Create))
                              else Inr (0, crew, nat CREW_SIZE))"

section \<open>Starting a search\<close>

datatype start_next = SReturn int | SBusy | SQueued

definition crew_limits :: "fsys \<Rightarrow> string \<Rightarrow> crew \<Rightarrow> fault + crew" where
  "crew_limits fs filepath crew =
     (case pathconf_path fs filepath of (pm, e1) \<Rightarrow>
        if pm = -1 \<and> e1 \<noteq> 0 then Inl (Aborted 1)
        else let crew = crew\<lparr>path_max := (if pm = -1 then 1024 else pm)\<rparr>
             in case pathconf_name fs filepath of (nm, e2) \<Rightarrow>
                  if nm = -1 \<and> e2 \<noteq> 0 then Inl (Aborted 1)
                  else let crew = crew\<lparr>name_max := (if nm = -1 then 256 else nm)\<rparr>
                       in Inr (crew\<lparr>path_max := path_max crew + 1, name_max := name_max crew + 1\<rparr>))"

definition crew_start_wait :: "penv \<Rightarrow> crew \<Rightarrow> fault + (crew \<times> start_next)" where
  "crew_start_wait st crew =
     (if work_count crew > 0 then Inr (crew, SQueued)
      else if st Mutex_unlock \<noteq> 0 then Inl (Aborted (st Mutex_unlock))
      else Inr (crew, SReturn 0))"

text \<open>
  Behind the busy loop. \<open>mem\<close> is the request cell, \<open>strmem\<close> whether the buffer for the search string
  was allocated; it holds \<open>name_max\<close> bytes and \<open>strcpy\<close> does not look at that. The path is not copied:
  \<open>request->path = NULL\<close> is an assignment, and the caller's pointer is stored next.
\<close>

definition crew_start_queue ::
  "penv \<Rightarrow> fsys \<Rightarrow> ptr \<Rightarrow> bool \<Rightarrow> string \<Rightarrow> string \<Rightarrow> crew \<Rightarrow> fault + (crew \<times> start_next)" where
  "crew_start_queue st fs mem strmem filepath search crew =
     ebind (crew_limits fs filepath crew) (\<lambda>crew.
       case mem of
         None \<Rightarrow> Inl (Aborted 1)
       | Some request \<Rightarrow>
           if \<not> strmem then Inl NullDeref
           else if int (length search) + 1 > name_max crew then Inl OutOfBounds
           else ebind (crew_push request \<lparr>path = filepath, search_string = search\<rparr> crew) (\<lambda>crew.
             let crew = crew\<lparr>work_count := work_count crew + 1\<rparr>
             in if st Cond_signal \<noteq> 0
                then Inr (crew\<lparr>crew_heap := (case first crew of None \<Rightarrow> crew_heap crew
                                                  | Some p \<Rightarrow> (crew_heap crew)(p := None)),
                               first := None, work_count := 0\<rparr>, SReturn (st Cond_signal))
                else crew_start_wait st crew))"

definition crew_start ::
  "penv \<Rightarrow> fsys \<Rightarrow> ptr \<Rightarrow> bool \<Rightarrow> string \<Rightarrow> string \<Rightarrow> crew \<Rightarrow> fault + (crew \<times> start_next)" where
  "crew_start st fs mem strmem filepath search crew =
     (if st Mutex_lock \<noteq> 0 then Inr (crew, SReturn (st Mutex_lock))
      else if work_count crew > 0 then Inr (crew, SBusy)
      else crew_start_queue st fs mem strmem filepath search crew)"

text \<open>The wait in the busy loop has returned \<open>status\<close>.\<close>

definition crew_start_resume ::
  "penv \<Rightarrow> int \<Rightarrow> fsys \<Rightarrow> ptr \<Rightarrow> bool \<Rightarrow> string \<Rightarrow> string \<Rightarrow> crew \<Rightarrow> fault + (crew \<times> start_next)" where
  "crew_start_resume st status fs mem strmem filepath search crew =
     (if status \<noteq> 0 then Inr (crew, SReturn status)
      else if work_count crew > 0 then Inr (crew, SBusy)
      else crew_start_queue st fs mem strmem filepath search crew)"

definition crew_start_done :: "penv \<Rightarrow> int \<Rightarrow> crew \<Rightarrow> fault + (crew \<times> start_next)" where
  "crew_start_done st status crew =
     (if status \<noteq> 0 then Inl (Aborted status) else crew_start_wait st crew)"

section \<open>The workers\<close>

text \<open>The loop over the lines of a regular file, with the buffer of 256 bytes.\<close>

function search_file :: "string \<Rightarrow> string \<Rightarrow> bool" where
  "search_file pat s =
     (if s = [] then False
      else case fgets 255 s of (buffer, rest) \<Rightarrow>
             if strstr (cstr buffer) pat then True else search_file pat rest)"
  by auto

termination
  by (relation "measure (\<lambda>(pat, s). length s)") (simp_all add: fgets_progress)

declare search_file.simps [simp del]

record wlocal =
  entry :: bool
  filestat :: "fmode option"

datatype after_stat = Skip | Continue | ReadDir "string list" | Searched bool

text \<open>
  \<open>lstat\<close>'s status is not tested: when it fails the type of the previous item is used, and for the
  first item \<open>filestat\<close> is not initialised. A directory that cannot be opened is left with
  \<open>continue\<close>.
\<close>

definition worker_stat :: "fsys \<Rightarrow> wlocal \<Rightarrow> work \<Rightarrow> fault + (wlocal \<times> after_stat)" where
  "worker_stat fs l w =
     (let l = (case lstat fs (path w) of None \<Rightarrow> l | Some m \<Rightarrow> l\<lparr>filestat := Some m\<rparr>)
      in case filestat l of
           None \<Rightarrow> Inl Uninitialised
         | Some LNK \<Rightarrow> Inr (l, Skip)
         | Some DIR \<Rightarrow> (case opendir fs (path w) of None \<Rightarrow> Inr (l, Continue) | Some names \<Rightarrow> Inr (l, ReadDir names))
         | Some REG \<Rightarrow> (case fopen fs (path w) of
                          None \<Rightarrow> Inr (l, Skip)
                        | Some s \<Rightarrow> Inr (l, Searched (search_file (search_string w) s)))
         | Some Other \<Rightarrow> Inr (l, Skip))"

text \<open>\<open>malloc(40)\<close> holds the path of a directory entry; \<open>strcpy\<close> and \<open>strcat\<close> do not look at that.\<close>

definition child :: "string \<Rightarrow> string \<Rightarrow> string" where
  "child p name = p @ ''/'' @ name"

definition worker_path :: "string \<Rightarrow> string \<Rightarrow> fault + string" where
  "worker_path p name = (if length (child p name) + 1 > 40 then Inl OutOfBounds else Inr (child p name))"

definition dot :: "string \<Rightarrow> bool" where
  "dot name \<longleftrightarrow> name = ''.'' \<or> name = ''..''"

definition worker_entry :: "penv \<Rightarrow> ptr \<Rightarrow> wlocal \<Rightarrow> work \<Rightarrow> string \<Rightarrow> crew \<Rightarrow> fault + (work \<times> crew) option" where
  "worker_entry st mem l w name crew =
     (if \<not> entry l then Inl NullDeref
      else if dot name then Inr None
      else case mem of
             None \<Rightarrow> Inl NullDeref
           | Some new_work \<Rightarrow>
               ebind (worker_path (path w) name) (\<lambda>p.
                 if st Mutex_lock \<noteq> 0 then Inl (Aborted (st Mutex_lock))
                 else let nw = \<lparr>path = p, search_string = search_string w\<rparr>
                      in ebind (crew_push new_work nw crew) (\<lambda>crew.
                           let crew = crew\<lparr>work_count := work_count crew + 1\<rparr>
                           in if st Mutex_unlock \<noteq> 0 then Inl (Aborted (st Mutex_unlock))
                              else Inr (Some (nw, crew)))))"

definition worker_go :: "crew \<Rightarrow> bool" where
  "worker_go crew \<longleftrightarrow> work_count crew \<noteq> 0"

definition worker_top :: "penv \<Rightarrow> crew \<Rightarrow> fault + (work \<times> crew) option" where
  "worker_top st crew =
     ebind (crew_pop crew) (\<lambda>r.
       case r of
         None \<Rightarrow> Inr None
       | Some x \<Rightarrow> if st Mutex_unlock \<noteq> 0 then Inl (Aborted (st Mutex_unlock)) else Inr (Some x))"

text \<open>The flag says that \<open>done\<close> was broadcast and the worker leaves its loop.\<close>

definition worker_finish :: "penv \<Rightarrow> crew \<Rightarrow> fault + (crew \<times> bool)" where
  "worker_finish st crew =
     (if st Mutex_lock \<noteq> 0 then Inl (Aborted (st Mutex_lock))
      else let crew = crew\<lparr>work_count := work_count crew - 1\<rparr>
           in if work_count crew \<le> 0 then
                (if st Cond_broadcast \<noteq> 0 then Inl (Aborted (st Cond_broadcast))
                 else if st Mutex_unlock \<noteq> 0 then Inl (Aborted (st Mutex_unlock))
                 else Inr (crew, True))
              else if st Mutex_unlock \<noteq> 0 then Inl (Aborted (st Mutex_unlock))
              else Inr (crew, False))"

section \<open>Callers and workers running together\<close>

datatype crew_cv = Go | Done

text \<open>
  Callers are outside (\<open>CIdle\<close>), in the busy loop or in the loop for the end of their search. Workers
  are in the first wait, allocating \<open>entry\<close>, at the top of the main loop, behind the dequeue, reading
  a directory (with the names still to come) or about to count an item off.
\<close>

datatype crew_pc =
    CIdle | CBusy string string | CQueued
  | WStart | WAlloc | WTop wlocal | WWork wlocal work | WDir wlocal work "string list" | WFinish wlocal work

type_synonym crew_thr = "(crew_cv, crew_pc) tstate"

record crew_sys =
  cw :: crew
  thr :: "crew_thr list"
  crash :: "fault option"
  roots :: "work list"
  added :: "work list"
  taken :: "work list"
  processed :: "work list"
  leaked :: "work list"
  found :: "work list"

datatype crew_event =
    CallStart nat string string ptr bool nat | StartResume nat ptr bool nat | StartDone nat
  | WorkerGo nat | WorkerAlloc nat bool | WorkerTop nat | WorkerStat nat
  | WorkerRead nat ptr nat | WorkerFinish nat | Spurious nat crew_cv

definition ptr_ok :: "crew \<Rightarrow> ptr \<Rightarrow> bool" where
  "ptr_ok crew mem \<longleftrightarrow> (case mem of None \<Rightarrow> True | Some a \<Rightarrow> crew_unused crew a)"

definition put :: "nat \<Rightarrow> crew_thr \<Rightarrow> crew_sys \<Rightarrow> crew_sys" where
  "put i t s = s\<lparr>thr := (thr s)[i := t]\<rparr>"

text \<open>A caller in the first part of \<open>crew_start\<close>; a request that was queued has signalled \<open>go\<close>.\<close>

definition start_put ::
  "nat \<Rightarrow> nat \<Rightarrow> string \<Rightarrow> string \<Rightarrow> fault + (crew \<times> start_next) \<Rightarrow> crew_sys \<Rightarrow> crew_sys option" where
  "start_put i j p str r s =
     (case r of
        Inl f \<Rightarrow> Some (s\<lparr>crash := Some f\<rparr>)
      | Inr (c, SReturn _) \<Rightarrow> Some (put i (Ready CIdle) (s\<lparr>cw := c\<rparr>))
      | Inr (c, SBusy) \<Rightarrow> Some (put i (Waiting Done (CBusy p str)) (s\<lparr>cw := c\<rparr>))
      | Inr (c, SQueued) \<Rightarrow>
          let ts = (thr s)[i := Waiting Done CQueued]
          in if signal_ok Go j ts
             then Some (s\<lparr>cw := c, thr := cond_signal Go j ts, roots := roots s @ [\<lparr>path = p, search_string = str\<rparr>],
                          added := added s @ [\<lparr>path = p, search_string = str\<rparr>]\<rparr>)
             else None)"

fun crew_step :: "fsys \<Rightarrow> crew_sys \<Rightarrow> crew_event \<Rightarrow> crew_sys option" where
  "crew_step fs s (CallStart i p str mem strmem j) =
     (if i < length (thr s) \<and> thr s ! i = Ready CIdle \<and> ptr_ok (cw s) mem
      then start_put i j p str (crew_start all_ok fs mem strmem p str (cw s)) s else None)"
| "crew_step fs s (StartResume i mem strmem j) =
     (if i < length (thr s) \<and> ptr_ok (cw s) mem then
        case thr s ! i of
          Ready (CBusy p str) \<Rightarrow> start_put i j p str (crew_start_resume all_ok 0 fs mem strmem p str (cw s)) s
        | _ \<Rightarrow> None
      else None)"
| "crew_step fs s (StartDone i) =
     (if i < length (thr s) \<and> thr s ! i = Ready CQueued then
        case crew_start_done all_ok 0 (cw s) of
          Inl f \<Rightarrow> Some (s\<lparr>crash := Some f\<rparr>)
        | Inr (c, SReturn _) \<Rightarrow> Some (put i (Ready CIdle) (s\<lparr>cw := c\<rparr>))
        | Inr (c, _) \<Rightarrow> Some (put i (Waiting Done CQueued) (s\<lparr>cw := c\<rparr>))
      else None)"
| "crew_step fs s (WorkerGo i) =
     (if i < length (thr s) \<and> thr s ! i = Ready WStart
      then Some (put i (if worker_go (cw s) then Ready WAlloc else Waiting Go WStart) s) else None)"
| "crew_step fs s (WorkerAlloc i ok) =
     (if i < length (thr s) \<and> thr s ! i = Ready WAlloc
      then Some (put i (Ready (WTop \<lparr>entry = ok, filestat = None\<rparr>)) s) else None)"
| "crew_step fs s (WorkerTop i) =
     (if i < length (thr s) then
        case thr s ! i of
          Ready (WTop l) \<Rightarrow>
            (case worker_top all_ok (cw s) of
               Inl f \<Rightarrow> Some (s\<lparr>crash := Some f\<rparr>)
             | Inr None \<Rightarrow> Some (put i (Waiting Go (WTop l)) s)
             | Inr (Some (w, c)) \<Rightarrow> Some (put i (Ready (WWork l w)) (s\<lparr>cw := c, taken := taken s @ [w]\<rparr>)))
        | _ \<Rightarrow> None
      else None)"
| "crew_step fs s (WorkerStat i) =
     (if i < length (thr s) then
        case thr s ! i of
          Ready (WWork l w) \<Rightarrow>
            (case worker_stat fs l w of
               Inl f \<Rightarrow> Some (s\<lparr>crash := Some f\<rparr>)
             | Inr (l', Skip) \<Rightarrow> Some (put i (Ready (WFinish l' w)) s)
             | Inr (l', Continue) \<Rightarrow> Some (put i (Ready (WTop l')) (s\<lparr>leaked := leaked s @ [w]\<rparr>))
             | Inr (l', ReadDir names) \<Rightarrow> Some (put i (Ready (WDir l' w names)) s)
             | Inr (l', Searched b) \<Rightarrow>
                 Some (put i (Ready (WFinish l' w)) (s\<lparr>found := (if b then found s @ [w] else found s)\<rparr>)))
        | _ \<Rightarrow> None
      else None)"
| "crew_step fs s (WorkerRead i mem j) =
     (if i < length (thr s) \<and> ptr_ok (cw s) mem then
        case thr s ! i of
          Ready (WDir l w []) \<Rightarrow> Some (put i (Ready (WFinish l w)) s)
        | Ready (WDir l w (name # names)) \<Rightarrow>
            (case worker_entry all_ok mem l w name (cw s) of
               Inl f \<Rightarrow> Some (s\<lparr>crash := Some f\<rparr>)
             | Inr None \<Rightarrow> Some (put i (Ready (WDir l w names)) s)
             | Inr (Some (nw, c)) \<Rightarrow>
                 let ts = (thr s)[i := Ready (WDir l w names)]
                 in if signal_ok Go j ts
                    then Some (s\<lparr>cw := c, thr := cond_signal Go j ts, added := added s @ [nw]\<rparr>)
                    else None)
        | _ \<Rightarrow> None
      else None)"
| "crew_step fs s (WorkerFinish i) =
     (if i < length (thr s) then
        case thr s ! i of
          Ready (WFinish l w) \<Rightarrow>
            (case worker_finish all_ok (cw s) of
               Inl f \<Rightarrow> Some (s\<lparr>crash := Some f\<rparr>)
             | Inr (c, True) \<Rightarrow>
                 Some (s\<lparr>cw := c, thr := cond_broadcast Done ((thr s)[i := Finished]), processed := processed s @ [w]\<rparr>)
             | Inr (c, False) \<Rightarrow> Some (put i (Ready (WTop l)) (s\<lparr>cw := c, processed := processed s @ [w]\<rparr>)))
        | _ \<Rightarrow> None
      else None)"
| "crew_step fs s (Spurious i c) = Some (s\<lparr>thr := spurious i c (thr s)\<rparr>)"

definition crew_exec :: "fsys \<Rightarrow> crew_sys \<Rightarrow> crew_event \<Rightarrow> crew_sys option" where
  "crew_exec fs s e = (if crash s = None then crew_step fs s e else None)"

text \<open>The start: a crew just created, with its workers, and idle callers.\<close>

definition crew_begin :: "crew \<Rightarrow> nat \<Rightarrow> nat \<Rightarrow> crew_sys" where
  "crew_begin c k n = \<lparr>cw = c, thr = replicate n (Ready CIdle) @ replicate k (Ready WStart), crash = None,
     roots = [], added = [], taken = [], processed = [], leaked = [], found = []\<rparr>"

definition crew_init :: "crew_sys \<Rightarrow> bool" where
  "crew_init s \<longleftrightarrow> (\<exists>c0 n c k m. crew_create all_ok c0 n = Inr (0, c, k) \<and> s = crew_begin c k m)"

section \<open>The counting invariant\<close>

fun pc_item :: "crew_pc \<Rightarrow> work multiset" where
  "pc_item (WWork l w) = {#w#}"
| "pc_item (WDir l w names) = {#w#}"
| "pc_item (WFinish l w) = {#w#}"
| "pc_item _ = {#}"

fun item :: "crew_thr \<Rightarrow> work multiset" where
  "item (Ready p) = pc_item p"
| "item (Waiting c p) = pc_item p"
| "item Finished = {#}"

fun worker_pc :: "crew_pc \<Rightarrow> bool" where
  "worker_pc CIdle = False"
| "worker_pc (CBusy p str) = False"
| "worker_pc CQueued = False"
| "worker_pc _ = True"

fun is_worker :: "crew_thr \<Rightarrow> bool" where
  "is_worker (Ready p) = worker_pc p"
| "is_worker (Waiting c p) = worker_pc p"
| "is_worker Finished = False"

lemma item_wake [simp]: "item (wake c t) = item t"
  by (cases t) auto

lemma worker_stable [simp]: "wake_stable is_worker"
  by (rule wake_stableI) simp

text \<open>Which waits there are: workers wait for \<open>go\<close>, callers for \<open>done\<close>, and these only while there is work.\<close>

fun thr_ok :: "bool \<Rightarrow> crew_thr \<Rightarrow> bool" where
  "thr_ok b (Waiting Go WStart) = True"
| "thr_ok b (Waiting Go (WTop l)) = True"
| "thr_ok b (Waiting Done (CBusy p str)) = b"
| "thr_ok b (Waiting Done CQueued) = b"
| "thr_ok b (Waiting c p) = False"
| "thr_ok b t = True"

lemma crew_thr_ok_wake: "thr_ok b t \<Longrightarrow> thr_ok b (wake c t)"
  by (induction b t rule: thr_ok.induct) auto

lemma thr_ok_done: "thr_ok b t \<Longrightarrow> thr_ok b' (wake Done t)"
  by (induction b t rule: thr_ok.induct) auto

lemma thr_ok_more: "thr_ok b t \<Longrightarrow> thr_ok True t"
  by (induction b t rule: thr_ok.induct) auto

lemma thr_ok_kind: "thr_ok b t \<Longrightarrow> is_worker t \<longleftrightarrow> is_waiting Go t \<or> awake is_worker t"
  by (induction b t rule: thr_ok.induct) (auto simp: awake_def)

text \<open>
  \<open>work_count\<close> counts the queued items, the items workers hold and the items whose directory could
  not be opened; every item taken is held, processed or of the last kind; while an item is queued
  some worker is awake (or none is left at all).
\<close>

definition crew_core :: "crew \<Rightarrow> crew_thr list \<Rightarrow> work list \<Rightarrow> work list \<Rightarrow> work list \<Rightarrow> work list \<Rightarrow> work list \<Rightarrow> bool" where
  "crew_core c ts ad tk pr lk ws \<longleftrightarrow>
     queued c ws \<and> ad = tk @ ws \<and>
     work_count c = int (length ws) + int (size (gather item ts)) + int (length lk) \<and>
     mset tk = mset pr + mset lk + gather item ts \<and>
     list_all (thr_ok (0 < work_count c)) ts \<and>
     (ws \<noteq> [] \<longrightarrow> 0 < cnt (awake is_worker) ts \<or> cnt is_worker ts = 0)"

definition crew_counts :: "crew_sys \<Rightarrow> bool" where
  "crew_counts s \<longleftrightarrow> (\<exists>ws. crew_core (cw s) (thr s) (added s) (taken s) (processed s) (leaked s) ws)"

lemma core_idle:
  assumes "crew_core c ts ad tk pr lk ws" and "work_count c \<le> 0"
  shows "ws = []" "gather item ts = {#}" "lk = []"
proof -
  have "work_count c = int (length ws) + int (size (gather item ts)) + int (length lk)"
    using assms by (simp add: crew_core_def)
  with assms(2) have "length ws = 0" "size (gather item ts) = 0" "length lk = 0" by linarith+
  then show "ws = []" "gather item ts = {#}" "lk = []" by simp_all
qed

lemma queued_fields:
  "queued (c\<lparr>work_count := n\<rparr>) ws = queued c ws" "queued (c\<lparr>path_max := a, name_max := b\<rparr>) ws = queued c ws"
  by (simp_all add: queued_def)

lemma crew_push_fields:
  "crew_push a w c = Inr c' \<Longrightarrow> work_count c' = work_count c"
  by (auto simp: crew_push_def Let_def split: if_splits)

lemma crew_pop_fields:
  "crew_pop c = Inr (Some (w, c')) \<Longrightarrow> work_count c' = work_count c"
  by (auto simp: crew_pop_def Let_def split: option.splits if_splits)

lemma crew_begin_counts: "crew_init s \<Longrightarrow> crew_counts s"
  by (auto simp: crew_init_def crew_begin_def crew_counts_def crew_core_def crew_create_def Let_def
      EINVAL_def list_all_length nth_append queued_def payloads_def split: if_splits intro!: exI [of _ "[]"])

text \<open>A thread moves on with what it holds; the crew is unchanged.\<close>

lemma core_move:
  assumes "crew_core c ts ad tk pr lk ws" and "i < length ts" and "item (ts ! i) = item u"
    and "thr_ok (0 < work_count c) u" and "is_worker (ts ! i) = is_worker u"
    and "is_worker u \<longrightarrow> ws \<noteq> [] \<longrightarrow> is_ready u"
  shows "crew_core c (ts[i := u]) ad tk pr lk ws"
proof -
  have g: "gather item (ts[i := u]) = gather item ts" by (rule gather_same) (use assms in auto)
  have w: "cnt is_worker (ts[i := u]) = cnt is_worker ts" using assms by (simp add: cnt_upd)
  have a: "ws \<noteq> [] \<Longrightarrow> 0 < cnt (awake is_worker) ts \<Longrightarrow> 0 < cnt (awake is_worker) (ts[i := u])"
    using assms cnt_pos [of i "ts[i := u]" "awake is_worker"] by (auto simp: cnt_upd awake_def)
  show ?thesis using assms g w a by (auto simp: crew_core_def intro!: list_all_upd)
qed

text \<open>A signal or a spurious wakeup.\<close>

lemma core_spurious:
  "crew_core c ts ad tk pr lk ws \<Longrightarrow> crew_core c (spurious i v ts) ad tk pr lk ws"
  using cnt_wake_mono(3) [OF awake_mono [OF worker_stable], of ts i v]
  by (auto simp: crew_core_def gather_cond cnt_spurious intro!: list_all_cond crew_thr_ok_wake)

text \<open>An item is queued and \<open>go\<close> signalled; the thread that does so has been updated.\<close>

lemma core_push:
  assumes core: "crew_core c ts ad tk pr lk ws" and a: "crew_unused c a"
    and p: "crew_push a w (c\<lparr>path_max := pm, name_max := nm\<rparr>) = Inr c'" and sig: "signal_ok Go j ts'"
    and ts': "ts' = ts[i := u]" "i < length ts" "item (ts ! i) = item u" "is_worker (ts ! i) = is_worker u"
      "thr_ok True u"
  shows "crew_core (c'\<lparr>work_count := work_count c' + 1\<rparr>) (cond_signal Go j ts') (ad @ [w]) tk pr lk (ws @ [w])"
proof -
  have q: "queued c' (ws @ [w])"
    by (rule crew_queue.enq_repr [OF _ _ p]) (use core a in \<open>auto simp: crew_core_def queued_fields crew_unused_def\<close>)
  have wc: "work_count c' = work_count c" using crew_push_fields [OF p] by simp
  have g: "gather item ts' = gather item ts" unfolding ts'(1) by (rule gather_same) (use ts' in auto)
  have "list_all (thr_ok True) ts" using core by (auto simp: crew_core_def list_all_iff intro: thr_ok_more)
  then have ok: "list_all (thr_ok True) ts'" unfolding ts'(1) by (rule list_all_upd) (rule ts'(5))
  have "cnt is_worker ts' = 0 \<or> 0 < cnt (awake is_worker) (cond_signal Go j ts')"
  proof (cases "0 < cnt is_worker ts'")
    case True
    have "list_all (\<lambda>t. is_worker t \<longleftrightarrow> is_waiting Go t \<or> awake is_worker t) ts'"
      using ok by (auto simp: list_all_iff thr_ok_kind)
    with True sig show ?thesis by (auto intro: signal_leaves_awake)
  next
    case False
    then show ?thesis using cnt_nonneg [of is_worker ts'] by linarith
  qed
  with core q wc g ok show ?thesis
    by (auto simp: crew_core_def gather_cond cnt_signal queued_fields intro!: list_all_cond crew_thr_ok_wake)
qed


lemma core_pop:
  assumes core: "crew_core c ts ad tk pr lk ws" and p: "crew_pop c = Inr (Some (w, c'))"
    and i: "i < length ts" "ts ! i = Ready (WTop l)"
  shows "\<exists>ws'. crew_core c' (ts[i := Ready (WWork l w)]) ad (tk @ [w]) pr lk ws'"
proof -
  from crew_queue.deq_repr [OF _ p] core obtain ws' where ws': "ws = w # ws'" "queued c' ws'"
    by (auto simp: crew_core_def)
  have g: "gather item (ts[i := Ready (WWork l w)]) = gather item ts + {#w#}"
    using gather_gain [of i ts item "Ready (WWork l w)"] i by simp
  have a: "cnt (awake is_worker) (ts[i := Ready (WWork l w)]) = cnt (awake is_worker) ts"
    "cnt is_worker (ts[i := Ready (WWork l w)]) = cnt is_worker ts"
    using i by (simp_all add: cnt_upd)
  show ?thesis using core ws' g a crew_pop_fields [OF p]
    by (auto simp: crew_core_def intro!: exI [of _ ws'] list_all_upd)
qed

lemma core_leak:
  assumes core: "crew_core c ts ad tk pr lk ws" and i: "i < length ts" "ts ! i = Ready (WWork l w)"
  shows "crew_core c (ts[i := Ready (WTop l')]) ad tk pr (lk @ [w]) ws"
proof -
  have g: "gather item ts = gather item (ts[i := Ready (WTop l')]) + {#w#}"
    using gather_lose [of i ts item "Ready (WTop l')"] i by simp
  have a: "cnt (awake is_worker) (ts[i := Ready (WTop l')]) = cnt (awake is_worker) ts"
    "cnt is_worker (ts[i := Ready (WTop l')]) = cnt is_worker ts"
    using i by (simp_all add: cnt_upd)
  show ?thesis using core g a by (auto simp: crew_core_def intro!: list_all_upd)
qed

lemma core_finish:
  assumes core: "crew_core c ts ad tk pr lk ws" and i: "i < length ts" "ts ! i = Ready (WFinish l w)"
    and f: "worker_finish all_ok c = Inr (c', b)"
  shows "crew_core c' (if b then cond_broadcast Done (ts[i := Finished]) else ts[i := Ready (WTop l)])
           ad tk (pr @ [w]) lk ws"
proof -
  let ?u = "if b then Finished else Ready (WTop l)"
  have c': "c' = c\<lparr>work_count := work_count c - 1\<rparr>" "b = (work_count c - 1 \<le> 0)"
    using f by (auto simp: worker_finish_def Let_def split: if_splits)
  have g: "gather item ts = gather item (ts[i := ?u]) + {#w#}"
    using gather_lose [of i ts item ?u] i by simp
  show ?thesis
  proof (cases b)
    case True
    have "list_all (thr_ok (0 < work_count c)) (ts[i := Finished])"
      using core by (auto simp: crew_core_def intro!: list_all_upd)
    then have "list_all (thr_ok (0 < work_count c')) (cond_broadcast Done (ts[i := Finished]))"
      by (auto simp: list_all_length intro: thr_ok_done)
    moreover have "length ws = 0"
    proof -
      have "work_count c = int (length ws) + int (size (gather item ts)) + int (length lk)"
        using core by (simp add: crew_core_def)
      moreover have "size (gather item ts) = Suc (size (gather item (ts[i := ?u])))" using g by simp
      moreover have "work_count c - 1 \<le> 0" using True c'(2) by simp
      ultimately show ?thesis by linarith
    qed
    ultimately show ?thesis using True core c' g
      by (auto simp: crew_core_def gather_cond queued_fields)
  next
    case False
    have a: "cnt (awake is_worker) (ts[i := Ready (WTop l)]) = cnt (awake is_worker) ts"
      "cnt is_worker (ts[i := Ready (WTop l)]) = cnt is_worker ts"
      using i by (simp_all add: cnt_upd)
    have pos: "(0 < work_count c) = True" "(0 < work_count c') = True" using False c' by auto
    with core have "list_all (thr_ok True) ts" by (simp add: crew_core_def)
    with False core c' g a pos show ?thesis
      by (auto simp: crew_core_def queued_fields intro!: list_all_upd)
  qed
qed


lemma crew_limits_fields:
  "crew_limits fs p c = Inr c' \<Longrightarrow> \<exists>pm nm. c' = c\<lparr>path_max := pm, name_max := nm\<rparr>"
  by (auto simp: crew_limits_def Let_def split: prod.splits if_splits)

text \<open>A caller's first part either faults, waits behind a busy crew, or queues its request.\<close>

lemma start_queue_cases:
  assumes core: "crew_core c ts ad tk pr lk ws" and wc: "work_count c \<le> 0"
    and r: "crew_start_queue all_ok fs mem strmem p str c = Inr (c', nx)"
  shows "\<exists>a pm nm c1. mem = Some a \<and> crew_push a \<lparr>path = p, search_string = str\<rparr> (c\<lparr>path_max := pm, name_max := nm\<rparr>) = Inr c1 \<and>
           c' = c1\<lparr>work_count := work_count c1 + 1\<rparr> \<and> nx = SQueued"
proof -
  from r obtain c0 a c1 where *: "crew_limits fs p c = Inr c0" "mem = Some a"
    "crew_push a \<lparr>path = p, search_string = str\<rparr> c0 = Inr c1"
    "crew_start_wait all_ok (c1\<lparr>work_count := work_count c1 + 1\<rparr>) = Inr (c', nx)"
    by (auto simp: crew_start_queue_def Let_def split: option.splits if_splits)
  from crew_limits_fields [OF *(1)] obtain pm nm where c0: "c0 = c\<lparr>path_max := pm, name_max := nm\<rparr>" by blast
  have "work_count c1 = work_count c" using crew_push_fields [OF *(3)] c0 by simp
  moreover have "0 \<le> work_count c" using core by (simp add: crew_core_def)
  ultimately have "0 < work_count c1 + 1" by simp
  with * c0 show ?thesis by (auto simp: crew_start_wait_def)
qed

lemma start_put_counts:
  assumes inv: "crew_counts s" and ok: "crash s = None" "crash t = None"
    and i: "i < length (thr s)" "item (thr s ! i) = {#}" "\<not> is_worker (thr s ! i)" and mem: "ptr_ok (cw s) mem"
    and r: "start_put i j p str (if work_count (cw s) > 0 then Inr (cw s, SBusy)
              else crew_start_queue all_ok fs mem strmem p str (cw s)) s = Some t"
  shows "crew_counts t"
proof -
  from inv obtain ws where core: "crew_core (cw s) (thr s) (added s) (taken s) (processed s) (leaked s) ws"
    by (auto simp: crew_counts_def)
  show ?thesis
  proof (cases "work_count (cw s) > 0")
    case True
    with r have "t = put i (Waiting Done (CBusy p str)) s" by (simp add: start_put_def)
    with core_move [OF core i(1), of "Waiting Done (CBusy p str)"] i True show ?thesis
      by (auto simp: crew_counts_def put_def)
  next
    case False
    with r ok obtain c' nx where q: "crew_start_queue all_ok fs mem strmem p str (cw s) = Inr (c', nx)"
      by (cases "crew_start_queue all_ok fs mem strmem p str (cw s)") (auto simp: start_put_def)
    let ?w = "\<lparr>path = p, search_string = str\<rparr>" and ?ts = "(thr s)[i := Waiting Done CQueued]"
    from start_queue_cases [OF core _ q] False obtain a pm nm c1 where c: "mem = Some a"
      "crew_push a ?w ((cw s)\<lparr>path_max := pm, name_max := nm\<rparr>) = Inr c1"
      "c' = c1\<lparr>work_count := work_count c1 + 1\<rparr>" "nx = SQueued" by auto
    from r False q c have sig: "signal_ok Go j ?ts"
      and t: "t = s\<lparr>cw := c', thr := cond_signal Go j ?ts, roots := roots s @ [?w], added := added s @ [?w]\<rparr>"
      by (auto simp: start_put_def Let_def split: if_splits)
    have "crew_unused (cw s) a" using mem c by (simp add: ptr_ok_def)
    from core_push [OF core this c(2) sig refl i(1)] i have
      "crew_core c' (cond_signal Go j ?ts) (added s @ [?w]) (taken s) (processed s) (leaked s) (ws @ [?w])"
      using c(3) by simp
    with t show ?thesis by (auto simp: crew_counts_def)
  qed
qed


lemma crew_step_counts:
  assumes inv: "crew_counts s" and e: "crew_step fs s e = Some t" and ok: "crash t = None" "crash s = None"
  shows "crew_counts t"
proof -
  from inv obtain ws where core: "crew_core (cw s) (thr s) (added s) (taken s) (processed s) (leaked s) ws"
    by (auto simp: crew_counts_def)
  have move: "crew_counts (put i u s')"
    if "i < length (thr s)" "item (thr s ! i) = item u" "thr_ok (0 < work_count (cw s)) u"
      "is_worker (thr s ! i) = is_worker u" "is_worker u \<longrightarrow> ws \<noteq> [] \<longrightarrow> is_ready u"
      "cw s' = cw s" "thr s' = thr s" "added s' = added s" "taken s' = taken s" "processed s' = processed s"
      "leaked s' = leaked s" for i u s'
    using core_move [OF core that(1-5)] that(6-) by (auto simp: crew_counts_def put_def)
  show ?thesis
  proof (cases e)
    case (CallStart i p str mem strmem j)
    with e have i: "i < length (thr s)" "thr s ! i = Ready CIdle" "ptr_ok (cw s) mem"
      and r: "start_put i j p str (if work_count (cw s) > 0 then Inr (cw s, SBusy)
              else crew_start_queue all_ok fs mem strmem p str (cw s)) s = Some t"
      by (auto simp: crew_start_def split: if_splits)
    show ?thesis by (rule start_put_counts [OF inv ok(2,1) i(1) _ _ i(3) r]) (use i in auto)
  next
    case (StartResume i mem strmem j)
    with e obtain p str where i: "i < length (thr s)" "thr s ! i = Ready (CBusy p str)" "ptr_ok (cw s) mem"
      and r: "start_put i j p str (if work_count (cw s) > 0 then Inr (cw s, SBusy)
              else crew_start_queue all_ok fs mem strmem p str (cw s)) s = Some t"
      by (auto simp: crew_start_resume_def split: if_splits tstate.splits crew_pc.splits)
    show ?thesis by (rule start_put_counts [OF inv ok(2,1) i(1) _ _ i(3) r]) (use i in auto)
  next
    case (StartDone i)
    with e ok show ?thesis
      by (auto simp: crew_start_done_def crew_start_wait_def split: if_splits intro!: move)
  next
    case (WorkerGo i)
    have "work_count (cw s) = 0 \<Longrightarrow> ws = []" using core_idle [OF core] by simp
    with e WorkerGo show ?thesis by (auto simp: worker_go_def split: if_splits intro!: move)
  next
    case (WorkerAlloc i b)
    with e show ?thesis by (auto split: if_splits intro!: move)
  next
    case (WorkerTop i)
    with e obtain l where i: "i < length (thr s)" "thr s ! i = Ready (WTop l)"
      by (auto split: if_splits tstate.splits crew_pc.splits)
    have q: "queued (cw s) ws" using core by (simp add: crew_core_def)
    from crew_queue.no_fault [OF q] obtain r where r: "crew_pop (cw s) = Inr r" by blast
    show ?thesis
    proof (cases r)
      case None
      with r have "ws = []" using crew_queue.deq_none [OF q] by simp
      with WorkerTop e i r None show ?thesis by (auto simp: worker_top_def intro!: move)
    next
      case (Some wc)
      with r obtain w c where p: "crew_pop (cw s) = Inr (Some (w, c))" by (cases wc) auto
      with WorkerTop e i core_pop [OF core p i] show ?thesis
        by (auto simp: worker_top_def crew_counts_def put_def)
    qed
  next
    case (WorkerStat i)
    with e obtain l w where i: "i < length (thr s)" "thr s ! i = Ready (WWork l w)"
      by (auto split: if_splits tstate.splits crew_pc.splits)
    from WorkerStat e ok i obtain l' a where a: "worker_stat fs l w = Inr (l', a)"
      by (cases "worker_stat fs l w") auto
    show ?thesis
    proof (cases "a = Continue")
      case True
      with WorkerStat e i a core_leak [OF core i, of l'] show ?thesis by (auto simp: crew_counts_def put_def)
    next
      case False
      with WorkerStat e i a show ?thesis by (cases a) (auto intro!: move)
    qed
  next
    case (WorkerRead i mem j)
    with e obtain l w names where i: "i < length (thr s)" "thr s ! i = Ready (WDir l w names)" "ptr_ok (cw s) mem"
      by (auto split: if_splits tstate.splits crew_pc.splits)
    show ?thesis
    proof (cases names)
      case Nil
      with WorkerRead e i show ?thesis by (auto intro!: move)
    next
      case (Cons name rest)
      with WorkerRead e i ok obtain r where r: "worker_entry all_ok mem l w name (cw s) = Inr r"
        by (auto split: sum.splits)
      show ?thesis
      proof (cases r)
        case None
        with WorkerRead e i r Cons show ?thesis by (auto intro!: move)
      next
        case (Some nc)
        obtain a nw c1 where a: "mem = Some a" "crew_push a nw (cw s) = Inr c1"
          "nc = (nw, c1\<lparr>work_count := work_count c1 + 1\<rparr>)"
          using r Some by (auto simp: worker_entry_def Let_def split: if_splits option.splits)
        let ?ts = "(thr s)[i := Ready (WDir l w rest)]"
        from WorkerRead e i r Cons Some a have sig: "signal_ok Go j ?ts"
          and t: "t = s\<lparr>cw := c1\<lparr>work_count := work_count c1 + 1\<rparr>, thr := cond_signal Go j ?ts, added := added s @ [nw]\<rparr>"
          by (auto simp: Let_def split: if_splits)
        have p: "crew_push a nw ((cw s)\<lparr>path_max := path_max (cw s), name_max := name_max (cw s)\<rparr>) = Inr c1"
          using a by simp
        have "crew_unused (cw s) a" using i a by (simp add: ptr_ok_def)
        from core_push [OF core this p sig refl i(1)] i t show ?thesis by (auto simp: crew_counts_def)
      qed
    qed
  next
    case (WorkerFinish i)
    with e obtain l w where i: "i < length (thr s)" "thr s ! i = Ready (WFinish l w)"
      by (auto split: if_splits tstate.splits crew_pc.splits)
    from WorkerFinish e i ok obtain c b where f: "worker_finish all_ok (cw s) = Inr (c, b)"
      by (cases "worker_finish all_ok (cw s)") auto
    from WorkerFinish e i f core_finish [OF core i f] show ?thesis
      by (cases b) (auto simp: crew_counts_def put_def)
  next
    case (Spurious i c)
    with e core_spurious [OF core, of i c] show ?thesis by (auto simp: crew_counts_def)
  qed
qed


definition crew_counts_inv :: "crew_sys \<Rightarrow> bool" where
  "crew_counts_inv s \<longleftrightarrow> (crash s = None \<longrightarrow> crew_counts s)"

interpretation crew_counting: invariant_system crew_init "crew_exec fs" crew_counts_inv for fs
proof
  show "crew_counts_inv s" if "crew_init s" for s
    using that crew_begin_counts by (simp add: crew_counts_inv_def)
  show "crew_counts_inv t" if "crew_counts_inv s" "crew_exec fs s e = Some t" for s e t
    using that crew_step_counts by (auto simp: crew_counts_inv_def crew_exec_def split: if_splits)
qed

section \<open>What is still to be explored\<close>

text \<open>
  A directory that \<open>lstat\<close> and \<open>opendir\<close> find owes its entries to the queue; a regular file that
  contains the string owes a report.
\<close>

datatype duty = Kid work | Match work

definition kids_of :: "work \<Rightarrow> string list \<Rightarrow> work set" where
  "kids_of w names = (\<lambda>n. \<lparr>path = child (path w) n, search_string = search_string w\<rparr>) ` {n \<in> set names. \<not> dot n}"

definition kids :: "fsys \<Rightarrow> work \<Rightarrow> work set" where
  "kids fs w = (if lstat fs (path w) = Some DIR
                then case opendir fs (path w) of None \<Rightarrow> {} | Some names \<Rightarrow> kids_of w names else {})"

definition matches :: "fsys \<Rightarrow> work \<Rightarrow> bool" where
  "matches fs w \<longleftrightarrow> lstat fs (path w) = Some REG \<and>
     (case fopen fs (path w) of None \<Rightarrow> False | Some s \<Rightarrow> search_file (search_string w) s)"

definition duties :: "fsys \<Rightarrow> work \<Rightarrow> duty set" where
  "duties fs w = Kid ` kids fs w \<union> (if matches fs w then {Match w} else {})"

fun owes :: "fsys \<Rightarrow> crew_thr \<Rightarrow> duty set" where
  "owes fs (Ready (WWork l w)) = duties fs w"
| "owes fs (Ready (WDir l w names)) = Kid ` kids_of w names"
| "owes fs t = {}"

definition paid :: "work list \<Rightarrow> work list \<Rightarrow> duty set" where
  "paid ad fd = Kid ` set ad \<union> Match ` set fd"

definition explored :: "fsys \<Rightarrow> crew_thr list \<Rightarrow> work list \<Rightarrow> work list \<Rightarrow> work list \<Rightarrow> bool" where
  "explored fs ts ad tk fd \<longleftrightarrow>
     (\<forall>w \<in> set tk. duties fs w \<subseteq> paid ad fd \<union> (\<Union>t \<in> set ts. owes fs t))"

lemma debt_upd:
  assumes "i < length ts"
  shows "(\<Union>t \<in> set ts. owes fs t) \<subseteq> (\<Union>t \<in> set (ts[i := u]). owes fs t) \<union> owes fs (ts ! i)"
    and "owes fs u \<subseteq> (\<Union>t \<in> set (ts[i := u]). owes fs t)"
proof -
  have "t = ts ! i \<or> t \<in> set (ts[i := u])" if "t \<in> set ts" for t
    using that assms by (metis in_set_conv_nth length_list_update nth_list_update_neq)
  then show "(\<Union>t \<in> set ts. owes fs t) \<subseteq> (\<Union>t \<in> set (ts[i := u]). owes fs t) \<union> owes fs (ts ! i)"
    by blast
  have "u \<in> set (ts[i := u])" using assms by (rule set_update_memI)
  then show "owes fs u \<subseteq> (\<Union>t \<in> set (ts[i := u]). owes fs t)" by blast
qed

lemma debt_wake: "owes fs t \<subseteq> owes fs (wake c t)"
  by (cases t) auto

lemma debt_cond:
  "(\<Union>t \<in> set ts. owes fs t) \<subseteq> (\<Union>t \<in> set (cond_broadcast c ts). owes fs t)"
  "(\<Union>t \<in> set ts. owes fs t) \<subseteq> (\<Union>t \<in> set (cond_signal c j ts). owes fs t)"
  "(\<Union>t \<in> set ts. owes fs t) \<subseteq> (\<Union>t \<in> set (spurious j c ts). owes fs t)"
proof -
  show "(\<Union>t \<in> set ts. owes fs t) \<subseteq> (\<Union>t \<in> set (cond_broadcast c ts). owes fs t)"
    using debt_wake by (fastforce simp: cond_broadcast_def)
  have "(\<Union>t \<in> set ts. owes fs t) \<subseteq> (\<Union>t \<in> set (ts[j := wake c (ts ! j)]). owes fs t)"
    using debt_upd [of j ts fs "wake c (ts ! j)"] debt_wake [of fs "ts ! j" c]
    by (cases "j < length ts") (auto simp: list_update_beyond)
  then show "(\<Union>t \<in> set ts. owes fs t) \<subseteq> (\<Union>t \<in> set (cond_signal c j ts). owes fs t)"
    "(\<Union>t \<in> set ts. owes fs t) \<subseteq> (\<Union>t \<in> set (spurious j c ts). owes fs t)"
    by (simp_all add: cond_signal_def spurious_def)
qed

lemma explored_mono:
  assumes "explored fs ts ad tk fd" and "set ad \<subseteq> set ad'" and "set fd \<subseteq> set fd'"
    and "(\<Union>t \<in> set ts. owes fs t) \<subseteq> paid ad' fd' \<union> (\<Union>t \<in> set ts'. owes fs t)"
  shows "explored fs ts' ad' tk fd'"
proof -
  have "paid ad fd \<subseteq> paid ad' fd'" using assms(2,3) by (auto simp: paid_def)
  then have p: "paid ad fd \<subseteq> paid ad' fd' \<union> (\<Union>t \<in> set ts'. owes fs t)" by blast
  show ?thesis unfolding explored_def
  proof
    fix w assume "w \<in> set tk"
    with assms(1) have "duties fs w \<subseteq> paid ad fd \<union> (\<Union>t \<in> set ts. owes fs t)" by (simp add: explored_def)
    also have "\<dots> \<subseteq> paid ad' fd' \<union> (\<Union>t \<in> set ts'. owes fs t)" by (rule Un_least [OF p assms(4)])
    finally show "duties fs w \<subseteq> paid ad' fd' \<union> (\<Union>t \<in> set ts'. owes fs t)" .
  qed
qed

lemma explored_cond:
  assumes "explored fs ts ad tk fd"
  shows "explored fs (cond_broadcast c ts) ad tk fd" "explored fs (cond_signal c j ts) ad tk fd"
    "explored fs (spurious j c ts) ad tk fd"
  by (rule explored_mono [OF assms subset_refl subset_refl le_supI2], rule debt_cond)+

lemma explored_move:
  assumes "explored fs ts ad tk fd" and "set ad \<subseteq> set ad'" and "set fd \<subseteq> set fd'" and "i < length ts"
    and "owes fs (ts ! i) \<subseteq> owes fs u \<union> paid ad' fd'"
  shows "explored fs (ts[i := u]) ad' tk fd'"
  by (rule explored_mono [OF assms(1-3)]) (use debt_upd [OF assms(4), of fs u] assms(5) in blast)

lemma explored_take:
  assumes "explored fs ts ad tk fd" and "i < length ts" and "ts ! i = Ready (WTop l)"
  shows "explored fs (ts[i := Ready (WWork l w)]) ad (tk @ [w]) fd"
proof -
  have "explored fs (ts[i := Ready (WWork l w)]) ad tk fd"
    by (rule explored_move [OF assms(1) _ _ assms(2)]) (use assms(3) in auto)
  with debt_upd(2) [OF assms(2), of fs "Ready (WWork l w)"] show ?thesis
    by (auto simp: explored_def)
qed


definition crew_explored :: "fsys \<Rightarrow> crew_sys \<Rightarrow> bool" where
  "crew_explored fs s \<longleftrightarrow> explored fs (thr s) (added s) (taken s) (found s) \<and> set (roots s) \<subseteq> set (added s)"

lemma crew_limits_same: "crew_limits fs p c = Inr c' \<Longrightarrow> first c' = first c"
  by (auto dest!: crew_limits_fields)

lemma start_put_explored:
  assumes inv: "crew_explored fs s" and ok: "crash s = None" "crash t = None"
    and i: "i < length (thr s)" "owes fs (thr s ! i) = {}"
    and r: "start_put i j p str r s = Some t"
  shows "crew_explored fs t"
proof -
  let ?w = "\<lparr>path = p, search_string = str\<rparr>"
  have move: "explored fs ((thr s)[i := u]) (added s) (taken s) (found s)" for u
    by (rule explored_move) (use inv i in \<open>auto simp: crew_explored_def\<close>)
  have "explored fs (cond_signal Go j ((thr s)[i := u])) (added s @ [?w]) (taken s) (found s)" for u
    by (rule explored_cond, rule explored_move) (use inv i in \<open>auto simp: crew_explored_def\<close>)
  moreover have "set (roots s) \<subseteq> set (added s)" "set (roots s) \<subseteq> insert ?w (set (added s))"
    using inv by (auto simp: crew_explored_def)
  ultimately show ?thesis using move r ok
    by (simp add: start_put_def crew_explored_def put_def Let_def split: sum.splits start_next.splits if_splits prod.splits)
       (clarsimp)+
qed

lemma worker_stat_pays:
  assumes "worker_stat fs l w = Inr (l', a)"
  shows "case a of
           Skip \<Rightarrow> duties fs w = {}
         | Continue \<Rightarrow> duties fs w = {}
         | ReadDir names \<Rightarrow> duties fs w \<subseteq> Kid ` kids_of w names
         | Searched b \<Rightarrow> duties fs w \<subseteq> (if b then {Match w} else {})"
  using assms
  by (auto simp: worker_stat_def duties_def kids_def matches_def Let_def
      split: option.splits fmode.splits if_splits)

lemma entry_pays:
  assumes "worker_entry all_ok mem l w name c = Inr r"
  shows "case r of
           None \<Rightarrow> kids_of w (name # names) = kids_of w names
         | Some (nw, c') \<Rightarrow> kids_of w (name # names) \<subseteq> insert nw (kids_of w names)"
  using assms
  by (auto simp: worker_entry_def worker_path_def kids_of_def Let_def split: option.splits if_splits)

lemma crew_step_explored:
  assumes inv: "crew_explored fs s" and e: "crew_step fs s e = Some t" and ok: "crash t = None" "crash s = None"
  shows "crew_explored fs t"
proof -
  have ex: "explored fs (thr s) (added s) (taken s) (found s)" and ro: "set (roots s) \<subseteq> set (added s)"
    using inv by (auto simp: crew_explored_def)
  have move: "crew_explored fs (put i u s')"
    if "i < length (thr s)" "owes fs (thr s ! i) \<subseteq> owes fs u \<union> paid (added s) (found s')"
      "thr s' = thr s" "added s' = added s" "taken s' = taken s" "set (found s) \<subseteq> set (found s')" "roots s' = roots s"
    for i u s'
    using explored_move [OF ex subset_refl that(6,1,2)] that ro by (simp add: crew_explored_def put_def)
  show ?thesis
  proof (cases e)
    case (CallStart i p str mem strmem j)
    with e have "i < length (thr s)" "owes fs (thr s ! i) = {}"
      "start_put i j p str (crew_start all_ok fs mem strmem p str (cw s)) s = Some t" by (auto split: if_splits)
    with start_put_explored [OF inv ok(2,1)] show ?thesis by blast
  next
    case (StartResume i mem strmem j)
    with e obtain p str where "i < length (thr s)" "owes fs (thr s ! i) = {}"
      "start_put i j p str (crew_start_resume all_ok 0 fs mem strmem p str (cw s)) s = Some t"
      by (auto split: if_splits tstate.splits crew_pc.splits)
    with start_put_explored [OF inv ok(2,1)] show ?thesis by blast
  next
    case (StartDone i)
    with e ok show ?thesis by (auto split: if_splits sum.splits start_next.splits intro!: move)
  next
    case (WorkerGo i)
    with e show ?thesis by (auto split: if_splits intro!: move)
  next
    case (WorkerAlloc i b)
    with e show ?thesis by (auto split: if_splits intro!: move)
  next
    case (WorkerTop i)
    with e obtain l where i: "i < length (thr s)" "thr s ! i = Ready (WTop l)"
      by (auto split: if_splits tstate.splits crew_pc.splits)
    with WorkerTop e ok explored_take [OF ex i] ro show ?thesis
      by (auto simp: crew_explored_def put_def split: sum.splits option.splits
          intro!: explored_move [OF ex])
  next
    case (WorkerStat i)
    with e obtain l w where i: "i < length (thr s)" "thr s ! i = Ready (WWork l w)"
      by (auto split: if_splits tstate.splits crew_pc.splits)
    from WorkerStat e ok i obtain l' a where a: "worker_stat fs l w = Inr (l', a)"
      by (cases "worker_stat fs l w") auto
    from WorkerStat e i a worker_stat_pays [OF a] show ?thesis
      by (cases a) (auto simp: paid_def split: if_splits intro!: move)
  next
    case (WorkerRead i mem j)
    with e obtain l w names where i: "i < length (thr s)" "thr s ! i = Ready (WDir l w names)"
      by (auto split: if_splits tstate.splits crew_pc.splits)
    show ?thesis
    proof (cases names)
      case Nil
      with WorkerRead e i show ?thesis by (auto simp: kids_of_def split: if_splits intro!: move)
    next
      case (Cons name rest)
      with WorkerRead e i ok obtain r where r: "worker_entry all_ok mem l w name (cw s) = Inr r"
        by (auto split: sum.splits if_splits)
      let ?u = "Ready (WDir l w rest)"
      show ?thesis
      proof (cases r)
        case None
        with WorkerRead e i r Cons entry_pays [OF r, of rest] show ?thesis
          by (auto split: if_splits intro!: move)
      next
        case (Some nc)
        obtain nw c where nc: "nc = (nw, c)" by (cases nc)
        have "explored fs ((thr s)[i := ?u]) (added s @ [nw]) (taken s) (found s)"
          by (rule explored_move [OF ex _ _ i(1)])
             (use i Cons Some nc entry_pays [OF r, of rest] in \<open>auto simp: paid_def\<close>)
        then have "explored fs (cond_signal Go j ((thr s)[i := ?u])) (added s @ [nw]) (taken s) (found s)"
          by (rule explored_cond)
        with WorkerRead e i r Cons Some nc ro show ?thesis
          by (auto simp: crew_explored_def Let_def split: if_splits)
      qed
    qed
  next
    case (WorkerFinish i)
    with e obtain l w where i: "i < length (thr s)" "thr s ! i = Ready (WFinish l w)"
      by (auto split: if_splits tstate.splits crew_pc.splits)
    from WorkerFinish e i ok obtain c b where f: "worker_finish all_ok (cw s) = Inr (c, b)"
      by (cases "worker_finish all_ok (cw s)") auto
    have m: "explored fs ((thr s)[i := u]) (added s) (taken s) (found s)" for u
      by (rule explored_move [OF ex _ _ i(1)]) (use i in auto)
    have "explored fs (cond_broadcast Done ((thr s)[i := Finished])) (added s) (taken s) (found s)"
      by (rule explored_cond [OF m])
    with WorkerFinish e i f m ro show ?thesis by (cases b) (auto simp: crew_explored_def put_def)
  next
    case (Spurious i c)
    have "explored fs (spurious i c (thr s)) (added s) (taken s) (found s)"
      by (rule explored_cond [OF ex])
    with Spurious e ro show ?thesis by (auto simp: crew_explored_def)
  qed
qed

definition crew_explored_inv :: "fsys \<Rightarrow> crew_sys \<Rightarrow> bool" where
  "crew_explored_inv fs s \<longleftrightarrow> (crash s = None \<longrightarrow> crew_explored fs s)"

interpretation crew_exploring: invariant_system crew_init "crew_exec fs" "crew_explored_inv fs" for fs
proof
  show "crew_explored_inv fs s" if "crew_init s" for s
    using that by (auto simp: crew_explored_inv_def crew_explored_def crew_init_def crew_begin_def explored_def)
  show "crew_explored_inv fs t" if "crew_explored_inv fs s" "crew_exec fs s e = Some t" for s e t
    using that crew_step_explored by (auto simp: crew_explored_inv_def crew_exec_def split: if_splits)
qed

section \<open>What the crew guarantees\<close>

lemma crew_reach_core:
  assumes "reach crew_init (crew_exec fs) s" and "crash s = None"
  shows "\<exists>ws. crew_core (cw s) (thr s) (added s) (taken s) (processed s) (leaked s) ws"
  using crew_counting.reach_inv [OF assms(1)] assms(2) by (auto simp: crew_counts_inv_def crew_counts_def)

text \<open>The items a search for \<open>r\<close> has to visit.\<close>

inductive below :: "fsys \<Rightarrow> work \<Rightarrow> work \<Rightarrow> bool" for fs r where
  below_root: "below fs r r"
| below_kid: "below fs r w \<Longrightarrow> k \<in> kids fs w \<Longrightarrow> below fs r k"

lemma gather_empty: "gather f ts = {#} \<Longrightarrow> t \<in> set ts \<Longrightarrow> f t = {#}"
  by (induction ts) auto

lemma gather_nonempty: "gather f ts \<noteq> {#} \<Longrightarrow> \<exists>t \<in> set ts. f t \<noteq> {#}"
  by (induction ts) auto

lemma item_worker: "pc_item p \<noteq> {#} \<Longrightarrow> worker_pc p"
  by (cases p) auto

lemma no_item_no_debt: "item t = {#} \<Longrightarrow> owes fs t = {}"
  by (cases "(fs, t)" rule: owes.cases) auto

lemma crew_idle_complete:
  assumes "reach crew_init (crew_exec fs) s" and "crash s = None" and "work_count (cw s) \<le> 0"
  shows "set (added s) = set (processed s)"
    and "w \<in> set (added s) \<Longrightarrow> kids fs w \<subseteq> set (added s) \<and> (matches fs w \<longrightarrow> w \<in> set (found s))"
    and "set (roots s) \<subseteq> set (added s)"
proof -
  obtain ws where core: "crew_core (cw s) (thr s) (added s) (taken s) (processed s) (leaked s) ws"
    using crew_reach_core [OF assms(1,2)] by blast
  note idle = core_idle [OF core assms(3)]
  have tk: "added s = taken s" "mset (taken s) = mset (processed s)"
    using core idle by (auto simp: crew_core_def)
  then show "set (added s) = set (processed s)" by (metis set_mset_mset)
  have ex: "explored fs (thr s) (added s) (taken s) (found s)" "set (roots s) \<subseteq> set (added s)"
    using crew_exploring.reach_inv [OF assms(1)] assms(2) by (auto simp: crew_explored_inv_def crew_explored_def)
  show "set (roots s) \<subseteq> set (added s)" by (rule ex(2))
  have "(\<Union>t \<in> set (thr s). owes fs t) = {}"
    using idle(2) by (auto dest!: gather_empty simp: no_item_no_debt)
  with ex(1) tk have "w \<in> set (added s) \<Longrightarrow> duties fs w \<subseteq> paid (added s) (found s)"
    by (simp add: explored_def)
  then show "kids fs w \<subseteq> set (added s) \<and> (matches fs w \<longrightarrow> w \<in> set (found s))" if "w \<in> set (added s)"
    using that by (auto simp: duties_def paid_def split: if_splits)
qed

lemma below_added:
  assumes "below fs r w" and "r \<in> A" and "\<And>w. w \<in> A \<Longrightarrow> kids fs w \<subseteq> A"
  shows "w \<in> A"
  using assms by (induction rule: below.induct) auto

text \<open>C7: when \<open>crew_start\<close> returns, every file and directory below the path it was given has been
  processed, and every regular file among them in which the search loop finds the string has been
  reported.\<close>

theorem crew_start_complete:
  assumes "reach crew_init (crew_exec fs) s" and "crew_exec fs s (StartDone i) = Some t"
    and "thr t ! i = Ready CIdle" and "r \<in> set (roots s)" and "below fs r w"
  shows "w \<in> set (processed s) \<and> (matches fs w \<longrightarrow> w \<in> set (found s))"
proof -
  have ok: "crash s = None" using assms(2) by (auto simp: crew_exec_def split: if_splits)
  have wc: "work_count (cw s) \<le> 0"
    using assms(2,3) by (auto simp: crew_exec_def crew_start_done_def crew_start_wait_def put_def split: if_splits)
  note idle = crew_idle_complete [OF assms(1) ok wc]
  have "w \<in> set (added s)" by (rule below_added [OF assms(5)]) (use assms(4) idle in auto)
  with idle show ?thesis by auto
qed

text \<open>Items are handed to the workers in the order in which they were queued, and \<open>work_count\<close> is
  the number of items queued, being processed, or dropped because their directory could not be opened.\<close>

theorem crew_work_count:
  assumes "reach crew_init (crew_exec fs) s" and "crash s = None"
  shows "\<exists>ws. queued (cw s) ws \<and> added s = taken s @ ws \<and>
           mset (taken s) = mset (processed s) + mset (leaked s) + gather item (thr s) \<and>
           work_count (cw s) = int (length ws) + int (size (gather item (thr s))) + int (length (leaked s))"
  using crew_reach_core [OF assms] by (auto simp: crew_core_def)

lemma leaked_grows: "crew_exec fs s e = Some t \<Longrightarrow> leaked s \<noteq> [] \<Longrightarrow> leaked t \<noteq> []"
  by (cases e) (auto simp: crew_exec_def start_put_def put_def Let_def
      split: if_splits tstate.splits crew_pc.splits sum.splits start_next.splits option.splits
        after_stat.splits list.splits bool.splits)

lemma leaked_run: "run (crew_exec fs) s es = Some t \<Longrightarrow> leaked s \<noteq> [] \<Longrightarrow> leaked t \<noteq> []"
proof (induction es arbitrary: s)
  case (Cons e es)
  then show ?case using leaked_grows by (auto split: option.splits)
qed simp

text \<open>Once a worker has met a directory it cannot open, no call of \<open>crew_start\<close> ever returns: in
  every continuation a caller that looks at \<open>work_count\<close> goes back to sleep.\<close>

theorem crew_start_hangs_after_leak:
  assumes "reach crew_init (crew_exec fs) s" and "leaked s \<noteq> []" and "run (crew_exec fs) s es = Some t"
    and "crew_exec fs t (StartDone i) = Some u"
  shows "thr u ! i = Waiting Done CQueued"
proof -
  have reach: "reach crew_init (crew_exec fs) t" using run_reach [OF assms(1,3)] .
  have ok: "crash t = None" and i: "i < length (thr t)" "thr t ! i = Ready CQueued"
    using assms(4) by (auto simp: crew_exec_def split: if_splits)
  obtain ws where "crew_core (cw t) (thr t) (added t) (taken t) (processed t) (leaked t) ws"
    using crew_reach_core [OF reach ok] by blast
  moreover have "leaked t \<noteq> []" by (rule leaked_run [OF assms(3,2)])
  ultimately have "0 < work_count (cw t)" using core_idle(3) by (meson not_le)
  with assms(4) ok i show ?thesis
    by (auto simp: crew_exec_def crew_start_done_def crew_start_wait_def put_def)
qed

lemma signal_possible: "\<exists>j. signal_ok c j ts"
proof (cases "list_ex (is_waiting c) ts")
  case True
  then obtain j where "j < length ts" "is_waiting c (ts ! j)" by (auto simp: list_ex_length)
  then show ?thesis by (auto simp: signal_ok_def)
next
  case False
  then show ?thesis by (auto simp: signal_ok_def)
qed

lemma worker_moves:
  assumes i: "i < length (thr s)" "awake is_worker (thr s ! i)" and ok: "crash s = None"
    and a: "crew_unused (cw s) a"
  shows "\<exists>e j. e \<in> {WorkerGo i, WorkerAlloc i True, WorkerTop i, WorkerStat i, WorkerRead i (Some a) j, WorkerFinish i} \<and>
           crew_exec fs s e \<noteq> None"
proof -
  from i(2) obtain p where p: "thr s ! i = Ready p" "worker_pc p" by (cases "thr s ! i") (auto simp: awake_def)
  show ?thesis
  proof (cases p)
    case (WDir l w names)
    obtain j where "signal_ok Go j ((thr s)[i := Ready (WDir l w (tl names))])"
      using signal_possible [of Go "(thr s)[i := Ready (WDir l w (tl names))]"] by blast
    then have "crew_exec fs s (WorkerRead i (Some a) j) \<noteq> None"
      using i p a ok WDir by (cases names) (auto simp: crew_exec_def ptr_ok_def Let_def split: sum.splits option.splits)
    then show ?thesis by blast
  qed (use i p ok in \<open>auto simp: crew_exec_def split: sum.splits option.splits after_stat.splits bool.splits\<close>)
qed

text \<open>C19: the crew does not fall asleep on its work: while a caller waits, no directory has failed to
  open, a worker is left and memory is to be had, some worker can take its next step. That a worker is left is not a matter of
  course: the worker that finishes a search ends, so that a crew of five is good for five searches.\<close>

theorem crew_never_stuck:
  assumes "reach crew_init (crew_exec fs) s" and "crash s = None" and "k < length (thr s)"
    and "thr s ! k = Waiting Done CQueued" and "leaked s = []" and "0 < cnt is_worker (thr s)"
    and "crew_unused (cw s) a"
  shows "\<exists>i e j. i < length (thr s) \<and> crew_exec fs s e \<noteq> None \<and>
           e \<in> {WorkerGo i, WorkerAlloc i True, WorkerTop i, WorkerStat i, WorkerRead i (Some a) j, WorkerFinish i}"
proof -
  obtain ws where core: "crew_core (cw s) (thr s) (added s) (taken s) (processed s) (leaked s) ws"
    using crew_reach_core [OF assms(1,2)] by blast
  have all: "list_all (thr_ok (0 < work_count (cw s))) (thr s)" using core unfolding crew_core_def by blast
  have "thr_ok (0 < work_count (cw s)) (thr s ! k)" using all assms(3) by (simp add: list_all_length)
  then have pos: "0 < work_count (cw s)" using assms(4) by simp
  have "\<exists>t \<in> set (thr s). awake is_worker t"
  proof (cases "ws = []")
    case False
    with core assms(6) have "0 < cnt (awake is_worker) (thr s)" by (auto simp: crew_core_def)
    then show ?thesis by (meson cnt_pos_obtain)
  next
    case True
    with pos core assms(5) have "gather item (thr s) \<noteq> {#}" by (auto simp: crew_core_def)
    then obtain t where t: "t \<in> set (thr s)" "item t \<noteq> {#}" using gather_nonempty by blast
    with all have "thr_ok (0 < work_count (cw s)) t" by (auto simp: list_all_iff)
    with t(2) have "awake is_worker t"
      using item_worker by (cases "(0 < work_count (cw s), t)" rule: thr_ok.cases) (auto simp: awake_def)
    with t show ?thesis by blast
  qed
  then obtain i where i: "i < length (thr s)" "awake is_worker (thr s ! i)" by (auto simp: in_set_conv_nth)
  from worker_moves [OF i assms(2,7)] i(1) show ?thesis by blast
qed


lemma search_file_sound: "search_file p s \<Longrightarrow> \<exists>a b. s = a @ p @ b"
proof (induction p s rule: search_file.induct)
  case (1 p s)
  obtain buf r where f: "fgets 255 s = (buf, r)" by (cases "fgets 255 s")
  have s: "s = buf @ r" using fgets_append [OF f] by simp
  from 1(2) have ne: "s \<noteq> []" by (auto simp: search_file.simps split: if_splits)
  show ?case
  proof (cases "strstr (cstr buf) p")
    case True
    then obtain a b where ab: "cstr buf = a @ p @ b" using strstr_sound by blast
    have "buf = cstr buf @ dropWhile (\<lambda>c. c \<noteq> CHR 0x00) buf" by (simp add: cstr_def)
    with s ab have "s = a @ p @ (b @ dropWhile (\<lambda>c. c \<noteq> CHR 0x00) buf @ r)" by simp
    then show ?thesis by blast
  next
    case False
    with 1(2) ne f have "search_file p r" by (simp add: search_file.simps [of p s])
    with 1(1) [OF ne f [symmetric] False] s obtain a b where "s = buf @ a @ p @ b" by auto
    then have "s = (buf @ a) @ p @ b" by simp
    then show ?thesis by blast
  qed
qed

definition found_ok :: "fsys \<Rightarrow> crew_sys \<Rightarrow> bool" where
  "found_ok fs s \<longleftrightarrow> list_all (\<lambda>w. \<exists>txt. fopen fs (path w) = Some txt \<and> search_file (search_string w) txt) (found s)"

interpretation crew_reporting: invariant_system crew_init "crew_exec fs" "found_ok fs" for fs
proof
  show "found_ok fs s" if "crew_init s" for s
    using that by (auto simp: found_ok_def crew_init_def crew_begin_def)
  show "found_ok fs t" if "found_ok fs s" "crew_exec fs s e = Some t" for s e t
  proof -
    have "worker_stat fs l w = Inr (l', Searched True) \<Longrightarrow>
        \<exists>txt. fopen fs (path w) = Some txt \<and> search_file (search_string w) txt" for l l' w
      by (auto simp: worker_stat_def Let_def split: option.splits fmode.splits)
    with that show ?thesis
      by (cases e) (auto simp: crew_exec_def found_ok_def start_put_def put_def Let_def
          split: if_splits tstate.splits crew_pc.splits sum.splits start_next.splits option.splits
            after_stat.splits list.splits bool.splits)
  qed
qed

text \<open>What the crew reports is there: a reported file has been opened, and its contents contain the
  string it was searched for.\<close>

theorem crew_reports_sound:
  assumes "reach crew_init (crew_exec fs) s" and "w \<in> set (found s)"
  shows "\<exists>a b. fopen fs (path w) = Some (a @ search_string w @ b)"
  using crew_reporting.reach_inv [OF assms(1)] assms(2) search_file_sound
  by (fastforce simp: found_ok_def list_all_iff)


section \<open>Runs\<close>

definition raw_crew :: crew where
  "raw_crew = \<lparr>crew_size = 0, work_count = 0, crew_heap = Map.empty, first = None, last_work = None,
     crew_mutex = Raw, done_cv = Raw, go_cv = Raw, path_max = 0, name_max = 0\<rparr>"

definition small_crew :: crew_sys where
  "small_crew = (case crew_create all_ok raw_crew CREW_SIZE of Inr (_, c, k) \<Rightarrow> crew_begin c k 1)"

lemma small_crew_reach: "run (crew_exec fs) small_crew es = Some t \<Longrightarrow> reach crew_init (crew_exec fs) t"
  by (rule reach_by_run [of _ small_crew])
     (force simp: small_crew_def crew_init_def crew_create_def Let_def)+

text \<open>A directory \<open>d\<close> with one file \<open>d/f\<close>, and a directory that cannot be opened.\<close>

definition small_fs :: fsys where
  "small_fs =
     \<lparr>lstat = [''d'' \<mapsto> DIR, ''d/f'' \<mapsto> REG, ''x'' \<mapsto> DIR], opendir = [''d'' \<mapsto> [''.'', ''f'']],
      fopen = [''d/f'' \<mapsto> ''a cat''], pathconf_path = (\<lambda>_. (100, 0)), pathconf_name = (\<lambda>_. (-1, 0))\<rparr>"

declare crew_step.simps [simp del]

lemmas crew_eval = crew_step.simps small_crew_def raw_crew_def crew_create_def crew_begin_def Let_def sync_defs
  crew_exec_def ptr_ok_def crew_unused_def crew_start_def crew_start_queue_def crew_limits_def small_fs_def
  crew_push_def crew_pop_def crew_start_wait_def crew_start_done_def start_put_def signal_ok_def cond_signal_def
  put_def worker_go_def worker_top_def worker_stat_def worker_entry_def worker_path_def child_def dot_def
  worker_finish_def cond_broadcast_def CREW_SIZE_def replicate_numeral search_file.simps cstr_def numeral_eq_Suc

definition search_run :: "crew_event list" where
  "search_run = [CallStart 0 ''d'' ''cat'' (Some 1) True 0, WorkerGo 1, WorkerAlloc 1 True, WorkerTop 1,
     WorkerStat 1, WorkerRead 1 None 0, WorkerRead 1 (Some 2) 0, WorkerRead 1 None 0, WorkerFinish 1]"

definition rest_run :: "crew_event list" where
  "rest_run = [WorkerTop 1, WorkerStat 1, WorkerFinish 1]"

lemma search_state:
  "\<exists>t. run (crew_exec small_fs) small_crew search_run = Some t \<and> crash t = None \<and>
     thr t = [Waiting Done CQueued, Ready (WTop \<lparr>entry = True, filestat = Some DIR\<rparr>), Ready WStart,
              Ready WStart, Ready WStart, Ready WStart] \<and>
     leaked t = [] \<and> crew_unused (cw t) 3 \<and> work_count (cw t) = 1"
  by (simp add: search_run_def crew_eval)

lemma rest_state:
  "\<exists>s. run (crew_exec small_fs) small_crew (search_run @ rest_run) = Some s \<and>
     roots s = [\<lparr>path = ''d'', search_string = ''cat''\<rparr>] \<and> crash s = None \<and>
     found s = [\<lparr>path = ''d/f'', search_string = ''cat''\<rparr>] \<and>
     (\<exists>t. crew_exec small_fs s (StartDone 0) = Some t \<and> thr t ! 0 = Ready CIdle)"
  by (simp add: search_run_def rest_run_def crew_eval)

definition leak_run :: "crew_event list" where
  "leak_run = [CallStart 0 ''x'' ''cat'' (Some 1) True 0, WorkerGo 1, WorkerAlloc 1 True, WorkerTop 1, WorkerStat 1]"

lemma leak_state:
  "\<exists>s t u. run (crew_exec small_fs) small_crew leak_run = Some s \<and>
     leaked s = [\<lparr>path = ''x'', search_string = ''cat''\<rparr>] \<and>
     run (crew_exec small_fs) s [Spurious 0 Done] = Some t \<and> crew_exec small_fs t (StartDone 0) = Some u"
  by (simp add: leak_run_def crew_eval spurious_def)

theorem crew_start_complete_witness:
  "\<exists>s :: crew_sys. \<lparr>path = ''d/f'', search_string = ''cat''\<rparr> \<in> set (processed s)"
proof -
  let ?r = "\<lparr>path = ''d'', search_string = ''cat''\<rparr>" and ?w = "\<lparr>path = ''d/f'', search_string = ''cat''\<rparr>"
  obtain s t where s: "run (crew_exec small_fs) small_crew (search_run @ rest_run) = Some s"
    "roots s = [?r]" "crew_exec small_fs s (StartDone 0) = Some t" "thr t ! 0 = Ready CIdle"
    using rest_state by blast
  have "?w \<in> kids small_fs ?r" by (auto simp: kids_def kids_of_def small_fs_def dot_def child_def)
  then have b: "below small_fs ?r ?w" by (blast intro: below.intros)
  from crew_start_complete [OF small_crew_reach [OF s(1)] s(3,4) _ b] s(2) show ?thesis by auto
qed

theorem crew_work_count_witness:
  "\<exists>s :: crew_sys. work_count (cw s) = 1 \<and> (\<exists>ws. queued (cw s) ws \<and> added s = taken s @ ws)"
proof -
  obtain s where s: "run (crew_exec small_fs) small_crew search_run = Some s" "crash s = None" "work_count (cw s) = 1"
    using search_state by blast
  from crew_work_count [OF small_crew_reach [OF s(1)] s(2)] s(3) show ?thesis by blast
qed

theorem crew_start_hangs_after_leak_witness: "\<exists>u :: crew_sys. thr u ! 0 = Waiting Done CQueued"
proof -
  obtain s t u where s: "run (crew_exec small_fs) small_crew leak_run = Some s"
    "leaked s = [\<lparr>path = ''x'', search_string = ''cat''\<rparr>]"
    "run (crew_exec small_fs) s [Spurious 0 Done] = Some t" "crew_exec small_fs t (StartDone 0) = Some u"
    using leak_state by blast
  from crew_start_hangs_after_leak [OF small_crew_reach [OF s(1)] _ s(3,4)] s(2) show ?thesis by auto
qed

theorem crew_never_stuck_witness:
  "\<exists>(s :: crew_sys) i e j. thr s ! 0 = Waiting Done CQueued \<and> i < length (thr s) \<and> crew_exec small_fs s e \<noteq> None \<and>
     e \<in> {WorkerGo i, WorkerAlloc i True, WorkerTop i, WorkerStat i, WorkerRead i (Some 3) j, WorkerFinish i}"
proof -
  obtain s where s: "run (crew_exec small_fs) small_crew search_run = Some s" "crash s = None"
    "thr s = [Waiting Done CQueued, Ready (WTop \<lparr>entry = True, filestat = Some DIR\<rparr>), Ready WStart,
              Ready WStart, Ready WStart, Ready WStart]" "leaked s = []" "crew_unused (cw s) 3"
    using search_state by blast
  from crew_never_stuck [OF small_crew_reach [OF s(1)] s(2) _ _ s(4) _ s(5), of 0] s(3)
  have "\<exists>i e j. i < length (thr s) \<and> crew_exec small_fs s e \<noteq> None \<and>
     e \<in> {WorkerGo i, WorkerAlloc i True, WorkerTop i, WorkerStat i, WorkerRead i (Some 3) j, WorkerFinish i}" by simp
  moreover have "thr s ! 0 = Waiting Done CQueued" using s(3) by simp
  ultimately show ?thesis by blast
qed

theorem crew_reports_sound_witness:
  "\<exists>a b. fopen small_fs ''d/f'' = Some (a @ ''cat'' @ b)"
proof -
  obtain s where s: "run (crew_exec small_fs) small_crew (search_run @ rest_run) = Some s"
    "found s = [\<lparr>path = ''d/f'', search_string = ''cat''\<rparr>]"
    using rest_state by blast
  from crew_reports_sound [OF small_crew_reach [OF s(1)]] s(2) show ?thesis by auto
qed

text \<open>
  A path of 39 characters or more does not fit the 40 bytes allocated for it: the name of an entry
  runs over the end.
\<close>

theorem worker_path_overflow: "worker_path p name = Inl OutOfBounds \<longleftrightarrow> 39 \<le> length p + length name"
  by (auto simp: worker_path_def child_def)

end
