(* ===== verification/Tty_Server.thy ===== *)
theory Tty_Server
  imports Pthread Fifo C_String
begin

text \<open>
  The terminal server of \<open>server.c\<close>: clients queue read, write and quit requests, one detached
  server thread (created by the first request) serves them in order. A synchronous caller waits on a
  condition variable inside its own request until the server sets \<open>done_flag\<close>, and frees the
  request; an asynchronous request is freed by the server. \<open>tty_exec\<close> runs any number of callers and
  the server in every interleaving; faults are accesses through \<open>NULL\<close>, to freed memory or past the
  end of a buffer, and \<open>err_abort\<close>.
\<close>

section \<open>Data\<close>

definition REQ_READ :: int where "REQ_READ = 1"
definition REQ_WRITE :: int where "REQ_WRITE = 2"
definition REQ_QUIT :: int where "REQ_QUIT = 3"

lemmas req_defs = REQ_READ_def REQ_WRITE_def REQ_QUIT_def

record request =
  operation :: int
  synchronous :: int
  done_flag :: int
  prompt :: string
  req_text :: string

record tty_server =
  tty_heap :: "request heap"
  first :: ptr
  last_req :: ptr
  running :: int

section \<open>The queue of requests\<close>

definition tty_push :: "addr \<Rightarrow> request \<Rightarrow> tty_server \<Rightarrow> fault + tty_server" where
  "tty_push request r tty =
     (let tty = tty\<lparr>tty_heap := (tty_heap tty)(request \<mapsto> \<lparr>cell_next = None, cell_data = r\<rparr>)\<rparr>
      in if first tty = None then Inr (tty\<lparr>first := Some request, last_req := Some request\<rparr>)
         else ebind (store_next (tty_heap tty) (last_req tty) (Some request))
                (\<lambda>h. Inr (tty\<lparr>tty_heap := h, last_req := Some request\<rparr>)))"

definition tty_pop :: "tty_server \<Rightarrow> fault + (addr \<times> tty_server) option" where
  "tty_pop tty =
     (case first tty of
        None \<Rightarrow> Inr None
      | Some request \<Rightarrow>
          ebind (deref (tty_heap tty) (Some request))
            (\<lambda>c. let tty = tty\<lparr>first := cell_next c\<rparr>;
                     tty = (if first tty = None then tty\<lparr>last_req := None\<rparr> else tty)
                 in Inr (Some (request, tty))))"

text \<open>The request that is taken off, for clients that only look at contents.\<close>

definition tty_deq :: "tty_server \<Rightarrow> fault + (request \<times> tty_server) option" where
  "tty_deq tty =
     ebind (tty_pop tty) (\<lambda>r.
       case r of
         None \<Rightarrow> Inr None
       | Some (a, tty') \<Rightarrow> ebind (deref (tty_heap tty') (Some a)) (\<lambda>c. Inr (Some (cell_data c, tty'))))"

definition tty_unused :: "tty_server \<Rightarrow> addr \<Rightarrow> bool" where
  "tty_unused tty a \<longleftrightarrow> tty_heap tty a = None"

definition pending_at :: "tty_server \<Rightarrow> addr list \<Rightarrow> bool" where
  "pending_at tty as \<longleftrightarrow> queue_at (tty_heap tty) (first tty) (last_req tty) as"

definition pending :: "tty_server \<Rightarrow> request list \<Rightarrow> bool" where
  "pending tty rs \<longleftrightarrow> (\<exists>as. pending_at tty as \<and> rs = payloads (tty_heap tty) as)"

lemma tty_push_at:
  assumes q: "pending_at tty as" and a: "tty_unused tty a"
  shows "\<exists>tty'. tty_push a r tty = Inr tty' \<and> pending_at tty' (as @ [a]) \<and> running tty' = running tty \<and>
           payloads (tty_heap tty') (as @ [a]) = payloads (tty_heap tty) as @ [r] \<and>
           map_option cell_data (tty_heap tty' a) = Some r \<and>
           (\<forall>b. b \<noteq> a \<longrightarrow> map_option cell_data (tty_heap tty' b) = map_option cell_data (tty_heap tty b))"
proof -
  have q': "queue_at (tty_heap tty) (first tty) (last_req tty) as" using q by (simp add: pending_at_def)
  have fresh: "a \<notin> set as" using q' a lseg_live by (fastforce simp: queue_at_def tty_unused_def)
  show ?thesis
  proof (cases "as = []")
    case True
    with q' show ?thesis by (auto simp: tty_push_def pending_at_def queue_at_def Let_def)
  next
    case False
    then obtain c where c: "tty_heap tty (last as) = Some c" using queue_at_last_live q' by blast
    let ?h = "(tty_heap tty)(a \<mapsto> \<lparr>cell_next = None, cell_data = r\<rparr>, last as \<mapsto> c\<lparr>cell_next := Some a\<rparr>)"
    have ne: "last as \<noteq> a" using fresh False last_in_set by metis
    have l: "last_req tty = Some (last as)" "first tty \<noteq> None"
      using q' False queue_at_first_None [OF q'] by (auto simp: queue_at_def)
    have "tty_push a r tty = Inr (tty\<lparr>tty_heap := ?h, last_req := Some a\<rparr>)"
      using l c ne by (auto simp: tty_push_def Let_def)
    moreover have "queue_at ?h (first tty) (Some a) (as @ [a])"
      by (rule queue_at_snoc [OF q' False c]) (use a in \<open>auto simp: tty_unused_def\<close>)
    moreover have "payloads ?h (as @ [a]) = payloads (tty_heap tty) as @ [r]"
      using fresh c ne by (auto simp: payloads_def)
    ultimately show ?thesis using c ne by (auto simp: pending_at_def)
  qed
qed

lemma tty_pop_at:
  assumes "pending_at tty (a # as)"
  shows "\<exists>tty'. tty_pop tty = Inr (Some (a, tty')) \<and> pending_at tty' as \<and> tty_heap tty' = tty_heap tty \<and>
           running tty' = running tty"
proof -
  from assms obtain c where c: "first tty = Some a" "tty_heap tty a = Some c" by (auto simp: pending_at_def queue_at_def)
  with assms show ?thesis by (cases as) (auto simp: tty_pop_def pending_at_def queue_at_def Let_def)
qed

lemma tty_pop_empty: "pending_at tty [] \<Longrightarrow> tty_pop tty = Inr None"
  by (auto simp: pending_at_def tty_pop_def)

interpretation tty_queue: fifo tty_push tty_deq tty_unused pending
proof
  show "\<exists>q'. tty_push a x q = Inr q' \<and> pending q' (xs @ [x])" if "pending q xs" "tty_unused q a" for q xs a x
  proof -
    from that obtain as where "pending_at q as" "xs = payloads (tty_heap q) as" by (auto simp: pending_def)
    with tty_push_at [OF this(1) that(2), of x] show ?thesis unfolding pending_def by metis
  qed
  show "tty_deq q = Inr None" if "pending q []" for q
    using that by (auto simp: pending_def tty_deq_def tty_pop_empty payloads_def)
  show "\<exists>q'. tty_deq q = Inr (Some (x, q')) \<and> pending q' xs" if "pending q (x # xs)" for q x xs
  proof -
    from that obtain a as where as: "pending_at q (a # as)" "x # xs = payloads (tty_heap q) (a # as)"
      by (auto simp: pending_def payloads_def)
    from tty_pop_at [OF as(1)] obtain q' where q': "tty_pop q = Inr (Some (a, q'))" "pending_at q' as"
      "tty_heap q' = tty_heap q" by blast
    obtain c where "tty_heap q a = Some c" using as(1) by (auto simp: pending_at_def queue_at_def)
    with q' as(2) show ?thesis by (auto simp: tty_deq_def pending_def)
  qed
qed

section \<open>Requesting an operation\<close>

text \<open>The one-time start of the server thread; the flag says that a thread was created.\<close>

definition tty_start :: "penv \<Rightarrow> tty_server \<Rightarrow> fault + (tty_server \<times> bool)" where
  "tty_start st tty =
     (if running tty \<noteq> 0 then Inr (tty, False)
      else if st Attr_init \<noteq> 0 then Inl (Aborted (st Attr_init))
      else if st Attr_setdetachstate \<noteq> 0 then Inl (Aborted (st Attr_setdetachstate))
      else let tty = tty\<lparr>running := 1\<rparr>
           in if st Create \<noteq> 0 then Inl (Aborted (st Create)) else Inr (tty, True))"

definition make_request :: "int \<Rightarrow> int \<Rightarrow> string option \<Rightarrow> string option \<Rightarrow> request" where
  "make_request op sync pr str =
     \<lparr>operation = op, synchronous = sync, done_flag = 0,
      prompt = (case pr of Some p \<Rightarrow> strncpy 32 p | None \<Rightarrow> [NUL]),
      req_text = (case str of Some x \<Rightarrow> if op = REQ_WRITE then strncpy 128 x else [NUL] | None \<Rightarrow> [NUL])\<rparr>"

text \<open>Up to the signal to the server; \<open>mem\<close> is what \<open>malloc\<close> returned.\<close>

definition tty_server_request ::
  "penv \<Rightarrow> ptr \<Rightarrow> int \<Rightarrow> int \<Rightarrow> string option \<Rightarrow> string option \<Rightarrow> tty_server \<Rightarrow> fault + (addr \<times> tty_server \<times> bool)" where
  "tty_server_request st mem op sync pr str tty =
     (if st Mutex_lock \<noteq> 0 then Inl (Aborted (st Mutex_lock))
      else ebind (tty_start st tty) (\<lambda>(tty, spawned).
        case mem of
          None \<Rightarrow> Inl (Aborted 1)
        | Some request \<Rightarrow>
            if sync \<noteq> 0 \<and> st Cond_init \<noteq> 0 then Inl (Aborted (st Cond_init))
            else ebind (tty_push request (make_request op sync pr str) tty) (\<lambda>tty.
              if st Cond_signal \<noteq> 0 then Inl (Aborted (st Cond_signal))
              else Inr (request, tty, spawned))))"

text \<open>The test of the synchronous caller's loop.\<close>

definition tty_request_done :: "addr \<Rightarrow> tty_server \<Rightarrow> fault + bool" where
  "tty_request_done request tty =
     ebind (deref (tty_heap tty) (Some request)) (\<lambda>c. Inr (done_flag (cell_data c) \<noteq> 0))"

text \<open>
  Behind the loop: the text that was read goes to the caller's buffer (128 bytes, like the text), the
  request is freed. The result is what the buffer holds.
\<close>

definition tty_request_finish ::
  "penv \<Rightarrow> addr \<Rightarrow> int \<Rightarrow> bool \<Rightarrow> tty_server \<Rightarrow> fault + (tty_server \<times> string option)" where
  "tty_request_finish st request op has_string tty =
     ebind (deref (tty_heap tty) (Some request)) (\<lambda>c.
       ebind (if op = REQ_READ then
                ebind (buf_str (req_text (cell_data c))) (\<lambda>x.
                  if \<not> has_string then Inl NullDeref else Inr (Some x))
              else Inr None) (\<lambda>res.
         if st Cond_destroy \<noteq> 0 then Inl (Aborted (st Cond_destroy))
         else let tty = tty\<lparr>tty_heap := (tty_heap tty)(request := None)\<rparr>
              in if st Mutex_unlock \<noteq> 0 then Inl (Aborted (st Mutex_unlock)) else Inr (tty, res)))"

section \<open>The server\<close>

text \<open>\<open>printf(request->prompt)\<close> takes the prompt for a format: a conversion reads a missing argument.\<close>

fun has_conversion :: "string \<Rightarrow> bool" where
  "has_conversion [] = False"
| "has_conversion [c] = (c = CHR ''%'')"
| "has_conversion (c # d # s) =
     (if c = CHR ''%'' then (if d = CHR ''%'' then has_conversion s else True) else has_conversion (d # s))"

definition strip_newline :: "string \<Rightarrow> string" where
  "strip_newline s = (if s \<noteq> [] \<and> last s = CHR 0x0A then butlast s else s)"

text \<open>\<open>input\<close> is what is left of standard input. The result is the request and the rest of the input.\<close>

definition tty_read :: "string \<Rightarrow> request \<Rightarrow> fault + (request \<times> string)" where
  "tty_read input r =
     ebind (buf_str (prompt r)) (\<lambda>p.
       if has_conversion p then Inl Uninitialised
       else if input = [] then Inr (r\<lparr>req_text := [NUL]\<rparr>, [])
       else case fgets 127 input of (line, rest) \<Rightarrow> Inr (r\<lparr>req_text := strip_newline (cstr line) @ [NUL]\<rparr>, rest))"

datatype effect = Nothing | DidRead string | DidWrite string

definition tty_process :: "addr \<Rightarrow> string \<Rightarrow> tty_server \<Rightarrow> fault + (tty_server \<times> string \<times> effect)" where
  "tty_process request input tty =
     ebind (deref (tty_heap tty) (Some request)) (\<lambda>c.
       let r = cell_data c
       in if operation r = REQ_READ then
            ebind (tty_read input r) (\<lambda>(r, rest).
              Inr (tty\<lparr>tty_heap := (tty_heap tty)(request \<mapsto> c\<lparr>cell_data := r\<rparr>)\<rparr>, rest, DidRead (cstr (req_text r))))
          else if operation r = REQ_WRITE then
            ebind (buf_str (req_text r)) (\<lambda>x. Inr (tty, input, DidWrite x))
          else Inr (tty, input, Nothing))"

text \<open>Completion: the flags say that \<open>done\<close> was signalled and that the server leaves its loop.\<close>

definition tty_complete :: "penv \<Rightarrow> addr \<Rightarrow> tty_server \<Rightarrow> fault + (tty_server \<times> bool \<times> bool)" where
  "tty_complete st request tty =
     ebind (deref (tty_heap tty) (Some request)) (\<lambda>c.
       let op = operation (cell_data c)
       in if synchronous (cell_data c) \<noteq> 0 then
            if st Mutex_lock \<noteq> 0 then Inl (Aborted (st Mutex_lock))
            else let tty = tty\<lparr>tty_heap := (tty_heap tty)(request \<mapsto> c\<lparr>cell_data := (cell_data c)\<lparr>done_flag := 1\<rparr>\<rparr>)\<rparr>
                 in if st Cond_signal \<noteq> 0 then Inl (Aborted (st Cond_signal))
                    else if st Mutex_unlock \<noteq> 0 then Inl (Aborted (st Mutex_unlock))
                    else Inr (tty, True, op = REQ_QUIT)
          else Inr (tty\<lparr>tty_heap := (tty_heap tty)(request := None)\<rparr>, False, op = REQ_QUIT))"

section \<open>Callers and the server running together\<close>

datatype tty_cv = Request | DoneOf addr

datatype client_pc = CIdle | CWait addr int bool
datatype server_pc = SLoop | SGot addr | SDone addr

type_synonym client = "(tty_cv, client_pc) tstate"
type_synonym server = "(tty_cv, server_pc) tstate"

record tty_sys =
  tty :: tty_server
  clients :: "client list"
  servers :: "server list"
  crash :: "fault option"
  input :: string
  added :: "request list"
  taken :: "request list"
  written :: "string list"
  lines_read :: "string list"
  answers :: "string list"

datatype tty_event =
    Call nat ptr int int "string option" "string option" nat | Resume nat
  | Take nat | Process nat | Complete nat nat
  | WakeClient nat addr | WakeServer nat

definition fail :: "fault \<Rightarrow> tty_sys \<Rightarrow> tty_sys" where
  "fail f s = s\<lparr>crash := Some f\<rparr>"

definition set_client :: "nat \<Rightarrow> client \<Rightarrow> tty_sys \<Rightarrow> tty_sys" where
  "set_client i t s = s\<lparr>clients := (clients s)[i := t]\<rparr>"

definition set_server :: "nat \<Rightarrow> server \<Rightarrow> tty_sys \<Rightarrow> tty_sys" where
  "set_server i t s = s\<lparr>servers := (servers s)[i := t]\<rparr>"

fun tty_step :: "tty_sys \<Rightarrow> tty_event \<Rightarrow> tty_sys option" where
  "tty_step s (Call i mem op sync pr str k) =
     (if i < length (clients s) \<and> clients s ! i = Ready CIdle \<and>
         (case mem of None \<Rightarrow> True | Some a \<Rightarrow> tty_unused (tty s) a) then
        case tty_server_request all_ok mem op sync pr str (tty s) of
          Inl f \<Rightarrow> Some (fail f s)
        | Inr (a, t, spawned) \<Rightarrow>
            let ts = servers s @ (if spawned then [Ready SLoop] else []);
                u = (if sync \<noteq> 0 then Waiting (DoneOf a) (CWait a op (str \<noteq> None)) else Ready CIdle)
            in if signal_ok Request k ts
               then Some (set_client i u (s\<lparr>tty := t, added := added s @ [make_request op sync pr str],
                      servers := cond_signal Request k ts\<rparr>))
               else None
      else None)"
| "tty_step s (Resume i) =
     (if i < length (clients s) then
        case clients s ! i of
          Ready (CWait a op has_string) \<Rightarrow>
            (case tty_request_done a (tty s) of
               Inl f \<Rightarrow> Some (fail f s)
             | Inr False \<Rightarrow> Some (set_client i (Waiting (DoneOf a) (CWait a op has_string)) s)
             | Inr True \<Rightarrow>
                 (case tty_request_finish all_ok a op has_string (tty s) of
                    Inl f \<Rightarrow> Some (fail f s)
                  | Inr (t, res) \<Rightarrow>
                      Some (set_client i (Ready CIdle)
                        (s\<lparr>tty := t, answers := answers s @ (case res of None \<Rightarrow> [] | Some x \<Rightarrow> [x])\<rparr>))))
        | _ \<Rightarrow> None
      else None)"
| "tty_step s (Take i) =
     (if i < length (servers s) \<and> servers s ! i = Ready SLoop then
        case tty_pop (tty s) of
          Inl f \<Rightarrow> Some (fail f s)
        | Inr None \<Rightarrow> Some (set_server i (Waiting Request SLoop) s)
        | Inr (Some (a, t)) \<Rightarrow>
            Some (set_server i (Ready (SGot a))
              (s\<lparr>tty := t, taken := taken s @ [cell_data (the (tty_heap t a))]\<rparr>))
      else None)"
| "tty_step s (Process i) =
     (if i < length (servers s) then
        case servers s ! i of
          Ready (SGot a) \<Rightarrow>
            (case tty_process a (input s) (tty s) of
               Inl f \<Rightarrow> Some (fail f s)
             | Inr (t, rest, eff) \<Rightarrow>
                 Some (set_server i (Ready (SDone a))
                   (s\<lparr>tty := t, input := rest,
                      written := (case eff of DidWrite x \<Rightarrow> written s @ [x] | _ \<Rightarrow> written s),
                      lines_read := (case eff of DidRead x \<Rightarrow> lines_read s @ [x] | _ \<Rightarrow> lines_read s)\<rparr>)))
        | _ \<Rightarrow> None
      else None)"
| "tty_step s (Complete i j) =
     (if i < length (servers s) then
        case servers s ! i of
          Ready (SDone a) \<Rightarrow>
            (case tty_complete all_ok a (tty s) of
               Inl f \<Rightarrow> Some (fail f s)
             | Inr (t, sig, quit) \<Rightarrow>
                 if sig \<and> \<not> signal_ok (DoneOf a) j (clients s) then None
                 else Some (set_server i (if quit then Finished else Ready SLoop)
                   (s\<lparr>tty := t, clients := (if sig then cond_signal (DoneOf a) j (clients s) else clients s)\<rparr>)))
        | _ \<Rightarrow> None
      else None)"
| "tty_step s (WakeClient i a) = Some (s\<lparr>clients := spurious i (DoneOf a) (clients s)\<rparr>)"
| "tty_step s (WakeServer i) = Some (s\<lparr>servers := spurious i Request (servers s)\<rparr>)"

definition tty_exec :: "tty_sys \<Rightarrow> tty_event \<Rightarrow> tty_sys option" where
  "tty_exec s e = (if crash s = None then tty_step s e else None)"

definition tty_begin :: "nat \<Rightarrow> string \<Rightarrow> tty_sys" where
  "tty_begin n inp =
     \<lparr>tty = \<lparr>tty_heap = Map.empty, first = None, last_req = None, running = 0\<rparr>,
      clients = replicate n (Ready CIdle), servers = [], crash = None, input = inp, added = [], taken = [],
      written = [], lines_read = [], answers = []\<rparr>"

definition tty_init :: "tty_sys \<Rightarrow> bool" where
  "tty_init s \<longleftrightarrow> (\<exists>n inp. s = tty_begin n inp)"

section \<open>The invariant\<close>

definition cell_at :: "tty_server \<Rightarrow> addr \<Rightarrow> request \<Rightarrow> bool" where
  "cell_at t a r \<longleftrightarrow> map_option cell_data (tty_heap t a) = Some r"

lemma cell_at_fun: "cell_at t a r \<Longrightarrow> cell_at t a r' \<Longrightarrow> r = r'"
  by (auto simp: cell_at_def)

fun held_by :: "server \<Rightarrow> addr list" where
  "held_by (Ready (SGot a)) = [a]"
| "held_by (Ready (SDone a)) = [a]"
| "held_by _ = []"

definition held :: "server list \<Rightarrow> addr list" where
  "held ss = concat (map held_by ss)"

lemma held_simps [simp]: "held [] = []" "held (s # ss) = held_by s @ held ss"
  by (simp_all add: held_def)

fun waits :: "client \<Rightarrow> (addr \<times> int \<times> bool) option" where
  "waits (Ready (CWait a op b)) = Some (a, op, b)"
| "waits (Waiting c (CWait a op b)) = Some (a, op, b)"
| "waits _ = None"

fun client_ok :: "client \<Rightarrow> bool" where
  "client_ok (Waiting c (CWait a op b)) = (c = DoneOf a)"
| "client_ok (Waiting c CIdle) = False"
| "client_ok _ = True"

fun server_ok :: "addr list \<Rightarrow> server \<Rightarrow> bool" where
  "server_ok as (Waiting Request SLoop) = (as = [])"
| "server_ok as (Waiting c p) = False"
| "server_ok as _ = True"

definition answered :: "string list \<Rightarrow> request \<Rightarrow> bool" where
  "answered ls r \<longleftrightarrow> (\<exists>x \<in> set ls. NUL \<notin> set x \<and> req_text r = x @ [NUL])"

text \<open>
  A request in the queue or in the server's hands is allocated, and if it is synchronous exactly one
  caller waits for it; a caller's request is allocated, it is queued or held as long as \<open>done_flag\<close> is
  not set, and a caller whose \<open>done_flag\<close> is set is awake.
\<close>

definition waiter :: "client list \<Rightarrow> nat \<Rightarrow> addr \<Rightarrow> bool" where
  "waiter cl i a \<longleftrightarrow> i < length cl \<and> (\<exists>op b. waits (cl ! i) = Some (a, op, b))"

definition pending_ok :: "tty_server \<Rightarrow> client list \<Rightarrow> addr list \<Rightarrow> bool" where
  "pending_ok t cl P \<longleftrightarrow> distinct P \<and>
     (\<forall>a \<in> set P. \<exists>r. cell_at t a r \<and> (synchronous r \<noteq> 0 \<longrightarrow> done_flag r = 0 \<and> (\<exists>i. waiter cl i a)))"

definition caller_ok :: "tty_server \<Rightarrow> addr list \<Rightarrow> string list \<Rightarrow> client \<Rightarrow> bool" where
  "caller_ok t P ls c \<longleftrightarrow> client_ok c \<and>
     (\<forall>a op b. waits c = Some (a, op, b) \<longrightarrow>
       (\<exists>r. cell_at t a r \<and> synchronous r \<noteq> 0 \<and> operation r = op \<and> (done_flag r = 0 \<longrightarrow> a \<in> set P) \<and>
            (done_flag r \<noteq> 0 \<longrightarrow> is_ready c \<and> (op = REQ_READ \<longrightarrow> answered ls r))))"

definition one_each :: "client list \<Rightarrow> bool" where
  "one_each cl \<longleftrightarrow> (\<forall>i j a. waiter cl i a \<longrightarrow> waiter cl j a \<longrightarrow> i = j)"

fun served_ok :: "tty_server \<Rightarrow> string list \<Rightarrow> server \<Rightarrow> bool" where
  "served_ok t ls (Ready (SDone a)) = (\<forall>r. cell_at t a r \<longrightarrow> operation r = REQ_READ \<longrightarrow> answered ls r)"
| "served_ok t ls _ = True"

definition server_side :: "tty_server \<Rightarrow> server list \<Rightarrow> string list \<Rightarrow> addr list \<Rightarrow> bool" where
  "server_side t ss ls as \<longleftrightarrow>
     (running t = 0 \<and> ss = [] \<and> as = [] \<or> running t \<noteq> 0 \<and> (\<exists>s. ss = [s] \<and> server_ok as s \<and> served_ok t ls s))"

definition tty_core :: "tty_server \<Rightarrow> client list \<Rightarrow> server list \<Rightarrow> string list \<Rightarrow> addr list \<Rightarrow> bool" where
  "tty_core t cl ss ls as \<longleftrightarrow>
     pending_at t as \<and> pending_ok t cl (held ss @ as) \<and> list_all (caller_ok t (held ss @ as) ls) cl \<and>
     one_each cl \<and> server_side t ss ls as"

definition tty_inv :: "tty_sys \<Rightarrow> bool" where
  "tty_inv s \<longleftrightarrow> crash s = None \<longrightarrow>
     (\<exists>as. tty_core (tty s) (clients s) (servers s) (lines_read s) as \<and>
           added s = taken s @ payloads (tty_heap (tty s)) as) \<and> set (answers s) \<subseteq> set (lines_read s)"

lemma tty_begin_inv: "tty_init s \<Longrightarrow> tty_inv s"
  by (auto simp: tty_init_def tty_begin_def tty_inv_def tty_core_def pending_at_def pending_ok_def caller_ok_def
      one_each_def waiter_def server_side_def list_all_length intro!: exI [of _ "[]"])

text \<open>Changing or freeing a request that is not in the queue keeps the queue.\<close>

lemma pending_at_upd:
  assumes "pending_at t as" and "a \<notin> set as"
  shows "pending_at (t\<lparr>tty_heap := (tty_heap t)(a := x)\<rparr>) as"
  using assms by (cases x) (auto simp: pending_at_def queue_at_def heap_simps)

lemma cell_at_upd:
  "cell_at (t\<lparr>tty_heap := (tty_heap t)(a \<mapsto> c)\<rparr>) b r \<longleftrightarrow> (if b = a then r = cell_data c else cell_at t b r)"
  "cell_at (t\<lparr>tty_heap := (tty_heap t)(a := None)\<rparr>) b r \<longleftrightarrow> b \<noteq> a \<and> cell_at t b r"
  by (auto simp: cell_at_def)

lemma cell_at_deref: "cell_at t a r \<Longrightarrow> \<exists>c. tty_heap t a = Some c \<and> cell_data c = r"
  by (auto simp: cell_at_def)

lemma answered_mono: "answered ls r \<Longrightarrow> set ls \<subseteq> set ls' \<Longrightarrow> answered ls' r"
  by (auto simp: answered_def)

lemma waiter_upd:
  "i < length cl \<Longrightarrow> waiter (cl[i := c]) j a \<longleftrightarrow> (if j = i then (\<exists>op b. waits c = Some (a, op, b)) else waiter cl j a)"
  by (auto simp: waiter_def)

lemma waits_wake [simp]: "waits (wake c t) = waits t"
  by (cases t; cases "waits t") (auto split: if_splits elim!: waits.elims)

lemma waiter_cond [simp]: "waiter (cond_signal c j cl) i a = waiter cl i a" "waiter (spurious j c cl) i a = waiter cl i a"
  by (auto simp: waiter_def cond_signal_def spurious_def nth_list_update)

lemma client_ok_wake: "client_ok t \<Longrightarrow> client_ok (wake c t)"
  by (cases t rule: client_ok.cases) auto

lemma caller_ok_wake: "caller_ok t P ls c \<Longrightarrow> caller_ok t P ls (wake v c)"
proof -
  have "is_ready c \<Longrightarrow> is_ready (wake v c)" by (cases c) auto
  then show "caller_ok t P ls c \<Longrightarrow> caller_ok t P ls (wake v c)"
    unfolding caller_ok_def by (metis client_ok_wake waits_wake)
qed


lemma caller_okD:
  assumes "caller_ok t P ls c" and "waits c = Some (a, op, b)"
  shows "\<exists>r. cell_at t a r \<and> synchronous r \<noteq> 0 \<and> operation r = op \<and> (done_flag r = 0 \<longrightarrow> a \<in> set P) \<and>
            (done_flag r \<noteq> 0 \<longrightarrow> is_ready c \<and> (op = REQ_READ \<longrightarrow> answered ls r))"
  using assms by (simp add: caller_ok_def)

text \<open>A caller's condition survives changes that keep its request and do not shrink what is pending.\<close>

lemma caller_ok_mono:
  assumes "caller_ok t P ls c" and "set P \<subseteq> set P'" and "set ls \<subseteq> set ls'"
    and "\<And>a op b r. waits c = Some (a, op, b) \<Longrightarrow> cell_at t a r \<Longrightarrow> cell_at t' a r"
  shows "caller_ok t' P' ls' c"
  unfolding caller_ok_def
proof (intro conjI allI impI)
  show "client_ok c" using assms(1) by (simp add: caller_ok_def)
  fix a op b assume w: "waits c = Some (a, op, b)"
  from caller_okD [OF assms(1) w] obtain r where r: "cell_at t a r" "synchronous r \<noteq> 0" "operation r = op"
    "done_flag r = 0 \<longrightarrow> a \<in> set P" "done_flag r \<noteq> 0 \<longrightarrow> is_ready c \<and> (op = REQ_READ \<longrightarrow> answered ls r)" by blast
  with assms(2,3) assms(4) [OF w r(1)] answered_mono [of ls r ls']
  show "\<exists>r. cell_at t' a r \<and> synchronous r \<noteq> 0 \<and> operation r = op \<and> (done_flag r = 0 \<longrightarrow> a \<in> set P') \<and>
            (done_flag r \<noteq> 0 \<longrightarrow> is_ready c \<and> (op = REQ_READ \<longrightarrow> answered ls' r))" by blast
qed

lemma one_each_upd:
  assumes "one_each cl" and "i < length cl" and "\<And>a op b j. waits c = Some (a, op, b) \<Longrightarrow> j \<noteq> i \<Longrightarrow> \<not> waiter cl j a"
  shows "one_each (cl[i := c])"
  unfolding one_each_def
proof (intro allI impI)
  fix j k a assume "waiter (cl[i := c]) j a" "waiter (cl[i := c]) k a"
  then show "j = k" using assms(1) [unfolded one_each_def, rule_format, of j a k] assms(3)
    by (cases "j = i"; cases "k = i") (auto simp: waiter_upd [OF assms(2)])
qed

lemma make_request_simps [simp]:
  "operation (make_request op sync pr str) = op" "synchronous (make_request op sync pr str) = sync"
  "done_flag (make_request op sync pr str) = 0"
  by (simp_all add: make_request_def)

lemma call_core:
  assumes core: "tty_core t cl ss ls as" and i: "i < length cl" "cl ! i = Ready CIdle"
    and a: "tty_unused t a" and r: "tty_server_request all_ok (Some a) op sync pr str t = Inr (a', t', spawned)"
    and u: "u = (if sync \<noteq> 0 then Waiting (DoneOf a) (CWait a op b) else Ready CIdle)"
    and sig: "signal_ok Request k (ss @ (if spawned then [Ready SLoop] else []))"
  shows "a' = a \<and> tty_core t' (cl[i := u]) (cond_signal Request k (ss @ (if spawned then [Ready SLoop] else []))) ls (as @ [a]) \<and>
         payloads (tty_heap t') (as @ [a]) = payloads (tty_heap t) as @ [make_request op sync pr str]"
proof -
  let ?t1 = "t\<lparr>running := 1\<rparr>" and ?r = "make_request op sync pr str"
  let ?t0 = "if running t = 0 then ?t1 else t"
  let ?ss = "cond_signal Request k (ss @ (if spawned then [Ready SLoop] else []))"
  have start: "tty_start all_ok t = Inr (?t0, running t = 0)" by (simp add: tty_start_def Let_def)
  have same: "tty_heap ?t0 = tty_heap t" "first ?t0 = first t" "last_req ?t0 = last_req t" by auto
  from core have q: "pending_at ?t0 as" by (auto simp: tty_core_def pending_at_def)
  have a0: "tty_unused ?t0 a" using a by (simp add: tty_unused_def)
  from tty_push_at [OF q a0, of ?r] obtain t2 where t2: "tty_push a ?r ?t0 = Inr t2" "pending_at t2 (as @ [a])"
    "running t2 = running ?t0" "payloads (tty_heap t2) (as @ [a]) = payloads (tty_heap t) as @ [?r]"
    "cell_at t2 a ?r" "\<forall>b. b \<noteq> a \<longrightarrow> map_option cell_data (tty_heap t2 b) = map_option cell_data (tty_heap t b)"
    unfolding cell_at_def same by blast
  have other: "b \<noteq> a \<Longrightarrow> cell_at t2 b r = cell_at t b r" for b r using t2(6) by (simp add: cell_at_def)
  have res: "a' = a" "t' = t2" "spawned = (running t = 0)"
    using r start t2(1) by (auto simp: tty_server_request_def)
  have fresh: "\<not> cell_at t a r" for r using a by (simp add: tty_unused_def cell_at_def)
  have pok: "pending_ok t cl (held ss @ as)" using core by (simp add: tty_core_def)
  have ne: "b \<noteq> a" if "b \<in> set (held ss @ as)" for b
  proof -
    from pok that obtain r where "cell_at t b r" unfolding pending_ok_def by blast
    with fresh show ?thesis by auto
  qed
  have heldc: "b \<in> set (held ss) \<Longrightarrow> cell_at t2 b r \<Longrightarrow> cell_at t b r" for b r
    using other [of b r] ne [of b] by simp
  have side: "server_side t' ?ss ls (as @ [a]) \<and> held ?ss = held ss"
    using core sig res t2(3) heldc unfolding tty_core_def server_side_def
    by (auto simp: cond_signal_def signal_ok_def elim!: server_ok.elims served_ok.elims
        split: if_splits)
  have nw: "\<not> waiter cl j a" for j
  proof
    assume "waiter cl j a"
    then obtain op b where j: "j < length cl" "waits (cl ! j) = Some (a, op, b)" by (auto simp: waiter_def)
    with core have "caller_ok t (held ss @ as) ls (cl ! j)" by (simp add: tty_core_def list_all_length)
    from caller_okD [OF this j(2)] fresh show False by blast
  qed
  have cells: "cell_at t2 b r" if "cell_at t b r" for b r
    using that other fresh by (cases "b = a") auto
  have w': "waiter (cl[i := u]) j b" if "waiter cl j b" for j b
    using that i by (cases "j = i") (auto simp: waiter_def)
  have wa: "sync \<noteq> 0 \<Longrightarrow> waiter (cl[i := u]) i a" using i u by (auto simp: waiter_def)
  have "pending_ok t2 (cl[i := u]) (held ss @ as @ [a])"
    unfolding pending_ok_def
  proof (intro conjI ballI)
    show "distinct (held ss @ as @ [a])" using pok ne by (auto simp: pending_ok_def)
    fix b assume b: "b \<in> set (held ss @ as @ [a])"
    show "\<exists>r. cell_at t2 b r \<and> (synchronous r \<noteq> 0 \<longrightarrow> done_flag r = 0 \<and> (\<exists>j. waiter (cl[i := u]) j b))"
    proof (cases "b = a")
      case True
      with t2(5) wa show ?thesis by (intro exI [of _ ?r]) auto
    next
      case False
      with b pok cells w' show ?thesis unfolding pending_ok_def by (metis Un_iff empty_iff insert_iff list.set(1,2) set_append)
    qed
  qed
  moreover have "list_all (caller_ok t2 (held ss @ as @ [a]) ls) (cl[i := u])"
  proof (rule list_all_upd)
    show "list_all (caller_ok t2 (held ss @ as @ [a]) ls) cl"
      using core cells by (auto simp: tty_core_def list_all_iff intro: caller_ok_mono)
    show "caller_ok t2 (held ss @ as @ [a]) ls u"
      using t2(5) u by (auto simp: caller_ok_def intro!: exI [of _ ?r])
  qed
  moreover have "one_each (cl[i := u])"
    by (rule one_each_upd [OF _ i(1)]) (use core nw u in \<open>auto simp: tty_core_def split: if_splits\<close>)
  ultimately show ?thesis using side t2(2,4) res by (simp add: tty_core_def)
qed


text \<open>The caller's two ways out of its loop test.\<close>

lemma resume_core:
  assumes core: "tty_core t cl ss ls as" and i: "i < length cl" "cl ! i = Ready (CWait a op b)"
  shows "\<exists>d. tty_request_done a t = Inr d \<and>
           (\<not> d \<longrightarrow> tty_core t (cl[i := Waiting (DoneOf a) (CWait a op b)]) ss ls as)"
    and "tty_request_done a t = Inr True \<Longrightarrow> tty_request_finish all_ok a op b t = Inr (t', res) \<Longrightarrow>
         tty_core t' (cl[i := Ready CIdle]) ss ls as \<and> payloads (tty_heap t') as = payloads (tty_heap t) as \<and>
         (case res of None \<Rightarrow> True | Some x \<Rightarrow> x \<in> set ls)"
proof -
  let ?P = "held ss @ as"
  have ok: "caller_ok t ?P ls (cl ! i)" using core i(1) by (simp add: tty_core_def list_all_length)
  from caller_okD [OF ok, of a op b] i obtain r where r: "cell_at t a r" "synchronous r \<noteq> 0" "operation r = op"
    "done_flag r = 0 \<longrightarrow> a \<in> set ?P" "done_flag r \<noteq> 0 \<longrightarrow> op = REQ_READ \<longrightarrow> answered ls r" by auto
  from cell_at_deref [OF r(1)] obtain c where c: "tty_heap t a = Some c" "cell_data c = r" by blast
  have d: "tty_request_done a t = Inr (done_flag r \<noteq> 0)" using c by (simp add: tty_request_done_def)
  have w: "waiter (cl[i := Waiting (DoneOf a) (CWait a op b)]) j e = waiter cl j e" for j e
    using i by (cases "j = i") (auto simp: waiter_def)
  have "tty_core t (cl[i := Waiting (DoneOf a) (CWait a op b)]) ss ls as" if "done_flag r = 0"
  proof -
    have "caller_ok t ?P ls (Waiting (DoneOf a) (CWait a op b))" using r that by (auto simp: caller_ok_def)
    then show ?thesis using core w
      by (auto simp: tty_core_def pending_ok_def one_each_def intro!: list_all_upd)
  qed
  with d show "\<exists>d. tty_request_done a t = Inr d \<and>
           (\<not> d \<longrightarrow> tty_core t (cl[i := Waiting (DoneOf a) (CWait a op b)]) ss ls as)" by auto
  assume "tty_request_done a t = Inr True" and f: "tty_request_finish all_ok a op b t = Inr (t', res)"
  with d have df: "done_flag r \<noteq> 0" by simp
  have t': "t' = t\<lparr>tty_heap := (tty_heap t)(a := None)\<rparr>" using f c by (auto simp: tty_request_finish_def Let_def)
  have res: "case res of None \<Rightarrow> True | Some x \<Rightarrow> x \<in> set ls"
  proof (cases "op = REQ_READ")
    case True
    with r(5) df obtain x where "x \<in> set ls" "NUL \<notin> set x" "req_text r = x @ [NUL]" by (auto simp: answered_def)
    with True f c show ?thesis by (auto simp: tty_request_finish_def Let_def split: if_splits)
  next
    case False
    with f c show ?thesis by (auto simp: tty_request_finish_def Let_def)
  qed
  have pok: "pending_ok t cl ?P" using core by (simp add: tty_core_def)
  have notin: "a \<notin> set ?P"
  proof
    assume "a \<in> set ?P"
    with pok obtain r' where "cell_at t a r'" "synchronous r' \<noteq> 0 \<longrightarrow> done_flag r' = 0" unfolding pending_ok_def by blast
    with cell_at_fun [OF r(1)] r(2) df show False by auto
  qed
  have one: "\<not> waiter cl j a" if "j \<noteq> i" for j
  proof
    assume "waiter cl j a"
    moreover have "waiter cl i a" using i by (simp add: waiter_def)
    ultimately show False using core that unfolding tty_core_def one_each_def by blast
  qed
  have w': "waiter (cl[i := Ready CIdle]) j e \<longleftrightarrow> waiter cl j e \<and> j \<noteq> i" for j e
    using waiter_upd [OF i(1), of "Ready CIdle" j e] by auto
  have wi: "waiter cl i e \<Longrightarrow> e = a" for e using i by (auto simp: waiter_def)
  have "pending_ok t' (cl[i := Ready CIdle]) ?P"
    unfolding pending_ok_def
  proof (intro conjI ballI)
    show "distinct ?P" using pok by (simp add: pending_ok_def)
    fix e assume e: "e \<in> set ?P"
    with pok obtain q where q: "cell_at t e q" "synchronous q \<noteq> 0 \<longrightarrow> done_flag q = 0 \<and> (\<exists>j. waiter cl j e)"
      unfolding pending_ok_def by blast
    moreover have "e \<noteq> a" using e notin by blast
    ultimately show "\<exists>q. cell_at t' e q \<and> (synchronous q \<noteq> 0 \<longrightarrow> done_flag q = 0 \<and> (\<exists>j. waiter (cl[i := Ready CIdle]) j e))"
      using w' wi unfolding t' by (intro exI [of _ q]) (auto simp: cell_at_upd)
  qed
  moreover have "list_all (caller_ok t' ?P ls) (cl[i := Ready CIdle])"
    unfolding list_all_length
  proof (intro allI impI)
    fix j assume j: "j < length (cl[i := Ready CIdle])"
    show "caller_ok t' ?P ls (cl[i := Ready CIdle] ! j)"
    proof (cases "j = i")
      case True
      with i show ?thesis by (simp add: caller_ok_def)
    next
      case False
      have "caller_ok t ?P ls (cl ! j)" using core j by (simp add: tty_core_def list_all_length)
      then have "caller_ok t' ?P ls (cl ! j)"
      proof (rule caller_ok_mono)
        fix e op' b' q assume "waits (cl ! j) = Some (e, op', b')" "cell_at t e q"
        moreover from this j have "waiter cl j e" by (auto simp: waiter_def)
        ultimately show "cell_at t' e q" using one [OF False] unfolding t' by (auto simp: cell_at_upd)
      qed auto
      with False show ?thesis by simp
    qed
  qed
  moreover have "one_each (cl[i := Ready CIdle])" using core w' by (auto simp: tty_core_def one_each_def)
  moreover have "pending_at t' as" unfolding t' by (rule pending_at_upd) (use core notin in \<open>auto simp: tty_core_def\<close>)
  moreover have "server_side t' ss ls as"
    using core notin unfolding t' tty_core_def server_side_def
    by (auto simp: cell_at_upd elim!: served_ok.elims)
  moreover have "payloads (tty_heap t') as = payloads (tty_heap t) as"
    using notin unfolding t' by (auto simp: heap_simps)
  ultimately show "tty_core t' (cl[i := Ready CIdle]) ss ls as \<and> payloads (tty_heap t') as = payloads (tty_heap t) as \<and>
         (case res of None \<Rightarrow> True | Some x \<Rightarrow> x \<in> set ls)" using res by (simp add: tty_core_def)
qed


lemma cell_at_heap: "tty_heap t' = tty_heap t \<Longrightarrow> cell_at t' = cell_at t"
  by (intro ext) (simp add: cell_at_def)

lemma the_server:
  assumes "server_side t ss ls as" and "i < length ss"
  shows "i = 0 \<and> ss = [ss ! 0] \<and> running t \<noteq> 0"
  using assms by (auto simp: server_side_def)

lemma take_core:
  assumes core: "tty_core t cl ss ls as" and i: "i < length ss" "ss ! i = Ready SLoop"
  shows "case tty_pop t of
           Inl f \<Rightarrow> False
         | Inr None \<Rightarrow> tty_core t cl (ss[i := Waiting Request SLoop]) ls as
         | Inr (Some (a, t')) \<Rightarrow> tty_heap t' = tty_heap t \<and>
             (\<exists>as'. as = a # as' \<and> tty_core t' cl (ss[i := Ready (SGot a)]) ls as')"
proof -
  have side: "server_side t ss ls as" using core by (simp add: tty_core_def)
  from the_server [OF side i(1)] i have ss: "i = 0" "ss = [Ready SLoop]" "running t \<noteq> 0" by auto
  have q: "pending_at t as" using core by (simp add: tty_core_def)
  show ?thesis
  proof (cases as)
    case Nil
    with q have "tty_pop t = Inr None" by (simp add: tty_pop_empty)
    with core ss Nil show ?thesis by (auto simp: tty_core_def server_side_def)
  next
    case (Cons a as')
    with q tty_pop_at obtain t' where t': "tty_pop t = Inr (Some (a, t'))" "pending_at t' as'"
      "tty_heap t' = tty_heap t" "running t' = running t" by blast
    have "cell_at t' = cell_at t" by (rule cell_at_heap [OF t'(3)])
    with core ss Cons t' show ?thesis
      by (auto simp: tty_core_def server_side_def pending_ok_def caller_ok_def list_all_iff)
  qed
qed

text \<open>What the server does to a request keeps who asked for it and how.\<close>

lemma process_cases:
  assumes "tty_process a inp t = Inr (t', rest, eff)" and "tty_heap t a = Some c"
  shows "\<exists>x. t' = t\<lparr>tty_heap := (tty_heap t)(a \<mapsto> c\<lparr>cell_data := (cell_data c)\<lparr>req_text := x\<rparr>\<rparr>)\<rparr> \<and>
           (operation (cell_data c) = REQ_READ \<longrightarrow> (\<exists>l. eff = DidRead l \<and> NUL \<notin> set l \<and> x = l @ [NUL]))"
proof (cases "operation (cell_data c) = REQ_READ")
  case True
  have "NUL \<notin> set (cstr l)" for l by (auto simp: cstr_def dest: set_takeWhileD)
  then have nul: "NUL \<notin> set (strip_newline (cstr l))" for l
    by (auto simp: strip_newline_def dest: in_set_butlastD)
  have c1: "cstr [NUL] = []" by (simp add: cstr_def)
  from True assms nul show ?thesis
    by (auto simp: tty_process_def tty_read_def Let_def c1 split: if_splits prod.splits)
next
  case False
  have "t = t\<lparr>tty_heap := (tty_heap t)(a \<mapsto> c\<lparr>cell_data := (cell_data c)\<lparr>req_text := req_text (cell_data c)\<rparr>\<rparr>)\<rparr>"
    using assms(2) by (simp add: map_upd_triv)
  with False assms show ?thesis
    by (auto simp: tty_process_def Let_def split: if_splits intro!: exI [of _ "req_text (cell_data c)"])
qed

lemma process_core:
  assumes core: "tty_core t cl ss ls as" and i: "i < length ss" "ss ! i = Ready (SGot a)"
    and p: "tty_process a inp t = Inr (t', rest, eff)"
    and ls': "ls' = (case eff of DidRead x \<Rightarrow> ls @ [x] | _ \<Rightarrow> ls)"
  shows "tty_core t' cl (ss[i := Ready (SDone a)]) ls' as \<and> payloads (tty_heap t') as = payloads (tty_heap t) as"
proof -
  have side: "server_side t ss ls as" using core by (simp add: tty_core_def)
  from the_server [OF side i(1)] i have ss: "i = 0" "ss = [Ready (SGot a)]" "running t \<noteq> 0" by auto
  have pok: "pending_ok t cl (a # as)" using core ss by (simp add: tty_core_def)
  then obtain r where r: "cell_at t a r" unfolding pending_ok_def by auto
  from cell_at_deref [OF r] obtain c where c: "tty_heap t a = Some c" "cell_data c = r" by blast
  from process_cases [OF p c(1)] c(2) obtain x where x: "t' = t\<lparr>tty_heap := (tty_heap t)(a \<mapsto> c\<lparr>cell_data := r\<lparr>req_text := x\<rparr>\<rparr>)\<rparr>"
    "operation r = REQ_READ \<longrightarrow> (\<exists>l. eff = DidRead l \<and> NUL \<notin> set l \<and> x = l @ [NUL])" by auto
  have notin: "a \<notin> set as" using pok by (simp add: pending_ok_def)
  have cell: "cell_at t' b q \<longleftrightarrow> (if b = a then q = r\<lparr>req_text := x\<rparr> else cell_at t b q)" for b q
    unfolding x(1) by (simp add: cell_at_upd)
  have sub: "set ls \<subseteq> set ls'" unfolding ls' by (cases eff) auto
  have "pending_ok t' cl (a # as)"
    unfolding pending_ok_def
  proof (intro conjI ballI)
    show "distinct (a # as)" using pok by (simp add: pending_ok_def)
    fix b assume "b \<in> set (a # as)"
    with pok obtain q where q: "cell_at t b q" "synchronous q \<noteq> 0 \<longrightarrow> done_flag q = 0 \<and> (\<exists>i. waiter cl i b)"
      unfolding pending_ok_def by blast
    then show "\<exists>q. cell_at t' b q \<and> (synchronous q \<noteq> 0 \<longrightarrow> done_flag q = 0 \<and> (\<exists>i. waiter cl i b))"
      using cell_at_fun [OF r, of q]
      by (intro exI [of _ "if b = a then r\<lparr>req_text := x\<rparr> else q"]) (auto simp: cell)
  qed
  moreover have "caller_ok t' (a # as) ls' k" if k: "caller_ok t (a # as) ls k" "k \<in> set cl" for k
    unfolding caller_ok_def
  proof (intro conjI allI impI)
    show "client_ok k" using k by (simp add: caller_ok_def)
    fix e op b assume w: "waits k = Some (e, op, b)"
    from caller_okD [OF k(1) w] obtain q where q: "cell_at t e q" "synchronous q \<noteq> 0" "operation q = op"
      "done_flag q = 0 \<longrightarrow> e \<in> set (a # as)" "done_flag q \<noteq> 0 \<longrightarrow> is_ready k \<and> (op = REQ_READ \<longrightarrow> answered ls q)" by blast
    show "\<exists>q. cell_at t' e q \<and> synchronous q \<noteq> 0 \<and> operation q = op \<and> (done_flag q = 0 \<longrightarrow> e \<in> set (a # as)) \<and>
            (done_flag q \<noteq> 0 \<longrightarrow> is_ready k \<and> (op = REQ_READ \<longrightarrow> answered ls' q))"
    proof (cases "e = a")
      case True
      with q r cell_at_fun have "q = r" by blast
      moreover have "done_flag r = 0"
      proof -
        from pok obtain q' where "cell_at t a q'" "synchronous q' \<noteq> 0 \<longrightarrow> done_flag q' = 0"
          unfolding pending_ok_def by auto
        with cell_at_fun [OF r] q(2) \<open>q = r\<close> show ?thesis by blast
      qed
      ultimately show ?thesis using True q by (intro exI [of _ "r\<lparr>req_text := x\<rparr>"]) (auto simp: cell)
    next
      case False
      with q answered_mono [OF _ sub] show ?thesis by (intro exI [of _ q]) (auto simp: cell)
    qed
  qed
  moreover have "served_ok t' ls' (Ready (SDone a))"
    using x(2) unfolding ls' by (auto simp: cell answered_def)
  moreover have "pending_at t' as" unfolding x(1) by (rule pending_at_upd) (use core notin in \<open>auto simp: tty_core_def\<close>)
  moreover have "payloads (tty_heap t') as = payloads (tty_heap t) as" using notin unfolding x(1) by (simp add: heap_simps)
  moreover have "running t' = running t" unfolding x(1) by simp
  ultimately show ?thesis using core ss by (auto simp: tty_core_def server_side_def list_all_iff)
qed


text \<open>
  Completion: the request leaves what is pending. A synchronous one gets its flag and its caller is
  woken; nobody waits for an asynchronous one, which is freed.
\<close>

lemma complete_core:
  assumes core: "tty_core t cl ss ls as" and i: "i < length ss" "ss ! i = Ready (SDone a)"
    and p: "tty_complete all_ok a t = Inr (t', sig, quit)" and u: "u = (if quit then Finished else Ready SLoop)"
    and cl': "cl' = (if sig then cond_signal (DoneOf a) j cl else cl)" and ok: "sig \<longrightarrow> signal_ok (DoneOf a) j cl"
  shows "tty_core t' cl' (ss[i := u]) ls as \<and> payloads (tty_heap t') as = payloads (tty_heap t) as"
proof -
  have side: "server_side t ss ls as" using core by (simp add: tty_core_def)
  from the_server [OF side i(1)] i have ss: "i = 0" "ss = [Ready (SDone a)]" "running t \<noteq> 0" by auto
  have pok: "pending_ok t cl (a # as)" and cok: "list_all (caller_ok t (a # as) ls) cl" and one: "one_each cl"
    and so: "served_ok t ls (Ready (SDone a))"
    using core ss by (simp_all add: tty_core_def server_side_def)
  from pok obtain r where r: "cell_at t a r" "synchronous r \<noteq> 0 \<longrightarrow> done_flag r = 0" unfolding pending_ok_def by auto
  from cell_at_deref [OF r(1)] obtain c where c: "tty_heap t a = Some c" "cell_data c = r" by blast
  have notin: "a \<notin> set as" "distinct as" using pok by (simp_all add: pending_ok_def)
  obtain x where x: "t' = t\<lparr>tty_heap := (tty_heap t)(a := x)\<rparr>"
    "x = (if synchronous r \<noteq> 0 then Some (c\<lparr>cell_data := r\<lparr>done_flag := 1\<rparr>\<rparr>) else None)" "sig = (synchronous r \<noteq> 0)"
    using p c by (auto simp: tty_complete_def Let_def split: if_splits)
  have cell: "b \<noteq> a \<Longrightarrow> cell_at t' b q = cell_at t b q" for b q unfolding x(1) by (simp add: cell_at_def)
  have wcl: "waiter cl' k e = waiter cl k e" for k e unfolding cl' by simp
  have "pending_ok t' cl' as"
    unfolding pending_ok_def
  proof (intro conjI ballI)
    fix b assume b: "b \<in> set as"
    with pok obtain q where "cell_at t b q" "synchronous q \<noteq> 0 \<longrightarrow> done_flag q = 0 \<and> (\<exists>i. waiter cl i b)"
      unfolding pending_ok_def by (metis list.set_intros(2))
    moreover have "b \<noteq> a" using b notin by blast
    ultimately show "\<exists>q. cell_at t' b q \<and> (synchronous q \<noteq> 0 \<longrightarrow> done_flag q = 0 \<and> (\<exists>i. waiter cl' i b))"
      using cell wcl by blast
  qed (rule notin(2))
  moreover have "caller_ok t' as ls (cl' ! k)" if k: "k < length cl'" for k
  proof -
    have kl: "k < length cl" using k unfolding cl' by (simp split: if_splits)
    have old: "caller_ok t (a # as) ls (cl ! k)" using cok kl by (simp add: list_all_length)
    have "caller_ok t (a # as) ls (cl' ! k)"
      using old caller_ok_wake [OF old] kl unfolding cl' cond_signal_def by (auto simp: nth_list_update)
    note okd = caller_okD [OF this]
    show ?thesis unfolding caller_ok_def
    proof (intro conjI allI impI)
      show "client_ok (cl' ! k)" using \<open>caller_ok t (a # as) ls (cl' ! k)\<close> by (simp add: caller_ok_def)
      fix e op b assume w: "waits (cl' ! k) = Some (e, op, b)"
      from okd [OF w] obtain q where q: "cell_at t e q" "synchronous q \<noteq> 0" "operation q = op"
        "done_flag q = 0 \<longrightarrow> e \<in> set (a # as)"
        "done_flag q \<noteq> 0 \<longrightarrow> is_ready (cl' ! k) \<and> (op = REQ_READ \<longrightarrow> answered ls q)" by blast
      show "\<exists>q. cell_at t' e q \<and> synchronous q \<noteq> 0 \<and> operation q = op \<and> (done_flag q = 0 \<longrightarrow> e \<in> set as) \<and>
            (done_flag q \<noteq> 0 \<longrightarrow> is_ready (cl' ! k) \<and> (op = REQ_READ \<longrightarrow> answered ls q))"
      proof (cases "e = a")
        case False
        with q cell show ?thesis by (intro exI [of _ q]) auto
      next
        case True
        with q r(1) cell_at_fun have qr: "q = r" by blast
        with q x have sync: "sig" "cell_at t' a (r\<lparr>done_flag := 1\<rparr>)" by (auto simp: cell_at_def)
        have wk: "waiter cl k a" using w True k wcl [of k a] by (auto simp: waiter_def)
        have "is_ready (cl' ! k)"
        proof (rule ccontr)
          assume nr: "\<not> is_ready (cl' ! k)"
          have "\<not> is_ready (cl ! k)" using nr kl sync(1) unfolding cl' cond_signal_def
            by (cases "cl ! k") (auto simp: nth_list_update split: if_splits)
          with wk have wt: "is_waiting (DoneOf a) (cl ! k)"
            using old unfolding caller_ok_def waiter_def by (cases "cl ! k" rule: client_ok.cases) auto
          with ok sync kl have jj: "j < length cl" "is_waiting (DoneOf a) (cl ! j)"
            by (auto simp: signal_ok_def list_ex_length)
          have "caller_ok t (a # as) ls (cl ! j)" using cok jj by (simp add: list_all_length)
          with jj have "waiter cl j a" unfolding caller_ok_def waiter_def by (cases "cl ! j" rule: client_ok.cases) auto
          with one wk have "j = k" unfolding one_each_def by blast
          with nr wt sync kl show False unfolding cl' cond_signal_def by (cases "cl ! k") auto
        qed
        with sync qr q so r(1) True show ?thesis
          by (intro exI [of _ "r\<lparr>done_flag := 1\<rparr>"]) (auto simp: answered_def)
      qed
    qed
  qed
  moreover have "one_each cl'" using one wcl by (simp add: one_each_def)
  moreover have "pending_at t' as" unfolding x(1) by (rule pending_at_upd) (use core notin in \<open>auto simp: tty_core_def\<close>)
  moreover have "payloads (tty_heap t') as = payloads (tty_heap t) as" using notin unfolding x(1) by (simp add: heap_simps)
  moreover have "running t' = running t" unfolding x(1) by simp
  ultimately show ?thesis using ss u by (auto simp: tty_core_def server_side_def list_all_length)
qed

text \<open>The faults that remain: allocation failure, and strings that the callers pass.\<close>

definition benign :: "fault option \<Rightarrow> bool" where
  "benign c \<longleftrightarrow> c \<in> {None, Some (Aborted 1), Some NullDeref, Some OutOfBounds, Some Uninitialised}"

definition tty_safe :: "tty_sys \<Rightarrow> bool" where
  "tty_safe s \<longleftrightarrow> tty_inv s \<and> benign (crash s)"

lemma tty_safe_fail: "f \<in> {Aborted 1, NullDeref, OutOfBounds, Uninitialised} \<Longrightarrow> tty_safe (fail f s)"
  by (auto simp: tty_safe_def tty_inv_def fail_def benign_def)

lemma tty_safeI:
  "crash s = None \<Longrightarrow> tty_core (tty s) (clients s) (servers s) (lines_read s) as \<Longrightarrow>
   added s = taken s @ payloads (tty_heap (tty s)) as \<Longrightarrow> set (answers s) \<subseteq> set (lines_read s) \<Longrightarrow> tty_safe s"
  by (auto simp: tty_safe_def tty_inv_def benign_def)

lemma request_faults:
  assumes "tty_core t cl ss ls as" and "case mem of None \<Rightarrow> True | Some a \<Rightarrow> tty_unused t a"
  shows "case tty_server_request all_ok mem op sync pr str t of
           Inl f \<Rightarrow> f = Aborted 1 | Inr (a, t', b) \<Rightarrow> mem = Some a"
proof (cases mem)
  case None
  then show ?thesis by (auto simp: tty_server_request_def tty_start_def Let_def split: sum.splits)
next
  case (Some a)
  let ?t0 = "if running t = 0 then t\<lparr>running := 1\<rparr> else t"
  have "pending_at ?t0 as" "tty_unused ?t0 a"
    using assms Some by (auto simp: tty_core_def pending_at_def tty_unused_def)
  from tty_push_at [OF this, of "make_request op sync pr str"] Some show ?thesis
    by (auto simp: tty_server_request_def tty_start_def Let_def split: sum.splits if_splits)
qed

lemma finish_faults:
  assumes core: "tty_core t cl ss ls as" and i: "i < length cl" "cl ! i = Ready (CWait a op b)"
  shows "case tty_request_finish all_ok a op b t of Inl f \<Rightarrow> f \<in> {NullDeref, OutOfBounds} | Inr _ \<Rightarrow> True"
proof -
  have "caller_ok t (held ss @ as) ls (cl ! i)" using core i(1) by (simp add: tty_core_def list_all_length)
  from caller_okD [OF this, of a op b] i obtain r where "cell_at t a r" by auto
  from cell_at_deref [OF this] obtain c where "tty_heap t a = Some c" by blast
  then show ?thesis by (auto simp: tty_request_finish_def buf_str_def Let_def split: sum.splits if_splits)
qed

lemma held_cell:
  assumes core: "tty_core t cl ss ls as" and i: "i < length ss" "held_by (ss ! i) = [a]"
  shows "\<exists>c. tty_heap t a = Some c"
proof -
  have side: "server_side t ss ls as" using core by (simp add: tty_core_def)
  from the_server [OF side i(1)] i have "held ss = [a]"
    by (metis append.right_neutral held_simps)
  with core obtain r where "cell_at t a r" by (auto simp: tty_core_def pending_ok_def)
  then show ?thesis using cell_at_deref by blast
qed

lemma process_faults:
  assumes "tty_heap t a = Some c"
  shows "case tty_process a inp t of Inl f \<Rightarrow> f \<in> {OutOfBounds, Uninitialised} | Inr _ \<Rightarrow> True"
  using assms by (auto simp: tty_process_def tty_read_def buf_str_def Let_def split: sum.splits if_splits prod.splits)

lemma complete_faults:
  assumes "tty_heap t a = Some c"
  shows "\<exists>r. tty_complete all_ok a t = Inr r"
  using assms by (auto simp: tty_complete_def Let_def)

lemma wake_server_core:
  assumes "tty_core t cl ss ls as"
  shows "tty_core t cl (spurious k Request ss) ls as"
  using assms unfolding tty_core_def server_side_def
  by (auto simp: spurious_def elim!: server_ok.elims served_ok.elims)

lemma wake_client_core:
  assumes "tty_core t cl ss ls as"
  shows "tty_core t (spurious k v cl) ss ls as"
  using assms by (auto simp: tty_core_def pending_ok_def one_each_def intro!: list_all_cond caller_ok_wake)

lemma tty_step_safe:
  assumes inv: "tty_safe s" and ok: "crash s = None" and e: "tty_step s e = Some u"
  shows "tty_safe u"
proof -
  from inv ok obtain as where core: "tty_core (tty s) (clients s) (servers s) (lines_read s) as"
    and ad: "added s = taken s @ payloads (tty_heap (tty s)) as" and an: "set (answers s) \<subseteq> set (lines_read s)"
    by (auto simp: tty_safe_def tty_inv_def)
  show ?thesis
  proof (cases e)
    case (Call i mem op sync pr str k)
    with e have i: "i < length (clients s)" "clients s ! i = Ready CIdle"
      and mem: "case mem of None \<Rightarrow> True | Some a \<Rightarrow> tty_unused (tty s) a" by (auto split: if_splits)
    show ?thesis
    proof (cases "tty_server_request all_ok mem op sync pr str (tty s)")
      case (Inl f)
      with request_faults [OF core mem, of op sync pr str] Call e i mem show ?thesis by (auto intro!: tty_safe_fail)
    next
      case (Inr r)
      obtain a t' b where r: "tty_server_request all_ok mem op sync pr str (tty s) = Inr (a, t', b)"
        using Inr by (cases r) auto
      with request_faults [OF core mem, of op sync pr str] have m: "mem = Some a" by simp
      let ?ts = "servers s @ (if b then [Ready SLoop] else [])"
      let ?u = "if sync \<noteq> 0 then Waiting (DoneOf a) (CWait a op (str \<noteq> None)) else Ready CIdle"
      from Call e i mem r have sig: "signal_ok Request k ?ts"
        and u: "u = set_client i ?u (s\<lparr>tty := t', added := added s @ [make_request op sync pr str], servers := cond_signal Request k ?ts\<rparr>)"
        by (auto simp: Let_def split: if_splits)
      have "tty_unused (tty s) a" using mem m by simp
      from call_core [OF core i this r [unfolded m] refl sig] ok ad an show ?thesis
        unfolding u set_client_def by (intro tty_safeI [of _ "as @ [a]"]) auto
    qed
  next
    case (Resume i)
    with e obtain a op b where i: "i < length (clients s)" "clients s ! i = Ready (CWait a op b)"
      by (auto split: if_splits tstate.splits client_pc.splits)
    from resume_core(1) [OF core i] obtain d where d: "tty_request_done a (tty s) = Inr d"
      "\<not> d \<longrightarrow> tty_core (tty s) ((clients s)[i := Waiting (DoneOf a) (CWait a op b)]) (servers s) (lines_read s) as" by blast
    show ?thesis
    proof (cases d)
      case False
      with Resume e i d ok ad an show ?thesis by (auto simp: set_client_def intro!: tty_safeI)
    next
      case True
      show ?thesis
      proof (cases "tty_request_finish all_ok a op b (tty s)")
        case (Inl f)
        with finish_faults [OF core i] Resume e i d True show ?thesis by (auto intro!: tty_safe_fail)
      next
        case (Inr r)
        then obtain t' res where r: "tty_request_finish all_ok a op b (tty s) = Inr (t', res)" by (cases r) auto
        from resume_core(2) [OF core i _ r] d True Resume e i r ok ad an show ?thesis
          by (auto simp: set_client_def split: option.splits intro!: tty_safeI)
      qed
    qed
  next
    case (Take i)
    with e have i: "i < length (servers s)" "servers s ! i = Ready SLoop" by (auto split: if_splits)
    from take_core [OF core i] Take e i ok ad an show ?thesis
      by (auto simp: set_server_def split: sum.splits option.splits intro!: tty_safeI)
  next
    case (Process i)
    with e obtain a where i: "i < length (servers s)" "servers s ! i = Ready (SGot a)"
      by (auto split: if_splits tstate.splits server_pc.splits)
    then obtain c where c: "tty_heap (tty s) a = Some c" using held_cell [OF core] by fastforce
    show ?thesis
    proof (cases "tty_process a (input s) (tty s)")
      case (Inl f)
      with process_faults [OF c, of "input s"] Process e i show ?thesis by (auto intro!: tty_safe_fail)
    next
      case (Inr r)
      then obtain t' rest eff where r: "tty_process a (input s) (tty s) = Inr (t', rest, eff)" by (cases r) auto
      have "set (answers s) \<subseteq> set (case eff of DidRead x \<Rightarrow> lines_read s @ [x] | _ \<Rightarrow> lines_read s)"
        using an by (cases eff) auto
      with process_core [OF core i r refl] Process e i r ok ad show ?thesis
        by (auto simp: set_server_def intro!: tty_safeI)
    qed
  next
    case (Complete i j)
    with e obtain a where i: "i < length (servers s)" "servers s ! i = Ready (SDone a)"
      by (auto split: if_splits tstate.splits server_pc.splits)
    then obtain c where c: "tty_heap (tty s) a = Some c" using held_cell [OF core] by fastforce
    from complete_faults [OF c] obtain t' sig quit where r: "tty_complete all_ok a (tty s) = Inr (t', sig, quit)" by auto
    have so: "sig \<longrightarrow> signal_ok (DoneOf a) j (clients s)" using Complete e i r by (auto split: if_splits)
    from complete_core [OF core i r refl refl so] Complete e i r ok ad an so show ?thesis
      by (auto simp: set_server_def split: if_splits intro!: tty_safeI)
  next
    case (WakeClient i a)
    with e wake_client_core [OF core, of i "DoneOf a"] ok ad an show ?thesis by (auto intro!: tty_safeI)
  next
    case (WakeServer i)
    with e wake_server_core [OF core, of i] ok ad an show ?thesis by (auto intro!: tty_safeI)
  qed
qed

interpretation tty_serving: invariant_system tty_init tty_exec tty_safe
proof
  show "tty_safe s" if "tty_init s" for s
    using tty_begin_inv [OF that] that by (auto simp: tty_safe_def benign_def tty_init_def tty_begin_def)
  show "tty_safe t" if "tty_safe s" "tty_exec s e = Some t" for s e t
    using that tty_step_safe by (auto simp: tty_exec_def split: if_splits)
qed

section \<open>Where a fault comes from\<close>

text \<open>
  The strings of a caller that make the server fault: a prompt that fills its buffer, so that it is not terminated, a prompt with a conversion, and a
  text that fills its buffer.
\<close>

definition caller_fault :: "int \<Rightarrow> string option \<Rightarrow> string option \<Rightarrow> fault \<Rightarrow> bool" where
  "caller_fault op pr str f \<longleftrightarrow>
     op = REQ_READ \<and> (\<exists>p. pr = Some p \<and>
       (32 \<le> length (cstr p) \<and> f = OutOfBounds \<or> length (cstr p) < 32 \<and> has_conversion (cstr p) \<and> f = Uninitialised)) \<or>
     op = REQ_WRITE \<and> (\<exists>x. str = Some x \<and> 128 \<le> length (cstr x) \<and> f = OutOfBounds)"

lemma cstr_split: "\<exists>r. s @ replicate (Suc n) NUL = cstr s @ NUL # r"
proof (induction s)
  case (Cons c s)
  then show ?case by (cases "c = NUL") (auto simp: cstr_def)
qed (simp add: cstr_def)

lemma NUL_cstr: "NUL \<notin> set (cstr s)"
  by (auto simp: cstr_def dest: set_takeWhileD)

lemma strncpy_buf: "0 < n \<Longrightarrow> buf_str (strncpy n s) = (if length (cstr s) < n then Inr (cstr s) else Inl OutOfBounds)"
proof -
  assume "0 < n"
  then obtain m where n: "n = Suc m" by (cases n) auto
  obtain r where r: "s @ replicate n NUL = cstr s @ NUL # r" using cstr_split [of s m] n by blast
  show ?thesis
  proof (cases "length (cstr s) < n")
    case True
    then obtain k where "n - length (cstr s) = Suc k" by (metis Suc_diff_Suc)
    then have "strncpy n s = cstr s @ NUL # take k r" using True unfolding strncpy_def r by simp
    then show ?thesis using True buf_str_terminated [OF NUL_cstr] by simp
  next
    case False
    then have "strncpy n s = take n (cstr s)" unfolding strncpy_def r by simp
    then have "NUL \<notin> set (strncpy n s)" using NUL_cstr [of s] by (metis in_set_takeD)
    then show ?thesis using False by (simp add: buf_str_def)
  qed
qed

lemma process_made:
  assumes "tty_heap t a = Some c" "cell_data c = make_request op sync pr str" "tty_process a inp t = Inl f"
  shows "caller_fault op pr str f"
proof -
  have nul: "buf_str [NUL] = Inr []" by (simp add: buf_str_def cstr_def)
  show ?thesis using assms nul
    by (auto simp: tty_process_def tty_read_def make_request_def caller_fault_def req_defs strncpy_buf Let_def
        split: if_splits prod.splits option.splits)
qed

text \<open>A request is as its caller made it until the server has processed it.\<close>

definition made :: "tty_sys \<Rightarrow> bool" where
  "made s \<longleftrightarrow> (\<forall>a r. cell_at (tty s) a r \<longrightarrow> (\<exists>op sync pr str. r = make_request op sync pr str) \<or>
     Ready (SDone a) \<in> set (servers s) \<or> done_flag r \<noteq> 0 \<and> synchronous r \<noteq> 0)"

lemma madeI:
  assumes "made s" "\<And>a r. cell_at (tty u) a r \<Longrightarrow> cell_at (tty s) a r" "\<And>a. Ready (SDone a) \<in> set (servers s) \<Longrightarrow> Ready (SDone a) \<in> set (servers u)"
  shows "made u"
  using assms unfolding made_def by blast

lemma kept: "x \<in> set ts \<Longrightarrow> ts ! i \<noteq> x \<or> t = x \<Longrightarrow> x \<in> set (ts[i := t])"
  by (metis in_set_conv_nth length_list_update nth_list_update_eq nth_list_update_neq)

lemma ready_kept:
  "Ready p \<in> set ts \<Longrightarrow> Ready p \<in> set (cond_signal c k ts)"
  "Ready p \<in> set ts \<Longrightarrow> Ready p \<in> set (spurious k c ts)"
  by (cases "ts ! k"; simp add: cond_signal_def spurious_def kept)+

lemma store_next_data: "store_next h p q = Inr h' \<Longrightarrow> map_option cell_data (h' x) = map_option cell_data (h x)"
  by (cases p) (auto split: option.splits)

lemma push_cells: "tty_push a r t = Inr t' \<Longrightarrow> cell_at t' x q \<Longrightarrow> cell_at t x q \<or> q = r"
proof (cases "first t")
  case (Some f)
  assume "tty_push a r t = Inr t'" "cell_at t' x q"
  with Some obtain h where h: "store_next ((tty_heap t)(a \<mapsto> \<lparr>cell_next = None, cell_data = r\<rparr>)) (last_req t) (Some a) = Inr h"
      "map_option cell_data (h x) = Some q" by (auto simp: tty_push_def cell_at_def Let_def)
  from h(2) store_next_data [OF h(1), of x] show ?thesis by (auto simp: cell_at_def split: if_splits)
qed (auto simp: tty_push_def cell_at_def Let_def split: if_splits)

lemma request_cells:
  assumes "tty_server_request all_ok mem op sync pr str t = Inr (a, t', b)" "cell_at t' x r"
  shows "cell_at t x r \<or> r = make_request op sync pr str"
proof -
  have "\<exists>t0. tty_heap t0 = tty_heap t \<and> tty_push a (make_request op sync pr str) t0 = Inr t'"
    using assms(1) by (cases mem; cases "running t = 0")
      (auto simp: tty_server_request_def tty_start_def Let_def intro: exI [of _ t] exI [of _ "t\<lparr>running := 1\<rparr>"])
  then obtain t0 where t0: "tty_heap t0 = tty_heap t" "tty_push a (make_request op sync pr str) t0 = Inr t'" by blast
  from push_cells [OF t0(2) assms(2)] t0(1) show ?thesis by (simp add: cell_at_def)
qed

lemma finish_cells: "tty_request_finish all_ok a op b t = Inr (t', res) \<Longrightarrow> cell_at t' x r \<Longrightarrow> cell_at t x r"
  by (auto simp: tty_request_finish_def cell_at_def Let_def split: if_splits)

lemma process_cells: "tty_process a inp t = Inr (t', rest, eff) \<Longrightarrow> cell_at t' x r \<Longrightarrow> x \<noteq> a \<Longrightarrow> cell_at t x r"
  by (auto simp: tty_process_def cell_at_def Let_def split: if_splits prod.splits)

lemma complete_cells:
  "tty_complete all_ok a t = Inr (t', sig, quit) \<Longrightarrow> cell_at t' x r \<Longrightarrow> x \<noteq> a \<and> cell_at t x r \<or> done_flag r \<noteq> 0 \<and> synchronous r \<noteq> 0"
  by (auto simp: tty_complete_def cell_at_def Let_def split: if_splits)

lemma pop_cells: "tty_pop t = Inr (Some (a, t')) \<Longrightarrow> tty_heap t' = tty_heap t"
  by (auto simp: tty_pop_def Let_def split: option.splits if_splits)

lemma tty_step_made:
  assumes m: "made s" and e: "tty_step s e = Some u"
  shows "made u"
proof (cases e)
  case (Call i mem op sync pr str k)
  show ?thesis
  proof (cases "tty_server_request all_ok mem op sync pr str (tty s)")
    case (Inl f)
    with e Call have "u = fail f s" by (auto split: if_splits)
    then show ?thesis by (intro madeI [OF m]) (simp_all add: fail_def)
  next
    case (Inr x)
    then obtain a t' b where r: "tty_server_request all_ok mem op sync pr str (tty s) = Inr (a, t', b)" by (cases x) auto
    with e Call have u: "tty u = t'" "servers u = cond_signal Request k (servers s @ (if b then [Ready SLoop] else []))"
      by (auto simp: set_client_def Let_def split: if_splits)
    have "Ready (SDone x) \<in> set (servers u)" if "Ready (SDone x) \<in> set (servers s)" for x
      unfolding u(2) by (rule ready_kept) (use that in simp)
    then show ?thesis using m request_cells [OF r] unfolding made_def u(1) by blast
  qed
next
  case (Resume i)
  with e have "servers u = servers s \<and> (tty u = tty s \<or> (\<exists>a op b res. tty_request_finish all_ok a op b (tty s) = Inr (tty u, res)))"
    by (auto simp: set_client_def fail_def split: if_splits tstate.splits client_pc.splits sum.splits bool.splits)
  then show ?thesis using finish_cells by (intro madeI [OF m]) metis+
next
  case (Take i)
  with e have "(tty_heap (tty u) = tty_heap (tty s)) \<and> (servers u = servers s \<or> servers s ! i = Ready SLoop \<and> (\<exists>t. servers u = (servers s)[i := t]))"
    by (auto simp: set_server_def fail_def pop_cells split: if_splits sum.splits option.splits)
  then show ?thesis by (intro madeI [OF m]) (auto simp: cell_at_def kept)
next
  case (Process i)
  with e obtain a where a: "i < length (servers s)" "servers s ! i = Ready (SGot a)" by (auto split: if_splits tstate.splits server_pc.splits)
  show ?thesis
  proof (cases "tty_process a (input s) (tty s)")
    case (Inl f)
    with e Process a have "u = fail f s" by auto
    then show ?thesis by (intro madeI [OF m]) (simp_all add: fail_def)
  next
    case (Inr x)
    then obtain t' rest eff where r: "tty_process a (input s) (tty s) = Inr (t', rest, eff)" by (cases x) auto
    with e Process a have u: "tty u = t'" "servers u = (servers s)[i := Ready (SDone a)]" by (auto simp: set_server_def)
    have "Ready (SDone x) \<in> set (servers u)" if "Ready (SDone x) \<in> set (servers s)" for x
      unfolding u(2) by (rule kept) (use that a in auto)
    moreover have "Ready (SDone a) \<in> set (servers u)" unfolding u(2) using a by (simp add: set_update_memI)
    ultimately show ?thesis using m process_cells [OF r] unfolding made_def u(1) by blast
  qed
next
  case (Complete i j)
  with e obtain a where a: "i < length (servers s)" "servers s ! i = Ready (SDone a)" by (auto split: if_splits tstate.splits server_pc.splits)
  show ?thesis
  proof (cases "tty_complete all_ok a (tty s)")
    case (Inl f)
    with e Complete a have "u = fail f s" by auto
    then show ?thesis by (intro madeI [OF m]) (simp_all add: fail_def)
  next
    case (Inr x)
    then obtain t' sig quit where r: "tty_complete all_ok a (tty s) = Inr (t', sig, quit)" by (cases x) auto
    with e Complete a have u: "tty u = t'" "servers u = (servers s)[i := if quit then Finished else Ready SLoop]"
      by (auto simp: set_server_def split: if_splits)
    have "Ready (SDone x) \<in> set (servers u)" if "Ready (SDone x) \<in> set (servers s)" "x \<noteq> a" for x
      unfolding u(2) by (rule kept) (use that a in auto)
    then show ?thesis using m complete_cells [OF r] unfolding made_def u(1) by blast
  qed
next
  case (WakeClient i a)
  with e show ?thesis by (intro madeI [OF m]) auto
next
  case (WakeServer i)
  with e show ?thesis by (intro madeI [OF m]) (auto intro: ready_kept)
qed

interpretation tty_requests: invariant_system tty_init tty_exec made
proof
  show "made s" if "tty_init s" for s using that by (auto simp: made_def tty_init_def tty_begin_def cell_at_def)
  show "made t" if "made s" "tty_exec s e = Some t" for s e t
    using that tty_step_made by (auto simp: tty_exec_def split: if_splits)
qed

lemma finish_fault:
  assumes core: "tty_core t cl ss ls as" and i: "i < length cl" "cl ! i = Ready (CWait a op b)"
    and d: "tty_request_done a t = Inr True" and f: "tty_request_finish all_ok a op b t = Inl f"
  shows "op = REQ_READ \<and> \<not> b \<and> f = NullDeref"
proof -
  have "caller_ok t (held ss @ as) ls (cl ! i)" using core i(1) by (simp add: tty_core_def list_all_length)
  from caller_okD [OF this, of a op b] i obtain r where r: "cell_at t a r" "done_flag r \<noteq> 0 \<longrightarrow> op = REQ_READ \<longrightarrow> answered ls r" by auto
  from cell_at_deref [OF this(1)] obtain c where c: "tty_heap t a = Some c" "cell_data c = r" by blast
  have "op = REQ_READ \<longrightarrow> answered ls r" using r d c by (auto simp: tty_request_done_def)
  then show ?thesis using f c by (auto simp: tty_request_finish_def answered_def Let_def split: if_splits)
qed

lemma request_fault:
  assumes "tty_core t cl ss ls as" "case mem of None \<Rightarrow> True | Some a \<Rightarrow> tty_unused t a"
    "tty_server_request all_ok mem op sync pr str t = Inl f"
  shows "mem = None \<and> f = Aborted 1"
proof (cases mem)
  case (Some a)
  let ?t0 = "if running t = 0 then t\<lparr>running := 1\<rparr> else t"
  have "pending_at ?t0 as" "tty_unused ?t0 a"
    using assms Some by (auto simp: tty_core_def pending_at_def tty_unused_def)
  from tty_push_at [OF this, of "make_request op sync pr str"] Some assms(3) show ?thesis
    by (auto simp: tty_server_request_def tty_start_def Let_def split: if_splits)
qed (use request_faults [OF assms(1,2), of op sync pr str] assms(3) in auto)

lemma got_made:
  assumes "made s" and core: "tty_core (tty s) (clients s) (servers s) ls as"
    and i: "i < length (servers s)" "servers s ! i = Ready (SGot a)" and c: "tty_heap (tty s) a = Some c"
  shows "\<exists>op sync pr str. cell_data c = make_request op sync pr str"
proof -
  have side: "server_side (tty s) (servers s) ls as" using core by (simp add: tty_core_def)
  from the_server [OF side i(1)] i have ss: "servers s = [Ready (SGot a)]" by auto
  have "cell_at (tty s) a (cell_data c)" using c by (simp add: cell_at_def)
  moreover have "synchronous (cell_data c) \<noteq> 0 \<longrightarrow> done_flag (cell_data c) = 0"
    using core ss c by (auto simp: tty_core_def pending_ok_def cell_at_def)
  moreover have "Ready (SDone a) \<notin> set (servers s)" using ss by simp
  ultimately show ?thesis using assms(1) unfolding made_def by blast
qed

section \<open>What the server guarantees\<close>

lemma tty_reach_core:
  assumes "reach tty_init tty_exec s" and "crash s = None"
  shows "\<exists>as. tty_core (tty s) (clients s) (servers s) (lines_read s) as \<and>
           added s = taken s @ payloads (tty_heap (tty s)) as"
    and "set (answers s) \<subseteq> set (lines_read s)"
  using tty_serving.reach_inv [OF assms(1)] assms(2) by (auto simp: tty_safe_def tty_inv_def)

text \<open>C16: requests are served in the order in which they were made: what the server has taken is a
  prefix of what was requested, and the linked queue holds the rest.\<close>

theorem tty_serves_in_order:
  assumes "reach tty_init tty_exec s" and "crash s = None"
  shows "\<exists>rs. pending (tty s) rs \<and> added s = taken s @ rs"
  using tty_reach_core(1) [OF assms] by (auto simp: pending_def tty_core_def)

text \<open>
  C20: the server and its clients use no freed memory and their queue never leads through \<open>NULL\<close>: in every interleaving (the library calls other than \<open>malloc\<close> succeeding) a step
  that faults is one of three. A call whose \<open>malloc\<close> fails aborts. A synchronous read of a caller that passed no buffer stores through \<open>NULL\<close> when its request is done. And
  the server faults on a request that is still as its caller made it, because of a string of this caller: a prompt of 32 characters or more or a text of
  128 characters or more, which are not terminated in their buffers, or a prompt with a conversion.
\<close>

theorem tty_memory_safe:
  assumes "reach tty_init tty_exec s" and "tty_exec s e = Some u" and "crash u = Some f"
  shows "(\<exists>i op sync pr str k. e = Call i None op sync pr str k \<and> f = Aborted 1) \<or>
         (\<exists>i a. e = Resume i \<and> clients s ! i = Ready (CWait a REQ_READ False) \<and> f = NullDeref) \<or>
         (\<exists>i a op sync pr str. e = Process i \<and> servers s ! i = Ready (SGot a) \<and>
            cell_at (tty s) a (make_request op sync pr str) \<and> caller_fault op pr str f)"
proof -
  have ok: "crash s = None" and st: "tty_step s e = Some u" using assms(2) by (auto simp: tty_exec_def split: if_splits)
  obtain as where core: "tty_core (tty s) (clients s) (servers s) (lines_read s) as" using tty_reach_core(1) [OF assms(1) ok] by blast
  note m = tty_requests.reach_inv [OF assms(1)]
  show ?thesis
  proof (cases e)
    case (Call i mem op sync pr str k)
    with st ok assms(3) request_fault [OF core, of mem op sync pr str f] show ?thesis
      by (auto simp: fail_def set_client_def Let_def split: if_splits sum.splits)
  next
    case (Resume i)
    with st obtain a op b where i: "i < length (clients s)" "clients s ! i = Ready (CWait a op b)"
      by (auto split: if_splits tstate.splits client_pc.splits)
    from resume_core(1) [OF core i] obtain d where d: "tty_request_done a (tty s) = Inr d" by blast
    with Resume st i ok assms(3) finish_fault [OF core i, of f] show ?thesis
      by (auto simp: fail_def set_client_def split: sum.splits bool.splits)
  next
    case (Take i)
    with st have i: "i < length (servers s)" "servers s ! i = Ready SLoop" by (auto split: if_splits)
    have "\<exists>r. tty_pop (tty s) = Inr r"
      using core tty_pop_empty [of "tty s"] tty_pop_at [of "tty s"] by (cases as) (auto simp: tty_core_def)
    with Take st ok assms(3) i show ?thesis by (auto simp: set_server_def split: option.splits)
  next
    case (Process i)
    with st obtain a where i: "i < length (servers s)" "servers s ! i = Ready (SGot a)"
      by (auto split: if_splits tstate.splits server_pc.splits)
    then obtain c where c: "tty_heap (tty s) a = Some c" using held_cell [OF core] by fastforce
    from got_made [OF m core i c] obtain op sync pr str where mk: "cell_data c = make_request op sync pr str" by blast
    have "tty_process a (input s) (tty s) = Inl f"
      using Process st i ok assms(3) by (auto simp: fail_def set_server_def split: sum.splits)
    from process_made [OF c mk this] Process i c mk show ?thesis by (auto simp: cell_at_def)
  next
    case (Complete i j)
    with st obtain a where i: "i < length (servers s)" "servers s ! i = Ready (SDone a)"
      by (auto split: if_splits tstate.splits server_pc.splits)
    then obtain c where c: "tty_heap (tty s) a = Some c" using held_cell [OF core] by fastforce
    from complete_faults [OF c] Complete st i ok assms(3) show ?thesis by (auto simp: set_server_def split: if_splits)
  qed (use st ok assms(3) in auto)
qed

text \<open>C6: a synchronous caller returns only when the server has completed its request; the request is
  freed, and a caller that reads gets a line the server read.\<close>

theorem tty_sync_returns_served:
  assumes "reach tty_init tty_exec s" and "tty_exec s (Resume i) = Some u" and "crash u = None"
    and "clients s ! i = Ready (CWait a op b)" and "clients u ! i = Ready CIdle"
  shows "(\<exists>r. cell_at (tty s) a r \<and> done_flag r \<noteq> 0 \<and> operation r = op) \<and> tty_heap (tty u) a = None \<and>
         set (answers u) \<subseteq> set (lines_read u)"
proof -
  have ok: "crash s = None" and i: "i < length (clients s)"
    using assms(2) by (auto simp: tty_exec_def split: if_splits)
  obtain as where core: "tty_core (tty s) (clients s) (servers s) (lines_read s) as"
    using tty_reach_core(1) [OF assms(1) ok] by blast
  have "caller_ok (tty s) (held (servers s) @ as) (lines_read s) (clients s ! i)"
    using core i by (simp add: tty_core_def list_all_length)
  from caller_okD [OF this, of a op b] assms(4) obtain r where r: "cell_at (tty s) a r" "operation r = op" by auto
  from cell_at_deref [OF r(1)] obtain c where c: "tty_heap (tty s) a = Some c" "cell_data c = r" by blast
  have d: "done_flag r \<noteq> 0"
  proof
    assume "done_flag r = 0"
    with c have "tty_request_done a (tty s) = Inr False" by (simp add: tty_request_done_def)
    with assms(2,4,5) i ok show False by (auto simp: tty_exec_def set_client_def)
  qed
  with c have "tty_request_done a (tty s) = Inr True" by (simp add: tty_request_done_def)
  with assms(2,3,4) i ok c have "tty_heap (tty u) a = None"
    by (auto simp: tty_exec_def set_client_def fail_def tty_request_finish_def Let_def split: sum.splits if_splits)
  moreover have "set (answers u) \<subseteq> set (lines_read u)"
    by (rule tty_reach_core(2) [OF _ assms(3)]) (rule reach_step [OF assms(1,2)])
  ultimately show ?thesis using r d by blast
qed

text \<open>Nobody sleeps on work that is there: while a request is queued the server is awake (or has quit),
  and a caller whose request is done is awake.\<close>

theorem tty_no_lost_wakeup:
  assumes "reach tty_init tty_exec s" and "crash s = None"
  shows "(first (tty s) \<noteq> None \<longrightarrow> (\<exists>srv. servers s = [srv] \<and> (srv = Finished \<or> is_ready srv))) \<and>
         (\<forall>i < length (clients s). \<forall>a op b. clients s ! i = Waiting (DoneOf a) (CWait a op b) \<longrightarrow>
            (\<exists>r. cell_at (tty s) a r \<and> done_flag r = 0))"
proof -
  obtain as where core: "tty_core (tty s) (clients s) (servers s) (lines_read s) as"
    and "added s = taken s @ payloads (tty_heap (tty s)) as" using tty_reach_core(1) [OF assms] by blast
  have "first (tty s) \<noteq> None \<Longrightarrow> as \<noteq> []"
    using core queue_at_first_None by (auto simp: tty_core_def pending_at_def)
  moreover have "as \<noteq> [] \<Longrightarrow> servers s \<noteq> []"
    using core by (auto simp: tty_core_def pending_ok_def server_side_def)
  moreover have "server_side (tty s) (servers s) (lines_read s) as" using core by (simp add: tty_core_def)
  ultimately have "first (tty s) \<noteq> None \<Longrightarrow> \<exists>srv. servers s = [srv] \<and> (srv = Finished \<or> is_ready srv)"
    unfolding server_side_def by (auto elim!: server_ok.elims)
  moreover have "\<exists>r. cell_at (tty s) a r \<and> done_flag r = 0"
    if "i < length (clients s)" "clients s ! i = Waiting (DoneOf a) (CWait a op b)" for i a op b
  proof -
    have "caller_ok (tty s) (held (servers s) @ as) (lines_read s) (clients s ! i)"
      using core that(1) by (simp add: tty_core_def list_all_length)
    from caller_okD [OF this, of a op b] that(2) show ?thesis by auto
  qed
  ultimately show ?thesis by blast
qed

text \<open>C39: what is written is what was passed, for strings shorter than the buffer of the request; a string
  of 128 characters or more is copied without its terminator, and the server reads past the buffer.\<close>

theorem tty_write_roundtrip:
  assumes "NUL \<notin> set x" and "tty_heap t a = Some c"
    and "cell_data c = make_request REQ_WRITE sync pr (Some x)"
  shows "tty_process a inp t = (if length x < 128 then Inr (t, inp, DidWrite x) else Inl OutOfBounds)"
  using assms strncpy_short [of x 128] strncpy_long [of x 128]
  by (auto simp: tty_process_def make_request_def req_defs Let_def)


section \<open>Runs\<close>

declare tty_step.simps [simp del]

lemmas tty_eval = tty_step.simps tty_begin_def tty_exec_def tty_server_request_def tty_start_def tty_push_def tty_pop_def
  tty_unused_def make_request_def set_client_def set_server_def signal_ok_def cond_signal_def tty_process_def tty_read_def
  tty_complete_def tty_request_done_def tty_request_finish_def buf_str_def strncpy_def cstr_def strip_newline_def Let_def
  req_defs numeral_eq_Suc

definition one_client :: tty_sys where
  "one_client = tty_begin 1 [CHR ''h'', CHR ''i'', CHR 0x0A]"

lemma one_client_reach: "run tty_exec one_client es = Some t \<Longrightarrow> reach tty_init tty_exec t"
  by (rule reach_by_run [of _ one_client]) (auto simp: tty_init_def one_client_def)

definition read_run :: "tty_event list" where
  "read_run = [Call 0 (Some 1) REQ_READ 1 (Some ''> '') (Some []) 0, Take 0, Process 0, Complete 0 0]"

lemma queued_state:
  "\<exists>s. run tty_exec one_client [Call 0 (Some 1) REQ_READ 1 (Some ''> '') (Some []) 0] = Some s \<and> crash s = None \<and>
     first (tty s) = Some 1 \<and> clients s = [Waiting (DoneOf 1) (CWait 1 REQ_READ True)]"
  by (simp add: tty_eval one_client_def)

lemma read_state:
  "\<exists>s u. run tty_exec one_client read_run = Some s \<and> clients s = [Ready (CWait 1 REQ_READ True)] \<and>
     tty_exec s (Resume 0) = Some u \<and> crash u = None \<and> clients u = [Ready CIdle] \<and> answers u = [''hi'']"
  by (simp add: tty_eval one_client_def read_run_def)

lemma conversion_state:
  "\<exists>s u. run tty_exec one_client [Call 0 (Some 1) REQ_READ 0 (Some ''%s'') None 0, Take 0] = Some s \<and>
     tty_exec s (Process 0) = Some u \<and> crash u = Some Uninitialised"
  by (simp add: tty_eval one_client_def fail_def)

theorem tty_serves_in_order_witness:
  "\<exists>s :: tty_sys. first (tty s) = Some 1 \<and> (\<exists>rs. pending (tty s) rs \<and> added s = taken s @ rs)"
proof -
  obtain s where s: "run tty_exec one_client [Call 0 (Some 1) REQ_READ 1 (Some ''> '') (Some []) 0] = Some s"
    "crash s = None" "first (tty s) = Some 1" using queued_state by blast
  from tty_serves_in_order [OF one_client_reach [OF s(1)] s(2)] s(3) show ?thesis by blast
qed

theorem tty_memory_safe_witness:
  "\<exists>s u f. tty_exec s (Process 0) = Some u \<and> crash u = Some f \<and>
     (\<exists>i a op sync pr str. Process 0 = Process i \<and> servers s ! i = Ready (SGot a) \<and>
            cell_at (tty s) a (make_request op sync pr str) \<and> caller_fault op pr str f)"
proof -
  obtain s u where s: "run tty_exec one_client [Call 0 (Some 1) REQ_READ 0 (Some ''%s'') None 0, Take 0] = Some s"
    "tty_exec s (Process 0) = Some u" "crash u = Some Uninitialised"
    using conversion_state by blast
  from tty_memory_safe [OF one_client_reach [OF s(1)] s(2,3)] s show ?thesis by blast
qed

theorem tty_sync_returns_served_witness:
  "\<exists>u :: tty_sys. answers u = [''hi''] \<and> ''hi'' \<in> set (lines_read u)"
proof -
  obtain s u where s: "run tty_exec one_client read_run = Some s" "clients s = [Ready (CWait 1 REQ_READ True)]"
    "tty_exec s (Resume 0) = Some u" "crash u = None" "clients u = [Ready CIdle]" "answers u = [''hi'']"
    using read_state by blast
  from tty_sync_returns_served [OF one_client_reach [OF s(1)] s(3,4), of 1 REQ_READ True] s(2,5,6)
  have "''hi'' \<in> set (lines_read u)" by auto
  with s(6) show ?thesis by blast
qed

theorem tty_no_lost_wakeup_witness:
  "\<exists>s :: tty_sys. first (tty s) = Some 1 \<and> (\<exists>srv. servers s = [srv] \<and> (srv = Finished \<or> is_ready srv))"
proof -
  obtain s where s: "run tty_exec one_client [Call 0 (Some 1) REQ_READ 1 (Some ''> '') (Some []) 0] = Some s"
    "crash s = None" "first (tty s) = Some 1" using queued_state by blast
  from tty_no_lost_wakeup [OF one_client_reach [OF s(1)] s(2)] s(3) show ?thesis by (intro exI [of _ s]) auto
qed

theorem tty_write_roundtrip_witness:
  "tty_process 1 [] \<lparr>tty_heap = [1 \<mapsto> \<lparr>cell_next = None, cell_data = make_request REQ_WRITE 0 None (Some ''hi'')\<rparr>],
       first = None, last_req = None, running = 1\<rparr> =
   Inr (\<lparr>tty_heap = [1 \<mapsto> \<lparr>cell_next = None, cell_data = make_request REQ_WRITE 0 None (Some ''hi'')\<rparr>],
       first = None, last_req = None, running = 1\<rparr>, [], DidWrite ''hi'')"
  by (subst tty_write_roundtrip [of "''hi''" _ _ "\<lparr>cell_next = None, cell_data = make_request REQ_WRITE 0 None (Some ''hi'')\<rparr>" 0 None])
     simp_all

section \<open>The clients\<close>

text \<open>
  \<open>client_routine\<close>: for every line it reads, a client queues four writes, and an empty line ends it.
  The formatted text goes to a buffer of 128 bytes, as long as the line that is put into it. The
  result is the writes queued for the lines read so far.
\<close>

definition client_format :: "nat \<Rightarrow> nat \<Rightarrow> string \<Rightarrow> fault + string" where
  "client_format my_number loops str =
     sprintf 128 (''('' @ decimal my_number @ ''#'' @ decimal loops @ '') '' @ str)"

function client_line :: "nat \<Rightarrow> nat \<Rightarrow> string \<Rightarrow> fault + string list" where
  "client_line my_number loops str =
     (if loops < 4 then
        ebind (client_format my_number loops str) (\<lambda>f.
          ebind (client_line my_number (loops + 1) str) (\<lambda>fs. Inr (f # fs)))
      else Inr [])"
  by auto

termination
  by (relation "measure (\<lambda>(k, loops, str). 4 - loops)") auto

declare client_line.simps [simp del]

fun client_routine :: "nat \<Rightarrow> string list \<Rightarrow> fault + string list" where
  "client_routine my_number [] = Inr []"
| "client_routine my_number (str # strs) =
     (if str = [] then Inr []
      else ebind (client_line my_number 0 str) (\<lambda>fs. ebind (client_routine my_number strs) (\<lambda>gs. Inr (fs @ gs))))"

lemma client_line_ok:
  assumes "length (decimal k) + length str + 5 < 128"
  shows "client_line k 0 str = Inr (map (\<lambda>n. ''('' @ decimal k @ ''#'' @ decimal n @ '') '' @ str) [0 ..< 4])"
  using assms by (simp add: client_line.simps client_format_def sprintf_def decimal_small upt_conv_Cons)

text \<open>A line of 122 characters, which the server can hand out, overflows the buffer of every client.\<close>

lemma client_line_overflow:
  assumes "122 \<le> length str"
  shows "client_line k 0 str = Inl OutOfBounds"
proof -
  have "\<not> length (decimal k) + (length (decimal 0) + length str) < 124"
    using assms decimal_nonempty [of k] decimal_nonempty [of 0] by linarith
  then show ?thesis by (subst client_line.simps) (simp add: client_format_def sprintf_def)
qed

lemma client_routine_length:
  "client_routine k strs = Inr out \<Longrightarrow> length out = 4 * length (takeWhile (\<lambda>x. x \<noteq> []) strs)"
proof (induction strs arbitrary: out)
  case (Cons x xs)
  have "client_line k 0 x = Inr fs \<Longrightarrow> length fs = 4" for fs
    by (auto simp: client_line.simps)
  with Cons show ?case by (auto split: if_splits)
qed simp

text \<open>
  \<open>main\<close> waits until \<open>client_threads\<close> is zero; each client counts itself off and the last one signals.
\<close>

definition client_exit :: "int \<Rightarrow> int \<times> bool" where
  "client_exit client_threads = (client_threads - 1, client_threads - 1 \<le> 0)"

end
