(* ===== verification/Pipeline.thy ===== *)
theory Pipeline
  imports Pthread
begin

text \<open>
  The pipeline of \<open>pipe.c\<close>: \<open>n\<close> stage threads, each of which takes a value from its stage, adds one and
  passes it to the next stage; the last stage has no thread and holds a result until \<open>pipe_result\<close>
  collects it. A stage thread holds the mutex of its own stage except while it waits for data, so a
  sender can only look at a stage whose thread has not started, is waiting or has just been woken
  (\<open>mutex_free\<close>). \<open>pipe_exec\<close> runs the stage threads and the main thread in every interleaving.
\<close>

section \<open>Stages\<close>

type_synonym long = "64 word"

record stage =
  data_ready :: int
  data :: long
  stageIndex :: nat

text \<open>
  The values that stage 0 cannot take are noted in a global array that nothing reads. When no slot
  of it is zero the position is not initialised.
\<close>

fun free_slot :: "long list \<Rightarrow> nat option" where
  "free_slot [] = None"
| "free_slot (q # qs) = (if q = 0 then Some 0 else map_option Suc (free_slot qs))"

definition queue_number :: "long \<Rightarrow> long list \<Rightarrow> fault + long list" where
  "queue_number v queue = (case free_slot queue of None \<Rightarrow> Inl Uninitialised | Some f \<Rightarrow> Inr (queue[f := v]))"

text \<open>One pass of \<open>pipe_send\<close> with the mutex held: wait for the stage to be empty, or store and signal.\<close>

datatype send_next = SendWait "long list" | SendDone stage bool

definition pipe_send :: "penv \<Rightarrow> long list \<Rightarrow> stage \<Rightarrow> long \<Rightarrow> fault + send_next" where
  "pipe_send st queue stage v =
     (if data_ready stage \<noteq> 0 then
        ebind (if stageIndex stage = 0 then queue_number v queue else Inr queue) (\<lambda>q. Inr (SendWait q))
      else Inr (SendDone (stage\<lparr>data := v, data_ready := 1\<rparr>) (st Cond_signal = 0)))"

text \<open>The loop of \<open>pipe_stage\<close>: the value to pass on, or nothing to do yet; and what follows the send.\<close>

definition stage_take :: "stage \<Rightarrow> long option" where
  "stage_take stage = (if data_ready stage \<noteq> 1 then None else Some (data stage + 1))"

definition stage_clear :: "stage \<Rightarrow> stage" where
  "stage_clear stage = stage\<lparr>data_ready := 0\<rparr>"

definition result_take :: "stage \<Rightarrow> (long \<times> stage) option" where
  "result_take tail = (if data_ready tail = 0 then None else Some (data tail, tail\<lparr>data_ready := 0\<rparr>))"

text \<open>
  The stages \<open>pipe_create\<close> allocates: \<open>stages + 1\<close> of them, linked in order; a thread is created for
  all but the last. What \<open>malloc\<close> left in \<open>data\<close> is \<open>junk\<close>.
\<close>

definition pipe_create :: "(nat \<Rightarrow> long) \<Rightarrow> nat \<Rightarrow> stage list" where
  "pipe_create junk stages = map (\<lambda>i. \<lparr>data_ready = 0, data = junk i, stageIndex = i\<rparr>) [0 ..< stages + 1]"

text \<open>\<open>pipe_start\<close> and \<open>pipe_result\<close> first count the values under the mutex of the pipe.\<close>

definition pipe_enter :: "int \<Rightarrow> int" where
  "pipe_enter active = active + 1"

definition pipe_leave :: "int \<Rightarrow> int option" where
  "pipe_leave active = (if active \<le> 0 then None else Some (active - 1))"

section \<open>The threads\<close>

datatype pipe_cv = Avail nat | ReadyCV nat

text \<open>
  A stage thread is at its test (\<open>PCheck\<close>), sending, or behind the send. The main thread is outside,
  sending to stage 0, or waiting for a result.
\<close>

datatype stage_pc = PCheck | PSend long | PAfter
datatype main_pc = MIdle | MSend long | MResult

record pipe_sys =
  stages :: "stage list"
  threads :: "(pipe_cv, stage_pc) tstate list"
  main :: "(pipe_cv, main_pc) tstate"
  active :: int
  queue :: "long list"
  crash :: "fault option"
  sent :: "long list"
  results :: "long list"

datatype pipe_event =
  Run nat | Send nat | After nat | Start long | MainSend | Result | Collect | WakeStage nat pipe_cv | WakeMain

fun holds_mutex :: "(pipe_cv, stage_pc) tstate \<Rightarrow> bool" where
  "holds_mutex (Ready (PSend v)) = True"
| "holds_mutex (Waiting c (PSend v)) = True"
| "holds_mutex (Ready PAfter) = True"
| "holds_mutex _ = False"

definition mutex_free :: "pipe_sys \<Rightarrow> nat \<Rightarrow> bool" where
  "mutex_free s k \<longleftrightarrow> (k < length (threads s) \<longrightarrow> \<not> holds_mutex (threads s ! k))"

text \<open>A signal on a condition variable of stage \<open>k\<close>: at most one thread waits on it.\<close>

definition notify :: "pipe_cv \<Rightarrow> pipe_sys \<Rightarrow> pipe_sys" where
  "notify c s = s\<lparr>threads := cond_broadcast c (threads s), main := wake c (main s)\<rparr>"

definition set_stage :: "nat \<Rightarrow> stage \<Rightarrow> pipe_sys \<Rightarrow> pipe_sys" where
  "set_stage k g s = s\<lparr>stages := (stages s)[k := g]\<rparr>"

definition set_thread :: "nat \<Rightarrow> (pipe_cv, stage_pc) tstate \<Rightarrow> pipe_sys \<Rightarrow> pipe_sys" where
  "set_thread i t s = s\<lparr>threads := (threads s)[i := t]\<rparr>"

fun pipe_step :: "pipe_sys \<Rightarrow> pipe_event \<Rightarrow> pipe_sys option" where
  "pipe_step s (Run i) =
     (if i < length (threads s) \<and> threads s ! i = Ready PCheck then
        Some (set_thread i (case stage_take (stages s ! i) of None \<Rightarrow> Waiting (Avail i) PCheck | Some v \<Rightarrow> Ready (PSend v)) s)
      else None)"
| "pipe_step s (Send i) =
     (if i < length (threads s) \<and> mutex_free s (i + 1) then
        case threads s ! i of
          Ready (PSend v) \<Rightarrow>
            (case pipe_send all_ok (queue s) (stages s ! (i + 1)) v of
               Inl f \<Rightarrow> Some (s\<lparr>crash := Some f\<rparr>)
             | Inr (SendWait q) \<Rightarrow> Some (set_thread i (Waiting (ReadyCV (i + 1)) (PSend v)) (s\<lparr>queue := q\<rparr>))
             | Inr (SendDone g sig) \<Rightarrow>
                 let s = set_thread i (Ready PAfter) (set_stage (i + 1) g s)
                 in Some (if sig then notify (Avail (i + 1)) s else s))
        | _ \<Rightarrow> None
      else None)"
| "pipe_step s (After i) =
     (if i < length (threads s) \<and> threads s ! i = Ready PAfter then
        Some (notify (ReadyCV i) (set_thread i (Ready PCheck) (set_stage i (stage_clear (stages s ! i)) s)))
      else None)"
| "pipe_step s (Start v) =
     (if main s = Ready MIdle then Some (s\<lparr>active := pipe_enter (active s), main := Ready (MSend v)\<rparr>) else None)"
| "pipe_step s MainSend =
     (if mutex_free s 0 then
        case main s of
          Ready (MSend v) \<Rightarrow>
            (case pipe_send all_ok (queue s) (stages s ! 0) v of
               Inl f \<Rightarrow> Some (s\<lparr>crash := Some f\<rparr>)
             | Inr (SendWait q) \<Rightarrow> Some (s\<lparr>queue := q, main := Waiting (ReadyCV 0) (MSend v)\<rparr>)
             | Inr (SendDone g sig) \<Rightarrow>
                 let s = (set_stage 0 g s)\<lparr>main := Ready MIdle, sent := sent s @ [v]\<rparr>
                 in Some (if sig then notify (Avail 0) s else s))
        | _ \<Rightarrow> None
      else None)"
| "pipe_step s Result =
     (if main s = Ready MIdle then
        case pipe_leave (active s) of
          None \<Rightarrow> Some s
        | Some a \<Rightarrow> Some (s\<lparr>active := a, main := Ready MResult\<rparr>)
      else None)"
| "pipe_step s Collect =
     (let n = length (threads s) in
      if main s = Ready MResult then
        case result_take (stages s ! n) of
          None \<Rightarrow> Some (s\<lparr>main := Waiting (Avail n) MResult\<rparr>)
        | Some (v, g) \<Rightarrow>
            Some (notify (ReadyCV n) ((set_stage n g s)\<lparr>main := Ready MIdle, results := results s @ [v]\<rparr>))
      else None)"
| "pipe_step s (WakeStage i c) = Some (s\<lparr>threads := spurious i c (threads s)\<rparr>)"
| "pipe_step s WakeMain = Some (s\<lparr>main := (case main s of Waiting c p \<Rightarrow> Ready p | t \<Rightarrow> t)\<rparr>)"

definition pipe_exec :: "pipe_sys \<Rightarrow> pipe_event \<Rightarrow> pipe_sys option" where
  "pipe_exec s e = (if crash s = None then pipe_step s e else None)"

text \<open>\<open>main\<close> clears the array of ten slots after creating the pipe.\<close>

definition pipe_begin :: "(nat \<Rightarrow> long) \<Rightarrow> nat \<Rightarrow> pipe_sys" where
  "pipe_begin junk n =
     \<lparr>stages = pipe_create junk n, threads = replicate n (Ready PCheck), main = Ready MIdle, active = 0,
      queue = replicate 10 0, crash = None, sent = [], results = []\<rparr>"

definition pipe_init :: "pipe_sys \<Rightarrow> bool" where
  "pipe_init s \<longleftrightarrow> (\<exists>junk n. 0 < n \<and> s = pipe_begin junk n)"

section \<open>What is in the pipe\<close>

text \<open>The values in the stages, from the last stage back to the first.\<close>

fun flow :: "(nat \<Rightarrow> 'a list) \<Rightarrow> nat \<Rightarrow> 'a list" where
  "flow f 0 = f 0"
| "flow f (Suc n) = f (Suc n) @ flow f n"

lemma flow_cong: "(\<And>k. k \<le> n \<Longrightarrow> f k = g k) \<Longrightarrow> flow f n = flow g n"
  by (induction n) auto

lemma flow_move:
  assumes "i < n" and "f (Suc i) = []" and "g (Suc i) = f i" and "g i = []"
    and "\<And>k. k \<le> n \<Longrightarrow> k \<noteq> i \<Longrightarrow> k \<noteq> Suc i \<Longrightarrow> g k = f k"
  shows "flow g n = flow f n"
  using assms
proof (induction n)
  case (Suc n)
  show ?case
  proof (cases "i = n")
    case True
    have "flow f n = f n @ flow g n"
    proof (cases n)
      case (Suc m)
      have "flow f m = flow g m" by (rule flow_cong) (use Suc.prems True Suc in auto)
      with Suc Suc.prems True show ?thesis by simp
    qed (use Suc.prems True in simp)
    with Suc.prems True show ?thesis by simp
  next
    case False
    with Suc show ?thesis by simp
  qed
qed simp

lemma flow_push: "f 0 = [] \<Longrightarrow> g 0 = [x] \<Longrightarrow> (\<And>k. 0 < k \<Longrightarrow> k \<le> n \<Longrightarrow> g k = f k) \<Longrightarrow> flow g n = flow f n @ [x]"
  by (induction n) auto

lemma flow_pop: "f n = [x] \<Longrightarrow> g n = [] \<Longrightarrow> (\<And>k. k < n \<Longrightarrow> g k = f k) \<Longrightarrow> flow f n = x # flow g n"
  by (cases n) (auto intro: flow_cong)

lemma flow_nonempty: "flow f n \<noteq> [] \<Longrightarrow> \<exists>k \<le> n. f k \<noteq> [] \<and> (\<forall>j. k < j \<and> j \<le> n \<longrightarrow> f j = [])"
proof (induction n)
  case (Suc n)
  show ?case
  proof (cases "f (Suc n) = []")
    case True
    with Suc obtain k where "k \<le> n" "f k \<noteq> []" "\<forall>j. k < j \<and> j \<le> n \<longrightarrow> f j = []" by auto
    with True show ?thesis by (intro exI [of _ k]) (auto simp: le_Suc_eq)
  qed auto
qed auto

text \<open>
  A stage holds a value while it is marked ready and its thread has not passed the value on; seen from
  the end of the pipe, each stage still ahead adds one.
\<close>

definition item :: "stage list \<Rightarrow> (pipe_cv, stage_pc) tstate list \<Rightarrow> nat \<Rightarrow> long list" where
  "item gs ts k =
     (if data_ready (gs ! k) = 1 \<and> \<not> (k < length ts \<and> ts ! k = Ready PAfter)
      then [data (gs ! k) + of_nat (length ts - k)] else [])"

section \<open>The invariant\<close>

fun stage_ok :: "nat \<Rightarrow> stage \<Rightarrow> stage \<Rightarrow> (pipe_cv, stage_pc) tstate \<Rightarrow> bool" where
  "stage_ok i g g' (Ready PCheck) = True"
| "stage_ok i g g' (Waiting c PCheck) = (c = Avail i \<and> data_ready g = 0)"
| "stage_ok i g g' (Ready (PSend v)) = (data_ready g = 1 \<and> v = data g + 1)"
| "stage_ok i g g' (Waiting c (PSend v)) = (c = ReadyCV (i + 1) \<and> data_ready g = 1 \<and> v = data g + 1 \<and> data_ready g' = 1)"
| "stage_ok i g g' (Ready PAfter) = (data_ready g = 1)"
| "stage_ok i g g' _ = False"

fun main_ok :: "nat \<Rightarrow> stage list \<Rightarrow> (pipe_cv, main_pc) tstate \<Rightarrow> bool" where
  "main_ok n gs (Ready p) = True"
| "main_ok n gs (Waiting c (MSend v)) = (c = ReadyCV 0 \<and> data_ready (gs ! 0) = 1)"
| "main_ok n gs (Waiting c MResult) = (c = Avail n \<and> data_ready (gs ! n) = 0)"
| "main_ok n gs _ = False"

fun main_owes :: "(pipe_cv, main_pc) tstate \<Rightarrow> int" where
  "main_owes (Ready (MSend v)) = 1"
| "main_owes (Waiting c (MSend v)) = 1"
| "main_owes (Ready MResult) = -1"
| "main_owes (Waiting c MResult) = -1"
| "main_owes _ = 0"

definition shaped :: "nat \<Rightarrow> stage list \<Rightarrow> bool" where
  "shaped n gs \<longleftrightarrow> (\<forall>k \<le> n. data_ready (gs ! k) \<in> {0, 1} \<and> stageIndex (gs ! k) = k)"

lemma shapedD:
  "shaped n gs \<Longrightarrow> k \<le> n \<Longrightarrow> (data_ready (gs ! k) = 0 \<or> data_ready (gs ! k) = 1) \<and> stageIndex (gs ! k) = k"
  by (simp add: shaped_def)

lemma shaped_upd:
  assumes "shaped n gs" and "length gs = n + 1" and "j \<le> n" and "data_ready g \<in> {0, 1}" and "stageIndex g = stageIndex (gs ! j)"
  shows "shaped n (gs[j := g])"
  using assms by (auto simp: shaped_def nth_list_update)

definition pipe_core :: "stage list \<Rightarrow> (pipe_cv, stage_pc) tstate list \<Rightarrow> (pipe_cv, main_pc) tstate \<Rightarrow> int \<Rightarrow> long list \<Rightarrow> long list \<Rightarrow> bool" where
  "pipe_core gs ts m a vs rs \<longleftrightarrow>
     0 < length ts \<and> length gs = length ts + 1 \<and>
     shaped (length ts) gs \<and>
     (\<forall>i < length ts. stage_ok i (gs ! i) (gs ! (i + 1)) (ts ! i)) \<and>
     main_ok (length ts) gs m \<and>
     map (\<lambda>v. v + of_nat (length ts)) vs = rs @ flow (item gs ts) (length ts) \<and>
     a = int (length vs) - int (length rs) + main_owes m \<and> 0 \<le> a"

definition pipe_inv :: "pipe_sys \<Rightarrow> bool" where
  "pipe_inv s \<longleftrightarrow> (crash s = None \<longrightarrow> pipe_core (stages s) (threads s) (main s) (active s) (sent s) (results s))"

lemma pipe_begin_inv:
  assumes "pipe_init s"
  shows "pipe_inv s"
proof -
  from assms obtain junk n where s: "0 < n" "s = pipe_begin junk n" by (auto simp: pipe_init_def)
  have "data_ready (pipe_create junk n ! k) = 0 \<and> stageIndex (pipe_create junk n ! k) = k" if "k \<le> n" for k
    using that by (simp add: pipe_create_def nth_append del: upt_Suc)
  moreover have "flow f n = []" if "\<And>k. k \<le> n \<Longrightarrow> f k = []" for f :: "nat \<Rightarrow> long list"
    using that by (induction n) auto
  ultimately show ?thesis using s
    by (auto simp: pipe_inv_def pipe_core_def pipe_begin_def item_def pipe_create_def shaped_def)
qed


lemma stage_ok_wake: "stage_ok i g g' t \<Longrightarrow> stage_ok i g g' (wake c t)"
  by (cases "(i, g, g', t)" rule: stage_ok.cases) auto

lemma pipe_item_wake:
  assumes "\<forall>i < length ts. stage_ok i (gs ! i) (gs ! (i + 1)) (ts ! i)" and "length us = length ts"
    and "\<And>i. i < length ts \<Longrightarrow> us ! i = ts ! i \<or> (\<exists>c. us ! i = wake c (ts ! i))"
  shows "item gs us k = item gs ts k"
proof (cases "k < length ts")
  case True
  then have ok: "stage_ok k (gs ! k) (gs ! (k + 1)) (ts ! k)" using assms(1) by simp
  have "us ! k = Ready PAfter \<longleftrightarrow> ts ! k = Ready PAfter"
    using assms(3) [OF True] ok by (cases "ts ! k" rule: tstate.exhaust) (auto split: if_splits)
  then show ?thesis using assms(2) by (simp add: item_def)
qed (use assms(2) in \<open>simp add: item_def\<close>)

lemma main_ok_wake: "main_ok n gs m \<Longrightarrow> main_ok n gs (wake c m)"
  by (cases "(n, gs, m)" rule: main_ok.cases) auto

lemma main_owes_wake [simp]: "main_owes (wake c m) = main_owes m"
  by (cases m rule: main_owes.cases) auto

lemma core_wake:
  assumes core: "pipe_core gs ts m a vs rs" and l: "length us = length ts"
    and w: "\<And>i. i < length ts \<Longrightarrow> us ! i = ts ! i \<or> (\<exists>c. us ! i = wake c (ts ! i))" and m': "m' = m \<or> (\<exists>c. m' = wake c m)"
  shows "pipe_core gs us m' a vs rs"
proof -
  have st: "\<forall>i < length ts. stage_ok i (gs ! i) (gs ! (i + 1)) (ts ! i)" using core by (simp add: pipe_core_def)
  have "stage_ok i (gs ! i) (gs ! (i + 1)) (us ! i)" if "i < length ts" for i
    using st w [OF that] that stage_ok_wake by metis
  moreover have "flow (item gs us) (length ts) = flow (item gs ts) (length ts)"
    by (rule flow_cong) (rule pipe_item_wake [OF st l w])
  ultimately show ?thesis using core l m' main_ok_wake by (auto simp: pipe_core_def)
qed

lemma core_notify:
  assumes "pipe_core gs ts m a vs rs"
  shows "pipe_core gs (cond_broadcast c ts) (wake c m) a vs rs"
  by (rule core_wake [OF assms]) auto

text \<open>A stage thread passes its value on; nobody waits for data at the next stage any more.\<close>

lemma core_send:
  assumes core: "pipe_core gs ts m a vs rs" and i: "i < length ts" "ts ! i = Ready (PSend v)"
    and empty: "data_ready (gs ! (i + 1)) = 0"
    and quiet: "i + 1 < length ts \<longrightarrow> \<not> is_waiting (Avail (i + 1)) (ts ! (i + 1))" "\<not> is_waiting (Avail (i + 1)) m"
  shows "pipe_core (gs[i + 1 := (gs ! (i + 1))\<lparr>data := v, data_ready := 1\<rparr>]) (ts[i := Ready PAfter]) m a vs rs"
proof -
  let ?gs = "gs[i + 1 := (gs ! (i + 1))\<lparr>data := v, data_ready := 1\<rparr>]" and ?ts = "ts[i := Ready PAfter]"
  have len: "length gs = length ts + 1" using core by (simp add: pipe_core_def)
  have ok: "stage_ok k (gs ! k) (gs ! (k + 1)) (ts ! k)" if "k < length ts" for k using core that by (simp add: pipe_core_def)
  have v: "data_ready (gs ! i) = 1" "v = data (gs ! i) + 1" using ok [OF i(1)] i by auto
  have "stage_ok k (?gs ! k) (?gs ! (k + 1)) (?ts ! k)" if k: "k < length ts" for k
  proof -
    consider "k = i" | "k = i + 1" | "k \<noteq> i" "k \<noteq> i + 1" by blast
    then show ?thesis
    proof cases
      case 1
      with v i len show ?thesis by simp
    next
      case 2
      with k have "k < length ts" "\<not> is_waiting (Avail k) (ts ! k)" using quiet by auto
      with ok [OF k] 2 k len empty show ?thesis
        by (cases "(k, gs ! k, gs ! (k + 1), ts ! k)" rule: stage_ok.cases) auto
    next
      case 3
      with ok [OF k] k len show ?thesis by simp
    qed
  qed
  moreover have "flow (item ?gs ?ts) (length ts) = flow (item gs ts) (length ts)"
  proof (rule flow_move [OF i(1)])
    have "length ts - i = Suc (length ts - Suc i)" using i(1) by simp
    moreover have "Suc i < length ts \<Longrightarrow> ts ! Suc i \<noteq> Ready PAfter" using ok [of "Suc i"] empty by auto
    ultimately show "item ?gs ?ts (Suc i) = item gs ts i" using v i len by (auto simp: item_def)
    show "item gs ts (Suc i) = []" using empty by (simp add: item_def)
    show "item ?gs ?ts i = []" using i by (simp add: item_def)
    fix k assume "k \<le> length ts" "k \<noteq> i" "k \<noteq> Suc i"
    then show "item ?gs ?ts k = item gs ts k" by (auto simp: item_def)
  qed
  moreover have "main_ok (length ts) ?gs m"
  proof -
    have "main_ok (length ts) gs m" using core by (simp add: pipe_core_def)
    with quiet(2) show ?thesis by (cases "(length ts, gs, m)" rule: main_ok.cases) (auto simp: nth_list_update len)
  qed
  moreover have "shaped (length ts) ?gs"
    by (rule shaped_upd) (use core i in \<open>auto simp: pipe_core_def\<close>)
  ultimately show ?thesis using core len by (auto simp: pipe_core_def)
qed


text \<open>Behind the send the stage is marked empty; nobody waits for that any more.\<close>

lemma core_after:
  assumes core: "pipe_core gs ts m a vs rs" and i: "i < length ts" "ts ! i = Ready PAfter"
    and quiet: "0 < i \<longrightarrow> \<not> is_waiting (ReadyCV i) (ts ! (i - 1))" "\<not> is_waiting (ReadyCV i) m"
  shows "pipe_core (gs[i := stage_clear (gs ! i)]) (ts[i := Ready PCheck]) m a vs rs"
proof -
  let ?gs = "gs[i := stage_clear (gs ! i)]" and ?ts = "ts[i := Ready PCheck]"
  have len: "length gs = length ts + 1" using core by (simp add: pipe_core_def)
  have ok: "stage_ok k (gs ! k) (gs ! (k + 1)) (ts ! k)" if "k < length ts" for k using core that by (simp add: pipe_core_def)
  have "stage_ok k (?gs ! k) (?gs ! (k + 1)) (?ts ! k)" if k: "k < length ts" for k
  proof -
    consider "k = i" | "k + 1 = i" | "k \<noteq> i" "k + 1 \<noteq> i" by blast
    then show ?thesis
    proof cases
      case 2
      with k have "\<not> is_waiting (ReadyCV (k + 1)) (ts ! k)" using quiet(1) by auto
      with ok [OF k] 2 k len show ?thesis
        by (cases "(k, gs ! k, gs ! (k + 1), ts ! k)" rule: stage_ok.cases) auto
    next
      case 3
      with ok [OF k] k len show ?thesis by simp
    qed (use i in simp)
  qed
  moreover have "flow (item ?gs ?ts) (length ts) = flow (item gs ts) (length ts)"
    by (rule flow_cong) (use i len in \<open>auto simp: item_def stage_clear_def nth_list_update\<close>)
  moreover have "main_ok (length ts) ?gs m"
  proof -
    have "main_ok (length ts) gs m" using core by (simp add: pipe_core_def)
    with quiet(2) i show ?thesis
      by (cases "(length ts, gs, m)" rule: main_ok.cases) (auto simp: nth_list_update len stage_clear_def)
  qed
  moreover have "shaped (length ts) ?gs"
    by (rule shaped_upd) (use core i in \<open>auto simp: pipe_core_def stage_clear_def\<close>)
  ultimately show ?thesis using core len by (auto simp: pipe_core_def)
qed

lemma core_run:
  assumes core: "pipe_core gs ts m a vs rs" and i: "i < length ts" "ts ! i = Ready PCheck"
  shows "pipe_core gs (ts[i := (case stage_take (gs ! i) of None \<Rightarrow> Waiting (Avail i) PCheck | Some v \<Rightarrow> Ready (PSend v))]) m a vs rs"
proof -
  let ?u = "case stage_take (gs ! i) of None \<Rightarrow> Waiting (Avail i) PCheck | Some v \<Rightarrow> Ready (PSend v)"
  have "data_ready (gs ! i) \<in> {0, 1}" using core i by (auto simp: pipe_core_def shaped_def)
  then have u: "stage_ok i (gs ! i) (gs ! (i + 1)) ?u" "?u \<noteq> Ready PAfter"
    by (auto simp: stage_take_def)
  have "flow (item gs (ts[i := ?u])) (length ts) = flow (item gs ts) (length ts)"
    by (rule flow_cong) (use i u in \<open>auto simp: item_def nth_list_update\<close>)
  with core u(1) i show ?thesis by (auto simp: pipe_core_def nth_list_update)
qed

lemma core_block:
  assumes core: "pipe_core gs ts m a vs rs" and i: "i < length ts" "ts ! i = Ready (PSend v)"
    and full: "data_ready (gs ! (i + 1)) \<noteq> 0"
  shows "pipe_core gs (ts[i := Waiting (ReadyCV (i + 1)) (PSend v)]) m a vs rs"
proof -
  let ?u = "Waiting (ReadyCV (i + 1)) (PSend v)"
  have "shaped (length ts) gs" using core by (simp add: pipe_core_def)
  from shapedD [OF this, of "i + 1"] have "data_ready (gs ! (i + 1)) = 1" using i full by auto
  moreover have "stage_ok i (gs ! i) (gs ! (i + 1)) (Ready (PSend v))" using core i by (auto simp: pipe_core_def)
  moreover have "flow (item gs (ts[i := ?u])) (length ts) = flow (item gs ts) (length ts)"
    by (rule flow_cong) (use i in \<open>auto simp: item_def nth_list_update\<close>)
  ultimately show ?thesis using core i by (auto simp: pipe_core_def nth_list_update)
qed

text \<open>The main thread puts a value into the first stage and takes a result from the last.\<close>

lemma core_main_send:
  assumes core: "pipe_core gs ts (Ready (MSend v)) a vs rs" and empty: "data_ready (gs ! 0) = 0"
    and quiet: "\<not> is_waiting (Avail 0) (ts ! 0)"
  shows "pipe_core (gs[0 := (gs ! 0)\<lparr>data := v, data_ready := 1\<rparr>]) ts (Ready MIdle) a (vs @ [v]) rs"
proof -
  let ?gs = "gs[0 := (gs ! 0)\<lparr>data := v, data_ready := 1\<rparr>]"
  have len: "length gs = length ts + 1" "0 < length ts" using core by (auto simp: pipe_core_def)
  have ok: "stage_ok k (gs ! k) (gs ! (k + 1)) (ts ! k)" if "k < length ts" for k using core that by (simp add: pipe_core_def)
  have "stage_ok k (?gs ! k) (?gs ! (k + 1)) (ts ! k)" if k: "k < length ts" for k
    using ok [OF k] quiet k len empty
    by (cases "k = 0"; cases "(k, gs ! k, gs ! (k + 1), ts ! k)" rule: stage_ok.cases) auto
  moreover have "flow (item ?gs ts) (length ts) = flow (item gs ts) (length ts) @ [v + of_nat (length ts)]"
  proof (rule flow_push)
    show "item gs ts 0 = []" using empty by (simp add: item_def)
    have "ts ! 0 \<noteq> Ready PAfter" using ok [of 0] len empty by auto
    then show "item ?gs ts 0 = [v + of_nat (length ts)]" using len by (simp add: item_def)
  qed (simp add: item_def)
  moreover have "shaped (length ts) ?gs"
    by (rule shaped_upd) (use core in \<open>auto simp: pipe_core_def\<close>)
  ultimately show ?thesis using core len by (auto simp: pipe_core_def)
qed

lemma core_collect:
  assumes core: "pipe_core gs ts (Ready MResult) a vs rs" and r: "result_take (gs ! length ts) = Some (v, g)"
    and quiet: "\<not> is_waiting (ReadyCV (length ts)) (ts ! (length ts - 1))"
  shows "pipe_core (gs[length ts := g]) ts (Ready MIdle) a vs (rs @ [v])"
proof -
  let ?n = "length ts" and ?gs = "gs[length ts := g]"
  have len: "length gs = ?n + 1" "0 < ?n" using core by (auto simp: pipe_core_def)
  have g: "g = (gs ! ?n)\<lparr>data_ready := 0\<rparr>" "v = data (gs ! ?n)" "data_ready (gs ! ?n) = 1"
    using r core by (auto simp: result_take_def pipe_core_def shaped_def split: if_splits)
  have ok: "stage_ok k (gs ! k) (gs ! (k + 1)) (ts ! k)" if "k < ?n" for k using core that by (simp add: pipe_core_def)
  have "stage_ok k (?gs ! k) (?gs ! (k + 1)) (ts ! k)" if k: "k < ?n" for k
  proof (cases "k = ?n - 1")
    case True
    with quiet len have "\<not> is_waiting (ReadyCV (k + 1)) (ts ! k)" by auto
    with ok [OF k] True k len show ?thesis
      by (cases "(k, gs ! k, gs ! (k + 1), ts ! k)" rule: stage_ok.cases) auto
  next
    case False
    with ok [OF k] k len show ?thesis by simp
  qed
  moreover have "flow (item gs ts) ?n = v # flow (item ?gs ts) ?n"
    by (rule flow_pop) (use g len in \<open>auto simp: item_def\<close>)
  moreover have "shaped ?n ?gs"
    by (rule shaped_upd) (use core g in \<open>auto simp: pipe_core_def\<close>)
  ultimately show ?thesis using core len by (auto simp: pipe_core_def)
qed


lemma broadcast_upd_Ready: "cond_broadcast c (ts[i := Ready p]) = (cond_broadcast c ts)[i := Ready p]"
  by (simp add: cond_broadcast_def map_update)

lemma notify_quiet: "i < length ts \<Longrightarrow> \<not> is_waiting c (cond_broadcast c ts ! i)" "\<not> is_waiting c (wake c m)"
  by simp_all

lemma pipe_step_inv:
  assumes core: "pipe_core (stages s) (threads s) (main s) (active s) (sent s) (results s)"
    and e: "pipe_step s e = Some t" and ok: "crash s = None" "crash t = None"
  shows "pipe_core (stages t) (threads t) (main t) (active t) (sent t) (results t)"
proof (cases e)
  case (Run i)
  with e core_run [OF core] show ?thesis by (auto simp: set_thread_def split: if_splits)
next
  case (Send i)
  with e obtain v where i: "i < length (threads s)" "threads s ! i = Ready (PSend v)"
    by (auto split: if_splits tstate.splits stage_pc.splits)
  let ?g = "stages s ! (i + 1)" and ?c = "Avail (i + 1)"
  have idx: "stageIndex ?g \<noteq> 0" using core i shapedD [of "length (threads s)" "stages s" "i + 1"] by (simp add: pipe_core_def)
  show ?thesis
  proof (cases "data_ready ?g = 0")
    case False
    with Send e i idx core_block [OF core i] show ?thesis by (auto simp: pipe_send_def set_thread_def split: if_splits)
  next
    case True
    note n = core_notify [OF core, of ?c]
    have "pipe_core ((stages s)[i + 1 := ?g\<lparr>data := v, data_ready := 1\<rparr>]) ((cond_broadcast ?c (threads s))[i := Ready PAfter])
        (wake ?c (main s)) (active s) (sent s) (results s)"
      by (rule core_send [OF n _ _ True]) (use i notify_quiet in auto)
    with Send e i True show ?thesis
      by (auto simp: pipe_send_def set_thread_def set_stage_def notify_def broadcast_upd_Ready split: if_splits)
  qed
next
  case (After i)
  with e have i: "i < length (threads s)" "threads s ! i = Ready PAfter" by (auto split: if_splits)
  note n = core_notify [OF core, of "ReadyCV i"]
  have "pipe_core ((stages s)[i := stage_clear (stages s ! i)]) ((cond_broadcast (ReadyCV i) (threads s))[i := Ready PCheck])
      (wake (ReadyCV i) (main s)) (active s) (sent s) (results s)"
    by (rule core_after [OF n]) (use i notify_quiet in auto)
  with After e i show ?thesis
    by (auto simp: set_thread_def set_stage_def notify_def broadcast_upd_Ready)
next
  case (Start v)
  with e core show ?thesis by (auto simp: pipe_core_def pipe_enter_def split: if_splits)
next
  case MainSend
  with e obtain v where m: "main s = Ready (MSend v)"
    by (auto split: if_splits tstate.splits main_pc.splits)
  let ?g = "stages s ! 0"
  show ?thesis
  proof (cases "data_ready ?g = 0")
    case False
    with core have "data_ready ?g = 1" by (auto simp: pipe_core_def shaped_def)
    with MainSend e m ok core show ?thesis
      by (auto simp: pipe_send_def pipe_core_def split: if_splits sum.splits)
  next
    case True
    have pos: "0 < length (threads s)" using core by (simp add: pipe_core_def)
    from core_notify [OF core, of "Avail 0"] m
    have n: "pipe_core (stages s) (cond_broadcast (Avail 0) (threads s)) (Ready (MSend v)) (active s) (sent s) (results s)" by simp
    have "pipe_core ((stages s)[0 := ?g\<lparr>data := v, data_ready := 1\<rparr>]) (cond_broadcast (Avail 0) (threads s)) (Ready MIdle)
        (active s) (sent s @ [v]) (results s)"
      by (rule core_main_send [OF n True]) (use notify_quiet pos in auto)
    with MainSend e m True show ?thesis
      by (auto simp: pipe_send_def set_stage_def notify_def split: if_splits)
  qed
next
  case Result
  with e core show ?thesis by (auto simp: pipe_core_def pipe_leave_def split: if_splits option.splits)
next
  case Collect
  let ?n = "length (threads s)"
  from Collect e have m: "main s = Ready MResult" by (auto simp: Let_def split: if_splits)
  show ?thesis
  proof (cases "result_take (stages s ! ?n)")
    case None
    with Collect e m core show ?thesis by (auto simp: Let_def pipe_core_def result_take_def split: if_splits)
  next
    case (Some vg)
    obtain v g where vg: "vg = (v, g)" by (cases vg)
    have pos: "0 < ?n" using core by (simp add: pipe_core_def)
    from core_notify [OF core, of "ReadyCV ?n"] m
    have n: "pipe_core (stages s) (cond_broadcast (ReadyCV ?n) (threads s)) (Ready MResult) (active s) (sent s) (results s)" by simp
    have "pipe_core ((stages s)[?n := g]) (cond_broadcast (ReadyCV ?n) (threads s)) (Ready MIdle) (active s) (sent s) (results s @ [v])"
      using core_collect [OF n, of v g] Some vg notify_quiet(1) [of "?n - 1" "threads s" "ReadyCV ?n"] pos by simp
    with Collect e m Some vg show ?thesis by (auto simp: Let_def set_stage_def notify_def)
  qed
next
  case (WakeStage i c)
  have "pipe_core (stages s) (spurious i c (threads s)) (main s) (active s) (sent s) (results s)"
    by (rule core_wake [OF core]) (auto simp: spurious_def nth_list_update)
  with WakeStage e show ?thesis by auto
next
  case WakeMain
  have "pipe_core (stages s) (threads s) (case main s of Waiting c p \<Rightarrow> Ready p | t \<Rightarrow> t) (active s) (sent s) (results s)"
    by (rule core_wake [OF core]) (auto split: tstate.splits intro: exI [of _ "case main s of Waiting c p \<Rightarrow> c | _ \<Rightarrow> Avail 0"])
  with WakeMain e show ?thesis by auto
qed

interpretation pipe_flow: invariant_system pipe_init pipe_exec pipe_inv
proof
  show "pipe_inv s" if "pipe_init s" for s using that by (rule pipe_begin_inv)
  show "pipe_inv t" if "pipe_inv s" "pipe_exec s e = Some t" for s e t
    using that pipe_step_inv by (auto simp: pipe_inv_def pipe_exec_def split: if_splits)
qed

section \<open>What the pipeline guarantees\<close>

lemma pipe_reach_core:
  assumes "reach pipe_init pipe_exec s" and "crash s = None"
  shows "pipe_core (stages s) (threads s) (main s) (active s) (sent s) (results s)"
  using pipe_flow.reach_inv [OF assms(1)] assms(2) by (simp add: pipe_inv_def)

text \<open>Every condition variable has at most one waiter, so that a signal wakes whoever waits.\<close>

lemma one_waiter:
  assumes "pipe_core gs ts m a vs rs" and "i < length ts" "j < length ts"
    and "is_waiting c (ts ! i)" "is_waiting c (ts ! j)"
  shows "i = j" and "\<not> is_waiting c m"
proof -
  have "stage_ok k (gs ! k) (gs ! (k + 1)) (ts ! k)" if "k < length ts" for k using assms(1) that by (simp add: pipe_core_def)
  then have "stage_ok i (gs ! i) (gs ! (i + 1)) (ts ! i)" "stage_ok j (gs ! j) (gs ! (j + 1)) (ts ! j)" using assms(2,3) by auto
  with assms(4,5) show "i = j"
    by (cases "(i, gs ! i, gs ! (i + 1), ts ! i)" rule: stage_ok.cases;
        cases "(j, gs ! j, gs ! (j + 1), ts ! j)" rule: stage_ok.cases) auto
  have "main_ok (length ts) gs m" using assms(1) by (simp add: pipe_core_def)
  with \<open>stage_ok i (gs ! i) (gs ! (i + 1)) (ts ! i)\<close> assms(2,4) show "\<not> is_waiting c m"
    by (cases "(i, gs ! i, gs ! (i + 1), ts ! i)" rule: stage_ok.cases;
        cases "(length ts, gs, m)" rule: main_ok.cases) auto
qed

text \<open>C5: the results come out in the order in which the values went in, each of them increased once by
  every stage; what has not come out yet is in the stages.\<close>

theorem pipe_results_in_order:
  assumes "reach pipe_init pipe_exec s" and "crash s = None"
  shows "map (\<lambda>v. v + of_nat (length (threads s))) (sent s) =
         results s @ flow (item (stages s) (threads s)) (length (threads s))"
  using pipe_reach_core [OF assms] by (simp add: pipe_core_def)

lemma stage_moves:
  assumes core: "pipe_core gs ts m a vs rs" and k: "k < length ts" "item gs ts k \<noteq> []"
    and ahead: "\<forall>j. k < j \<and> j \<le> length ts \<longrightarrow> item gs ts j = []" and last: "data_ready (gs ! length ts) = 0"
  shows "ts ! k = Ready PCheck \<or> (\<exists>v. ts ! k = Ready (PSend v) \<and> (Suc k < length ts \<longrightarrow> \<not> holds_mutex (ts ! Suc k))) \<or>
         Suc k < length ts \<and> ts ! Suc k = Ready PAfter"
proof -
  have ok: "stage_ok j (gs ! j) (gs ! (j + 1)) (ts ! j)" if "j < length ts" for j using core that by (simp add: pipe_core_def)
  have dr: "data_ready (gs ! k) = 1" "ts ! k \<noteq> Ready PAfter" using k by (auto simp: item_def split: if_splits)
  have next1: "Suc k < length ts \<Longrightarrow> data_ready (gs ! Suc k) = 1 \<Longrightarrow> ts ! Suc k = Ready PAfter"
    using ahead [rule_format, of "Suc k"] by (auto simp: item_def split: if_splits)
  have next2: "Suc k < length ts \<Longrightarrow> holds_mutex (ts ! Suc k) \<Longrightarrow> data_ready (gs ! Suc k) = 1"
    using ok [of "Suc k"] by (cases "ts ! Suc k" rule: holds_mutex.cases) auto
  have next3: "data_ready (gs ! Suc k) = 1 \<Longrightarrow> Suc k < length ts"
    using k(1) last by (cases "Suc k = length ts") auto
  show ?thesis
  proof (cases "data_ready (gs ! Suc k) = 1")
    case True
    with next1 next3 show ?thesis by blast
  next
    case False
    then have "Suc k < length ts \<longrightarrow> \<not> holds_mutex (ts ! Suc k)" using next2 by blast
    moreover have "ts ! k = Ready PCheck \<or> (\<exists>v. ts ! k = Ready (PSend v))"
      using ok [OF k(1)] dr False
      by (cases "(k, gs ! k, gs ! (k + 1), ts ! k)" rule: stage_ok.cases) simp_all
    ultimately show ?thesis by blast
  qed
qed

text \<open>C21: the pipeline does not stop: when the main thread sleeps waiting for a result, some stage thread
  can make its next step.\<close>

theorem pipe_never_stuck:
  assumes "reach pipe_init pipe_exec s" and "crash s = None"
    and "main s = Waiting (Avail (length (threads s))) MResult"
  shows "\<exists>k < length (threads s). \<exists>e \<in> {Run k, Send k, After k}. pipe_exec s e \<noteq> None"
proof -
  let ?n = "length (threads s)"
  note core = pipe_reach_core [OF assms(1,2)]
  have last: "data_ready (stages s ! ?n) = 0" using core assms(3) by (simp add: pipe_core_def)
  have "length (sent s) = length (results s) + length (flow (item (stages s) (threads s)) ?n)"
    using arg_cong [OF pipe_results_in_order [OF assms(1,2)], of length] by simp
  moreover have "0 \<le> int (length (sent s)) - int (length (results s)) - 1"
    using core assms(3) by (simp add: pipe_core_def)
  ultimately have "flow (item (stages s) (threads s)) ?n \<noteq> []" by auto
  from flow_nonempty [OF this] obtain k where k: "k \<le> ?n" "item (stages s) (threads s) k \<noteq> []"
    "\<forall>j. k < j \<and> j \<le> ?n \<longrightarrow> item (stages s) (threads s) j = []" by blast
  have "k \<noteq> ?n" using k(2) last by (auto simp: item_def)
  with k have kn: "k < ?n" by simp
  have "shaped ?n (stages s)" using core by (simp add: pipe_core_def)
  then have idx: "stageIndex (stages s ! Suc k) \<noteq> 0" using shapedD [of ?n "stages s" "Suc k"] kn by simp
  from stage_moves [OF core kn k(2,3) last] show ?thesis
  proof (elim disjE exE conjE)
    assume "threads s ! k = Ready PCheck"
    then have "pipe_exec s (Run k) \<noteq> None" using kn assms(2) by (simp add: pipe_exec_def)
    then show ?thesis using kn by blast
  next
    fix v assume "threads s ! k = Ready (PSend v)" "Suc k < ?n \<longrightarrow> \<not> holds_mutex (threads s ! Suc k)"
    then have "pipe_exec s (Send k) \<noteq> None"
      using kn assms(2) idx by (auto simp: pipe_exec_def mutex_free_def pipe_send_def Let_def)
    then show ?thesis using kn by blast
  next
    assume "Suc k < ?n" "threads s ! Suc k = Ready PAfter"
    then have "pipe_exec s (After (Suc k)) \<noteq> None" using assms(2) by (simp add: pipe_exec_def)
    then show ?thesis using \<open>Suc k < ?n\<close> by blast
  qed
qed

section \<open>Runs\<close>

declare pipe_step.simps [simp del]

lemmas pipe_eval = pipe_step.simps pipe_begin_def pipe_create_def pipe_exec_def set_stage_def set_thread_def notify_def
  mutex_free_def stage_take_def stage_clear_def result_take_def pipe_enter_def pipe_leave_def pipe_send_def
  queue_number_def cond_broadcast_def Let_def replicate_numeral

definition two_stages :: pipe_sys where
  "two_stages = pipe_begin (\<lambda>_. 0) 2"

lemma two_stages_init: "pipe_init two_stages"
  unfolding pipe_init_def two_stages_def by (intro exI [of _ "\<lambda>_. 0"] exI [of _ 2]) simp

lemma two_stages_reach: "run pipe_exec two_stages es = Some t \<Longrightarrow> reach pipe_init pipe_exec t"
  using two_stages_init by (rule reach_by_run [of pipe_init two_stages])

definition asking_run :: "pipe_event list" where
  "asking_run = [Start 5, MainSend, Result, Collect]"

lemma asking_state:
  "\<exists>s. run pipe_exec two_stages asking_run = Some s \<and> crash s = None \<and>
     main s = Waiting (Avail 2) MResult \<and> length (threads s) = 2"
  by (simp add: asking_run_def two_stages_def pipe_eval)

definition answer_run :: "pipe_event list" where
  "answer_run = asking_run @ [Run 0, Send 0, After 0, Run 1, Send 1, Collect]"

lemma answer_state:
  "\<exists>s. run pipe_exec two_stages answer_run = Some s \<and> crash s = None \<and> length (threads s) = 2 \<and> sent s = [5]"
  by (simp add: answer_run_def asking_run_def two_stages_def pipe_eval)

theorem pipe_results_in_order_witness:
  "\<exists>s. reach pipe_init pipe_exec s \<and> [7] = results s @ flow (item (stages s) (threads s)) 2"
proof -
  obtain s where s: "run pipe_exec two_stages answer_run = Some s" "crash s = None" "length (threads s) = 2" "sent s = [5]"
    using answer_state by blast
  from pipe_results_in_order [OF two_stages_reach [OF s(1)] s(2)] s(3,4) two_stages_reach [OF s(1)] show ?thesis
    by (intro exI [of _ s]) simp
qed

theorem pipe_never_stuck_witness:
  "\<exists>s. main s = Waiting (Avail 2) MResult \<and> (\<exists>k < 2. \<exists>e \<in> {Run k, Send k, After k}. pipe_exec s e \<noteq> None)"
proof -
  obtain s where s: "run pipe_exec two_stages asking_run = Some s" "crash s = None"
    "main s = Waiting (Avail 2) MResult" "length (threads s) = 2" using asking_state by blast
  from pipe_never_stuck [OF two_stages_reach [OF s(1)] s(2)] s(3,4) show ?thesis by (intro exI [of _ s]) auto
qed

text \<open>The array that notes values for a busy first stage overflows: after ten passes of the waiting
  loop the next one stores at a position that was never set.\<close>

theorem pipe_queue_overflows: "\<exists>s. reach pipe_init pipe_exec s \<and> crash s = Some Uninitialised"
proof -
  have "\<exists>s. run pipe_exec two_stages ([Start 1, MainSend, Start 2] @ concat (replicate 10 [MainSend, WakeMain]) @ [MainSend]) = Some s \<and>
      crash s = Some Uninitialised"
    by (simp add: two_stages_def pipe_eval)
  then show ?thesis using two_stages_reach by blast
qed

end
