(* ===== verification/Alarm.thy ===== *)
theory Alarm
  imports Pthread C_String
begin

text \<open>
  The alarm programs: \<open>alarm.c\<close> sleeps in line, \<open>alarm_mutex.c\<close> gives the alarms to a thread through a
  list sorted by expiration time, \<open>alarm_cond.c\<close> adds a condition variable so that the thread can be
  told of an earlier alarm. The insertion through a pointer to the link to be changed is translated on
  the heap (\<open>alarm_insert\<close>) and shown to implement the insertion \<open>ins\<close> into a sorted list; the two
  threaded programs (\<open>am_exec\<close>, \<open>ac_exec\<close>) are then run on lists, with a clock that may advance at any
  moment.
\<close>

section \<open>Commands\<close>

record alarm =
  seconds :: int
  time :: int
  message :: string

fun skip_space :: "string \<Rightarrow> string" where
  "skip_space [] = []"
| "skip_space (c # s) = (if c \<in> {CHR '' '', CHR 0x09, CHR 0x0A} then skip_space s else c # s)"

definition is_digit :: "char \<Rightarrow> bool" where
  "is_digit c \<longleftrightarrow> 48 \<le> (of_char c :: nat) \<and> (of_char c :: nat) \<le> 57"

fun scan_digits :: "nat \<Rightarrow> string \<Rightarrow> nat \<times> string" where
  "scan_digits n [] = (n, [])"
| "scan_digits n (c # s) = (if is_digit c then scan_digits (10 * n + (of_char c - 48)) s else (n, c # s))"

text \<open>\<open>%d\<close>: white space, a sign, at least one digit.\<close>

definition scan_int :: "string \<Rightarrow> (int \<times> string) option" where
  "scan_int s =
     (let s = skip_space s;
          neg = (s \<noteq> [] \<and> hd s = CHR ''-'');
          s = (if s \<noteq> [] \<and> hd s \<in> {CHR ''-'', CHR ''+''} then tl s else s)
      in if s \<noteq> [] \<and> is_digit (hd s)
         then case scan_digits 0 s of (n, r) \<Rightarrow> Some (if neg then - int n else int n, r)
         else None)"

text \<open>
  \<open>sscanf(line, "%d %64[^\n]", ...)\<close>: up to 64 characters and a terminator go to \<open>message\<close>, which
  has 64 bytes. \<open>None\<close> is a bad command.
\<close>

definition scan_command :: "string \<Rightarrow> fault + (int \<times> string) option" where
  "scan_command line =
     (case scan_int line of
        None \<Rightarrow> Inr None
      | Some (n, s) \<Rightarrow>
          let m = take 64 (takeWhile (\<lambda>c. c \<noteq> CHR 0x0A) (skip_space s))
          in if m = [] then Inr None
             else if length m + 1 > 64 then Inl OutOfBounds
             else Inr (Some (n, m)))"

text \<open>The command loop of \<open>alarm.c\<close>: for each line the message is printed after a sleep.\<close>

fun alarm_main :: "string list \<Rightarrow> fault + (int \<times> string) list" where
  "alarm_main [] = Inr []"
| "alarm_main (line # lines) =
     ebind (scan_command line) (\<lambda>r.
       ebind (alarm_main lines) (\<lambda>out.
         Inr (case r of None \<Rightarrow> out | Some (s, m) \<Rightarrow> (s, m) # out)))"

text \<open>The threaded programs skip an empty line before they parse it.\<close>

definition alarm_command :: "string \<Rightarrow> fault + (int \<times> string) option" where
  "alarm_command line = (if length line \<le> 1 then Inr None else scan_command line)"

section \<open>Insertion\<close>

text \<open>\<open>last\<close> points to the list head or to the link of a cell.\<close>

datatype link_ref = Head | LinkOf addr

fun alarm_scan :: "nat \<Rightarrow> alarm heap \<Rightarrow> link_ref \<Rightarrow> ptr \<Rightarrow> int \<Rightarrow> (fault + (link_ref \<times> ptr)) option" where
  "alarm_scan 0 h lastp nxt t = None"
| "alarm_scan (Suc fuel) h lastp nxt t =
     (case nxt of
        None \<Rightarrow> Some (Inr (lastp, None))
      | Some p \<Rightarrow>
          (case deref h (Some p) of
             Inl f \<Rightarrow> Some (Inl f)
           | Inr c \<Rightarrow>
               if time (cell_data c) \<ge> t then Some (Inr (lastp, Some p))
               else alarm_scan fuel h (LinkOf p) (cell_next c) t))"

definition set_link :: "link_ref \<Rightarrow> ptr \<Rightarrow> alarm heap \<times> ptr \<Rightarrow> fault + (alarm heap \<times> ptr)" where
  "set_link lastp v hl =
     (case (lastp, hl) of
        (Head, (h, l)) \<Rightarrow> Inr (h, v)
      | (LinkOf p, (h, l)) \<Rightarrow> ebind (store_next h (Some p) v) (\<lambda>h. Inr (h, l)))"

text \<open>\<open>a\<close> is the new cell; the list starts at \<open>alarm_list\<close>.\<close>

definition alarm_insert :: "nat \<Rightarrow> addr \<Rightarrow> alarm heap \<Rightarrow> ptr \<Rightarrow> (fault + (alarm heap \<times> ptr)) option" where
  "alarm_insert fuel a h alarm_list =
     (case deref h (Some a) of
        Inl f \<Rightarrow> Some (Inl f)
      | Inr c \<Rightarrow>
          (case alarm_scan fuel h Head alarm_list (time (cell_data c)) of
             None \<Rightarrow> None
           | Some (Inl f) \<Rightarrow> Some (Inl f)
           | Some (Inr (lastp, nxt)) \<Rightarrow>
               Some (ebind (store_next h (Some a) nxt) (\<lambda>h. set_link lastp (Some a) (h, alarm_list)))))"

text \<open>What it means: the new alarm goes in front of the first one that is not earlier.\<close>

fun ins :: "alarm \<Rightarrow> alarm list \<Rightarrow> alarm list" where
  "ins x [] = [x]"
| "ins x (y # ys) = (if time y \<ge> time x then x # y # ys else y # ins x ys)"

abbreviation by_time :: "alarm list \<Rightarrow> bool" where
  "by_time xs \<equiv> sorted (map time xs)"

lemma ins_mset [simp]: "mset (ins x xs) = add_mset x (mset xs)"
  by (induction xs) auto

lemma ins_set [simp]: "set (ins x xs) = insert x (set xs)"
  by (induction xs) auto

lemma ins_sorted: "by_time xs \<Longrightarrow> by_time (ins x xs)"
  by (induction xs) auto

text \<open>The scan stops behind the earlier alarms, given fuel for the list.\<close>

lemma alarm_scan_stops:
  assumes "lseg h p as None" and "length as < fuel"
  shows "\<exists>bs cs. as = bs @ cs \<and> lseg h p bs (case cs of [] \<Rightarrow> None | c # _ \<Rightarrow> Some c) \<and>
           alarm_scan fuel h lastp p t =
             Some (Inr (if bs = [] then lastp else LinkOf (List.last bs), case cs of [] \<Rightarrow> None | c # _ \<Rightarrow> Some c)) \<and>
           (\<forall>b \<in> set bs. time (cell_data (the (h b))) < t) \<and>
           (case cs of [] \<Rightarrow> True | c # _ \<Rightarrow> t \<le> time (cell_data (the (h c))))"
  using assms
proof (induction as arbitrary: p fuel lastp)
  case Nil
  then show ?case by (cases fuel) auto
next
  case (Cons a as)
  then obtain c f where c: "p = Some a" "h a = Some c" "lseg h (cell_next c) as None" "fuel = Suc f" "length as < f"
    by (cases fuel) auto
  show ?case
  proof (cases "t \<le> time (cell_data c)")
    case True
    with c show ?thesis by (intro exI [of _ "[]"] exI [of _ "a # as"]) auto
  next
    case False
    from Cons.IH [OF c(3,5), of "LinkOf a"] obtain bs cs where bs: "as = bs @ cs"
      "lseg h (cell_next c) bs (case cs of [] \<Rightarrow> None | c # _ \<Rightarrow> Some c)"
      "alarm_scan f h (LinkOf a) (cell_next c) t =
             Some (Inr (if bs = [] then LinkOf a else LinkOf (List.last bs), case cs of [] \<Rightarrow> None | c # _ \<Rightarrow> Some c))"
      "\<forall>b \<in> set bs. time (cell_data (the (h b))) < t"
      "case cs of [] \<Rightarrow> True | c # _ \<Rightarrow> t \<le> time (cell_data (the (h c)))" by auto
    with False c show ?thesis by (intro exI [of _ "a # bs"] exI [of _ cs]) auto
  qed
qed

lemma ins_split:
  assumes "\<forall>b \<in> set bs. time b < time x" and "case cs of [] \<Rightarrow> True | c # _ \<Rightarrow> time x \<le> time c"
  shows "ins x (bs @ cs) = bs @ x # cs"
  using assms by (induction bs) (auto split: list.splits)

lemma payloads_split:
  assumes "distinct (a # as)" and "h a = Some c"
  shows "payloads (h(a \<mapsto> c\<lparr>cell_next := n\<rparr>)) as = payloads h as"
  using assms by (simp add: heap_simps)

text \<open>Linking the new cell between two parts of the list.\<close>

lemma link_between:
  assumes seg: "lseg h p (bs @ cs) None" "lseg h p bs nxt" and n: "nxt = (case cs of [] \<Rightarrow> None | c # _ \<Rightarrow> Some c)"
    and d: "distinct (a # bs @ cs)" and a: "h a = Some ca"
  shows "\<exists>h' p'. set_link (if bs = [] then Head else LinkOf (List.last bs)) (Some a) (h(a \<mapsto> ca\<lparr>cell_next := nxt\<rparr>), p) = Inr (h', p') \<and>
           lseg h' p' (bs @ a # cs) None \<and> payloads h' (bs @ a # cs) = payloads h bs @ cell_data ca # payloads h cs"
proof -
  let ?h = "h(a \<mapsto> ca\<lparr>cell_next := nxt\<rparr>)"
  have cs: "lseg h nxt cs None"
  proof -
    from seg(1) obtain r where r: "lseg h p bs r" "lseg h r cs None" by (auto simp: heap_simps)
    then show ?thesis using n by (cases cs) auto
  qed
  have cs': "lseg ?h nxt cs None" using cs d by (simp add: heap_simps)
  show ?thesis
  proof (cases bs rule: rev_cases)
    case Nil
    with cs' a d show ?thesis by (auto simp: set_link_def heap_simps)
  next
    case (snoc bs' b)
    with seg(2) obtain cb where cb: "lseg h p bs' (Some b)" "h b = Some cb" by (auto simp: heap_simps)
    have ne: "b \<noteq> a" "b \<notin> set bs'" "a \<notin> set bs'" "b \<notin> set cs" "a \<notin> set cs" using d snoc by auto
    let ?h' = "?h(b \<mapsto> cb\<lparr>cell_next := Some a\<rparr>)"
    have "set_link (LinkOf b) (Some a) (?h, p) = Inr (?h', p)" using cb ne by (simp add: set_link_def)
    moreover have "lseg ?h' p (bs' @ b # a # cs) None"
      using cb ne cs' by (auto simp: heap_simps)
    moreover have "payloads ?h' (bs' @ b # a # cs) = payloads h bs' @ cell_data cb # cell_data ca # payloads h cs"
      using ne cb a by (simp add: heap_simps)
    ultimately show ?thesis using snoc cb by auto
  qed
qed

text \<open>The insertion through a pointer to the link to be changed puts the new alarm in its place: with
  enough fuel for the list it returns, follows no bad pointer, and the list it leaves is the sorted list
  with the new alarm added.\<close>

theorem alarm_insert_sorted:
  assumes "lseg h p as None" and "distinct (a # as)" and "h a = Some c" and "by_time (payloads h as)"
    and "length as < fuel"
  shows "\<exists>h' p' as'. alarm_insert fuel a h p = Some (Inr (h', p')) \<and> lseg h' p' as' None \<and> distinct as' \<and>
           payloads h' as' = ins (cell_data c) (payloads h as) \<and> by_time (payloads h' as') \<and>
           mset (payloads h' as') = add_mset (cell_data c) (mset (payloads h as))"
proof -
  let ?x = "cell_data c"
  from alarm_scan_stops [OF assms(1,5), of Head "time ?x"] obtain bs cs where bs: "as = bs @ cs"
    "lseg h p bs (case cs of [] \<Rightarrow> None | c # _ \<Rightarrow> Some c)"
    "alarm_scan fuel h Head p (time ?x) =
       Some (Inr (if bs = [] then Head else LinkOf (List.last bs), case cs of [] \<Rightarrow> None | c # _ \<Rightarrow> Some c))"
    "\<forall>b \<in> set bs. time (cell_data (the (h b))) < time ?x"
    "case cs of [] \<Rightarrow> True | c # _ \<Rightarrow> time ?x \<le> time (cell_data (the (h c)))" by blast
  have d: "distinct (a # bs @ cs)" using assms(2) bs(1) by simp
  from link_between [OF assms(1) [unfolded bs(1)] bs(2) refl d assms(3)] obtain h' p' where
    l: "set_link (if bs = [] then Head else LinkOf (List.last bs)) (Some a)
          (h(a \<mapsto> c\<lparr>cell_next := (case cs of [] \<Rightarrow> None | c # _ \<Rightarrow> Some c)\<rparr>), p) = Inr (h', p')"
       "lseg h' p' (bs @ a # cs) None" "payloads h' (bs @ a # cs) = payloads h bs @ ?x # payloads h cs" by blast
  have "ins ?x (payloads h as) = payloads h bs @ ?x # payloads h cs"
    unfolding bs(1) payloads_simps(3)
    by (rule ins_split) (use bs(4,5) in \<open>auto simp: payloads_def split: list.splits\<close>)
  with l have "payloads h' (bs @ a # cs) = ins ?x (payloads h as)" by simp
  moreover have "alarm_insert fuel a h p = Some (Inr (h', p'))"
    using assms(3) bs(3) l(1) by (simp add: alarm_insert_def)
  moreover have "distinct (bs @ a # cs)" using d by auto
  ultimately show ?thesis using l(2) ins_sorted [OF assms(4), of ?x] by (intro exI [of _ h'] exI [of _ p'] exI [of _ "bs @ a # cs"]) auto
qed

theorem alarm_insert_sorted_witness:
  "\<exists>h' p' as'. alarm_insert 2 2 [1 \<mapsto> \<lparr>cell_next = None, cell_data = \<lparr>seconds = 5, time = 15, message = ''a''\<rparr>\<rparr>,
       2 \<mapsto> \<lparr>cell_next = None, cell_data = \<lparr>seconds = 1, time = 11, message = ''b''\<rparr>\<rparr>] (Some 1) = Some (Inr (h', p')) \<and>
     map time (payloads h' as') = [11, 15]"
proof -
  let ?h = "[1 \<mapsto> \<lparr>cell_next = None, cell_data = \<lparr>seconds = 5, time = 15, message = ''a''\<rparr>\<rparr>,
       2 \<mapsto> \<lparr>cell_next = None, cell_data = \<lparr>seconds = 1, time = 11, message = ''b''\<rparr>\<rparr>]"
  have "lseg ?h (Some 1) [1] None" "distinct [2 :: addr, 1]" "by_time (payloads ?h [1])" by auto
  from alarm_insert_sorted [OF this(1,2) _ this(3), of _ 2] obtain h' p' as' where
    "alarm_insert 2 2 ?h (Some 1) = Some (Inr (h', p'))"
    "payloads h' as' = [\<lparr>seconds = 1, time = 11, message = ''b''\<rparr>, \<lparr>seconds = 5, time = 15, message = ''a''\<rparr>]" by auto
  then show ?thesis by (intro exI [of _ h'] exI [of _ p'] exI [of _ as']) simp
qed


section \<open>The mutex version\<close>

text \<open>
  The thread of \<open>alarm_mutex.c\<close>: with the mutex it takes the first alarm and computes how long to sleep;
  then it sleeps and prints. \<open>AmSleep\<close> carries the alarm in hand (if any) and the time it wakes up.
\<close>

datatype am_pc = AmTop | AmSleep "alarm option" int

record am_sys =
  am_list :: "alarm list"
  am_pc :: am_pc
  am_now :: int
  am_given :: "alarm list"
  am_fired :: "(alarm \<times> int) list"

definition alarm_thread_take :: "int \<Rightarrow> alarm list \<Rightarrow> alarm list \<times> alarm option \<times> int" where
  "alarm_thread_take now alarm_list =
     (case alarm_list of
        [] \<Rightarrow> ([], None, 1)
      | a # rest \<Rightarrow> (rest, Some a, if time a \<le> now then 0 else time a - now))"

datatype am_event = AmTick nat | AmLine string | AmTake | AmWake

fun am_exec :: "am_sys \<Rightarrow> am_event \<Rightarrow> am_sys option" where
  "am_exec s (AmTick d) = Some (s\<lparr>am_now := am_now s + int d\<rparr>)"
| "am_exec s (AmLine line) =
     (case alarm_command line of
        Inl _ \<Rightarrow> None
      | Inr None \<Rightarrow> Some s
      | Inr (Some (secs, msg)) \<Rightarrow>
          let a = \<lparr>seconds = secs, time = am_now s + secs, message = msg\<rparr>
          in Some (s\<lparr>am_list := ins a (am_list s), am_given := am_given s @ [a]\<rparr>))"
| "am_exec s AmTake =
     (if am_pc s = AmTop then
        case alarm_thread_take (am_now s) (am_list s) of (rest, a, sleep_time) \<Rightarrow>
          Some (s\<lparr>am_list := rest, am_pc := AmSleep a (am_now s + sleep_time)\<rparr>)
      else None)"
| "am_exec s AmWake =
     (case am_pc s of
        AmTop \<Rightarrow> None
      | AmSleep a t \<Rightarrow>
          if am_now s < t then None
          else Some (s\<lparr>am_pc := AmTop, am_fired := (case a of None \<Rightarrow> am_fired s | Some x \<Rightarrow> am_fired s @ [(x, am_now s)])\<rparr>))"

definition am_init :: "am_sys \<Rightarrow> bool" where
  "am_init s \<longleftrightarrow> am_list s = [] \<and> am_pc s = AmTop \<and> am_given s = [] \<and> am_fired s = []"

fun am_held :: "am_pc \<Rightarrow> alarm multiset" where
  "am_held (AmSleep (Some a) t) = {#a#}"
| "am_held _ = {#}"

definition am_inv :: "am_sys \<Rightarrow> bool" where
  "am_inv s \<longleftrightarrow> by_time (am_list s) \<and>
     mset (am_given s) = mset (map fst (am_fired s)) + mset (am_list s) + am_held (am_pc s) \<and>
     (\<forall>(a, t) \<in> set (am_fired s). time a \<le> t) \<and>
     (case am_pc s of AmSleep (Some a) t \<Rightarrow> time a \<le> t | _ \<Rightarrow> True)"

lemma am_exec_inv: "am_inv s \<Longrightarrow> am_exec s e = Some t \<Longrightarrow> am_inv t"
proof (cases e)
  case (AmLine line)
  assume "am_inv s" "am_exec s e = Some t"
  with AmLine show ?thesis by (auto simp: am_inv_def Let_def ins_sorted split: sum.splits option.splits am_pc.splits)
next
  case AmWake
  assume "am_inv s" "am_exec s e = Some t"
  with AmWake show ?thesis by (auto simp: am_inv_def split: am_pc.splits if_splits option.splits)
qed (auto simp: am_inv_def alarm_thread_take_def split: if_splits list.splits)

lemma scan_examples:
  "alarm_command ''2 m'' = Inr (Some (2, ''m''))" "alarm_command ''5 n'' = Inr (Some (5, ''n''))"
  by code_simp+

interpretation alarm_mutex: invariant_system am_init am_exec am_inv
  by unfold_locales (simp add: am_init_def am_inv_def, rule am_exec_inv)

text \<open>The thread of \<open>alarm_mutex.c\<close> loses no alarm and fires none early, whatever the clock does and
  whenever commands arrive; the list stays sorted.\<close>

theorem alarm_mutex_safe:
  assumes "reach am_init am_exec s"
  shows "mset (am_given s) = mset (map fst (am_fired s)) + mset (am_list s) + am_held (am_pc s) \<and>
         (\<forall>(a, t) \<in> set (am_fired s). time a \<le> t) \<and> by_time (am_list s)"
  using alarm_mutex.reach_inv [OF assms] by (simp add: am_inv_def)

definition am_start :: am_sys where
  "am_start = \<lparr>am_list = [], am_pc = AmTop, am_now = 10, am_given = [], am_fired = []\<rparr>"

lemma am_start_reach: "run am_exec am_start es = Some t \<Longrightarrow> reach am_init am_exec t"
  by (rule reach_by_run [of am_init am_start]) (auto simp: am_init_def am_start_def)

theorem alarm_mutex_safe_witness:
  "\<exists>s :: am_sys. am_fired s = [(\<lparr>seconds = 2, time = 12, message = ''m''\<rparr>, 12)] \<and> (\<forall>(a, t) \<in> set (am_fired s). time a \<le> t)"
proof -
  have "\<exists>t. run am_exec am_start [AmLine ''2 m'', AmTake, AmTick 2, AmWake] = Some t \<and>
      am_fired t = [(\<lparr>seconds = 2, time = 12, message = ''m''\<rparr>, 12)]"
    by (simp add: am_start_def alarm_thread_take_def Let_def scan_examples)
  then obtain t where t: "reach am_init am_exec t" "am_fired t = [(\<lparr>seconds = 2, time = 12, message = ''m''\<rparr>, 12)]"
    using am_start_reach by blast
  from alarm_mutex_safe [OF t(1)] t(2) show ?thesis by blast
qed

section \<open>The condition variable version\<close>

text \<open>
  The thread of \<open>alarm_cond.c\<close> holds the mutex at \<open>AcTop\<close> and gives it up in its two waits; \<open>AcStart\<close> is
  before the first lock. \<open>current_alarm = 0\<close> means that the thread is not busy, so the properties are about
  alarms after the epoch (\<open>ac_positive\<close>). The flag of \<open>AcTimed\<close> says that the timed wait has returned \<open>ETIMEDOUT\<close>.
\<close>

datatype ac_pc = AcStart | AcTop | AcEmpty | AcTimed alarm bool

record ac_sys =
  ac_list :: "alarm list"
  current_alarm :: int
  ac_thr :: "(unit, ac_pc) tstate"
  ac_now :: int
  ac_given :: "alarm list"
  ac_fired :: "(alarm \<times> int) list"

text \<open>The end of \<open>alarm_insert\<close>: wake the thread for an alarm earlier than the one it waits for.\<close>

definition ac_insert :: "alarm \<Rightarrow> ac_sys \<Rightarrow> ac_sys" where
  "ac_insert a s =
     (let s = s\<lparr>ac_list := ins a (ac_list s)\<rparr>
      in if current_alarm s = 0 \<or> time a < current_alarm s
         then s\<lparr>current_alarm := time a, ac_thr := wake () (ac_thr s)\<rparr> else s)"

definition ac_fire :: "alarm \<Rightarrow> ac_sys \<Rightarrow> ac_sys" where
  "ac_fire a s = s\<lparr>ac_fired := ac_fired s @ [(a, ac_now s)], ac_thr := Ready AcTop\<rparr>"

text \<open>From the test for an empty list to the timed wait or the expiry of the first alarm.\<close>

definition ac_take :: "ac_sys \<Rightarrow> ac_sys" where
  "ac_take s =
     (case ac_list s of
        [] \<Rightarrow> s\<lparr>ac_thr := Waiting () AcEmpty\<rparr>
      | a # rest \<Rightarrow>
          let s = s\<lparr>ac_list := rest\<rparr>
          in if time a > ac_now s then s\<lparr>current_alarm := time a, ac_thr := Waiting () (AcTimed a False)\<rparr>
             else ac_fire a s)"

definition ac_resume :: "alarm \<Rightarrow> bool \<Rightarrow> ac_sys \<Rightarrow> ac_sys" where
  "ac_resume a timedout s =
     (if timedout then ac_fire a s
      else if current_alarm s = time a then s\<lparr>ac_thr := Waiting () (AcTimed a False)\<rparr>
      else ac_insert a (s\<lparr>ac_thr := Ready AcTop\<rparr>))"

datatype ac_event = AcTick nat | AcLine string | AcStep | AcTimeout | AcSpurious

fun ac_exec :: "ac_sys \<Rightarrow> ac_event \<Rightarrow> ac_sys option" where
  "ac_exec s (AcTick d) = Some (s\<lparr>ac_now := ac_now s + int d\<rparr>)"
| "ac_exec s (AcLine line) =
     (case alarm_command line of
        Inl _ \<Rightarrow> None
      | Inr None \<Rightarrow> Some s
      | Inr (Some (secs, msg)) \<Rightarrow>
          if ac_thr s = Ready AcTop then None
          else let a = \<lparr>seconds = secs, time = ac_now s + secs, message = msg\<rparr>
               in Some (ac_insert a (s\<lparr>ac_given := ac_given s @ [a]\<rparr>)))"
| "ac_exec s AcStep =
     (case ac_thr s of
        Ready AcStart \<Rightarrow> Some (ac_take (s\<lparr>current_alarm := 0\<rparr>))
      | Ready AcTop \<Rightarrow> Some (ac_take (s\<lparr>current_alarm := 0\<rparr>))
      | Ready AcEmpty \<Rightarrow> Some (ac_take s)
      | Ready (AcTimed a timedout) \<Rightarrow> Some (ac_resume a timedout s)
      | _ \<Rightarrow> None)"
| "ac_exec s AcTimeout =
     (case ac_thr s of
        Waiting _ (AcTimed a _) \<Rightarrow> if time a \<le> ac_now s then Some (s\<lparr>ac_thr := Ready (AcTimed a True)\<rparr>) else None
      | _ \<Rightarrow> None)"
| "ac_exec s AcSpurious = Some (s\<lparr>ac_thr := wake () (ac_thr s)\<rparr>)"

definition ac_init :: "ac_sys \<Rightarrow> bool" where
  "ac_init s \<longleftrightarrow> ac_list s = [] \<and> current_alarm s = 0 \<and> ac_thr s = Ready AcStart \<and> 0 \<le> ac_now s \<and>
     ac_given s = [] \<and> ac_fired s = []"

fun ac_held :: "(unit, ac_pc) tstate \<Rightarrow> alarm multiset" where
  "ac_held (Ready (AcTimed a b)) = {#a#}"
| "ac_held (Waiting c (AcTimed a b)) = {#a#}"
| "ac_held _ = {#}"

text \<open>Asleep, the thread waits for the earliest alarm there is; awake, it may have been told of an earlier one.\<close>

fun ac_thr_ok :: "alarm list \<Rightarrow> int \<Rightarrow> int \<Rightarrow> (unit, ac_pc) tstate \<Rightarrow> bool" where
  "ac_thr_ok xs cur now (Waiting _ AcEmpty) = (xs = [] \<and> cur = 0)"
| "ac_thr_ok xs cur now (Ready AcEmpty) = (xs = [] \<longrightarrow> cur = 0)"
| "ac_thr_ok xs cur now (Waiting _ (AcTimed a b)) = (\<not> b \<and> 0 < time a \<and> cur = time a \<and> (\<forall>x \<in> set xs. time a \<le> time x))"
| "ac_thr_ok xs cur now (Ready (AcTimed a b)) =
     ((b \<longrightarrow> time a \<le> now) \<and> 0 < cur \<and> (cur = time a \<and> (\<forall>x \<in> set xs. time a \<le> time x) \<or> cur < time a))"
| "ac_thr_ok xs cur now (Ready _) = True"
| "ac_thr_ok xs cur now _ = False"

definition ac_inv :: "ac_sys \<Rightarrow> bool" where
  "ac_inv s \<longleftrightarrow> by_time (ac_list s) \<and> 0 \<le> ac_now s \<and>
     mset (ac_given s) = mset (map fst (ac_fired s)) + mset (ac_list s) + ac_held (ac_thr s) \<and>
     (\<forall>(a, t) \<in> set (ac_fired s). time a \<le> t) \<and>
     ac_thr_ok (ac_list s) (current_alarm s) (ac_now s) (ac_thr s)"

definition ac_positive :: "ac_sys \<Rightarrow> bool" where
  "ac_positive s \<longleftrightarrow> (\<forall>a \<in> set (ac_given s). 0 < time a)"

lemma ac_take_inv:
  assumes "by_time (ac_list s)" "0 \<le> ac_now s" "\<forall>(a, t) \<in> set (ac_fired s). time a \<le> t"
    "mset (ac_given s) = mset (map fst (ac_fired s)) + mset (ac_list s)" "ac_list s = [] \<longrightarrow> current_alarm s = 0"
  shows "ac_inv (ac_take s)"
  using assms by (auto simp: ac_inv_def ac_take_def ac_fire_def Let_def split: list.splits)

lemma ins_nonempty [simp]: "ins x xs \<noteq> []"
  by (cases xs) auto

lemma ac_insert_ok:
  assumes "0 < time a" and "ac_thr_ok (ac_list s) (current_alarm s) (ac_now s) (ac_thr s)"
  shows "ac_thr_ok (ac_list (ac_insert a s)) (current_alarm (ac_insert a s)) (ac_now (ac_insert a s)) (ac_thr (ac_insert a s))"
  using assms
  by (cases "(ac_list s, current_alarm s, ac_now s, ac_thr s)" rule: ac_thr_ok.cases) (auto simp: ac_insert_def Let_def)

lemma ac_insert_inv:
  assumes "ac_inv s" and "0 < time a"
  shows "ac_inv (ac_insert a (s\<lparr>ac_given := ac_given s @ [a]\<rparr>))"
proof -
  let ?s = "s\<lparr>ac_given := ac_given s @ [a]\<rparr>"
  have "ac_thr_ok (ac_list (ac_insert a ?s)) (current_alarm (ac_insert a ?s)) (ac_now (ac_insert a ?s)) (ac_thr (ac_insert a ?s))"
    by (rule ac_insert_ok) (use assms in \<open>simp_all add: ac_inv_def\<close>)
  moreover have "ac_held (wake () t) = ac_held t" for t by (cases t rule: ac_held.cases) auto
  ultimately show ?thesis using assms by (auto simp: ac_inv_def ac_insert_def Let_def ins_sorted)
qed

lemma ac_exec_inv: "ac_inv s \<Longrightarrow> ac_exec s e = Some t \<Longrightarrow> ac_positive t \<Longrightarrow> ac_inv t"
proof (cases e)
  case (AcTick d)
  assume "ac_inv s" "ac_exec s e = Some t"
  with AcTick show ?thesis
    by (cases "(ac_list s, current_alarm s, ac_now s, ac_thr s)" rule: ac_thr_ok.cases) (auto simp: ac_inv_def)
next
  case (AcLine line)
  assume inv: "ac_inv s" and e: "ac_exec s e = Some t" and pos: "ac_positive t"
  from e AcLine consider "t = s" | a where "t = ac_insert a (s\<lparr>ac_given := ac_given s @ [a]\<rparr>)"
    by (auto simp: Let_def split: sum.splits option.splits if_splits)
  then show ?thesis
  proof cases
    case (2 a)
    then have "ac_given t = ac_given s @ [a]" by (simp add: ac_insert_def Let_def)
    with pos have "0 < time a" by (simp add: ac_positive_def)
    from ac_insert_inv [OF inv this] show ?thesis by (simp add: 2)
  qed (simp add: inv)
next
  case AcStep
  assume inv: "ac_inv s" and e: "ac_exec s e = Some t"
  consider "ac_thr s = Ready AcStart" | "ac_thr s = Ready AcTop" | "ac_thr s = Ready AcEmpty"
    | a b where "ac_thr s = Ready (AcTimed a b)"
    using e AcStep by (auto split: tstate.splits ac_pc.splits)
  then show ?thesis
  proof cases
    case (4 a b)
    with AcStep e inv show ?thesis
      by (auto simp: ac_inv_def ac_resume_def ac_fire_def ac_insert_def Let_def ins_sorted split: if_splits)
  next
    case 3
    with AcStep e inv ac_take_inv [of s] show ?thesis by (simp add: ac_inv_def [of s])
  qed (use AcStep e inv ac_take_inv [of "s\<lparr>current_alarm := 0\<rparr>"] in \<open>simp_all add: ac_inv_def [of s]\<close>)
next
  case AcTimeout
  assume "ac_inv s" "ac_exec s e = Some t"
  with AcTimeout show ?thesis by (auto simp: ac_inv_def split: tstate.splits ac_pc.splits if_splits)
next
  case AcSpurious
  assume "ac_inv s" "ac_exec s e = Some t"
  with AcSpurious show ?thesis
    by (cases "(ac_list s, current_alarm s, ac_now s, ac_thr s)" rule: ac_thr_ok.cases) (auto simp: ac_inv_def)
qed

lemma ac_given_grows: "ac_exec s e = Some t \<Longrightarrow> set (ac_given s) \<subseteq> set (ac_given t)"
  by (cases e)
    (auto simp: ac_take_def ac_fire_def ac_insert_def ac_resume_def Let_def
       split: tstate.splits ac_pc.splits if_splits list.splits sum.splits option.splits)

interpretation alarm_cond: invariant_system ac_init ac_exec "\<lambda>s. ac_positive s \<longrightarrow> ac_inv s"
proof
  fix s e t
  assume "ac_positive s \<longrightarrow> ac_inv s" "ac_exec s e = Some t"
  then show "ac_positive t \<longrightarrow> ac_inv t"
    using ac_given_grows [of s e t] ac_exec_inv [of s e t] unfolding ac_positive_def by blast
qed (simp add: ac_init_def ac_inv_def)


text \<open>C15: the thread of \<open>alarm_cond.c\<close> loses no alarm and fires none early, when all alarms are for moments
  after the epoch.\<close>

theorem alarm_cond_safe:
  assumes "reach ac_init ac_exec s" and "ac_positive s"
  shows "mset (ac_given s) = mset (map fst (ac_fired s)) + mset (ac_list s) + ac_held (ac_thr s) \<and>
         (\<forall>(a, t) \<in> set (ac_fired s). time a \<le> t)"
  using alarm_cond.reach_inv [OF assms(1)] assms(2) by (simp add: ac_inv_def)

text \<open>C14: it never oversleeps: when the thread is asleep in its timed wait, it waits for the earliest alarm
  there is, and when it is asleep without a timeout, there is none.\<close>

theorem alarm_cond_earliest:
  assumes "reach ac_init ac_exec s" and "ac_positive s"
  shows "(\<forall>c a b. ac_thr s = Waiting c (AcTimed a b) \<longrightarrow> current_alarm s = time a \<and> (\<forall>x \<in> set (ac_list s). time a \<le> time x)) \<and>
         (\<forall>c. ac_thr s = Waiting c AcEmpty \<longrightarrow> ac_list s = [])"
  using alarm_cond.reach_inv [OF assms(1)] assms(2) by (auto simp: ac_inv_def)

definition ac_start :: ac_sys where
  "ac_start = \<lparr>ac_list = [], current_alarm = 0, ac_thr = Ready AcStart, ac_now = 10, ac_given = [], ac_fired = []\<rparr>"

lemma ac_start_reach: "run ac_exec ac_start es = Some t \<Longrightarrow> reach ac_init ac_exec t"
  by (rule reach_by_run [of ac_init ac_start]) (auto simp: ac_init_def ac_start_def)

lemmas ac_eval = scan_examples ac_positive_def ac_start_def ac_take_def ac_fire_def ac_insert_def ac_resume_def Let_def

theorem alarm_cond_safe_witness:
  "\<exists>s :: ac_sys. ac_fired s = [(\<lparr>seconds = 2, time = 12, message = ''m''\<rparr>, 12)] \<and> (\<forall>(a, t) \<in> set (ac_fired s). time a \<le> t)"
proof -
  have "\<exists>t. run ac_exec ac_start [AcStep, AcLine ''5 n'', AcStep, AcLine ''2 m'', AcStep, AcStep, AcTick 2, AcTimeout, AcStep] = Some t \<and>
      ac_fired t = [(\<lparr>seconds = 2, time = 12, message = ''m''\<rparr>, 12)] \<and> ac_positive t"
    by (simp add: ac_eval)
  then obtain t where t: "reach ac_init ac_exec t" "ac_fired t = [(\<lparr>seconds = 2, time = 12, message = ''m''\<rparr>, 12)]" "ac_positive t"
    using ac_start_reach by blast
  from alarm_cond_safe [OF t(1,3)] t(2) show ?thesis by blast
qed

theorem alarm_cond_earliest_witness:
  "\<exists>(s :: ac_sys) a. ac_thr s = Waiting () (AcTimed a False) \<and> (\<forall>x \<in> set (ac_list s). time a \<le> time x)"
proof -
  have "\<exists>t a. run ac_exec ac_start [AcStep, AcLine ''5 n'', AcStep, AcLine ''2 m'', AcStep, AcStep] = Some t \<and>
      ac_thr t = Waiting () (AcTimed a False) \<and> ac_positive t"
    by (simp add: ac_eval)
  then obtain t a where t: "reach ac_init ac_exec t" "ac_thr t = Waiting () (AcTimed a False)" "ac_positive t"
    using ac_start_reach by blast
  from alarm_cond_earliest [OF t(1,3)] t(2) show ?thesis by blast
qed

text \<open>A message of 64 characters or more overflows the buffer by the terminator.\<close>

lemma scan_command_overflow:
  assumes "scan_int line = Some (n, s)" and "64 \<le> length (takeWhile (\<lambda>c. c \<noteq> CHR 0x0A) (skip_space s))"
  shows "scan_command line = Inl OutOfBounds"
  using assms by (auto simp: scan_command_def Let_def)

end
