(* ===== verification/Susp.thy ===== *)
theory Susp
  imports C_String
begin

text \<open>
  The suspend package of \<open>susp.c\<close>: \<open>thd_suspend\<close> stops a thread with \<open>SIGUSR1\<close>, \<open>thd_continue\<close> lets it go
  with \<open>SIGUSR2\<close>, and an array of the suspended threads is to make both idempotent. A thread handle is a
  number, \<open>0\<close> the null handle. The calls are serialised by the mutex, so each is one step; the signal
  handlers are part of the step that sends the signal.
\<close>

section \<open>State\<close>

text \<open>
  \<open>array\<close> is \<open>None\<close> for a null pointer. The threads: those that exist, those that sit in \<open>sigsuspend\<close>,
  and those among them for which a \<open>SIGUSR1\<close> is pending (it is blocked there).
\<close>

record susp =
  inited :: bool
  array :: "nat list option"
  bottom :: nat
  sentinel :: nat
  live :: "nat list"
  suspended :: "nat list"
  pending :: "nat list"

definition susp_fresh :: "nat list \<Rightarrow> susp" where
  "susp_fresh ts = \<lparr>inited = False, array = None, bottom = 0, sentinel = 0, live = ts, suspended = [], pending = []\<rparr>"

definition ESRCH :: int where "ESRCH = 3"

text \<open>Run through \<open>pthread_once\<close>.\<close>

definition suspend_init_routine :: "susp \<Rightarrow> susp" where
  "suspend_init_routine s = s\<lparr>bottom := 10, array := Some (replicate 10 0), inited := True\<rparr>"

definition suspend_once :: "susp \<Rightarrow> susp" where
  "suspend_once s = (if inited s then s else suspend_init_routine s)"

text \<open>\<open>pthread_kill\<close> with \<open>SIGUSR1\<close>: the handler announces itself and sleeps. In a suspended thread the signal stays pending.\<close>

definition suspend_signal_handler :: "nat \<Rightarrow> susp \<Rightarrow> susp" where
  "suspend_signal_handler t s =
     (if t \<in> set (suspended s) then s\<lparr>pending := t # pending s\<rparr>
      else s\<lparr>sentinel := 1, suspended := suspended s @ [t]\<rparr>)"

text \<open>\<open>SIGUSR2\<close>: \<open>sigsuspend\<close> returns; a pending \<open>SIGUSR1\<close> runs the handler again.\<close>

definition resume_signal_handler :: "nat \<Rightarrow> susp \<Rightarrow> susp" where
  "resume_signal_handler t s =
     (if t \<notin> set (suspended s) then s
      else let s = s\<lparr>suspended := removeAll t (suspended s)\<rparr>
           in if t \<in> set (pending s) then suspend_signal_handler t (s\<lparr>pending := removeAll t (pending s)\<rparr>) else s)"

section \<open>Operations\<close>

definition array_at :: "nat list option \<Rightarrow> nat \<Rightarrow> fault + nat" where
  "array_at a i = (case a of None \<Rightarrow> Inl NullDeref | Some xs \<Rightarrow> if i < length xs then Inr (xs ! i) else Inl OutOfBounds)"

definition array_put :: "nat list option \<Rightarrow> nat \<Rightarrow> nat \<Rightarrow> fault + nat list option" where
  "array_put a i v = ebind (array_at a i) (\<lambda>_. Inr (map_option (\<lambda>xs. xs[i := v]) a))"

text \<open>The three loops over the array: stop at \<open>bottom\<close> or at the first entry with \<open>stop\<close>.\<close>

function scan_array :: "(nat \<Rightarrow> bool) \<Rightarrow> nat \<Rightarrow> nat list option \<Rightarrow> nat \<Rightarrow> fault + nat" where
  "scan_array stop b a i =
     (if i < b then ebind (array_at a i) (\<lambda>x. if stop x then Inr i else scan_array stop b a (i + 1)) else Inr i)"
  by pat_completeness auto
termination
  by (relation "measure (\<lambda>(stop, b, a, i). b - i)") auto

declare scan_array.simps [simp del]

text \<open>\<open>Spins\<close>: the call never returns, and never gives up the mutex.\<close>

datatype susp_result = Returns int | Spins

text \<open>\<open>realloc_ok\<close> says whether \<open>realloc\<close> would succeed.\<close>

definition thd_suspend_signal :: "nat \<Rightarrow> nat \<Rightarrow> susp \<Rightarrow> fault + (susp_result \<times> susp)" where
  "thd_suspend_signal target i s =
     (let s = s\<lparr>sentinel := 0\<rparr>
      in if target \<notin> set (live s) then Inr (Returns ESRCH, s)
         else let s = suspend_signal_handler target s
              in if sentinel s = 0 then Inr (Spins, s)
                 else ebind (array_put (array s) i target) (\<lambda>a. Inr (Returns 0, s\<lparr>array := a\<rparr>)))"

definition thd_suspend :: "bool \<Rightarrow> nat \<Rightarrow> susp \<Rightarrow> fault + (susp_result \<times> susp)" where
  "thd_suspend realloc_ok target s =
     (let s = suspend_once s
      in ebind (scan_array (\<lambda>x. x = target) (bottom s) (array s) 0) (\<lambda>i.
           if i < bottom s then Inr (Returns 0, s)
           else ebind (scan_array (\<lambda>x. x = 0) (bottom s) (array s) 0) (\<lambda>i.
             if i = bottom s then
               let s = s\<lparr>bottom := bottom s + 1\<rparr>
               in if \<not> realloc_ok then Inr (Returns ENOMEM, s\<lparr>array := None\<rparr>)
                  else let s = s\<lparr>array := map_option (\<lambda>xs. xs @ [0]) (array s)\<rparr>
                       in ebind (array_put (array s) (bottom s) 0) (\<lambda>a. thd_suspend_signal target i (s\<lparr>array := a\<rparr>))
             else thd_suspend_signal target i s)))"

definition thd_continue :: "nat \<Rightarrow> susp \<Rightarrow> fault + (susp_result \<times> susp)" where
  "thd_continue target s =
     (let s = suspend_once s
      in ebind (scan_array (\<lambda>x. x \<noteq> target) (bottom s) (array s) 0) (\<lambda>i.
           if i = bottom s then Inr (Returns 0, s)
           else if target \<notin> set (live s) then Inr (Returns ESRCH, s)
           else let s = resume_signal_handler target s
                in ebind (array_put (array s) i 0) (\<lambda>a. Inr (Returns 0, s\<lparr>array := a\<rparr>))))"

text \<open>A program of calls; it stops at the first one that does not return \<open>0\<close>.\<close>

datatype susp_op = Suspend nat | Continue nat

fun susp_do :: "susp \<Rightarrow> susp_op \<Rightarrow> fault + (susp_result \<times> susp)" where
  "susp_do s (Suspend t) = thd_suspend True t s"
| "susp_do s (Continue t) = thd_continue t s"

fun susp_run :: "susp \<Rightarrow> susp_op list \<Rightarrow> fault + (susp_result \<times> susp)" where
  "susp_run s [] = Inr (Returns 0, s)"
| "susp_run s (c # cs) =
     ebind (susp_do s c) (\<lambda>(r, s). if r = Returns 0 then susp_run s cs else Inr (r, s))"

text \<open>The calls of \<open>main\<close>, for the one thread it has created.\<close>

definition susp_main :: "nat \<Rightarrow> fault + (susp_result \<times> susp)" where
  "susp_main t = susp_run (susp_fresh [t]) [Suspend t, Continue t]"

text \<open>The progress reports of a thread: every 2000 iterations.\<close>

definition susp_reports :: "nat \<Rightarrow> nat list" where
  "susp_reports iterations = filter (\<lambda>i. i mod 2000 = 0) [1..<iterations + 1]"

section \<open>Correctness\<close>

text \<open>The loops return the index they should.\<close>

lemma scan_array_takeWhile:
  assumes "length xs = b" and "i \<le> b"
  shows "scan_array stop b (Some xs) i = Inr (i + length (takeWhile (\<lambda>x. \<not> stop x) (drop i xs)))"
  using assms
proof (induction stop b "Some xs" i rule: scan_array.induct)
  case (1 stop b i)
  show ?case
  proof (cases "i < b")
    case True
    then have "drop i xs = xs ! i # drop (i + 1) xs" using 1(2) by (simp add: Cons_nth_drop_Suc)
    with True 1 show ?thesis by (subst scan_array.simps) (simp add: array_at_def)
  next
    case False
    with 1 show ?thesis by (subst scan_array.simps) simp
  qed
qed

lemma scan_array_0:
  "length xs = b \<Longrightarrow> scan_array stop b (Some xs) 0 = Inr (length (takeWhile (\<lambda>x. \<not> stop x) xs))"
  by (simp add: scan_array_takeWhile)

lemma takeWhile_length_less: "length (takeWhile P xs) < length xs \<longleftrightarrow> (\<exists>x \<in> set xs. \<not> P x)"
  by (induction xs) auto

definition susp_wf :: "susp \<Rightarrow> bool" where
  "susp_wf s \<longleftrightarrow> inited s \<and> (\<exists>xs. array s = Some xs \<and> length xs = bottom s)"

lemmas susp_steps = thd_suspend_def thd_suspend_signal_def thd_continue_def suspend_once_def suspend_signal_handler_def
  resume_signal_handler_def array_put_def array_at_def scan_array_0 Let_def

lemma takeWhile_zeros: "0 \<notin> set ts \<Longrightarrow> takeWhile (\<lambda>x. x \<noteq> (0 :: nat)) (ts @ replicate n 0) = ts"
  by (induction ts) (cases n, auto)

text \<open>One suspension of a new thread, with room in the array.\<close>

lemma thd_suspend_new:
  assumes "inited s" "array s = Some (ts @ replicate n 0)" "bottom s = length ts + n" "0 < n"
    "0 \<notin> set ts" "t \<noteq> 0" "t \<notin> set ts" "t \<in> set (live s)" "t \<notin> set (suspended s)"
  shows "thd_suspend mem t s = Inr (Returns 0,
    s\<lparr>sentinel := 1, suspended := suspended s @ [t], array := Some (ts @ t # replicate (n - 1) 0)\<rparr>)"
proof -
  have "takeWhile (\<lambda>x. x \<noteq> t) (ts @ replicate n 0) = ts @ replicate n 0"
    using assms by (auto simp: takeWhile_eq_all_conv)
  moreover have "(ts @ replicate n 0)[length ts := t] = ts @ t # replicate (n - 1) (0 :: nat)"
    using assms(4) by (cases n) auto
  ultimately show ?thesis using assms takeWhile_zeros [of ts n] by (simp add: susp_steps)
qed

lemma susp_run_suspends:
  assumes "inited s" "array s = Some (ts @ replicate n 0)" "bottom s = length ts + n" "length us \<le> n"
    "0 \<notin> set (ts @ us)" "distinct (ts @ us)" "set us \<subseteq> set (live s)" "suspended s = ts"
  shows "\<exists>s'. susp_run s (map Suspend us) = Inr (Returns 0, s') \<and> suspended s' = ts @ us \<and>
    array s' = Some (ts @ us @ replicate (n - length us) 0)"
  using assms
proof (induction us arbitrary: s ts n)
  case (Cons u us)
  let ?s = "s\<lparr>sentinel := 1, suspended := suspended s @ [u], array := Some (ts @ u # replicate (n - 1) 0)\<rparr>"
  have "thd_suspend True u s = Inr (Returns 0, ?s)"
    by (rule thd_suspend_new [where n = n]) (use Cons.prems in auto)
  moreover have "\<exists>s'. susp_run ?s (map Suspend us) = Inr (Returns 0, s') \<and> suspended s' = (ts @ [u]) @ us \<and>
      array s' = Some ((ts @ [u]) @ us @ replicate (n - 1 - length us) 0)"
    by (rule Cons.IH) (use Cons.prems in auto)
  ultimately show ?case by simp
qed simp

text \<open>Up to ten different threads can be suspended, one after the other: each call returns 0, and in the
  end exactly these threads are suspended and the array lists them.\<close>

theorem thd_suspend_ten:
  assumes "distinct ts" and "0 \<notin> set ts" and "length ts \<le> 10"
  shows "\<exists>s. susp_run (susp_fresh ts) (map Suspend ts) = Inr (Returns 0, s) \<and> suspended s = ts \<and>
           (ts \<noteq> [] \<longrightarrow> array s = Some (ts @ replicate (10 - length ts) 0))"
proof (cases ts)
  case (Cons t us)
  let ?s = "suspend_init_routine (susp_fresh ts)"
  have "\<exists>s'. susp_run ?s (map Suspend ts) = Inr (Returns 0, s') \<and> suspended s' = [] @ ts \<and>
    array s' = Some ([] @ ts @ replicate (10 - length ts) 0)"
    by (rule susp_run_suspends) (use assms in \<open>auto simp: suspend_init_routine_def susp_fresh_def\<close>)
  moreover have "thd_suspend True t (susp_fresh ts) = thd_suspend True t ?s"
    by (simp add: thd_suspend_def suspend_once_def suspend_init_routine_def susp_fresh_def)
  ultimately show ?thesis using Cons by simp
qed (simp add: susp_fresh_def)

theorem thd_suspend_ten_witness:
  "\<exists>s. susp_run (susp_fresh [4, 7]) [Suspend 4, Suspend 7] = Inr (Returns 0, s) \<and> suspended s = [4, 7]"
proof -
  have "distinct [4, 7 :: nat]" "(0 :: nat) \<notin> set [4, 7]" "length [4, 7 :: nat] \<le> 10" by simp_all
  from thd_suspend_ten [OF this] show ?thesis unfolding list.map by blast
qed

text \<open>The eleventh thread writes outside the array: when no entry is free and the array could be enlarged,
  the entry after the last is cleared.\<close>

theorem thd_suspend_full:
  assumes "susp_wf s" and "array s = Some xs" and "0 \<notin> set xs" and "t \<notin> set xs"
  shows "thd_suspend True t s = Inl OutOfBounds"
proof -
  have "takeWhile (\<lambda>x. \<not> x = t) xs = xs" "takeWhile (\<lambda>x. \<not> x = 0) xs = xs"
    using assms(3,4) unfolding takeWhile_eq_all_conv by metis+
  moreover have "length xs = bottom s" "inited s" using assms(1,2) by (simp_all add: susp_wf_def)
  ultimately have "scan_array (\<lambda>x. x = t) (bottom s) (Some xs) 0 = Inr (bottom s)" "scan_array (\<lambda>x. x = 0) (bottom s) (Some xs) 0 = Inr (bottom s)"
    by (simp_all only: scan_array_0)
  with \<open>length xs = bottom s\<close> \<open>inited s\<close> assms(2) show ?thesis
    by (simp add: thd_suspend_def suspend_once_def array_put_def array_at_def Let_def)
qed

theorem thd_suspend_full_witness:
  "thd_suspend True 11 \<lparr>inited = True, array = Some [1, 2, 3, 4, 5, 6, 7, 8, 9, 10], bottom = 10, sentinel = 1,
     live = [1, 2, 3, 4, 5, 6, 7, 8, 9, 10, 11], suspended = [1, 2, 3, 4, 5, 6, 7, 8, 9, 10], pending = []\<rparr> = Inl OutOfBounds"
  by (rule thd_suspend_full [where xs = "[1, 2, 3, 4, 5, 6, 7, 8, 9, 10]"]) (simp_all add: susp_wf_def)

text \<open>\<open>thd_continue\<close> looks for an entry that is not the target.\<close>

lemma thd_continue_keeps:
  assumes "susp_wf s" and "array s = Some xs" and "t \<in> set (live s)" and "t \<in> set xs" and "\<exists>x \<in> set xs. x \<noteq> t"
  shows "\<exists>ys. thd_continue t s = Inr (Returns 0, (resume_signal_handler t s)\<lparr>array := Some ys\<rparr>) \<and>
           t \<in> set ys \<and> length ys = length xs"
proof -
  let ?i = "length (takeWhile (\<lambda>x. x = t) xs)"
  have i: "?i < length xs" "xs ! ?i \<noteq> t"
    using assms(5) takeWhile_length_less [of "\<lambda>x. x = t" xs] nth_length_takeWhile [of "\<lambda>x. x = t" xs] by auto
  have arr: "array (resume_signal_handler t s) = Some xs"
    using assms(2) by (simp add: resume_signal_handler_def suspend_signal_handler_def Let_def)
  from assms(4) obtain j where j: "j < length xs" "xs ! j = t" unfolding in_set_conv_nth by blast
  with i(2) have "j \<noteq> ?i" by metis
  with j have "xs[?i := 0] ! j = t" by simp
  then have "t \<in> set (xs[?i := 0])" using j(1) nth_mem [of j "xs[?i := 0]"] by simp
  with assms i arr show ?thesis
    by (intro exI [of _ "xs[?i := 0]"]) (simp add: susp_wf_def thd_continue_def suspend_once_def scan_array_0 array_put_def array_at_def Let_def)
qed

text \<open>A thread that has been suspended and continued cannot be suspended again: \<open>thd_continue\<close> lets it run
  but leaves it in the array, so the next \<open>thd_suspend\<close> of it returns 0 and does nothing.\<close>

theorem thd_resuspend_ignored:
  assumes "susp_wf s" and "array s = Some xs" and "t \<in> set (live s)" and "t \<in> set xs" and "\<exists>x \<in> set xs. x \<noteq> t"
    and "t \<notin> set (pending s)"
  shows "\<exists>s'. thd_continue t s = Inr (Returns 0, s') \<and> t \<notin> set (suspended s') \<and> thd_suspend mem t s' = Inr (Returns 0, s')"
proof -
  from thd_continue_keeps [OF assms(1-5)] obtain ys where
    ys: "thd_continue t s = Inr (Returns 0, (resume_signal_handler t s)\<lparr>array := Some ys\<rparr>)" "t \<in> set ys" "length ys = length xs" by blast
  let ?s = "(resume_signal_handler t s)\<lparr>array := Some ys\<rparr>"
  have s: "inited ?s" "bottom ?s = length ys" "t \<notin> set (suspended ?s)"
    using assms ys(3) by (auto simp: susp_wf_def resume_signal_handler_def Let_def)
  have "length (takeWhile (\<lambda>x. x \<noteq> t) ys) < length ys" using ys(2) by (simp add: takeWhile_length_less)
  with s have "thd_suspend mem t ?s = Inr (Returns 0, ?s)"
    by (simp add: thd_suspend_def suspend_once_def scan_array_0 Let_def)
  with ys(1) s show ?thesis by blast
qed

definition susp_one :: susp where
  "susp_one = \<lparr>inited = True, array = Some [5, 0], bottom = 2, sentinel = 1, live = [5], suspended = [5], pending = []\<rparr>"

theorem thd_resuspend_ignored_witness:
  "\<exists>s'. thd_continue 5 susp_one = Inr (Returns 0, s') \<and> 5 \<notin> set (suspended s') \<and> thd_suspend True 5 s' = Inr (Returns 0, s')"
  by (rule thd_resuspend_ignored [where xs = "[5, 0]"]) (simp_all add: susp_wf_def susp_one_def)

lemma ten_zeros: "replicate 10 (0 :: nat) = [0, 0, 0, 0, 0, 0, 0, 0, 0, 0]" "replicate 9 (0 :: nat) = [0, 0, 0, 0, 0, 0, 0, 0, 0]"
  by (simp_all add: numeral_eq_Suc)

text \<open>Listed threads are left alone.\<close>

lemma thd_suspend_listed:
  assumes "susp_wf s" and "array s = Some xs" and "t \<in> set xs"
  shows "thd_suspend mem t s = Inr (Returns 0, s)"
proof -
  have "length (takeWhile (\<lambda>x. x \<noteq> t) xs) < length xs" using assms(3) by (simp add: takeWhile_length_less)
  with assms show ?thesis by (auto simp: thd_suspend_def susp_wf_def suspend_once_def scan_array_0 Let_def)
qed

text \<open>Continuing one thread can remove another from the array; suspending that one then never ends.\<close>

lemma susp_run_spins: "\<exists>s. susp_run (susp_fresh [1, 2]) [Suspend 1, Suspend 2, Continue 1, Suspend 2] = Inr (Spins, s)"
  by (simp add: susp_fresh_def susp_steps suspend_init_routine_def ten_zeros)

text \<open>The calls of \<open>main\<close> return 0 and leave the thread running and listed.\<close>

lemma susp_main_ok:
  "t \<noteq> 0 \<Longrightarrow> \<exists>s. susp_main t = Inr (Returns 0, s) \<and> suspended s = [] \<and> array s = Some (t # replicate 9 0)"
  by (simp add: susp_main_def susp_fresh_def susp_steps suspend_init_routine_def ten_zeros)

lemma susp_reports_sound: "i \<in> set (susp_reports n) \<longleftrightarrow> 1 \<le> i \<and> i \<le> n \<and> 2000 dvd i"
  by (auto simp: susp_reports_def)

end
