(* ===== verification/Counters.thy ===== *)
theory Counters
  imports Pthread Complex_Main
begin

text \<open>
  Programs whose threads share one variable under a mutex: the watched counter of \<open>condition.c\<close>, the
  timed wait of \<open>cond.c\<close>, the monitored counter of \<open>trylock.c\<close> and the dot product of \<open>mutex-1.c\<close>. Each is
  a transition system over the steps its threads take between acquiring and releasing the mutex (a
  single increment is a step where the code inside the lock is what matters).
\<close>

section \<open>The watched counter\<close>

definition TCOUNT :: nat where "TCOUNT = 10"

definition COUNT_LIMIT :: int where "COUNT_LIMIT = 12"

text \<open>The watcher is before its lock (\<open>WStart\<close>) or returns from its wait (\<open>WResumed\<close>).\<close>

datatype watch_pc = WStart | WResumed

record watch_sys =
  watched :: int
  incs :: "nat list"
  watcher :: "(unit, watch_pc) tstate"

text \<open>One iteration of an incrementing thread; \<open>incs ! i\<close> counts those of thread \<open>i\<close>.\<close>

definition inc_count :: "nat \<Rightarrow> watch_sys \<Rightarrow> watch_sys option" where
  "inc_count i s =
     (if i < length (incs s) \<and> incs s ! i < TCOUNT then
        let s = s\<lparr>watched := watched s + 1, incs := (incs s)[i := incs s ! i + 1]\<rparr>
        in Some (if watched s = COUNT_LIMIT then s\<lparr>watcher := wake () (watcher s)\<rparr> else s)
      else None)"

definition watch_test :: "watch_sys \<Rightarrow> watch_sys" where
  "watch_test s = (if watched s < COUNT_LIMIT then s\<lparr>watcher := Waiting () WResumed\<rparr> else s\<lparr>watcher := Finished\<rparr>)"

definition watch_count :: "watch_sys \<Rightarrow> watch_sys option" where
  "watch_count s =
     (case watcher s of
        Ready WStart \<Rightarrow> Some (watch_test s)
      | Ready WResumed \<Rightarrow> Some (watch_test (s\<lparr>watched := watched s + 125\<rparr>))
      | _ \<Rightarrow> None)"

datatype watch_event = Inc nat | Watch | WSpurious

fun watch_exec :: "watch_sys \<Rightarrow> watch_event \<Rightarrow> watch_sys option" where
  "watch_exec s (Inc i) = inc_count i s"
| "watch_exec s Watch = watch_count s"
| "watch_exec s WSpurious = Some (s\<lparr>watcher := wake () (watcher s)\<rparr>)"

text \<open>\<open>main\<close> starts a watcher and two incrementing threads, and joins all three.\<close>

definition watch_start :: watch_sys where
  "watch_start = \<lparr>watched = 0, incs = [0, 0], watcher = Ready WStart\<rparr>"

definition watch_init :: "watch_sys \<Rightarrow> bool" where
  "watch_init s \<longleftrightarrow> s = watch_start"

definition incs_done :: "watch_sys \<Rightarrow> bool" where
  "incs_done s \<longleftrightarrow> list_all (\<lambda>n. n = TCOUNT) (incs s)"

definition watch_inv :: "watch_sys \<Rightarrow> bool" where
  "watch_inv s \<longleftrightarrow> length (incs s) = 2 \<and> (\<forall>n \<in> set (incs s). n \<le> TCOUNT) \<and>
     (case watcher s of
        Finished \<Rightarrow> watched s = int (sum_list (incs s)) \<and> COUNT_LIMIT \<le> watched s \<or> watched s = int (sum_list (incs s)) + 125
      | Waiting _ p \<Rightarrow> watched s = int (sum_list (incs s)) \<and> p = WResumed \<and> watched s < COUNT_LIMIT
      | Ready _ \<Rightarrow> watched s = int (sum_list (incs s)))"

lemma inc_two: "length xs = 2 \<Longrightarrow> i < length xs \<Longrightarrow> sum_list (xs[i := xs ! i + 1]) = sum_list xs + (1 :: nat)"
  by (auto simp: numeral_2_eq_2 length_Suc_conv less_Suc_eq)

lemma watch_exec_inv: "watch_inv s \<Longrightarrow> watch_exec s e = Some t \<Longrightarrow> watch_inv t"
proof (cases e)
  case (Inc i)
  assume inv: "watch_inv s" and e: "watch_exec s e = Some t"
  from Inc e have i: "i < length (incs s)" "incs s ! i < TCOUNT" by (auto simp: inc_count_def split: if_splits)
  have "\<forall>n \<in> set ((incs s)[i := Suc (incs s ! i)]). n \<le> TCOUNT"
    using inv i by (auto simp: watch_inv_def dest!: set_update_subset_insert [THEN subsetD])
  with inv i Inc e inc_two [of "incs s" i] show ?thesis
    by (auto simp: watch_inv_def inc_count_def Let_def COUNT_LIMIT_def split: tstate.splits if_splits)
next
  case Watch
  assume "watch_inv s" "watch_exec s e = Some t"
  with Watch show ?thesis
    by (auto simp: watch_inv_def watch_count_def watch_test_def COUNT_LIMIT_def split: tstate.splits watch_pc.splits if_splits)
next
  case WSpurious
  assume "watch_inv s" "watch_exec s e = Some t"
  with WSpurious show ?thesis by (cases "watcher s") (auto simp: watch_inv_def)
qed

interpretation watched_counter: invariant_system watch_init watch_exec watch_inv
  by unfold_locales (simp add: watch_init_def watch_start_def watch_inv_def, rule watch_exec_inv)

lemma two_full: "length xs = 2 \<Longrightarrow> list_all (\<lambda>n. n = k) xs \<Longrightarrow> sum_list xs = 2 * (k :: nat)"
  by (auto simp: numeral_2_eq_2 length_Suc_conv)

text \<open>The watched counter. When both incrementing threads are done the watcher is not asleep (so \<open>main\<close>
  joins it), and when it too has finished the counter is 20 or, if the watcher had to wait, 145: the
  signal is never missed and the 125 are added at most once, even if a wait returns without a signal.\<close>

theorem watch_final:
  assumes "reach watch_init watch_exec s" and "incs_done s"
  shows "(\<forall>c p. watcher s \<noteq> Waiting c p) \<and> (watcher s = Finished \<longrightarrow> watched s \<in> {20, 145})"
proof -
  have inv: "watch_inv s" by (rule watched_counter.reach_inv [OF assms(1)])
  then have "sum_list (incs s) = 20" using two_full [of "incs s" TCOUNT] assms(2) by (simp add: watch_inv_def incs_done_def TCOUNT_def)
  with inv show ?thesis by (auto simp: watch_inv_def COUNT_LIMIT_def)
qed

lemma watch_start_reach: "run watch_exec watch_start es = Some t \<Longrightarrow> reach watch_init watch_exec t"
  by (rule reach_by_run [of watch_init watch_start]) (auto simp: watch_init_def)

theorem watch_final_witness:
  "\<exists>s. run watch_exec watch_start (Watch # replicate 10 (Inc 0) @ replicate 10 (Inc 1) @ [Watch]) = Some s \<and>
     watcher s = Finished \<and> watched s \<in> {20, 145}"
proof -
  let ?s = "\<lparr>watched = 145, incs = [10, 10], watcher = Finished\<rparr>"
  have r: "run watch_exec watch_start (Watch # replicate 10 (Inc 0) @ replicate 10 (Inc 1) @ [Watch]) = Some ?s" by code_simp
  have d: "incs_done ?s" by (simp add: incs_done_def TCOUNT_def)
  from r watch_final [OF watch_start_reach [OF r] d] show ?thesis by (intro exI [of _ ?s]) simp
qed

section \<open>The timed wait\<close>

text \<open>
  The main thread of \<open>cond.c\<close> waits until the predicate is set or the timeout has passed; the other thread
  sleeps, sets the predicate and signals. \<open>tw_out\<close> is what the main thread prints.
\<close>

datatype tw_msg = TimedOut | Signaled

datatype tw_pc = TwTest | TwEnd

record tw_sys =
  data_value :: int
  tw_now :: nat
  deadline :: nat
  alarm_at :: nat
  setter_done :: bool
  tw_main :: "(unit, tw_pc) tstate"
  tw_out :: "tw_msg list"

definition wait_thread :: "tw_sys \<Rightarrow> tw_sys option" where
  "wait_thread s =
     (if setter_done s \<or> tw_now s < alarm_at s then None
      else Some (s\<lparr>data_value := 1, setter_done := True, tw_main := wake () (tw_main s)\<rparr>))"

definition tw_finish :: "tw_sys \<Rightarrow> tw_sys" where
  "tw_finish s = s\<lparr>tw_main := Finished, tw_out := (if data_value s \<noteq> 0 then tw_out s @ [Signaled] else tw_out s)\<rparr>"

definition tw_step :: "tw_sys \<Rightarrow> tw_sys option" where
  "tw_step s =
     (case tw_main s of
        Ready TwTest \<Rightarrow> Some (if data_value s = 0 then s\<lparr>tw_main := Waiting () TwTest\<rparr> else tw_finish s)
      | Ready TwEnd \<Rightarrow> Some (tw_finish (s\<lparr>tw_out := tw_out s @ [TimedOut]\<rparr>))
      | _ \<Rightarrow> None)"

datatype tw_event = TwTick nat | TwSet | TwMain | TwTimeout | TwSpurious

fun tw_exec :: "tw_sys \<Rightarrow> tw_event \<Rightarrow> tw_sys option" where
  "tw_exec s (TwTick d) = Some (s\<lparr>tw_now := tw_now s + d\<rparr>)"
| "tw_exec s TwSet = wait_thread s"
| "tw_exec s TwMain = tw_step s"
| "tw_exec s TwTimeout =
     (case tw_main s of
        Waiting _ TwTest \<Rightarrow> if deadline s \<le> tw_now s then Some (s\<lparr>tw_main := Ready TwEnd\<rparr>) else None
      | _ \<Rightarrow> None)"
| "tw_exec s TwSpurious = Some (s\<lparr>tw_main := wake () (tw_main s)\<rparr>)"

text \<open>The timeout is two seconds; \<open>hibernation\<close> is the argument of the program.\<close>

definition tw_start :: "nat \<Rightarrow> nat \<Rightarrow> tw_sys" where
  "tw_start now hibernation =
     \<lparr>data_value = 0, tw_now = now, deadline = now + 2, alarm_at = now + hibernation, setter_done = False,
      tw_main = Ready TwTest, tw_out = []\<rparr>"

definition tw_init :: "tw_sys \<Rightarrow> bool" where
  "tw_init s \<longleftrightarrow> (\<exists>now h. s = tw_start now h)"

definition tw_inv :: "tw_sys \<Rightarrow> bool" where
  "tw_inv s \<longleftrightarrow> data_value s = (if setter_done s then 1 else 0) \<and> (setter_done s \<longrightarrow> alarm_at s \<le> tw_now s) \<and>
     (case tw_main s of
        Finished \<Rightarrow> tw_out s = [TimedOut] \<and> deadline s \<le> tw_now s \<or> tw_out s = [Signaled] \<and> setter_done s \<or>
                    tw_out s = [TimedOut, Signaled] \<and> setter_done s \<and> deadline s \<le> tw_now s
      | Waiting _ p \<Rightarrow> tw_out s = [] \<and> p = TwTest \<and> \<not> setter_done s
      | Ready p \<Rightarrow> tw_out s = [] \<and> (p = TwEnd \<longrightarrow> deadline s \<le> tw_now s))"

lemma tw_exec_inv: "tw_inv s \<Longrightarrow> tw_exec s e = Some t \<Longrightarrow> tw_inv t"
proof (cases e)
  case TwSet
  assume "tw_inv s" "tw_exec s e = Some t"
  with TwSet show ?thesis by (cases "tw_main s") (auto simp: tw_inv_def wait_thread_def split: if_splits)
next
  case TwMain
  assume "tw_inv s" "tw_exec s e = Some t"
  with TwMain show ?thesis
    by (auto simp: tw_inv_def tw_step_def tw_finish_def split: tstate.splits tw_pc.splits if_splits)
next
  case TwTimeout
  assume "tw_inv s" "tw_exec s e = Some t"
  with TwTimeout show ?thesis by (auto simp: tw_inv_def split: tstate.splits tw_pc.splits if_splits)
next
  case TwSpurious
  assume "tw_inv s" "tw_exec s e = Some t"
  with TwSpurious show ?thesis by (cases "tw_main s") (auto simp: tw_inv_def)
qed (auto simp: tw_inv_def split: tstate.splits)

interpretation timed_wait: invariant_system tw_init tw_exec tw_inv
proof
  show "tw_init s \<Longrightarrow> tw_inv s" for s by (auto simp: tw_init_def tw_start_def tw_inv_def)
qed (rule tw_exec_inv)

text \<open>It says \<open>signaled\<close> only if it was, \<open>timed out\<close> only if the time is over, and something in any case.\<close>

lemma tw_reports:
  assumes "reach tw_init tw_exec s" and "tw_main s = Finished"
  shows "tw_out s \<noteq> [] \<and> (Signaled \<in> set (tw_out s) \<longrightarrow> data_value s = 1 \<and> alarm_at s \<le> tw_now s) \<and>
         (TimedOut \<in> set (tw_out s) \<longrightarrow> deadline s \<le> tw_now s)"
  using timed_wait.reach_inv [OF assms(1)] assms(2) by (auto simp: tw_inv_def)

section \<open>The monitored counter\<close>

text \<open>
  \<open>trylock.c\<close> runs for a minute. The counter thread keeps the mutex for \<open>spin\<close> single increments
  (\<open>SPIN\<close> in the program), then sleeps a second; the monitor tries the mutex every three seconds and
  reports or counts a miss. \<open>rounds\<close> counts the finished rounds, \<open>seen\<close> collects what the monitor prints
  together with the counter it read.
\<close>

definition SPIN :: nat where "SPIN = 210000000"

datatype counter_pc = CTop | CSpin nat | CSleep nat | CDone

datatype monitor_pc = MTop | MSleep nat | MDone

record try_sys =
  counter :: int
  end_time :: nat
  try_now :: nat
  counter_pc :: counter_pc
  monitor_pc :: monitor_pc
  rounds :: nat
  misses :: nat
  seen :: "(int \<times> int) list"

definition counter_thread :: "nat \<Rightarrow> try_sys \<Rightarrow> try_sys option" where
  "counter_thread spin s =
     (case counter_pc s of
        CTop \<Rightarrow> Some (s\<lparr>counter_pc := (if try_now s < end_time s then CSpin 0 else CDone)\<rparr>)
      | CSpin k \<Rightarrow>
          if k < spin then Some (s\<lparr>counter := counter s + 1, counter_pc := CSpin (k + 1)\<rparr>)
          else Some (s\<lparr>rounds := rounds s + 1, counter_pc := CSleep (try_now s + 1)\<rparr>)
      | CSleep t \<Rightarrow> if t \<le> try_now s then Some (s\<lparr>counter_pc := CTop\<rparr>) else None
      | CDone \<Rightarrow> None)"

text \<open>The mutex is busy exactly while the counter thread spins.\<close>

fun busy :: "counter_pc \<Rightarrow> bool" where
  "busy (CSpin _) = True"
| "busy _ = False"

definition monitor_thread :: "nat \<Rightarrow> try_sys \<Rightarrow> try_sys option" where
  "monitor_thread spin s =
     (case monitor_pc s of
        MTop \<Rightarrow> Some (s\<lparr>monitor_pc := (if try_now s < end_time s then MSleep (try_now s + 3) else MDone)\<rparr>)
      | MSleep t \<Rightarrow>
          if try_now s < t then None
          else if busy (counter_pc s) then Some (s\<lparr>misses := misses s + 1, monitor_pc := MTop\<rparr>)
          else Some (s\<lparr>seen := seen s @ [(counter s div int spin, counter s)], monitor_pc := MTop\<rparr>)
      | MDone \<Rightarrow> None)"

datatype try_event = TryTick nat | TryCounter | TryMonitor

fun try_exec :: "nat \<Rightarrow> try_sys \<Rightarrow> try_event \<Rightarrow> try_sys option" where
  "try_exec spin s (TryTick d) = Some (s\<lparr>try_now := try_now s + d\<rparr>)"
| "try_exec spin s TryCounter = counter_thread spin s"
| "try_exec spin s TryMonitor = monitor_thread spin s"

definition try_start :: "nat \<Rightarrow> try_sys" where
  "try_start now = \<lparr>counter = 0, end_time = now + 60, try_now = now, counter_pc = CTop, monitor_pc = MTop,
     rounds = 0, misses = 0, seen = []\<rparr>"

definition try_init :: "nat \<Rightarrow> try_sys \<Rightarrow> bool" where
  "try_init now s \<longleftrightarrow> s = try_start now"

text \<open>A round takes at least a second with the sleep behind it.\<close>

definition try_inv :: "nat \<Rightarrow> nat \<Rightarrow> try_sys \<Rightarrow> bool" where
  "try_inv spin start s \<longleftrightarrow> end_time s = start + 60 \<and> (\<forall>(v, c) \<in> set (seen s). c = int spin * v \<and> v \<le> 60) \<and>
     (case counter_pc s of
        CSpin k \<Rightarrow> k \<le> spin \<and> counter s = int spin * int (rounds s) + int k \<and> rounds s < 60 \<and> start + rounds s \<le> try_now s
      | CSleep t \<Rightarrow> counter s = int spin * int (rounds s) \<and> rounds s \<le> 60 \<and> start + rounds s \<le> t
      | CTop \<Rightarrow> counter s = int spin * int (rounds s) \<and> rounds s \<le> 60 \<and> start + rounds s \<le> try_now s
      | CDone \<Rightarrow> counter s = int spin * int (rounds s) \<and> rounds s \<le> 60)"

lemma counter_thread_inv: "try_inv spin start s \<Longrightarrow> counter_thread spin s = Some t \<Longrightarrow> try_inv spin start t"
  by (auto simp: try_inv_def counter_thread_def algebra_simps split: counter_pc.splits if_splits)

lemma monitor_thread_inv:
  assumes "0 < spin" and inv: "try_inv spin start s" and e: "monitor_thread spin s = Some t"
  shows "try_inv spin start t"
proof -
  have "counter s = int spin * int (rounds s) \<and> rounds s \<le> 60" if "\<not> busy (counter_pc s)"
    using inv that by (auto simp: try_inv_def split: counter_pc.splits)
  then have "counter s div int spin = int (rounds s) \<and> counter s = int spin * int (rounds s) \<and> rounds s \<le> 60" if "\<not> busy (counter_pc s)"
    using assms(1) that by simp
  with inv e show ?thesis
    by (cases "counter_pc s"; cases "monitor_pc s") (auto simp: try_inv_def monitor_thread_def split: if_splits)
qed

lemma try_exec_inv:
  assumes "0 < spin" and inv: "try_inv spin start s" and e: "try_exec spin s ev = Some t"
  shows "try_inv spin start t"
proof (cases ev)
  case (TryTick d)
  with inv e show ?thesis by (auto simp: try_inv_def split: counter_pc.splits)
qed (use assms counter_thread_inv [OF inv] monitor_thread_inv [OF assms(1) inv] in auto)

interpretation monitored: invariant_system "try_init now" "try_exec (Suc n)" "try_inv (Suc n) now" for now n
proof
  show "try_init now s \<Longrightarrow> try_inv (Suc n) now s" for s by (auto simp: try_init_def try_start_def try_inv_def)
qed (rule try_exec_inv [OF zero_less_Suc])

text \<open>The monitor of \<open>trylock.c\<close> only sees the counter between rounds: whatever it prints is the exact
  number of finished rounds, and in the one-minute run there are at most 60 of them, so with
  \<open>SPIN\<close> increments a round the counter stays far inside a \<open>long\<close>.\<close>

theorem monitor_sees_rounds:
  assumes "reach (try_init now) (try_exec spin) s" and "0 < spin"
  shows "(\<forall>(v, c) \<in> set (seen s). c = int spin * v \<and> v \<le> 60) \<and> counter s \<le> 60 * int spin \<and>
         (spin = SPIN \<longrightarrow> counter s < 2 ^ 63)"
proof -
  from assms(2) obtain n where n: "spin = Suc n" by (cases spin) auto
  have inv: "try_inv spin now s" using monitored.reach_inv [of now n s] assms(1) n by simp
  have r: "int spin * int k \<le> 60 * int spin" if "k \<le> 60" for k :: nat
    using mult_left_mono [of "int k" 60 "int spin"] that by simp
  have c: "counter s \<le> 60 * int spin"
  proof (cases "counter_pc s")
    case (CSpin k)
    have "rounds s + 1 \<le> 60" "int k \<le> int spin" "counter s = int spin * int (rounds s) + int k"
      using inv CSpin by (auto simp: try_inv_def)
    with r [of "rounds s + 1"] show ?thesis by (simp add: algebra_simps)
  qed (use inv r [of "rounds s"] in \<open>auto simp: try_inv_def\<close>)
  with inv show ?thesis by (auto simp: try_inv_def SPIN_def)
qed

theorem monitor_sees_rounds_witness:
  "\<exists>s. run (try_exec 2) (try_start 5) [TryMonitor, TryCounter, TryCounter, TryCounter, TryCounter, TryTick 3, TryMonitor] = Some s \<and>
     seen s = [(1, 2)] \<and> (\<forall>(v, c) \<in> set (seen s). c = 2 * v \<and> v \<le> 60)"
proof -
  let ?es = "[TryMonitor, TryCounter, TryCounter, TryCounter, TryCounter, TryTick 3, TryMonitor]"
  obtain s where s: "run (try_exec 2) (try_start 5) ?es = Some s" "seen s = [(1, 2)]"
    by (simp add: counter_thread_def monitor_thread_def try_start_def)
  have "reach (try_init 5) (try_exec 2) s"
    by (rule reach_by_run [of "try_init 5" "try_start 5", OF _ s(1)]) (simp add: try_init_def)
  from monitor_sees_rounds [OF this] s show ?thesis by simp
qed

end
