(* ===== verification/Dotprod.thy ===== *)
theory Dotprod
  imports Pthread Complex_Main
begin

text \<open>
  The dot product of \<open>mutex-1.c\<close>: each of the threads computes the product of its part of the two vectors
  and adds it to the shared sum under the mutex. Arithmetic on \<open>double\<close> is exact arithmetic followed by
  rounding; the rounding \<open>rnd\<close> is a parameter, and what is used of it is that integers up to \<open>2 ^ 53\<close> are
  not changed by it.
\<close>

definition NUMTHRDS :: nat where "NUMTHRDS = 4"

definition VECLEN :: nat where "VECLEN = 100000"

definition exact_on_ints :: "(real \<Rightarrow> real) \<Rightarrow> bool" where
  "exact_on_ints rnd \<longleftrightarrow> (\<forall>k :: int. \<bar>k\<bar> \<le> 2 ^ 53 \<longrightarrow> rnd (of_int k) = of_int k)"

record DOTDATA =
  vec_a :: "real list"
  vec_b :: "real list"
  dot_sum :: real
  veclen :: nat

text \<open>The loop of \<open>dotprod\<close>; reading outside a vector is a fault.\<close>

function dot_loop :: "(real \<Rightarrow> real) \<Rightarrow> real list \<Rightarrow> real list \<Rightarrow> nat \<Rightarrow> nat \<Rightarrow> real \<Rightarrow> fault + real" where
  "dot_loop rnd x y i fin mysum =
     (if i < fin then
        if i < length x \<and> i < length y then dot_loop rnd x y (i + 1) fin (rnd (mysum + rnd (x ! i * y ! i)))
        else Inl OutOfBounds
      else Inr mysum)"
  by pat_completeness auto
termination
  by (relation "measure (\<lambda>(rnd, x, y, i, fin, mysum). fin - i)") auto

declare dot_loop.simps [simp del]

definition dotprod_part :: "(real \<Rightarrow> real) \<Rightarrow> nat \<Rightarrow> DOTDATA \<Rightarrow> fault + real" where
  "dotprod_part rnd offset d =
     (let len = veclen d; start = offset * len; fin = start + len
      in dot_loop rnd (vec_a d) (vec_b d) start fin 0)"

text \<open>A thread computes its part, then adds it under the mutex.\<close>

datatype dot_pc = DStart | DAdd real | DDone

record dot_sys =
  dotstr :: DOTDATA
  callThd :: "dot_pc list"

definition dotprod :: "(real \<Rightarrow> real) \<Rightarrow> nat \<Rightarrow> dot_sys \<Rightarrow> dot_sys option" where
  "dotprod rnd i s =
     (if i < length (callThd s) then
        case callThd s ! i of
          DStart \<Rightarrow>
            (case dotprod_part rnd i (dotstr s) of
               Inl _ \<Rightarrow> None
             | Inr mysum \<Rightarrow> Some (s\<lparr>callThd := (callThd s)[i := DAdd mysum]\<rparr>))
        | DAdd mysum \<Rightarrow>
            Some (s\<lparr>dotstr := (dotstr s)\<lparr>dot_sum := rnd (dot_sum (dotstr s) + mysum)\<rparr>, callThd := (callThd s)[i := DDone]\<rparr>)
        | DDone \<Rightarrow> None
      else None)"

text \<open>\<open>main\<close> creates the threads; in the program both vectors are all ones.\<close>

definition dot_start :: "nat \<Rightarrow> nat \<Rightarrow> real list \<Rightarrow> real list \<Rightarrow> dot_sys" where
  "dot_start nthr len a b = \<lparr>dotstr = \<lparr>vec_a = a, vec_b = b, dot_sum = 0, veclen = len\<rparr>, callThd = replicate nthr DStart\<rparr>"

definition dot_main :: dot_sys where
  "dot_main = dot_start NUMTHRDS VECLEN (replicate (NUMTHRDS * VECLEN) 1) (replicate (NUMTHRDS * VECLEN) 1)"

section \<open>Correctness\<close>

text \<open>What the loop adds, on integer vectors.\<close>

definition part :: "int list \<Rightarrow> int list \<Rightarrow> nat \<Rightarrow> nat \<Rightarrow> int" where
  "part xs ys m n = (\<Sum>j = m..<n. xs ! j * ys ! j)"

definition weight :: "int list \<Rightarrow> int list \<Rightarrow> int" where
  "weight xs ys = (\<Sum>j < length xs. \<bar>xs ! j * ys ! j\<bar>)"

lemma abs_sum_weight:
  assumes "J \<subseteq> {..<length xs}"
  shows "\<bar>\<Sum>j \<in> J. xs ! j * ys ! j\<bar> \<le> weight xs ys"
proof -
  have "\<bar>\<Sum>j \<in> J. xs ! j * ys ! j\<bar> \<le> (\<Sum>j \<in> J. \<bar>xs ! j * ys ! j\<bar>)" by (rule sum_abs)
  also have "\<dots> \<le> weight xs ys" unfolding weight_def using assms by (intro sum_mono2) auto
  finally show ?thesis .
qed

lemma dot_loop_exact:
  assumes rnd: "exact_on_ints rnd" and len: "length xs = length ys" and w: "weight xs ys \<le> 2 ^ 53"
    and "m \<le> i" and "i \<le> n" and "n \<le> length xs"
  shows "dot_loop rnd (map of_int xs) (map of_int ys) i n (of_int (part xs ys m i)) = Inr (of_int (part xs ys m n))"
  using assms(4-6)
proof (induction "n - i" arbitrary: i)
  case 0
  then show ?case by (subst dot_loop.simps) simp
next
  case (Suc k)
  then have i: "i < n" "i < length xs" by auto
  have step: "part xs ys m (i + 1) = part xs ys m i + xs ! i * ys ! i"
    using Suc.prems by (simp add: part_def)
  have "\<bar>xs ! i * ys ! i\<bar> \<le> 2 ^ 53" using abs_sum_weight [of "{i}" xs ys] i w by simp
  then have r1: "rnd (of_int (xs ! i * ys ! i)) = of_int (xs ! i * ys ! i)" using rnd by (simp only: exact_on_ints_def)
  have "\<bar>part xs ys m (i + 1)\<bar> \<le> 2 ^ 53"
    unfolding part_def by (rule order_trans [OF abs_sum_weight w]) (use i in auto)
  then have r2: "rnd (of_int (part xs ys m (i + 1))) = of_int (part xs ys m (i + 1))" using rnd by (simp only: exact_on_ints_def)
  have "rnd (of_int (part xs ys m i) + rnd (of_int (xs ! i) * of_int (ys ! i))) = of_int (part xs ys m (i + 1))"
    using r1 r2 step by simp
  moreover have "dot_loop rnd (map of_int xs) (map of_int ys) (i + 1) n (of_int (part xs ys m (i + 1))) = Inr (of_int (part xs ys m n))"
    using Suc by auto
  ultimately show ?case using i len by (subst dot_loop.simps) simp
qed

text \<open>The sum is that of the parts already added.\<close>

definition dot_ok :: "int list \<Rightarrow> int list \<Rightarrow> nat \<Rightarrow> nat \<Rightarrow> dot_sys \<Rightarrow> bool" where
  "dot_ok xs ys nthr len s \<longleftrightarrow>
     vec_a (dotstr s) = map of_int xs \<and> vec_b (dotstr s) = map of_int ys \<and> veclen (dotstr s) = len \<and> length (callThd s) = nthr \<and>
     (\<forall>i < nthr. \<forall>m. callThd s ! i = DAdd m \<longrightarrow> m = of_int (part xs ys (i * len) (i * len + len))) \<and>
     dot_sum (dotstr s) = of_int (\<Sum>i | i < nthr \<and> callThd s ! i = DDone. part xs ys (i * len) (i * len + len))"

lemma part_union:
  assumes "finite I"
  shows "(\<Sum>i \<in> I. part xs ys (i * len) (i * len + len)) = (\<Sum>j \<in> (\<Union>i \<in> I. {i * len..<i * len + len}). xs ! j * ys ! j)"
proof -
  have "{i * len..<i * len + len} \<inter> {k * len..<k * len + len} = {}" if "i < k" for i k :: nat
    using mult_le_mono1 [of "Suc i" k len] that by auto
  then have "{i * len..<i * len + len} \<inter> {k * len..<k * len + len} = {}" if "i \<noteq> k" for i k :: nat
    using that by (cases i k rule: linorder_cases) (auto simp: Int_commute)
  then show ?thesis unfolding part_def using assms by (subst sum.UNION_disjoint) auto
qed

lemma part_inside: "i < nthr \<Longrightarrow> i * len + len \<le> nthr * (len :: nat)"
  using mult_le_mono1 [of "Suc i" nthr len] by simp

definition dot_exec :: "(real \<Rightarrow> real) \<Rightarrow> dot_sys \<Rightarrow> nat \<Rightarrow> dot_sys option" where
  "dot_exec rnd s i = dotprod rnd i s"

definition dot_data_ok :: "(real \<Rightarrow> real) \<Rightarrow> int list \<Rightarrow> int list \<Rightarrow> nat \<Rightarrow> nat \<Rightarrow> bool" where
  "dot_data_ok rnd xs ys nthr len \<longleftrightarrow> exact_on_ints rnd \<and> length xs = nthr * len \<and> length ys = nthr * len \<and> weight xs ys \<le> 2 ^ 53"

lemma dot_sum_fits:
  assumes d: "dot_data_ok rnd xs ys nthr len" and "I \<subseteq> {..<nthr}"
  shows "\<bar>\<Sum>i \<in> I. part xs ys (i * len) (i * len + len)\<bar> \<le> 2 ^ 53"
proof -
  have "finite I" using assms(2) by (rule finite_subset) simp
  moreover have "(\<Union>i \<in> I. {i * len..<i * len + len}) \<subseteq> {..<length xs}"
    using assms part_inside [of _ nthr len] by (force simp: dot_data_ok_def)
  ultimately show ?thesis
    using abs_sum_weight [of "\<Union>i \<in> I. {i * len..<i * len + len}" xs ys] d by (simp add: part_union dot_data_ok_def)
qed

lemma dotprod_part_exact:
  assumes d: "dot_data_ok rnd xs ys nthr len" and s: "dot_ok xs ys nthr len s" and "i < nthr"
  shows "dotprod_part rnd i (dotstr s) = Inr (of_int (part xs ys (i * len) (i * len + len)))"
proof -
  have "dot_loop rnd (map of_int xs) (map of_int ys) (i * len) (i * len + len) (of_int (part xs ys (i * len) (i * len))) =
      Inr (of_int (part xs ys (i * len) (i * len + len)))"
    by (rule dot_loop_exact) (use d part_inside [OF assms(3), of len] in \<open>auto simp: dot_data_ok_def\<close>)
  with s show ?thesis by (simp add: dotprod_part_def dot_ok_def part_def Let_def)
qed

lemma dot_exec_ok:
  assumes d: "dot_data_ok rnd xs ys nthr len" and s: "dot_ok xs ys nthr len s" and e: "dot_exec rnd s i = Some t"
  shows "dot_ok xs ys nthr len t"
proof -
  let ?p = "\<lambda>i. part xs ys (i * len) (i * len + len)"
  have i: "i < nthr" "i < length (callThd s)" using e s by (auto simp: dot_exec_def dotprod_def dot_ok_def split: if_splits)
  show ?thesis
  proof (cases "callThd s ! i")
    case DStart
    with e i dotprod_part_exact [OF d s i(1)] have "t = s\<lparr>callThd := (callThd s)[i := DAdd (of_int (?p i))]\<rparr>"
      by (simp add: dot_exec_def dotprod_def)
    moreover have "{k. k < nthr \<and> (callThd s)[i := DAdd (of_int (?p i))] ! k = DDone} = {k. k < nthr \<and> callThd s ! k = DDone}"
      using DStart i by (auto simp: nth_list_update)
    ultimately show ?thesis using s i by (auto simp: dot_ok_def nth_list_update)
  next
    case (DAdd m)
    let ?D = "{k. k < nthr \<and> callThd s ! k = DDone}"
    have m: "m = of_int (?p i)" using s DAdd i by (simp add: dot_ok_def)
    have D: "{k. k < nthr \<and> (callThd s)[i := DDone] ! k = DDone} = insert i ?D" using i by (auto simp: nth_list_update)
    have "\<bar>\<Sum>k \<in> insert i ?D. ?p k\<bar> \<le> 2 ^ 53" by (rule dot_sum_fits [OF d]) (use i in auto)
    moreover have "(\<Sum>k \<in> insert i ?D. ?p k) = ?p i + (\<Sum>k \<in> ?D. ?p k)" using DAdd by simp
    moreover have "dot_sum (dotstr s) = of_int (\<Sum>k \<in> ?D. ?p k)" using s by (simp add: dot_ok_def)
    moreover have "exact_on_ints rnd" using d by (simp add: dot_data_ok_def)
    ultimately have "rnd (dot_sum (dotstr s) + m) = of_int (\<Sum>k \<in> insert i ?D. ?p k)"
      using m by (metis (no_types, lifting) add.commute exact_on_ints_def of_int_add)
    moreover have "t = s\<lparr>dotstr := (dotstr s)\<lparr>dot_sum := rnd (dot_sum (dotstr s) + m)\<rparr>, callThd := (callThd s)[i := DDone]\<rparr>"
      using e DAdd i by (simp add: dot_exec_def dotprod_def)
    ultimately show ?thesis using s i D by (auto simp: dot_ok_def nth_list_update)
  qed (use e i in \<open>simp add: dot_exec_def dotprod_def\<close>)
qed

definition dot_init :: "int list \<Rightarrow> int list \<Rightarrow> nat \<Rightarrow> nat \<Rightarrow> dot_sys \<Rightarrow> bool" where
  "dot_init xs ys nthr len s \<longleftrightarrow> s = dot_start nthr len (map of_int xs) (map of_int ys)"

interpretation dot_product: invariant_system "dot_init xs ys nthr len" "dot_exec rnd"
  "\<lambda>s. dot_data_ok rnd xs ys nthr len \<longrightarrow> dot_ok xs ys nthr len s" for rnd xs ys nthr len
proof
  show "dot_init xs ys nthr len s \<Longrightarrow> dot_data_ok rnd xs ys nthr len \<longrightarrow> dot_ok xs ys nthr len s" for s
    by (auto simp: dot_init_def dot_start_def dot_ok_def intro!: sum.neutral)
qed (blast intro: dot_exec_ok)

text \<open>Together the parts are the whole product.\<close>

lemma dot_parts: "(\<Sum>i < nthr. part xs ys (i * len) (i * len + len)) = (\<Sum>j < nthr * len. xs ! j * ys ! j)"
proof -
  have "(\<Union>i < nthr. {i * len..<i * len + len}) = {..<nthr * len}"
  proof (rule set_eqI)
    fix j
    have "j < nthr * len \<Longrightarrow> j div len < nthr \<and> (j div len) * len \<le> j \<and> j < (j div len) * len + len"
      using less_mult_imp_div_less [of j nthr len] dividend_less_div_times [of len j] by (cases "len = 0") (auto simp: add.commute)
    then show "j \<in> (\<Union>i < nthr. {i * len..<i * len + len}) \<longleftrightarrow> j \<in> {..<nthr * len}"
      using part_inside [of _ nthr len] by fastforce
  qed
  then show ?thesis by (simp add: part_union)
qed

text \<open>The sum is the dot product of the vectors, in whatever order the threads come to add their parts,
  for integer data whose products add up to at most \<open>2 ^ 53\<close> in absolute value; and no thread reads
  outside the vectors: one that is not done can always make its next step.\<close>

theorem dotprod_sum:
  assumes "reach (dot_init xs ys nthr len) (dot_exec rnd) s" and "exact_on_ints rnd"
    and "length xs = nthr * len" and "length ys = nthr * len" and "(\<Sum>j < nthr * len. \<bar>xs ! j * ys ! j\<bar>) \<le> 2 ^ 53"
  shows "(list_all (\<lambda>p. p = DDone) (callThd s) \<longrightarrow> dot_sum (dotstr s) = of_int (\<Sum>j < nthr * len. xs ! j * ys ! j)) \<and>
         (\<forall>i < nthr. callThd s ! i \<noteq> DDone \<longrightarrow> dotprod rnd i s \<noteq> None)"
proof -
  have d: "dot_data_ok rnd xs ys nthr len" using assms(2-5) by (simp add: dot_data_ok_def weight_def)
  with dot_product.reach_inv [OF assms(1)] have s: "dot_ok xs ys nthr len s" by blast
  have "dot_sum (dotstr s) = of_int (\<Sum>j < nthr * len. xs ! j * ys ! j)" if "list_all (\<lambda>p. p = DDone) (callThd s)"
  proof -
    have "{i. i < nthr \<and> callThd s ! i = DDone} = {..<nthr}" using s that by (auto simp: dot_ok_def list_all_length)
    with s dot_parts [of xs ys len nthr] show ?thesis by (simp add: dot_ok_def)
  qed
  moreover have "dotprod rnd i s \<noteq> None" if "i < nthr" "callThd s ! i \<noteq> DDone" for i
    using that s dotprod_part_exact [OF d s that(1)] by (auto simp: dotprod_def dot_ok_def split: dot_pc.splits)
  ultimately show ?thesis by blast
qed

theorem dotprod_sum_witness:
  "\<exists>s. run (dot_exec (\<lambda>x. x)) (dot_start 2 2 [1, 2, 3, 4] [1, 1, 2, 2]) [1, 0, 1, 0] = Some s \<and> dot_sum (dotstr s) = 17"
proof -
  let ?xs = "[1, 2, 3, 4 :: int]" and ?ys = "[1, 1, 2, 2 :: int]"
  let ?run = "run (dot_exec (\<lambda>x. x)) (dot_start 2 2 (map of_int ?xs) (map of_int ?ys)) [1, 0, 1, 0]"
  have "\<exists>s. ?run = Some s \<and> list_all (\<lambda>p. p = DDone) (callThd s)"
    by (simp add: dot_exec_def dotprod_def dotprod_part_def dot_start_def dot_loop.simps Let_def numeral_2_eq_2)
  then obtain s where s: "?run = Some s" "list_all (\<lambda>p. p = DDone) (callThd s)" by blast
  have r: "reach (dot_init ?xs ?ys 2 2) (dot_exec (\<lambda>x. x)) s"
    by (rule reach_by_run [of "dot_init ?xs ?ys 2 2", OF _ s(1)]) (simp add: dot_init_def)
  have "exact_on_ints (\<lambda>x. x)" "length ?xs = 2 * 2" "length ?ys = 2 * 2" "(\<Sum>j < 2 * 2. \<bar>?xs ! j * ?ys ! j\<bar>) \<le> 2 ^ 53"
    "(\<Sum>j < 2 * 2. ?xs ! j * ?ys ! j) = 17"
    by (simp_all add: exact_on_ints_def numeral_eq_Suc)
  note facts = this
  have "dot_sum (dotstr s) = of_int (\<Sum>j < 2 * 2. ?xs ! j * ?ys ! j)" using dotprod_sum [OF r facts(1-4)] s(2) by blast
  then have "dot_sum (dotstr s) = 17" unfolding facts(5) by simp
  with s(1) show ?thesis by (intro exI [of _ s]) simp
qed

text \<open>The program itself prints 400000.\<close>

lemma dot_main_sum:
  assumes "run (dot_exec rnd) dot_main es = Some s" and "exact_on_ints rnd" and "list_all (\<lambda>p. p = DDone) (callThd s)"
  shows "dot_sum (dotstr s) = 400000"
proof -
  let ?n = "NUMTHRDS * VECLEN" and ?ones = "replicate (NUMTHRDS * VECLEN) (1 :: int)"
  have r: "reach (dot_init ?ones ?ones NUMTHRDS VECLEN) (dot_exec rnd) s"
    by (rule reach_by_run [of "dot_init ?ones ?ones NUMTHRDS VECLEN", OF _ assms(1)]) (simp add: dot_init_def dot_main_def)
  have sums: "(\<Sum>j < ?n. ?ones ! j * ?ones ! j) = 400000" "(\<Sum>j < ?n. \<bar>?ones ! j * ?ones ! j\<bar>) \<le> 2 ^ 53"
    by (simp_all add: NUMTHRDS_def VECLEN_def)
  have d: "dot_data_ok rnd ?ones ?ones NUMTHRDS VECLEN"
    using assms(2) sums(2) by (simp add: dot_data_ok_def weight_def)
  then have "dot_ok ?ones ?ones NUMTHRDS VECLEN s" using dot_product.reach_inv [OF r] by blast
  with assms(3) have "dot_sum (dotstr s) = of_int (\<Sum>i < NUMTHRDS. part ?ones ?ones (i * VECLEN) (i * VECLEN + VECLEN))"
    by (subst (asm) dot_ok_def) (auto simp: list_all_length intro!: sum.cong)
  then show ?thesis using sums(1) by (simp only: dot_parts of_int_numeral)
qed

end
