(* ===== verification/Wakeups.thy ===== *)
theory Wakeups
  imports Pthread
begin

text \<open>
  Programs in which the main thread sleeps until the fifth event: \<open>sigwait.c\<close> (a thread counts \<open>SIGINT\<close>s),
  \<open>sigev_thread.c\<close> (a thread per expiration of a timer), and \<open>semaphore_signal.c\<close>, where a timer's signal
  handler posts a semaphore that threads wait for. The first two share the contract of the locale
  \<open>predicate_wait\<close>: a thread that waits for a predicate under a mutex never sleeps while it is true and
  goes on only when it is.
\<close>

section \<open>Waiting for a predicate\<close>

locale predicate_wait =
  fixes init :: "'s \<Rightarrow> bool" and exec :: "'s \<Rightarrow> 'e \<Rightarrow> 's option"
    and go :: "'s \<Rightarrow> bool" and sleeper :: "'s \<Rightarrow> (unit, unit) tstate"
  assumes start: "init s \<Longrightarrow> sleeper s = Ready ()"
    and asleep: "exec s e = Some t \<Longrightarrow> \<not> (is_waiting () (sleeper s) \<and> go s) \<Longrightarrow> \<not> (is_waiting () (sleeper t) \<and> go t)"
    and finish: "exec s e = Some t \<Longrightarrow> sleeper t = Finished \<Longrightarrow> sleeper s = Finished \<or> go t"
    and stable: "exec s e = Some t \<Longrightarrow> go s \<Longrightarrow> go t"
begin

lemma waits_inv: "invariant_system init exec (\<lambda>s. \<not> (is_waiting () (sleeper s) \<and> go s) \<and> (sleeper s = Finished \<longrightarrow> go s))"
proof
  show "init s \<Longrightarrow> \<not> (is_waiting () (sleeper s) \<and> go s) \<and> (sleeper s = Finished \<longrightarrow> go s)" for s
    using start by simp
  show "\<not> (is_waiting () (sleeper t) \<and> go t) \<and> (sleeper t = Finished \<longrightarrow> go t)"
    if "\<not> (is_waiting () (sleeper s) \<and> go s) \<and> (sleeper s = Finished \<longrightarrow> go s)" "exec s e = Some t" for s e t
    using that asleep [OF that(2)] finish [OF that(2)] stable [OF that(2)] by blast
qed

lemma never_oversleeps: "reach init exec s \<Longrightarrow> go s \<Longrightarrow> \<not> is_waiting () (sleeper s)"
  using invariant_system.reach_inv [OF waits_inv] by blast

lemma finished_only_then: "reach init exec s \<Longrightarrow> sleeper s = Finished \<Longrightarrow> go s"
  using invariant_system.reach_inv [OF waits_inv] by blast

end

section \<open>Five interrupts\<close>

record sw_sys =
  signal_count :: nat
  interrupted :: int
  waiter_done :: bool
  sw_main :: "(unit, unit) tstate"

text \<open>\<open>sigwait\<close> returns with a \<open>SIGINT\<close>.\<close>

definition signal_waiter :: "sw_sys \<Rightarrow> sw_sys option" where
  "signal_waiter s =
     (if waiter_done s then None
      else let s = s\<lparr>signal_count := signal_count s + 1\<rparr>
           in if signal_count s \<ge> 5
              then Some (s\<lparr>interrupted := 1, sw_main := wake () (sw_main s), waiter_done := True\<rparr>)
              else Some s)"

definition sw_wait :: "sw_sys \<Rightarrow> sw_sys option" where
  "sw_wait s =
     (case sw_main s of
        Ready _ \<Rightarrow> Some (s\<lparr>sw_main := (if interrupted s = 0 then Waiting () () else Finished)\<rparr>)
      | _ \<Rightarrow> None)"

datatype wakeup_event = Happens | MainSteps | SpuriousReturn

fun sw_exec :: "sw_sys \<Rightarrow> wakeup_event \<Rightarrow> sw_sys option" where
  "sw_exec s Happens = signal_waiter s"
| "sw_exec s MainSteps = sw_wait s"
| "sw_exec s SpuriousReturn = Some (s\<lparr>sw_main := wake () (sw_main s)\<rparr>)"

definition sw_start :: sw_sys where
  "sw_start = \<lparr>signal_count = 0, interrupted = 0, waiter_done = False, sw_main = Ready ()\<rparr>"

interpretation five_signals: predicate_wait "\<lambda>s. s = sw_start" sw_exec "\<lambda>s. interrupted s \<noteq> 0" sw_main
proof
  fix s e t assume e: "sw_exec s e = Some t"
  show "\<not> (is_waiting () (sw_main t) \<and> interrupted t \<noteq> 0)" if "\<not> (is_waiting () (sw_main s) \<and> interrupted s \<noteq> 0)"
    using e that by (cases e; cases "sw_main s") (auto simp: signal_waiter_def sw_wait_def Let_def split: if_splits)
  show "sw_main s = Finished \<or> interrupted t \<noteq> 0" if "sw_main t = Finished"
    using e that by (cases e; cases "sw_main s") (auto simp: signal_waiter_def sw_wait_def Let_def split: if_splits)
  show "interrupted t \<noteq> 0" if "interrupted s \<noteq> 0"
    using e that by (cases e) (auto simp: signal_waiter_def sw_wait_def Let_def split: if_splits tstate.splits)
qed (simp add: sw_start_def)

interpretation five_count: invariant_system "\<lambda>s. s = sw_start" sw_exec
  "\<lambda>s. signal_count s \<le> 5 \<and> (interrupted s \<noteq> 0 \<longleftrightarrow> signal_count s = 5) \<and> (waiter_done s \<longleftrightarrow> signal_count s = 5)"
proof
  fix s e t
  assume "signal_count s \<le> 5 \<and> (interrupted s \<noteq> 0 \<longleftrightarrow> signal_count s = 5) \<and> (waiter_done s \<longleftrightarrow> signal_count s = 5)"
    and "sw_exec s e = Some t"
  then show "signal_count t \<le> 5 \<and> (interrupted t \<noteq> 0 \<longleftrightarrow> signal_count t = 5) \<and> (waiter_done t \<longleftrightarrow> signal_count t = 5)"
    by (cases e) (auto simp: signal_waiter_def sw_wait_def Let_def split: if_splits tstate.splits)
qed (simp add: sw_start_def)

text \<open>The main thread ends only after five interrupts, and after five it is awake.\<close>

lemma sigwait_five:
  assumes "reach (\<lambda>s. s = sw_start) sw_exec s"
  shows "(sw_main s = Finished \<longrightarrow> signal_count s = 5) \<and> (signal_count s = 5 \<longrightarrow> \<not> is_waiting () (sw_main s))"
  using five_signals.finished_only_then [OF assms] five_signals.never_oversleeps [OF assms] five_count.reach_inv [OF assms] by blast

section \<open>Five expirations\<close>

record tm_sys =
  tm_counter :: nat
  tm_main :: "(unit, unit) tstate"

definition timer_thread :: "tm_sys \<Rightarrow> tm_sys" where
  "timer_thread s =
     (let s = s\<lparr>tm_counter := tm_counter s + 1\<rparr>
      in if tm_counter s \<ge> 5 then s\<lparr>tm_main := wake () (tm_main s)\<rparr> else s)"

definition tm_wait :: "tm_sys \<Rightarrow> tm_sys option" where
  "tm_wait s =
     (case tm_main s of
        Ready _ \<Rightarrow> Some (s\<lparr>tm_main := (if tm_counter s < 5 then Waiting () () else Finished)\<rparr>)
      | _ \<Rightarrow> None)"

fun tm_exec :: "tm_sys \<Rightarrow> wakeup_event \<Rightarrow> tm_sys option" where
  "tm_exec s Happens = Some (timer_thread s)"
| "tm_exec s MainSteps = tm_wait s"
| "tm_exec s SpuriousReturn = Some (s\<lparr>tm_main := wake () (tm_main s)\<rparr>)"

definition tm_start :: tm_sys where
  "tm_start = \<lparr>tm_counter = 0, tm_main = Ready ()\<rparr>"

interpretation five_timers: predicate_wait "\<lambda>s. s = tm_start" tm_exec "\<lambda>s. tm_counter s \<ge> 5" tm_main
proof
  fix s e t assume e: "tm_exec s e = Some t"
  show "\<not> (is_waiting () (tm_main t) \<and> tm_counter t \<ge> 5)" if "\<not> (is_waiting () (tm_main s) \<and> tm_counter s \<ge> 5)"
    using e that by (cases e; cases "tm_main s") (auto simp: timer_thread_def tm_wait_def Let_def split: if_splits)
  show "tm_main s = Finished \<or> tm_counter t \<ge> 5" if "tm_main t = Finished"
    using e that by (cases e; cases "tm_main s") (auto simp: timer_thread_def tm_wait_def Let_def split: if_splits)
  show "tm_counter t \<ge> 5" if "tm_counter s \<ge> 5"
    using e that by (cases e) (auto simp: timer_thread_def tm_wait_def Let_def split: if_splits tstate.splits)
qed (simp add: tm_start_def)

lemma timer_five:
  assumes "reach (\<lambda>s. s = tm_start) tm_exec s"
  shows "(tm_main s = Finished \<longrightarrow> 5 \<le> tm_counter s) \<and> (5 \<le> tm_counter s \<longrightarrow> \<not> is_waiting () (tm_main s))"
  using five_timers.finished_only_then [OF assms] five_timers.never_oversleeps [OF assms] by blast

section \<open>A semaphore posted by a signal handler\<close>

record sem_sys =
  sem_value :: nat
  sem_counters :: "nat list"
  sem_posts :: nat

definition SEM_THREADS :: nat where "SEM_THREADS = 1"

text \<open>The handler posts twice.\<close>

definition signal_catcher :: "sem_sys \<Rightarrow> sem_sys" where
  "signal_catcher s = s\<lparr>sem_value := sem_value s + 2, sem_posts := sem_posts s + 2\<rparr>"

text \<open>One pass of the loop of a waiter; a wait interrupted by the signal is tried again.\<close>

definition sem_waiter :: "nat \<Rightarrow> sem_sys \<Rightarrow> sem_sys option" where
  "sem_waiter i s =
     (if i < length (sem_counters s) \<and> sem_counters s ! i < 5 \<and> 0 < sem_value s
      then Some (s\<lparr>sem_value := sem_value s - 1, sem_counters := (sem_counters s)[i := sem_counters s ! i + 1]\<rparr>)
      else None)"

fun sem_exec :: "sem_sys \<Rightarrow> nat option \<Rightarrow> sem_sys option" where
  "sem_exec s None = Some (signal_catcher s)"
| "sem_exec s (Some i) = sem_waiter i s"

definition sem_start :: sem_sys where
  "sem_start = \<lparr>sem_value = 0, sem_counters = replicate SEM_THREADS 0, sem_posts = 0\<rparr>"

text \<open>\<open>main\<close> joins five threads out of an array of \<open>SEM_THREADS\<close>.\<close>

function sem_join :: "nat \<Rightarrow> fault + unit" where
  "sem_join i = (if i < 5 then if i < SEM_THREADS then sem_join (i + 1) else Inl OutOfBounds else Inr ())"
  by pat_completeness auto
termination
  by (relation "measure (\<lambda>i. 5 - i)") auto

declare sem_join.simps [simp del]

lemma sum_list_inc: "i < length xs \<Longrightarrow> sum_list (xs[i := xs ! i + 1]) = sum_list xs + (1 :: nat)"
  by (induction xs arbitrary: i) (auto simp: nth_Cons split: nat.splits)

interpretation sem_waits: invariant_system "\<lambda>s. s = sem_start" sem_exec
  "\<lambda>s. sem_value s + sum_list (sem_counters s) = sem_posts s \<and> (\<forall>c \<in> set (sem_counters s). c \<le> 5)"
proof
  fix s e t
  assume inv: "sem_value s + sum_list (sem_counters s) = sem_posts s \<and> (\<forall>c \<in> set (sem_counters s). c \<le> 5)"
    and e: "sem_exec s e = Some t"
  show "sem_value t + sum_list (sem_counters t) = sem_posts t \<and> (\<forall>c \<in> set (sem_counters t). c \<le> 5)"
  proof (cases e)
    case (Some i)
    with e have i: "i < length (sem_counters s)" "sem_counters s ! i < 5" "0 < sem_value s"
      "t = s\<lparr>sem_value := sem_value s - 1, sem_counters := (sem_counters s)[i := sem_counters s ! i + 1]\<rparr>"
      by (auto simp: sem_waiter_def split: if_splits)
    with inv sum_list_inc [OF i(1)] show ?thesis by (auto dest!: set_update_subset_insert [THEN subsetD])
  qed (use inv e in \<open>auto simp: signal_catcher_def\<close>)
qed (simp add: sem_start_def)

text \<open>Every wake-up has a post; the join loop of \<open>main\<close> runs over the end of its array.\<close>

lemma sem_wakes_posted:
  "reach (\<lambda>s. s = sem_start) sem_exec s \<Longrightarrow> sum_list (sem_counters s) \<le> sem_posts s"
  using sem_waits.reach_inv by fastforce

lemma sem_join_overruns: "sem_join 0 = Inl OutOfBounds"
  by (simp add: sem_join.simps [of 0] sem_join.simps [of "Suc 0"] SEM_THREADS_def)

end
