(* ===== verification/Cancel.thy ===== *)
theory Cancel
  imports Pthread
begin

text \<open>
  Cancellation: \<open>cancel_cleanp.c\<close>, where threads wait for a condition that never comes and a cleanup
  handler keeps a counter right when they are cancelled, and \<open>cancel_subcontract.c\<close>, where the cleanup
  handler of a contractor cancels and detaches its workers, and a worker notices the request at its
  next cancellation point.
\<close>

section \<open>Cleanup around a condition wait\<close>

record control_t =
  cc_counter :: int
  busy :: int

datatype cc_pc = CcStart | CcLoop

record cc_sys =
  control :: control_t
  cc_thr :: "(unit, cc_pc) tstate list"

definition cleanup_handler :: "control_t \<Rightarrow> control_t" where
  "cleanup_handler st = st\<lparr>cc_counter := cc_counter st - 1\<rparr>"

text \<open>The loop test, with the mutex held: wait, or run the handler through \<open>pthread_cleanup_pop(1)\<close> and return.\<close>

definition cc_test :: "nat \<Rightarrow> cc_sys \<Rightarrow> cc_sys" where
  "cc_test i s =
     (if busy (control s) \<noteq> 0 then s\<lparr>cc_thr := (cc_thr s)[i := Waiting () CcLoop]\<rparr>
      else s\<lparr>control := cleanup_handler (control s), cc_thr := (cc_thr s)[i := Finished]\<rparr>)"

definition cc_routine :: "nat \<Rightarrow> cc_sys \<Rightarrow> cc_sys option" where
  "cc_routine i s =
     (if i < length (cc_thr s) then
        case cc_thr s ! i of
          Ready CcStart \<Rightarrow> Some (cc_test i (s\<lparr>control := (control s)\<lparr>cc_counter := cc_counter (control s) + 1\<rparr>\<rparr>))
        | Ready CcLoop \<Rightarrow> Some (cc_test i s)
        | _ \<Rightarrow> None
      else None)"

text \<open>A cancelled wait reacquires the mutex, runs the handler, and ends the thread.\<close>

definition cc_cancel :: "nat \<Rightarrow> cc_sys \<Rightarrow> cc_sys option" where
  "cc_cancel i s =
     (if i < length (cc_thr s) then
        case cc_thr s ! i of
          Waiting _ CcLoop \<Rightarrow> Some (s\<lparr>control := cleanup_handler (control s), cc_thr := (cc_thr s)[i := Finished]\<rparr>)
        | _ \<Rightarrow> None
      else None)"

datatype cc_event = CcStep nat | CcCancel nat | CcSpurious nat

fun cc_exec :: "cc_sys \<Rightarrow> cc_event \<Rightarrow> cc_sys option" where
  "cc_exec s (CcStep i) = cc_routine i s"
| "cc_exec s (CcCancel i) = cc_cancel i s"
| "cc_exec s (CcSpurious i) = Some (s\<lparr>cc_thr := spurious i () (cc_thr s)\<rparr>)"

definition cc_start :: "nat \<Rightarrow> cc_sys" where
  "cc_start n = \<lparr>control = \<lparr>cc_counter = 0, busy = 1\<rparr>, cc_thr = replicate n (Ready CcStart)\<rparr>"

fun cc_inside :: "(unit, cc_pc) tstate \<Rightarrow> bool" where
  "cc_inside (Ready p) = (p = CcLoop)"
| "cc_inside (Waiting _ p) = (p = CcLoop)"
| "cc_inside Finished = False"

lemma cc_inside_stable: "wake_stable cc_inside"
  by (rule wake_stableI) simp

text \<open>The counter is the number of threads inside.\<close>

interpretation cc: invariant_system "\<lambda>s. s = cc_start n" cc_exec "\<lambda>s. cc_counter (control s) = cnt cc_inside (cc_thr s)" for n
proof
  fix s e t
  assume inv: "cc_counter (control s) = cnt cc_inside (cc_thr s)" and e: "cc_exec s e = Some t"
  show "cc_counter (control t) = cnt cc_inside (cc_thr t)"
  proof (cases e)
    case (CcStep i)
    with inv e show ?thesis
      by (auto simp: cc_routine_def cc_test_def cleanup_handler_def cnt_upd split: if_splits tstate.splits cc_pc.splits)
  next
    case (CcCancel i)
    with inv e show ?thesis
      by (auto simp: cc_cancel_def cleanup_handler_def cnt_upd split: if_splits tstate.splits cc_pc.splits)
  next
    case (CcSpurious i)
    with inv e show ?thesis using cnt_spurious [OF cc_inside_stable, of i "()" "cc_thr s"] by auto
  qed
qed (simp add: cc_start_def cnt_replicate)

lemma cancelled_all_zero:
  assumes "reach (\<lambda>s. s = cc_start n) cc_exec s" and "\<forall>t \<in> set (cc_thr s). t = Finished"
  shows "cc_counter (control s) = 0"
  using cc.reach_inv [OF assms(1)] assms(2) by (auto simp: cnt_zero_iff)

section \<open>A team of workers\<close>

definition TEAM_THREADS :: nat where "TEAM_THREADS = 3"

record worker_t =
  canceled :: bool
  detached :: bool

text \<open>The worker loop, with a cancellation request pending: the number of iterations until it is noticed.\<close>

function worker_routine :: "nat \<Rightarrow> nat" where
  "worker_routine c = (if c mod 1000 = 0 then 0 else Suc (worker_routine (c + 1)))"
  by pat_completeness auto
termination
proof (relation "measure (\<lambda>c. (1000 - c mod 1000) mod 1000)")
  fix c :: nat assume "c mod 1000 \<noteq> 0"
  then have "(1000 - c mod 1000) mod 1000 = 1000 - c mod 1000" by simp
  moreover have "(1000 - (c + 1) mod 1000) mod 1000 < 1000 - c mod 1000"
    using mod_less_divisor [of 1000 c] by (cases "c mod 1000 = 999") (auto simp: mod_Suc)
  ultimately show "(c + 1, c) \<in> measure (\<lambda>c. (1000 - c mod 1000) mod 1000)" by simp
qed simp

declare worker_routine.simps [simp del]

text \<open>The handler cancels and detaches every worker; \<open>st k\<close> are the statuses of the two calls for worker \<open>k\<close>.\<close>

function cleanup :: "(nat \<Rightarrow> int \<times> int) \<Rightarrow> nat \<Rightarrow> worker_t list \<Rightarrow> fault + worker_t list" where
  "cleanup st k ws =
     (if k < TEAM_THREADS then
        if length ws \<le> k then Inl OutOfBounds
        else if fst (st k) \<noteq> 0 then Inl (Aborted (fst (st k)))
        else let ws = ws[k := (ws ! k)\<lparr>canceled := True\<rparr>]
             in if snd (st k) \<noteq> 0 then Inl (Aborted (snd (st k)))
                else cleanup st (k + 1) (ws[k := (ws ! k)\<lparr>detached := True\<rparr>])
      else Inr ws)"
  by pat_completeness auto
termination
  by (relation "measure (\<lambda>(st, k, ws). TEAM_THREADS - k)") auto

declare cleanup.simps [simp del]

text \<open>The contractor joins worker 1 in every pass of its loop: the second join names a thread that is gone.\<close>

function team_join :: "nat \<Rightarrow> bool \<Rightarrow> fault + unit" where
  "team_join join_i gone =
     (if join_i < TEAM_THREADS then if gone then Inl (Aborted 3) else team_join (join_i + 1) True else Inr ())"
  by pat_completeness auto
termination
  by (relation "measure (\<lambda>(join_i, gone). TEAM_THREADS - join_i)") auto

declare team_join.simps [simp del]

lemma worker_notices: "(c + worker_routine c) mod 1000 = 0 \<and> worker_routine c < 1000"
proof -
  have w: "worker_routine c = (1000 - c mod 1000) mod 1000"
  proof (induction c rule: worker_routine.induct)
    case (1 c)
    show ?case
    proof (cases "c mod 1000 = 0")
      case False
      obtain m where m: "c mod 1000 = m" "m < 1000" by simp
      with False have "(c + 1) mod 1000 = (if m = 999 then 0 else m + 1)" by (simp add: mod_Suc)
      with False 1 m show ?thesis by (subst worker_routine.simps) (auto split: if_splits)
    qed (simp add: worker_routine.simps)
  qed
  have "c mod 1000 < 1000" by simp
  moreover have "1000 * q + m + (1000 - m) = 1000 * Suc q" if "m < 1000" for q m :: nat using that by simp
  ultimately have "1000 * (c div 1000) + c mod 1000 + (1000 - c mod 1000) = 1000 * Suc (c div 1000)" by blast
  then have "c + (1000 - c mod 1000) = 1000 * Suc (c div 1000)" by (simp only: mult_div_mod_eq)
  then have "(c + (1000 - c mod 1000)) mod 1000 = 0" by (simp only: mod_mult_self1_is_0)
  then have "(c + (1000 - c mod 1000) mod 1000) mod 1000 = 0" by (simp add: mod_add_right_eq)
  with w show ?thesis by simp
qed

lemma cleanup_all:
  assumes "length ws = TEAM_THREADS" and "\<forall>k < TEAM_THREADS. st k = (0, 0)"
  shows "cleanup st 0 ws = Inr (map (\<lambda>w. w\<lparr>canceled := True, detached := True\<rparr>) ws)"
proof -
  from assms(1) obtain a b c where ws: "ws = [a, b, c]"
    by (auto simp: TEAM_THREADS_def numeral_3_eq_3 length_Suc_conv)
  have "st 0 = (0, 0)" "st 1 = (0, 0)" "st 2 = (0, 0)" using assms(2) by (auto simp: TEAM_THREADS_def)
  then show ?thesis
    unfolding ws by (simp add: cleanup.simps [of st 0] cleanup.simps [of st "Suc 0"] cleanup.simps [of st "Suc (Suc 0)"]
        cleanup.simps [of st "Suc (Suc (Suc 0))"] TEAM_THREADS_def Let_def numeral_2_eq_2)
qed

lemma team_join_aborts: "team_join 0 False = Inl (Aborted 3)"
  by (simp add: team_join.simps [of 0] team_join.simps [of "Suc 0"] TEAM_THREADS_def)

end
