(* ===== verification/Streams.thy ===== *)
theory Streams
  imports Pthread C_String
begin

text \<open>
  Programs whose threads share a stdio stream: \<open>putchar.c\<close> writes strings character by character, with
  or without \<open>flockfile\<close>; \<open>flock.c\<close> prompts and reads a line under the locks of both streams. And the
  one-time initialisations of \<open>once.c\<close> and \<open>tsd_once.c\<close>.
\<close>

section \<open>Characters under a lock\<close>

text \<open>\<open>text_left ! i\<close> is what thread \<open>i\<close> still has to write; the lock has at most one holder.\<close>

record put_sys =
  text_left :: "string list"
  holder :: "nat option"
  put_done :: "nat list"
  out :: string

datatype put_event = Lock nat | Put nat | Unlock nat

text \<open>\<open>lock_routine\<close>\<close>

fun lock_exec :: "put_sys \<Rightarrow> put_event \<Rightarrow> put_sys option" where
  "lock_exec s (Lock i) =
     (if i < length (text_left s) \<and> holder s = None \<and> i \<notin> set (put_done s) then Some (s\<lparr>holder := Some i\<rparr>) else None)"
| "lock_exec s (Put i) =
     (if holder s = Some i then
        case text_left s ! i of
          [] \<Rightarrow> None
        | c # rest \<Rightarrow> Some (s\<lparr>out := out s @ [c], text_left := (text_left s)[i := rest]\<rparr>)
      else None)"
| "lock_exec s (Unlock i) =
     (if holder s = Some i \<and> text_left s ! i = [] then Some (s\<lparr>holder := None, put_done := put_done s @ [i]\<rparr>) else None)"

text \<open>\<open>unlock_routine\<close>: every character on its own.\<close>

fun unlock_exec :: "put_sys \<Rightarrow> nat \<Rightarrow> put_sys option" where
  "unlock_exec s i =
     (if i < length (text_left s) then
        case text_left s ! i of
          [] \<Rightarrow> None
        | c # rest \<Rightarrow> Some (s\<lparr>out := out s @ [c], text_left := (text_left s)[i := rest]\<rparr>)
      else None)"

definition put_start :: "string list \<Rightarrow> put_sys" where
  "put_start ts = \<lparr>text_left = ts, holder = None, put_done = [], out = []\<rparr>"

definition put_texts :: "string list" where
  "put_texts = [''This is thread 1>'' @ [CHR 0x0A], ''this is Thread 2>'' @ [CHR 0x0A], ''this Thread 3>'' @ [CHR 0x0A]]"

definition put_inv :: "string list \<Rightarrow> put_sys \<Rightarrow> bool" where
  "put_inv ts s \<longleftrightarrow> length (text_left s) = length ts \<and> distinct (put_done s) \<and> set (put_done s) \<subseteq> {..<length ts} \<and>
     (\<forall>i < length ts. i \<notin> set (put_done s) \<and> holder s \<noteq> Some i \<longrightarrow> text_left s ! i = ts ! i) \<and>
     (case holder s of
        None \<Rightarrow> out s = concat (map ((!) ts) (put_done s))
      | Some i \<Rightarrow> i < length ts \<and> i \<notin> set (put_done s) \<and>
          (\<exists>w. ts ! i = w @ text_left s ! i \<and> out s = concat (map ((!) ts) (put_done s)) @ w))"

lemma lock_exec_inv: "put_inv ts s \<Longrightarrow> lock_exec s e = Some t \<Longrightarrow> put_inv ts t"
proof (cases e)
  case (Lock i)
  assume inv: "put_inv ts s" and e: "lock_exec s e = Some t"
  with Lock have t: "t = s\<lparr>holder := Some i\<rparr>" "i < length ts" "holder s = None" "i \<notin> set (put_done s)"
    by (auto simp: put_inv_def split: if_splits)
  with inv show ?thesis by (auto simp: put_inv_def)
next
  case (Put i)
  assume inv: "put_inv ts s" and e: "lock_exec s e = Some t"
  with Put obtain c rest where t: "t = s\<lparr>out := out s @ [c], text_left := (text_left s)[i := rest]\<rparr>" "holder s = Some i"
    "text_left s ! i = c # rest" by (auto split: if_splits list.splits)
  from inv t obtain w where w: "ts ! i = w @ c # rest" "out s = concat (map ((!) ts) (put_done s)) @ w" "i < length ts"
    by (auto simp: put_inv_def)
  with inv t show ?thesis by (auto simp: put_inv_def nth_list_update intro!: exI [of _ "w @ [c]"])
next
  case (Unlock i)
  assume "put_inv ts s" "lock_exec s e = Some t"
  with Unlock show ?thesis by (auto simp: put_inv_def split: if_splits)
qed

interpretation locked_output: invariant_system "\<lambda>s. s = put_start ts" lock_exec "put_inv ts" for ts
proof
  show "s = put_start ts \<Longrightarrow> put_inv ts s" for s by (simp add: put_start_def put_inv_def)
qed (rule lock_exec_inv)

text \<open>With the lock, the output is made of whole strings, each written once; without it, it need not be.\<close>

lemma locked_strings_whole:
  assumes "reach (\<lambda>s. s = put_start ts) lock_exec s" and "holder s = None"
  shows "out s = concat (map ((!) ts) (put_done s)) \<and> distinct (put_done s)"
  using locked_output.reach_inv [OF assms(1)] assms(2) by (simp add: put_inv_def)

lemma unlocked_strings_mix:
  "\<exists>s. run unlock_exec (put_start [''ab'', ''cd'']) [0, 1, 0, 1] = Some s \<and> out s = ''acbd''"
  by (simp add: put_start_def)

section \<open>Prompts\<close>

text \<open>
  The string \<open>prompt_routine\<close> returns: a line of at most 127 characters without its newline; \<open>fgets\<close> that
  finds the end of the input gives the empty string. The locks make the whole routine one step.
\<close>

definition prompt_routine :: "string \<Rightarrow> string \<times> string" where
  "prompt_routine input =
     (case input of
        [] \<Rightarrow> ([], [])
      | _ \<Rightarrow> (case fgets 127 input of (line, rest) \<Rightarrow>
               (if line \<noteq> [] \<and> last line = CHR 0x0A then butlast line else line, rest)))"

text \<open>The threads take their turns in some order.\<close>

fun prompt_run :: "nat list \<Rightarrow> string \<Rightarrow> (nat \<times> string) list" where
  "prompt_run [] input = []"
| "prompt_run (i # is) input = (case prompt_routine input of (line, rest) \<Rightarrow> (i, line) # prompt_run is rest)"

lemma prompt_line: "CHR 0x0A \<notin> set l \<Longrightarrow> length l < 127 \<Longrightarrow> prompt_routine (l @ CHR 0x0A # r) = (l, r)"
proof -
  have "fgets n (l @ CHR 0x0A # r) = (l @ [CHR 0x0A], r)" if "CHR 0x0A \<notin> set l" "length l < n" for n
    using that by (induction l arbitrary: n) (case_tac n; auto)+
  then show "CHR 0x0A \<notin> set l \<Longrightarrow> length l < 127 \<Longrightarrow> ?thesis" by (cases l) (auto simp: prompt_routine_def)
qed

text \<open>Each thread gets a line of its own, in the order of the turns.\<close>

lemma prompts_get_lines:
  assumes "\<forall>l \<in> set ls. CHR 0x0A \<notin> set l \<and> length l < 127" and "length is = length ls"
  shows "prompt_run is (concat (map (\<lambda>l. l @ [CHR 0x0A]) ls)) = zip is ls"
  using assms by (induction "is" ls rule: list_induct2') (auto simp: prompt_line)

section \<open>One-time initialisation\<close>

text \<open>\<open>pthread_once\<close> runs its routine in the first call only.\<close>

definition pthread_once :: "('s \<Rightarrow> 's) \<Rightarrow> bool \<times> 's \<Rightarrow> bool \<times> 's" where
  "pthread_once f s = (case s of (once, x) \<Rightarrow> if once then (once, x) else (True, f x))"

lemma pthread_once_again [simp]: "pthread_once f (pthread_once f s) = pthread_once f s"
  by (cases s) (simp add: pthread_once_def)

record once_sys =
  once_mutex :: syncobj
  once_owner :: "nat option"
  inits :: nat

definition once_init_routine :: "once_sys \<Rightarrow> once_sys" where
  "once_init_routine s = s\<lparr>once_mutex := Live, once_owner := None, inits := inits s + 1\<rparr>"

text \<open>Unlocking a mutex one does not hold is undefined.\<close>

definition once_unlock :: "nat \<Rightarrow> once_sys \<Rightarrow> fault + once_sys" where
  "once_unlock t s = (if once_owner s = Some t then Inr (s\<lparr>once_owner := None\<rparr>) else Inl Uninitialised)"

definition once_thread :: "nat \<Rightarrow> bool \<times> once_sys \<Rightarrow> fault + bool \<times> once_sys" where
  "once_thread t s =
     (case pthread_once once_init_routine s of (once, x) \<Rightarrow>
        if once_mutex x \<noteq> Live then Inl Uninitialised
        else ebind (once_unlock t (x\<lparr>once_owner := Some t\<rparr>)) (\<lambda>x. Inr (once, x)))"

text \<open>\<open>main\<close> checks the status of a lock call that is missing, and unlocks.\<close>

definition once_main :: "nat \<Rightarrow> bool \<times> once_sys \<Rightarrow> fault + bool \<times> once_sys" where
  "once_main t s =
     (case pthread_once once_init_routine s of (once, x) \<Rightarrow> ebind (once_unlock t x) (\<lambda>x. Inr (once, x)))"

definition once_start :: "bool \<times> once_sys" where
  "once_start = (False, \<lparr>once_mutex = Raw, once_owner = None, inits = 0\<rparr>)"

lemma once_threads:
  "\<exists>s. once_thread t once_start = Inr (True, s) \<and> once_mutex s = Live \<and> inits s = 1 \<and> once_thread u (True, s) = Inr (True, s)"
  by (simp add: once_thread_def once_start_def pthread_once_def once_init_routine_def once_unlock_def)

lemma once_main_unlocks_unheld: "once_main t once_start = Inl Uninitialised"
  by (simp add: once_main_def once_start_def pthread_once_def once_init_routine_def once_unlock_def)

text \<open>Thread-specific data: each thread finds the string it has stored, whatever the others do.\<close>

record tsd_sys =
  key_made :: bool
  tsd_vals :: "nat \<Rightarrow> string option"

definition tsd_set :: "nat \<Rightarrow> string \<Rightarrow> tsd_sys \<Rightarrow> tsd_sys" where
  "tsd_set t v s = s\<lparr>key_made := True, tsd_vals := (tsd_vals s)(t \<mapsto> v)\<rparr>"

definition tsd_done :: "nat \<Rightarrow> tsd_sys \<Rightarrow> fault + string" where
  "tsd_done t s = (case tsd_vals s t of None \<Rightarrow> Inl NullDeref | Some v \<Rightarrow> Inr v)"

lemma tsd_private: "list_all (\<lambda>(u, w). u \<noteq> t) others \<Longrightarrow>
    tsd_done t (fold (\<lambda>(u, w). tsd_set u w) others (tsd_set t v s)) = Inr v"
proof -
  have "tsd_vals (fold (\<lambda>(u, w). tsd_set u w) others s') t = tsd_vals s' t" if "list_all (\<lambda>(u, w). u \<noteq> t) others" for s'
    using that by (induction others arbitrary: s') (auto simp: tsd_set_def)
  then show "list_all (\<lambda>(u, w). u \<noteq> t) others \<Longrightarrow> ?thesis" by (simp add: tsd_done_def tsd_set_def)
qed

end
