(* ===== verification/CNode.thy ===== *)
theory CNode
  imports Outcome
begin

text \<open>
  The nodes of the 2-3 tree of \<open>CNode.h\<close> on an explicit store. A node has two keys, each with a flag that
  says whether it is set (clearing a key clears the flag only), a parent and three children. A key that
  has never been written is \<open>None\<close>; reading it, following a null pointer or a pointer to a deleted node
  is a fault. \<open>new\<close> takes the next unused address.
\<close>

section \<open>Nodes\<close>

datatype eNodeSize = empty | twoNode | threeNode

datatype eTraverseDirection = leftChild | middleChild | rightChild

record 'k cnode =
  m_tSmallKey :: "'k option"
  m_tBigKey :: "'k option"
  m_pParent :: ptr
  m_bBigKeyIsSet :: bool
  m_bSmallKeyIsSet :: bool
  m_pLeft :: ptr
  m_pMiddle :: ptr
  m_pRight :: ptr

text \<open>The tree: its root, the live nodes, and the next address.\<close>

record 'k ctree =
  m_pRoot :: ptr
  nodes :: "addr \<rightharpoonup> 'k cnode"
  brk :: addr

fun node :: "ptr \<Rightarrow> 'k ctree \<Rightarrow> 'k cnode res" where
  "node None s = Fault NullDeref"
| "node (Some p) s = (case nodes s p of None \<Rightarrow> Fault (WildDeref p) | Some n \<Rightarrow> Ok n)"

definition set_node :: "ptr \<Rightarrow> ('k cnode \<Rightarrow> 'k cnode) \<Rightarrow> 'k ctree \<Rightarrow> 'k ctree res" where
  "set_node p f s = obind (node p s) (\<lambda>n. Ok (s\<lparr>nodes := (nodes s)(the p \<mapsto> f n)\<rparr>))"

definition delete_node :: "ptr \<Rightarrow> 'k ctree \<Rightarrow> 'k ctree res" where
  "delete_node p s = obind (node p s) (\<lambda>_. Ok (s\<lparr>nodes := (nodes s)(the p := None)\<rparr>))"

fun child :: "eTraverseDirection \<Rightarrow> 'k cnode \<Rightarrow> ptr" where
  "child leftChild n = m_pLeft n"
| "child middleChild n = m_pMiddle n"
| "child rightChild n = m_pRight n"

fun put_child :: "eTraverseDirection \<Rightarrow> ptr \<Rightarrow> 'k cnode \<Rightarrow> 'k cnode" where
  "put_child leftChild c n = n\<lparr>m_pLeft := c\<rparr>"
| "put_child middleChild c n = n\<lparr>m_pMiddle := c\<rparr>"
| "put_child rightChild c n = n\<lparr>m_pRight := c\<rparr>"

definition getChild :: "eTraverseDirection \<Rightarrow> ptr \<Rightarrow> 'k ctree \<Rightarrow> ptr res" where
  "getChild d p s = obind (node p s) (\<lambda>n. Ok (child d n))"

definition setParent :: "ptr \<Rightarrow> ptr \<Rightarrow> 'k ctree \<Rightarrow> 'k ctree res" where
  "setParent p q = set_node p (\<lambda>n. n\<lparr>m_pParent := q\<rparr>)"

definition getParent :: "ptr \<Rightarrow> 'k ctree \<Rightarrow> ptr res" where
  "getParent p s = obind (node p s) (\<lambda>n. Ok (m_pParent n))"

text \<open>\<open>if (pChild != 0) pChild->setParent(this)\<close>\<close>

definition adopt :: "ptr \<Rightarrow> ptr \<Rightarrow> 'k ctree \<Rightarrow> 'k ctree res" where
  "adopt c p s = (if c \<noteq> None then setParent c p s else Ok s)"

text \<open>The child to set is an expression; so is the key below.\<close>

definition setChild :: "eTraverseDirection \<Rightarrow> ptr \<Rightarrow> ('k ctree \<Rightarrow> ptr res) \<Rightarrow> 'k ctree \<Rightarrow> 'k ctree res" where
  "setChild d p e s =
     obind (e s) (\<lambda>c.
       obind (set_node p (put_child d c) s) (adopt c p))"

definition written :: "'k option \<Rightarrow> 'k res" where
  "written k = (case k of None \<Rightarrow> Fault Uninitialised | Some x \<Rightarrow> Ok x)"

definition getSmallKey :: "ptr \<Rightarrow> 'k ctree \<Rightarrow> 'k res" where
  "getSmallKey p s = obind (node p s) (\<lambda>n. written (m_tSmallKey n))"

definition getBigKey :: "ptr \<Rightarrow> 'k ctree \<Rightarrow> 'k res" where
  "getBigKey p s = obind (node p s) (\<lambda>n. written (m_tBigKey n))"

definition setSmallKey :: "ptr \<Rightarrow> ('k ctree \<Rightarrow> 'k res) \<Rightarrow> 'k ctree \<Rightarrow> 'k ctree res" where
  "setSmallKey p e s =
     obind (e s) (\<lambda>k. set_node p (\<lambda>n. n\<lparr>m_tSmallKey := Some k, m_bSmallKeyIsSet := True\<rparr>) s)"

definition setBigKey :: "ptr \<Rightarrow> ('k ctree \<Rightarrow> 'k res) \<Rightarrow> 'k ctree \<Rightarrow> 'k ctree res" where
  "setBigKey p e s =
     obind (e s) (\<lambda>k. set_node p (\<lambda>n. n\<lparr>m_tBigKey := Some k, m_bBigKeyIsSet := True\<rparr>) s)"

text \<open>With a null pointer for the key.\<close>

definition clearSmallKey :: "ptr \<Rightarrow> 'k ctree \<Rightarrow> 'k ctree res" where
  "clearSmallKey p = set_node p (\<lambda>n. n\<lparr>m_bSmallKeyIsSet := False\<rparr>)"

definition clearBigKey :: "ptr \<Rightarrow> 'k ctree \<Rightarrow> 'k ctree res" where
  "clearBigKey p = set_node p (\<lambda>n. n\<lparr>m_bBigKeyIsSet := False\<rparr>)"

definition node_size :: "'k cnode \<Rightarrow> eNodeSize" where
  "node_size n =
     (if m_bBigKeyIsSet n \<and> m_bSmallKeyIsSet n then threeNode else if m_bSmallKeyIsSet n then twoNode else empty)"

definition getSize :: "ptr \<Rightarrow> 'k ctree \<Rightarrow> eNodeSize res" where
  "getSize p s = obind (node p s) (\<lambda>n. Ok (node_size n))"

definition isLeaf :: "ptr \<Rightarrow> 'k ctree \<Rightarrow> bool res" where
  "isLeaf p s = obind (node p s) (\<lambda>n. Ok (m_pLeft n = None \<and> m_pMiddle n = None \<and> m_pMiddle n = None))"

section \<open>Constructors\<close>

definition blank :: "'k cnode" where
  "blank = \<lparr>m_tSmallKey = None, m_tBigKey = None, m_pParent = None, m_bBigKeyIsSet = False, m_bSmallKeyIsSet = False,
     m_pLeft = None, m_pMiddle = None, m_pRight = None\<rparr>"

definition new_node :: "'k cnode \<Rightarrow> 'k ctree \<Rightarrow> ptr \<times> 'k ctree" where
  "new_node n s = (Some (brk s), s\<lparr>nodes := (nodes s)(brk s \<mapsto> n), brk := Suc (brk s)\<rparr>)"

definition new_CNode0 :: "'k ctree \<Rightarrow> (ptr \<times> 'k ctree) res" where
  "new_CNode0 s = Ok (new_node blank s)"

definition new_CNode :: "('k ctree \<Rightarrow> ptr res) \<Rightarrow> ('k ctree \<Rightarrow> ptr res) \<Rightarrow> ('k ctree \<Rightarrow> 'k res) \<Rightarrow> 'k ctree \<Rightarrow> (ptr \<times> 'k ctree) res" where
  "new_CNode el er ek s =
     obind (el s) (\<lambda>l. obind (er s) (\<lambda>r. obind (ek s) (\<lambda>k.
       case new_node (blank\<lparr>m_pLeft := l, m_pRight := r, m_tSmallKey := Some k, m_bSmallKeyIsSet := True\<rparr>) s of (p, s) \<Rightarrow>
         obind (adopt l p s) (\<lambda>s. obind (adopt r p s) (\<lambda>s. Ok (p, s))))))"

lemmas cnode_defs = set_node_def delete_node_def getChild_def setParent_def getParent_def adopt_def setChild_def written_def getSmallKey_def
  getBigKey_def setSmallKey_def setBigKey_def clearSmallKey_def clearBigKey_def getSize_def isLeaf_def

section \<open>Access to live nodes\<close>

lemma node_live [simp]: "nodes s p = Some n \<Longrightarrow> node (Some p) s = Ok n"
  by simp

end
