(* ===== verification/CTree.thy ===== *)
theory CTree
  imports CNode
begin

text \<open>
  The 2-3 tree of \<open>CTree.h\<close>: every member function, statement by statement, over the store of \<open>CNode\<close>. Keys
  are passed by value. A loop takes fuel; what it needs is part of the theorems about it.
\<close>

section \<open>Codes and comparison\<close>

datatype code = SUCCESS | FAILURE | IS_EMPTY | NOT_FOUND | DUPLICATE_VALUE

datatype order = EQUAL | GREATER | LESS

definition TCompare :: "'k :: linorder \<Rightarrow> 'k \<Rightarrow> order" where
  "TCompare a b = (if a < b then LESS else if b < a then GREATER else EQUAL)"

lemma TCompare_simps [simp]:
  "TCompare a b = LESS \<longleftrightarrow> a < b" "TCompare a b = GREATER \<longleftrightarrow> b < a" "TCompare a b = EQUAL \<longleftrightarrow> a = b"
  by (auto simp: TCompare_def)

definition new_CTree :: "'k ctree" where
  "new_CTree = \<lparr>m_pRoot = None, nodes = Map.empty, brk = 0\<rparr>"

section \<open>Searching\<close>

text \<open>Where to go from a node: nowhere (the key is here), or to a child.\<close>

definition search_dir :: "'k :: linorder \<Rightarrow> 'k cnode \<Rightarrow> eTraverseDirection option res" where
  "search_dir key n =
     obind (written (m_tSmallKey n)) (\<lambda>small.
       obind (if node_size n = threeNode then obind (written (m_tBigKey n)) (\<lambda>b. Ok (TCompare key b)) else Ok LESS) (\<lambda>big.
         Ok (if TCompare key small = EQUAL \<or> (node_size n = threeNode \<and> big = EQUAL) then None
             else if TCompare key small = LESS then Some leftChild
             else if (node_size n = threeNode \<and> big = GREATER) \<or> (node_size n = twoNode \<and> TCompare key small = GREATER)
             then Some rightChild
             else Some middleChild)))"

fun search_loop :: "nat \<Rightarrow> 'k :: linorder \<Rightarrow> ptr \<Rightarrow> 'k ctree \<Rightarrow> (ptr \<times> bool) res" where
  "search_loop 0 key p s = Timeout"
| "search_loop (Suc fuel) key p s =
     obind (node p s) (\<lambda>n.
       obind (search_dir key n) (\<lambda>d.
         case d of
           None \<Rightarrow> Ok (p, True)
         | Some d \<Rightarrow> if child d n = None then Ok (p, False) else search_loop fuel key (child d n) s))"

definition search :: "nat \<Rightarrow> 'k :: linorder \<Rightarrow> 'k ctree \<Rightarrow> (code \<times> ptr \<times> bool) res" where
  "search fuel key s =
     (if m_pRoot s = None then Ok (IS_EMPTY, None, False)
      else obind (search_loop fuel key (m_pRoot s) s) (\<lambda>(p, found). Ok (SUCCESS, p, found)))"

text \<open>\<open>find\<close> returns the key object, or nothing.\<close>

definition find :: "nat \<Rightarrow> 'k :: linorder \<Rightarrow> 'k ctree \<Rightarrow> 'k option res" where
  "find fuel key s =
     obind (search fuel key s) (\<lambda>(_, p, found).
       if \<not> found then Ok None
       else obind (getSmallKey p s) (\<lambda>small.
         if TCompare key small = EQUAL then Ok (Some small)
         else obind (getSize p s) (\<lambda>size.
           if size = threeNode
           then obind (getBigKey p s) (\<lambda>big. Ok (if TCompare key big = EQUAL then Some big else None))
           else Ok None)))"

fun getMinNode :: "nat \<Rightarrow> ptr \<Rightarrow> 'k ctree \<Rightarrow> ptr res" where
  "getMinNode 0 p s = Timeout"
| "getMinNode (Suc fuel) p s =
     obind (getChild leftChild p s) (\<lambda>c. if c \<noteq> None then getMinNode fuel c s else Ok p)"

fun getMaxNode :: "nat \<Rightarrow> ptr \<Rightarrow> 'k ctree \<Rightarrow> ptr res" where
  "getMaxNode 0 p s = Timeout"
| "getMaxNode (Suc fuel) p s =
     obind (getChild rightChild p s) (\<lambda>c. if c \<noteq> None then getMaxNode fuel c s else Ok p)"

section \<open>Insertion\<close>

text \<open>\<open>add\<close>: a key into an empty node or a two node. (Its code is not used by the callers.)\<close>

definition add :: "ptr \<Rightarrow> 'k :: linorder \<Rightarrow> 'k ctree \<Rightarrow> 'k ctree res" where
  "add p key s =
     obind (getSize p s) (\<lambda>size.
       if size = empty then setSmallKey p (\<lambda>_. Ok key) s
       else if size = twoNode then
         obind (getSmallKey p s) (\<lambda>small.
           if TCompare key small = GREATER then setBigKey p (\<lambda>_. Ok key) s
           else if TCompare key small = LESS then
             seqs [setBigKey p (getSmallKey p), setSmallKey p (\<lambda>_. Ok key)] s
           else Ok s)
       else Ok s)"

text \<open>The result: the key that goes up, and the new node to its left.\<close>

definition split :: "'k :: linorder \<Rightarrow> ptr \<Rightarrow> ptr \<Rightarrow> 'k ctree \<Rightarrow> (code \<times> 'k \<times> ptr \<times> 'k ctree) res" where
  "split key p added s =
     (if p = None then Ok (IS_EMPTY, key, added, s)
      else obind (getBigKey p s) (\<lambda>big.
        obind
          (if TCompare key big = GREATER then
             obind (new_CNode (getChild leftChild p) (getChild middleChild p) (getSmallKey p) s) (\<lambda>(q, s).
               obind (setSmallKey p (\<lambda>_. Ok key) s) (\<lambda>s.
                 obind (getBigKey p s) (\<lambda>key.
                   obind (setChild leftChild p (\<lambda>_. Ok added) s) (\<lambda>s. Ok (key, q, s)))))
           else obind (getSmallKey p s) (\<lambda>small.
             if TCompare key small = LESS then
               obind (new_CNode (\<lambda>_. Ok added) (getChild leftChild p) (\<lambda>_. Ok key) s) (\<lambda>(q, s).
                 obind (getSmallKey p s) (\<lambda>key.
                   obind (seqs [setSmallKey p (getBigKey p), setChild leftChild p (getChild middleChild p)] s) (\<lambda>s.
                     Ok (key, q, s))))
             else
               obind (new_CNode (getChild leftChild p) (\<lambda>_. Ok added) (getSmallKey p) s) (\<lambda>(q, s).
                 obind (seqs [setSmallKey p (getBigKey p), setChild leftChild p (getChild middleChild p)] s) (\<lambda>s.
                   Ok (key, q, s)))))
          (\<lambda>(key, q, s).
            obind (seqs [clearBigKey p, setChild middleChild p (\<lambda>_. Ok None)] s) (\<lambda>s. Ok (SUCCESS, key, q, s)))))"

fun insert_loop :: "nat \<Rightarrow> 'k :: linorder \<Rightarrow> ptr \<Rightarrow> ptr \<Rightarrow> 'k ctree \<Rightarrow> (code \<times> 'k ctree) res" where
  "insert_loop 0 key p added s = Timeout"
| "insert_loop (Suc fuel) key p added s =
     obind (split key p added s) (\<lambda>(rc, key, added, s).
       if rc \<noteq> SUCCESS then Ok (rc, s)
       else obind (getParent p s) (\<lambda>parent.
         if parent = None then
           obind (new_CNode (\<lambda>_. Ok added) (\<lambda>_. Ok p) (\<lambda>_. Ok key) s) (\<lambda>(root, s). Ok (SUCCESS, s\<lparr>m_pRoot := root\<rparr>))
         else obind (getSize parent s) (\<lambda>size.
           if size = twoNode then
             obind (getSmallKey parent s) (\<lambda>small.
               if TCompare key small = LESS then
                 obind (seqs [add parent key, setChild middleChild parent (getChild leftChild parent),
                              setChild leftChild parent (\<lambda>_. Ok added)] s) (\<lambda>s. Ok (SUCCESS, s))
               else if TCompare key small = GREATER then
                 obind (seqs [add parent key, setChild middleChild parent (\<lambda>_. Ok added)] s) (\<lambda>s. Ok (SUCCESS, s))
               else insert_loop fuel key parent added s)
           else insert_loop fuel key parent added s)))"

definition insert :: "nat \<Rightarrow> 'k :: linorder \<Rightarrow> 'k ctree \<Rightarrow> (code \<times> 'k ctree) res" where
  "insert fuel key s =
     (if m_pRoot s = None then
        obind (new_CNode0 s) (\<lambda>(p, s). obind (add p key (s\<lparr>m_pRoot := p\<rparr>)) (\<lambda>s. Ok (SUCCESS, s)))
      else obind (search fuel key s) (\<lambda>(rc, p, found).
        if rc = SUCCESS \<and> p \<noteq> None then
          if found then Ok (DUPLICATE_VALUE, s)
          else obind (getSize p s) (\<lambda>size.
            if size = twoNode then obind (add p key s) (\<lambda>s. Ok (SUCCESS, s))
            else if size = threeNode then insert_loop fuel key p None s
            else Ok (rc, s))
        else Ok (rc, s)))"

declare search_loop.simps [simp del] getMinNode.simps [simp del] getMaxNode.simps [simp del] insert_loop.simps [simp del]

end
