(* ===== verification/CTree_Rep.thy ===== *)
theory CTree_Rep
  imports CTree
begin

text \<open>
  What a store means: the abstract 2-3 tree it represents. The abstract tree keeps the addresses of its
  nodes, so that representation (\<open>rep\<close>) says which nodes the tree owns, and separation is distinctness of
  addresses. A path from a node up to the root is a list of frames, the inner one first, as the parent
  pointers give it.
\<close>

section \<open>Abstract trees\<close>

datatype 'k t23 = E | T2 addr "'k t23" 'k "'k t23" | T3 addr "'k t23" 'k "'k t23" 'k "'k t23"

fun root :: "'k t23 \<Rightarrow> ptr" where
  "root E = None"
| "root (T2 a _ _ _) = Some a"
| "root (T3 a _ _ _ _ _) = Some a"

fun addrs :: "'k t23 \<Rightarrow> addr list" where
  "addrs E = []"
| "addrs (T2 a l _ r) = a # addrs l @ addrs r"
| "addrs (T3 a l _ m _ r) = a # addrs l @ addrs m @ addrs r"

fun keys :: "'k t23 \<Rightarrow> 'k list" where
  "keys E = []"
| "keys (T2 _ l x r) = keys l @ x # keys r"
| "keys (T3 _ l x m y r) = keys l @ x # keys m @ y # keys r"

text \<open>All leaves at the same depth.\<close>

fun balanced :: "nat \<Rightarrow> 'k t23 \<Rightarrow> bool" where
  "balanced n E = (n = 0)"
| "balanced n (T2 _ l _ r) = (case n of 0 \<Rightarrow> False | Suc k \<Rightarrow> balanced k l \<and> balanced k r)"
| "balanced n (T3 _ l _ m _ r) = (case n of 0 \<Rightarrow> False | Suc k \<Rightarrow> balanced k l \<and> balanced k m \<and> balanced k r)"

abbreviation ordered :: "'k :: linorder list \<Rightarrow> bool" where
  "ordered ks \<equiv> sorted_wrt (<) ks"

lemma balanced_0 [simp]: "balanced 0 t \<longleftrightarrow> t = E"
  by (cases t) auto

lemma root_None [simp]: "root t = None \<longleftrightarrow> t = E" "None = root t \<longleftrightarrow> t = E"
  by (cases t; auto)+

lemma root_in_addrs: "root t = Some a \<Longrightarrow> a \<in> set (addrs t)"
  by (cases t) auto

section \<open>Representation\<close>

definition is2 :: "ptr \<Rightarrow> ptr \<Rightarrow> 'k \<Rightarrow> ptr \<Rightarrow> 'k cnode \<Rightarrow> bool" where
  "is2 par l x r n \<longleftrightarrow> m_tSmallKey n = Some x \<and> m_bSmallKeyIsSet n \<and> \<not> m_bBigKeyIsSet n \<and> m_pParent n = par \<and>
     m_pLeft n = l \<and> m_pMiddle n = None \<and> m_pRight n = r"

definition is3 :: "ptr \<Rightarrow> ptr \<Rightarrow> 'k \<Rightarrow> ptr \<Rightarrow> 'k \<Rightarrow> ptr \<Rightarrow> 'k cnode \<Rightarrow> bool" where
  "is3 par l x m y r n \<longleftrightarrow> m_tSmallKey n = Some x \<and> m_bSmallKeyIsSet n \<and> m_tBigKey n = Some y \<and> m_bBigKeyIsSet n \<and>
     m_pParent n = par \<and> m_pLeft n = l \<and> m_pMiddle n = m \<and> m_pRight n = r"

lemmas is_defs = is2_def is3_def

fun rep :: "(addr \<rightharpoonup> 'k cnode) \<Rightarrow> ptr \<Rightarrow> 'k t23 \<Rightarrow> bool" where
  "rep h par E = True"
| "rep h par (T2 a l x r) =
     ((\<exists>n. h a = Some n \<and> is2 par (root l) x (root r) n) \<and> rep h (Some a) l \<and> rep h (Some a) r)"
| "rep h par (T3 a l x m y r) =
     ((\<exists>n. h a = Some n \<and> is3 par (root l) x (root m) y (root r) n) \<and> rep h (Some a) l \<and> rep h (Some a) m \<and> rep h (Some a) r)"

text \<open>A tree only depends on its own nodes.\<close>

lemma rep_cong: "(\<And>a. a \<in> set (addrs t) \<Longrightarrow> h' a = h a) \<Longrightarrow> rep h' par t = rep h par t"
  by (induction t arbitrary: par) auto

lemma rep_upd [simp]: "a \<notin> set (addrs t) \<Longrightarrow> rep (h(a := v)) par t = rep h par t"
  by (rule rep_cong) auto

lemma rep_live: "rep h par t \<Longrightarrow> a \<in> set (addrs t) \<Longrightarrow> h a \<noteq> None"
  by (induction t arbitrary: par) auto

text \<open>\<open>setParent\<close> on the root of a subtree.\<close>

definition reparent :: "ptr \<Rightarrow> 'k t23 \<Rightarrow> (addr \<rightharpoonup> 'k cnode) \<Rightarrow> (addr \<rightharpoonup> 'k cnode)" where
  "reparent q t h = (case root t of None \<Rightarrow> h | Some a \<Rightarrow> h(a := map_option (\<lambda>n. n\<lparr>m_pParent := q\<rparr>) (h a)))"

lemma reparent_other [simp]: "a \<notin> set (addrs t) \<Longrightarrow> reparent q t h a = h a"
  by (auto simp: reparent_def dest: root_in_addrs split: option.splits)

lemma rep_reparent:
  assumes "rep h par t" and "distinct (addrs t)"
  shows "rep (reparent q t h) q t"
proof (cases t)
  case (T2 a l x r)
  with assms show ?thesis by (auto simp: reparent_def is_defs)
next
  case (T3 a l x m y r)
  with assms show ?thesis by (auto simp: reparent_def is_defs)
qed simp

lemma rep_reparent_other [simp]: "set (addrs t) \<inter> set (addrs u) = {} \<Longrightarrow> rep (reparent q t h) par u = rep h par u"
  by (rule rep_cong) (auto intro: reparent_other)

lemma setParent_root:
  assumes "rep (nodes s) par t" and "t \<noteq> E"
  shows "setParent (root t) q s = Ok (s\<lparr>nodes := reparent q t (nodes s)\<rparr>)"
  using assms by (cases t) (auto simp: cnode_defs reparent_def)

section \<open>Paths\<close>

datatype 'k frame =
    L2 addr 'k "'k t23" | R2 addr "'k t23" 'k
  | L3 addr 'k "'k t23" 'k "'k t23" | M3 addr "'k t23" 'k 'k "'k t23" | R3 addr "'k t23" 'k "'k t23" 'k

fun plug1 :: "'k frame \<Rightarrow> 'k t23 \<Rightarrow> 'k t23" where
  "plug1 (L2 a x r) t = T2 a t x r"
| "plug1 (R2 a l x) t = T2 a l x t"
| "plug1 (L3 a x m y r) t = T3 a t x m y r"
| "plug1 (M3 a l x y r) t = T3 a l x t y r"
| "plug1 (R3 a l x m y) t = T3 a l x m y t"

fun plug :: "'k frame list \<Rightarrow> 'k t23 \<Rightarrow> 'k t23" where
  "plug [] t = t"
| "plug (f # fs) t = plug fs (plug1 f t)"

fun faddr :: "'k frame \<Rightarrow> addr" where
  "faddr (L2 a x r) = a" | "faddr (R2 a l x) = a"
| "faddr (L3 a x m y r) = a" | "faddr (M3 a l x y r) = a" | "faddr (R3 a l x m y) = a"

fun fsibs :: "'k frame \<Rightarrow> 'k t23 list" where
  "fsibs (L2 a x r) = [r]" | "fsibs (R2 a l x) = [l]"
| "fsibs (L3 a x m y r) = [m, r]" | "fsibs (M3 a l x y r) = [l, r]" | "fsibs (R3 a l x m y) = [l, m]"

definition faddrs :: "'k frame \<Rightarrow> addr list" where
  "faddrs f = faddr f # concat (map addrs (fsibs f))"

definition paddrs :: "'k frame list \<Rightarrow> addr list" where
  "paddrs fs = concat (map faddrs fs)"

fun above :: "'k frame list \<Rightarrow> ptr" where
  "above [] = None"
| "above (f # fs) = Some (faddr f)"

text \<open>Keys to the left and to the right of the path.\<close>

fun lkeys :: "'k frame list \<Rightarrow> 'k list" where
  "lkeys [] = []"
| "lkeys (L2 a x r # fs) = lkeys fs"
| "lkeys (R2 a l x # fs) = lkeys fs @ keys l @ [x]"
| "lkeys (L3 a x m y r # fs) = lkeys fs"
| "lkeys (M3 a l x y r # fs) = lkeys fs @ keys l @ [x]"
| "lkeys (R3 a l x m y # fs) = lkeys fs @ keys l @ x # keys m @ [y]"

fun rkeys :: "'k frame list \<Rightarrow> 'k list" where
  "rkeys [] = []"
| "rkeys (L2 a x r # fs) = x # keys r @ rkeys fs"
| "rkeys (R2 a l x # fs) = rkeys fs"
| "rkeys (L3 a x m y r # fs) = x # keys m @ y # keys r @ rkeys fs"
| "rkeys (M3 a l x y r # fs) = y # keys r @ rkeys fs"
| "rkeys (R3 a l x m y # fs) = rkeys fs"

lemma keys_plug: "keys (plug fs t) = lkeys fs @ keys t @ rkeys fs"
proof (induction fs arbitrary: t)
  case (Cons f fs)
  then show ?case by (cases f) auto
qed simp

lemma root_plug: "root (plug fs t) = (if fs = [] then root t else root (plug fs E))"
proof (induction fs arbitrary: t)
  case (Cons f fs)
  have "root (plug1 f t) = root (plug1 f E)" by (cases f) auto
  with Cons [of "plug1 f t"] Cons [of "plug1 f E"] show ?case by (cases "fs = []") auto
qed simp

lemma mset_plug: "mset (addrs (plug fs t)) = mset (paddrs fs) + mset (addrs t)"
proof (induction fs arbitrary: t)
  case (Cons f fs)
  have "mset (addrs (plug1 f t)) = mset (faddrs f) + mset (addrs t)" by (cases f) (auto simp: faddrs_def)
  with Cons show ?case by (simp add: paddrs_def)
qed (simp add: paddrs_def)

lemma distinct_plug: "distinct (addrs (plug fs t)) \<longleftrightarrow> distinct (paddrs fs @ addrs t)"
  using mset_plug [of fs t] by (metis mset_append mset_eq_imp_distinct_iff)

lemma set_plug: "set (addrs (plug fs t)) = set (paddrs fs) \<union> set (addrs t)"
  using mset_plug [of fs t] by (metis set_mset_mset set_mset_union)

text \<open>Where a balanced tree of height \<open>n\<close> fits.\<close>

fun bal_path :: "nat \<Rightarrow> 'k frame list \<Rightarrow> nat \<Rightarrow> bool" where
  "bal_path n [] k = (n = k)"
| "bal_path n (f # fs) k = ((\<forall>t \<in> set (fsibs f). balanced n t) \<and> bal_path (Suc n) fs k)"

lemma balanced_plug: "balanced n t \<Longrightarrow> balanced k (plug fs t) \<longleftrightarrow> bal_path n fs k"
proof (induction fs arbitrary: n t)
  case Nil
  have "balanced n t \<Longrightarrow> balanced k t \<Longrightarrow> n = k" for n k and t :: "'a t23"
    by (induction t arbitrary: n k) (auto split: nat.splits)
  with Nil show ?case by auto
next
  case (Cons f fs)
  show ?case
  proof (cases "\<forall>t \<in> set (fsibs f). balanced n t")
    case True
    with Cons.prems have "balanced (Suc n) (plug1 f t)" by (cases f) auto
    with Cons.IH True show ?thesis by simp
  next
    case False
    have *: "balanced m t \<Longrightarrow> balanced n t \<Longrightarrow> m = n" for m n and t :: "'a t23"
      by (induction t arbitrary: m n) (auto split: nat.splits)
    have "\<not> balanced k (plug fs u)" if "\<And>m. \<not> balanced m u" for u :: "'a t23"
      using that
    proof (induction fs arbitrary: u)
      case (Cons g gs)
      have "\<not> balanced m (plug1 g u)" for m using Cons.prems by (cases g; cases m) auto
      with Cons.IH show ?case by simp
    qed simp
    moreover have "\<not> balanced m (plug1 f t)" for m
      using False Cons.prems * by (cases f; cases m) auto
    ultimately show ?thesis using False by simp
  qed
qed

fun rep_path :: "(addr \<rightharpoonup> 'k cnode) \<Rightarrow> 'k frame list \<Rightarrow> ptr \<Rightarrow> bool" where
  "rep_path h [] c = True"
| "rep_path h (L2 a x r # fs) c =
     ((\<exists>n. h a = Some n \<and> is2 (above fs) c x (root r) n) \<and> rep h (Some a) r \<and> rep_path h fs (Some a))"
| "rep_path h (R2 a l x # fs) c =
     ((\<exists>n. h a = Some n \<and> is2 (above fs) (root l) x c n) \<and> rep h (Some a) l \<and> rep_path h fs (Some a))"
| "rep_path h (L3 a x m y r # fs) c =
     ((\<exists>n. h a = Some n \<and> is3 (above fs) c x (root m) y (root r) n) \<and> rep h (Some a) m \<and> rep h (Some a) r \<and> rep_path h fs (Some a))"
| "rep_path h (M3 a l x y r # fs) c =
     ((\<exists>n. h a = Some n \<and> is3 (above fs) (root l) x c y (root r) n) \<and> rep h (Some a) l \<and> rep h (Some a) r \<and> rep_path h fs (Some a))"
| "rep_path h (R3 a l x m y # fs) c =
     ((\<exists>n. h a = Some n \<and> is3 (above fs) (root l) x (root m) y c n) \<and> rep h (Some a) l \<and> rep h (Some a) m \<and> rep_path h fs (Some a))"

lemma rep_plug: "rep h None (plug fs t) \<longleftrightarrow> rep h (above fs) t \<and> rep_path h fs (root t)"
proof (induction fs arbitrary: t)
  case (Cons f fs)
  then show ?case by (cases f) auto
qed simp

lemma rep_path_cong: "(\<And>a. a \<in> set (paddrs fs) \<Longrightarrow> h' a = h a) \<Longrightarrow> rep_path h' fs c = rep_path h fs c"
proof (induction fs arbitrary: c)
  case (Cons f fs)
  have "rep_path h' fs c = rep_path h fs c" for c by (rule Cons.IH) (simp add: Cons.prems paddrs_def)
  moreover have "rep h' par t = rep h par t" if "t \<in> set (fsibs f)" for t par
    by (rule rep_cong) (use Cons.prems that in \<open>auto simp: paddrs_def faddrs_def\<close>)
  moreover have "h' (faddr f) = h (faddr f)" by (simp add: Cons.prems paddrs_def faddrs_def)
  ultimately show ?case by (cases f) auto
qed simp

lemma rep_path_upd [simp]: "a \<notin> set (paddrs fs) \<Longrightarrow> rep_path (h(a := v)) fs c = rep_path h fs c"
  by (rule rep_path_cong) auto

lemma rep_path_reparent [simp]: "set (addrs t) \<inter> set (paddrs fs) = {} \<Longrightarrow> rep_path (reparent q t h) fs c = rep_path h fs c"
  by (rule rep_path_cong) (auto intro: reparent_other)

lemma plug_append: "plug (fs @ gs) t = plug gs (plug fs t)"
  by (induction fs arbitrary: t) auto

lemma lkeys_append: "lkeys (fs @ gs) = lkeys gs @ lkeys fs"
proof (induction fs)
  case (Cons f fs)
  then show ?case by (cases f) auto
qed simp

lemma rkeys_append: "rkeys (fs @ gs) = rkeys fs @ rkeys gs"
proof (induction fs)
  case (Cons f fs)
  then show ?case by (cases f) auto
qed simp

section \<open>Search\<close>

fun is_leaf :: "'k t23 \<Rightarrow> bool" where
  "is_leaf (T2 a E x E) = True"
| "is_leaf (T3 a E x E y E) = True"
| "is_leaf _ = False"

definition holds :: "'k \<Rightarrow> 'k cnode \<Rightarrow> bool" where
  "holds k n \<longleftrightarrow> m_bSmallKeyIsSet n \<and> m_tSmallKey n \<noteq> None \<and> (m_tSmallKey n = Some k \<or> m_bBigKeyIsSet n \<and> m_tBigKey n = Some k)"

definition fits :: "'k :: linorder \<Rightarrow> 'k frame list \<Rightarrow> bool" where
  "fits k fs \<longleftrightarrow> (\<forall>x \<in> set (lkeys fs). x < k) \<and> (\<forall>x \<in> set (rkeys fs). k < x)"

lemma search_dir_2: "is2 par l x r n \<Longrightarrow>
    search_dir k n = Ok (if k = x then None else if k < x then Some leftChild else Some rightChild)"
  by (auto simp: is_defs search_dir_def written_def node_size_def)

lemma search_dir_3: "is3 par l x m y r n \<Longrightarrow>
    search_dir k n = Ok (if k = x \<or> k = y then None else if k < x then Some leftChild
                         else if y < k then Some rightChild else Some middleChild)"
  by (auto simp: is_defs search_dir_def written_def node_size_def)

text \<open>One step down: the key is here, or in one child, or nowhere.\<close>

definition search_spec :: "'k :: linorder \<Rightarrow> 'k t23 \<Rightarrow> 'k ctree \<Rightarrow> (ptr \<times> bool) res \<Rightarrow> bool" where
  "search_spec k t s r \<longleftrightarrow>
     (if k \<in> set (keys t) then \<exists>a n. r = Ok (Some a, True) \<and> nodes s a = Some n \<and> holds k n
      else \<exists>fs u. t = plug fs u \<and> is_leaf u \<and> r = Ok (root u, False) \<and> fits k fs)"

lemma search_spec_here:
  assumes "is_leaf t" and "k \<notin> set (keys t)"
  shows "search_spec k t s (Ok (root t, False))"
proof -
  have "t = plug [] t \<and> is_leaf t \<and> Ok (root t, False) = Ok (root t, False) \<and> fits k []" using assms(1) by (simp add: fits_def)
  with assms(2) show ?thesis unfolding search_spec_def by (simp only: if_False) blast
qed

lemma search_spec_down:
  assumes "search_spec k u s r" and "t = plug1 f u" and "fits k [f]" and "k \<notin> set (keys t) - set (keys u)"
  shows "search_spec k t s r"
proof (cases "k \<in> set (keys u)")
  case True
  have "set (keys u) \<subseteq> set (keys t)" using assms(2) by (cases f) auto
  with True assms(1) show ?thesis by (auto simp: search_spec_def)
next
  case False
  with assms obtain fs v where "u = plug fs v" "is_leaf v" "r = Ok (root v, False)" "fits k fs" "k \<notin> set (keys t)"
    by (auto simp: search_spec_def)
  moreover from this assms have "fits k (fs @ [f])" "t = plug (fs @ [f]) v"
    by (auto simp: fits_def lkeys_append rkeys_append plug_append)
  ultimately show ?thesis unfolding search_spec_def by auto
qed

lemma search_loop_spec:
  assumes "rep (nodes s) par t" and "balanced n t" and "0 < n" and "n \<le> fuel" and "ordered (keys t)"
  shows "search_spec k t s (search_loop fuel k (root t) s)"
  using assms
proof (induction t arbitrary: par n fuel)
  case (T2 a l x r)
  then obtain nd where nd: "nodes s a = Some nd" "is2 par (root l) x (root r) nd" by auto
  from T2.prems obtain m where n: "n = Suc m" "balanced m l" "balanced m r" by (auto split: nat.splits)
  from T2.prems n obtain f where f: "fuel = Suc f" "m \<le> f" by (cases fuel) auto
  have o: "ordered (keys l)" "ordered (keys r)" "\<forall>z \<in> set (keys l). z < x" "\<forall>z \<in> set (keys r). x < z"
    using T2.prems(5) by (auto simp: sorted_wrt_append)
  have step: "search_loop fuel k (root (T2 a l x r)) s =
      (if k = x then Ok (Some a, True)
       else let c = (if k < x then root l else root r) in if c = None then Ok (Some a, False) else search_loop f k c s)"
    using nd f by (auto simp: search_loop.simps search_dir_2 [OF nd(2)] is_defs)
  consider "k = x" | "k \<noteq> x" "m = 0" | "k < x" "0 < m" | "x < k" "0 < m" by fastforce
  then show ?case
  proof cases
    case 1
    with step nd show ?thesis by (auto simp: search_spec_def holds_def is_defs)
  next
    case 2
    with n step search_spec_here [of "T2 a E x E" k s] show ?thesis by simp
  next
    case 3
    with n have "l \<noteq> E" by auto
    with 3 step have e: "search_loop fuel k (root (T2 a l x r)) s = search_loop f k (root l) s" by (auto simp: Let_def)
    have "search_spec k l s (search_loop f k (root l) s)"
      by (rule T2.IH(1) [of "Some a" m f]) (use T2.prems n f o 3 in auto)
    then show ?thesis unfolding e
      by (rule search_spec_down [where f = "L2 a x r"]) (use 3 o in \<open>auto simp: fits_def\<close>)
  next
    case 4
    with n have "r \<noteq> E" by auto
    with 4 step have e: "search_loop fuel k (root (T2 a l x r)) s = search_loop f k (root r) s" by (auto simp: Let_def)
    have "search_spec k r s (search_loop f k (root r) s)"
      by (rule T2.IH(2) [of "Some a" m f]) (use T2.prems n f o 4 in auto)
    then show ?thesis unfolding e
      by (rule search_spec_down [where f = "R2 a l x"]) (use 4 o in \<open>auto simp: fits_def\<close>)
  qed
next
  case (T3 a l x m y r)
  then obtain nd where nd: "nodes s a = Some nd" "is3 par (root l) x (root m) y (root r) nd" by auto
  from T3.prems obtain j where n: "n = Suc j" "balanced j l" "balanced j m" "balanced j r" by (auto split: nat.splits)
  from T3.prems n obtain f where f: "fuel = Suc f" "j \<le> f" by (cases fuel) auto
  have o: "ordered (keys l)" "ordered (keys m)" "ordered (keys r)" "\<forall>z \<in> set (keys l). z < x" "\<forall>z \<in> set (keys m). x < z \<and> z < y"
    "\<forall>z \<in> set (keys r). y < z" "x < y" using T3.prems(5) by (auto simp: sorted_wrt_append)
  have step: "search_loop fuel k (root (T3 a l x m y r)) s =
      (if k = x \<or> k = y then Ok (Some a, True)
       else let c = (if k < x then root l else if y < k then root r else root m)
            in if c = None then Ok (Some a, False) else search_loop f k c s)"
    using nd f by (auto simp: search_loop.simps search_dir_3 [OF nd(2)] is_defs)
  consider "k = x \<or> k = y" | "k \<noteq> x" "k \<noteq> y" "j = 0" | "k < x" "0 < j" | "x < k" "k < y" "0 < j" | "y < k" "0 < j" by fastforce
  then show ?case
  proof cases
    case 1
    with step nd show ?thesis by (auto simp: search_spec_def holds_def is_defs)
  next
    case 2
    with n step search_spec_here [of "T3 a E x E y E" k s] show ?thesis by simp
  next
    case 3
    with n have "l \<noteq> E" by auto
    with 3 step o(7) have e: "search_loop fuel k (root (T3 a l x m y r)) s = search_loop f k (root l) s" by (auto simp: Let_def)
    have "search_spec k l s (search_loop f k (root l) s)"
      by (rule T3.IH(1) [of "Some a" j f]) (use T3.prems n f o 3 in auto)
    then show ?thesis unfolding e
      by (rule search_spec_down [where f = "L3 a x m y r"]) (use 3 o in \<open>auto simp: fits_def\<close>)
  next
    case 4
    with n have "m \<noteq> E" by auto
    with 4 step o(7) have e: "search_loop fuel k (root (T3 a l x m y r)) s = search_loop f k (root m) s" by (auto simp: Let_def)
    have "search_spec k m s (search_loop f k (root m) s)"
      by (rule T3.IH(2) [of "Some a" j f]) (use T3.prems n f o 4 in auto)
    then show ?thesis unfolding e
      by (rule search_spec_down [where f = "M3 a l x y r"]) (use 4 o in \<open>auto simp: fits_def\<close>)
  next
    case 5
    with n have "r \<noteq> E" by auto
    with 5 step o(7) have e: "search_loop fuel k (root (T3 a l x m y r)) s = search_loop f k (root r) s" by (auto simp: Let_def)
    have "search_spec k r s (search_loop f k (root r) s)"
      by (rule T3.IH(3) [of "Some a" j f]) (use T3.prems n f o 5 in auto)
    then show ?thesis unfolding e
      by (rule search_spec_down [where f = "R3 a l x m y"]) (use 5 o in \<open>auto simp: fits_def\<close>)
  qed
qed simp

end
