(* ===== verification/CTree_Insert.thy ===== *)
theory CTree_Insert
  imports CTree_Rep
begin

text \<open>
  Insertion into the 2-3 tree of \<open>CTree.h\<close> is correct: \<open>split\<close> and the loop of \<open>insert\<close> that carries a key
  up the parent pointers turn a store that represents an ordered balanced 2-3 tree into one that
  represents the tree with the key added.
\<close>

section \<open>Evaluating the node operations\<close>

lemma rep_reparent_iff [simp]:
  assumes "distinct (addrs t)"
  shows "rep (reparent q t h) q t \<longleftrightarrow> (\<exists>par. rep h par t)"
proof
  show "\<exists>par. rep h par t" if r: "rep (reparent q t h) q t"
  proof (cases t)
    case (T2 a l x m)
    with r assms show ?thesis by (auto simp: reparent_def is_defs)
  next
    case (T3 a l x m y r')
    with r assms show ?thesis by (auto simp: reparent_def is_defs)
  qed simp
qed (use assms rep_reparent in blast)

lemma key_evals [simp]:
  "nodes s p = Some n \<Longrightarrow> getSmallKey (Some p) s = written (m_tSmallKey n)"
  "nodes s p = Some n \<Longrightarrow> getBigKey (Some p) s = written (m_tBigKey n)"
  "nodes s p = Some n \<Longrightarrow> getChild d (Some p) s = Ok (child d n)"
  "nodes s p = Some n \<Longrightarrow> getParent (Some p) s = Ok (m_pParent n)"
  "nodes s p = Some n \<Longrightarrow> getSize (Some p) s = Ok (node_size n)"
  "written (Some k) = Ok k"
  by (simp_all add: cnode_defs)

lemma set_evals [simp]:
  "nodes s p = Some n \<Longrightarrow> e s = Ok k \<Longrightarrow>
     setSmallKey (Some p) e s = Ok (s\<lparr>nodes := (nodes s)(p \<mapsto> n\<lparr>m_tSmallKey := Some k, m_bSmallKeyIsSet := True\<rparr>)\<rparr>)"
  "nodes s p = Some n \<Longrightarrow> e s = Ok k \<Longrightarrow>
     setBigKey (Some p) e s = Ok (s\<lparr>nodes := (nodes s)(p \<mapsto> n\<lparr>m_tBigKey := Some k, m_bBigKeyIsSet := True\<rparr>)\<rparr>)"
  "nodes s p = Some n \<Longrightarrow> clearBigKey (Some p) s = Ok (s\<lparr>nodes := (nodes s)(p \<mapsto> n\<lparr>m_bBigKeyIsSet := False\<rparr>)\<rparr>)"
  "nodes s p = Some n \<Longrightarrow> clearSmallKey (Some p) s = Ok (s\<lparr>nodes := (nodes s)(p \<mapsto> n\<lparr>m_bSmallKeyIsSet := False\<rparr>)\<rparr>)"
  by (simp_all add: cnode_defs)

lemma reparent_E [simp]: "reparent q E h = h"
  by (simp add: reparent_def)

lemma adopt_None [simp]: "adopt None p s = Ok s"
  by (simp add: adopt_def)

lemma adopt_eval:
  assumes "rep (nodes s) par t"
  shows "adopt (root t) q s = Ok (s\<lparr>nodes := reparent q t (nodes s)\<rparr>)"
  using setParent_root [OF assms] by (cases "t = E") (auto simp: adopt_def)

lemma setChild_eval:
  assumes "nodes s p = Some n" and "e s = Ok (root t)" and "rep (nodes s) q t" and "p \<notin> set (addrs t)"
  shows "setChild d (Some p) e s = Ok (s\<lparr>nodes := reparent (Some p) t ((nodes s)(p \<mapsto> put_child d (root t) n))\<rparr>)"
proof -
  let ?s = "s\<lparr>nodes := (nodes s)(p \<mapsto> put_child d (root t) n)\<rparr>"
  have "set_node (Some p) (put_child d (root t)) s = Ok ?s" using assms(1) by (simp add: set_node_def)
  moreover have "rep (nodes ?s) q t" using assms by simp
  note adopt_eval [OF this, of "Some p"]
  ultimately show ?thesis using assms(2) by (simp add: setChild_def)
qed

lemma new_CNode_eval:
  assumes e: "el s = Ok (root l)" "er s = Ok (root r)" "ek s = Ok k" and l: "rep (nodes s) ql l" and r: "rep (nodes s) qr r"
    and b: "brk s \<notin> set (addrs l) \<union> set (addrs r)" and d: "set (addrs l) \<inter> set (addrs r) = {}"
  shows "new_CNode el er ek s = Ok (Some (brk s), s\<lparr>nodes := reparent (Some (brk s)) r (reparent (Some (brk s)) l
     ((nodes s)(brk s \<mapsto> blank\<lparr>m_pLeft := root l, m_pRight := root r, m_tSmallKey := Some k, m_bSmallKeyIsSet := True\<rparr>))),
     brk := Suc (brk s)\<rparr>)"
proof -
  let ?q = "Some (brk s)"
  let ?s = "s\<lparr>nodes := (nodes s)(brk s \<mapsto> blank\<lparr>m_pLeft := root l, m_pRight := root r, m_tSmallKey := Some k, m_bSmallKeyIsSet := True\<rparr>),
     brk := Suc (brk s)\<rparr>"
  let ?t = "?s\<lparr>nodes := reparent ?q l (nodes ?s)\<rparr>"
  have "rep (nodes ?s) ql l" using l b by simp
  note pl = adopt_eval [OF this, of ?q]
  have "rep (nodes ?t) qr r" using r b d by simp
  note pr = adopt_eval [OF this, of ?q]
  show ?thesis using e pl pr by (simp add: new_CNode_def new_node_def)
qed

section \<open>Splitting a node\<close>

definition split_up :: "'k :: linorder \<Rightarrow> 'k t23 \<Rightarrow> addr \<Rightarrow> 'k t23 \<Rightarrow> 'k t23 \<times> 'k \<times> 'k t23" where
  "split_up k la q t =
     (case t of
        T3 p l x m y r \<Rightarrow>
          if y < k then (T2 q l x m, y, T2 p la k r)
          else if k < x then (T2 q la k l, x, T2 p m y r)
          else (T2 q l x la, k, T2 p m y r)
      | _ \<Rightarrow> (E, k, t))"

text \<open>A three node, its children, and a tree to be added below it, all separate; the next address is unused.\<close>

definition split_pre :: "'k ctree \<Rightarrow> ptr \<Rightarrow> addr \<Rightarrow> 'k cnode \<Rightarrow> 'k t23 \<Rightarrow> 'k \<Rightarrow> 'k t23 \<Rightarrow> 'k \<Rightarrow> 'k t23 \<Rightarrow> ptr \<Rightarrow> 'k t23 \<Rightarrow> bool" where
  "split_pre s par p n l x m y r q0 la \<longleftrightarrow>
     nodes s p = Some n \<and> is3 par (root l) x (root m) y (root r) n \<and>
     rep (nodes s) (Some p) l \<and> rep (nodes s) (Some p) m \<and> rep (nodes s) (Some p) r \<and> rep (nodes s) q0 la \<and>
     distinct (addrs (T3 p l x m y r) @ addrs la) \<and> brk s \<notin> set (addrs (T3 p l x m y r) @ addrs la)"

lemma split_preD:
  assumes "split_pre s par p n l x m y r q0 la"
  shows "nodes s p = Some n" "is3 par (root l) x (root m) y (root r) n"
    "rep (nodes s) (Some p) l" "rep (nodes s) (Some p) m" "rep (nodes s) (Some p) r" "rep (nodes s) q0 la"
    "p \<noteq> brk s" "p \<notin> set (addrs l)" "p \<notin> set (addrs m)" "p \<notin> set (addrs r)" "p \<notin> set (addrs la)"
    "brk s \<notin> set (addrs l)" "brk s \<notin> set (addrs m)" "brk s \<notin> set (addrs r)" "brk s \<notin> set (addrs la)"
    "distinct (addrs l)" "distinct (addrs m)" "distinct (addrs la)"
    "set (addrs l) \<inter> set (addrs m) = {}" "set (addrs m) \<inter> set (addrs l) = {}" "set (addrs la) \<inter> set (addrs l) = {}" "set (addrs l) \<inter> set (addrs la) = {}"
    "set (addrs la) \<inter> set (addrs m) = {}" "set (addrs m) \<inter> set (addrs la) = {}" "set (addrs la) \<inter> set (addrs r) = {}"
    "set (addrs l) \<inter> set (addrs r) = {}" "set (addrs m) \<inter> set (addrs r) = {}"
  using assms by (auto simp: split_pre_def)

definition split_post :: "'k :: linorder \<Rightarrow> 'k ctree \<Rightarrow> ptr \<Rightarrow> addr \<Rightarrow> 'k t23 \<Rightarrow> addr set \<Rightarrow> 'k t23 \<times> 'k \<times> 'k t23 \<Rightarrow> bool" where
  "split_post k s par p la A u \<longleftrightarrow>
     (case u of (lt, up, rt) \<Rightarrow>
        \<exists>s'. split k (Some p) (root la) s = Ok (SUCCESS, up, Some (brk s), s') \<and> m_pRoot s' = m_pRoot s \<and> brk s' = Suc (brk s) \<and>
          rep (nodes s') None lt \<and> rep (nodes s') par rt \<and> (\<forall>a. a \<noteq> brk s \<and> a \<notin> A \<longrightarrow> nodes s' a = nodes s a))"

lemma split_greater:
  assumes pre: "split_pre s par p n l x m y r q0 la" and lt: "y < k" and A: "A = set (addrs (T3 p l x m y r) @ addrs la)"
  shows "split_post k s par p la A (T2 (brk s) l x m, y, T2 p la k r)"
proof -
  let ?q = "brk s"
  note n = split_preD(1,2) [OF pre] and ch = split_preD(3-5) [OF pre] and ra = split_preD(6) [OF pre] and ds = split_preD(7-27) [OF pre]
  note f = n(2) [unfolded is3_def]
  let ?nq = "blank\<lparr>m_pLeft := root l, m_pRight := root m, m_tSmallKey := Some x, m_bSmallKeyIsSet := True\<rparr>"
  let ?h1 = "reparent (Some ?q) m (reparent (Some ?q) l ((nodes s)(?q \<mapsto> ?nq)))"
  let ?n2 = "n\<lparr>m_tSmallKey := Some k, m_bSmallKeyIsSet := True\<rparr>"
  let ?h3 = "reparent (Some p) la (?h1(p \<mapsto> ?n2\<lparr>m_pLeft := root la\<rparr>))"
  have a: "new_CNode (getChild leftChild (Some p)) (getChild middleChild (Some p)) (getSmallKey (Some p)) s
    = Ok (Some ?q, s\<lparr>nodes := ?h1, brk := Suc ?q\<rparr>)"
    by (rule new_CNode_eval [where ql = "Some p" and qr = "Some p"]) (use n f ch ds in auto)
  have h1p: "?h1 p = Some n" using ds n by simp
  let ?s2 = "s\<lparr>nodes := ?h1(p \<mapsto> ?n2), brk := Suc ?q\<rparr>"
  have c: "setChild leftChild (Some p) (\<lambda>_. Ok (root la)) ?s2 = Ok (?s2\<lparr>nodes := ?h3\<rparr>)"
    by (subst setChild_eval [where q = q0 and t = la and n = ?n2]) (use ds ra in auto)
  have h3p: "?h3 p = Some (?n2\<lparr>m_pLeft := root la\<rparr>)" using ds by simp
  let ?h5 = "?h3(p \<mapsto> ?n2\<lparr>m_pLeft := root la, m_bBigKeyIsSet := False, m_pMiddle := None\<rparr>)"
  have "split k (Some p) (root la) s = Ok (SUCCESS, y, Some ?q, s\<lparr>nodes := ?h5, brk := Suc ?q\<rparr>)"
    using n f a lt h1p c h3p by (simp add: split_def setChild_def set_node_def)
  moreover have "rep ?h5 None (T2 ?q l x m)" "rep ?h5 par (T2 p la k r)"
    using ds ch ra f by (auto simp: is_defs blank_def)
  moreover have "?h5 z = nodes s z" if "z \<noteq> ?q \<and> z \<notin> A" for z
    using that A by simp
  ultimately show ?thesis by (auto simp: split_post_def)
qed

lemma split_less:
  assumes pre: "split_pre s par p n l x m y r q0 la" and lt: "\<not> y < k" "k < x" and A: "A = set (addrs (T3 p l x m y r) @ addrs la)"
  shows "split_post k s par p la A (T2 (brk s) la k l, x, T2 p m y r)"
proof -
  let ?q = "brk s"
  note n = split_preD(1,2) [OF pre] and ch = split_preD(3-5) [OF pre] and ra = split_preD(6) [OF pre] and ds = split_preD(7-27) [OF pre]
  note f = n(2) [unfolded is3_def]
  let ?nq = "blank\<lparr>m_pLeft := root la, m_pRight := root l, m_tSmallKey := Some k, m_bSmallKeyIsSet := True\<rparr>"
  let ?h1 = "reparent (Some ?q) l (reparent (Some ?q) la ((nodes s)(?q \<mapsto> ?nq)))"
  let ?n2 = "n\<lparr>m_tSmallKey := Some y, m_bSmallKeyIsSet := True\<rparr>"
  let ?h3 = "reparent (Some p) m (?h1(p \<mapsto> ?n2\<lparr>m_pLeft := root m\<rparr>))"
  have a: "new_CNode (\<lambda>_. Ok (root la)) (getChild leftChild (Some p)) (\<lambda>_. Ok k) s = Ok (Some ?q, s\<lparr>nodes := ?h1, brk := Suc ?q\<rparr>)"
    by (rule new_CNode_eval [where ql = q0 and qr = "Some p"]) (use n f ch ra ds in auto)
  have h1p: "?h1 p = Some n" using ds n by simp
  let ?s2 = "s\<lparr>nodes := ?h1(p \<mapsto> ?n2), brk := Suc ?q\<rparr>"
  have c: "setChild leftChild (Some p) (getChild middleChild (Some p)) ?s2 = Ok (?s2\<lparr>nodes := ?h3\<rparr>)"
    by (subst setChild_eval [where q = "Some p" and t = m and n = ?n2]) (use ds ch f in auto)
  have h3p: "?h3 p = Some (?n2\<lparr>m_pLeft := root m\<rparr>)" using ds by simp
  let ?h5 = "?h3(p \<mapsto> ?n2\<lparr>m_pLeft := root m, m_bBigKeyIsSet := False, m_pMiddle := None\<rparr>)"
  have "split k (Some p) (root la) s = Ok (SUCCESS, x, Some ?q, s\<lparr>nodes := ?h5, brk := Suc ?q\<rparr>)"
    using n f a lt h1p c h3p by (simp add: split_def setChild_def set_node_def)
  moreover have "rep ?h5 None (T2 ?q la k l)" "rep ?h5 par (T2 p m y r)"
    using ds ch ra f by (auto simp: is_defs blank_def)
  moreover have "?h5 z = nodes s z" if "z \<noteq> ?q \<and> z \<notin> A" for z
    using that A by simp
  ultimately show ?thesis by (auto simp: split_post_def)
qed

lemma split_middle:
  assumes pre: "split_pre s par p n l x m y r q0 la" and lt: "\<not> y < k" "\<not> k < x" and A: "A = set (addrs (T3 p l x m y r) @ addrs la)"
  shows "split_post k s par p la A (T2 (brk s) l x la, k, T2 p m y r)"
proof -
  let ?q = "brk s"
  note n = split_preD(1,2) [OF pre] and ch = split_preD(3-5) [OF pre] and ra = split_preD(6) [OF pre] and ds = split_preD(7-27) [OF pre]
  note f = n(2) [unfolded is3_def]
  let ?nq = "blank\<lparr>m_pLeft := root l, m_pRight := root la, m_tSmallKey := Some x, m_bSmallKeyIsSet := True\<rparr>"
  let ?h1 = "reparent (Some ?q) la (reparent (Some ?q) l ((nodes s)(?q \<mapsto> ?nq)))"
  let ?n2 = "n\<lparr>m_tSmallKey := Some y, m_bSmallKeyIsSet := True\<rparr>"
  let ?h3 = "reparent (Some p) m (?h1(p \<mapsto> ?n2\<lparr>m_pLeft := root m\<rparr>))"
  have a: "new_CNode (getChild leftChild (Some p)) (\<lambda>_. Ok (root la)) (getSmallKey (Some p)) s = Ok (Some ?q, s\<lparr>nodes := ?h1, brk := Suc ?q\<rparr>)"
    by (rule new_CNode_eval [where ql = "Some p" and qr = q0]) (use n f ch ra ds in auto)
  have h1p: "?h1 p = Some n" using ds n by simp
  let ?s2 = "s\<lparr>nodes := ?h1(p \<mapsto> ?n2), brk := Suc ?q\<rparr>"
  have c: "setChild leftChild (Some p) (getChild middleChild (Some p)) ?s2 = Ok (?s2\<lparr>nodes := ?h3\<rparr>)"
    by (subst setChild_eval [where q = "Some p" and t = m and n = ?n2]) (use ds ch f in auto)
  have h3p: "?h3 p = Some (?n2\<lparr>m_pLeft := root m\<rparr>)" using ds by simp
  let ?h5 = "?h3(p \<mapsto> ?n2\<lparr>m_pLeft := root m, m_bBigKeyIsSet := False, m_pMiddle := None\<rparr>)"
  have "split k (Some p) (root la) s = Ok (SUCCESS, k, Some ?q, s\<lparr>nodes := ?h5, brk := Suc ?q\<rparr>)"
    using n f a lt h1p c h3p by (simp add: split_def setChild_def set_node_def)
  moreover have "rep ?h5 None (T2 ?q l x la)" "rep ?h5 par (T2 p m y r)"
    using ds ch ra f by (auto simp: is_defs blank_def)
  moreover have "?h5 z = nodes s z" if "z \<noteq> ?q \<and> z \<notin> A" for z
    using that A by simp
  ultimately show ?thesis by (auto simp: split_post_def)
qed

lemma split_eval:
  assumes t: "t = T3 p l x m y r" and rt: "rep (nodes s) par t" and ra: "rep (nodes s) q0 la"
    and d: "distinct (addrs t @ addrs la)" and b: "brk s \<notin> set (addrs t @ addrs la)"
  shows "split_post k s par p la (set (addrs t @ addrs la)) (split_up k la (brk s) t)"
proof -
  from assms obtain n where pre: "split_pre s par p n l x m y r q0 la" by (auto simp: split_pre_def)
  consider "y < k" | "\<not> y < k" "k < x" | "\<not> y < k" "\<not> k < x" by blast
  then show ?thesis
  proof cases
    case 1
    with split_greater [OF pre 1 refl] t show ?thesis by (simp add: split_up_def)
  next
    case 2
    with split_less [OF pre 2 refl] t show ?thesis by (simp add: split_up_def)
  next
    case 3
    with split_middle [OF pre 3 refl] t show ?thesis by (simp add: split_up_def)
  qed
qed

section \<open>The parent takes the key\<close>

definition attach_post :: "'k ctree \<Rightarrow> 'k ctree res \<Rightarrow> ptr \<Rightarrow> addr set \<Rightarrow> 'k t23 \<Rightarrow> bool" where
  "attach_post s res par A t \<longleftrightarrow>
     (\<exists>s'. res = Ok s' \<and> m_pRoot s' = m_pRoot s \<and> brk s' = brk s \<and> rep (nodes s') par t \<and> (\<forall>a. a \<notin> A \<longrightarrow> nodes s' a = nodes s a))"

lemma node_sizes: "is2 par l x r n \<Longrightarrow> node_size n = twoNode" "is3 par l x m y r n \<Longrightarrow> node_size n = threeNode"
  by (simp_all add: is_defs node_size_def)

lemma attach_left:
  assumes n: "nodes s a = Some n" "is2 par (root rt) z (root rr) n"
    and r: "rep (nodes s) (Some a) rt" "rep (nodes s) (Some a) rr" "rep (nodes s) q0 lt" and up: "up < z"
    and d: "distinct (a # addrs rt @ addrs rr @ addrs lt)" and A: "A = set (a # addrs rt @ addrs lt)"
  shows "attach_post s (seqs [add (Some a) up, setChild middleChild (Some a) (getChild leftChild (Some a)),
           setChild leftChild (Some a) (\<lambda>_. Ok (root lt))] s) par A (T3 a lt up rt z rr)"
proof -
  note f = n(2) [unfolded is2_def]
  have ds: "a \<notin> set (addrs rt)" "a \<notin> set (addrs rr)" "a \<notin> set (addrs lt)" "distinct (addrs rt)" "distinct (addrs lt)"
    "set (addrs rt) \<inter> set (addrs rr) = {}" "set (addrs lt) \<inter> set (addrs rr) = {}"
    "set (addrs lt) \<inter> set (addrs rt) = {}" "set (addrs rt) \<inter> set (addrs lt) = {}" using d by auto
  let ?n1 = "n\<lparr>m_tBigKey := Some z, m_bBigKeyIsSet := True, m_tSmallKey := Some up, m_bSmallKeyIsSet := True\<rparr>"
  let ?s1 = "s\<lparr>nodes := (nodes s)(a \<mapsto> ?n1)\<rparr>"
  let ?h2 = "reparent (Some a) rt ((nodes s)(a \<mapsto> ?n1\<lparr>m_pMiddle := root rt\<rparr>))"
  let ?h3 = "reparent (Some a) lt (?h2(a \<mapsto> ?n1\<lparr>m_pMiddle := root rt, m_pLeft := root lt\<rparr>))"
  have 1: "add (Some a) up s = Ok ?s1"
    using n f up node_sizes(1) [OF n(2)] by (simp add: add_def)
  have 2: "setChild middleChild (Some a) (getChild leftChild (Some a)) ?s1 = Ok (?s1\<lparr>nodes := ?h2\<rparr>)"
    by (subst setChild_eval [where t = rt and q = "Some a" and n = ?n1]) (use ds r f in auto)
  have "?h2 a = Some (?n1\<lparr>m_pMiddle := root rt\<rparr>)" using ds by simp
  then have 3: "setChild leftChild (Some a) (\<lambda>_. Ok (root lt)) (?s1\<lparr>nodes := ?h2\<rparr>) = Ok (?s1\<lparr>nodes := ?h3\<rparr>)"
    by (subst setChild_eval [where t = lt and q = q0 and n = "?n1\<lparr>m_pMiddle := root rt\<rparr>"]) (use ds r in auto)
  have "rep ?h3 par (T3 a lt up rt z rr)" using ds r f by (auto simp: is_defs)
  moreover have "?h3 b = nodes s b" if "b \<notin> A" for b using that A by simp
  ultimately show ?thesis using 1 2 3 by (simp add: attach_post_def)
qed

lemma attach_right:
  assumes n: "nodes s a = Some n" "is2 par (root ll) z (root rt) n"
    and r: "rep (nodes s) (Some a) rt" "rep (nodes s) (Some a) ll" "rep (nodes s) q0 lt" and up: "z < up"
    and d: "distinct (a # addrs rt @ addrs ll @ addrs lt)" and A: "A = set (a # addrs rt @ addrs lt)"
  shows "attach_post s (seqs [add (Some a) up, setChild middleChild (Some a) (\<lambda>_. Ok (root lt))] s) par A (T3 a ll z lt up rt)"
proof -
  note f = n(2) [unfolded is2_def]
  have ds: "a \<notin> set (addrs rt)" "a \<notin> set (addrs ll)" "a \<notin> set (addrs lt)" "distinct (addrs lt)"
    "set (addrs lt) \<inter> set (addrs ll) = {}" "set (addrs lt) \<inter> set (addrs rt) = {}" using d by auto
  let ?n1 = "n\<lparr>m_tBigKey := Some up, m_bBigKeyIsSet := True\<rparr>"
  let ?s1 = "s\<lparr>nodes := (nodes s)(a \<mapsto> ?n1)\<rparr>"
  let ?h2 = "reparent (Some a) lt ((nodes s)(a \<mapsto> ?n1\<lparr>m_pMiddle := root lt\<rparr>))"
  have 1: "add (Some a) up s = Ok ?s1"
    using n f up node_sizes(1) [OF n(2)] by (simp add: add_def)
  have 2: "setChild middleChild (Some a) (\<lambda>_. Ok (root lt)) ?s1 = Ok (?s1\<lparr>nodes := ?h2\<rparr>)"
    by (subst setChild_eval [where t = lt and q = q0 and n = ?n1]) (use ds r f in auto)
  have "rep ?h2 par (T3 a ll z lt up rt)" using ds r f by (auto simp: is_defs)
  moreover have "?h2 b = nodes s b" if "b \<notin> A" for b using that A by simp
  ultimately show ?thesis using 1 2 by (simp add: attach_post_def)
qed

section \<open>The loop\<close>

text \<open>The store of a tree object that represents an ordered 2-3 tree.\<close>

definition repr :: "'k :: linorder ctree \<Rightarrow> 'k t23 \<Rightarrow> bool" where
  "repr s t \<longleftrightarrow> rep (nodes s) None t \<and> distinct (addrs t) \<and> (\<forall>a \<in> set (addrs t). a < brk s) \<and> m_pRoot s = root t \<and>
     (\<exists>n. balanced n t) \<and> ordered (keys t)"

definition merged :: "'k :: linorder \<Rightarrow> 'k t23 \<Rightarrow> 'k t23 \<Rightarrow> 'k list" where
  "merged k la t = (case split_up k la 0 t of (lt, up, rt) \<Rightarrow> keys lt @ up # keys rt)"

text \<open>A store with a tree in a path, and a second tree that is on its way into it.\<close>

definition carry :: "'k :: linorder ctree \<Rightarrow> 'k frame list \<Rightarrow> 'k t23 \<Rightarrow> 'k t23 \<Rightarrow> bool" where
  "carry s fs lt t \<longleftrightarrow> rep (nodes s) (above fs) t \<and> rep_path (nodes s) fs (root t) \<and> rep (nodes s) None lt \<and>
     distinct (paddrs fs @ addrs t @ addrs lt) \<and> (\<forall>a \<in> set (paddrs fs @ addrs t @ addrs lt). a < brk s) \<and>
     m_pRoot s = root (plug fs t)"

lemma repr_plug:
  assumes "rep (nodes s) (above fs) t" and "rep_path (nodes s) fs (root t)" and "distinct (paddrs fs @ addrs t)"
    and "\<forall>a \<in> set (paddrs fs @ addrs t). a < brk s" and "m_pRoot s = root (plug fs t)" and "balanced n t" and "bal_path n fs k"
    and "ordered (lkeys fs @ keys t @ rkeys fs)"
  shows "repr s (plug fs t)"
  unfolding repr_def using assms balanced_plug [OF assms(6), of k fs]
  by (auto simp: rep_plug distinct_plug set_plug keys_plug)

lemma split_up_shape:
  assumes "t = T3 p l x m y r" and "balanced (Suc n) t" and "balanced n la"
  shows "\<exists>l1 x1 r1 l2 x2 r2 up. split_up k la q t = (T2 q l1 x1 r1, up, T2 p l2 x2 r2) \<and>
    balanced (Suc n) (T2 q l1 x1 r1) \<and> balanced (Suc n) (T2 p l2 x2 r2) \<and>
    mset (addrs l1 @ addrs r1 @ addrs l2 @ addrs r2) = mset (addrs l @ addrs m @ addrs r @ addrs la) \<and>
    merged k la t = keys (T2 q l1 x1 r1) @ up # keys (T2 p l2 x2 r2)"
  using assms by (auto simp: split_up_def merged_def)

lemma carry_split:
  assumes c: "carry s fs la t" and t: "t = T3 p l x m y r" and b: "balanced (Suc n) t" "balanced n la"
  shows "\<exists>s' lt up rt. split k (Some p) (root la) s = Ok (SUCCESS, up, root lt, s') \<and> carry s' fs lt rt \<and> root rt = Some p \<and>
    balanced (Suc n) lt \<and> balanced (Suc n) rt \<and> merged k la t = keys lt @ up # keys rt"
proof -
  let ?A = "set (addrs t @ addrs la)"
  have d: "distinct (addrs t @ addrs la)" "set (paddrs fs) \<inter> ?A = {}" "brk s \<notin> ?A" "brk s \<notin> set (paddrs fs)" "\<forall>a \<in> ?A. a < brk s"
    using c by (auto simp: carry_def)
  from split_up_shape [OF t b, of k "brk s"] obtain l1 x1 r1 l2 x2 r2 up where
    u: "split_up k la (brk s) t = (T2 (brk s) l1 x1 r1, up, T2 p l2 x2 r2)"
    and ub: "balanced (Suc n) (T2 (brk s) l1 x1 r1)" "balanced (Suc n) (T2 p l2 x2 r2)"
    and um: "mset (addrs l1 @ addrs r1 @ addrs l2 @ addrs r2) = mset (addrs l @ addrs m @ addrs r @ addrs la)"
    and uk: "merged k la t = keys (T2 (brk s) l1 x1 r1) @ up # keys (T2 p l2 x2 r2)" by blast
  let ?lt = "T2 (brk s) l1 x1 r1" and ?rt = "T2 p l2 x2 r2"
  have "rep (nodes s) (above fs) t" "rep (nodes s) None la" using c by (auto simp: carry_def)
  from split_eval [OF t this d(1) d(3), of k] u obtain s' where
    s': "split k (Some p) (root la) s = Ok (SUCCESS, up, Some (brk s), s')" "m_pRoot s' = m_pRoot s" "brk s' = Suc (brk s)"
      "rep (nodes s') None ?lt" "rep (nodes s') (above fs) ?rt" "\<forall>a. a \<noteq> brk s \<and> a \<notin> ?A \<longrightarrow> nodes s' a = nodes s a"
    by (auto simp: split_post_def)
  have "rep_path (nodes s') fs (Some p) = rep_path (nodes s) fs (Some p)"
  proof (rule rep_path_cong)
    fix a assume "a \<in> set (paddrs fs)"
    with d(2,4) have "a \<noteq> brk s \<and> a \<notin> ?A" by blast
    with s'(6) show "nodes s' a = nodes s a" by blast
  qed
  moreover have "set (addrs l1 @ addrs r1 @ addrs l2 @ addrs r2) = set (addrs l @ addrs m @ addrs r @ addrs la)"
    using um by (rule mset_eq_setD)
  then have "set (addrs ?rt @ addrs ?lt) = {brk s} \<union> ?A" using t by auto
  moreover have D: "distinct (addrs l1 @ addrs r1 @ addrs l2 @ addrs r2)"
    using um d(1) t by (metis addrs.simps(3) append_Cons append_assoc distinct.simps(2) mset_eq_imp_distinct_iff)
  have "p \<notin> set (addrs l @ addrs m @ addrs r @ addrs la)" "brk s \<notin> set (addrs l @ addrs m @ addrs r @ addrs la)" "p \<noteq> brk s"
    using d(1,3) t by auto
  then have "p \<notin> set (addrs l1 @ addrs r1 @ addrs l2 @ addrs r2)" "brk s \<notin> set (addrs l1 @ addrs r1 @ addrs l2 @ addrs r2)" "p \<noteq> brk s"
    unfolding um [THEN mset_eq_setD] .
  with D have "distinct (addrs ?rt @ addrs ?lt)" by auto
  moreover have "root (plug fs ?rt) = root (plug fs t)" using root_plug [of fs t] root_plug [of fs ?rt] t by simp
  ultimately have "carry s' fs ?lt ?rt" using c s' d t by (auto simp: carry_def less_Suc_eq)
  with s' ub uk show ?thesis by (intro exI [of _ s'] exI [of _ ?lt] exI [of _ up] exI [of _ ?rt]) simp
qed

text \<open>What the loop does after a split.\<close>

definition insert_next :: "nat \<Rightarrow> ptr \<Rightarrow> 'k :: linorder \<Rightarrow> ptr \<Rightarrow> 'k ctree \<Rightarrow> (code \<times> 'k ctree) res" where
  "insert_next fuel p key added s =
     obind (getParent p s) (\<lambda>parent.
       if parent = None then
         obind (new_CNode (\<lambda>_. Ok added) (\<lambda>_. Ok p) (\<lambda>_. Ok key) s) (\<lambda>(root, s). Ok (SUCCESS, s\<lparr>m_pRoot := root\<rparr>))
       else obind (getSize parent s) (\<lambda>size.
         if size = twoNode then
           obind (getSmallKey parent s) (\<lambda>small.
             if TCompare key small = LESS then
               obind (seqs [add parent key, setChild middleChild parent (getChild leftChild parent),
                            setChild leftChild parent (\<lambda>_. Ok added)] s) (\<lambda>s. Ok (SUCCESS, s))
             else if TCompare key small = GREATER then
               obind (seqs [add parent key, setChild middleChild parent (\<lambda>_. Ok added)] s) (\<lambda>s. Ok (SUCCESS, s))
             else insert_loop fuel key parent added s)
         else insert_loop fuel key parent added s))"

lemma insert_loop_Suc:
  "split key p added s = Ok (SUCCESS, key', added', s') \<Longrightarrow> insert_loop (Suc fuel) key p added s = insert_next fuel p key' added' s'"
  by (simp add: insert_loop.simps insert_next_def)

definition insert_post :: "(code \<times> 'k :: linorder ctree) res \<Rightarrow> 'k list \<Rightarrow> bool" where
  "insert_post res ks \<longleftrightarrow> (\<exists>s t. res = Ok (SUCCESS, s) \<and> repr s t \<and> keys t = ks)"

text \<open>At the root a new root is made.\<close>

lemma insert_next_root:
  assumes c: "carry s [] lt rt" and p: "root rt = Some p" and b: "balanced m lt" "balanced m rt"
    and o: "ordered (keys lt @ up # keys rt)"
  shows "insert_post (insert_next fuel (Some p) up (root lt) s) (keys lt @ up # keys rt)"
proof -
  let ?q = "brk s"
  have r: "rep (nodes s) None rt" "rep (nodes s) None lt" "distinct (addrs rt @ addrs lt)" "\<forall>a \<in> set (addrs rt @ addrs lt). a < ?q"
    using c by (auto simp: carry_def paddrs_def)
  let ?h = "reparent (Some ?q) rt (reparent (Some ?q) lt ((nodes s)(?q \<mapsto>
      blank\<lparr>m_pLeft := root lt, m_pRight := root rt, m_tSmallKey := Some up, m_bSmallKeyIsSet := True\<rparr>)))"
  let ?s = "s\<lparr>nodes := ?h, brk := Suc ?q\<rparr>"
  have n: "new_CNode (\<lambda>_. Ok (root lt)) (\<lambda>_. Ok (root rt)) (\<lambda>_. Ok up) s = Ok (Some ?q, ?s)"
    by (rule new_CNode_eval [where ql = None and qr = None]) (use r in auto)
  obtain nd where nd: "nodes s p = Some nd" "m_pParent nd = None" using r(1) p by (cases rt) (auto simp: is_defs)
  have "insert_next fuel (Some p) up (root lt) s = Ok (SUCCESS, ?s\<lparr>m_pRoot := Some ?q\<rparr>)"
    using n nd p by (simp add: insert_next_def)
  moreover have ds: "?q \<notin> set (addrs rt)" "?q \<notin> set (addrs lt)" "set (addrs rt) \<inter> set (addrs lt) = {}"
    "set (addrs lt) \<inter> set (addrs rt) = {}" "distinct (addrs rt)" "distinct (addrs lt)" using r(3,4) by auto
  have "rep ?h None (T2 ?q lt up rt)" using r(1,2) ds by (auto simp: is_defs blank_def)
  then have "repr (?s\<lparr>m_pRoot := Some ?q\<rparr>) (T2 ?q lt up rt)"
    using r b o by (auto simp: repr_def less_Suc_eq intro!: exI [of _ "Suc m"])
  ultimately show ?thesis by (auto simp: insert_post_def)
qed


text \<open>Below a three node the keys are those of its split.\<close>

lemma merged_frame:
  assumes "ordered (lkeys (f # fs) @ keys lt @ up # keys rt @ rkeys (f # fs))" and "length (fsibs f) = 2"
  shows "lkeys (f # fs) @ keys lt @ up # keys rt @ rkeys (f # fs) = lkeys fs @ merged up lt (plug1 f rt) @ rkeys fs"
proof (cases f)
  case (L3 a x m y r)
  with assms(1) have "up < x" "up < y" by (auto simp: sorted_wrt_append)
  with L3 show ?thesis by (auto simp: merged_def split_up_def)
next
  case (M3 a l x y r)
  with assms(1) have "x < up" "up < y" by (auto simp: sorted_wrt_append)
  with M3 show ?thesis by (auto simp: merged_def split_up_def)
next
  case (R3 a l x m y)
  with assms(1) have "y < up" by (auto simp: sorted_wrt_append)
  with R3 show ?thesis by (auto simp: merged_def split_up_def)
qed (use assms(2) in auto)

lemma rep_path_step: "rep h (Some (faddr f)) t \<and> rep_path h (f # fs) (root t) \<longleftrightarrow>
    rep h (above fs) (plug1 f t) \<and> rep_path h fs (Some (faddr f))"
  by (cases f) auto

lemma root_plug1 [simp]: "root (plug1 f t) = Some (faddr f)"
  by (cases f) auto

lemma mset_plug1: "mset (addrs (plug1 f t)) = mset (faddrs f @ addrs t)"
  using mset_plug [of "[f]" t] by (simp add: paddrs_def)

lemma carry_up:
  assumes c: "carry s (f # fs) lt rt"
  shows "carry s fs lt (plug1 f rt)"
proof -
  have "mset (paddrs fs @ addrs (plug1 f rt) @ addrs lt) = mset (paddrs (f # fs) @ addrs rt @ addrs lt)"
    by (simp add: paddrs_def mset_plug1)
  then have "distinct (paddrs fs @ addrs (plug1 f rt) @ addrs lt) = distinct (paddrs (f # fs) @ addrs rt @ addrs lt)"
    "set (paddrs fs @ addrs (plug1 f rt) @ addrs lt) = set (paddrs (f # fs) @ addrs rt @ addrs lt)"
    by (rule mset_eq_imp_distinct_iff, rule mset_eq_setD)
  with c rep_path_step [of "nodes s" f rt fs] show ?thesis by (simp only: carry_def root_plug1 plug.simps above.simps simp_thms) blast
qed

lemma carry_attached:
  assumes c: "carry s (f # fs) lt rt" and p: "attach_post s res (above fs) (set (addrs (plug1 f rt)) \<union> set (addrs lt)) u"
    and u: "root u = Some (faddr f)" "mset (addrs u) = mset (addrs (plug1 f rt) @ addrs lt)" "balanced n u" "bal_path n fs k"
    and o: "ordered (lkeys fs @ keys u @ rkeys fs)"
  shows "insert_post (obind res (\<lambda>s. Ok (SUCCESS, s))) (lkeys fs @ keys u @ rkeys fs)"
proof -
  from p obtain s' where s': "res = Ok s'" "m_pRoot s' = m_pRoot s" "brk s' = brk s" "rep (nodes s') (above fs) u"
      "\<forall>a. a \<notin> set (addrs (plug1 f rt)) \<union> set (addrs lt) \<longrightarrow> nodes s' a = nodes s a" by (auto simp: attach_post_def)
  note c' = carry_up [OF c, unfolded carry_def]
  have e: "set (addrs u) = set (addrs (plug1 f rt) @ addrs lt)" using u(2) by (rule mset_eq_setD)
  have "rep_path (nodes s') fs (Some (faddr f)) = rep_path (nodes s) fs (Some (faddr f))"
  proof (rule rep_path_cong)
    fix a assume "a \<in> set (paddrs fs)"
    with c' have "a \<notin> set (addrs (plug1 f rt)) \<union> set (addrs lt)" by auto
    with s'(5) show "nodes s' a = nodes s a" by blast
  qed
  moreover have "distinct (addrs u)" using u(2) c' by (metis distinct_append mset_eq_imp_distinct_iff)
  moreover have "root (plug fs u) = root (plug fs (plug1 f rt))"
    using root_plug [of fs u] root_plug [of fs "plug1 f rt"] u(1) by simp
  ultimately have "repr s' (plug fs u)"
    by (intro repr_plug [where n = n and k = k]) (use c' s' u o e in auto)
  with s'(1) show ?thesis by (auto simp: insert_post_def keys_plug)
qed


lemma insert_next_2:
  assumes c: "carry s (f # fs) lt rt" and p: "root rt = Some p" and b: "balanced m lt" "balanced m rt" "bal_path m (f # fs) k"
    and o: "ordered (lkeys (f # fs) @ keys lt @ up # keys rt @ rkeys (f # fs))" and f: "length (fsibs f) = 1"
  shows "insert_post (insert_next fuel (Some p) up (root lt) s) (lkeys (f # fs) @ keys lt @ up # keys rt @ rkeys (f # fs))"
proof -
  have r: "rep (nodes s) (Some (faddr f)) rt" "rep_path (nodes s) (f # fs) (root rt)" "rep (nodes s) None lt" using c by (simp_all add: carry_def)
  have d: "distinct (addrs (plug1 f rt) @ addrs lt)" using carry_up [OF c] by (simp add: carry_def)
  from r(1) p obtain n where n: "nodes s p = Some n" "m_pParent n = Some (faddr f)" by (cases rt) (auto simp: is_defs)
  show ?thesis
  proof (cases f)
    case (L2 a z rr)
    with r obtain na where na: "nodes s a = Some na" "is2 (above fs) (root rt) z (root rr) na" and rr: "rep (nodes s) (Some a) rr" by auto
    from L2 o have up: "up < z" by (auto simp: sorted_wrt_append)
    let ?act = "seqs [add (Some a) up, setChild middleChild (Some a) (getChild leftChild (Some a)), setChild leftChild (Some a) (\<lambda>_. Ok (root lt))] s"
    have e: "insert_next fuel (Some p) up (root lt) s = obind ?act (\<lambda>s. Ok (SUCCESS, s))"
      using n na L2 up node_sizes(1) [OF na(2)] na(2) [unfolded is2_def] by (simp add: insert_next_def)
    have "attach_post s ?act (above fs) (set (a # addrs rt @ addrs lt)) (T3 a lt up rt z rr)"
      by (rule attach_left [OF na]) (use r rr up d L2 in auto)
    then have "attach_post s ?act (above fs) (set (addrs (plug1 f rt)) \<union> set (addrs lt)) (T3 a lt up rt z rr)"
      using L2 by (auto simp: attach_post_def)
    from carry_attached [OF c this, of "Suc m" k] L2 b o show ?thesis unfolding e by simp
  next
    case (R2 a ll z)
    with r obtain na where na: "nodes s a = Some na" "is2 (above fs) (root ll) z (root rt) na" and rr: "rep (nodes s) (Some a) ll" by auto
    from R2 o have up: "z < up" "\<not> up < z" by (auto simp: sorted_wrt_append)
    let ?act = "seqs [add (Some a) up, setChild middleChild (Some a) (\<lambda>_. Ok (root lt))] s"
    have e: "insert_next fuel (Some p) up (root lt) s = obind ?act (\<lambda>s. Ok (SUCCESS, s))"
      using n na R2 up node_sizes(1) [OF na(2)] na(2) [unfolded is2_def] by (simp add: insert_next_def)
    have "attach_post s ?act (above fs) (set (a # addrs rt @ addrs lt)) (T3 a ll z lt up rt)"
      by (rule attach_right [OF na]) (use r rr up d R2 in auto)
    then have "attach_post s ?act (above fs) (set (addrs (plug1 f rt)) \<union> set (addrs lt)) (T3 a ll z lt up rt)"
      using R2 by (auto simp: attach_post_def)
    from carry_attached [OF c this, of "Suc m" k] R2 b o show ?thesis unfolding e by simp
  qed (use f in auto)
qed

lemma insert_next_ok:
  assumes "carry s fs lt rt" and "root rt = Some p" and "balanced m lt" and "balanced m rt" and "bal_path m fs k" and "length fs \<le> fuel"
    and "ordered (lkeys fs @ keys lt @ up # keys rt @ rkeys fs)"
  shows "insert_post (insert_next fuel (Some p) up (root lt) s) (lkeys fs @ keys lt @ up # keys rt @ rkeys fs)"
  using assms
proof (induction fs arbitrary: s lt rt p m fuel up)
  case Nil
  then show ?case using insert_next_root [of s lt rt p m up fuel] by simp
next
  case (Cons f fs)
  show ?case
  proof (cases "length (fsibs f) = 1")
    case True
    with Cons.prems show ?thesis by (intro insert_next_2)
  next
    case False
    then have l: "length (fsibs f) = 2" by (cases f) auto
    let ?t = "plug1 f rt"
    note c = carry_up [OF Cons.prems(1)]
    from l obtain l x mm y r where t: "?t = T3 (faddr f) l x mm y r" by (cases f) auto
    have b: "balanced (Suc m) ?t" using Cons.prems(4,5) by (cases f) auto
    from carry_split [OF c t b Cons.prems(3), of up] obtain s' lt' up' rt' where
      s': "split up (Some (faddr f)) (root lt) s = Ok (SUCCESS, up', root lt', s')" "carry s' fs lt' rt'" "root rt' = Some (faddr f)"
        "balanced (Suc m) lt'" "balanced (Suc m) rt'" "merged up lt ?t = keys lt' @ up' # keys rt'" by blast
    note k = merged_frame [OF Cons.prems(7) l, unfolded s'(6)]
    from Cons.prems(6) obtain fuel' where fuel: "fuel = Suc fuel'" "length fs \<le> fuel'" by (cases fuel) auto
    have "insert_post (insert_next fuel' (Some (faddr f)) up' (root lt') s') (lkeys fs @ keys lt' @ up' # keys rt' @ rkeys fs)"
      by (rule Cons.IH) (use s' Cons.prems(5,7) k fuel in auto)
    moreover have "insert_next fuel (Some p) up (root lt) s = insert_loop fuel up (Some (faddr f)) (root lt) s"
    proof -
      have "rep (nodes s) (Some (faddr f)) rt" using Cons.prems(1) by (simp add: carry_def)
      with Cons.prems(2) obtain n where n: "nodes s p = Some n" "m_pParent n = Some (faddr f)" by (cases rt) (auto simp: is_defs)
      from c t obtain nf where nf: "nodes s (faddr f) = Some nf" "is3 (above fs) (root l) x (root mm) y (root r) nf" by (auto simp: carry_def)
      show ?thesis using n nf node_sizes(2) [OF nf(2)] by (simp add: insert_next_def)
    qed
    ultimately show ?thesis using k fuel insert_loop_Suc [OF s'(1)] by simp
  qed
qed

section \<open>Inserting a key\<close>

fun height :: "'k t23 \<Rightarrow> nat" where
  "height E = 0"
| "height (T2 _ l _ r) = Suc (max (height l) (height r))"
| "height (T3 _ l _ m _ r) = Suc (max (height l) (max (height m) (height r)))"

lemma height_balanced: "balanced n t \<Longrightarrow> height t = n"
  by (induction t arbitrary: n) (fastforce split: nat.splits)+

lemma bal_path_length: "bal_path n fs k \<Longrightarrow> k = n + length fs"
  by (induction fs arbitrary: n) fastforce+

lemma is_leaf_cases:
  assumes "is_leaf u"
  obtains (leaf2) a x where "u = T2 a E x E" | (leaf3) a x y where "u = T3 a E x E y E"
  using assms by (cases u rule: is_leaf.cases) auto

lemma ordered_fit:
  assumes "ordered (lkeys fs @ ks @ rkeys fs)" and "fits k fs" and "set ks' = Set.insert k (set ks)" and "ordered ks'"
  shows "ordered (lkeys fs @ ks' @ rkeys fs)"
  using assms by (auto simp: sorted_wrt_append fits_def)

lemma insert_empty: "m_pRoot s = None \<Longrightarrow> repr s E \<Longrightarrow> insert_post (insert fuel k s) [k]"
  by (auto simp: insert_post_def insert_def new_CNode0_def new_node_def add_def getSize_def blank_def node_size_def repr_def is_defs
      setSmallKey_def set_node_def intro!: exI [of _ "T2 (brk s) E k E"] exI [of _ "Suc 0"])

text \<open>A leaf with one key takes the key.\<close>

lemma insert_leaf2:
  assumes r: "repr s (plug fs u)" and u: "u = T2 a E x E" and k: "k \<noteq> x" and f: "fits k fs"
  shows "insert_post (obind (add (Some a) k s) (\<lambda>s. Ok (SUCCESS, s))) (lkeys fs @ sort [x, k] @ rkeys fs)"
proof -
  let ?u = "T3 a E (min x k) E (max x k) E"
  have ra: "rep (nodes s) (above fs) u" "rep_path (nodes s) fs (Some a)" "distinct (paddrs fs @ addrs u)" "ordered (lkeys fs @ keys u @ rkeys fs)"
    "\<forall>b \<in> set (paddrs fs @ addrs u). b < brk s" "m_pRoot s = root (plug fs u)"
    using r u by (auto simp: repr_def rep_plug distinct_plug set_plug keys_plug)
  from ra(1) u obtain n where n: "nodes s a = Some n" "is2 (above fs) None x None n" by auto
  let ?n = "n\<lparr>m_tBigKey := Some (max x k), m_bBigKeyIsSet := True, m_tSmallKey := Some (min x k), m_bSmallKeyIsSet := True\<rparr>"
  let ?s = "s\<lparr>nodes := (nodes s)(a \<mapsto> ?n)\<rparr>"
  have e: "add (Some a) k s = Ok ?s"
    using n node_sizes(1) [OF n(2)] n(2) [unfolded is2_def] k by (cases n; cases "x < k") (auto simp: add_def max_def min_def)
  obtain h where h: "balanced h (plug fs u)" using r by (auto simp: repr_def)
  then have "bal_path 1 fs h" using balanced_plug [of 1 u h fs] u by simp
  moreover have "ordered (lkeys fs @ keys ?u @ rkeys fs)"
    by (rule ordered_fit [OF ra(4) f]) (use u k in \<open>auto simp: min_def max_def\<close>)
  moreover have "root (plug fs ?u) = root (plug fs u)" using root_plug [of fs u] root_plug [of fs ?u] u by simp
  ultimately have "repr ?s (plug fs ?u)"
    by (intro repr_plug [where n = 1 and k = h]) (use ra u n(2) in \<open>auto simp: is_defs\<close>)
  then show ?thesis using e k by (auto simp: insert_post_def keys_plug min_def max_def intro!: exI [of _ "plug fs ?u"])
qed

text \<open>A leaf with two keys is split.\<close>

lemma insert_leaf3:
  assumes r: "repr s (plug fs u)" and u: "u = T3 a E x E y E" and k: "k \<notin> {x, y}" and f: "fits k fs" and l: "length fs < fuel"
  shows "insert_post (insert_loop fuel k (Some a) None s) (lkeys fs @ sort [x, y, k] @ rkeys fs)"
proof -
  obtain h where h: "balanced h (plug fs u)" using r by (auto simp: repr_def)
  have b: "balanced (Suc 0) u" using u by simp
  with h have bp: "bal_path (Suc 0) fs h" using balanced_plug [of "Suc 0" u h fs] by simp
  have o: "ordered (lkeys fs @ keys u @ rkeys fs)" using r by (simp add: repr_def keys_plug)
  have c: "carry s fs E u" using r u by (auto simp: repr_def carry_def rep_plug distinct_plug set_plug)
  from carry_split [OF c u b, of k] obtain s' lt up rt where
    s': "split k (Some a) None s = Ok (SUCCESS, up, root lt, s')" "carry s' fs lt rt" "root rt = Some a"
      "balanced (Suc 0) lt" "balanced (Suc 0) rt" "merged k E u = keys lt @ up # keys rt" by auto
  have xy: "x < y" using o u by (auto simp: sorted_wrt_append)
  have m: "merged k E u = sort [x, y, k]" "ordered (sort [x, y, k])" using u xy k by (auto simp: merged_def split_up_def)
  have o': "ordered (lkeys fs @ merged k E u @ rkeys fs)"
    by (rule ordered_fit [OF o f]) (use m u in auto)
  from l obtain fuel' where fuel: "fuel = Suc fuel'" "length fs \<le> fuel'" by (cases fuel) auto
  have "insert_post (insert_next fuel' (Some a) up (root lt) s') (lkeys fs @ keys lt @ up # keys rt @ rkeys fs)"
    by (rule insert_next_ok [where m = "Suc 0" and k = h]) (use s' bp fuel o' in auto)
  then show ?thesis using fuel insert_loop_Suc [OF s'(1)] s'(6) m(1) by simp
qed


text \<open>The leaf the search ends in.\<close>

lemma search_leaf:
  assumes r: "repr s t" and t: "t \<noteq> E" and f: "height t \<le> fuel" and k: "k \<notin> set (keys t)"
  obtains fs u where "t = plug fs u" "is_leaf u" "search fuel k s = Ok (SUCCESS, root u, False)" "fits k fs" "length fs < height t"
proof -
  from r obtain n where n: "balanced n t" by (auto simp: repr_def)
  with height_balanced have h: "n = height t" by metis
  from n t have "0 < n" by (cases n) auto
  with r n f h have "search_spec k t s (search_loop fuel k (root t) s)" by (intro search_loop_spec) (auto simp: repr_def)
  with k obtain fs u where u: "t = plug fs u" "is_leaf u" "search_loop fuel k (root t) s = Ok (root u, False)" "fits k fs"
    by (auto simp: search_spec_def)
  from u(2) have "balanced 1 u" by (auto elim: is_leaf_cases)
  with n u(1) h have "length fs < height t" using balanced_plug [of 1 u n fs] bal_path_length [of 1 fs n] by auto
  with that u r t show ?thesis by (auto simp: search_def repr_def)
qed

lemma insert_new:
  assumes r: "repr s t" and f: "height t \<le> fuel" and k: "k \<notin> set (keys t)"
  shows "\<exists>ks. insert_post (insert fuel k s) ks \<and> set ks = Set.insert k (set (keys t))"
proof (cases "t = E")
  case True
  with r insert_empty [of s fuel k] show ?thesis by (intro exI [of _ "[k]"]) (auto simp: repr_def)
next
  case False
  from r f k obtain fs u where u: "t = plug fs u" "is_leaf u" "search fuel k s = Ok (SUCCESS, root u, False)" "fits k fs" "length fs < fuel"
    using search_leaf [OF r False f k] by (metis order_less_le_trans)
  obtain q where root: "m_pRoot s = Some q" using r False by (cases t) (auto simp: repr_def)
  have rep: "rep (nodes s) (above fs) u" using r u(1) by (simp add: repr_def rep_plug)
  have ku: "k \<notin> set (keys u)" using k u(1) by (simp add: keys_plug)
  from u(2) show ?thesis
  proof (cases rule: is_leaf_cases)
    case (leaf2 a x)
    with rep obtain n where "nodes s a = Some n" "node_size n = twoNode" by (auto dest: node_sizes)
    with root u(3) leaf2 have "insert fuel k s = obind (add (Some a) k s) (\<lambda>s. Ok (SUCCESS, s))" by (simp add: insert_def)
    with insert_leaf2 [of s fs u a x k] r u leaf2 ku show ?thesis
      by (intro exI [of _ "lkeys fs @ sort [x, k] @ rkeys fs"]) (auto simp: keys_plug)
  next
    case (leaf3 a x y)
    with rep obtain n where "nodes s a = Some n" "node_size n = threeNode" by (auto dest: node_sizes)
    with root u(3) leaf3 have "insert fuel k s = insert_loop fuel k (Some a) None s" by (simp add: insert_def)
    with insert_leaf3 [of s fs u a x y k fuel] r u leaf3 ku show ?thesis
      by (intro exI [of _ "lkeys fs @ sort [x, y, k] @ rkeys fs"]) (auto simp: keys_plug)
  qed
qed

lemma search_found:
  assumes r: "repr s t" and f: "height t \<le> fuel" and k: "k \<in> set (keys t)"
  obtains a n where "search fuel k s = Ok (SUCCESS, Some a, True)" "nodes s a = Some n" "holds k n"
proof -
  from r obtain n where n: "balanced n t" by (auto simp: repr_def)
  with height_balanced have h: "n = height t" by metis
  from k have t: "t \<noteq> E" by auto
  with n have "0 < n" by (cases n) auto
  with r n f h have "search_spec k t s (search_loop fuel k (root t) s)" by (intro search_loop_spec) (auto simp: repr_def)
  with k that r t show ?thesis by (auto simp: search_spec_def search_def repr_def)
qed

lemma insert_old:
  assumes "repr s t" and "height t \<le> fuel" and "k \<in> set (keys t)"
  shows "insert fuel k s = Ok (DUPLICATE_VALUE, s)"
proof -
  from assms obtain a n where "search fuel k s = Ok (SUCCESS, Some a, True)" by (rule search_found)
  moreover from assms obtain q where "m_pRoot s = Some q" by (cases t) (auto simp: repr_def)
  ultimately show ?thesis by (simp add: insert_def)
qed

lemma find_new:
  assumes "repr s t" and "height t \<le> fuel" and "k \<notin> set (keys t)"
  shows "find fuel k s = Ok None"
proof (cases "t = E")
  case True
  with assms(1) show ?thesis by (simp add: find_def search_def repr_def)
next
  case False
  obtain u :: "'a t23" where "search fuel k s = Ok (SUCCESS, root u, False)" by (rule search_leaf [OF assms(1) False assms(2,3)]) blast
  then show ?thesis by (simp add: find_def)
qed

lemma find_old:
  assumes "repr s t" and "height t \<le> fuel" and "k \<in> set (keys t)"
  shows "find fuel k s = Ok (Some k)"
proof -
  from assms obtain a n where "search fuel k s = Ok (SUCCESS, Some a, True)" "nodes s a = Some n" "holds k n" by (rule search_found)
  then show ?thesis by (auto simp: find_def holds_def node_size_def)
qed

end
