(* ===== verification/CTree_Walk.thy ===== *)
theory CTree_Walk
  imports CTree_Insert
begin

text \<open>
  The traversals of the 2-3 tree of \<open>CTree.h\<close> (\<open>getNextInorderKey\<close>, \<open>getNextPostorderKey\<close>, \<open>getNextPreorderKey\<close>,
  \<open>print\<close>) and \<open>removeAll\<close>. Printing is the list of the keys written to the output. The theorems: an inorder
  \<open>print\<close> lists the keys of the tree in order.
\<close>

section \<open>The next key\<close>

text \<open>Up the parent pointers, to the first node with a key above the given one.\<close>

fun inorder_up :: "nat \<Rightarrow> ptr \<Rightarrow> 'k :: linorder \<Rightarrow> 'k ctree \<Rightarrow> (ptr \<times> 'k) res" where
  "inorder_up 0 p key s = Timeout"
| "inorder_up (Suc fuel) p key s =
     obind (getParent p s) (\<lambda>p.
       if p = None then Ok (p, key)
       else obind (getSmallKey p s) (\<lambda>small.
         if TCompare key small = LESS then Ok (p, small)
         else obind (getSize p s) (\<lambda>size.
           if size = threeNode then
             obind (getBigKey p s) (\<lambda>big. if TCompare key big = LESS then Ok (p, big) else inorder_up fuel p key s)
           else inorder_up fuel p key s)))"

definition min_below :: "nat \<Rightarrow> eTraverseDirection \<Rightarrow> ptr \<Rightarrow> 'k ctree \<Rightarrow> (ptr \<times> 'k) res" where
  "min_below fuel d p s =
     obind (getChild d p s) (\<lambda>c. obind (getMinNode fuel c s) (\<lambda>q. obind (getSmallKey q s) (\<lambda>k. Ok (q, k))))"

text \<open>Short-circuit conjunction.\<close>

fun all_of :: "('s \<Rightarrow> bool res) list \<Rightarrow> 's \<Rightarrow> bool res" where
  "all_of [] s = Ok True"
| "all_of (c # cs) s = obind (c s) (\<lambda>b. if b then all_of cs s else Ok False)"

definition has_size :: "eNodeSize \<Rightarrow> ptr \<Rightarrow> 'k ctree \<Rightarrow> bool res" where
  "has_size z p s = obind (getSize p s) (\<lambda>size. Ok (size = z))"

definition key_is :: "'k :: linorder \<Rightarrow> ('k ctree \<Rightarrow> 'k res) \<Rightarrow> 'k ctree \<Rightarrow> bool res" where
  "key_is key e s = obind (e s) (\<lambda>k. Ok (TCompare key k = EQUAL))"

definition child_is :: "eTraverseDirection \<Rightarrow> ptr \<Rightarrow> ptr \<Rightarrow> 'k ctree \<Rightarrow> bool res" where
  "child_is d p c s = obind (getChild d p s) (\<lambda>q. Ok (q = c))"

definition getNextInorderKey :: "nat \<Rightarrow> ptr \<Rightarrow> 'k :: linorder \<Rightarrow> 'k ctree \<Rightarrow> (ptr \<times> 'k) res" where
  "getNextInorderKey fuel p key s =
     obind (all_of [has_size threeNode p, key_is key (getSmallKey p)] s) (\<lambda>first.
       if first then
         obind (isLeaf p s) (\<lambda>leaf.
           if leaf then obind (getBigKey p s) (\<lambda>big. Ok (p, big)) else min_below fuel middleChild p s)
       else obind (isLeaf p s) (\<lambda>leaf.
         obind (if leaf then Ok False else all_of [has_size twoNode p, key_is key (getSmallKey p)] s) (\<lambda>two.
           obind (if leaf \<or> two then Ok two else all_of [has_size threeNode p, key_is key (getBigKey p)] s) (\<lambda>last.
             if last then min_below fuel rightChild p s else inorder_up fuel p key s))))"

definition getNextPostorderKey :: "nat \<Rightarrow> ptr \<Rightarrow> 'k :: linorder \<Rightarrow> 'k ctree \<Rightarrow> (ptr \<times> 'k) res" where
  "getNextPostorderKey fuel p key s =
     obind (all_of [has_size threeNode p, key_is key (getSmallKey p)] s) (\<lambda>first.
       if first then
         obind (isLeaf p s) (\<lambda>leaf.
           if leaf then obind (getBigKey p s) (\<lambda>big. Ok (p, big)) else min_below fuel rightChild p s)
       else obind (getParent p s) (\<lambda>q.
         if q = None then Ok (q, key)
         else obind (getSize q s) (\<lambda>size.
           obind (child_is leftChild q p s) (\<lambda>l. obind (child_is middleChild q p s) (\<lambda>m. obind (child_is rightChild q p s) (\<lambda>r.
             if size = twoNode then
               if l then min_below fuel rightChild q s
               else if r then obind (getSmallKey q s) (\<lambda>k. Ok (q, k))
               else Ok (q, key)
             else if size = threeNode then
               if l then min_below fuel middleChild q s
               else if m then obind (getSmallKey q s) (\<lambda>k. Ok (q, k))
               else if r then obind (getBigKey q s) (\<lambda>k. Ok (q, k))
               else Ok (q, key)
             else Ok (q, key)))))))"

text \<open>Up while the node is the right child: the first ancestor it is not the right child of, and the child on the way.\<close>

fun preorder_up :: "nat \<Rightarrow> ptr \<Rightarrow> 'k ctree \<Rightarrow> (ptr \<times> ptr) res" where
  "preorder_up 0 prev s = Timeout"
| "preorder_up (Suc fuel) prev s =
     obind (getParent prev s) (\<lambda>p.
       if p = None then Ok (p, prev)
       else obind (child_is rightChild p prev s) (\<lambda>r. if r then preorder_up fuel p s else Ok (p, prev)))"

definition child_key :: "eTraverseDirection \<Rightarrow> ptr \<Rightarrow> 'k ctree \<Rightarrow> (ptr \<times> 'k) res" where
  "child_key d p s = obind (getChild d p s) (\<lambda>c. obind (getSmallKey c s) (\<lambda>k. Ok (c, k)))"

definition getNextPreorderKey :: "nat \<Rightarrow> ptr \<Rightarrow> 'k :: linorder \<Rightarrow> 'k ctree \<Rightarrow> (ptr \<times> 'k) res" where
  "getNextPreorderKey fuel p key s =
     obind (all_of [has_size threeNode p, key_is key (getSmallKey p), isLeaf p] s) (\<lambda>b1.
       if b1 then obind (getBigKey p s) (\<lambda>big. Ok (p, big))
       else obind (isLeaf p s) (\<lambda>leaf.
         obind (all_of [key_is key (getSmallKey p), \<lambda>_. Ok (\<not> leaf)] s) (\<lambda>b2.
           if b2 then child_key leftChild p s
           else obind (all_of [key_is key (getBigKey p), \<lambda>_. Ok (\<not> leaf)] s) (\<lambda>b3.
             if b3 then child_key middleChild p s
             else obind (preorder_up fuel p s) (\<lambda>(q, prev).
               if q = None then Ok (q, key)
               else obind (getSize q s) (\<lambda>size.
                 obind (child_is leftChild q prev s) (\<lambda>l. obind (child_is middleChild q prev s) (\<lambda>m.
                   if (size = twoNode \<and> l) \<or> (size = threeNode \<and> m) then child_key rightChild q s
                   else if l \<and> size = threeNode then obind (getBigKey q s) (\<lambda>big. Ok (q, big))
                   else Ok (q, key)))))))))"

section \<open>Printing\<close>

datatype eTreeTraversal = inorder | preorder | postorder

fun next_key :: "eTreeTraversal \<Rightarrow> nat \<Rightarrow> ptr \<Rightarrow> 'k :: linorder \<Rightarrow> 'k ctree \<Rightarrow> (ptr \<times> 'k) res" where
  "next_key inorder = getNextInorderKey"
| "next_key preorder = getNextPreorderKey"
| "next_key postorder = getNextPostorderKey"

text \<open>The loop takes fuel for its rounds, and each call in it for its own loops.\<close>

fun print_loop :: "nat \<Rightarrow> nat \<Rightarrow> eTreeTraversal \<Rightarrow> ptr \<Rightarrow> 'k :: linorder \<Rightarrow> 'k ctree \<Rightarrow> 'k list res" where
  "print_loop 0 fuel m p key s = Timeout"
| "print_loop (Suc rounds) fuel m p key s =
     obind (next_key m fuel p key s) (\<lambda>(p, key').
       if p \<noteq> None then obind (print_loop rounds fuel m p key' s) (\<lambda>out. Ok (key # out)) else Ok [key])"

text \<open>The code, the number of items printed, and the output.\<close>

definition print :: "nat \<Rightarrow> nat \<Rightarrow> eTreeTraversal \<Rightarrow> 'k :: linorder ctree \<Rightarrow> (code \<times> nat \<times> 'k list) res" where
  "print rounds fuel m s =
     (if m_pRoot s = None then Ok (IS_EMPTY, 0, [])
      else obind (if m = preorder then Ok (m_pRoot s) else getMinNode fuel (m_pRoot s) s) (\<lambda>p.
        obind (getSmallKey p s) (\<lambda>key.
          obind (print_loop rounds fuel m p key s) (\<lambda>out. Ok (FAILURE, length out, out)))))"

section \<open>Removing all nodes\<close>

fun removeAll_loop :: "nat \<Rightarrow> nat \<Rightarrow> ptr \<Rightarrow> 'k ctree \<Rightarrow> 'k ctree res" where
  "removeAll_loop 0 fuel p s = Timeout"
| "removeAll_loop (Suc rounds) fuel p s =
     obind (getParent p s) (\<lambda>q.
       if q = None then Ok s
       else obind (getChild rightChild q s) (\<lambda>r. obind (getChild middleChild q s) (\<lambda>m. obind (getChild leftChild q s) (\<lambda>l.
         if (p = l \<and> m = None) \<or> p = m then
           obind (delete_node p s) (\<lambda>s. obind (getMinNode fuel r s) (\<lambda>p. removeAll_loop rounds fuel p s))
         else if p = l then
           obind (delete_node p s) (\<lambda>s. obind (getMinNode fuel m s) (\<lambda>p. removeAll_loop rounds fuel p s))
         else if p = r then
           obind (delete_node p s) (\<lambda>s. removeAll_loop rounds fuel q s)
         else removeAll_loop rounds fuel p s))))"

definition removeAll_ctree :: "nat \<Rightarrow> nat \<Rightarrow> 'k ctree \<Rightarrow> (code \<times> 'k ctree) res" where
  "removeAll_ctree rounds fuel s =
     (if m_pRoot s = None then Ok (IS_EMPTY, s)
      else obind (getMinNode fuel (m_pRoot s) s) (\<lambda>p.
        obind (removeAll_loop rounds fuel p s) (\<lambda>s.
          obind (delete_node (m_pRoot s) s) (\<lambda>s. Ok (SUCCESS, s\<lparr>m_pRoot := None\<rparr>)))))"

definition destroy :: "nat \<Rightarrow> nat \<Rightarrow> 'k ctree \<Rightarrow> 'k ctree res" where
  "destroy rounds fuel s =
     (if m_pRoot s \<noteq> None then obind (removeAll_ctree rounds fuel s) (\<lambda>(rc, s). Ok s) else Ok s)"

declare inorder_up.simps [simp del] preorder_up.simps [simp del] print_loop.simps [simp del] removeAll_loop.simps [simp del]

section \<open>Inorder traversal\<close>

text \<open>A position in a tree: a node, one of its keys, and the keys after it.\<close>

definition pos :: "'k t23 \<Rightarrow> addr \<Rightarrow> 'k \<Rightarrow> 'k list \<Rightarrow> bool" where
  "pos t a k ks \<longleftrightarrow> (\<exists>fs l m r x y.
     t = plug fs (T2 a l k r) \<and> ks = keys r @ rkeys fs \<or>
     t = plug fs (T3 a l k m y r) \<and> ks = keys m @ y # keys r @ rkeys fs \<or>
     t = plug fs (T3 a l x m k r) \<and> ks = keys r @ rkeys fs)"

lemma posI2: "t = plug fs (T2 a l k r) \<Longrightarrow> ks = keys r @ rkeys fs \<Longrightarrow> pos t a k ks"
  unfolding pos_def by blast

lemma posI3: "t = plug fs (T3 a l k m y r) \<Longrightarrow> ks = keys m @ y # keys r @ rkeys fs \<Longrightarrow> pos t a k ks"
  unfolding pos_def by blast

lemma posI3': "t = plug fs (T3 a l x m k r) \<Longrightarrow> ks = keys r @ rkeys fs \<Longrightarrow> pos t a k ks"
  unfolding pos_def by blast

lemma pos_cases:
  assumes "pos t a k ks"
  obtains (two) fs l r where "t = plug fs (T2 a l k r)" "ks = keys r @ rkeys fs"
  | (small) fs l m y r where "t = plug fs (T3 a l k m y r)" "ks = keys m @ y # keys r @ rkeys fs"
  | (big) fs l x m r where "t = plug fs (T3 a l x m k r)" "ks = keys r @ rkeys fs"
  using assms unfolding pos_def by blast

text \<open>The result of a step: the next key with its node, or the end.\<close>

definition next_ok :: "'k t23 \<Rightarrow> 'k \<Rightarrow> 'k list \<Rightarrow> (ptr \<times> 'k) res \<Rightarrow> bool" where
  "next_ok t k ks res \<longleftrightarrow> (case ks of [] \<Rightarrow> res = Ok (None, k) | k' # ks' \<Rightarrow> \<exists>a. res = Ok (Some a, k') \<and> pos t a k' ks')"

lemma getMinNode_pos:
  assumes "rep (nodes s) par v" and "v \<noteq> E" and "height v \<le> fuel" and "t = plug fs v"
  shows "\<exists>b k. getMinNode fuel (root v) s = Ok (Some b) \<and> getSmallKey (Some b) s = Ok k \<and>
    pos t b k (tl (keys v) @ rkeys fs) \<and> keys v = k # tl (keys v)"
  using assms
proof (induction v arbitrary: par fuel fs)
  case (T2 a l x r)
  then obtain n where n: "nodes s a = Some n" "is2 par (root l) x (root r) n" by auto
  from T2.prems obtain f where f: "fuel = Suc f" "height l \<le> f" by (cases fuel) auto
  have e: "getMinNode fuel (root (T2 a l x r)) s = (if l = E then Ok (Some a) else getMinNode f (root l) s)"
    using n f by (simp add: getMinNode.simps is_defs)
  show ?case
  proof (cases "l = E")
    case True
    with e n T2.prems show ?thesis by (auto simp: is_defs intro: posI2)
  next
    case False
    from T2.prems have "rep (nodes s) (Some a) l" "t = plug (L2 a x r # fs) l" by auto
    from T2.IH(1) [OF this(1) False f(2) this(2)] obtain b k where
      *: "getMinNode f (root l) s = Ok (Some b)" "getSmallKey (Some b) s = Ok k" "pos t b k (tl (keys l) @ x # keys r @ rkeys fs)"
        "keys l = k # tl (keys l)" by auto
    from *(4) have "tl (keys (T2 a l x r)) = tl (keys l) @ x # keys r" "keys (T2 a l x r) = k # tl (keys (T2 a l x r))" 
      by (metis keys.simps(2) list.sel(3) append_Cons)+
    with * e False show ?thesis by auto
  qed
next
  case (T3 a l x m y r)
  then obtain n where n: "nodes s a = Some n" "is3 par (root l) x (root m) y (root r) n" by auto
  from T3.prems obtain f where f: "fuel = Suc f" "height l \<le> f" by (cases fuel) auto
  have e: "getMinNode fuel (root (T3 a l x m y r)) s = (if l = E then Ok (Some a) else getMinNode f (root l) s)"
    using n f by (simp add: getMinNode.simps is_defs)
  show ?case
  proof (cases "l = E")
    case True
    with e n T3.prems show ?thesis by (auto simp: is_defs intro: posI3)
  next
    case False
    from T3.prems have "rep (nodes s) (Some a) l" "t = plug (L3 a x m y r # fs) l" by auto
    from T3.IH(1) [OF this(1) False f(2) this(2)] obtain b k where
      *: "getMinNode f (root l) s = Ok (Some b)" "getSmallKey (Some b) s = Ok k" "pos t b k (tl (keys l) @ x # keys m @ y # keys r @ rkeys fs)"
        "keys l = k # tl (keys l)" by auto
    from *(4) have "tl (keys (T3 a l x m y r)) = tl (keys l) @ x # keys m @ y # keys r" "keys (T3 a l x m y r) = k # tl (keys (T3 a l x m y r))" 
      by (metis keys.simps(3) list.sel(3) append_Cons)+
    with * e False show ?thesis by auto
  qed
qed simp

lemma inorder_up_ok:
  assumes "rep_path (nodes s) fs (Some p)" and "nodes s p = Some n" and "m_pParent n = above fs" and "length fs < fuel"
    and "\<forall>x \<in> set (lkeys fs). x < k" and "\<forall>x \<in> set (rkeys fs). k < x" and "root u = Some p"
  shows "next_ok (plug fs u) k (rkeys fs) (inorder_up fuel (Some p) k s)"
  using assms
proof (induction fs arbitrary: p n fuel u)
  case Nil
  then show ?case by (cases fuel) (auto simp: next_ok_def inorder_up.simps)
next
  case (Cons f fs)
  from Cons.prems(4) obtain g where g: "fuel = Suc g" "length fs < g" by (cases fuel) auto
  show ?case
  proof (cases f)
    case (L2 a x r)
    with Cons.prems g have "inorder_up fuel (Some p) k s = Ok (Some a, x)" by (auto simp: inorder_up.simps is_defs)
    with L2 show ?thesis by (auto simp: next_ok_def intro: posI2)
  next
    case (R2 a l x)
    with Cons.prems obtain na where na: "nodes s a = Some na" "is2 (above fs) (root l) x (Some p) na" by auto
    have "next_ok (plug fs (plug1 f u)) k (rkeys fs) (inorder_up g (Some a) k s)"
      by (rule Cons.IH [OF _ na(1)]) (use Cons.prems R2 na(2) g in \<open>auto simp: is_defs\<close>)
    moreover have "\<not> k < x" using Cons.prems(5) R2 by auto
    then have "inorder_up fuel (Some p) k s = inorder_up g (Some a) k s"
      using Cons.prems R2 na g node_sizes(1) [OF na(2)] by (simp add: inorder_up.simps is_defs)
    ultimately show ?thesis using R2 by simp
  next
    case (L3 a x m y r)
    with Cons.prems g have "inorder_up fuel (Some p) k s = Ok (Some a, x)" by (auto simp: inorder_up.simps is_defs)
    with L3 show ?thesis by (auto simp: next_ok_def intro: posI3)
  next
    case (M3 a l x y r)
    with Cons.prems obtain na where na: "nodes s a = Some na" "is3 (above fs) (root l) x (Some p) y (root r) na" by auto
    have "\<not> k < x" "k < y" using Cons.prems(5,6) M3 by auto
    then have "inorder_up fuel (Some p) k s = Ok (Some a, y)"
      using Cons.prems M3 na g node_sizes(2) [OF na(2)] by (simp add: inorder_up.simps is_defs)
    with M3 show ?thesis by (auto simp: next_ok_def intro: posI3')
  next
    case (R3 a l x m y)
    with Cons.prems obtain na where na: "nodes s a = Some na" "is3 (above fs) (root l) x (root m) y (Some p) na" by auto
    have "next_ok (plug fs (plug1 f u)) k (rkeys fs) (inorder_up g (Some a) k s)"
      by (rule Cons.IH [OF _ na(1)]) (use Cons.prems R3 na(2) g in \<open>auto simp: is_defs\<close>)
    moreover have "\<not> k < x" "\<not> k < y" using Cons.prems(5) R3 by auto
    then have "inorder_up fuel (Some p) k s = inorder_up g (Some a) k s"
      using Cons.prems R3 na g node_sizes(2) [OF na(2)] by (simp add: inorder_up.simps is_defs)
    ultimately show ?thesis using R3 by simp
  qed
qed

lemma height_plug1: "height u < height (plug1 f u)"
  by (cases f) auto

lemma height_plug: "height u + length fs \<le> height (plug fs u)"
proof (induction fs arbitrary: u)
  case (Cons f fs)
  from Cons [of "plug1 f u"] height_plug1 [of u f] show ?case by simp
qed simp

lemma min_below_ok:
  assumes "nodes s a = Some n" and "child d n = root v" and "rep (nodes s) par v" and "v \<noteq> E" and "height v \<le> fuel" and "t = plug fs v"
  shows "next_ok t k (keys v @ rkeys fs) (min_below fuel d (Some a) s)"
proof -
  from getMinNode_pos [OF assms(3-6)] obtain b k' where
    *: "getMinNode fuel (root v) s = Ok (Some b)" "getSmallKey (Some b) s = Ok k'" "pos t b k' (tl (keys v) @ rkeys fs)" "keys v = k' # tl (keys v)"
    by blast
  from *(4) obtain ks where "keys v = k' # ks" by blast
  with *(1-3) assms(1,2) show ?thesis by (simp add: next_ok_def min_below_def)
qed

text \<open>A balanced node has no child or all of them.\<close>

lemma balanced_children:
  "balanced n (T2 a l x r) \<Longrightarrow> l = E \<longleftrightarrow> r = E"
  "balanced n (T3 a l x m y r) \<Longrightarrow> (l = E \<longleftrightarrow> r = E) \<and> (l = E \<longleftrightarrow> m = E)"
  by (auto split: nat.splits)

lemma balanced_sub: "balanced k (plug fs u) \<Longrightarrow> \<exists>n. balanced n u"
proof (induction fs arbitrary: u)
  case (Cons f fs)
  then obtain n where "balanced n (plug1 f u)" by auto
  then show ?case by (cases f) (auto split: nat.splits)
qed auto

lemma repr_sub:
  assumes "repr s (plug fs u)" and "height (plug fs u) \<le> fuel"
  shows "rep (nodes s) (above fs) u" "rep_path (nodes s) fs (root u)" "\<exists>n. balanced n u" "ordered (lkeys fs @ keys u @ rkeys fs)"
    "length fs + height u \<le> fuel"
  using assms balanced_sub [of _ fs u] height_plug [of u fs] by (auto simp: repr_def rep_plug keys_plug)

lemmas next_defs = getNextInorderKey_def has_size_def key_is_def isLeaf_def

lemma next_two:
  assumes r: "repr s t" and t: "t = plug fs (T2 a l k r)" and f: "height t \<le> fuel"
  shows "next_ok t k (keys r @ rkeys fs) (getNextInorderKey fuel (Some a) k s)"
proof -
  note sub = repr_sub [OF r [unfolded t] f [unfolded t]]
  from sub(1) obtain n where n: "nodes s a = Some n" "is2 (above fs) (root l) k (root r) n" by auto
  note e = node_sizes(1) [OF n(2)] n(2) [unfolded is2_def]
  from sub(3) obtain h where "balanced h (T2 a l k r)" by blast
  note lr = balanced_children(1) [OF this]
  show ?thesis
  proof (cases "l = E")
    case True
    with n e have "getNextInorderKey fuel (Some a) k s = inorder_up fuel (Some a) k s" by (simp add: next_defs)
    moreover have "next_ok t k (rkeys fs) (inorder_up fuel (Some a) k s)"
      unfolding t by (rule inorder_up_ok [OF _ n(1)]) (use sub e in \<open>auto simp: sorted_wrt_append\<close>)
    ultimately show ?thesis using True lr by simp
  next
    case False
    with n e have "getNextInorderKey fuel (Some a) k s = min_below fuel rightChild (Some a) s" by (simp add: next_defs)
    moreover have "next_ok t k (keys r @ rkeys (R2 a l k # fs)) (min_below fuel rightChild (Some a) s)"
      by (rule min_below_ok [OF n(1)]) (use False lr sub(1,5) e(2) t in auto)
    ultimately show ?thesis by simp
  qed
qed

lemma next_small:
  assumes r: "repr s t" and t: "t = plug fs (T3 a l k m y r)" and f: "height t \<le> fuel"
  shows "next_ok t k (keys m @ y # keys r @ rkeys fs) (getNextInorderKey fuel (Some a) k s)"
proof -
  note sub = repr_sub [OF r [unfolded t] f [unfolded t]]
  from sub(1) obtain n where n: "nodes s a = Some n" "is3 (above fs) (root l) k (root m) y (root r) n" by auto
  note e = node_sizes(2) [OF n(2)] n(2) [unfolded is3_def]
  from sub(3) obtain h where "balanced h (T3 a l k m y r)" by blast
  note lr = balanced_children(2) [OF this]
  show ?thesis
  proof (cases "l = E")
    case True
    with n e lr have "getNextInorderKey fuel (Some a) k s = Ok (Some a, y)" by (simp add: next_defs)
    moreover from True lr have "m = E" "r = E" by auto
    ultimately show ?thesis using posI3' [OF t refl] by (simp add: next_ok_def)
  next
    case False
    with n e have "getNextInorderKey fuel (Some a) k s = min_below fuel middleChild (Some a) s" by (simp add: next_defs)
    moreover have "next_ok t k (keys m @ rkeys (M3 a l k y r # fs)) (min_below fuel middleChild (Some a) s)"
      by (rule min_below_ok [OF n(1)]) (use False lr sub(1,5) e(2) t in auto)
    ultimately show ?thesis by simp
  qed
qed

lemma next_big:
  assumes r: "repr s t" and t: "t = plug fs (T3 a l x m k r)" and f: "height t \<le> fuel"
  shows "next_ok t k (keys r @ rkeys fs) (getNextInorderKey fuel (Some a) k s)"
proof -
  note sub = repr_sub [OF r [unfolded t] f [unfolded t]]
  from sub(1) obtain n where n: "nodes s a = Some n" "is3 (above fs) (root l) x (root m) k (root r) n" by auto
  note e = node_sizes(2) [OF n(2)] n(2) [unfolded is3_def]
  from sub(3) obtain h where "balanced h (T3 a l x m k r)" by blast
  note lr = balanced_children(2) [OF this]
  have xk: "k \<noteq> x" using sub(4) by (auto simp: sorted_wrt_append)
  show ?thesis
  proof (cases "l = E")
    case True
    with n e lr xk have "getNextInorderKey fuel (Some a) k s = inorder_up fuel (Some a) k s" by (simp add: next_defs)
    moreover have "next_ok t k (rkeys fs) (inorder_up fuel (Some a) k s)"
      unfolding t by (rule inorder_up_ok [OF _ n(1)]) (use sub e in \<open>auto simp: sorted_wrt_append\<close>)
    ultimately show ?thesis using True lr by simp
  next
    case False
    with n e xk have "getNextInorderKey fuel (Some a) k s = min_below fuel rightChild (Some a) s" by (simp add: next_defs)
    moreover have "next_ok t k (keys r @ rkeys (R3 a l x m k # fs)) (min_below fuel rightChild (Some a) s)"
      by (rule min_below_ok [OF n(1)]) (use False lr sub(1,5) e(2) t in auto)
    ultimately show ?thesis by simp
  qed
qed

lemma getNextInorderKey_ok:
  assumes "repr s t" and "pos t a k ks" and "height t \<le> fuel"
  shows "next_ok t k ks (getNextInorderKey fuel (Some a) k s)"
  using assms(2)
proof (cases rule: pos_cases)
  case (two fs l r)
  with next_two [OF assms(1) two(1) assms(3)] show ?thesis by simp
next
  case (small fs l m y r)
  with next_small [OF assms(1) small(1) assms(3)] show ?thesis by simp
next
  case (big fs l x m r)
  with next_big [OF assms(1) big(1) assms(3)] show ?thesis by simp
qed

lemma print_loop_inorder:
  assumes "repr s t" and "height t \<le> fuel" and "pos t a k ks" and "length ks < rounds"
  shows "print_loop rounds fuel inorder (Some a) k s = Ok (k # ks)"
  using assms(3,4)
proof (induction ks arbitrary: a k rounds)
  case Nil
  from getNextInorderKey_ok [OF assms(1) Nil(1) assms(2)] Nil(2) show ?case
    by (cases rounds) (auto simp: next_ok_def print_loop.simps)
next
  case (Cons k' ks)
  from getNextInorderKey_ok [OF assms(1) Cons.prems(1) assms(2)] obtain b where
    b: "getNextInorderKey fuel (Some a) k s = Ok (Some b, k')" "pos t b k' ks" by (auto simp: next_ok_def)
  from Cons.prems(2) obtain r where r: "rounds = Suc r" "length ks < r" by (cases rounds) auto
  from Cons.IH [OF b(2) r(2)] b r show ?case by (simp add: print_loop.simps)
qed

lemma print_inorder:
  assumes "repr s t" and "height t \<le> fuel" and "length (keys t) \<le> rounds" and "t \<noteq> E"
  shows "print rounds fuel inorder s = Ok (FAILURE, length (keys t), keys t)"
proof -
  from assms(1) have rep: "rep (nodes s) None t" "m_pRoot s = root t" by (auto simp: repr_def)
  from getMinNode_pos [OF rep(1) assms(4,2), of t "[]"] obtain b k where
    *: "getMinNode fuel (root t) s = Ok (Some b)" "getSmallKey (Some b) s = Ok k" "pos t b k (tl (keys t))" "keys t = k # tl (keys t)" by auto
  have "length (tl (keys t)) < rounds" using assms(3) *(4) by (metis Suc_le_eq length_Cons)
  from print_loop_inorder [OF assms(1,2) *(3) this] *(1,2,4) rep(2) assms(4) show ?thesis by (simp add: print_def)
qed

section \<open>Removal frees the whole tree\<close>

definition wipe :: "addr set \<Rightarrow> 'k ctree \<Rightarrow> 'k ctree" where
  "wipe A s = s\<lparr>nodes := \<lambda>a. if a \<in> A then None else nodes s a\<rparr>"

lemma wipe_simps [simp]:
  "nodes (wipe A s) a = (if a \<in> A then None else nodes s a)" "m_pRoot (wipe A s) = m_pRoot s" "brk (wipe A s) = brk s"
  "wipe {} s = s" "wipe A (wipe B s) = wipe (A \<union> B) s"
  by (cases s; auto simp: wipe_def fun_eq_iff)+

lemma delete_wipe: "nodes s a \<noteq> None \<Longrightarrow> a \<notin> A \<Longrightarrow> delete_node (Some a) (wipe A s) = Ok (wipe (Set.insert a A) s)"
  by (auto simp: delete_node_def wipe_def fun_eq_iff)

lemma rep_wipe [simp]: "set (addrs t) \<inter> A = {} \<Longrightarrow> rep (nodes (wipe A s)) par t = rep (nodes s) par t"
  by (rule rep_cong) auto

fun min_addr :: "'k t23 \<Rightarrow> ptr" where
  "min_addr E = None"
| "min_addr (T2 a l x r) = (if l = E then Some a else min_addr l)"
| "min_addr (T3 a l x m y r) = (if l = E then Some a else min_addr l)"

lemma getMinNode_min_addr:
  assumes "rep (nodes s) par v" and "v \<noteq> E" and "height v \<le> fuel"
  shows "getMinNode fuel (root v) s = Ok (min_addr v)"
  using assms
proof (induction v arbitrary: par fuel)
  case (T2 a l x r)
  then obtain n f where "nodes s a = Some n" "is2 par (root l) x (root r) n" "fuel = Suc f" "height l \<le> f" by (cases fuel) auto
  with T2 show ?case by (cases "l = E") (auto simp: getMinNode.simps is_defs)
next
  case (T3 a l x m y r)
  then obtain n f where "nodes s a = Some n" "is3 par (root l) x (root m) y (root r) n" "fuel = Suc f" "height l \<le> f" by (cases fuel) auto
  with T3 show ?case by (cases "l = E") (auto simp: getMinNode.simps is_defs)
qed simp

text \<open>One round at the root of a child that has lost its own children.\<close>

lemma parent_of: "rep h par v \<Longrightarrow> root v = Some b \<Longrightarrow> \<exists>n. h b = Some n \<and> m_pParent n = par"
  by (cases v) (auto simp: is_defs)

lemma addrs_root: "root v = Some b \<Longrightarrow> addrs v = b # tl (addrs v)"
  by (cases v) auto

lemma removeAll_next:
  assumes v: "nodes s b = Some n" "m_pParent n = Some a" and a: "nodes s a = Some na" and A: "a \<notin> A" "b \<notin> A"
    and w: "rep (nodes s) (Some a) w" "w \<noteq> E" "set (addrs w) \<inter> Set.insert b A = {}" "height w \<le> fuel"
    and c: "m_pRight na = root w \<and> (m_pMiddle na = Some b \<or> m_pLeft na = Some b \<and> m_pMiddle na = None) \<or>
       m_pMiddle na = root w \<and> m_pLeft na = Some b"
  shows "removeAll_loop (Suc K) fuel (Some b) (wipe A s) = removeAll_loop K fuel (min_addr w) (wipe (Set.insert b A) s)"
proof -
  have del: "delete_node (Some b) (wipe A s) = Ok (wipe (Set.insert b A) s)" using v A by (intro delete_wipe) auto
  have min: "getMinNode fuel (root w) (wipe (Set.insert b A) s) = Ok (min_addr w)"
    using w by (intro getMinNode_min_addr [where par = "Some a"]) auto
  obtain q where q: "root w = Some q" "q \<noteq> b" using w(2,3) root_in_addrs [of w] by (cases "root w") auto
  note step = removeAll_loop.simps v a A del min [unfolded q(1)] q q(2) [symmetric]
  from c consider "m_pRight na = Some q" "m_pMiddle na = Some b" | "m_pRight na = Some q" "m_pLeft na = Some b" "m_pMiddle na = None"
    | "m_pMiddle na = Some q" "m_pLeft na = Some b" using q by auto
  then show ?thesis by cases (use q in \<open>simp_all add: step\<close>)
qed

lemma removeAll_up:
  assumes v: "nodes s b = Some n" "m_pParent n = Some a" and a: "nodes s a = Some na" and A: "a \<notin> A" "b \<notin> A"
    and c: "m_pRight na = Some b" "m_pMiddle na \<noteq> Some b" "m_pLeft na \<noteq> Some b"
  shows "removeAll_loop (Suc K) fuel (Some b) (wipe A s) = removeAll_loop K fuel (Some a) (wipe (Set.insert b A) s)"
proof -
  have del: "delete_node (Some b) (wipe A s) = Ok (wipe (Set.insert b A) s)" using v A by (intro delete_wipe) auto
  with v a A c show ?thesis by (simp add: removeAll_loop.simps)
qed


text \<open>From the least node of a subtree to its root: everything below the root is freed.\<close>

definition clears :: "nat \<Rightarrow> 'k ctree \<Rightarrow> 'k t23 \<Rightarrow> bool" where
  "clears fuel s v \<longleftrightarrow> (\<forall>A K. set (addrs v) \<inter> A = {} \<longrightarrow>
     removeAll_loop (length (tl (addrs v)) + K) fuel (min_addr v) (wipe A s) =
     removeAll_loop K fuel (root v) (wipe (set (tl (addrs v)) \<union> A) s))"

lemma clears_next:
  assumes h: "clears fuel s v" and v: "rep (nodes s) (Some a) v" "v \<noteq> E" "distinct (addrs v)" "set (addrs v) \<inter> A = {}"
    and a: "nodes s a = Some na" "a \<notin> set (addrs v) \<union> A"
    and w: "rep (nodes s) (Some a) w" "w \<noteq> E" "set (addrs w) \<inter> (set (addrs v) \<union> A) = {}" "height w \<le> fuel"
    and c: "m_pRight na = root w \<and> (m_pMiddle na = root v \<or> m_pLeft na = root v \<and> m_pMiddle na = None) \<or>
       m_pMiddle na = root w \<and> m_pLeft na = root v"
  shows "removeAll_loop (length (addrs v) + K) fuel (min_addr v) (wipe A s) = removeAll_loop K fuel (min_addr w) (wipe (set (addrs v) \<union> A) s)"
proof -
  from v(2) obtain b where b: "root v = Some b" by (cases v) auto
  with addrs_root obtain bs where bs: "addrs v = b # bs" by blast
  from parent_of [OF v(1) b] obtain n where n: "nodes s b = Some n" "m_pParent n = Some a" by blast
  have "removeAll_loop (length (addrs v) + K) fuel (min_addr v) (wipe A s) = removeAll_loop (Suc K) fuel (Some b) (wipe (set bs \<union> A) s)"
    using h [unfolded clears_def, rule_format, OF v(4), of "Suc K"] b bs by simp
  also have "\<dots> = removeAll_loop K fuel (min_addr w) (wipe (Set.insert b (set bs \<union> A)) s)"
    by (rule removeAll_next [OF n a(1) _ _ w(1,2)]) (use v(3,4) a(2) w(3,4) c b bs in auto)
  finally show ?thesis using bs by simp
qed

lemma clears_up:
  assumes h: "clears fuel s v" and v: "rep (nodes s) (Some a) v" "v \<noteq> E" "distinct (addrs v)" "set (addrs v) \<inter> A = {}"
    and a: "nodes s a = Some na" "a \<notin> set (addrs v) \<union> A" and c: "m_pRight na = root v" "m_pMiddle na \<noteq> root v" "m_pLeft na \<noteq> root v"
  shows "removeAll_loop (length (addrs v) + K) fuel (min_addr v) (wipe A s) = removeAll_loop K fuel (Some a) (wipe (set (addrs v) \<union> A) s)"
proof -
  from v(2) obtain b where b: "root v = Some b" by (cases v) auto
  with addrs_root obtain bs where bs: "addrs v = b # bs" by blast
  from parent_of [OF v(1) b] obtain n where n: "nodes s b = Some n" "m_pParent n = Some a" by blast
  have "removeAll_loop (length (addrs v) + K) fuel (min_addr v) (wipe A s) = removeAll_loop (Suc K) fuel (Some b) (wipe (set bs \<union> A) s)"
    using h [unfolded clears_def, rule_format, OF v(4), of "Suc K"] b bs by simp
  also have "\<dots> = removeAll_loop K fuel (Some a) (wipe (Set.insert b (set bs \<union> A)) s)"
    by (rule removeAll_up [OF n a(1)]) (use v(3,4) a(2) c b bs in auto)
  finally show ?thesis using bs by simp
qed

lemma root_disjoint: "set (addrs t) \<inter> set (addrs u) = {} \<Longrightarrow> t \<noteq> E \<Longrightarrow> root t \<noteq> root u"
  using root_in_addrs [of t] root_in_addrs [of u] by (cases "root t") auto

lemma clears_tree:
  assumes "rep (nodes s) par v" and "v \<noteq> E" and "balanced n v" and "distinct (addrs v)" and "height v \<le> fuel"
  shows "clears fuel s v"
  using assms
proof (induction v arbitrary: par n)
  case (T2 a l x r)
  then obtain na where na: "nodes s a = Some na" "is2 par (root l) x (root r) na" and rep: "rep (nodes s) (Some a) l" "rep (nodes s) (Some a) r"
    by auto
  from T2.prems obtain m where m: "balanced m l" "balanced m r" by (auto split: nat.splits)
  show ?case
  proof (cases "l = E")
    case True
    with m show ?thesis by (auto simp: clears_def)
  next
    case False
    with m have re: "r \<noteq> E" by auto
    have ih: "clears fuel s l" "clears fuel s r" using T2.IH rep m T2.prems False re by auto
    have d: "a \<notin> set (addrs l)" "a \<notin> set (addrs r)" "distinct (addrs l)" "distinct (addrs r)" "set (addrs l) \<inter> set (addrs r) = {}"
      "set (addrs r) \<inter> set (addrs l) = {}" using T2.prems(4) by auto
    show ?thesis unfolding clears_def
    proof (intro allI impI)
      fix A K assume A: "set (addrs (T2 a l x r)) \<inter> A = {}"
      then have dA: "a \<notin> A" "set (addrs l) \<inter> A = {}" "set (addrs r) \<inter> A = {}" by auto
      have "removeAll_loop (length (addrs l) + (length (addrs r) + K)) fuel (min_addr l) (wipe A s) =
          removeAll_loop (length (addrs r) + K) fuel (min_addr r) (wipe (set (addrs l) \<union> A) s)"
        by (rule clears_next [OF ih(1) rep(1) False d(3) dA(2) na(1) _ rep(2) re]) (use d dA na(2) T2.prems(5) in \<open>auto simp: is_defs\<close>)
      also have "\<dots> = removeAll_loop K fuel (Some a) (wipe (set (addrs r) \<union> (set (addrs l) \<union> A)) s)"
        by (rule clears_up [OF ih(2) rep(2) re d(4) _ na(1)])
          (use d dA na(2) False re root_disjoint [OF d(5) False] in \<open>auto simp: is_defs\<close>)
      finally show "removeAll_loop (length (tl (addrs (T2 a l x r))) + K) fuel (min_addr (T2 a l x r)) (wipe A s) =
          removeAll_loop K fuel (root (T2 a l x r)) (wipe (set (tl (addrs (T2 a l x r))) \<union> A) s)"
        using False by (simp add: ac_simps)
    qed
  qed
next
  case (T3 a l x m y r)
  then obtain na where na: "nodes s a = Some na" "is3 par (root l) x (root m) y (root r) na"
    and rep: "rep (nodes s) (Some a) l" "rep (nodes s) (Some a) m" "rep (nodes s) (Some a) r" by auto
  from T3.prems obtain k where k: "balanced k l" "balanced k m" "balanced k r" by (auto split: nat.splits)
  show ?case
  proof (cases "l = E")
    case True
    with k show ?thesis by (auto simp: clears_def)
  next
    case False
    with k have re: "m \<noteq> E" "r \<noteq> E" by auto
    have ih: "clears fuel s l" "clears fuel s m" "clears fuel s r" using T3.IH rep k T3.prems False re by auto
    have d: "a \<notin> set (addrs l)" "a \<notin> set (addrs m)" "a \<notin> set (addrs r)" "distinct (addrs l)" "distinct (addrs m)" "distinct (addrs r)"
      "set (addrs m) \<inter> set (addrs l) = {}" "set (addrs r) \<inter> set (addrs l) = {}" "set (addrs r) \<inter> set (addrs m) = {}" using T3.prems(4) by auto
    show ?thesis unfolding clears_def
    proof (intro allI impI)
      fix A K assume A: "set (addrs (T3 a l x m y r)) \<inter> A = {}"
      then have dA: "a \<notin> A" "set (addrs l) \<inter> A = {}" "set (addrs m) \<inter> A = {}" "set (addrs r) \<inter> A = {}" by auto
      let ?A1 = "set (addrs l) \<union> A"
      let ?A2 = "set (addrs m) \<union> ?A1"
      have "removeAll_loop (length (addrs l) + (length (addrs m) + (length (addrs r) + K))) fuel (min_addr l) (wipe A s) =
          removeAll_loop (length (addrs m) + (length (addrs r) + K)) fuel (min_addr m) (wipe ?A1 s)"
        by (rule clears_next [OF ih(1) rep(1) False d(4) dA(2) na(1) _ rep(2) re(1)]) (use d dA na(2) T3.prems(5) in \<open>auto simp: is_defs\<close>)
      also have "\<dots> = removeAll_loop (length (addrs r) + K) fuel (min_addr r) (wipe ?A2 s)"
        by (rule clears_next [OF ih(2) rep(2) re(1) d(5) _ na(1) _ rep(3) re(2)]) (use d dA na(2) T3.prems(5) in \<open>auto simp: is_defs\<close>)
      also have "\<dots> = removeAll_loop K fuel (Some a) (wipe (set (addrs r) \<union> ?A2) s)"
        by (rule clears_up [OF ih(3) rep(3) re(2) d(6) _ na(1)])
          (use d dA na(2) root_disjoint [OF d(8) re(2)] root_disjoint [OF d(9) re(2)] in \<open>auto simp: is_defs\<close>)
      finally show "removeAll_loop (length (tl (addrs (T3 a l x m y r))) + K) fuel (min_addr (T3 a l x m y r)) (wipe A s) =
          removeAll_loop K fuel (root (T3 a l x m y r)) (wipe (set (tl (addrs (T3 a l x m y r))) \<union> A) s)"
        using False by (simp add: ac_simps)
    qed
  qed
qed simp

lemma removeAll_ok:
  assumes r: "repr s t" and t: "t \<noteq> E" and f: "height t \<le> fuel" "length (addrs t) \<le> rounds"
  shows "removeAll_ctree rounds fuel s = Ok (SUCCESS, (wipe (set (addrs t)) s)\<lparr>m_pRoot := None\<rparr>)"
proof -
  from r obtain n where n: "rep (nodes s) None t" "balanced n t" "distinct (addrs t)" "m_pRoot s = root t" by (auto simp: repr_def)
  from t obtain a where a: "root t = Some a" by (cases t) auto
  with addrs_root obtain as where as: "addrs t = a # as" by blast
  from parent_of [OF n(1) a] obtain na where na: "nodes s a = Some na" "m_pParent na = None" by blast
  have "a \<notin> set as" using n(3) as by simp
  from f(2) as obtain K where K: "rounds = length (tl (addrs t)) + Suc K" by (auto simp: le_iff_add)
  have "removeAll_loop rounds fuel (min_addr t) (wipe {} s) = removeAll_loop (Suc K) fuel (Some a) (wipe (set as \<union> {}) s)"
    using clears_tree [OF n(1) t n(2,3) f(1), unfolded clears_def, rule_format, of "{}" "Suc K"] a as K by simp
  also have "\<dots> = Ok (wipe (set as) s)" using na \<open>a \<notin> set as\<close> by (simp add: removeAll_loop.simps)
  finally have "removeAll_loop rounds fuel (min_addr t) s = Ok (wipe (set as) s)" by simp
  moreover have "delete_node (Some a) (wipe (set as) s) = Ok (wipe (Set.insert a (set as)) s)"
    using na \<open>a \<notin> set as\<close> by (intro delete_wipe) auto
  ultimately show ?thesis using getMinNode_min_addr [OF n(1) t f(1)] n(4) a as by (simp add: removeAll_ctree_def)
qed

end
