(* ===== verification/CTree_Set.thy ===== *)
theory CTree_Set
  imports CTree_Walk
begin

text \<open>
  The 2-3 tree of \<open>CTree.h\<close> as a set: the store of a tree object determines the abstract tree, its insertion and
  lookup keep the contract of a set (locale \<open>set_object\<close>), and the properties of the tree object follow.
\<close>

section \<open>The tree a store represents\<close>

lemma rep_unique: "rep h par t \<Longrightarrow> rep h par' u \<Longrightarrow> root t = root u \<Longrightarrow> t = u"
proof (induction t arbitrary: par par' u)
  case E
  then show ?case by simp
next
  case (T2 a l x r)
  from T2.prems obtain l' x' r' where u: "u = T2 a l' x' r'" by (cases u) (auto simp: is_defs)
  with T2.prems have "rep h (Some a) l" "rep h (Some a) l'" "root l = root l'" "rep h (Some a) r" "rep h (Some a) r'" "root r = root r'" "x = x'"
    by (auto simp: is_defs)
  with T2.IH u show ?case by blast
next
  case (T3 a l x m y r)
  from T3.prems obtain l' x' m' y' r' where u: "u = T3 a l' x' m' y' r'" by (cases u) (auto simp: is_defs)
  with T3.prems have "rep h (Some a) l" "rep h (Some a) l'" "root l = root l'" "rep h (Some a) m" "rep h (Some a) m'" "root m = root m'"
    "rep h (Some a) r" "rep h (Some a) r'" "root r = root r'" "x = x'" "y = y'" by (auto simp: is_defs)
  with T3.IH u show ?case by blast
qed

lemma repr_unique: "repr s t \<Longrightarrow> repr s u \<Longrightarrow> t = u"
  using rep_unique [of "nodes s" None t None u] by (simp add: repr_def)

definition is_tree :: "'k :: linorder ctree \<Rightarrow> bool" where
  "is_tree s \<longleftrightarrow> (\<exists>t. repr s t)"

definition elems :: "'k :: linorder ctree \<Rightarrow> 'k set" where
  "elems s = {k. \<exists>t. repr s t \<and> k \<in> set (keys t)}"

lemma elems_repr:
  assumes "repr s t"
  shows "elems s = set (keys t)"
  using assms repr_unique [OF assms] unfolding elems_def by blast

text \<open>The nodes of a tree bound its height, and so the fuel that is enough.\<close>

lemma height_addrs: "height t \<le> length (addrs t)"
  by (induction t) auto

lemma addrs_brk:
  assumes "repr s t"
  shows "length (addrs t) \<le> brk s"
proof -
  have "set (addrs t) \<subseteq> {..<brk s}" using assms by (auto simp: repr_def)
  then have "card (set (addrs t)) \<le> brk s" using card_mono [of "{..<brk s}" "set (addrs t)"] by simp
  with assms show ?thesis by (simp add: repr_def distinct_card)
qed

lemma height_brk: "repr s t \<Longrightarrow> height t \<le> brk s"
  using height_addrs [of t] addrs_brk [of s t] by simp

lemma keys_addrs: "length (keys t) \<le> 2 * length (addrs t)"
  by (induction t) auto

section \<open>The interface of a set\<close>

text \<open>
  What a client of the tree relies on: a new object is empty, an insertion adds a new key and rejects a key
  that is there, and a lookup returns a key exactly when it is there.
\<close>

locale set_object =
  fixes new_set :: "'s" and inv :: "'s \<Rightarrow> bool" and contents :: "'s \<Rightarrow> 'k set"
    and ins :: "'k \<Rightarrow> 's \<Rightarrow> ('c \<times> 's) res" and mem :: "'k \<Rightarrow> 's \<Rightarrow> 'k option res" and ok dup :: "'c"
  assumes new_inv: "inv new_set" and new_contents: "contents new_set = {}"
    and ins_new: "inv s \<Longrightarrow> k \<notin> contents s \<Longrightarrow> \<exists>s'. ins k s = Ok (ok, s') \<and> inv s' \<and> contents s' = Set.insert k (contents s)"
    and ins_dup: "inv s \<Longrightarrow> k \<in> contents s \<Longrightarrow> ins k s = Ok (dup, s)"
    and mem_iff: "inv s \<Longrightarrow> mem k s = Ok (if k \<in> contents s then Some k else None)"

fun insert_all :: "('k \<Rightarrow> 's \<Rightarrow> ('c \<times> 's) res) \<Rightarrow> 'k list \<Rightarrow> 's \<Rightarrow> ('c list \<times> 's) res" where
  "insert_all f [] s = Ok ([], s)"
| "insert_all f (k # ks) s = obind (f k s) (\<lambda>(rc, s). obind (insert_all f ks s) (\<lambda>(rcs, s). Ok (rc # rcs, s)))"

text \<open>The codes of a sequence of insertions: a key is rejected when it came before.\<close>

fun codes :: "'c \<Rightarrow> 'c \<Rightarrow> 'k set \<Rightarrow> 'k list \<Rightarrow> 'c list" where
  "codes ok dup A [] = []"
| "codes ok dup A (k # ks) = (if k \<in> A then dup else ok) # codes ok dup (Set.insert k A) ks"

context set_object
begin

lemma insert_all_ok:
  "inv s \<Longrightarrow> \<exists>s'. insert_all ins ks s = Ok (codes ok dup (contents s) ks, s') \<and> inv s' \<and> contents s' = contents s \<union> set ks"
proof (induction ks arbitrary: s)
  case (Cons k ks)
  show ?case
  proof (cases "k \<in> contents s")
    case True
    then have "Set.insert k (contents s) = contents s" by auto
    with True Cons ins_dup [of s k] show ?thesis by fastforce
  next
    case False
    with ins_new [OF Cons.prems False] obtain s1 where s1: "ins k s = Ok (ok, s1)" "inv s1" "contents s1 = Set.insert k (contents s)" by blast
    from Cons.IH [OF s1(2)] s1(1,3) False show ?thesis by auto
  qed
qed simp

lemma insert_all_mem:
  "\<exists>s'. insert_all ins ks new_set = Ok (codes ok dup {} ks, s') \<and> (\<forall>k. mem k s' = Ok (if k \<in> set ks then Some k else None))"
  using insert_all_ok [OF new_inv, of ks] mem_iff by (auto simp: new_contents)

end

text \<open>The tree provides it, with as much fuel as it has nodes.\<close>

definition tree_insert :: "'k :: linorder \<Rightarrow> 'k ctree \<Rightarrow> (code \<times> 'k ctree) res" where
  "tree_insert k s = insert (brk s) k s"

definition tree_find :: "'k :: linorder \<Rightarrow> 'k ctree \<Rightarrow> 'k option res" where
  "tree_find k s = find (brk s) k s"

lemma repr_new: "repr new_CTree E"
  by (simp add: repr_def new_CTree_def)

lemma tree_insert_new:
  assumes r: "repr s t" and k: "k \<notin> set (keys t)"
  shows "\<exists>s' t'. tree_insert k s = Ok (SUCCESS, s') \<and> repr s' t' \<and> set (keys t') = Set.insert k (set (keys t))"
  using insert_new [OF r height_brk [OF r] k] by (auto simp: tree_insert_def insert_post_def)

interpretation tree: set_object new_CTree is_tree elems tree_insert tree_find SUCCESS DUPLICATE_VALUE
proof unfold_locales
  show "is_tree (new_CTree :: 'k :: linorder ctree)" "elems (new_CTree :: 'k :: linorder ctree) = {}"
    using elems_repr [OF repr_new, where 'a = 'k] repr_new [where 'a = 'k] by (auto simp: is_tree_def)
  fix s :: "'k :: linorder ctree" and k :: 'k assume "is_tree s"
  then obtain t where t: "repr s t" by (auto simp: is_tree_def)
  note e = elems_repr [OF t]
  show "\<exists>s'. tree_insert k s = Ok (SUCCESS, s') \<and> is_tree s' \<and> elems s' = Set.insert k (elems s)" if "k \<notin> elems s"
    using that e tree_insert_new [OF t, of k] elems_repr by (fastforce simp: is_tree_def)
  show "tree_insert k s = Ok (DUPLICATE_VALUE, s)" if "k \<in> elems s"
    using that e insert_old [OF t height_brk [OF t], of k] by (simp add: tree_insert_def)
  show "tree_find k s = Ok (if k \<in> elems s then Some k else None)"
    using e find_old [OF t height_brk [OF t], of k] find_new [OF t height_brk [OF t], of k] by (simp add: tree_find_def)
qed

section \<open>Properties of the tree object\<close>

text \<open>A balanced tree is not higher than the logarithm of its size.\<close>

lemma balanced_size: "balanced n t \<Longrightarrow> 2 ^ n \<le> Suc (length (keys t))"
proof (induction t arbitrary: n)
  case (T2 a l x r)
  then obtain k where "n = Suc k" "2 ^ k \<le> Suc (length (keys l))" "2 ^ k \<le> Suc (length (keys r))" by (auto split: nat.splits)
  then show ?case by simp
next
  case (T3 a l x m y r)
  then obtain k where "n = Suc k" "2 ^ k \<le> Suc (length (keys l))" "2 ^ k \<le> Suc (length (keys r))" by (auto split: nat.splits)
  then show ?case by simp
qed simp

lemma sorted_keys: "repr s t \<Longrightarrow> keys t = sorted_list_of_set (set (keys t))"
  by (simp add: repr_def sorted_list_of_set_sort_remdups strict_sorted_iff distinct_remdups_id sorted_sort_id)

lemma print_loop_short:
  assumes "repr s t" and "height t \<le> fuel" and "pos t a k ks" and "rounds \<le> length ks"
  shows "print_loop rounds fuel inorder (Some a) k s = Timeout"
  using assms(3,4)
proof (induction ks arbitrary: a k rounds)
  case Nil
  then show ?case by (simp add: print_loop.simps)
next
  case (Cons k' ks)
  from getNextInorderKey_ok [OF assms(1) Cons.prems(1) assms(2)] obtain b where
    b: "getNextInorderKey fuel (Some a) k s = Ok (Some b, k')" "pos t b k' ks" by (auto simp: next_ok_def)
  with Cons show ?case by (cases rounds) (auto simp: print_loop.simps)
qed

lemma print_short:
  assumes "repr s t" and "t \<noteq> E" and "height t \<le> fuel" and "rounds < length (keys t)"
  shows "print rounds fuel inorder s = Timeout"
proof -
  from assms(1) have rep: "rep (nodes s) None t" "m_pRoot s = root t" by (auto simp: repr_def)
  from getMinNode_pos [OF rep(1) assms(2,3), of t "[]"] obtain b k where
    *: "getMinNode fuel (root t) s = Ok (Some b)" "getSmallKey (Some b) s = Ok k" "pos t b k (tl (keys t))" "keys t = k # tl (keys t)" by auto
  have "rounds \<le> length (tl (keys t))" using assms(4) *(4) by (metis length_Cons less_Suc_eq_le)
  from print_loop_short [OF assms(1,3) *(3) this] *(1,2) rep(2) assms(2) show ?thesis by (simp add: print_def)
qed

text \<open>A store with a single node, which is full.\<close>

definition full_leaf :: "int ctree" where
  "full_leaf = \<lparr>m_pRoot = Some 0, nodes = [0 \<mapsto> \<lparr>m_tSmallKey = Some 10, m_tBigKey = Some 20, m_pParent = None, m_bBigKeyIsSet = True,
     m_bSmallKeyIsSet = True, m_pLeft = None, m_pMiddle = None, m_pRight = None\<rparr>], brk = 1\<rparr>"

lemma repr_full_leaf: "repr full_leaf (T3 0 E 10 E 20 E)"
  by (auto simp: repr_def full_leaf_def is3_def intro!: exI [of _ 1])

text \<open>C1: insertion refines the insertion into a set. Whenever the store represents an ordered, balanced 2-3 tree, \<open>insert\<close>
  returns (it needs no more fuel than there are nodes): a key that is there is rejected and nothing changes, and
  after any other call the store represents an ordered, balanced 2-3 tree with exactly that key added.\<close>

theorem ctree_insert_refines:
  assumes "repr s t"
  shows "if k \<in> set (keys t) then insert (brk s) k s = Ok (DUPLICATE_VALUE, s)
    else \<exists>s' t'. insert (brk s) k s = Ok (SUCCESS, s') \<and> repr s' t' \<and> set (keys t') = Set.insert k (set (keys t))"
  using insert_old [OF assms height_brk [OF assms], of k] tree_insert_new [OF assms, of k] by (simp add: tree_insert_def)

theorem ctree_insert_refines_witness:
  "(\<exists>s' t'. insert (brk full_leaf) 15 full_leaf = Ok (SUCCESS, s') \<and> repr s' t' \<and> set (keys t') = {10, 15, 20}) \<and>
   insert (brk full_leaf) 20 full_leaf = Ok (DUPLICATE_VALUE, full_leaf)"
  using ctree_insert_refines [OF repr_full_leaf, of 15] ctree_insert_refines [OF repr_full_leaf, of 20] by (simp add: insert_commute)

text \<open>C9: a tree object used as a set. Keys inserted one after the other into a new tree: every call returns, and says
  which keys came before; \<open>find\<close> then returns a key exactly when it was inserted; and an inorder \<open>print\<close> writes the
  different keys in ascending order, and counts them.\<close>

theorem ctree_insert_find_print:
  "\<exists>s. insert_all (\<lambda>k s. insert (brk s) k s) ks new_CTree = Ok (codes SUCCESS DUPLICATE_VALUE {} ks, s) \<and>
     (\<forall>k. find (brk s) k s = Ok (if k \<in> set ks then Some k else None)) \<and>
     print (2 * brk s) (brk s) inorder s =
       Ok (if ks = [] then IS_EMPTY else FAILURE, card (set ks), sorted_list_of_set (set ks))"
proof -
  from tree.insert_all_ok [OF tree.new_inv, of ks] obtain s :: "'a ctree" where
    s: "insert_all tree_insert ks new_CTree = Ok (codes SUCCESS DUPLICATE_VALUE {} ks, s)" "is_tree s" "elems s = set ks"
    by (auto simp: tree.new_contents)
  from s(2) obtain t where t: "repr s t" by (auto simp: is_tree_def)
  have k: "keys t = sorted_list_of_set (set ks)" using sorted_keys [OF t] elems_repr [OF t] s(3) by simp
  have "print (2 * brk s) (brk s) inorder s = Ok (if ks = [] then IS_EMPTY else FAILURE, card (set ks), sorted_list_of_set (set ks))"
  proof (cases "t = E")
    case True
    with t k s(3) elems_repr [OF t] show ?thesis by (simp add: print_def repr_def)
  next
    case False
    then have "ks \<noteq> []" using k t elems_repr [OF t] s(3) by (cases t) auto
    with print_inorder [OF t height_brk [OF t] _ False, of "2 * brk s"] keys_addrs [of t] addrs_brk [OF t] k show ?thesis by simp
  qed
  moreover have "find (brk s) k s = Ok (if k \<in> set ks then Some k else None)" for k
    using tree.mem_iff [OF s(2), of k] s(3) by (simp add: tree_find_def)
  ultimately show ?thesis using s(1) unfolding tree_insert_def [abs_def] by blast
qed

text \<open>\<open>find\<close> is membership in the list of keys, whatever the shape of the tree.\<close>

theorem ctree_find_is_membership:
  assumes "repr s t"
  shows "find (brk s) k s = Ok (List.find (\<lambda>x. x = k) (keys t))"
proof -
  have "List.find (\<lambda>x. x = k) xs = (if k \<in> set xs then Some k else None)" for xs by (induction xs) auto
  with find_old [OF assms height_brk [OF assms], of k] find_new [OF assms height_brk [OF assms], of k] show ?thesis by simp
qed

theorem ctree_find_is_membership_witness:
  "find (brk full_leaf) 20 full_leaf = Ok (List.find (\<lambda>x. x = 20) [10, 20]) \<and> find (brk full_leaf) 11 full_leaf = Ok (List.find (\<lambda>x. x = 11) [10, 20])"
  using ctree_find_is_membership [OF repr_full_leaf, of 20] ctree_find_is_membership [OF repr_full_leaf, of 11] by simp

text \<open>C13: the inorder loop of \<open>print\<close> ends, after exactly one round per key: with fewer rounds it has not returned, with as many it
  has written every key once, in order.\<close>

theorem ctree_inorder_terminates:
  assumes "repr s t" and "t \<noteq> E" and "height t \<le> fuel"
  shows "print rounds fuel inorder s = (if rounds < length (keys t) then Timeout else Ok (FAILURE, length (keys t), keys t))"
  using print_short [OF assms, of rounds] print_inorder [OF assms(1,3) _ assms(2), of rounds] by simp

theorem ctree_inorder_terminates_witness:
  "print 1 1 inorder full_leaf = Timeout \<and> print 2 1 inorder full_leaf = Ok (FAILURE, 2, [10, 20])"
  using ctree_inorder_terminates [OF repr_full_leaf, of 1 1] ctree_inorder_terminates [OF repr_full_leaf, of 1 2] by simp

text \<open>C12: \<open>removeAll\<close> frees every node of the tree exactly once (deleting a node that is not there is a fault), no other node, and leaves
  an empty tree.\<close>

theorem ctree_removeAll_frees:
  assumes "repr s t" and "t \<noteq> E"
  shows "\<exists>s'. removeAll_ctree (brk s) (brk s) s = Ok (SUCCESS, s') \<and> m_pRoot s' = None \<and> repr s' E \<and>
    (\<forall>a. nodes s' a = (if a \<in> set (addrs t) then None else nodes s a))"
  using removeAll_ok [OF assms height_brk [OF assms(1)] addrs_brk [OF assms(1)]] by (simp add: repr_def)

theorem ctree_removeAll_frees_witness:
  "\<exists>s'. removeAll_ctree (brk full_leaf) (brk full_leaf) full_leaf = Ok (SUCCESS, s') \<and> m_pRoot s' = None \<and> (\<forall>a. nodes s' a = None)"
  using ctree_removeAll_frees [OF repr_full_leaf] by (auto simp: full_leaf_def)

text \<open>The tree stays low: after any sequence of insertions into a new tree, a tree of height \<open>n\<close> has at least \<open>2 ^ n - 1\<close> keys.\<close>

theorem ctree_height_logarithmic:
  "\<exists>s t. insert_all (\<lambda>k s. insert (brk s) k s) ks new_CTree = Ok (codes SUCCESS DUPLICATE_VALUE {} ks, s) \<and> repr s t \<and>
     2 ^ height t \<le> Suc (card (set ks))"
proof -
  from tree.insert_all_ok [OF tree.new_inv, of ks] obtain s :: "'a ctree" where
    s: "insert_all tree_insert ks new_CTree = Ok (codes SUCCESS DUPLICATE_VALUE {} ks, s)" "is_tree s" "elems s = set ks"
    by (auto simp: tree.new_contents)
  from s(2) obtain t where t: "repr s t" by (auto simp: is_tree_def)
  then obtain n where n: "balanced n t" by (auto simp: repr_def)
  have "length (keys t) = card (set ks)" using sorted_keys [OF t] elems_repr [OF t] s(3) by (metis length_sorted_list_of_set)
  with balanced_size [OF n] height_balanced [OF n] t s(1) show ?thesis unfolding tree_insert_def [abs_def] by auto
qed

end
