(* ===== verification/CTree_Delete.thy ===== *)
theory CTree_Delete
  imports CTree_Walk
begin

text \<open>
  Deletion from the 2-3 tree of \<open>CTree.h\<close>, statement by statement: the rotations and mergers with their
  numbered cases, and the loop of \<open>deleteItem\<close>. A deletion that a rotation around the root ends after a
  merger below can leave a tree with a missing child; the last section runs one.
\<close>

section \<open>Chains of cases\<close>

text \<open>\<open>if (guards) { statements; iReturnCode = SUCCESS; } else if ...\<close>: whether a case applied.\<close>

fun cases_of :: "((('s \<Rightarrow> bool res) list) \<times> (('s \<Rightarrow> 's res) list)) list \<Rightarrow> 's \<Rightarrow> (bool \<times> 's) res" where
  "cases_of [] s = Ok (False, s)"
| "cases_of ((g, a) # cs) s =
     obind (all_of g s) (\<lambda>b. if b then obind (seqs a s) (\<lambda>s. Ok (True, s)) else cases_of cs s)"

definition success :: "bool \<Rightarrow> code" where
  "success b = (if b then SUCCESS else FAILURE)"

definition same :: "ptr \<Rightarrow> ptr \<Rightarrow> 's \<Rightarrow> bool res" where
  "same p q s = Ok (p = q)"

definition clearChild :: "eTraverseDirection \<Rightarrow> ptr \<Rightarrow> 'k ctree \<Rightarrow> 'k ctree res" where
  "clearChild d p = setChild d p (\<lambda>_. Ok None)"

section \<open>Removal from a leaf\<close>

definition removeFromLeaf :: "ptr \<Rightarrow> 'k :: linorder \<Rightarrow> 'k ctree \<Rightarrow> (code \<times> 'k ctree) res" where
  "removeFromLeaf p key s =
     (if p = None then Ok (IS_EMPTY, s)
      else obind (cases_of
        [([key_is key (getSmallKey p)], [setSmallKey p (getBigKey p), clearBigKey p]),
         ([key_is key (getBigKey p)], [clearBigKey p])] s) (\<lambda>(b, s). Ok (success b, s)))"

section \<open>Rotations\<close>

text \<open>\<open>pParentNode\<close>, \<open>pRightNode\<close>, \<open>pMiddleNode\<close> and \<open>pLeftNode\<close>: the cases 1 to 5, then 6 to 8.\<close>

definition localRotation_1 :: "ptr \<Rightarrow> ptr \<Rightarrow> ptr \<Rightarrow> ptr \<Rightarrow> ptr \<Rightarrow> 'k :: linorder ctree \<Rightarrow> (bool \<times> 'k ctree) res" where
  "localRotation_1 n p r m l = cases_of
     [([same n l, has_size twoNode p, has_size threeNode r],
       [setSmallKey l (getSmallKey p), setChild rightChild l (getChild leftChild r), setSmallKey p (getSmallKey r),
        setSmallKey r (getBigKey r), clearBigKey r, setChild leftChild r (getChild middleChild r), clearChild middleChild r]),
      ([same n l, has_size threeNode p, has_size threeNode m],
       [setSmallKey l (getSmallKey p), setChild rightChild l (getChild leftChild m), setSmallKey p (getSmallKey m),
        setSmallKey m (getBigKey m), clearBigKey m, setChild leftChild m (getChild middleChild m), clearChild middleChild m]),
      ([same n l, has_size threeNode p, has_size threeNode r],
       [setSmallKey l (getSmallKey p), setChild rightChild l (getChild leftChild m), setSmallKey p (getSmallKey m),
        setSmallKey m (getBigKey p), setChild leftChild m (getChild rightChild m), setChild rightChild m (getChild leftChild r),
        setBigKey p (getSmallKey r), setSmallKey r (getBigKey r), clearBigKey r,
        setChild leftChild r (getChild middleChild r), clearChild middleChild r]),
      ([same n m, has_size threeNode r],
       [setSmallKey m (getBigKey p), setChild rightChild m (getChild leftChild r), setBigKey p (getSmallKey r),
        setSmallKey r (getBigKey r), clearBigKey r, setChild leftChild r (getChild middleChild r), clearChild middleChild r]),
      ([same n m, has_size threeNode l],
       [setSmallKey m (getSmallKey p), setChild rightChild m (getChild leftChild m), setChild leftChild m (getChild rightChild l),
        setSmallKey p (getBigKey l), clearBigKey l, setChild rightChild l (getChild middleChild l), clearChild middleChild l])]"

definition localRotation_2 :: "ptr \<Rightarrow> ptr \<Rightarrow> ptr \<Rightarrow> ptr \<Rightarrow> ptr \<Rightarrow> 'k :: linorder ctree \<Rightarrow> (bool \<times> 'k ctree) res" where
  "localRotation_2 n p r m l = cases_of
     [([same n r, has_size twoNode p, has_size threeNode l],
       [setSmallKey r (getSmallKey p), setChild rightChild r (getChild leftChild r), setChild leftChild r (getChild rightChild l),
        setSmallKey p (getBigKey l), clearBigKey l, setChild rightChild l (getChild middleChild l), clearChild middleChild l]),
      ([same n r, has_size threeNode p, has_size threeNode m],
       [setSmallKey r (getBigKey p), setChild rightChild r (getChild leftChild r), setChild leftChild r (getChild rightChild m),
        setBigKey p (getBigKey m), clearBigKey m, setChild rightChild m (getChild middleChild m), clearChild middleChild m]),
      ([same n r, has_size threeNode p, has_size threeNode l],
       [setSmallKey r (getBigKey p), setChild rightChild r (getChild leftChild r), setChild leftChild r (getChild rightChild m),
        setBigKey p (getSmallKey m), setSmallKey m (getSmallKey p), setChild rightChild m (getChild leftChild m),
        setChild leftChild m (getChild rightChild l), setSmallKey p (getBigKey l), clearBigKey l,
        setChild rightChild l (getChild middleChild l), clearChild middleChild l])]"

definition localRotation :: "ptr \<Rightarrow> 'k :: linorder ctree \<Rightarrow> (code \<times> 'k ctree) res" where
  "localRotation n s =
     (if n = None then Ok (IS_EMPTY, s)
      else obind (getParent n s) (\<lambda>p. obind (getChild rightChild p s) (\<lambda>r.
        obind (getChild middleChild p s) (\<lambda>m. obind (getChild leftChild p s) (\<lambda>l.
          obind (localRotation_1 n p r m l s) (\<lambda>(b1, s).
            obind (localRotation_2 n p r m l s) (\<lambda>(b2, s). Ok (success (b1 \<or> b2), s))))))))"

text \<open>\<open>pRightMinNode\<close> (\<open>rmin\<close>), \<open>pLeftMaxNode\<close> (\<open>lmax\<close>), \<open>pMiddleMinNode\<close> (\<open>mmin\<close>), \<open>pMiddleMaxNode\<close> (\<open>mmax\<close>) and the root (\<open>t\<close>).\<close>

definition globalRotation :: "nat \<Rightarrow> ptr \<Rightarrow> 'k :: linorder ctree \<Rightarrow> (code \<times> 'k ctree) res" where
  "globalRotation fuel n s =
     (if n = None then Ok (IS_EMPTY, s)
      else let t = m_pRoot s in
        obind (obind (getChild rightChild t s) (\<lambda>c. getMinNode fuel c s)) (\<lambda>rmin.
        obind (obind (getChild leftChild t s) (\<lambda>c. getMaxNode fuel c s)) (\<lambda>lmax.
        obind (has_size threeNode t s) (\<lambda>three.
          obind
            (if three then
               obind (obind (getChild middleChild t s) (\<lambda>c. getMinNode fuel c s)) (\<lambda>mmin.
               obind (obind (getChild middleChild t s) (\<lambda>c. getMaxNode fuel c s)) (\<lambda>mmax.
                 cases_of
                   [([same n lmax, has_size threeNode mmin],
                     [setSmallKey lmax (getSmallKey t), setSmallKey t (getSmallKey mmin), setSmallKey mmin (getBigKey mmin), clearBigKey mmin]),
                    ([same n mmin, has_size threeNode lmax],
                     [setSmallKey mmin (getSmallKey t), setSmallKey t (getBigKey lmax), clearBigKey lmax]),
                    ([same n mmax, has_size threeNode rmin],
                     [setSmallKey mmax (getBigKey t), setBigKey t (getSmallKey rmin), setSmallKey rmin (getBigKey rmin), clearBigKey rmin]),
                    ([same n rmin, has_size threeNode mmax],
                     [setSmallKey rmin (getBigKey t), setBigKey t (getBigKey mmax), clearBigKey mmax])] s))
             else
               cases_of
                 [([same n rmin, has_size threeNode lmax],
                   [setSmallKey rmin (getSmallKey t), setSmallKey t (getBigKey lmax), clearBigKey lmax]),
                  ([same n lmax, has_size threeNode rmin],
                   [setSmallKey lmax (getSmallKey t), setSmallKey t (getSmallKey rmin), setSmallKey rmin (getBigKey rmin), clearBigKey rmin])] s)
            (\<lambda>(b, s). Ok (success b, s))))))"

section \<open>Mergers\<close>

definition localNodeMerger :: "ptr \<Rightarrow> 'k :: linorder ctree \<Rightarrow> (code \<times> 'k ctree) res" where
  "localNodeMerger n s =
     (if n = None then Ok (IS_EMPTY, s)
      else obind (getParent n s) (\<lambda>p. obind (getChild rightChild p s) (\<lambda>r.
        obind (getChild middleChild p s) (\<lambda>m. obind (getChild leftChild p s) (\<lambda>l.
          obind (cases_of
            [([same n l, has_size threeNode p],
              [setSmallKey l (getSmallKey p), setBigKey l (getSmallKey m), setChild middleChild l (getChild leftChild m),
               setChild rightChild l (getChild rightChild m), setSmallKey p (getBigKey p), clearBigKey p, clearChild middleChild p, delete_node m]),
             ([same n m, has_size threeNode p],
              [setBigKey l (getSmallKey p), setChild middleChild l (getChild rightChild l), setChild rightChild l (getChild leftChild m),
               setSmallKey p (getBigKey p), clearBigKey p, clearChild middleChild p, delete_node m]),
             ([same n r, has_size threeNode p],
              [setSmallKey r (getSmallKey m), setBigKey r (getBigKey p), setChild rightChild r (getChild leftChild r),
               setChild middleChild r (getChild rightChild m), setChild leftChild r (getChild leftChild m),
               clearBigKey p, clearChild middleChild p, delete_node m])] s) (\<lambda>(b, s). Ok (success b, s)))))))"

text \<open>The result also names the next node to fix.\<close>

definition globalNodeMerger :: "ptr \<Rightarrow> 'k :: linorder ctree \<Rightarrow> (code \<times> ptr \<times> 'k ctree) res" where
  "globalNodeMerger n s =
     (if n = None then Ok (IS_EMPTY, None, s)
      else obind (getParent n s) (\<lambda>p. obind (getChild rightChild p s) (\<lambda>r. obind (getChild leftChild p s) (\<lambda>l.
        obind (cases_of
          [([same n l],
            [setSmallKey l (getSmallKey p), setBigKey l (getSmallKey r), setChild middleChild l (getChild leftChild r),
             setChild rightChild l (getChild rightChild r), clearSmallKey p, clearChild rightChild p, delete_node r]),
           ([same n r],
            [setBigKey l (getSmallKey p), setChild middleChild l (getChild rightChild l), setChild rightChild l (getChild leftChild r),
             clearChild rightChild p, clearSmallKey p, delete_node r])] s) (\<lambda>(b, s).
          Ok (success b, (if b then p else None), s))))))"

section \<open>Deleting a key\<close>

definition swapWithInOrderSuccessor :: "nat \<Rightarrow> ptr \<Rightarrow> 'k :: linorder \<Rightarrow> 'k ctree \<Rightarrow> (code \<times> ptr \<times> 'k ctree) res" where
  "swapWithInOrderSuccessor fuel n key s =
     (if n = None then Ok (IS_EMPTY, None, s)
      else obind (getNextInorderKey fuel n key s) (\<lambda>(leaf, leafKey).
        obind (cases_of
          [([key_is key (getSmallKey n)], [setSmallKey leaf (\<lambda>_. Ok key), setSmallKey n (\<lambda>_. Ok leafKey)]),
           ([key_is key (getBigKey n)], [setSmallKey leaf (\<lambda>_. Ok key), setBigKey n (\<lambda>_. Ok leafKey)])] s) (\<lambda>(b, s).
          Ok (success b, (if b then leaf else None), s))))"

fun delete_loop :: "nat \<Rightarrow> nat \<Rightarrow> ptr \<Rightarrow> 'k :: linorder ctree \<Rightarrow> (code \<times> 'k ctree) res" where
  "delete_loop 0 fuel n s = Timeout"
| "delete_loop (Suc rounds) fuel n s =
     (if n = m_pRoot s then
        obind (getChild leftChild n s) (\<lambda>t. obind (adopt t None (s\<lparr>m_pRoot := t\<rparr>)) (\<lambda>s.
          obind (delete_node n s) (\<lambda>s. Ok (SUCCESS, s))))
      else obind (localRotation n s) (\<lambda>(rc, s).
        if rc = SUCCESS then Ok (SUCCESS, s)
        else obind (globalRotation fuel n s) (\<lambda>(rc, s).
          if rc = SUCCESS then Ok (SUCCESS, s)
          else obind (localNodeMerger n s) (\<lambda>(rc, s).
            if rc = SUCCESS then Ok (SUCCESS, s)
            else obind (globalNodeMerger n s) (\<lambda>(rc, next, s).
              if rc = SUCCESS then delete_loop rounds fuel next s else Ok (FAILURE, s))))))"

definition deleteItem :: "nat \<Rightarrow> nat \<Rightarrow> 'k :: linorder \<Rightarrow> 'k ctree \<Rightarrow> (code \<times> 'k ctree) res" where
  "deleteItem rounds fuel key s =
     obind (if m_pRoot s = None then Ok (IS_EMPTY, None, False) else search fuel key s) (\<lambda>(rc, n, found).
       if rc \<noteq> SUCCESS then Ok (rc, s)
       else if \<not> found then Ok (NOT_FOUND, s)
       else obind (isLeaf n s) (\<lambda>leaf.
         obind (if leaf then Ok (SUCCESS, n, s) else swapWithInOrderSuccessor fuel n key s) (\<lambda>(rc, n, s).
           if rc \<noteq> SUCCESS then Ok (rc, s)
           else obind (getSize n s) (\<lambda>size.
             if size = threeNode then removeFromLeaf n key s else delete_loop rounds fuel n s))))"

declare delete_loop.simps [simp del]

end
