(* ===== verification/CTree_Demo.thy ===== *)
theory CTree_Demo
  imports CTree_Delete
begin

text \<open>
  The test program of the 2-3 tree, \<open>2-3TreeImplementation.cpp\<close>: the integer test cases of \<open>_tmain\<close>, each a sequence
  of insertions and a sequence of deletions, and the functions that run them. Its output is the list of the
  keys and item counts it prints.
\<close>

section \<open>The test functions\<close>

text \<open>The fuel of one call: more nodes than a test case can make.\<close>

definition demo_fuel :: nat where "demo_fuel = 40"

datatype 'k out = Keys eTreeTraversal nat "'k list"

definition print_order :: "eTreeTraversal \<Rightarrow> 'k :: linorder ctree \<Rightarrow> 'k out res" where
  "print_order m s = obind (print demo_fuel demo_fuel m s) (\<lambda>(rc, cnt, out). Ok (Keys m cnt out))"

definition printOrders :: "'k :: linorder ctree \<Rightarrow> 'k out list res" where
  "printOrders s =
     obind (print_order preorder s) (\<lambda>a. obind (print_order inorder s) (\<lambda>b. obind (print_order postorder s) (\<lambda>c. Ok [a, b, c])))"

fun insert_objects :: "'k :: linorder list \<Rightarrow> 'k ctree \<Rightarrow> 'k ctree res" where
  "insert_objects [] s = Ok s"
| "insert_objects (k # ks) s = obind (insert demo_fuel k s) (\<lambda>(rc, s). insert_objects ks s)"

fun delete_objects :: "'k :: linorder list \<Rightarrow> 'k ctree \<Rightarrow> ('k out list \<times> 'k ctree) res" where
  "delete_objects [] s = Ok ([], s)"
| "delete_objects (k # ks) s =
     obind (deleteItem demo_fuel demo_fuel k s) (\<lambda>(rc, s).
       obind (printOrders s) (\<lambda>out. obind (delete_objects ks s) (\<lambda>(out', s). Ok (out @ out', s))))"

definition ExecDeleteTestcase :: "'k :: linorder list \<Rightarrow> 'k list \<Rightarrow> ('k out list \<times> 'k ctree) res" where
  "ExecDeleteTestcase ins del =
     obind (insert_objects ins new_CTree) (\<lambda>s.
       obind (delete_objects del s) (\<lambda>(out, s).
         obind (destroy demo_fuel demo_fuel s) (\<lambda>s. Ok (out, s))))"

text \<open>A test case without its output: the codes of the deletions, and the tree in inorder after them.\<close>

fun delete_quietly :: "'k :: linorder list \<Rightarrow> 'k ctree \<Rightarrow> (code list \<times> 'k ctree) res" where
  "delete_quietly [] s = Ok ([], s)"
| "delete_quietly (k # ks) s =
     obind (deleteItem demo_fuel demo_fuel k s) (\<lambda>(rc, s). obind (delete_quietly ks s) (\<lambda>(rcs, s). Ok (rc # rcs, s)))"

definition keys_left :: "int list \<Rightarrow> int list \<Rightarrow> (code list \<times> int out) res" where
  "keys_left ins del =
     obind (insert_objects ins new_CTree) (\<lambda>s. obind (delete_quietly del s) (\<lambda>(rcs, s).
       obind (print_order inorder s) (\<lambda>out. Ok (rcs, out))))"

definition left_spec :: "int list \<Rightarrow> int list \<Rightarrow> code list \<times> int out" where
  "left_spec ins del = (let ks = sort (filter (\<lambda>k. k \<notin> set del) ins) in (map (\<lambda>_. SUCCESS) del, Keys inorder (length ks) ks))"

section \<open>The test cases\<close>

definition testcases :: "(int list \<times> int list) list" where
  "testcases =
     [([67,34,23,88,96,14,4,27], [4,34,23,88,27,67,14,96]),
      ([37,11,17,48,78,87,93,67,68,83], [67,17,78,48,68,87,11,37]),
      ([20,25,43,47,12,56,15,70,86,92], [43,15,56,25,86,70]),
      ([18,47,67,35,96,24,15,45,38,7,11,37], [18]),
      ([47,51,16,23,45,79,14,81,37,13,41,90,96,67], [81]),
      ([54,70,94,58,25,62,45,17], [94]),
      ([26,25,67,89,57,42,52,47,31,35], [47]),
      ([79,45,94,56,29,64,26,58,50,55], [56]),
      ([67,20,72,65,85,47,60,25,45,78,53,58], [45]),
      ([98,13,46,14,79,38,74,76,41,16,67,92,86,53,50,44], [50]),
      ([98,72,65,24,87,62,28,84,56,85,48,45], [65]),
      ([23,45,67,48,41,56,17,46,54,43,18,13,30,44], [46]),
      ([64,38,72,58,25,79,28,76,43], [72]),
      ([58,79,95,82,57,25,86,81], [58]),
      ([46,72,70,93,76,36,50,28,22], [22]),
      ([23,43,46,78,34,83,48,74,61,69], [74]),
      ([1,12,38,54,48,95,47,81,45], [47]),
      ([73,24,57,84,56,37,23,75], [73]),
      ([35,40,45,51,75,82,87], [45]),
      ([74,65,91,38,46,17,16,84], [74]),
      ([22,27,30,32,35,40,45,51,55,60,75,82,87,92,95,16,10], [30,51,32,45,60,75,92])]"

section \<open>What the test cases show, and what they do not\<close>

text \<open>Evaluated in three groups.\<close>

definition test_ok :: "int list \<times> int list \<Rightarrow> bool" where
  "test_ok tc = (case tc of (ins, del) \<Rightarrow> keys_left ins del = Ok (left_spec ins del))"

lemma tests_1: "list_all test_ok (take 7 testcases)"
  by code_simp

lemma tests_2: "list_all test_ok (take 7 (drop 7 testcases))"
  by code_simp

lemma tests_3: "list_all test_ok (drop 14 testcases)"
  by code_simp

text \<open>The deletions of all 21 integer test cases, which between them go through the rotations and mergers of \<open>CTree.h\<close>, succeed
  and leave the keys that were inserted and not deleted, in order.\<close>

theorem ctree_tests_pass: "list_all (\<lambda>(ins, del). keys_left ins del = Ok (left_spec ins del)) testcases"
proof -
  have "testcases = take 7 testcases @ take 7 (drop 7 testcases) @ drop 14 testcases" by (simp add: testcases_def)
  then have "list_all test_ok testcases" using tests_1 tests_2 tests_3 by (metis list_all_append)
  then show ?thesis by (simp add: test_ok_def [abs_def])
qed

text \<open>The code does not keep the tree whole. With the keys 10 to 70 and 55, deleting 10 merges two leaves and
  leaves their parent without a key; the rotation around the root (case 14), which is meant for leaves, then
  takes this parent for the rightmost leaf and gives it a key but no right child. The deletion returns
  \<open>SUCCESS\<close>, and a traversal afterwards follows the missing child.\<close>

theorem ctree_delete_breaks:
  "(case insert_objects [10, 20, 30, 40, 50, 60, 70, 55 :: int] new_CTree of
      Ok s \<Rightarrow> print_order inorder s = Ok (Keys inorder 8 [10, 20, 30, 40, 50, 55, 60, 70]) \<and>
        (case deleteItem demo_fuel demo_fuel 10 s of
           Ok (rc, s) \<Rightarrow> rc = SUCCESS \<and> print_order inorder s = Fault NullDeref
         | _ \<Rightarrow> False)
    | _ \<Rightarrow> False)"
  by code_simp

text \<open>A preorder \<open>print\<close>, which the test program runs first after every deletion, reads the big key of a node that has only a small
  one: for a tree with a single key, whatever the key, this big key has never been written.\<close>

theorem ctree_preorder_uninitialised:
  "obind (insert fuel k new_CTree) (\<lambda>(rc, s). print (Suc rounds) fuel preorder s) = Fault Uninitialised"
  by (simp add: insert_def new_CTree_def new_CNode0_def new_node_def add_def cnode_defs blank_def node_size_def print_def print_loop.simps
      getNextPreorderKey_def has_size_def key_is_def)

end
