(* ===== verification/Median.thy ===== *)
theory Median
  imports Outcome "HOL-Library.Signed_Division" "HOL-Library.Multiset"
begin

text \<open>
  The running median of \<open>FindMedian.cpp\<close>: two array heaps of capacity 128, one ordered by \<open>Greater\<close>, one by \<open>Smaller\<close>, in one
  class with the comparison as a member. A heap is its array, in which an element that was never written is
  \<open>None\<close>, the comparison and the index of the last element. Theorems: an insertion keeps the heap order and
  adds the element, the top is the extreme element, the capacity test is off by one, and \<open>deleteTop\<close>, which only
  moves elements towards the root, breaks the order, so that the median is wrong.
\<close>

section \<open>Utility functions\<close>

definition MAX_HEAP_SIZE :: int where "MAX_HEAP_SIZE = 128"

definition Greater :: "int \<Rightarrow> int \<Rightarrow> bool" where "Greater a b \<longleftrightarrow> a > b"

definition Smaller :: "int \<Rightarrow> int \<Rightarrow> bool" where "Smaller a b \<longleftrightarrow> a < b"

text \<open>A sum that does not fit an \<open>int\<close> is undefined; the quotient is rounded towards zero.\<close>

definition Average :: "int \<Rightarrow> int \<Rightarrow> int res" where
  "Average a b = (if a + b < - (2 ^ 31) \<or> 2 ^ 31 \<le> a + b then Fault OutOfBounds else Ok ((a + b) sdiv 2))"

definition Signum :: "int \<Rightarrow> int \<Rightarrow> int" where
  "Signum a b = (if a = b then 0 else if a < b then - 1 else 1)"

section \<open>The heap\<close>

record heap =
  A :: "int option list"
  comp :: "int \<Rightarrow> int \<Rightarrow> bool"
  heapSize :: int

definition MaxHeap :: heap where
  "MaxHeap = \<lparr>A = replicate (nat MAX_HEAP_SIZE) None, comp = Greater, heapSize = - 1\<rparr>"

definition MinHeap :: heap where
  "MinHeap = \<lparr>A = replicate (nat MAX_HEAP_SIZE) None, comp = Smaller, heapSize = - 1\<rparr>"

definition parent :: "int \<Rightarrow> int" where
  "parent i = (if i \<le> 0 then - 1 else (i - 1) div 2)"

definition get :: "heap \<Rightarrow> int \<Rightarrow> int res" where
  "get h i =
     (if i < 0 \<or> int (length (A h)) \<le> i then Fault OutOfBounds
      else case A h ! nat i of None \<Rightarrow> Fault Uninitialised | Some x \<Rightarrow> Ok x)"

definition put :: "heap \<Rightarrow> int \<Rightarrow> int \<Rightarrow> heap res" where
  "put h i x = (if i < 0 \<or> int (length (A h)) \<le> i then Fault OutOfBounds else Ok (h\<lparr>A := (A h)[nat i := Some x]\<rparr>))"

text \<open>\<open>Exch(A[i], A[j])\<close>\<close>

definition Exch :: "heap \<Rightarrow> int \<Rightarrow> int \<Rightarrow> heap res" where
  "Exch h i j = obind (get h i) (\<lambda>aux. obind (get h j) (\<lambda>b. obind (put h i b) (\<lambda>h. put h j aux)))"

definition top :: "heap \<Rightarrow> int res" where
  "top h = (if heapSize h \<ge> 0 then get h 0 else Ok (- 1))"

definition count_heap :: "heap \<Rightarrow> int" where
  "count_heap h = heapSize h + 1"

function heapify :: "heap \<Rightarrow> int \<Rightarrow> heap res" where
  "heapify h i =
     (let p = parent i in
        if p \<ge> 0 then
          obind (get h i) (\<lambda>x. obind (get h p) (\<lambda>y.
            if comp h x y then obind (Exch h i p) (\<lambda>h. heapify h p) else Ok h))
        else Ok h)"
  by auto

termination
  by (relation "measure (\<lambda>(h, i). nat i)") (auto simp: parent_def split: if_splits)

declare heapify.simps [simp del]

definition deleteTop :: "heap \<Rightarrow> (int \<times> heap) res" where
  "deleteTop h =
     (if heapSize h > - 1 then
        obind (get h 0) (\<lambda>del. obind (Exch h 0 (heapSize h)) (\<lambda>h.
          let h = h\<lparr>heapSize := heapSize h - 1\<rparr> in
          obind (heapify h (parent (heapSize h + 1))) (\<lambda>h. Ok (del, h))))
      else Ok (- 1, h))"

definition insertHelper :: "heap \<Rightarrow> int \<Rightarrow> (bool \<times> heap) res" where
  "insertHelper h key =
     (if heapSize h < MAX_HEAP_SIZE then
        let h = h\<lparr>heapSize := heapSize h + 1\<rparr> in
        obind (put h (heapSize h) key) (\<lambda>h. obind (heapify h (heapSize h)) (\<lambda>h. Ok (True, h)))
      else Ok (False, h))"

section \<open>The median so far\<close>

definition getMedian :: "int \<Rightarrow> int \<Rightarrow> heap \<Rightarrow> heap \<Rightarrow> (int \<times> heap \<times> heap) res" where
  "getMedian e m l r =
     (let sig = Signum (count_heap l) (count_heap r) in
      if sig = 1 then
        obind
          (if e < m then
             obind (deleteTop l) (\<lambda>(x, l). obind (insertHelper r x) (\<lambda>(_, r). obind (insertHelper l e) (\<lambda>(_, l). Ok (l, r))))
           else obind (insertHelper r e) (\<lambda>(_, r). Ok (l, r)))
          (\<lambda>(l, r). obind (top l) (\<lambda>a. obind (top r) (\<lambda>b. obind (Average a b) (\<lambda>m. Ok (m, l, r)))))
      else if sig = 0 then
        if e < m then obind (insertHelper l e) (\<lambda>(_, l). obind (top l) (\<lambda>m. Ok (m, l, r)))
        else obind (insertHelper r e) (\<lambda>(_, r). obind (top r) (\<lambda>m. Ok (m, l, r)))
      else
        obind
          (if e < m then obind (insertHelper l e) (\<lambda>(_, l). Ok (l, r))
           else obind (deleteTop r) (\<lambda>(x, r). obind (insertHelper l x) (\<lambda>(_, l). obind (insertHelper r e) (\<lambda>(_, r). Ok (l, r)))))
          (\<lambda>(l, r). obind (top l) (\<lambda>a. obind (top r) (\<lambda>b. obind (Average a b) (\<lambda>m. Ok (m, l, r))))))"

text \<open>The medians printed, one after each element.\<close>

fun print_loop_median :: "int list \<Rightarrow> int \<Rightarrow> heap \<Rightarrow> heap \<Rightarrow> int list res" where
  "print_loop_median [] m l r = Ok []"
| "print_loop_median (e # es) m l r =
     obind (getMedian e m l r) (\<lambda>(m, l, r). obind (print_loop_median es m l r) (\<lambda>out. Ok (m # out)))"

definition printMedian :: "int list \<Rightarrow> int list res" where
  "printMedian es = print_loop_median es 0 MaxHeap MinHeap"

section \<open>Heaps as lists\<close>

definition par :: "nat \<Rightarrow> nat" where "par i = (i - 1) div 2"

lemma par_less: "0 < i \<Longrightarrow> par i < i"
  by (auto simp: par_def)

lemma parent_int: "0 < i \<Longrightarrow> parent (int i) = int (par i)"
  by (auto simp: parent_def par_def zdiv_int of_nat_diff)

definition heap_rep :: "heap \<Rightarrow> int list \<Rightarrow> bool" where
  "heap_rep h xs \<longleftrightarrow> heapSize h = int (length xs) - 1 \<and> length (A h) = 128 \<and> (\<exists>rest. A h = map Some xs @ rest)"

lemma heap_rep_get: "heap_rep h xs \<Longrightarrow> i < length xs \<Longrightarrow> get h (int i) = Ok (xs ! i)"
  by (auto simp: heap_rep_def get_def nth_append)

lemma heap_rep_put: "heap_rep h xs \<Longrightarrow> i < length xs \<Longrightarrow> \<exists>h'. put h (int i) x = Ok h' \<and> heap_rep h' (xs[i := x]) \<and> comp h' = comp h"
  by (auto simp: heap_rep_def put_def list_update_append map_update)

definition swap :: "'a list \<Rightarrow> nat \<Rightarrow> nat \<Rightarrow> 'a list" where
  "swap xs i j = xs[i := xs ! j, j := xs ! i]"

lemma swap_simps [simp]: "length (swap xs i j) = length xs" "i < length xs \<Longrightarrow> j < length xs \<Longrightarrow> mset (swap xs i j) = mset xs"
  by (simp_all add: swap_def mset_swap)

lemma nth_swap: "i < length xs \<Longrightarrow> j < length xs \<Longrightarrow> k < length xs \<Longrightarrow> swap xs i j ! k = (if k = i then xs ! j else if k = j then xs ! i else xs ! k)"
  by (simp add: swap_def nth_list_update)

lemma heap_rep_Exch:
  assumes "heap_rep h xs" and "i < length xs" and "j < length xs"
  shows "\<exists>h'. Exch h (int i) (int j) = Ok h' \<and> heap_rep h' (swap xs i j) \<and> comp h' = comp h"
proof -
  from heap_rep_put [OF assms(1,2)] obtain h1 where h1: "put h (int i) (xs ! j) = Ok h1" "heap_rep h1 (xs[i := xs ! j])" "comp h1 = comp h" by blast
  from heap_rep_put [OF h1(2), of j] assms(3) obtain h2 where
    "put h1 (int j) (xs ! i) = Ok h2" "heap_rep h2 (xs[i := xs ! j, j := xs ! i])" "comp h2 = comp h1" by auto
  with h1 heap_rep_get [OF assms(1,2)] heap_rep_get [OF assms(1,3)] show ?thesis by (simp add: Exch_def swap_def)
qed

function sift :: "('a \<Rightarrow> 'a \<Rightarrow> bool) \<Rightarrow> 'a list \<Rightarrow> nat \<Rightarrow> 'a list" where
  "sift c xs i = (if 0 < i \<and> c (xs ! i) (xs ! par i) then sift c (swap xs i (par i)) (par i) else xs)"
  by auto

termination
  by (relation "measure (\<lambda>(c, xs, i). i)") (auto simp: par_less)

declare sift.simps [simp del]

lemma heapify_sift:
  "heap_rep h xs \<Longrightarrow> i < length xs \<Longrightarrow> \<exists>h'. heapify h (int i) = Ok h' \<and> heap_rep h' (sift (comp h) xs i) \<and> comp h' = comp h"
proof (induction i arbitrary: h xs rule: less_induct)
  case (less i)
  show ?case
  proof (cases "0 < i \<and> comp h (xs ! i) (xs ! par i)")
    case True
    then have p: "par i < i" "par i < length xs" using par_less [of i] less.prems by auto
    from heap_rep_Exch [OF less.prems p(2)] obtain h1 where
      h1: "Exch h (int i) (int (par i)) = Ok h1" "heap_rep h1 (swap xs i (par i))" "comp h1 = comp h" by blast
    from less.IH [OF p(1) h1(2)] p(2) h1(3) obtain h2 where
      h2: "heapify h1 (int (par i)) = Ok h2" "heap_rep h2 (sift (comp h) (swap xs i (par i)) (par i))" "comp h2 = comp h" by auto
    with h1 True parent_int [of i] heap_rep_get [OF less.prems] heap_rep_get [OF less.prems(1) p(2)] show ?thesis
      by (subst heapify.simps, subst sift.simps) simp
  next
    case False
    then show ?thesis using less.prems heap_rep_get [OF less.prems] heap_rep_get [OF less.prems(1), of "par i"] par_less [of i] parent_int [of i]
      by (subst heapify.simps, subst sift.simps) (auto simp: parent_def)
  qed
qed

lemma sift_mset: "i < length xs \<Longrightarrow> mset (sift c xs i) = mset xs \<and> length (sift c xs i) = length xs"
proof (induction i arbitrary: xs rule: less_induct)
  case (less i)
  from less.IH [of "par i" "swap xs i (par i)"] less.prems par_less [of i] show ?case
    by (subst (1 2) sift.simps) auto
qed

section \<open>Heap order\<close>

text \<open>No element comes before its parent in the order of the comparison.\<close>

definition heap_order :: "('a \<Rightarrow> 'a \<Rightarrow> bool) \<Rightarrow> 'a list \<Rightarrow> bool" where
  "heap_order c xs \<longleftrightarrow> (\<forall>i < length xs. 0 < i \<longrightarrow> \<not> c (xs ! i) (xs ! par i))"

text \<open>The same, but for the element at a position that is on its way up.\<close>

definition almost :: "('a \<Rightarrow> 'a \<Rightarrow> bool) \<Rightarrow> 'a list \<Rightarrow> nat \<Rightarrow> bool" where
  "almost c xs i \<longleftrightarrow> (\<forall>j < length xs. 0 < j \<longrightarrow> (j \<noteq> i \<longrightarrow> \<not> c (xs ! j) (xs ! par j)) \<and>
     (0 < i \<and> par j = i \<longrightarrow> \<not> c (xs ! j) (xs ! par i)))"

locale comparison =
  fixes c :: "'a \<Rightarrow> 'a \<Rightarrow> bool"
  assumes asym: "c a b \<Longrightarrow> \<not> c b a" and neg_trans: "\<not> c a b \<Longrightarrow> \<not> c b d \<Longrightarrow> \<not> c a d"
begin

lemma almost_step:
  assumes a: "almost c xs i" and i: "0 < i" "i < length xs" and c: "c (xs ! i) (xs ! par i)"
  shows "almost c (swap xs i (par i)) (par i)"
proof -
  have p: "par i < i" "par i < length xs" using par_less [OF i(1)] i(2) by auto
  note nth = nth_swap [OF i(2) p(2)]
  have "(j \<noteq> par i \<longrightarrow> \<not> c (swap xs i (par i) ! j) (swap xs i (par i) ! par j)) \<and>
      (0 < par i \<and> par j = par i \<longrightarrow> \<not> c (swap xs i (par i) ! j) (swap xs i (par i) ! par (par i)))" if j: "j < length xs" "0 < j" for j
  proof -
    have pj: "par j < j" "par j < length xs" using par_less [OF j(2)] j(1) by auto
    have pp: "par (par i) < par i" if "0 < par i" using par_less that by simp
    have old: "j \<noteq> i \<Longrightarrow> \<not> c (xs ! j) (xs ! par j)" "par j = i \<Longrightarrow> \<not> c (xs ! j) (xs ! par i)" using a j i(1) by (auto simp: almost_def)
    have oldp: "0 < par i \<Longrightarrow> \<not> c (xs ! par i) (xs ! par (par i))" using a p by (auto simp: almost_def)
    have "\<not> c (swap xs i (par i) ! j) (swap xs i (par i) ! par j)" if "j \<noteq> par i"
      using that old c asym [OF c] neg_trans [of "xs ! j" "xs ! par i" "xs ! i"] p pj by (auto simp: nth j pj(2))
    moreover have "\<not> c (swap xs i (par i) ! j) (swap xs i (par i) ! par (par i))" if "0 < par i" "par j = par i"
      using that old(1) oldp pp p pj neg_trans [of "xs ! j" "xs ! par i" "xs ! par (par i)"] by (auto simp: nth j)
    ultimately show ?thesis by blast
  qed
  then show ?thesis by (simp add: almost_def)
qed

lemma sift_heap: "almost c xs i \<Longrightarrow> i < length xs \<Longrightarrow> heap_order c (sift c xs i)"
proof (induction i arbitrary: xs rule: less_induct)
  case (less i)
  show ?case
  proof (cases "0 < i \<and> c (xs ! i) (xs ! par i)")
    case True
    with less.IH [of "par i" "swap xs i (par i)"] almost_step [OF less.prems(1)] less.prems(2) par_less [of i] show ?thesis
      by (subst sift.simps) auto
  next
    case False
    with less.prems show ?thesis by (subst sift.simps) (auto simp: heap_order_def almost_def)
  qed
qed

lemma almost_snoc:
  assumes "heap_order c xs"
  shows "almost c (xs @ [x]) (length xs)"
proof -
  have "(j \<noteq> length xs \<longrightarrow> \<not> c ((xs @ [x]) ! j) ((xs @ [x]) ! par j)) \<and>
      (0 < length xs \<and> par j = length xs \<longrightarrow> \<not> c ((xs @ [x]) ! j) ((xs @ [x]) ! par (length xs)))" if "j < Suc (length xs)" "0 < j" for j
    using assms that par_less [OF that(2)] by (auto simp: heap_order_def nth_append)
  then show ?thesis by (simp add: almost_def)
qed

lemma sift_snoc: "heap_order c xs \<Longrightarrow> heap_order c (sift c (xs @ [x]) (length xs))"
  by (rule sift_heap) (auto intro: almost_snoc)

lemma top_extreme: "heap_order c xs \<Longrightarrow> i < length xs \<Longrightarrow> \<not> c (xs ! i) (xs ! 0)"
proof (induction i rule: less_induct)
  case (less i)
  show ?case
  proof (cases "i = 0")
    case True
    then show ?thesis using asym by blast
  next
    case False
    with less par_less [of i] have "\<not> c (xs ! par i) (xs ! 0)" "\<not> c (xs ! i) (xs ! par i)" by (auto simp: heap_order_def)
    then show ?thesis using neg_trans by blast
  qed
qed

end

interpretation max_heap: comparison Greater
  by unfold_locales (auto simp: Greater_def)

interpretation min_heap: comparison Smaller
  by unfold_locales (auto simp: Smaller_def)

section \<open>The operations of a heap\<close>

lemma insertHelper_rep:
  assumes r: "heap_rep h xs" and l: "length xs < 128"
  shows "\<exists>h'. insertHelper h k = Ok (True, h') \<and> heap_rep h' (sift (comp h) (xs @ [k]) (length xs)) \<and> comp h' = comp h"
proof -
  from r obtain rest where h: "heapSize h = int (length xs) - 1" "length (A h) = 128" "A h = map Some xs @ rest" by (auto simp: heap_rep_def)
  with l obtain y ys where rest: "rest = y # ys" by (cases rest) auto
  let ?h = "h\<lparr>heapSize := int (length xs), A := map Some (xs @ [k]) @ ys\<rparr>"
  have p: "put (h\<lparr>heapSize := int (length xs)\<rparr>) (int (length xs)) k = Ok ?h"
    using h l rest by (simp add: put_def list_update_append)
  have "heap_rep ?h (xs @ [k])" using h rest by (simp add: heap_rep_def)
  from heapify_sift [OF this, of "length xs"] obtain h' where
    "heapify ?h (int (length xs)) = Ok h'" "heap_rep h' (sift (comp h) (xs @ [k]) (length xs))" "comp h' = comp h" by auto
  with p h l show ?thesis by (simp add: insertHelper_def MAX_HEAP_SIZE_def)
qed

lemma insertHelper_full:
  assumes "heap_rep h xs" and "length xs = 128"
  shows "insertHelper h k = Fault OutOfBounds"
  using assms by (simp add: heap_rep_def insertHelper_def MAX_HEAP_SIZE_def put_def)

lemma deleteTop_rep:
  assumes r: "heap_rep h xs" and k: "length xs = Suc k"
  shows "\<exists>h' ys. deleteTop h = Ok (xs ! 0, h') \<and> heap_rep h' ys \<and> comp h' = comp h \<and> add_mset (xs ! 0) (mset ys) = mset xs"
proof -
  let ?zs = "swap xs 0 k"
  have n: "k < length xs" "heapSize h = int k" "0 < length xs" using k r by (auto simp: heap_rep_def)
  from heap_rep_Exch [OF r n(3) n(1)] obtain h1 where h1: "Exch h 0 (int k) = Ok h1" "heap_rep h1 ?zs" "comp h1 = comp h" by auto
  have ne: "?zs \<noteq> []" using k by (metis length_0_conv nat.distinct(1) swap_simps(1))
  then have "last ?zs = ?zs ! k" using k by (simp add: last_conv_nth)
  also have "\<dots> = xs ! 0" using nth_swap [OF n(3) n(1) n(1)] by simp
  finally have last: "?zs = butlast ?zs @ [xs ! 0]" using ne by (metis append_butlast_last_id)
  let ?h = "h1\<lparr>heapSize := int k - 1\<rparr>"
  from h1(2) obtain rest where "A h1 = map Some ?zs @ rest" by (auto simp: heap_rep_def)
  then have "A h1 = map Some (butlast ?zs) @ Some (xs ! 0) # rest" using last by (metis append.assoc append_Cons append_Nil list.simps(8,9) map_append)
  then have rep: "heap_rep ?h (butlast ?zs)" using h1(2) k by (auto simp: heap_rep_def)
  have ms: "add_mset (xs ! 0) (mset (butlast ?zs)) = mset xs"
    using last swap_simps(2) [OF n(3) n(1)] by (metis add_mset_add_single mset.simps(1,2) mset_append)
  have "heapSize h1 = int k" using h1(2) k by (simp add: heap_rep_def)
  then have e: "deleteTop h = obind (heapify ?h (parent (int k))) (\<lambda>h. Ok (xs ! 0, h))"
    using n(2) h1(1) heap_rep_get [OF r n(3)] by (simp add: deleteTop_def)
  show ?thesis
  proof (cases "k = 0")
    case True
    then have "heapify ?h (parent (int k)) = Ok ?h" by (subst heapify.simps) (simp add: parent_def)
    with e rep ms h1(3) show ?thesis by auto
  next
    case False
    then have p: "par k < length (butlast ?zs)" using par_less [of k] k by simp
    from heapify_sift [OF rep p] obtain h' where
      h': "heapify ?h (int (par k)) = Ok h'" "heap_rep h' (sift (comp h) (butlast ?zs) (par k))" "comp h' = comp h" using h1(3) by auto
    with e parent_int [of k] False sift_mset [OF p, of "comp h"] ms show ?thesis by auto
  qed
qed

lemma top_rep: "heap_rep h xs \<Longrightarrow> xs \<noteq> [] \<Longrightarrow> top h = Ok (xs ! 0)"
  using heap_rep_get [of h xs 0] by (auto simp: top_def heap_rep_def)

lemma count_rep: "heap_rep h xs \<Longrightarrow> count_heap h = int (length xs)"
  by (simp add: count_heap_def heap_rep_def)

text \<open>An insertion, as it shows from outside.\<close>

lemma insertHelper_mset:
  assumes "heap_rep h xs" and "length xs < 128"
  shows "\<exists>h' ys. insertHelper h k = Ok (True, h') \<and> heap_rep h' ys \<and> mset ys = add_mset k (mset xs)"
  using insertHelper_rep [OF assms, of k] sift_mset [of "length xs" "xs @ [k]" "comp h"] by auto

section \<open>The two heaps\<close>

definition small :: "int \<Rightarrow> bool" where
  "small e \<longleftrightarrow> - (2 ^ 30) \<le> e \<and> e < 2 ^ 30"

text \<open>The heaps hold the elements seen, in equal parts.\<close>

definition median_inv :: "heap \<Rightarrow> heap \<Rightarrow> int multiset \<Rightarrow> bool" where
  "median_inv l r seen \<longleftrightarrow> (\<exists>xs ys. heap_rep l xs \<and> heap_rep r ys \<and> mset xs + mset ys = seen \<and>
     length xs \<le> Suc (length ys) \<and> length ys \<le> Suc (length xs))"

lemma median_invI:
  assumes "heap_rep l xs" and "heap_rep r ys" and "mset xs + mset ys = seen" and "length xs \<le> Suc (length ys)" and "length ys \<le> Suc (length xs)"
  shows "median_inv l r seen"
  using assms unfolding median_inv_def by blast

text \<open>The tops of two heaps that are not empty have an average.\<close>

definition averaged :: "heap \<times> heap \<Rightarrow> (int \<times> heap \<times> heap) res" where
  "averaged p = (case p of (l, r) \<Rightarrow> obind (top l) (\<lambda>a. obind (top r) (\<lambda>b. obind (Average a b) (\<lambda>m. Ok (m, l, r)))))"

lemma averaged_ok:
  assumes "heap_rep l xs" and "heap_rep r ys" and "xs \<noteq> []" and "ys \<noteq> []" and "\<forall>e \<in> set xs \<union> set ys. small e"
  shows "\<exists>m. averaged (l, r) = Ok (m, l, r)"
proof -
  have "xs ! 0 \<in> set xs" "ys ! 0 \<in> set ys" using assms(3,4) by auto
  then have "small (xs ! 0)" "small (ys ! 0)" using assms(5) by auto
  with top_rep [OF assms(1,3)] top_rep [OF assms(2,4)] show ?thesis by (simp add: averaged_def Average_def small_def)
qed


text \<open>The top of one heap goes to the other, and the new element takes its place.\<close>

lemma move_ok:
  assumes a: "heap_rep a xs" and b: "heap_rep b ys" and n: "length xs = Suc (length ys)" "length ys < 128"
  shows "\<exists>a1 b' a' xs' ys'. deleteTop a = Ok (xs ! 0, a1) \<and> insertHelper b (xs ! 0) = Ok (True, b') \<and> insertHelper a1 e = Ok (True, a') \<and>
    heap_rep a' xs' \<and> heap_rep b' ys' \<and> mset xs' + mset ys' = add_mset e (mset xs + mset ys) \<and> length xs' = length xs \<and> length ys' = Suc (length ys)"
proof -
  from deleteTop_rep [OF a n(1)] obtain a1 xs1 where
    a1: "deleteTop a = Ok (xs ! 0, a1)" "heap_rep a1 xs1" "add_mset (xs ! 0) (mset xs1) = mset xs" by blast
  then have len: "length xs = Suc (length xs1)" by (metis size_add_mset size_mset)
  from insertHelper_mset [OF b n(2), of "xs ! 0"] obtain b' ys' where
    b': "insertHelper b (xs ! 0) = Ok (True, b')" "heap_rep b' ys'" "mset ys' = add_mset (xs ! 0) (mset ys)" by blast
  from insertHelper_mset [OF a1(2), of e] len n obtain a' xs' where
    a': "insertHelper a1 e = Ok (True, a')" "heap_rep a' xs'" "mset xs' = add_mset e (mset xs1)" by auto
  have "length ys' = Suc (length ys)" "length xs' = length xs" using b'(3) a'(3) len by (metis size_add_mset size_mset)+
  with a1 b' a' show ?thesis
    by (intro exI [of _ a1] exI [of _ b'] exI [of _ a'] exI [of _ xs'] exI [of _ ys']) (simp add: a1(3) [symmetric])
qed

lemma put_ok:
  assumes "heap_rep h xs" and "length xs < 128"
  shows "\<exists>h' ys. insertHelper h k = Ok (True, h') \<and> heap_rep h' ys \<and> mset ys = add_mset k (mset xs) \<and> length ys = Suc (length xs)"
  using insertHelper_mset [OF assms, of k] by (metis size_add_mset size_mset)

text \<open>After an element has been stored, the median exists and the invariant holds.\<close>

lemma averaged_inv:
  assumes "heap_rep l xs" and "heap_rep r ys" and "mset xs + mset ys = seen" and "xs \<noteq> []" and "length xs = length ys" and "\<forall>e \<in># seen. small e"
  shows "\<exists>m. averaged (l, r) = Ok (m, l, r) \<and> median_inv l r seen"
proof -
  have "set xs \<union> set ys = set_mset seen" using assms(3) by (metis set_mset_mset set_mset_union)
  then have "\<forall>e \<in> set xs \<union> set ys. small e" using assms(6) by simp
  with averaged_ok [OF assms(1,2,4)] assms(4,5) median_invI [OF assms(1-3)] show ?thesis by fastforce
qed

lemma getMedian_left:
  assumes l: "heap_rep l xs" and r: "heap_rep r ys" and n: "length xs = Suc (length ys)" "length ys < 128"
    and s: "\<forall>x \<in># add_mset e (mset xs + mset ys). small x"
  shows "\<exists>m' l' r'. getMedian e m l r = Ok (m', l', r') \<and> median_inv l' r' (add_mset e (mset xs + mset ys))"
proof -
  have sig: "Signum (count_heap l) (count_heap r) = 1" using count_rep [OF l] count_rep [OF r] n by (simp add: Signum_def)
  show ?thesis
  proof (cases "e < m")
    case True
    from move_ok [OF l r n, of e] obtain l1 r' l' xs' ys' where
      *: "deleteTop l = Ok (xs ! 0, l1)" "insertHelper r (xs ! 0) = Ok (True, r')" "insertHelper l1 e = Ok (True, l')"
      "heap_rep l' xs'" "heap_rep r' ys'" "mset xs' + mset ys' = add_mset e (mset xs + mset ys)" "length xs' = length xs" "length ys' = Suc (length ys)"
      by blast
    from averaged_inv [OF *(4-6) _ _ s] *(7,8) n show ?thesis using sig True *(1-3) by (fastforce simp: getMedian_def averaged_def)
  next
    case False
    from put_ok [OF r n(2), of e] obtain r' ys' where
      *: "insertHelper r e = Ok (True, r')" "heap_rep r' ys'" "mset ys' = add_mset e (mset ys)" "length ys' = Suc (length ys)" by blast
    from averaged_inv [OF l *(2) _ _ _ s] *(3,4) n show ?thesis using sig False *(1) by (fastforce simp: getMedian_def averaged_def)
  qed
qed

lemma getMedian_right:
  assumes l: "heap_rep l xs" and r: "heap_rep r ys" and n: "length ys = Suc (length xs)" "length xs < 128"
    and s: "\<forall>x \<in># add_mset e (mset xs + mset ys). small x"
  shows "\<exists>m' l' r'. getMedian e m l r = Ok (m', l', r') \<and> median_inv l' r' (add_mset e (mset xs + mset ys))"
proof -
  have sig: "Signum (count_heap l) (count_heap r) = - 1" using count_rep [OF l] count_rep [OF r] n by (simp add: Signum_def)
  show ?thesis
  proof (cases "e < m")
    case True
    from put_ok [OF l n(2), of e] obtain l' xs' where
      *: "insertHelper l e = Ok (True, l')" "heap_rep l' xs'" "mset xs' = add_mset e (mset xs)" "length xs' = Suc (length xs)" by blast
    from averaged_inv [OF *(2) r _ _ _ s] *(3,4) n show ?thesis using sig True *(1) by (fastforce simp: getMedian_def averaged_def)
  next
    case False
    from move_ok [OF r l n, of e] obtain r1 l' r' ys' xs' where
      *: "deleteTop r = Ok (ys ! 0, r1)" "insertHelper l (ys ! 0) = Ok (True, l')" "insertHelper r1 e = Ok (True, r')"
      "heap_rep r' ys'" "heap_rep l' xs'" "mset ys' + mset xs' = add_mset e (mset ys + mset xs)" "length ys' = length ys" "length xs' = Suc (length xs)"
      by blast
    have "mset xs' + mset ys' = add_mset e (mset xs + mset ys)" using *(6) by (simp add: add.commute)
    from averaged_inv [OF *(5,4) this _ _ s] *(7,8) n show ?thesis using sig False *(1-3) by (fastforce simp: getMedian_def averaged_def)
  qed
qed

lemma getMedian_equal:
  assumes l: "heap_rep l xs" and r: "heap_rep r ys" and n: "length ys = length xs" "length xs < 128"
  shows "\<exists>m' l' r'. getMedian e m l r = Ok (m', l', r') \<and> median_inv l' r' (add_mset e (mset xs + mset ys))"
proof -
  have sig: "Signum (count_heap l) (count_heap r) = 0" using count_rep [OF l] count_rep [OF r] n by (simp add: Signum_def)
  show ?thesis
  proof (cases "e < m")
    case True
    from put_ok [OF l n(2), of e] obtain l' xs' where
      *: "insertHelper l e = Ok (True, l')" "heap_rep l' xs'" "mset xs' = add_mset e (mset xs)" "length xs' = Suc (length xs)" by blast
    have "median_inv l' r (add_mset e (mset xs + mset ys))" by (rule median_invI [OF *(2) r]) (use *(3,4) n in auto)
    moreover have "xs' \<noteq> []" using *(4) by auto
    ultimately show ?thesis using sig True *(1) top_rep [OF *(2)] by (simp add: getMedian_def)
  next
    case False
    from put_ok [OF r, of e] n obtain r' ys' where
      *: "insertHelper r e = Ok (True, r')" "heap_rep r' ys'" "mset ys' = add_mset e (mset ys)" "length ys' = Suc (length ys)" by auto
    have "median_inv l r' (add_mset e (mset xs + mset ys))" by (rule median_invI [OF l *(2)]) (use *(3,4) n in auto)
    moreover have "ys' \<noteq> []" using *(4) by auto
    ultimately show ?thesis using sig False *(1) top_rep [OF *(2)] by (simp add: getMedian_def)
  qed
qed


section \<open>Properties\<close>

text \<open>An insertion into a heap, whichever the comparison of the class, keeps the heap order and adds the element, as long as there
  are fewer than 128; the top is then an extreme element: no other element comes before it.\<close>

theorem heap_insert_correct:
  assumes "heap_rep h xs" and "comp h = Greater \<or> comp h = Smaller" and "heap_order (comp h) xs" and "length xs < 128"
  shows "\<exists>h' ys. insertHelper h k = Ok (True, h') \<and> heap_rep h' ys \<and> comp h' = comp h \<and> heap_order (comp h) ys \<and>
    mset ys = add_mset k (mset xs) \<and> (\<exists>t. top h' = Ok t \<and> t \<in> set ys \<and> (\<forall>y \<in> set ys. \<not> comp h y t))"
proof -
  have c: "comparison (comp h)" using assms(2) max_heap.comparison_axioms min_heap.comparison_axioms by auto
  let ?ys = "sift (comp h) (xs @ [k]) (length xs)"
  from insertHelper_rep [OF assms(1,4), of k] obtain h' where h': "insertHelper h k = Ok (True, h')" "heap_rep h' ?ys" "comp h' = comp h" by blast
  have o: "heap_order (comp h) ?ys" by (rule comparison.sift_snoc [OF c assms(3)])
  have m: "mset ?ys = add_mset k (mset xs)" "?ys \<noteq> []" using sift_mset [of "length xs" "xs @ [k]" "comp h"] by auto
  have "\<not> comp h y (?ys ! 0)" if "y \<in> set ?ys" for y
    using that comparison.top_extreme [OF c o] by (auto simp: in_set_conv_nth)
  then show ?thesis using h' o m top_rep [OF h'(2) m(2)] by (intro exI [of _ h'] exI [of _ ?ys]) auto
qed

theorem heap_insert_correct_witness:
  "\<exists>h' ys. insertHelper MinHeap 7 = Ok (True, h') \<and> heap_rep h' ys \<and> mset ys = {#7#} \<and> (\<exists>t. top h' = Ok t \<and> t \<in> set ys)"
proof -
  have "heap_rep MinHeap []" "comp MinHeap = Smaller" by (simp_all add: heap_rep_def MinHeap_def MAX_HEAP_SIZE_def)
  with heap_insert_correct [of MinHeap "[]" 7] show ?thesis by (auto simp: heap_order_def)
qed

text \<open>No element is lost. For at most 256 elements whose sums fit an \<open>int\<close>, each call of \<open>getMedian\<close> returns; the two heaps hold
  exactly the elements seen so far, and their sizes differ by at most one.\<close>

theorem median_keeps_elements:
  assumes "median_inv l r seen" and "size seen < 256" and "\<forall>x \<in># add_mset e seen. small x"
  shows "\<exists>m' l' r'. getMedian e m l r = Ok (m', l', r') \<and> median_inv l' r' (add_mset e seen)"
proof -
  from assms(1) obtain xs ys where x: "heap_rep l xs" "heap_rep r ys" "mset xs + mset ys = seen" "length xs \<le> Suc (length ys)" "length ys \<le> Suc (length xs)"
    by (auto simp: median_inv_def)
  have n: "length xs + length ys < 256" using assms(2) x(3) by (metis size_mset size_union)
  consider "length xs = Suc (length ys)" | "length ys = Suc (length xs)" | "length ys = length xs" using x(4,5) by linarith
  then show ?thesis
  proof cases
    case 1
    with getMedian_left [OF x(1,2), of e m] n assms(3) x(3) show ?thesis by auto
  next
    case 2
    with getMedian_right [OF x(1,2), of e m] n assms(3) x(3) show ?thesis by auto
  next
    case 3
    with getMedian_equal [OF x(1,2), of e m] n x(3) show ?thesis by auto
  qed
qed

theorem median_keeps_elements_witness:
  "\<exists>m' l' r'. getMedian 5 0 MaxHeap MinHeap = Ok (m', l', r') \<and> median_inv l' r' {#5#}"
proof -
  have "heap_rep MaxHeap []" "heap_rep MinHeap []" by (simp_all add: heap_rep_def MaxHeap_def MinHeap_def MAX_HEAP_SIZE_def)
  then have "median_inv MaxHeap MinHeap {#}" by (intro median_invI [of _ "[]" _ "[]"]) auto
  from median_keeps_elements [OF this, of 5 0] show ?thesis by (simp add: small_def)
qed

text \<open>The capacity test lets a 129th element through, which is stored behind the array.\<close>

lemma heap_capacity_off_by_one:
  assumes "heap_rep h xs" and "length xs = 128"
  shows "insertHelper h k = Fault OutOfBounds"
  using assms by (rule insertHelper_full)

text \<open>The median of a list: the middle element, or the average of the two in the middle.\<close>

definition median :: "int list \<Rightarrow> int" where
  "median xs = (let s = sort xs; n = length xs in if odd n then s ! (n div 2) else (s ! (n div 2 - 1) + s ! (n div 2)) sdiv 2)"

text \<open>The median is wrong, because \<open>deleteTop\<close> does not restore the order below the root: for the elements 1 to 9 in
  order, the sixth, the seventh and the ninth value printed are not the median.\<close>

theorem median_wrong:
  "printMedian [1, 2, 3, 4, 5, 6, 7, 8, 9] = Ok [1, 1, 2, 2, 3, 4, 5, 4, 4] \<and>
   map (\<lambda>n. median (take n [1, 2, 3, 4, 5, 6, 7, 8, 9])) [1..<10] = [1, 1, 2, 2, 3, 3, 4, 4, 5]"
  by code_simp

end
