(* ===== verification/AVL_Tree.thy ===== *)
theory AVL_Tree
  imports Outcome
begin

text \<open>
  The AVL tree of \<open>AVL.cpp\<close>. The functions take a tree and return the tree that replaces it, so a tree is a value: the empty
  pointer or a node with its key, its children and the height stored in it. Whether \<open>malloc\<close> succeeds is an
  argument. An insertion keeps the search order and adds the key; but \<open>rightRotate\<close> computes the heights in
  the wrong order, so that the tree does not stay balanced.
\<close>

section \<open>The tree\<close>

datatype avl = NUL | Nd avl int int avl

fun height :: "avl \<Rightarrow> int" where
  "height NUL = 0"
| "height (Nd l k h r) = h"

definition newNode :: "bool \<Rightarrow> int \<Rightarrow> avl res" where
  "newNode mem key = (if mem then Ok (Nd NUL key 1 NUL) else Fault NullDeref)"

text \<open>The height of \<open>y\<close> is computed first, from the height that \<open>z\<close> had before the rotation.\<close>

fun rightRotate :: "avl \<Rightarrow> avl res" where
  "rightRotate (Nd (Nd yl y yh t3) z zh zr) =
     Ok (Nd yl y (max (height yl) zh + 1) (Nd t3 z (max (height t3) (height zr) + 1) zr))"
| "rightRotate _ = Fault NullDeref"

fun leftRotate :: "avl \<Rightarrow> avl res" where
  "leftRotate (Nd zl z zh (Nd t2 y yh yr)) =
     (let zh' = max (height zl) (height t2) + 1 in Ok (Nd (Nd zl z zh' t2) y (max zh' (height yr) + 1) yr))"
| "leftRotate _ = Fault NullDeref"

fun getBalance :: "avl \<Rightarrow> int" where
  "getBalance NUL = 0"
| "getBalance (Nd l k h r) = height l - height r"

fun key_of :: "avl \<Rightarrow> int res" where
  "key_of NUL = Fault NullDeref"
| "key_of (Nd l k h r) = Ok k"

text \<open>A test of the balance and, if it holds, a comparison with the key of a child.\<close>

definition test :: "bool \<Rightarrow> (int \<Rightarrow> bool) \<Rightarrow> avl \<Rightarrow> bool res" where
  "test b c t = (if b then obind (key_of t) (\<lambda>k. Ok (c k)) else Ok False)"

text \<open>Steps 2 and 3 of the insertion, for a node with the children \<open>l\<close> and \<open>r\<close>.\<close>

definition rebalance :: "int \<Rightarrow> avl \<Rightarrow> int \<Rightarrow> avl \<Rightarrow> avl res" where
  "rebalance key l k r =
     (let h = max (height l) (height r) + 1; n = Nd l k h r; balance = getBalance n in
      obind (test (balance > 1) (\<lambda>lk. key < lk) l) (\<lambda>ll. if ll then rightRotate n
      else obind (test (balance < - 1) (\<lambda>rk. key > rk) r) (\<lambda>rr. if rr then leftRotate n
      else obind (test (balance > 1) (\<lambda>lk. key > lk) l) (\<lambda>lr. if lr then obind (leftRotate l) (\<lambda>l. rightRotate (Nd l k h r))
      else obind (test (balance < - 1) (\<lambda>rk. key < rk) r) (\<lambda>rl. if rl then obind (rightRotate r) (\<lambda>r. leftRotate (Nd l k h r))
      else Ok n)))))"

fun insert_avl :: "bool \<Rightarrow> avl \<Rightarrow> int \<Rightarrow> avl res" where
  "insert_avl mem NUL key = newNode mem key"
| "insert_avl mem (Nd l k h r) key =
     (if key < k then obind (insert_avl mem l key) (\<lambda>l. rebalance key l k r)
      else obind (insert_avl mem r key) (\<lambda>r. rebalance key l k r))"

text \<open>The keys in the order printed.\<close>

fun preOrder :: "avl \<Rightarrow> int list" where
  "preOrder NUL = []"
| "preOrder (Nd l k h r) = k # preOrder l @ preOrder r"

fun inserts_avl :: "int list \<Rightarrow> avl \<Rightarrow> avl res" where
  "inserts_avl [] t = Ok t"
| "inserts_avl (k # ks) t = obind (insert_avl True t k) (inserts_avl ks)"

definition main_avl :: "int list res" where
  "main_avl = obind (inserts_avl [10, 20, 30, 40, 50, 25] NUL) (\<lambda>t. Ok (preOrder t))"

section \<open>Search order\<close>

fun inorder_avl :: "avl \<Rightarrow> int list" where
  "inorder_avl NUL = []"
| "inorder_avl (Nd l k h r) = inorder_avl l @ k # inorder_avl r"

text \<open>A result with the given keys in order, or a dereferenced null pointer.\<close>

definition keeps :: "avl res \<Rightarrow> int list \<Rightarrow> bool" where
  "keeps res ks \<longleftrightarrow> res = Fault NullDeref \<or> (\<exists>t. res = Ok t \<and> inorder_avl t = ks)"

lemma keepsI: "inorder_avl t = ks \<Longrightarrow> keeps (Ok t) ks"
  by (simp add: keeps_def)

lemma rotate_keeps: "keeps (rightRotate t) (inorder_avl t)" "keeps (leftRotate t) (inorder_avl t)"
  by (cases t rule: rightRotate.cases; simp add: keeps_def) (cases t rule: leftRotate.cases; simp add: keeps_def Let_def)

lemma keeps_bind:
  assumes "keeps m ks" and "\<And>t. inorder_avl t = ks \<Longrightarrow> keeps (f t) ks'"
  shows "keeps (obind m f) ks'"
  using assms by (cases m) (auto simp: keeps_def)

lemma test_outcome: "test b c t = Fault NullDeref \<or> (\<exists>x. test b c t = Ok x)"
  by (cases t) (auto simp: test_def)

lemma keeps_test: "(\<And>x. keeps (f x) ks) \<Longrightarrow> keeps (obind (test b c t) f) ks"
  using test_outcome [of b c t] by (metis keeps_def obind.simps(1,2))

lemma rebalance_keeps: "keeps (rebalance key l k r) (inorder_avl l @ k # inorder_avl r)"
proof -
  let ?ks = "inorder_avl l @ k # inorder_avl r"
  have n: "inorder_avl (Nd l k h r) = ?ks" for h by simp
  have "keeps (obind (leftRotate l) (\<lambda>l. rightRotate (Nd l k h r))) ?ks" for h
    by (rule keeps_bind [OF rotate_keeps(2)]) (metis inorder_avl.simps(2) rotate_keeps(1))
  moreover have "keeps (obind (rightRotate r) (\<lambda>r. leftRotate (Nd l k h r))) ?ks" for h
    by (rule keeps_bind [OF rotate_keeps(1)]) (metis inorder_avl.simps(2) rotate_keeps(2))
  moreover have "keeps (rightRotate (Nd l k h r)) ?ks" "keeps (leftRotate (Nd l k h r)) ?ks" for h
    using rotate_keeps [of "Nd l k h r"] by simp_all
  ultimately show ?thesis by (auto simp: rebalance_def Let_def intro!: keeps_test keepsI)
qed

lemma insort_left: "key < k \<Longrightarrow> sorted (xs @ k # ys) \<Longrightarrow> insort key (xs @ k # ys) = insort key xs @ k # ys"
  by (induction xs) auto

lemma insort_right:
  assumes "k \<le> key" and "sorted (xs @ k # ys)"
  shows "insort key (xs @ k # ys) = xs @ k # insort key ys"
proof -
  have "sort (insort key (xs @ k # ys)) = xs @ k # insort key ys"
    by (rule properties_for_sort) (use assms in \<open>auto simp: sorted_append sorted_insort set_insort_key\<close>)
  moreover have "sorted (insort key (xs @ k # ys))" using assms(2) by (simp only: sorted_insort)
  ultimately show ?thesis by (simp add: sorted_sort_id)
qed

text \<open>An insertion never disturbs the search order: when the keys of the tree are in order, the new tree has the same keys and the new
  one, in order; the only other outcome is the dereference of a null pointer in a rotation.\<close>

theorem avl_insert_keeps_order:
  assumes "sorted (inorder_avl t)"
  shows "insert_avl True t key = Fault NullDeref \<or> (\<exists>t'. insert_avl True t key = Ok t' \<and> inorder_avl t' = insort key (inorder_avl t))"
proof -
  have "keeps (insert_avl True t key) (insort key (inorder_avl t))" using assms
  proof (induction t)
    case NUL
    show ?case by (simp add: newNode_def keeps_def)
  next
    case (Nd l k h r)
    show ?case
    proof (cases "key < k")
      case True
      have "keeps (insert_avl True l key) (insort key (inorder_avl l))" using Nd by (simp add: sorted_append)
      then have "keeps (obind (insert_avl True l key) (\<lambda>l. rebalance key l k r)) (insort key (inorder_avl l) @ k # inorder_avl r)"
        by (rule keeps_bind) (metis rebalance_keeps)
      with True Nd.prems insort_left [of key k] show ?thesis by simp
    next
      case False
      have "keeps (insert_avl True r key) (insort key (inorder_avl r))" using Nd by (simp add: sorted_append)
      then have "keeps (obind (insert_avl True r key) (\<lambda>r. rebalance key l k r)) (inorder_avl l @ k # insort key (inorder_avl r))"
        by (rule keeps_bind) (metis rebalance_keeps)
      with False Nd.prems insort_right [of k key] show ?thesis by simp
    qed
  qed
  then show ?thesis by (simp add: keeps_def)
qed

theorem avl_insert_keeps_order_witness:
  "\<exists>t'. insert_avl True (Nd NUL 10 2 (Nd NUL 20 1 NUL)) 30 = Ok t' \<and> inorder_avl t' = [10, 20, 30]"
proof -
  have "sorted (inorder_avl (Nd NUL 10 2 (Nd NUL 20 1 NUL)))" by simp
  from avl_insert_keeps_order [OF this, of 30]
  show ?thesis by (simp add: newNode_def rebalance_def test_def)
qed

text \<open>The stored heights go wrong. After the keys 30, 20 and 10 the root, of height 2, has the height 4 stored in it; and a
  sequence of nine different keys makes a rotation follow a null pointer.\<close>

theorem avl_insert_crashes:
  "inserts_avl [30, 20, 10] NUL = Ok (Nd (Nd NUL 10 1 NUL) 20 4 (Nd NUL 30 1 NUL)) \<and>
   inserts_avl [6, 9, 5, 2, 3, 7, 1, 8, 4] NUL = Fault NullDeref"
  by code_simp

text \<open>The program's own keys, and the order its comment shows.\<close>

lemma main_avl_prints: "main_avl = Ok [30, 20, 10, 25, 40, 50]"
  by code_simp

end
