(* ===== verification/Counting.thy ===== *)
theory Counting
  imports Outcome
begin

text \<open>
  The recursive and two-pointer exercises of \<open>src/computation\<close> that compute a number or a merged sequence from arrays:
  \<open>EditDistance.cpp\<close>, \<open>CoverSteps.cpp\<close>, \<open>PartitionASetIntoTwo.cpp\<close>, \<open>Triplets.cpp\<close> (\<open>countTriplets\<close>) and
  \<open>ArrayUnionAndIntersection.cpp\<close>. Each function is proved equal to what it counts: the least number of edit
  operations, the number of ways to cover a distance, the least difference of the sums of two parts, the number
  of triples below a bound, the union and the intersection of two sets. The results are mathematical integers:
  the statements are about inputs whose results fit an \<open>int\<close>.
\<close>

section \<open>Edit distance\<close>

definition min3 :: "int \<Rightarrow> int \<Rightarrow> int \<Rightarrow> int" where
  "min3 x y z = min (min x y) z"

function editDist :: "string \<Rightarrow> string \<Rightarrow> int \<Rightarrow> int \<Rightarrow> int res" where
  "editDist str1 str2 m n =
     (if m = 0 then Ok n
      else if n = 0 then Ok m
      else if m < 0 \<or> n < 0 \<or> int (length str1) < m \<or> int (length str2) < n then Fault OutOfBounds
      else if str1 ! nat (m - 1) = str2 ! nat (n - 1) then editDist str1 str2 (m - 1) (n - 1)
      else obind (editDist str1 str2 m (n - 1)) (\<lambda>a. obind (editDist str1 str2 (m - 1) n) (\<lambda>b.
        obind (editDist str1 str2 (m - 1) (n - 1)) (\<lambda>c. Ok (1 + min3 a b c)))))"
  by auto

termination
  by (relation "measure (\<lambda>(s, t, m, n). nat m + nat n)") auto

declare editDist.simps [simp del]

text \<open>One operation: insert, remove or replace a character anywhere.\<close>

inductive edit :: "'a list \<Rightarrow> 'a list \<Rightarrow> bool" where
  ins: "edit (xs @ ys) (xs @ c # ys)"
| del: "edit (xs @ c # ys) (xs @ ys)"
| rep: "edit (xs @ c # ys) (xs @ d # ys)"

inductive edits :: "nat \<Rightarrow> 'a list \<Rightarrow> 'a list \<Rightarrow> bool" where
  edits_0: "edits 0 xs xs"
| edits_Suc: "edits n xs ys \<Longrightarrow> edit ys zs \<Longrightarrow> edits (Suc n) xs zs"

text \<open>The recursion on the reversed strings.\<close>

fun dist :: "'a list \<Rightarrow> 'a list \<Rightarrow> nat" where
  "dist [] ys = length ys"
| "dist xs [] = length xs"
| "dist (x # xs) (y # ys) =
     (if x = y then dist xs ys else Suc (min (min (dist (x # xs) ys) (dist xs (y # ys))) (dist xs ys)))"

lemma dist_Nil2 [simp]: "dist xs [] = length xs"
  by (cases xs) auto

lemma editDist_dist:
  "m \<le> length s \<Longrightarrow> n \<le> length t \<Longrightarrow> editDist s t (int m) (int n) = Ok (int (dist (rev (take m s)) (rev (take n t))))"
proof (induction "m + n" arbitrary: m n rule: less_induct)
  case less
  show ?case
  proof (cases "m = 0 \<or> n = 0")
    case True
    with less.prems show ?thesis by (subst editDist.simps) auto
  next
    case False
    then obtain a b where ab: "m = Suc a" "n = Suc b" by (meson not0_implies_Suc)
    note tk = take_Suc_conv_app_nth [of a s] take_Suc_conv_app_nth [of b t]
    note ih = less.hyps [of m b] less.hyps [of a n] less.hyps [of a b]
    show ?thesis
      using ih ab less.prems tk by (subst editDist.simps) (simp add: min3_def min_def)
  qed
qed

lemma dist_near: "dist xs (c # ys) \<le> Suc (dist xs ys)" "dist xs ys \<le> Suc (dist (c # xs) ys)"
proof (induction "length xs + length ys" arbitrary: xs ys c rule: less_induct)
  case less
  { case 1
    show ?case
    proof (cases xs)
      case (Cons x xs')
      with less(2) [of xs' ys x] show ?thesis by auto
    qed simp
  next
    case 2
    show ?case
    proof (cases ys)
      case (Cons y ys')
      with less(1) [of xs ys' y] less(2) [of xs ys' c] show ?thesis by (auto simp: min_def)
    qed simp }
qed

lemma dist_sym: "dist xs ys = dist ys xs"
  by (induction xs ys rule: dist.induct) (auto simp: min_def)

lemma dist_replace: "dist xs (e # ys) \<le> Suc (dist xs (c # ys))"
proof (induction xs)
  case (Cons x xs)
  have "dist xs ys \<le> Suc (dist (x # xs) ys)" "dist xs ys \<le> Suc (dist xs (c # ys))"
    using dist_near(2) [of xs ys x] dist_near(2) [of ys xs c] dist_sym by metis+
  with Cons show ?case by (auto simp: min_def)
qed simp

lemma dist_prefix:
  assumes "\<And>xs. dist xs zs \<le> Suc (dist xs ys)"
  shows "dist xs (ps @ zs) \<le> Suc (dist xs (ps @ ys))"
proof (induction ps arbitrary: xs)
  case Nil
  show ?case using assms by simp
next
  case (Cons p ps)
  show ?case
  proof (induction xs)
    case Nil
    show ?case using Cons.IH [of "[]"] by simp
  next
    case (Cons x xs)
    with \<open>\<And>xs. dist xs (ps @ zs) \<le> Suc (dist xs (ps @ ys))\<close> [of "x # xs"] \<open>\<And>xs. dist xs (ps @ zs) \<le> Suc (dist xs (ps @ ys))\<close> [of xs]
    show ?case by (auto simp: min_def)
  qed
qed

lemma dist_edit: "edit ys zs \<Longrightarrow> dist xs zs \<le> Suc (dist xs ys)"
proof (induction rule: edit.induct)
  case (ins ps ys c)
  show ?case by (rule dist_prefix) (rule dist_near)
next
  case (del ps c ys)
  show ?case by (rule dist_prefix) (metis dist_near(2) dist_sym)
next
  case (rep ps c ys d)
  show ?case by (rule dist_prefix) (rule dist_replace)
qed

lemma dist_refl [simp]: "dist xs xs = 0"
  by (induction xs) auto

lemma dist_least: "edits n xs ys \<Longrightarrow> dist xs ys \<le> n"
proof (induction rule: edits.induct)
  case (edits_Suc n xs ys zs)
  with dist_edit [of ys zs xs] show ?case by simp
qed simp

lemma edit_Cons: "edit xs ys \<Longrightarrow> edit (p # xs) (p # ys)"
  by (induction rule: edit.induct) (metis append_Cons edit.intros)+

lemma edits_Cons: "edits n xs ys \<Longrightarrow> edits n (p # xs) (p # ys)"
  by (induction rule: edits.induct) (auto intro: edits.intros edit_Cons)

lemma edits_first: "edit xs ys \<Longrightarrow> edits n ys zs \<Longrightarrow> edits (Suc n) xs zs"
  by (rotate_tac, induction rule: edits.induct) (auto intro: edits.intros)

lemma edit_here: "edit xs (c # xs)" "edit (c # xs) xs" "edit (c # xs) (d # xs)"
  using edit.intros [where xs = "[]"] by auto

lemma edits_dist: "edits (dist xs ys) xs ys"
proof (induction xs ys rule: dist.induct)
  case (1 ys)
  show ?case by (induction ys) (auto intro: edits_0 edits_Suc edit_here)
next
  case (2 x xs)
  have "edits (length zs) zs []" for zs :: "'a list"
    by (induction zs) (auto intro: edits_0 edits_first edit_here)
  from this [of "x # xs"] show ?case by simp
next
  case (3 x xs y ys)
  show ?case
  proof (cases "x = y")
    case True
    with 3 show ?thesis by (simp add: edits_Cons)
  next
    case False
    have "edits (Suc (dist (x # xs) ys)) (x # xs) (y # ys)" "edits (Suc (dist xs (y # ys))) (x # xs) (y # ys)"
      "edits (Suc (dist xs ys)) (x # xs) (y # ys)"
      using 3(2-4) [OF False] by (auto intro: edits_Suc edits_first edit_here edits_Cons)
    with False show ?thesis by (auto simp: min_def)
  qed
qed

lemma edit_rev: "edit xs ys \<Longrightarrow> edit (rev xs) (rev ys)"
proof (induction rule: edit.induct)
  case (ins xs ys c)
  show ?case using edit.ins [of "rev ys" "rev xs" c] by simp
next
  case (del xs c ys)
  show ?case using edit.del [of "rev ys" c "rev xs"] by simp
next
  case (rep xs c ys d)
  show ?case using edit.rep [of "rev ys" c "rev xs" d] by simp
qed

lemma edits_rev: "edits n xs ys \<Longrightarrow> edits n (rev xs) (rev ys)"
  by (induction rule: edits.induct) (auto intro: edits.intros edit_rev)

text \<open>C37: \<open>editDist\<close> returns the least number of insertions, removals and replacements of a character that turn the first string
  into the second.\<close>

theorem editDist_least:
  "\<exists>d. editDist s t (int (length s)) (int (length t)) = Ok (int d) \<and> edits d s t \<and> (\<forall>n. edits n s t \<longrightarrow> d \<le> n)"
proof -
  let ?d = "dist (rev s) (rev t)"
  have "editDist s t (int (length s)) (int (length t)) = Ok (int ?d)" using editDist_dist [of "length s" s "length t" t] by simp
  moreover have "edits ?d s t" using edits_rev [OF edits_dist [of "rev s" "rev t"]] by simp
  moreover have "?d \<le> n" if "edits n s t" for n using dist_least [OF edits_rev [OF that]] .
  ultimately show ?thesis by blast
qed

theorem editDist_least_witness: "\<exists>d. editDist ''sunday'' ''saturday'' 6 8 = Ok (int d) \<and> edits d ''sunday'' ''saturday''"
  using editDist_least [of "''sunday''" "''saturday''"] by auto

section \<open>Ways to cover a distance\<close>

function printCountRec :: "int \<Rightarrow> int" where
  "printCountRec d =
     (if d < 0 then 0 else if d = 0 then 1
      else printCountRec (d - 1) + printCountRec (d - 2) + printCountRec (d - 3))"
  by auto

termination
  by (relation "measure (\<lambda>d. nat (d + 3))") auto

declare printCountRec.simps [simp del]

text \<open>A way is a sequence of steps of 1, 2 or 3.\<close>

definition ways :: "int \<Rightarrow> int list set" where
  "ways d = {xs. set xs \<subseteq> {1, 2, 3} \<and> sum_list xs = d}"

lemma steps_sum: "set xs \<subseteq> {1, 2, 3 :: int} \<Longrightarrow> int (length xs) \<le> sum_list xs"
  by (induction xs) auto

lemma ways_neg: "d < 0 \<Longrightarrow> ways d = {}"
  using steps_sum by (fastforce simp: ways_def)

lemma ways_0: "ways 0 = {[]}"
proof -
  have "xs = []" if "set xs \<subseteq> {1, 2, 3}" "sum_list xs = 0" for xs :: "int list" using steps_sum [OF that(1)] that(2) by simp
  then show ?thesis by (auto simp: ways_def)
qed

lemma ways_step: "0 < d \<Longrightarrow> ways d = Cons 1 ` ways (d - 1) \<union> Cons 2 ` ways (d - 2) \<union> Cons 3 ` ways (d - 3)"
proof (intro equalityI subsetI)
  fix xs assume "0 < d" "xs \<in> ways d"
  then show "xs \<in> Cons 1 ` ways (d - 1) \<union> Cons 2 ` ways (d - 2) \<union> Cons 3 ` ways (d - 3)" by (cases xs) (auto simp: ways_def)
qed (auto simp: ways_def)

lemma finite_ways: "finite (ways d)"
proof (rule finite_subset)
  show "ways d \<subseteq> {xs. set xs \<subseteq> {1, 2, 3} \<and> length xs \<le> nat d}"
    using steps_sum by (fastforce simp: ways_def)
  show "finite {xs. set xs \<subseteq> {1, 2, 3 :: int} \<and> length xs \<le> nat d}" by (rule finite_lists_length_le) simp
qed

text \<open>\<open>printCountRec\<close> counts the ways to cover a distance with steps of 1, 2 and 3.\<close>

theorem printCountRec_counts: "printCountRec d = int (card (ways d))"
proof (induction d rule: printCountRec.induct)
  case (1 d)
  consider "d < 0" | "d = 0" | "0 < d" by linarith
  then show ?case
  proof cases
    case 1
    then show ?thesis by (simp add: ways_neg printCountRec.simps)
  next
    case 2
    then show ?thesis by (simp add: ways_0 printCountRec.simps)
  next
    case 3
    have "card (ways d) = card (Cons 1 ` ways (d - 1)) + card (Cons 2 ` ways (d - 2)) + card (Cons 3 ` ways (d - 3))"
      unfolding ways_step [OF 3] using finite_ways by (subst card_Un_disjoint; auto simp: card_Un_disjoint)+
    also have "\<dots> = card (ways (d - 1)) + card (ways (d - 2)) + card (ways (d - 3))" by (simp add: card_image)
    finally show ?thesis using 1 3 by (subst printCountRec.simps) simp
  qed
qed

section \<open>Two parts of a set\<close>

fun findMinRec :: "int list \<Rightarrow> nat \<Rightarrow> int \<Rightarrow> int \<Rightarrow> int res" where
  "findMinRec arr 0 sumCalculated sumTotal = Ok \<bar>(sumTotal - sumCalculated) - sumCalculated\<bar>"
| "findMinRec arr (Suc i) sumCalculated sumTotal =
     (if i < length arr then
        obind (findMinRec arr i (sumCalculated + arr ! i) sumTotal) (\<lambda>a. obind (findMinRec arr i sumCalculated sumTotal) (\<lambda>b. Ok (min a b)))
      else Fault OutOfBounds)"

definition findMin :: "int list \<Rightarrow> int res" where
  "findMin arr = findMinRec arr (length arr) 0 (sum_list arr)"

definition part_sum :: "int list \<Rightarrow> nat set \<Rightarrow> int" where
  "part_sum arr S = (\<Sum>i \<in> S. arr ! i)"

lemma findMinRec_ok:
  "i \<le> length arr \<Longrightarrow> \<exists>v. findMinRec arr i c t = Ok v \<and> (\<exists>S \<subseteq> {..<i}. v = \<bar>t - 2 * (c + part_sum arr S)\<bar>) \<and>
     (\<forall>S \<subseteq> {..<i}. v \<le> \<bar>t - 2 * (c + part_sum arr S)\<bar>)"
proof (induction i arbitrary: c)
  case 0
  show ?case by (simp add: part_sum_def)
next
  case (Suc i)
  let ?P = "\<lambda>v c i. (\<exists>S \<subseteq> {..<i}. v = \<bar>t - 2 * (c + part_sum arr S)\<bar>) \<and> (\<forall>S \<subseteq> {..<i}. v \<le> \<bar>t - 2 * (c + part_sum arr S)\<bar>)"
  have le: "i \<le> length arr" using Suc.prems by simp
  from Suc.IH [OF le, of "c + arr ! i"] obtain a where a: "findMinRec arr i (c + arr ! i) t = Ok a" "?P a (c + arr ! i) i" by blast
  from Suc.IH [OF le, of c] obtain b where b: "findMinRec arr i c t = Ok b" "?P b c i" by blast
  have ins: "part_sum arr (Set.insert i S) = arr ! i + part_sum arr S" if "S \<subseteq> {..<i}" for S
    using that by (subst part_sum_def, subst sum.insert) (auto simp: part_sum_def finite_subset)
  have "\<exists>S \<subseteq> {..<Suc i}. min a b = \<bar>t - 2 * (c + part_sum arr S)\<bar>"
  proof -
    from a(2) obtain S where S: "S \<subseteq> {..<i}" "a = \<bar>t - 2 * (c + arr ! i + part_sum arr S)\<bar>" by blast
    then have "a = \<bar>t - 2 * (c + part_sum arr (Set.insert i S))\<bar>" "Set.insert i S \<subseteq> {..<Suc i}" using ins by (auto simp: algebra_simps)
    moreover from b(2) obtain R where R: "R \<subseteq> {..<i}" "b = \<bar>t - 2 * (c + part_sum arr R)\<bar>" by blast
    moreover from R(1) have "R \<subseteq> {..<Suc i}" by auto
    ultimately show ?thesis by (cases "a \<le> b") (auto simp only: min_def if_True if_False)
  qed
  moreover have "min a b \<le> \<bar>t - 2 * (c + part_sum arr S)\<bar>" if S: "S \<subseteq> {..<Suc i}" for S
  proof (cases "i \<in> S")
    case True
    let ?R = "S - {i}"
    have R: "?R \<subseteq> {..<i}" "S = Set.insert i ?R" using S True by (auto simp: less_Suc_eq)
    then have "part_sum arr S = arr ! i + part_sum arr ?R" using ins by metis
    then show ?thesis using a(2) R(1) by (metis (no_types, lifting) add.assoc min.coboundedI1)
  next
    case False
    then have "S \<subseteq> {..<i}" using S by (auto simp: less_Suc_eq)
    then show ?thesis using b(2) min.coboundedI2 by blast
  qed
  ultimately show ?case using a(1) b(1) Suc.prems by auto
qed

text \<open>\<open>findMin\<close> returns the least difference between the sums of two parts of the array: some choice of positions for one part
  attains it, and none does better.\<close>

theorem findMin_least:
  "\<exists>v. findMin arr = Ok v \<and> (\<exists>S \<subseteq> {..<length arr}. v = \<bar>part_sum arr ({..<length arr} - S) - part_sum arr S\<bar>) \<and>
     (\<forall>S \<subseteq> {..<length arr}. v \<le> \<bar>part_sum arr ({..<length arr} - S) - part_sum arr S\<bar>)"
proof -
  have "part_sum arr ({..<length arr} - S) - part_sum arr S = sum_list arr - 2 * (0 + part_sum arr S)" if "S \<subseteq> {..<length arr}" for S
    using that by (simp add: part_sum_def sum_diff sum_list_sum_nth atLeast0LessThan)
  then show ?thesis using findMinRec_ok [of "length arr" arr 0 "sum_list arr"] unfolding findMin_def by (metis (no_types, lifting) le_refl)
qed

theorem findMin_least_witness:
  "\<exists>v. findMin [3, 1, 4, 2, 2, 1] = Ok v \<and> v \<le> \<bar>part_sum [3, 1, 4, 2, 2, 1] ({..<6} - {0}) - part_sum [3, 1, 4, 2, 2, 1] {0}\<bar>"
proof -
  let ?a = "[3, 1, 4, 2, 2, 1 :: int]"
  have s: "{0} \<subseteq> {..<length ?a}" and l: "length ?a = 6" by simp_all
  from findMin_least [of ?a] obtain v where "findMin ?a = Ok v"
    and le: "\<forall>S \<subseteq> {..<length ?a}. v \<le> \<bar>part_sum ?a ({..<length ?a} - S) - part_sum ?a S\<bar>" by (elim exE conjE) (rule that)
  moreover from le [rule_format, OF s] have "v \<le> \<bar>part_sum ?a ({..<6} - {0}) - part_sum ?a {0}\<bar>" unfolding l .
  ultimately show ?thesis by blast
qed

section \<open>Triples below a bound\<close>

text \<open>The inner loop: \<open>j\<close> and \<open>k\<close> move towards each other.\<close>

function triplet_loop :: "int list \<Rightarrow> nat \<Rightarrow> nat \<Rightarrow> nat \<Rightarrow> int \<Rightarrow> int \<Rightarrow> int" where
  "triplet_loop arr i j k bound ans =
     (if j < k then
        if arr ! i + arr ! j + arr ! k \<ge> bound then triplet_loop arr i j (k - 1) bound ans
        else triplet_loop arr i (j + 1) k bound (ans + int (k - j))
      else ans)"
  by auto

termination
  by (relation "measure (\<lambda>(arr, i, j, k, bound, ans). k - j)") auto

declare triplet_loop.simps [simp del]

text \<open>The outer loop, over \<open>i < n - 2\<close>.\<close>

fun triplet_rows :: "int list \<Rightarrow> nat list \<Rightarrow> int \<Rightarrow> int \<Rightarrow> int" where
  "triplet_rows arr [] bound ans = ans"
| "triplet_rows arr (i # is) bound ans = triplet_rows arr is bound (triplet_loop arr i (i + 1) (length arr - 1) bound ans)"

definition countTriplets :: "int list \<Rightarrow> int \<Rightarrow> int" where
  "countTriplets arr bound = (let arr = sort arr in triplet_rows arr [0..<length arr - 2] bound 0)"

definition pairs :: "int list \<Rightarrow> nat \<Rightarrow> int \<Rightarrow> nat \<Rightarrow> nat \<Rightarrow> (nat \<times> nat) set" where
  "pairs arr i bound j k = {(p, q). j \<le> p \<and> p < q \<and> q \<le> k \<and> arr ! i + arr ! p + arr ! q < bound}"

lemma finite_pairs: "finite (pairs arr i bound j k)"
  by (rule finite_subset [of _ "{..k} \<times> {..k}"]) (auto simp: pairs_def)

lemma pairs_shrink:
  assumes s: "sorted arr" "k < length arr" and j: "j < k" and ge: "bound \<le> arr ! i + arr ! j + arr ! k"
  shows "pairs arr i bound j k = pairs arr i bound j (k - 1)"
proof -
  have "arr ! j \<le> arr ! p" if "j \<le> p" "p < k" for p using that s by (intro sorted_nth_mono) auto
  with ge have "\<not> (arr ! i + arr ! p + arr ! k < bound)" if "j \<le> p" "p < k" for p using that by force
  then have "q \<le> k - 1" if "(p, q) \<in> pairs arr i bound j k" for p q using that by (cases "q = k") (auto simp: pairs_def)
  then show ?thesis by (auto simp: pairs_def)
qed

lemma pairs_split:
  assumes s: "sorted arr" "k < length arr" and j: "j < k" and lt: "arr ! i + arr ! j + arr ! k < bound"
  shows "card (pairs arr i bound j k) = (k - j) + card (pairs arr i bound (Suc j) k)"
proof -
  have "arr ! q \<le> arr ! k" if "q \<le> k" for q using that s by (intro sorted_nth_mono) auto
  then have "arr ! i + arr ! j + arr ! q < bound" if "q \<le> k" for q using that lt by force
  then have "pairs arr i bound j k = Pair j ` {j<..k} \<union> pairs arr i bound (Suc j) k"
    by (auto simp: pairs_def image_iff Suc_le_eq order_le_less)
  moreover have "Pair j ` {j<..k} \<inter> pairs arr i bound (Suc j) k = {}" by (auto simp: pairs_def)
  ultimately show ?thesis using finite_pairs by (simp add: card_Un_disjoint card_image inj_on_def)
qed

lemma triplet_loop_counts:
  "sorted arr \<Longrightarrow> k < length arr \<Longrightarrow> triplet_loop arr i j k bound ans = ans + int (card (pairs arr i bound j k))"
proof (induction arr i j k bound ans rule: triplet_loop.induct)
  case (1 arr i j k bound ans)
  show ?case
  proof (cases "j < k")
    case True
    show ?thesis
    proof (cases "bound \<le> arr ! i + arr ! j + arr ! k")
      case le: True
      with True 1 pairs_shrink [OF 1(3,4) True le] show ?thesis by (subst triplet_loop.simps) simp
    next
      case False
      with True 1 pairs_split [OF 1(3,4) True] show ?thesis by (subst triplet_loop.simps) simp
    qed
  next
    case False
    then have "pairs arr i bound j k = {}" by (auto simp: pairs_def)
    with False show ?thesis by (subst triplet_loop.simps) simp
  qed
qed

lemma triplet_rows_counts:
  assumes "sorted arr" and "arr \<noteq> []"
  shows "triplet_rows arr is bound ans = ans + (\<Sum>i \<leftarrow> is. int (card (pairs arr i bound (i + 1) (length arr - 1))))"
  by (induction "is" arbitrary: ans) (use assms in \<open>auto simp: triplet_loop_counts\<close>)

definition triples :: "int list \<Rightarrow> int \<Rightarrow> (nat \<times> nat \<times> nat) set" where
  "triples arr bound = {(i, p, q). i < p \<and> p < q \<and> q < length arr \<and> arr ! i + arr ! p + arr ! q < bound}"

lemma triples_rows: "card (triples arr bound) = (\<Sum>i \<in> {0..<length arr - 2}. card (pairs arr i bound (i + 1) (length arr - 1)))"
proof -
  have "triples arr bound = (SIGMA i : {0..<length arr - 2}. pairs arr i bound (i + 1) (length arr - 1))"
    by (auto simp: triples_def pairs_def)
  then show ?thesis by (simp add: finite_pairs)
qed

text \<open>\<open>countTriplets\<close> counts the triples of positions of the sorted array whose elements add up to less than the bound.\<close>

theorem countTriplets_counts: "countTriplets arr bound = int (card (triples (sort arr) bound))"
proof (cases "arr = []")
  case True
  moreover have "triples [] bound = {}" by (auto simp: triples_def)
  ultimately show ?thesis by (simp add: countTriplets_def)
next
  case False
  then have "sort arr \<noteq> []" by (metis length_0_conv length_sort)
  with triplet_rows_counts [of "sort arr" "[0..<length arr - 2]" bound 0] show ?thesis
    by (simp add: countTriplets_def triples_rows sum_list_distinct_conv_sum_set)
qed

section \<open>Union and intersection\<close>

text \<open>The numbers printed, over what is left of the two arrays.\<close>

fun printUnion :: "int list \<Rightarrow> int list \<Rightarrow> int list" where
  "printUnion (x # xs) (y # ys) =
     (if x < y then x # printUnion xs (y # ys)
      else if y < x then y # printUnion (x # xs) ys
      else y # printUnion xs ys)"
| "printUnion xs [] = xs"
| "printUnion [] ys = ys"

fun printIntersection :: "int list \<Rightarrow> int list \<Rightarrow> int list" where
  "printIntersection (x # xs) (y # ys) =
     (if x < y then printIntersection xs (y # ys)
      else if y < x then printIntersection (x # xs) ys
      else y # printIntersection xs ys)"
| "printIntersection _ _ = []"

lemma set_printUnion: "set (printUnion xs ys) = set xs \<union> set ys"
  by (induction xs ys rule: printUnion.induct) auto

lemma sorted_printUnion: "sorted_wrt (<) xs \<Longrightarrow> sorted_wrt (<) ys \<Longrightarrow> sorted_wrt (<) (printUnion xs ys)"
  by (induction xs ys rule: printUnion.induct) (auto simp: set_printUnion)

lemma set_printIntersection: "sorted_wrt (<) xs \<Longrightarrow> sorted_wrt (<) ys \<Longrightarrow> set (printIntersection xs ys) = set xs \<inter> set ys"
  by (induction xs ys rule: printIntersection.induct) (auto dest: order_less_asym)

lemma sorted_printIntersection: "sorted_wrt (<) xs \<Longrightarrow> sorted_wrt (<) ys \<Longrightarrow> sorted_wrt (<) (printIntersection xs ys)"
  by (induction xs ys rule: printIntersection.induct) (auto simp: set_printIntersection)

text \<open>For arrays in ascending order without repetitions the two functions print the union and the intersection of the sets, in ascending
  order and without repetitions.\<close>

theorem print_union_intersection:
  assumes "sorted_wrt (<) arr1" and "sorted_wrt (<) arr2"
  shows "printUnion arr1 arr2 = sorted_list_of_set (set arr1 \<union> set arr2) \<and>
    printIntersection arr1 arr2 = sorted_list_of_set (set arr1 \<inter> set arr2)"
proof -
  have "xs = sorted_list_of_set (set xs)" if "sorted_wrt (<) xs" for xs :: "int list"
    using that by (simp add: sorted_list_of_set_sort_remdups strict_sorted_iff distinct_remdups_id sorted_sort_id)
  from this [OF sorted_printUnion [OF assms]] this [OF sorted_printIntersection [OF assms]]
  show ?thesis by (simp add: set_printUnion set_printIntersection [OF assms])
qed

theorem print_union_intersection_witness:
  "printUnion [1, 2, 4, 5, 6] [2, 3, 5, 7] = sorted_list_of_set (set [1, 2, 4, 5, 6] \<union> set [2, 3, 5, 7]) \<and>
   printIntersection [1, 2, 4, 5, 6] [2, 3, 5, 7] = sorted_list_of_set (set [1, 2, 4, 5, 6] \<inter> set [2, 3, 5, 7])"
  by (rule print_union_intersection) simp_all

end
