(* ===== verification/War.thy ===== *)
theory War
  imports Fifo
begin

text \<open>
  The card game of \<open>GoToWar.cpp\<close>: a queue in a circular array of 1000 places, the decks of two players as queues of card
  numbers, and the game, which ends after at most 1000 steps. The queue keeps the contract of \<open>Fifo\<close> while it is
  not full; the game never faults and loses no card; a card read is the card printed. But cards are compared by the
  characters of their values, so that an ace loses against a king and a ten beats a queen.
\<close>

section \<open>The queue\<close>

definition QUEUESIZE :: int where "QUEUESIZE = 1000"

record queue =
  q :: "int option list"
  first :: int
  last_pos :: int
  count_q :: int

definition init_queue :: "queue \<Rightarrow> queue" where
  "init_queue a = a\<lparr>first := 0, last_pos := QUEUESIZE - 1, count_q := 0\<rparr>"

definition fresh_queue :: queue where
  "fresh_queue = \<lparr>q = replicate (nat (QUEUESIZE + 1)) None, first = 0, last_pos = 0, count_q = 0\<rparr>"

definition enqueue :: "queue \<Rightarrow> int \<Rightarrow> fault + queue" where
  "enqueue a x =
     (if count_q a \<ge> QUEUESIZE then Inr a
      else let p = c_rem (last_pos a + 1) QUEUESIZE in
        if p < 0 \<or> int (length (q a)) \<le> p then Inl OutOfBounds
        else Inr (a\<lparr>last_pos := p, q := (q a)[nat p := Some x], count_q := count_q a + 1\<rparr>))"

text \<open>From an empty queue an uninitialised variable is returned.\<close>

definition dequeue :: "queue \<Rightarrow> fault + (int \<times> queue)" where
  "dequeue a =
     (if count_q a \<le> 0 then Inl Uninitialised
      else if first a < 0 \<or> int (length (q a)) \<le> first a then Inl OutOfBounds
      else case q a ! nat (first a) of
        None \<Rightarrow> Inl Uninitialised
      | Some x \<Rightarrow> Inr (x, a\<lparr>first := c_rem (first a + 1) QUEUESIZE, count_q := count_q a - 1\<rparr>))"

definition empty :: "queue \<Rightarrow> bool" where
  "empty a \<longleftrightarrow> count_q a \<le> 0"

section \<open>Cards\<close>

definition NCARDS :: nat where "NCARDS = 52"
definition NSUITS :: nat where "NSUITS = 4"
definition MAXSTEPS :: nat where "MAXSTEPS = 1000"

definition card_values :: string where "card_values = ''23456789TJQKA''"
definition suits :: string where "suits = ''cdhs''"

text \<open>The loops return the first match; without one the function returns no value.\<close>

fun index_of :: "'a \<Rightarrow> 'a list \<Rightarrow> nat \<Rightarrow> nat option" where
  "index_of x [] i = None"
| "index_of x (y # ys) i = (if y = x then Some i else index_of x ys (Suc i))"

definition rank_card :: "char \<Rightarrow> char \<Rightarrow> fault + int" where
  "rank_card v s =
     (case index_of v (take (NCARDS div NSUITS) card_values) 0 of
        None \<Rightarrow> Inl Uninitialised
      | Some i \<Rightarrow> (case index_of s (take NSUITS suits) 0 of None \<Rightarrow> Inl Uninitialised | Some j \<Rightarrow> Inr (int (i * NSUITS + j))))"

text \<open>Access to the two strings, which end in a zero character.\<close>

definition char_at :: "string \<Rightarrow> int \<Rightarrow> fault + char" where
  "char_at cs i = (if i < 0 \<or> int (length cs) < i then Inl OutOfBounds else Inr ((cs @ [CHR 0x00]) ! nat i))"

definition suit :: "int \<Rightarrow> fault + char" where
  "suit c = char_at suits (c_rem c (int NSUITS))"

definition card_value :: "int \<Rightarrow> fault + char" where
  "card_value c = char_at card_values (c_quot c (int NSUITS))"

section \<open>The game\<close>

function clear_queue :: "queue \<Rightarrow> queue \<Rightarrow> fault + (queue \<times> queue)" where
  "clear_queue a b =
     (if \<not> empty a then
        case dequeue a of
          Inl f \<Rightarrow> Inl f
        | Inr (x, a) \<Rightarrow> (case enqueue b x of Inl f \<Rightarrow> Inl f | Inr b \<Rightarrow> clear_queue a b)
      else Inr (a, b))"
  by auto

termination
  by (relation "measure (\<lambda>(a, b). nat (count_q a))") (auto simp: empty_def dequeue_def split: if_splits option.splits)

declare clear_queue.simps [simp del]

text \<open>One pass of the loop: the queues \<open>a\<close>, \<open>b\<close>, the cards \<open>c\<close> in the war, and whether there is a war.\<close>

type_synonym table = "queue \<times> queue \<times> queue \<times> bool"

definition war_step :: "table \<Rightarrow> fault + table" where
  "war_step t =
     (case t of (a, b, c, inwar) \<Rightarrow>
        ebind (dequeue a) (\<lambda>(x, a). ebind (dequeue b) (\<lambda>(y, b). ebind (enqueue c x) (\<lambda>c. ebind (enqueue c y) (\<lambda>c.
          if inwar then Inr (a, b, c, False)
          else ebind (card_value x) (\<lambda>vx. ebind (card_value y) (\<lambda>vy.
            if of_char vx > (of_char vy :: int) then ebind (clear_queue c a) (\<lambda>(c, a). Inr (a, b, c, inwar))
            else if of_char vx < (of_char vy :: int) then ebind (clear_queue c b) (\<lambda>(c, b). Inr (a, b, c, inwar))
            else Inr (a, b, c, True))))))))"

datatype outcome = AWins nat | BWins nat | GameTied nat int int | TieBoth nat

fun war_loop :: "nat \<Rightarrow> nat \<Rightarrow> table \<Rightarrow> fault + (nat \<times> table)" where
  "war_loop 0 steps t = Inr (steps, t)"
| "war_loop (Suc left) steps (a, b, c, inwar) =
     (if \<not> empty a \<and> \<not> empty b then ebind (war_step (a, b, c, inwar)) (war_loop left (steps + 1)) else Inr (steps, a, b, c, inwar))"

definition war :: "queue \<Rightarrow> queue \<Rightarrow> fault + (outcome \<times> table)" where
  "war a b =
     ebind (war_loop MAXSTEPS 0 (a, b, init_queue fresh_queue, False)) (\<lambda>(steps, a, b, c, inwar).
       Inr ((if \<not> empty a \<and> empty b then AWins steps
             else if empty a \<and> \<not> empty b then BWins steps
             else if \<not> empty a \<and> \<not> empty b then GameTied steps (count_q a) (count_q b)
             else TieBoth steps), a, b, c, inwar))"

section \<open>Input\<close>

text \<open>
  A line of cards. \<open>None\<close>: the input has ended, and with it the program; the character 255, stored in a signed
  \<open>char\<close>, is taken for the end as well. A suit that is missing is a bad card.
\<close>

fun read_deck :: "string \<Rightarrow> queue \<Rightarrow> fault + (queue \<times> string) option" where
  "read_deck [] d = Inr None"
| "read_deck [c] d = (if c = CHR 0x0A then Inr (Some (d, [])) else if c = CHR '' '' \<or> c = CHR 0xFF then Inr None else Inl Uninitialised)"
| "read_deck (c # s # rest) d =
     (if c = CHR 0x0A then Inr (Some (d, s # rest))
      else if c = CHR 0xFF then Inr None
      else if c = CHR '' '' then read_deck (s # rest) d
      else ebind (rank_card c s) (\<lambda>x. ebind (enqueue d x) (read_deck rest)))"

text \<open>One round of \<open>main\<close>, which deals two lines of cards into the decks and plays them.\<close>

definition main_round :: "queue \<Rightarrow> queue \<Rightarrow> string \<Rightarrow> fault + (outcome \<times> table \<times> string) option" where
  "main_round d0 d1 input =
     ebind (read_deck input (init_queue d0)) (\<lambda>r. case r of None \<Rightarrow> Inr None | Some (a, input) \<Rightarrow>
       ebind (read_deck input (init_queue d1)) (\<lambda>r. case r of None \<Rightarrow> Inr None | Some (b, input) \<Rightarrow>
         ebind (war a b) (\<lambda>(out, t). Inr (Some (out, t, input)))))"

section \<open>The queue keeps its contract\<close>

definition queue_rep :: "queue \<Rightarrow> int list \<Rightarrow> bool" where
  "queue_rep a xs \<longleftrightarrow> length (q a) = 1001 \<and> 0 \<le> first a \<and> first a < 1000 \<and> length xs \<le> 1000 \<and> count_q a = int (length xs) \<and>
     last_pos a = (first a + int (length xs) - 1) mod 1000 \<and>
     (\<forall>i < length xs. q a ! nat ((first a + int i) mod 1000) = Some (xs ! i))"

lemma place_distinct:
  fixes f :: int
  assumes "i < j" and "j < 1000"
  shows "nat ((f + int i) mod 1000) \<noteq> nat ((f + int j) mod 1000)"
proof
  assume "nat ((f + int i) mod 1000) = nat ((f + int j) mod 1000)"
  then have "(f + int j) mod 1000 = (f + int i) mod 1000" by (simp add: nat_eq_iff)
  then have "1000 dvd (int j - int i)" by (simp add: mod_eq_dvd_iff)
  then have "1000 \<le> int j - int i" using assms(1) by (intro zdvd_imp_le) auto
  with assms show False by simp
qed

lemma back_one: "((f + 1) mod 1000 + n - 1) mod 1000 = (f + n) mod (1000 :: int)"
  using mod_add_left_eq [of "f + 1" 1000 "n - 1"] by (simp add: add_diff_eq)

lemma enqueue_rep:
  assumes r: "queue_rep a xs" and l: "length xs < 1000"
  shows "\<exists>a'. enqueue a x = Inr a' \<and> queue_rep a' (xs @ [x])"
proof -
  let ?p = "(first a + int (length xs)) mod 1000"
  let ?a = "a\<lparr>last_pos := ?p, q := (q a)[nat ?p := Some x], count_q := int (length xs) + 1\<rparr>"
  have p: "(last_pos a + 1) mod 1000 = ?p" using r by (simp add: queue_rep_def mod_simps)
  have b: "0 \<le> ?p" "?p < 1000" by simp_all
  have "c_rem (last_pos a + 1) 1000 = ?p" using r p by (simp add: queue_rep_def)
  moreover have "\<not> ?p < 0" "\<not> 1001 \<le> ?p" using b by linarith+
  ultimately have "enqueue a x = Inr ?a" using r l by (simp add: enqueue_def QUEUESIZE_def queue_rep_def Let_def)
  moreover have "(q a)[nat ?p := Some x] ! nat ((first a + int i) mod 1000) = Some ((xs @ [x]) ! i)" if "i < Suc (length xs)" for i
  proof (cases "i = length xs")
    case True
    have "nat ?p < length (q a)" using r b by (simp add: queue_rep_def nat_less_iff)
    with True show ?thesis by simp
  next
    case False
    with that have i: "i < length xs" by simp
    with place_distinct [OF i l, of "first a"] r show ?thesis by (simp add: queue_rep_def nth_append)
  qed
  then have "queue_rep ?a (xs @ [x])" using r l by (simp add: queue_rep_def)
  ultimately show ?thesis by blast
qed

lemma dequeue_rep:
  assumes r: "queue_rep a (x # xs)"
  shows "\<exists>a'. dequeue a = Inr (x, a') \<and> queue_rep a' xs"
proof -
  let ?a = "a\<lparr>first := (first a + 1) mod 1000, count_q := int (length xs)\<rparr>"
  have n: "q a ! nat ((first a + int i) mod 1000) = Some ((x # xs) ! i)" if "i < Suc (length xs)" for i
    using r that by (simp add: queue_rep_def)
  from n [of 0] r have "q a ! nat (first a) = Some x" by (simp add: queue_rep_def)
  then have d: "dequeue a = Inr (x, ?a)" using r by (simp add: dequeue_def QUEUESIZE_def queue_rep_def)
  have "q a ! nat (((first a + 1) mod 1000 + int i) mod 1000) = Some (xs ! i)" if "i < length xs" for i
    using n [of "Suc i"] that by (simp add: mod_simps algebra_simps)
  moreover have "last_pos a = ((first a + 1) mod 1000 + int (length xs) - 1) mod 1000"
    using r back_one [of "first a" "int (length xs)"] by (simp add: queue_rep_def)
  ultimately have "queue_rep ?a xs" using r by (simp add: queue_rep_def)
  with d show ?thesis by blast
qed

lemma empty_rep: "queue_rep a xs \<Longrightarrow> empty a \<longleftrightarrow> xs = []"
  by (simp add: queue_rep_def empty_def)

lemma init_rep: "length (q a) = 1001 \<Longrightarrow> queue_rep (init_queue a) []"
  by (simp add: queue_rep_def init_queue_def QUEUESIZE_def)

definition deq :: "queue \<Rightarrow> fault + (int \<times> queue) option" where
  "deq a = (if empty a then Inr None else map_sum id Some (dequeue a))"

interpretation circular: fifo "\<lambda>_ x a. enqueue a x" deq "\<lambda>a _. count_q a < QUEUESIZE" queue_rep
proof unfold_locales
  show "\<exists>a'. enqueue a x = Inr a' \<and> queue_rep a' (xs @ [x])" if "queue_rep a xs" "count_q a < QUEUESIZE" for a xs x
    using that enqueue_rep [of a xs x] by (simp add: queue_rep_def QUEUESIZE_def)
  show "deq a = Inr None" if "queue_rep a []" for a using empty_rep [OF that] by (simp add: deq_def)
  show "\<exists>a'. deq a = Inr (Some (x, a')) \<and> queue_rep a' xs" if "queue_rep a (x # xs)" for a x xs
    using empty_rep [OF that] dequeue_rep [OF that] by (auto simp: deq_def)
qed

section \<open>The game loses no card\<close>

lemma clear_queue_rep:
  "queue_rep a xs \<Longrightarrow> queue_rep b ys \<Longrightarrow> length xs + length ys \<le> 1000 \<Longrightarrow>
   \<exists>a' b'. clear_queue a b = Inr (a', b') \<and> queue_rep a' [] \<and> queue_rep b' (ys @ xs)"
proof (induction xs arbitrary: a b ys)
  case Nil
  then show ?case by (subst clear_queue.simps) (simp add: empty_rep)
next
  case (Cons x xs)
  from dequeue_rep [OF Cons.prems(1)] obtain a1 where a1: "dequeue a = Inr (x, a1)" "queue_rep a1 xs" by blast
  from enqueue_rep [OF Cons.prems(2), of x] Cons.prems(3) obtain b1 where b1: "enqueue b x = Inr b1" "queue_rep b1 (ys @ [x])" by auto
  from Cons.IH [OF a1(2) b1(2)] Cons.prems(3) a1(1) b1(1) empty_rep [OF Cons.prems(1)] show ?case
    by (subst clear_queue.simps) auto
qed

definition table_rep :: "table \<Rightarrow> int multiset \<Rightarrow> bool" where
  "table_rep t cards \<longleftrightarrow> (case t of (a, b, c, inwar) \<Rightarrow>
     \<exists>xs ys zs. queue_rep a xs \<and> queue_rep b ys \<and> queue_rep c zs \<and> mset xs + mset ys + mset zs = cards)"

lemma table_repI: "queue_rep a xs \<Longrightarrow> queue_rep b ys \<Longrightarrow> queue_rep c zs \<Longrightarrow> mset xs + mset ys + mset zs = cards \<Longrightarrow> table_rep (a, b, c, w) cards"
  unfolding table_rep_def by auto

lemma card_value_ok:
  assumes "0 \<le> x" and "x < 52"
  shows "\<exists>v. card_value x = Inr v"
proof -
  have "0 \<le> x div 4" "x div 4 \<le> 12" using assms by auto
  then show ?thesis by (simp add: card_value_def char_at_def NSUITS_def card_values_def)
qed

lemma war_step_rep:
  assumes t: "table_rep (a, b, c, w) cards" and ne: "\<not> empty a" "\<not> empty b" and n: "size cards \<le> 1000" "\<forall>x \<in># cards. 0 \<le> x \<and> x < 52"
  shows "\<exists>t'. war_step (a, b, c, w) = Inr t' \<and> table_rep t' cards"
proof -
  from t obtain xs0 ys0 zs where r0: "queue_rep a xs0" "queue_rep b ys0" "queue_rep c zs" "mset xs0 + mset ys0 + mset zs = cards"
    by (auto simp: table_rep_def)
  from ne r0 empty_rep obtain x xs y ys where xy: "xs0 = x # xs" "ys0 = y # ys" by (metis neq_Nil_conv)
  note r = r0 [unfolded xy]
  have len: "length xs + length ys + length zs + 2 \<le> 1000" using n(1) by (simp add: r(4) [symmetric])
  from dequeue_rep [OF r(1)] obtain a1 where a1: "dequeue a = Inr (x, a1)" "queue_rep a1 xs" by blast
  from dequeue_rep [OF r(2)] obtain b1 where b1: "dequeue b = Inr (y, b1)" "queue_rep b1 ys" by blast
  from enqueue_rep [OF r(3), of x] len obtain c1 where c1: "enqueue c x = Inr c1" "queue_rep c1 (zs @ [x])" by auto
  from enqueue_rep [OF c1(2), of y] len obtain c2 where c2: "enqueue c1 y = Inr c2" "queue_rep c2 (zs @ [x, y])" by auto
  have "x \<in># cards" "y \<in># cards" using r(4) by auto
  with n(2) card_value_ok obtain vx vy where v: "card_value x = Inr vx" "card_value y = Inr vy" by meson
  have ms: "mset xs + mset ys + mset (zs @ [x, y]) = cards" using r(4) by (simp add: ac_simps add_mset_commute [of x y])
  from clear_queue_rep [OF c2(2) a1(2)] len obtain c3 a3 where
    ca: "clear_queue c2 a1 = Inr (c3, a3)" "queue_rep c3 []" "queue_rep a3 (xs @ zs @ [x, y])" by auto
  from clear_queue_rep [OF c2(2) b1(2)] len obtain c4 b4 where
    cb: "clear_queue c2 b1 = Inr (c4, b4)" "queue_rep c4 []" "queue_rep b4 (ys @ zs @ [x, y])" by auto
  have "table_rep (a1, b1, c2, w') cards" "table_rep (a3, b1, c3, w') cards" "table_rep (a1, b4, c4, w') cards" for w'
    using table_repI [OF a1(2) b1(2) c2(2) ms] table_repI [OF ca(3) b1(2) ca(2)] table_repI [OF a1(2) cb(3) cb(2)] ms by (auto simp: ac_simps)
  with a1 b1 c1 c2 v ca cb show ?thesis by (auto simp: war_step_def)
qed

lemma war_loop_rep:
  "table_rep t cards \<Longrightarrow> size cards \<le> 1000 \<Longrightarrow> \<forall>x \<in># cards. 0 \<le> x \<and> x < 52 \<Longrightarrow>
   \<exists>n t'. war_loop left steps t = Inr (n, t') \<and> table_rep t' cards \<and> steps \<le> n \<and> n \<le> steps + left \<and>
     (n < steps + left \<longrightarrow> empty (fst t') \<or> empty (fst (snd t')))"
proof (induction left arbitrary: steps t)
  case (Suc left)
  obtain a b c w where t: "t = (a, b, c, w)" by (cases t) auto
  show ?case
  proof (cases "empty a \<or> empty b")
    case True
    with t Suc.prems show ?thesis by auto
  next
    case False
    with war_step_rep [of a b c w cards] Suc.prems t obtain t1 where t1: "war_step t = Inr t1" "table_rep t1 cards" by auto
    from Suc.IH [OF t1(2) Suc.prems(2,3), of "Suc steps"] t1(1) t False show ?thesis by fastforce
  qed
qed auto

text \<open>The decks dealt to the two players: cards from 0 to 51, at most 1000 in all.\<close>

definition dealt :: "queue \<Rightarrow> queue \<Rightarrow> int multiset \<Rightarrow> bool" where
  "dealt a b cards \<longleftrightarrow> (\<exists>xs ys. queue_rep a xs \<and> queue_rep b ys \<and> mset xs + mset ys = cards) \<and>
     size cards \<le> 1000 \<and> (\<forall>x \<in># cards. 0 \<le> x \<and> x < 52)"

text \<open>The announcement fits the decks that are left.\<close>

fun announced :: "outcome \<Rightarrow> queue \<Rightarrow> queue \<Rightarrow> bool" where
  "announced (AWins n) a b \<longleftrightarrow> n \<le> 1000 \<and> \<not> empty a \<and> empty b"
| "announced (BWins n) a b \<longleftrightarrow> n \<le> 1000 \<and> empty a \<and> \<not> empty b"
| "announced (GameTied n k l) a b \<longleftrightarrow> n = 1000 \<and> \<not> empty a \<and> \<not> empty b \<and> k = count_q a \<and> l = count_q b"
| "announced (TieBoth n) a b \<longleftrightarrow> n \<le> 1000 \<and> empty a \<and> empty b"

lemma war_plays:
  assumes "dealt a b cards"
  shows "\<exists>r a' b' c' w. war a b = Inr (r, a', b', c', w) \<and> table_rep (a', b', c', w) cards \<and> announced r a' b'"
proof -
  have c: "queue_rep (init_queue fresh_queue) []" by (rule init_rep) (simp add: fresh_queue_def QUEUESIZE_def)
  from assms obtain xs ys where r: "queue_rep a xs" "queue_rep b ys" "mset xs + mset ys = cards"
    and n: "size cards \<le> 1000" "\<forall>x \<in># cards. 0 \<le> x \<and> x < 52" by (auto simp: dealt_def)
  have "table_rep (a, b, init_queue fresh_queue, False) cards" using table_repI [OF r(1,2) c] r(3) by simp
  from war_loop_rep [OF this n, of MAXSTEPS 0] obtain m t where
    t: "war_loop MAXSTEPS 0 (a, b, init_queue fresh_queue, False) = Inr (m, t)" "table_rep t cards" "m \<le> 1000"
      "m < 1000 \<longrightarrow> empty (fst t) \<or> empty (fst (snd t))" by (auto simp: MAXSTEPS_def)
  obtain a' b' c' w where [simp]: "t = (a', b', c', w)" by (cases t) auto
  from t show ?thesis by (auto simp: war_def)
qed

section \<open>Cards as printed\<close>

lemma index_of_Some: "index_of x ys i = Some j \<Longrightarrow> i \<le> j \<and> j < i + length ys \<and> ys ! (j - i) = x"
  by (induction ys arbitrary: i) (force split: if_splits simp: nth_Cons' less_eq_Suc_le)+

lemma index_of_nth: "distinct ys \<Longrightarrow> j < length ys \<Longrightarrow> index_of (ys ! j) ys i = Some (i + j)"
  by (induction ys arbitrary: i j) (auto simp: nth_Cons' nth_eq_iff_index_eq)

lemma strings [simp]: "length card_values = 13" "length suits = 4" "distinct card_values" "distinct suits"
  by code_simp+

lemma char_at_nth: "i < length cs \<Longrightarrow> char_at cs (int i) = Inr (cs ! i)"
  by (simp add: char_at_def nth_append)

lemma card_value_nth:
  assumes "0 \<le> x" and "x < 52"
  shows "card_value x = Inr (card_values ! (nat x div 4))"
  using assms char_at_nth [of "nat x div 4" card_values] by (simp add: card_value_def NSUITS_def zdiv_int less_mult_imp_div_less)

lemma suit_nth: "0 \<le> x \<Longrightarrow> suit x = Inr (suits ! (nat x mod 4))"
  using char_at_nth [of "nat x mod 4" suits] by (simp add: suit_def NSUITS_def zmod_int)

text \<open>
  Reading a card, \<open>rank_card\<close>, and printing it, \<open>value\<close> and \<open>suit\<close>, are inverse to each other: a value and a
  suit have the number \<open>x\<close> exactly when \<open>x\<close> is a number from 0 to 51 that is printed with this value and this suit.
\<close>

lemma rank_card_roundtrip:
  "rank_card v s = Inr x \<longleftrightarrow> 0 \<le> x \<and> x < 52 \<and> card_value x = Inr v \<and> suit x = Inr s"
proof
  assume "rank_card v s = Inr x"
  then obtain i j where i: "index_of v card_values 0 = Some i" "index_of s suits 0 = Some j" "x = int (i * 4 + j)"
    by (auto simp: rank_card_def NCARDS_def NSUITS_def split: option.splits)
  from index_of_Some [OF i(1)] index_of_Some [OF i(2)]
  have b: "i < 13" "j < 4" "card_values ! i = v" "suits ! j = s" by simp_all
  with i(3) show "0 \<le> x \<and> x < 52 \<and> card_value x = Inr v \<and> suit x = Inr s" by (simp add: card_value_nth suit_nth del: of_nat_add of_nat_mult)
next
  assume a: "0 \<le> x \<and> x < 52 \<and> card_value x = Inr v \<and> suit x = Inr s"
  define i j where "i = nat x div 4" and "j = nat x mod 4"
  with a have b: "i < 13" "j < 4" "x = int (i * 4 + j)" "v = card_values ! i" "s = suits ! j"
    by (auto simp: card_value_nth suit_nth)
  then have "index_of v card_values 0 = Some i" "index_of s suits 0 = Some j" by (simp_all add: index_of_nth)
  with b(3) show "rank_card v s = Inr x" by (simp add: rank_card_def NCARDS_def NSUITS_def)
qed

definition deck_of :: "int list \<Rightarrow> fault + queue" where
  "deck_of xs = fold (\<lambda>x r. ebind r (\<lambda>a. enqueue a x)) xs (Inr (init_queue fresh_queue))"

text \<open>The cards are compared by the characters of their values: the ace \<open>A\<close> loses against every other court card, and the ten \<open>T\<close> beats them all.\<close>

lemma ten_beats_queen:
  "map (\<lambda>x. map_sum id (\<lambda>v. of_char v :: int) (card_value x)) [32, 40, 48] = [Inr 84, Inr 81, Inr 65]"
  by code_simp

lemma ace_loses:
  "rank_card (CHR ''A'') (CHR ''c'') = Inr 48 \<and> rank_card (CHR ''K'') (CHR ''c'') = Inr 44 \<and>
   (case (deck_of [48], deck_of [44]) of
      (Inr a, Inr b) \<Rightarrow> (case war a b of Inr (r, _) \<Rightarrow> r = BWins 1 | _ \<Rightarrow> False)
    | _ \<Rightarrow> False)"
  by code_simp

section \<open>A round\<close>

text \<open>A line of cards as a player types it.\<close>

definition print_deck :: "int list \<Rightarrow> string" where
  "print_deck xs = concat (map (\<lambda>x. [card_values ! (nat x div 4), suits ! (nat x mod 4)]) xs)"

lemma value_is_no_separator:
  assumes "i < 13"
  shows "card_values ! i \<noteq> CHR 0x0A" "card_values ! i \<noteq> CHR 0xFF" "card_values ! i \<noteq> CHR '' ''"
proof -
  have "card_values ! i \<in> set card_values" using assms by simp
  then show "card_values ! i \<noteq> CHR 0x0A" "card_values ! i \<noteq> CHR 0xFF" "card_values ! i \<noteq> CHR '' ''" by (auto simp: card_values_def)
qed

lemma rank_card_printed:
  assumes "0 \<le> x" and "x < 52"
  shows "rank_card (card_values ! (nat x div 4)) (suits ! (nat x mod 4)) = Inr x"
proof -
  have "index_of (card_values ! (nat x div 4)) card_values 0 = Some (nat x div 4)"
    using assms by (simp add: index_of_nth less_mult_imp_div_less)
  moreover have "index_of (suits ! (nat x mod 4)) suits 0 = Some (nat x mod 4)" by (simp add: index_of_nth)
  ultimately show ?thesis using assms by (simp add: rank_card_def NCARDS_def NSUITS_def)
qed

lemma read_deck_printed:
  "queue_rep d ys \<Longrightarrow> \<forall>x \<in> set xs. 0 \<le> x \<and> x < 52 \<Longrightarrow> length ys + length xs \<le> 1000 \<Longrightarrow>
   \<exists>d'. read_deck (print_deck xs @ CHR 0x0A # rest) d = Inr (Some (d', rest)) \<and> queue_rep d' (ys @ xs)"
proof (induction xs arbitrary: d ys)
  case Nil
  then show ?case by (cases rest) (simp_all add: print_deck_def)
next
  case (Cons x xs)
  from Cons.prems(2) have x: "0 \<le> x" "x < 52" by simp_all
  then have i: "nat x div 4 < 13" by (simp add: less_mult_imp_div_less)
  from enqueue_rep [OF Cons.prems(1), of x] Cons.prems(3) obtain d1 where d1: "enqueue d x = Inr d1" "queue_rep d1 (ys @ [x])" by auto
  from Cons.IH [OF d1(2)] Cons.prems(2,3) obtain d2 where
    "read_deck (print_deck xs @ CHR 0x0A # rest) d1 = Inr (Some (d2, rest))" "queue_rep d2 (ys @ x # xs)" by auto
  with d1(1) rank_card_printed [OF x] value_is_no_separator [OF i] show ?case by (simp add: print_deck_def)
qed

text \<open>
  C36: a round of \<open>main\<close> on two lines of cards as they are printed, at most 1000 cards in all, deals exactly these cards in
  the order typed, plays the game to its end without a fault and goes on with the rest of the input; no card is lost or
  duplicated, the cards of the players and those left on the table being those typed; and what is announced fits the
  decks that are left, a game being called tied after exactly 1000 steps with both players still holding cards.
\<close>

theorem main_round_plays:
  assumes "length (q d0) = 1001" and "length (q d1) = 1001" and n: "length xs + length ys \<le> 1000"
    and v: "\<forall>x \<in> set xs \<union> set ys. 0 \<le> x \<and> x < 52"
  shows "\<exists>r a b c w. main_round d0 d1 (print_deck xs @ CHR 0x0A # print_deck ys @ CHR 0x0A # rest) = Inr (Some (r, (a, b, c, w), rest)) \<and>
     table_rep (a, b, c, w) (mset xs + mset ys) \<and> announced r a b"
proof -
  from read_deck_printed [OF init_rep [OF assms(1)], of xs] n v obtain a where
    a: "read_deck (print_deck xs @ CHR 0x0A # print_deck ys @ CHR 0x0A # rest) (init_queue d0) = Inr (Some (a, print_deck ys @ CHR 0x0A # rest))"
      "queue_rep a xs" by fastforce
  from read_deck_printed [OF init_rep [OF assms(2)], of ys] n v obtain b where
    b: "read_deck (print_deck ys @ CHR 0x0A # rest) (init_queue d1) = Inr (Some (b, rest))" "queue_rep b ys" by fastforce
  from a(2) b(2) n v have "dealt a b (mset xs + mset ys)" by (auto simp: dealt_def)
  from war_plays [OF this] a(1) b(1) show ?thesis by (fastforce simp: main_round_def)
qed

theorem main_round_plays_witness:
  "\<exists>r a b c w. main_round fresh_queue fresh_queue (''Ac2s'' @ [CHR 0x0A] @ ''As3s'' @ [CHR 0x0A]) = Inr (Some (r, (a, b, c, w), [])) \<and>
     table_rep (a, b, c, w) {#48, 3, 51, 7#} \<and> announced r a b"
proof -
  have "print_deck [48, 3] = ''Ac2s''" "print_deck [51, 7] = ''As3s''" by code_simp+
  with main_round_plays [of fresh_queue fresh_queue "[48, 3]" "[51, 7]" "[]"] show ?thesis
    by (simp add: fresh_queue_def QUEUESIZE_def add_mset_commute)
qed

end
