(* ===== verification/RB_Tree.thy ===== *)
theory RB_Tree
  imports Outcome
begin

text \<open>
  The red-black tree of \<open>RedBlackTree.cpp\<close>, on an explicit store: nodes with two children and a parent, rotations through the
  parent pointers, the repair of an insertion from the new node upwards, and the two traversals. The constructor of a
  node does not set its colour; what is found there is an argument of \<open>insert\<close>, \<open>None\<close> being memory that must not be
  read. The two sides are mirror images in the code, so the definitions that the code has twice take a side.
\<close>

section \<open>Nodes\<close>

datatype color = RED | BLACK

record node =
  data :: int
  color :: "color option"
  left :: ptr
  right :: ptr
  parent :: ptr

record rbtree =
  root :: ptr
  nodes :: "addr \<rightharpoonup> node"
  brk :: addr

text \<open>\<open>p->f\<close> as a value and as the target of an assignment.\<close>

fun get :: "(node \<Rightarrow> 'a) \<Rightarrow> ptr \<Rightarrow> rbtree \<Rightarrow> 'a res" where
  "get f None s = Fault NullDeref"
| "get f (Some p) s = (case nodes s p of None \<Rightarrow> Fault (WildDeref p) | Some n \<Rightarrow> Ok (f n))"

fun put :: "(node \<Rightarrow> node) \<Rightarrow> ptr \<Rightarrow> rbtree \<Rightarrow> rbtree res" where
  "put f None s = Fault NullDeref"
| "put f (Some p) s = (case nodes s p of None \<Rightarrow> Fault (WildDeref p) | Some n \<Rightarrow> Ok (s\<lparr>nodes := (nodes s)(p \<mapsto> f n)\<rparr>))"

text \<open>Reading a colour that has not been written is a fault.\<close>

definition get_color :: "ptr \<Rightarrow> rbtree \<Rightarrow> color res" where
  "get_color p s = obind (get color p s) (\<lambda>c. case c of None \<Rightarrow> Fault Uninitialised | Some c \<Rightarrow> Ok c)"

definition put_color :: "color \<Rightarrow> ptr \<Rightarrow> rbtree \<Rightarrow> rbtree res" where
  "put_color c = put (\<lambda>n. n\<lparr>color := Some c\<rparr>)"

definition put_parent :: "ptr \<Rightarrow> ptr \<Rightarrow> rbtree \<Rightarrow> rbtree res" where
  "put_parent q = put (\<lambda>n. n\<lparr>parent := q\<rparr>)"

datatype side = Lt | Rt

fun opp :: "side \<Rightarrow> side" where
  "opp Lt = Rt"
| "opp Rt = Lt"

fun kid :: "side \<Rightarrow> node \<Rightarrow> ptr" where
  "kid Lt n = left n"
| "kid Rt n = right n"

fun set_kid :: "side \<Rightarrow> ptr \<Rightarrow> node \<Rightarrow> node" where
  "set_kid Lt c n = n\<lparr>left := c\<rparr>"
| "set_kid Rt c n = n\<lparr>right := c\<rparr>"

definition new_node :: "color option \<Rightarrow> int \<Rightarrow> rbtree \<Rightarrow> ptr \<times> rbtree" where
  "new_node garbage k s = (Some (brk s),
     s\<lparr>nodes := (nodes s)(brk s \<mapsto> \<lparr>data = k, color = garbage, left = None, right = None, parent = None\<rparr>), brk := Suc (brk s)\<rparr>)"

definition new_RBTree :: rbtree where
  "new_RBTree = \<lparr>root = None, nodes = Map.empty, brk = 0\<rparr>"

section \<open>Insertion into the search tree\<close>

fun BSTInsert :: "nat \<Rightarrow> ptr \<Rightarrow> ptr \<Rightarrow> rbtree \<Rightarrow> (ptr \<times> rbtree) res" where
  "BSTInsert 0 r pt s = Timeout"
| "BSTInsert (Suc fuel) r pt s =
     (if r = None then Ok (pt, s)
      else obind (get data pt s) (\<lambda>k. obind (get data r s) (\<lambda>x.
        let below = (\<lambda>d. obind (get (kid d) r s) (\<lambda>c. obind (BSTInsert fuel c pt s) (\<lambda>(c, s).
              obind (put (set_kid d c) r s) (\<lambda>s. obind (get (kid d) r s) (\<lambda>c. obind (put_parent r c s) (\<lambda>s. Ok (r, s)))))))
        in if k < x then below Lt else if k > x then below Rt else Ok (r, s))))"

section \<open>Rotations\<close>

text \<open>\<open>rotate Lt\<close> is \<open>rotateLeft\<close>: the far child takes the place of its parent, which becomes the near child.\<close>

definition rotate :: "side \<Rightarrow> ptr \<Rightarrow> rbtree \<Rightarrow> rbtree res" where
  "rotate d pt s =
     obind (get (kid (opp d)) pt s) (\<lambda>up.
     obind (get (kid d) up s) (\<lambda>m.
     obind (put (set_kid (opp d) m) pt s) (\<lambda>s.
     obind (get (kid (opp d)) pt s) (\<lambda>m.
     obind (if m \<noteq> None then put_parent pt m s else Ok s) (\<lambda>s.
     obind (get parent pt s) (\<lambda>q.
     obind (put_parent q up s) (\<lambda>s.
     obind (get parent pt s) (\<lambda>q.
     obind (if q = None then Ok (s\<lparr>root := up\<rparr>)
            else obind (get left q s) (\<lambda>l. if pt = l then put (set_kid Lt up) q s else put (set_kid Rt up) q s)) (\<lambda>s.
     obind (put (set_kid d pt) up s) (\<lambda>s.
     put_parent up pt s))))))))))"

definition rotateLeft :: "ptr \<Rightarrow> rbtree \<Rightarrow> rbtree res" where
  "rotateLeft = rotate Lt"

definition rotateRight :: "ptr \<Rightarrow> rbtree \<Rightarrow> rbtree res" where
  "rotateRight = rotate Rt"

section \<open>Repair\<close>

definition swap_colors :: "ptr \<Rightarrow> ptr \<Rightarrow> rbtree \<Rightarrow> rbtree res" where
  "swap_colors p q s =
     obind (get_color p s) (\<lambda>c. obind (get_color q s) (\<lambda>c'. obind (put_color c' p s) (put_color c q)))"

text \<open>
  The case that the parent is the child of the grandparent on side \<open>d\<close>: A for \<open>Lt\<close>, B for \<open>Rt\<close>. The result is the new
  \<open>pt\<close>.
\<close>

definition fix_case :: "side \<Rightarrow> ptr \<Rightarrow> ptr \<Rightarrow> ptr \<Rightarrow> rbtree \<Rightarrow> (ptr \<times> rbtree) res" where
  "fix_case d pt parent_pt grand_parent_pt s =
     obind (get (kid (opp d)) grand_parent_pt s) (\<lambda>uncle_pt.
     obind (if uncle_pt \<noteq> None then obind (get_color uncle_pt s) (\<lambda>c. Ok (c = RED)) else Ok False) (\<lambda>recolor.
     if recolor then
       obind (put_color RED grand_parent_pt s) (\<lambda>s.
       obind (put_color BLACK parent_pt s) (\<lambda>s.
       obind (put_color BLACK uncle_pt s) (\<lambda>s. Ok (grand_parent_pt, s))))
     else
       obind (get (kid (opp d)) parent_pt s) (\<lambda>c.
       obind (if pt = c then obind ((case d of Lt \<Rightarrow> rotateLeft | Rt \<Rightarrow> rotateRight) parent_pt s) (\<lambda>s.
                obind (get parent parent_pt s) (\<lambda>q. Ok (q, s)))
              else Ok (parent_pt, s)) (\<lambda>(parent_pt, s).
       obind ((case d of Lt \<Rightarrow> rotateRight | Rt \<Rightarrow> rotateLeft) grand_parent_pt s) (\<lambda>s.
       obind (swap_colors parent_pt grand_parent_pt s) (\<lambda>s. Ok (parent_pt, s)))))))"

definition fix_test :: "ptr \<Rightarrow> rbtree \<Rightarrow> bool res" where
  "fix_test pt s =
     (if pt = root s then Ok False
      else obind (get_color pt s) (\<lambda>c.
        if c = BLACK then Ok False
        else obind (get parent pt s) (\<lambda>q. obind (get_color q s) (\<lambda>c. Ok (c = RED)))))"

definition fix_step :: "ptr \<Rightarrow> rbtree \<Rightarrow> (ptr \<times> rbtree) res" where
  "fix_step pt s =
     obind (get parent pt s) (\<lambda>parent_pt.
     obind (get parent parent_pt s) (\<lambda>grand_parent_pt.
     obind (get left grand_parent_pt s) (\<lambda>l.
       fix_case (if parent_pt = l then Lt else Rt) pt parent_pt grand_parent_pt s)))"

fun fix_loop :: "nat \<Rightarrow> ptr \<Rightarrow> rbtree \<Rightarrow> rbtree res" where
  "fix_loop 0 pt s = Timeout"
| "fix_loop (Suc fuel) pt s =
     obind (fix_test pt s) (\<lambda>more.
       if more then obind (fix_step pt s) (\<lambda>(pt, s). fix_loop fuel pt s) else Ok s)"

definition fixViolation :: "nat \<Rightarrow> ptr \<Rightarrow> rbtree \<Rightarrow> rbtree res" where
  "fixViolation fuel pt s = obind (fix_loop fuel pt s) (\<lambda>s. put_color BLACK (root s) s)"

text \<open>The fuel is one more than the number of nodes ever allocated: no path is longer.\<close>

definition insert :: "color option \<Rightarrow> int \<Rightarrow> rbtree \<Rightarrow> rbtree res" where
  "insert garbage k s =
     (case new_node garbage k s of (pt, s) \<Rightarrow>
        obind (BSTInsert (Suc (brk s)) (root s) pt s) (\<lambda>(r, s).
          fixViolation (Suc (brk s)) pt (s\<lparr>root := r\<rparr>)))"

section \<open>Traversals\<close>

text \<open>What is written to the output.\<close>

fun inorderHelper :: "nat \<Rightarrow> ptr \<Rightarrow> rbtree \<Rightarrow> int list res" where
  "inorderHelper 0 r s = Timeout"
| "inorderHelper (Suc fuel) r s =
     (if r = None then Ok []
      else obind (get left r s) (\<lambda>l. obind (inorderHelper fuel l s) (\<lambda>xs.
        obind (get data r s) (\<lambda>x. obind (get right r s) (\<lambda>q. obind (inorderHelper fuel q s) (\<lambda>ys. Ok (xs @ x # ys)))))))"

definition inorder :: "rbtree \<Rightarrow> int list res" where
  "inorder s = inorderHelper (Suc (brk s)) (root s) s"

fun levelOrder_loop :: "nat \<Rightarrow> ptr list \<Rightarrow> rbtree \<Rightarrow> int list res" where
  "levelOrder_loop 0 q s = Timeout"
| "levelOrder_loop (Suc fuel) [] s = Ok []"
| "levelOrder_loop (Suc fuel) (temp # q) s =
     obind (get data temp s) (\<lambda>x. obind (get left temp s) (\<lambda>l. obind (get right temp s) (\<lambda>r.
       obind (levelOrder_loop fuel (q @ (if l \<noteq> None then [l] else []) @ (if r \<noteq> None then [r] else [])) s) (\<lambda>xs. Ok (x # xs)))))"

definition levelOrder :: "rbtree \<Rightarrow> int list res" where
  "levelOrder s = (if root s = None then Ok [] else levelOrder_loop (Suc (brk s)) [root s] s)"

text \<open>A sequence of insertions, as in \<open>main\<close>, with what the memory of each new node holds.\<close>

definition inserts :: "color option list \<Rightarrow> int list \<Rightarrow> rbtree \<Rightarrow> rbtree res" where
  "inserts garbage ks = seqs (map2 insert garbage ks)"

definition main_inserts :: "color option list \<Rightarrow> rbtree res" where
  "main_inserts garbage = inserts garbage [7, 6, 5, 4, 3, 2, 1] new_RBTree"

end
