(* ===== verification/RB_Rep.thy ===== *)
theory RB_Rep
  imports RB_Tree
begin

text \<open>
  The tree that a store represents, and the effect of a rotation on it. A tree keeps the addresses of its nodes; a path from a
  node up to the root is a list of frames. Trees and frames are built by side (\<open>mk\<close>), so that each lemma holds for both
  mirror images.
\<close>

section \<open>Trees\<close>

datatype tree = E | N addr tree color int tree

fun top :: "tree \<Rightarrow> ptr" where
  "top E = None"
| "top (N a _ _ _ _) = Some a"

fun col :: "tree \<Rightarrow> color" where
  "col E = BLACK"
| "col (N _ _ c _ _) = c"

fun paint :: "color \<Rightarrow> tree \<Rightarrow> tree" where
  "paint c E = E"
| "paint c (N a l _ x r) = N a l c x r"

fun addrs :: "tree \<Rightarrow> addr list" where
  "addrs E = []"
| "addrs (N a l _ _ r) = a # addrs l @ addrs r"

fun keys :: "tree \<Rightarrow> int list" where
  "keys E = []"
| "keys (N _ l _ x r) = keys l @ x # keys r"

fun mk :: "side \<Rightarrow> addr \<Rightarrow> color \<Rightarrow> int \<Rightarrow> tree \<Rightarrow> tree \<Rightarrow> tree" where
  "mk Lt a c x t u = N a t c x u"
| "mk Rt a c x t u = N a u c x t"

fun rec :: "side \<Rightarrow> int \<Rightarrow> color \<Rightarrow> ptr \<Rightarrow> ptr \<Rightarrow> ptr \<Rightarrow> node" where
  "rec Lt x c p q par = \<lparr>data = x, color = Some c, left = p, right = q, parent = par\<rparr>"
| "rec Rt x c p q par = \<lparr>data = x, color = Some c, left = q, right = p, parent = par\<rparr>"

fun rep :: "(addr \<rightharpoonup> node) \<Rightarrow> ptr \<Rightarrow> tree \<Rightarrow> bool" where
  "rep h par E = True"
| "rep h par (N a l c x r) = (h a = Some (rec Lt x c (top l) (top r) par) \<and> rep h (Some a) l \<and> rep h (Some a) r)"

lemma opp_opp [simp]: "opp (opp d) = d" "opp d \<noteq> d" "d \<noteq> opp d"
  by (cases d; simp)+

lemma rec_simps [simp]:
  "kid d (rec d x c p q par) = p" "kid (opp d) (rec d x c p q par) = q"
  "set_kid d p' (rec d x c p q par) = rec d x c p' q par" "set_kid (opp d) q' (rec d x c p q par) = rec d x c p q' par"
  "data (rec d x c p q par) = x" "color (rec d x c p q par) = Some c" "parent (rec d x c p q par) = par"
  "(rec d x c p q par)\<lparr>parent := par'\<rparr> = rec d x c p q par'" "(rec d x c p q par)\<lparr>color := Some c'\<rparr> = rec d x c' p q par"
  by (cases d; simp)+

lemma rec_opp: "rec (opp d) x c p q par = rec d x c q p par"
  by (cases d) simp_all

lemma mk_simps [simp]:
  "top (mk d a c x t u) = Some a" "col (mk d a c x t u) = c" "paint c' (mk d a c x t u) = mk d a c' x t u"
  "set (addrs (mk d a c x t u)) = {a} \<union> set (addrs t) \<union> set (addrs u)" "mk d a c x t u \<noteq> E" "E \<noteq> mk d a c x t u"
  "distinct (addrs (mk d a c x t u)) \<longleftrightarrow>
     a \<notin> set (addrs t) \<and> a \<notin> set (addrs u) \<and> distinct (addrs t) \<and> distinct (addrs u) \<and> set (addrs t) \<inter> set (addrs u) = {}"
  "rep h par (mk d a c x t u) \<longleftrightarrow> h a = Some (rec d x c (top t) (top u) par) \<and> rep h (Some a) t \<and> rep h (Some a) u"
  by (cases d; auto)+

lemma mk_opp: "mk (opp d) a c x t u = mk d a c x u t"
  by (cases d) simp_all

lemma tree_mk: "t = E \<or> (\<exists>a c x u v. t = mk d a c x u v)"
proof (cases t)
  case (N a l c x r)
  then have "t = mk Lt a c x l r" "t = mk Rt a c x r l" by simp_all
  then show ?thesis by (cases d) blast+
qed simp

lemma top_None [simp]: "top t = None \<longleftrightarrow> t = E" "None = top t \<longleftrightarrow> t = E"
  by (cases t; simp)+

lemma top_in: "top t = Some a \<Longrightarrow> a \<in> set (addrs t)"
  by (cases t) auto

lemma top_paint [simp]: "top (paint c t) = top t" "addrs (paint c t) = addrs t" "keys (paint c t) = keys t"
  by (cases t; simp)+

text \<open>A tree depends on its own nodes only.\<close>

lemma rb_rep_cong: "(\<And>a. a \<in> set (addrs t) \<Longrightarrow> h' a = h a) \<Longrightarrow> rep h' par t = rep h par t"
  by (induction t arbitrary: par) auto

lemma rb_rep_upd [simp]: "a \<notin> set (addrs t) \<Longrightarrow> rep (h(a := v)) par t = rep h par t"
  by (rule rb_rep_cong) auto

text \<open>The root of a tree gets another parent or colour.\<close>

lemma rep_top:
  assumes "rep h par t" and "t \<noteq> E"
  obtains a l c x r where "t = N a l c x r" and "h a = Some (rec Lt x c (top l) (top r) par)"
  using assms by (cases t) auto

section \<open>Paths\<close>

datatype frame = F (fside: side) (faddr: addr) (fcol: color) (fkey: int) (fsib: tree)

fun plug1 :: "frame \<Rightarrow> tree \<Rightarrow> tree" where
  "plug1 (F d a c x u) t = mk d a c x t u"

fun plug :: "frame list \<Rightarrow> tree \<Rightarrow> tree" where
  "plug [] t = t"
| "plug (f # fs) t = plug fs (plug1 f t)"

fun above :: "frame list \<Rightarrow> ptr" where
  "above [] = None"
| "above (f # fs) = Some (faddr f)"

fun paddrs :: "frame list \<Rightarrow> addr list" where
  "paddrs [] = []"
| "paddrs (F d a c x u # fs) = a # addrs u @ paddrs fs"

fun lkeys :: "frame list \<Rightarrow> int list" where
  "lkeys [] = []"
| "lkeys (F Lt a c x u # fs) = lkeys fs"
| "lkeys (F Rt a c x u # fs) = lkeys fs @ keys u @ [x]"

fun rkeys :: "frame list \<Rightarrow> int list" where
  "rkeys [] = []"
| "rkeys (F Lt a c x u # fs) = x # keys u @ rkeys fs"
| "rkeys (F Rt a c x u # fs) = rkeys fs"

lemma rb_keys_plug: "keys (plug fs t) = lkeys fs @ keys t @ rkeys fs"
proof (induction fs arbitrary: t)
  case (Cons f fs)
  obtain d a c x u where "f = F d a c x u" by (cases f)
  with Cons show ?case by (cases d) auto
qed simp

lemma rb_mset_plug: "mset (addrs (plug fs t)) = mset (paddrs fs) + mset (addrs t)"
proof (induction fs arbitrary: t)
  case (Cons f fs)
  obtain d a c x u where "f = F d a c x u" by (cases f)
  with Cons show ?case by (cases d) (auto simp: ac_simps)
qed simp

lemma rb_distinct_plug: "distinct (addrs (plug fs t)) \<longleftrightarrow> distinct (paddrs fs) \<and> distinct (addrs t) \<and> set (paddrs fs) \<inter> set (addrs t) = {}"
  using rb_mset_plug [of fs t] by (metis distinct_append mset_append mset_eq_imp_distinct_iff)

lemma rb_set_plug: "set (addrs (plug fs t)) = set (paddrs fs) \<union> set (addrs t)"
  using rb_mset_plug [of fs t] by (metis set_mset_mset set_mset_union)

fun rep_path :: "(addr \<rightharpoonup> node) \<Rightarrow> frame list \<Rightarrow> ptr \<Rightarrow> bool" where
  "rep_path h [] p = True"
| "rep_path h (F d a c x u # fs) p =
     (h a = Some (rec d x c p (top u) (above fs)) \<and> rep h (Some a) u \<and> rep_path h fs (Some a))"

lemma rb_rep_plug: "rep h None (plug fs t) \<longleftrightarrow> rep h (above fs) t \<and> rep_path h fs (top t)"
proof (induction fs arbitrary: t)
  case (Cons f fs)
  then show ?case by (cases f) auto
qed simp

lemma rb_rep_path_cong: "(\<And>a. a \<in> set (paddrs fs) \<Longrightarrow> h' a = h a) \<Longrightarrow> rep_path h' fs p = rep_path h fs p"
proof (induction fs arbitrary: p)
  case (Cons f fs)
  obtain d a c x u where f: "f = F d a c x u" by (cases f)
  have "rep_path h' fs p = rep_path h fs p" for p by (rule Cons.IH) (simp add: Cons.prems f)
  moreover have "rep h' (Some a) u = rep h (Some a) u" by (rule rb_rep_cong) (simp add: Cons.prems f)
  moreover have "h' a = h a" by (simp add: Cons.prems f)
  ultimately show ?case by (simp add: f)
qed simp

lemma rb_rep_path_upd [simp]: "a \<notin> set (paddrs fs) \<Longrightarrow> rep_path (h(a := v)) fs p = rep_path h fs p"
  by (rule rb_rep_path_cong) auto

lemma above_in: "above fs = Some a \<Longrightarrow> a \<in> set (paddrs fs)"
proof (cases fs)
  case (Cons f fs')
  assume "above fs = Some a"
  with Cons show ?thesis by (cases f) auto
qed simp

lemma top_plug: "top (plug fs t) = (if fs = [] then top t else top (plug fs E))"
proof (induction fs arbitrary: t)
  case (Cons f fs)
  have "top (plug1 f t) = top (plug1 f E)" by (cases f) auto
  with Cons [of "plug1 f t"] Cons [of "plug1 f E"] show ?case by (cases "fs = []") auto
qed simp

section \<open>What a tree object represents\<close>

definition holds :: "rbtree \<Rightarrow> tree \<Rightarrow> bool" where
  "holds s t \<longleftrightarrow> rep (nodes s) None t \<and> distinct (addrs t) \<and> root s = top t \<and> (\<forall>a \<in> set (addrs t). a < brk s)"

lemma holds_plug:
  "holds s (plug fs t) \<longleftrightarrow>
     rep (nodes s) (above fs) t \<and> rep_path (nodes s) fs (top t) \<and> distinct (paddrs fs) \<and> distinct (addrs t) \<and>
     set (paddrs fs) \<inter> set (addrs t) = {} \<and> root s = top (plug fs t) \<and> (\<forall>a \<in> set (paddrs fs) \<union> set (addrs t). a < brk s)"
  by (auto simp: holds_def rb_rep_plug rb_distinct_plug rb_set_plug)

lemma get_live [simp]: "nodes s p = Some n \<Longrightarrow> get f (Some p) s = Ok (f n)"
  by simp

lemma put_live [simp]: "nodes s p = Some n \<Longrightarrow> put f (Some p) s = Ok (s\<lparr>nodes := (nodes s)(p \<mapsto> f n)\<rparr>)"
  by simp

section \<open>Changes of a tree\<close>

text \<open>The root of a subtree gets another parent, and the last node of a path another child.\<close>

fun reparent :: "ptr \<Rightarrow> tree \<Rightarrow> (addr \<rightharpoonup> node) \<Rightarrow> (addr \<rightharpoonup> node)" where
  "reparent q E h = h"
| "reparent q (N a l c x r) h = h(a \<mapsto> rec Lt x c (top l) (top r) q)"

fun relink :: "frame list \<Rightarrow> ptr \<Rightarrow> (addr \<rightharpoonup> node) \<Rightarrow> (addr \<rightharpoonup> node)" where
  "relink [] p h = h"
| "relink (F d a c x u # fs) p h = h(a \<mapsto> rec d x c p (top u) (above fs))"

lemma rb_reparent_other [simp]: "a \<notin> set (addrs t) \<Longrightarrow> reparent q t h a = h a"
  by (cases t) auto

lemma relink_other [simp]: "a \<notin> set (paddrs fs) \<Longrightarrow> relink fs p h a = h a"
  by (cases "(fs, p, h)" rule: relink.cases) auto

lemma rb_rep_reparent: "rep h par t \<Longrightarrow> distinct (addrs t) \<Longrightarrow> rep (reparent q t h) q t"
  by (cases t) (auto simp del: fun_upd_apply simp: fun_upd_same)

lemma rep_path_relink: "rep_path h fs p \<Longrightarrow> distinct (paddrs fs) \<Longrightarrow> rep_path (relink fs p' h) fs p'"
  by (cases "(fs, p', h)" rule: relink.cases) (auto simp del: fun_upd_apply simp: fun_upd_same)

lemma rep_others [simp]:
  "set (addrs t) \<inter> set (addrs u) = {} \<Longrightarrow> rep (reparent q t h) par u = rep h par u"
  "set (addrs t) \<inter> set (paddrs fs) = {} \<Longrightarrow> rep_path (reparent q t h) fs p = rep_path h fs p"
  "set (paddrs fs) \<inter> set (addrs u) = {} \<Longrightarrow> rep (relink fs p' h) par u = rep h par u"
  by (rule rb_rep_cong rb_rep_path_cong; auto intro!: rb_reparent_other relink_other)+

lemma put_parent_top:
  assumes "rep (nodes s) par t"
  shows "(if top t \<noteq> None then put_parent q (top t) s else Ok s) = Ok (s\<lparr>nodes := reparent q t (nodes s)\<rparr>)"
  using assms by (cases t) (simp_all add: put_parent_def)

text \<open>The place of node \<open>a\<close> below its parent, or at the root, is given to node \<open>up\<close>.\<close>

lemma replace_child:
  assumes "rep_path (nodes s) fs (Some a)" and "a \<notin> set (paddrs fs)"
  shows "(if above fs = None then Ok (s\<lparr>root := up\<rparr>)
          else obind (get left (above fs) s) (\<lambda>l. if Some a = l then put (set_kid Lt up) (above fs) s else put (set_kid Rt up) (above fs) s)) =
         Ok (s\<lparr>root := if fs = [] then up else root s, nodes := relink fs up (nodes s)\<rparr>)"
proof (cases fs)
  case (Cons f gs)
  obtain d b c x u where f: "f = F d b c x u" by (cases f)
  with Cons assms have "top u \<noteq> Some a" by (auto dest: top_in)
  with Cons f assms(1) show ?thesis by (cases d) auto
qed simp

section \<open>A rotation\<close>

lemma rotate_rep:
  assumes h: "holds s (plug fs (mk d a ca x l (mk d b cb y m r)))"
  shows "\<exists>s'. rotate d (Some a) s = Ok s' \<and> holds s' (plug fs (mk d b cb y (mk d a ca x l m) r)) \<and> brk s' = brk s"
proof -
  let ?h0 = "nodes s"
  let ?h1 = "?h0(a \<mapsto> rec d x ca (top l) (top m) (above fs))"
  let ?h2 = "reparent (Some a) m ?h1"
  let ?h3 = "?h2(b \<mapsto> rec d y cb (top m) (top r) (above fs))"
  let ?h4 = "relink fs (Some b) ?h3"
  let ?h5 = "?h4(b \<mapsto> rec d y cb (Some a) (top r) (above fs))"
  let ?h6 = "?h5(a \<mapsto> rec d x ca (top l) (top m) (Some b))"
  from h have n: "?h0 a = Some (rec d x ca (top l) (Some b) (above fs))" "?h0 b = Some (rec d y cb (top m) (top r) (Some a))"
    and r: "rep ?h0 (Some a) l" "rep ?h0 (Some b) m" "rep ?h0 (Some b) r" "rep_path ?h0 fs (Some a)"
    and ds: "a \<noteq> b" "a \<notin> set (addrs l)" "a \<notin> set (addrs m)" "a \<notin> set (addrs r)" "b \<notin> set (addrs l)" "b \<notin> set (addrs m)" "b \<notin> set (addrs r)"
      "a \<notin> set (paddrs fs)" "b \<notin> set (paddrs fs)" "distinct (addrs m)" "distinct (paddrs fs)"
    and dj: "set (addrs m) \<inter> set (addrs l) = {}" "set (addrs m) \<inter> set (addrs r) = {}" "set (addrs m) \<inter> set (paddrs fs) = {}"
      "set (paddrs fs) \<inter> set (addrs l) = {}" "set (paddrs fs) \<inter> set (addrs m) = {}" "set (paddrs fs) \<inter> set (addrs r) = {}"
    by (auto simp: holds_plug)
  have m1: "rep ?h1 (Some b) m" using r ds by simp
  have q3: "rep_path ?h3 fs (Some a)" using r ds dj by simp
  let ?s' = "s\<lparr>root := if fs = [] then Some b else root s, nodes := ?h6\<rparr>"
  have "rotate d (Some a) s = Ok ?s'"
    using n ds put_parent_top [of "s\<lparr>nodes := ?h1\<rparr>" "Some b" m "Some a"] m1 replace_child [of "s\<lparr>nodes := ?h3\<rparr>" fs a "Some b"] q3
    by (simp add: rotate_def put_parent_def del: top_None fun_upd_apply add: fun_upd_same fun_upd_other)
  moreover have "rep ?h6 (Some b) (mk d a ca x l m)" 
    using r ds dj m1 rb_rep_reparent [OF m1] by simp
  moreover have "rep ?h6 (Some b) r" using r ds dj by simp
  moreover have "rep_path ?h6 fs (Some b)" using rep_path_relink [OF q3] ds by simp
  moreover have "?h6 b = Some (rec d y cb (Some a) (top r) (above fs))" using ds by simp
  ultimately show ?thesis using h top_plug [of fs "mk d a ca x l (mk d b cb y m r)"] top_plug [of fs "mk d b cb y (mk d a ca x l m) r"]
    by (auto simp: holds_plug)
qed

end
