(* ===== verification/RB_Insert.thy ===== *)
theory RB_Insert
  imports RB_Rep
begin

text \<open>
  The repair after an insertion restores the invariants of red-black trees: no red node has a red child, every path
  to a leaf has the same number of black nodes, and the root is black.
\<close>

section \<open>Red-black trees\<close>

text \<open>Every path to a leaf has \<open>n\<close> black nodes and no two red ones in a row.\<close>

fun bal :: "nat \<Rightarrow> tree \<Rightarrow> bool" where
  "bal n E = (n = 0)"
| "bal n (N a l c x r) =
     (case c of
        RED \<Rightarrow> bal n l \<and> bal n r \<and> col l = BLACK \<and> col r = BLACK
      | BLACK \<Rightarrow> (case n of 0 \<Rightarrow> False | Suc m \<Rightarrow> bal m l \<and> bal m r))"

definition rbt :: "tree \<Rightarrow> bool" where
  "rbt t \<longleftrightarrow> col t = BLACK \<and> (\<exists>n. bal n t) \<and> sorted_wrt (<) (keys t)"

lemma bal_mk [simp]:
  "bal n (mk d a RED x t u) \<longleftrightarrow> bal n t \<and> bal n u \<and> col t = BLACK \<and> col u = BLACK"
  "bal (Suc n) (mk d a BLACK x t u) \<longleftrightarrow> bal n t \<and> bal n u"
  "bal 0 (mk d a BLACK x t u) \<longleftrightarrow> False"
  by (cases d; auto)+

lemma bal_black: "bal n (mk d a BLACK x t u) \<longleftrightarrow> (\<exists>m. n = Suc m \<and> bal m t \<and> bal m u)"
  by (cases n) auto

text \<open>A place for a tree of black height \<open>n\<close>: only there may the invariant on colours fail.\<close>

fun bal_path :: "nat \<Rightarrow> frame list \<Rightarrow> bool" where
  "bal_path n [] = True"
| "bal_path n (F d a c x u # fs) =
     (bal n u \<and>
      (case c of
         RED \<Rightarrow> col u = BLACK \<and> fs \<noteq> [] \<and> fcol (hd fs) = BLACK \<and> bal_path n fs
       | BLACK \<Rightarrow> bal_path (Suc n) fs))"

lemma bal_plugD: "bal k (plug fs t) \<Longrightarrow> col (plug fs t) = BLACK \<Longrightarrow>
   \<exists>n. bal n t \<and> bal_path n fs \<and> (fs \<noteq> [] \<longrightarrow> fcol (hd fs) = RED \<longrightarrow> col t = BLACK) \<and> (fs = [] \<longrightarrow> col t = BLACK)"
proof (induction fs arbitrary: t)
  case (Cons f fs)
  obtain d a c x u where f: "f = F d a c x u" by (cases f)
  from Cons.IH [of "plug1 f t"] Cons.prems obtain n where
    n: "bal n (mk d a c x t u)" "bal_path n fs" "fs \<noteq> [] \<longrightarrow> fcol (hd fs) = RED \<longrightarrow> c = BLACK" "fs = [] \<longrightarrow> c = BLACK"
    by (auto simp: f)
  then show ?case
  proof (cases c)
    case RED
    with n have "fs \<noteq> []" "fcol (hd fs) = BLACK" by (auto intro: color.exhaust [of "fcol (hd fs)"])
    with RED n show ?thesis by (auto simp: f)
  next
    case BLACK
    with n show ?thesis by (auto simp: f bal_black)
  qed
qed auto

lemma bal_plugI: "bal n t \<Longrightarrow> bal_path n fs \<Longrightarrow> (fs \<noteq> [] \<Longrightarrow> fcol (hd fs) = RED \<Longrightarrow> col t = BLACK) \<Longrightarrow> fs \<noteq> [] \<or> col t = BLACK \<Longrightarrow>
   \<exists>k. bal k (plug fs t) \<and> col (plug fs t) = BLACK"
proof (induction fs arbitrary: n t)
  case (Cons f fs)
  obtain d a c x u where f: "f = F d a c x u" by (cases f)
  show ?case
  proof (cases c)
    case RED
    with Cons.prems f have "bal n (mk d a RED x t u)" by auto
    from Cons.IH [OF this] Cons.prems(2) f RED show ?thesis by auto
  next
    case BLACK
    with Cons.prems f have "bal (Suc n) (mk d a BLACK x t u)" by auto
    from Cons.IH [OF this] Cons.prems(2) f BLACK show ?thesis by auto
  qed
qed auto

section \<open>Colours\<close>

lemma put_color_rep:
  assumes h: "holds s (plug fs (mk d a c0 x l r))"
  shows "\<exists>s'. put_color c (Some a) s = Ok s' \<and> holds s' (plug fs (mk d a c x l r)) \<and> brk s' = brk s"
proof -
  let ?s = "s\<lparr>nodes := (nodes s)(a \<mapsto> rec d x c (top l) (top r) (above fs))\<rparr>"
  from h have "nodes s a = Some (rec d x c0 (top l) (top r) (above fs))" by (simp add: holds_plug)
  then have "put_color c (Some a) s = Ok ?s" by (simp add: put_color_def)
  moreover have "holds ?s (plug fs (mk d a c x l r))"
    using h top_plug [of fs "mk d a c x l r"] top_plug [of fs "mk d a c0 x l r"]
    by (auto simp: holds_plug simp del: fun_upd_apply simp: fun_upd_same)
  ultimately show ?thesis by simp
qed

lemma get_color_rep: "nodes s a = Some (rec d x c p q par) \<Longrightarrow> get_color (Some a) s = Ok c"
  by (simp add: get_color_def)

lemma rotate_sides:
  "(case d of Lt \<Rightarrow> rotateLeft | Rt \<Rightarrow> rotateRight) = rotate d" "(case d of Lt \<Rightarrow> rotateRight | Rt \<Rightarrow> rotateLeft) = rotate (opp d)"
  by (cases d; simp add: rotateLeft_def rotateRight_def)+

section \<open>One step of the repair\<close>

text \<open>The end of the cases 2 and 3: a rotation at the grandparent and an exchange of colours.\<close>

lemma fix_outer:
  assumes h: "holds s (plug fs (mk d g cg z (mk d p RED y t w) u))"
  shows "\<exists>s'. obind (rotate (opp d) (Some g) s) (swap_colors (Some p) (Some g)) = Ok s' \<and>
     holds s' (plug fs (mk d p cg y t (mk d g RED z w u))) \<and> brk s' = brk s"
proof -
  let ?f = "F (opp d) p RED y t" and ?f' = "F (opp d) p cg y t"
  from rotate_rep [of s fs "opp d" g cg z u p RED y w t] h obtain s1 where
    s1: "rotate (opp d) (Some g) s = Ok s1" "holds s1 (plug fs (mk d p RED y t (mk d g cg z w u)))" "brk s1 = brk s"
    by (auto simp: mk_opp)
  then have c: "get_color (Some p) s1 = Ok RED" "get_color (Some g) s1 = Ok cg" by (auto simp: holds_plug get_color_rep)
  from put_color_rep [OF s1(2), of cg] obtain s2 where
    s2: "put_color cg (Some p) s1 = Ok s2" "holds s2 (plug (?f' # fs) (mk d g cg z w u))" "brk s2 = brk s1" by (auto simp: mk_opp)
  from put_color_rep [OF s2(2), of RED] obtain s3 where
    s3: "put_color RED (Some g) s2 = Ok s3" "holds s3 (plug (?f' # fs) (mk d g RED z w u))" "brk s3 = brk s2" by auto
  from s1 s2(1,3) s3 c show ?thesis by (auto simp: swap_colors_def mk_opp)
qed

text \<open>Case 1: grandparent, parent and uncle are recoloured.\<close>

lemma fix_recolor:
  assumes h: "holds s (plug fs (mk d g cg z (mk e p RED y t w) u))" and u: "col u = RED"
  shows "\<exists>s'. fix_case d pt (Some p) (Some g) s = Ok (Some g, s') \<and>
     holds s' (plug fs (mk d g RED z (mk e p BLACK y t w) (paint BLACK u))) \<and> brk s' = brk s"
proof -
  from u obtain b v ul ur where ub: "u = mk d b RED v ul ur" using tree_mk [of u d] by auto
  from h ub have n: "get (kid (opp d)) (Some g) s = Ok (Some b)" "get_color (Some b) s = Ok RED" by (auto simp: holds_plug get_color_rep)
  from put_color_rep [OF h, of RED] obtain s1 where
    s1: "put_color RED (Some g) s = Ok s1" "holds s1 (plug (F d g RED z u # fs) (mk e p RED y t w))" "brk s1 = brk s" by auto
  from put_color_rep [OF s1(2), of BLACK] obtain s2 where
    s2: "put_color BLACK (Some p) s1 = Ok s2" "holds s2 (plug (F (opp d) g RED z (mk e p BLACK y t w) # fs) u)" "brk s2 = brk s1"
    by (auto simp: mk_opp)
  from put_color_rep [OF s2(2) [unfolded ub], of BLACK] obtain s3 where
    s3: "put_color BLACK (Some b) s2 = Ok s3" "holds s3 (plug (F (opp d) g RED z (mk e p BLACK y t w) # fs) (mk d b BLACK v ul ur))" "brk s3 = brk s2"
    by auto
  from n s1 s2(1,3) s3 ub show ?thesis by (auto simp: fix_case_def mk_opp)
qed

text \<open>Cases 2 and 3: the subtree gets a black root, and the black heights stay.\<close>

lemma fix_rotate:
  assumes h: "holds s (plug fs (mk d g cg z (mk e p RED y t w) u))" and u: "col u = BLACK"
    and t: "col t = RED"
  shows "\<exists>s' v. fix_case d (top t) (Some p) (Some g) s = Ok (top v, s') \<and> holds s' (plug fs v) \<and> brk s' = brk s \<and>
     col v = cg \<and> v \<noteq> E \<and> keys v = keys (mk d g cg z (mk e p RED y t w) u) \<and>
     (\<forall>n. cg = BLACK \<longrightarrow> bal n t \<longrightarrow> bal n w \<longrightarrow> col w = BLACK \<longrightarrow> bal n u \<longrightarrow> bal (Suc n) v)"
proof -
  from t obtain a x ti to where ta: "t = mk d a RED x ti to" using tree_mk [of t d] by auto
  have g: "get (kid (opp d)) (Some g) s = Ok (top u)" using h by (auto simp: holds_plug)
  have nr: "(if top u \<noteq> None then obind (get_color (top u) s) (\<lambda>c. Ok (c = RED)) else Ok False) = Ok False"
    using h u by (cases u) (auto simp: holds_plug get_color_def)
  show ?thesis
  proof (cases "e = d")
    case True
    from h True have k: "get (kid (opp d)) (Some p) s = Ok (top w)" "top w \<noteq> Some a"
      using ta by (auto simp: holds_plug dest: top_in)
    from fix_outer [OF h [unfolded True]] obtain s1 s2 where s2: "rotate (opp d) (Some g) s = Ok s1" "swap_colors (Some p) (Some g) s1 = Ok s2"
      "holds s2 (plug fs (mk d p cg y t (mk d g RED z w u)))" "brk s2 = brk s" by auto
    have "fix_case d (top t) (Some p) (Some g) s = Ok (Some p, s2)"
      using g nr k s2(1,2) ta by (simp add: fix_case_def rotate_sides del: top_None)
    with s2 u True show ?thesis by (intro exI [of _ s2] exI [of _ "mk d p cg y t (mk d g RED z w u)"]) (cases d; simp)
  next
    case False
    then have e: "e = opp d" by (cases d; cases e) auto
    let ?f = "F d g cg z u"
    from h e have k: "get (kid (opp d)) (Some p) s = Ok (Some a)" using ta by (cases d) (auto simp: holds_plug)
    from rotate_rep [of s "?f # fs" d p RED y w a RED x ti to] h obtain s1 where
      s1: "rotate d (Some p) s = Ok s1" "holds s1 (plug (?f # fs) (mk d a RED x (mk d p RED y w ti) to))" "brk s1 = brk s"
      by (auto simp: e mk_opp ta)
    have q: "get parent (Some p) s1 = Ok (Some a)" using s1(2) by (auto simp: holds_plug)
    from s1(2) have "holds s1 (plug fs (mk d g cg z (mk d a RED x (mk d p RED y w ti) to) u))" by simp
    from fix_outer [OF this] obtain s2 s3 where s3: "rotate (opp d) (Some g) s1 = Ok s2" "swap_colors (Some a) (Some g) s2 = Ok s3"
      "holds s3 (plug fs (mk d a cg x (mk d p RED y w ti) (mk d g RED z to u)))" "brk s3 = brk s1" by auto
    have "fix_case d (top t) (Some p) (Some g) s = Ok (Some a, s3)"
      using g nr k s1(1) q s3(1,2) ta by (simp add: fix_case_def rotate_sides del: top_None)
    with s1(3) s3 u ta show ?thesis
      by (intro exI [of _ s3] exI [of _ "mk d a cg x (mk d p RED y w ti) (mk d g RED z to u)"]) (cases d; simp add: e)
  qed
qed

section \<open>The loop\<close>

lemma fix_step_case:
  assumes h: "holds s (plug fs (mk d g c z (mk e p c' y t w) u))" and t: "t \<noteq> E"
  shows "fix_step (top t) s = fix_case d (top t) (Some p) (Some g) s"
proof -
  from t obtain a x cx ti to where ta: "t = mk d a cx x ti to" using tree_mk [of t d] by auto
  from h have "top u \<noteq> Some p" by (auto simp: holds_plug dest: top_in)
  with h ta show ?thesis by (cases d) (auto simp: holds_plug fix_step_def)
qed

lemma fix_test_root: "holds s t \<Longrightarrow> fix_test (top t) s = Ok False"
  by (simp add: holds_def fix_test_def)

lemma fix_test_red:
  assumes h: "holds s (plug (F e p c y w # fs) t)" and t: "col t = RED"
  shows "fix_test (top t) s = Ok (c = RED)"
proof -
  from t obtain a x ti to where ta: "t = mk Lt a RED x ti to" using tree_mk [of t Lt] by auto
  let ?u = "plug1 (F e p c y w) t"
  have "top (plug fs ?u) \<noteq> Some a"
  proof
    assume "top (plug fs ?u) = Some a"
    then have "a \<in> {p} \<union> set (paddrs fs)" using top_plug [of fs ?u] top_in [of "plug fs E" a]
      by (auto simp: rb_set_plug split: if_splits)
    with h ta show False by (auto simp: holds_plug)
  qed
  moreover have "get_color (Some a) s = Ok RED" "get_color (Some p) s = Ok c" "get parent (Some a) s = Ok (Some p)"
    using h ta by (auto simp: holds_plug get_color_def)
  ultimately show ?thesis using h ta by (simp add: holds_def fix_test_def)
qed

lemma fix_test_black:
  assumes h: "holds s (plug fs t)" and t: "col t = BLACK" "t \<noteq> E"
  shows "fix_test (top t) s = Ok False"
proof -
  from t obtain a x ti to where ta: "t = mk Lt a BLACK x ti to" using tree_mk [of t Lt] by auto
  with h have "get_color (Some a) s = Ok BLACK" by (auto simp: holds_plug get_color_def)
  with ta show ?thesis by (simp add: fix_test_def)
qed

definition repaired :: "rbtree \<Rightarrow> rbtree res \<Rightarrow> tree \<Rightarrow> bool" where
  "repaired s r t \<longleftrightarrow> (\<exists>s' t' k. r = Ok s' \<and> holds s' t' \<and> t' \<noteq> E \<and> bal k (paint BLACK t') \<and> keys t' = keys t \<and> brk s' = brk s)"

lemma repairedI: "r = Ok s' \<Longrightarrow> holds s' t' \<Longrightarrow> t' \<noteq> E \<Longrightarrow> bal k (paint BLACK t') \<Longrightarrow> keys t' = keys t \<Longrightarrow> brk s' = brk s \<Longrightarrow> repaired s r t"
  unfolding repaired_def by blast

lemma paint_col: "col t = c \<Longrightarrow> paint c t = t"
  by (cases t) auto

lemma plug_E [simp]: "plug fs t = E \<longleftrightarrow> fs = [] \<and> t = E"
proof (induction fs arbitrary: t)
  case (Cons f fs)
  then show ?case by (cases f) auto
qed simp

lemma bal_paint_BLACK: "bal n t \<Longrightarrow> col t = RED \<Longrightarrow> bal (Suc n) (paint BLACK t)"
  by (cases t) auto

lemma fix_loop_spec:
  assumes "holds s (plug fs t)" and "col t = RED" and "bal n t" and "bal_path n fs" and "length fs < fuel"
  shows "repaired s (fix_loop fuel (top t) s) (plug fs t)"
  using assms
proof (induction fuel arbitrary: s fs t n)
  case (Suc fuel)
  have ne: "t \<noteq> E" using Suc.prems(2) by auto
  show ?case
  proof (cases fs)
    case Nil
    with Suc.prems(1) fix_test_root [of s t] have "fix_loop (Suc fuel) (top t) s = Ok s" by simp
    with Nil Suc.prems ne bal_paint_BLACK [of n t] show ?thesis by (intro repairedI [of _ s t]) auto
  next
    case (Cons f1 gs)
    obtain e p c y w where f1: "f1 = F e p c y w" by (cases f1)
    note test = fix_test_red [of s e p c y w gs t] 
    show ?thesis
    proof (cases c)
      case BLACK
      with Suc.prems test Cons f1 have "fix_loop (Suc fuel) (top t) s = Ok s" by simp
      moreover from bal_plugI [OF Suc.prems(3,4)] Cons f1 BLACK obtain k where "bal k (plug fs t)" "col (plug fs t) = BLACK" by auto
      ultimately show ?thesis using Suc.prems(1) ne by (intro repairedI [of _ s "plug fs t" k]) (auto simp: paint_col)
    next
      case RED
      with Suc.prems(4) Cons f1 obtain d g z u hs where gs: "gs = F d g BLACK z u # hs"
        by (cases gs; cases "hd gs") auto
      have b: "bal n w" "col w = BLACK" "bal n u" "bal_path (Suc n) hs" using Suc.prems(4) Cons f1 gs RED by auto
      have h: "holds s (plug hs (mk d g BLACK z (mk e p RED y t w) u))" using Suc.prems(1) Cons f1 gs RED by simp
      have step: "fix_loop (Suc fuel) (top t) s = obind (fix_case d (top t) (Some p) (Some g) s) (\<lambda>(pt, s). fix_loop fuel pt s)"
        using Suc.prems(1,2) test Cons f1 RED fix_step_case [OF h ne] by simp
      have kp: "keys (plug fs t) = keys (plug hs (mk d g BLACK z (mk e p RED y t w) u))" by (simp add: Cons f1 gs RED)
      show ?thesis
      proof (cases "col u")
        case RED
        let ?v = "mk d g RED z (mk e p BLACK y t w) (paint BLACK u)"
        from fix_recolor [OF h RED, of "top t"] obtain s1 where
          s1: "fix_case d (top t) (Some p) (Some g) s = Ok (Some g, s1)" "holds s1 (plug hs ?v)" "brk s1 = brk s" by blast
        have "bal (Suc n) ?v" using b RED Suc.prems(3) bal_paint_BLACK [of n u] by (cases u) auto
        from Suc.IH [OF s1(2) _ this b(4)] Suc.prems(5) Cons gs have "repaired s1 (fix_loop fuel (Some g) s1) (plug hs ?v)" by simp
        moreover have "keys (plug hs ?v) = keys (plug fs t)" unfolding kp by (cases d; cases e; simp add: rb_keys_plug)
        ultimately show ?thesis using s1 step by (auto simp: repaired_def)
      next
        case BLACK
        from fix_rotate [OF h BLACK Suc.prems(2)] b(1,2,3) Suc.prems(3) obtain s1 v where
          s1: "fix_case d (top t) (Some p) (Some g) s = Ok (top v, s1)" "holds s1 (plug hs v)" "brk s1 = brk s"
            "bal (Suc n) v" "col v = BLACK" "v \<noteq> E" "keys v = keys (mk d g BLACK z (mk e p RED y t w) u)" by auto
        obtain f' where f': "fuel = Suc f'" using Suc.prems(5) Cons by (cases fuel) auto
        from step s1(1) f' fix_test_black [OF s1(2,5,6)] have "fix_loop (Suc fuel) (top t) s = Ok s1" by simp
        moreover from bal_plugI [OF s1(4) b(4)] s1(5) obtain k where "bal k (plug hs v)" "col (plug hs v) = BLACK" by auto
        ultimately show ?thesis using s1 kp by (intro repairedI [of _ s1 "plug hs v" k]) (auto simp: paint_col rb_keys_plug)
      qed
    qed
  qed
qed simp

text \<open>
  Without the invariants on colours the repair still ends and keeps the keys, as long as the root is black: a red parent is not the
  root, so there is a grandparent, and each step goes up to it.
\<close>

lemma fix_loop_any:
  assumes "holds s (plug fs t)" and "t \<noteq> E" and "fs \<noteq> [] \<longrightarrow> fcol (last fs) = BLACK" and "length fs < fuel"
  shows "\<exists>s' t'. fix_loop fuel (top t) s = Ok s' \<and> holds s' t' \<and> t' \<noteq> E \<and> keys t' = keys (plug fs t) \<and> brk s' = brk s"
  using assms
proof (induction fuel arbitrary: s fs t)
  case (Suc fuel)
  show ?case
  proof (cases "fs = [] \<or> col t = BLACK")
    case True
    then have "fix_test (top t) s = Ok False"
    proof
      assume "fs = []"
      then show ?thesis using fix_test_root [of s t] Suc.prems(1) by simp
    qed (rule fix_test_black [OF Suc.prems(1) _ Suc.prems(2)])
    then have "fix_loop (Suc fuel) (top t) s = Ok s" by simp
    then show ?thesis using Suc.prems(1,2) by (intro exI [of _ s] exI [of _ "plug fs t"]) simp
  next
    case False
    then have t: "col t = RED" by (cases "col t") auto
    obtain e p c y w gs where fs: "fs = F e p c y w # gs" using False by (metis frame.exhaust list.exhaust)
    note test = fix_test_red [of s e p c y w gs t]
    show ?thesis
    proof (cases c)
      case BLACK
      then have "fix_loop (Suc fuel) (top t) s = Ok s" using Suc.prems(1) test t fs by simp
      then show ?thesis using Suc.prems(1,2) by (intro exI [of _ s] exI [of _ "plug fs t"]) simp
    next
      case RED
      then obtain d g cg z u hs where gs: "gs = F d g cg z u # hs"
        using Suc.prems(3) fs by (cases gs; cases "hd gs") auto
      have h: "holds s (plug hs (mk d g cg z (mk e p RED y t w) u))" using Suc.prems(1) fs gs RED by simp
      have step: "fix_loop (Suc fuel) (top t) s = obind (fix_case d (top t) (Some p) (Some g) s) (\<lambda>(pt, s). fix_loop fuel pt s)"
        using Suc.prems(1,2) t test fs RED fix_step_case [OF h Suc.prems(2)] by simp
      have hs: "hs \<noteq> [] \<longrightarrow> fcol (last hs) = BLACK" "length hs < fuel" using Suc.prems(3,4) fs gs by auto
      have "\<exists>s1 v. fix_case d (top t) (Some p) (Some g) s = Ok (top v, s1) \<and> holds s1 (plug hs v) \<and> v \<noteq> E \<and> brk s1 = brk s \<and>
          keys v = keys (mk d g cg z (mk e p RED y t w) u)"
      proof (cases "col u")
        case RED
        from fix_recolor [OF h RED, of "top t"] obtain s1 where
          "fix_case d (top t) (Some p) (Some g) s = Ok (Some g, s1)"
          "holds s1 (plug hs (mk d g RED z (mk e p BLACK y t w) (paint BLACK u)))" "brk s1 = brk s" by blast
        then show ?thesis
          by (intro exI [of _ s1] exI [of _ "mk d g RED z (mk e p BLACK y t w) (paint BLACK u)"]) (cases d; cases e; simp)
      next
        case BLACK
        from fix_rotate [OF h BLACK t] show ?thesis by blast
      qed
      then obtain s1 v where s1: "fix_case d (top t) (Some p) (Some g) s = Ok (top v, s1)" "holds s1 (plug hs v)" "v \<noteq> E" "brk s1 = brk s"
        "keys v = keys (mk d g cg z (mk e p RED y t w) u)" by blast
      have kp: "keys (plug fs t) = keys (plug hs v)" using s1(5) by (simp add: fs gs RED rb_keys_plug)
      from Suc.IH [OF s1(2,3) hs] show ?thesis unfolding kp using step s1(1,4) by simp
    qed
  qed
qed simp

section \<open>Insertion into the search tree\<close>

fun bst :: "color \<Rightarrow> addr \<Rightarrow> int \<Rightarrow> tree \<Rightarrow> tree" where
  "bst g b k E = N b E g k E"
| "bst g b k (N a l c x r) = (if k < x then N a (bst g b k l) c x r else if k > x then N a l c x (bst g b k r) else N a l c x r)"

lemma bst_neE [simp]: "bst g b k t \<noteq> E" "E \<noteq> bst g b k t"
  by (cases t; simp)+

lemma rb_plug_append: "plug (fs @ gs) t = plug gs (plug fs t)"
  by (induction fs arbitrary: t) auto

lemma bst_plug: "k \<notin> set (keys t) \<Longrightarrow> \<exists>fs. t = plug fs E \<and> bst g b k t = plug fs (N b E g k E)"
proof (induction t)
  case E
  show ?case by (intro exI [of _ "[]"]) simp
next
  case (N a l c x r)
  show ?case
  proof (cases "k < x")
    case True
    with N obtain fs where "l = plug fs E" "bst g b k l = plug fs (N b E g k E)" by auto
    with True show ?thesis by (intro exI [of _ "fs @ [F Lt a c x r]"]) (simp add: rb_plug_append)
  next
    case False
    with N obtain fs where "r = plug fs E" "bst g b k r = plug fs (N b E g k E)" by auto
    with False N.prems show ?thesis by (intro exI [of _ "fs @ [F Rt a c x l]"]) (auto simp: rb_plug_append)
  qed
qed

lemma mset_bst: "k \<notin> set (keys t) \<Longrightarrow> mset (addrs (bst g b k t)) = add_mset b (mset (addrs t))"
  using bst_plug [of k t g b] by (auto simp: rb_mset_plug)

lemma bst_addrs:
  assumes "k \<notin> set (keys t)"
  shows "set (addrs (bst g b k t)) = {b} \<union> set (addrs t)" "distinct (addrs (bst g b k t)) \<longleftrightarrow> distinct (addrs t) \<and> b \<notin> set (addrs t)"
  using mset_bst [OF assms, of g b] mset_eq_setD [of "addrs (bst g b k t)" "b # addrs t"] mset_eq_imp_distinct_iff [of "addrs (bst g b k t)" "b # addrs t"]
  by auto

lemma keys_bst: "sorted_wrt (<) (keys t) \<Longrightarrow> k \<notin> set (keys t) \<Longrightarrow> sorted_wrt (<) (keys (bst g b k t)) \<and> set (keys (bst g b k t)) = {k} \<union> set (keys t)"
  by (induction t) (auto simp: sorted_wrt_append)

lemma attach:
  assumes "nodes s a = Some (rec d x c p q par)" and "rep (nodes s) par' u" and "u \<noteq> E" and "a \<notin> set (addrs u)"
  shows "obind (put (set_kid d (top u)) (Some a) s) (\<lambda>s. obind (get (kid d) (Some a) s) (\<lambda>c. obind (put_parent (Some a) c s) (\<lambda>s. Ok (Some a, s)))) =
    Ok (Some a, s\<lparr>nodes := reparent (Some a) u ((nodes s)(a \<mapsto> rec d x c (top u) q par))\<rparr>)"
proof -
  let ?s = "s\<lparr>nodes := (nodes s)(a \<mapsto> rec d x c (top u) q par)\<rparr>"
  have "rep (nodes ?s) par' u" using assms by simp
  from put_parent_top [OF this, of "Some a"] assms(3) have "put_parent (Some a) (top u) ?s = Ok (?s\<lparr>nodes := reparent (Some a) u (nodes ?s)\<rparr>)" by simp
  with assms(1) show ?thesis by simp
qed

definition fresh :: "rbtree \<Rightarrow> addr \<Rightarrow> int \<Rightarrow> color option \<Rightarrow> bool" where
  "fresh s b k g \<longleftrightarrow> nodes s b = Some \<lparr>data = k, color = g, left = None, right = None, parent = None\<rparr>"

definition grown :: "color \<Rightarrow> rbtree \<Rightarrow> (ptr \<times> rbtree) res \<Rightarrow> ptr \<Rightarrow> addr \<Rightarrow> int \<Rightarrow> tree \<Rightarrow> bool" where
  "grown g s r par b k t \<longleftrightarrow> (\<exists>h. r = Ok (top (bst g b k t), s\<lparr>nodes := h\<rparr>) \<and> rep h (if t = E then None else par) (bst g b k t) \<and>
     (\<forall>a. a \<notin> {b} \<union> set (addrs t) \<longrightarrow> h a = nodes s a))"

lemma grown_below:
  assumes gr: "grown g s (BSTInsert fuel (top u) (Some b) s) (Some a) b k u" and r: "rep (nodes s) par (mk d a c x u v)"
    and ds: "distinct (addrs (mk d a c x u v))" "b \<notin> set (addrs (mk d a c x u v))" and k: "k \<notin> set (keys u)"
  shows "\<exists>h. obind (BSTInsert fuel (top u) (Some b) s) (\<lambda>(c, s). obind (put (set_kid d c) (Some a) s) (\<lambda>s.
       obind (get (kid d) (Some a) s) (\<lambda>c. obind (put_parent (Some a) c s) (\<lambda>s. Ok (Some a, s))))) = Ok (Some a, s\<lparr>nodes := h\<rparr>) \<and>
     rep h par (mk d a c x (bst g b k u) v) \<and> (\<forall>a'. a' \<notin> {a, b} \<union> set (addrs u) \<longrightarrow> h a' = nodes s a')"
proof -
  from gr obtain h where h: "BSTInsert fuel (top u) (Some b) s = Ok (top (bst g b k u), s\<lparr>nodes := h\<rparr>)"
    "rep h (if u = E then None else Some a) (bst g b k u)" "\<forall>a. a \<notin> {b} \<union> set (addrs u) \<longrightarrow> h a = nodes s a" by (auto simp: grown_def)
  let ?h = "reparent (Some a) (bst g b k u) (h(a \<mapsto> rec d x c (top (bst g b k u)) (top v) par))"
  have au: "a \<notin> set (addrs (bst g b k u))" "distinct (addrs (bst g b k u))" "set (addrs (bst g b k u)) \<inter> set (addrs v) = {}"
    using ds bst_addrs [OF k, of g b] by auto
  have a: "h a = Some (rec d x c (top u) (top v) par)" using r h(3) ds by auto
  have v: "rep h (Some a) v = rep (nodes s) (Some a) v" by (rule rb_rep_cong) (use h(3) ds in auto)
  have "rep (h(a \<mapsto> rec d x c (top (bst g b k u)) (top v) par)) (if u = E then None else Some a) (bst g b k u)" using h(2) au by simp
  from rb_rep_reparent [OF this au(2)] have "rep ?h (Some a) (bst g b k u)" .
  moreover have "rep ?h (Some a) v" using r v au ds by simp
  moreover have "\<forall>a'. a' \<notin> {a, b} \<union> set (addrs u) \<longrightarrow> ?h a' = nodes s a'" using h(3) bst_addrs(1) [OF k, of g b] by simp
  ultimately show ?thesis
    using h(1) attach [of "s\<lparr>nodes := h\<rparr>" a d x c "top u" "top v" par _ "bst g b k u"] a h(2) au(1) by auto
qed

lemma BSTInsert_grows:
  assumes "rep (nodes s) par t" and "distinct (addrs t)" and "b \<notin> set (addrs t)" and "k \<notin> set (keys t)" and "fresh s b k (Some g)"
    and "length (addrs t) < fuel"
  shows "grown g s (BSTInsert fuel (top t) (Some b) s) par b k t"
  using assms
proof (induction t arbitrary: par fuel)
  case E
  then obtain f where "fuel = Suc f" by (cases fuel) auto
  with E show ?case by (auto simp: grown_def fresh_def intro!: exI [of _ "nodes s"])
next
  case (N a l c x r)
  from N.prems(6) obtain f where f: "fuel = Suc f" by (cases fuel) auto
  have n: "get data (Some b) s = Ok k" "get data (Some a) s = Ok x" "get (kid Lt) (Some a) s = Ok (top l)" "get (kid Rt) (Some a) s = Ok (top r)"
    using N.prems(1,5) by (auto simp: fresh_def)
  show ?case
  proof (cases "k < x")
    case True
    have "grown g s (BSTInsert f (top l) (Some b) s) (Some a) b k l" using N f by (intro N.IH(1)) auto
    from grown_below [OF this, of par Lt c x r] N.prems True f n show ?thesis by (auto simp: grown_def)
  next
    case False
    have "grown g s (BSTInsert f (top r) (Some b) s) (Some a) b k r" using N f by (intro N.IH(2)) auto
    from grown_below [OF this, of par Rt c x l] N.prems False f n show ?thesis by (auto simp: grown_def)
  qed
qed

section \<open>A key that is in the tree\<close>

lemma put_same: "nodes s a = Some n \<Longrightarrow> f n = n \<Longrightarrow> put f (Some a) s = Ok s"
  by (simp add: fun_upd_idem)

lemma BSTInsert_duplicate:
  assumes "rep (nodes s) par t" and "sorted_wrt (<) (keys t)" and "k \<in> set (keys t)" and "fresh s b k g" and "length (addrs t) < fuel"
  shows "BSTInsert fuel (top t) (Some b) s = Ok (top t, s)"
  using assms
proof (induction t arbitrary: par fuel)
  case (N a l c x r)
  from N.prems(5) obtain f where f: "fuel = Suc f" by (cases fuel) auto
  have n: "get data (Some b) s = Ok k" "nodes s a = Some (rec Lt x c (top l) (top r) par)" using N.prems(1,4) by (auto simp: fresh_def)
  have below: "obind (put (set_kid d (top u)) (Some a) s) (\<lambda>s. obind (get (kid d) (Some a) s) (\<lambda>c. obind (put_parent (Some a) c s) (\<lambda>s. Ok (Some a, s)))) = Ok (Some a, s)"
    if "d = Lt \<and> u = l \<or> d = Rt \<and> u = r" "k \<in> set (keys u)" for d u
  proof -
    from that N.prems(1) obtain b' n' where n': "top u = Some b'" "nodes s b' = Some n'" "parent n' = Some a" by (cases u) auto
    then have "n'\<lparr>parent := Some a\<rparr> = n'" by (cases n') simp
    with put_same [OF n'(2)] n'(1) have "put_parent (Some a) (top u) s = Ok s" by (simp add: put_parent_def)
    moreover have "put (set_kid d (top u)) (Some a) s = Ok s" using that by (intro put_same [OF n(2)]) auto
    moreover have "get (kid d) (Some a) s = Ok (top u)" using that n(2) by auto
    ultimately show ?thesis by simp
  qed
  have "sorted_wrt (<) (keys l)" "sorted_wrt (<) (keys r)" "\<forall>y \<in> set (keys l). y < x" "\<forall>y \<in> set (keys r). x < y"
    using N.prems(2) by (auto simp: sorted_wrt_append)
  then consider "k = x" | "k < x" "k \<in> set (keys l)" | "k > x" "k \<in> set (keys r)" using N.prems(3) by fastforce
  then show ?case
  proof cases
    case 2
    have "BSTInsert f (top l) (Some b) s = Ok (top l, s)" by (rule N.IH(1) [of "Some a"]) (use N.prems f 2 in \<open>auto simp: sorted_wrt_append\<close>)
    with 2 f n below [of Lt l] show ?thesis by simp
  next
    case 3
    have "BSTInsert f (top r) (Some b) s = Ok (top r, s)" by (rule N.IH(2) [of "Some a"]) (use N.prems f 3 in \<open>auto simp: sorted_wrt_append\<close>)
    with 3 f n below [of Rt r] show ?thesis by simp
  qed (use f n in simp)
qed simp

section \<open>Insertion\<close>

lemma length_addrs: "holds s t \<Longrightarrow> length (addrs t) \<le> brk s"
proof -
  assume "holds s t"
  then have "distinct (addrs t)" "set (addrs t) \<subseteq> {..<brk s}" by (auto simp: holds_def)
  then show ?thesis using card_mono [of "{..<brk s}" "set (addrs t)"] by (simp add: distinct_card)
qed

lemma length_plug: "length fs \<le> length (addrs (plug fs t))"
proof (induction fs arbitrary: t)
  case (Cons f fs)
  obtain d a c x u where "f = F d a c x u" by (cases f)
  have "length fs \<le> length (paddrs fs)" for fs by (induction fs rule: paddrs.induct) auto
  then have "length (f # fs) \<le> length (paddrs (f # fs))" .
  moreover have "length (paddrs gs) \<le> length (addrs (plug gs t))" for gs
    using rb_mset_plug [of gs t] by (metis le_add1 size_mset size_union)
  ultimately show ?case by (meson order_trans)
qed simp

lemma holds_new:
  assumes "holds s t" and "new_node g k s = (p, s1)"
  shows "p = Some (brk s)" "holds s1 t" "fresh s1 (brk s) k g" "brk s \<notin> set (addrs t)" "brk s1 = Suc (brk s)" "root s1 = top t"
proof -
  from assms show *: "brk s \<notin> set (addrs t)" "p = Some (brk s)" "fresh s1 (brk s) k g" "brk s1 = Suc (brk s)" "root s1 = top t"
    by (auto simp: holds_def new_node_def fresh_def)
  from assms * show "holds s1 t" by (auto simp: holds_def new_node_def simp del: fun_upd_apply)
qed

text \<open>What the search tree is like without balance: keys in order and a black root.\<close>

definition search_tree :: "tree \<Rightarrow> bool" where
  "search_tree t \<longleftrightarrow> sorted_wrt (<) (keys t) \<and> col t = BLACK"

lemma rbt_search: "rbt t \<Longrightarrow> search_tree t"
  by (simp add: rbt_def search_tree_def)

lemma col_plug: "fs \<noteq> [] \<Longrightarrow> col (plug fs t) = fcol (last fs)"
proof (induction fs arbitrary: t)
  case (Cons f fs)
  obtain d a c x u where f: "f = F d a c x u" by (cases f)
  show ?case using Cons.IH [of "plug1 f t"] by (cases "fs = []"; cases d) (auto simp: f)
qed simp

lemma rb_insert_any:
  assumes h: "holds s t" and t: "search_tree t" and k: "k \<notin> set (keys t)"
  shows "\<exists>s' t'. insert (Some g) k s = Ok s' \<and> holds s' t' \<and> search_tree t' \<and> set (keys t') = {k} \<union> set (keys t) \<and> brk s' = Suc (brk s)"
proof -
  let ?b = "brk s"
  obtain p s1 where n: "new_node (Some g) k s = (p, s1)" by (cases "new_node (Some g) k s")
  note s1 = holds_new [OF h n]
  have f: "length (addrs t) < Suc (brk s1)" using length_addrs [OF s1(2)] by simp
  have "grown g s1 (BSTInsert (Suc (brk s1)) (top t) (Some ?b) s1) None ?b k t"
    by (rule BSTInsert_grows) (use s1 k f in \<open>auto simp: holds_def\<close>)
  then obtain m where m: "BSTInsert (Suc (brk s1)) (top t) (Some ?b) s1 = Ok (top (bst g ?b k t), s1\<lparr>nodes := m\<rparr>)" "rep m None (bst g ?b k t)"
    unfolding grown_def by auto
  let ?s = "s1\<lparr>nodes := m, root := top (bst g ?b k t)\<rparr>"
  have hs: "holds ?s (bst g ?b k t)" using m(2) s1 bst_addrs [OF k, of g ?b] by (auto simp: holds_def)
  from bst_plug [OF k, of g ?b] obtain fs where fs: "t = plug fs E" "bst g ?b k t = plug fs (N ?b E g k E)" by blast
  have "fs \<noteq> [] \<longrightarrow> fcol (last fs) = BLACK" using t col_plug [of fs E] fs(1) by (auto simp: search_tree_def)
  moreover have "length fs < Suc (brk s1)" using length_plug [of fs "N ?b E g k E"] length_addrs [OF hs] fs(2) by simp
  ultimately obtain s2 t2 where s2: "fix_loop (Suc (brk s1)) (Some ?b) ?s = Ok s2" "holds s2 t2" "t2 \<noteq> E"
      "keys t2 = keys (bst g ?b k t)" "brk s2 = brk s1"
    using fix_loop_any [OF hs [unfolded fs(2)], of "Suc (brk s1)"] fs(2) by (auto simp del: fix_loop.simps)
  obtain a c x l r where t2: "t2 = mk Lt a c x l r" using s2(3) tree_mk [of t2 Lt] by blast
  from put_color_rep [of s2 "[]" Lt a c x l r BLACK] s2(2) t2 obtain s3 where
    s3: "put_color BLACK (top t2) s2 = Ok s3" "holds s3 (paint BLACK t2)" "brk s3 = brk s2" by auto
  have "root s2 = top t2" using s2(2) by (simp add: holds_def)
  then have "insert (Some g) k s = Ok s3" using n s1 m(1) s2(1) s3(1) by (simp add: insert_def fixViolation_def del: BSTInsert.simps fix_loop.simps)
  moreover have "search_tree (paint BLACK t2)" "set (keys (paint BLACK t2)) = {k} \<union> set (keys t)"
    using s2(4) t2 t keys_bst [of t k g ?b] k by (auto simp: search_tree_def)
  ultimately show ?thesis using s3 s2(5) s1(5) by auto
qed

lemma rb_insert_new:
  assumes h: "holds s t" and t: "rbt t" and k: "k \<notin> set (keys t)"
  shows "\<exists>s' t'. insert (Some RED) k s = Ok s' \<and> holds s' t' \<and> rbt t' \<and> set (keys t') = {k} \<union> set (keys t) \<and> brk s' = Suc (brk s)"
proof -
  let ?b = "brk s"
  obtain p s1 where n: "new_node (Some RED) k s = (p, s1)" by (cases "new_node (Some RED) k s")
  note s1 = holds_new [OF h n]
  have f: "length (addrs t) < Suc (brk s1)" using length_addrs [OF s1(2)] by simp
  have "grown RED s1 (BSTInsert (Suc (brk s1)) (top t) (Some ?b) s1) None ?b k t"
    by (rule BSTInsert_grows) (use s1 k f in \<open>auto simp: holds_def\<close>)
  then obtain m where m: "BSTInsert (Suc (brk s1)) (top t) (Some ?b) s1 = Ok (top (bst RED ?b k t), s1\<lparr>nodes := m\<rparr>)" "rep m None (bst RED ?b k t)"
    unfolding grown_def by auto
  let ?s = "s1\<lparr>nodes := m, root := top (bst RED ?b k t)\<rparr>"
  have hs: "holds ?s (bst RED ?b k t)" using m(2) s1 bst_addrs [OF k, of RED ?b] by (auto simp: holds_def)
  from bst_plug [OF k, of RED ?b] obtain fs where fs: "t = plug fs E" "bst RED ?b k t = plug fs (N ?b E RED k E)" by blast
  from t obtain j where "bal j t" "col t = BLACK" by (auto simp: rbt_def)
  with bal_plugD [of j fs E] fs(1) have bp: "bal_path 0 fs" by auto
  have "length fs < Suc (brk s1)" using length_plug [of fs "N ?b E RED k E"] length_addrs [OF hs] fs(2) by simp
  then have "repaired ?s (fix_loop (Suc (brk s1)) (top (N ?b E RED k E)) ?s) (plug fs (N ?b E RED k E))"
    using hs bp unfolding fs(2) by (intro fix_loop_spec [where n = 0]) auto
  then obtain s2 t2 j where s2: "fix_loop (Suc (brk s1)) (Some ?b) ?s = Ok s2" "holds s2 t2" "t2 \<noteq> E" "bal j (paint BLACK t2)"
    "keys t2 = keys (bst RED ?b k t)" "brk s2 = brk s1" unfolding fs(2) repaired_def by auto
  obtain a c x l r where t2: "t2 = mk Lt a c x l r" using s2(3) tree_mk [of t2 Lt] by blast
  from put_color_rep [of s2 "[]" Lt a c x l r BLACK] s2(2) t2 obtain s3 where
    s3: "put_color BLACK (top t2) s2 = Ok s3" "holds s3 (paint BLACK t2)" "brk s3 = brk s2" by auto
  have "root s2 = top t2" using s2(2) by (simp add: holds_def)
  then have "insert (Some RED) k s = Ok s3" using n s1 m(1) s2(1) s3(1) by (simp add: insert_def fixViolation_def del: BSTInsert.simps fix_loop.simps)
  moreover have "rbt (paint BLACK t2)" "set (keys (paint BLACK t2)) = {k} \<union> set (keys t)"
    using s2(4,5) t2 t keys_bst [of t k RED ?b] k by (auto simp: rbt_def)
  ultimately show ?thesis using s3 s2(6) s1(5) by auto
qed

lemma insert_duplicate:
  assumes h: "holds s t" and t: "search_tree t" and k: "k \<in> set (keys t)"
  shows "insert (Some RED) k s = Fault NullDeref" "\<exists>s'. insert (Some BLACK) k s = Ok s' \<and> holds s' t \<and> brk s' = Suc (brk s)"
proof -
  have dup: "\<exists>s1. new_node g k s = (Some (brk s), s1) \<and> BSTInsert (Suc (brk s1)) (root s1) (Some (brk s)) s1 = Ok (top t, s1) \<and>
      holds s1 t \<and> fresh s1 (brk s) k g \<and> brk s1 = Suc (brk s) \<and> s1\<lparr>root := top t\<rparr> = s1" for g
  proof -
    obtain p s1 where n: "new_node g k s = (p, s1)" by (cases "new_node g k s")
    note s1 = holds_new [OF h n]
    have f: "length (addrs t) < Suc (brk s1)" using length_addrs [OF s1(2)] by simp
    have "BSTInsert (Suc (brk s1)) (top t) (Some (brk s)) s1 = Ok (top t, s1)"
      by (rule BSTInsert_duplicate) (use s1 t k f in \<open>auto simp: holds_def search_tree_def\<close>)
    moreover have "s1\<lparr>root := top t\<rparr> = s1" using s1(6) by (cases s1) simp
    ultimately show ?thesis using n s1 by (intro exI [of _ s1]) (simp del: BSTInsert.simps)
  qed
  have nt: "top t \<noteq> Some (brk s)" using h top_in [of t "brk s"] by (auto simp: holds_def)
  show "insert (Some RED) k s = Fault NullDeref"
  proof -
    from dup [of "Some RED"] obtain s1 where "new_node (Some RED) k s = (Some (brk s), s1)"
      "BSTInsert (Suc (brk s1)) (root s1) (Some (brk s)) s1 = Ok (top t, s1)" "fresh s1 (brk s) k (Some RED)" by blast
    then show ?thesis using nt by (simp add: insert_def fixViolation_def fix_test_def fresh_def get_color_def del: BSTInsert.simps)
  qed
  from dup [of "Some BLACK"] obtain s1 where n: "new_node (Some BLACK) k s = (Some (brk s), s1)"
    "BSTInsert (Suc (brk s1)) (root s1) (Some (brk s)) s1 = Ok (top t, s1)" "holds s1 t" "fresh s1 (brk s) k (Some BLACK)"
    "brk s1 = Suc (brk s)" "s1\<lparr>root := top t\<rparr> = s1" by blast
  obtain a x l r where ta: "t = mk Lt a BLACK x l r" using k t tree_mk [of t Lt] by (cases t) (auto simp: search_tree_def)
  from put_color_rep [of s1 "[]" Lt a BLACK x l r BLACK] n(3) ta obtain s3 where
    s3: "put_color BLACK (top t) s1 = Ok s3" "holds s3 t" "brk s3 = brk s1" by auto
  have "root s1 = top t" using n(3) by (simp add: holds_def)
  moreover have "put_color BLACK (top t) (s1\<lparr>root := top t\<rparr>) = Ok s3" unfolding n(6) by (rule s3(1))
  ultimately have "insert (Some BLACK) k s = Ok s3"
    using n(1,2,4) nt by (simp add: insert_def fixViolation_def fix_test_def fresh_def get_color_def del: BSTInsert.simps)
  then show "\<exists>s'. insert (Some BLACK) k s = Ok s' \<and> holds s' t \<and> brk s' = Suc (brk s)" using s3 n(5) by auto
qed

end
