(* ===== verification/RB_Set.thy ===== *)
theory RB_Set
  imports RB_Insert
begin

text \<open>
  The red-black tree as an object: what a sequence of insertions builds, the traversals, the height, and the two ways in
  which an insertion fails, a key that is in the tree and a colour that has never been written.
\<close>

section \<open>Traversals\<close>

lemma inorder_rep: "rep (nodes s) par t \<Longrightarrow> length (addrs t) < fuel \<Longrightarrow> inorderHelper fuel (top t) s = Ok (keys t)"
proof (induction t arbitrary: par fuel)
  case E
  then show ?case by (cases fuel) auto
next
  case (N a l c x r)
  then obtain f where f: "fuel = Suc f" by (cases fuel) auto
  with N.IH(1) [of "Some a" f] N.IH(2) [of "Some a" f] N.prems show ?case by auto
qed

fun height :: "tree \<Rightarrow> nat" where
  "height E = 0"
| "height (N _ l _ _ r) = Suc (max (height l) (height r))"

text \<open>The keys at depth \<open>i\<close>, from left to right.\<close>

fun level :: "nat \<Rightarrow> tree \<Rightarrow> int list" where
  "level i E = []"
| "level 0 (N _ l _ x r) = [x]"
| "level (Suc i) (N _ l _ x r) = level i l @ level i r"

fun subs :: "tree \<Rightarrow> tree list" where
  "subs E = []"
| "subs (N _ l _ _ r) = (if l = E then [] else [l]) @ (if r = E then [] else [r])"

lemma subs_nonempty: "u \<in> set (subs t) \<Longrightarrow> u \<noteq> E"
  by (cases t) (auto split: if_splits)

lemma level_subs: "level (Suc i) t = concat (map (level i) (subs t))"
  by (cases t) auto

lemma rep_subs: "rep h par t \<Longrightarrow> u \<in> set (subs t) \<Longrightarrow> \<exists>par. rep h par u"
  by (cases t) (auto split: if_splits)

definition forest :: "rbtree \<Rightarrow> tree list \<Rightarrow> bool" where
  "forest s ts \<longleftrightarrow> (\<forall>t \<in> set ts. t \<noteq> E \<and> (\<exists>par. rep (nodes s) par t))"

lemma levelOrder_row:
  "forest s ts \<Longrightarrow> levelOrder_loop (length ts + fuel) (map top (ts @ us)) s =
     obind (levelOrder_loop fuel (map top (us @ concat (map subs ts))) s) (\<lambda>xs. Ok (concat (map (level 0) ts) @ xs))"
proof (induction ts arbitrary: us)
  case Nil
  then show ?case by (cases "levelOrder_loop fuel (map top us) s") auto
next
  case (Cons t ts)
  then obtain a l c x r par where t: "t = N a l c x r" and "rep (nodes s) par t" by (cases t) (auto simp: forest_def)
  then have n: "nodes s a = Some (rec Lt x c (top l) (top r) par)" by simp
  from Cons.prems have "forest s ts" by (simp add: forest_def)
  note IH = Cons.IH [OF this, of "us @ subs t"]
  have "levelOrder_loop (Suc k) (Some a # q) s = obind (levelOrder_loop k (q @ map top (subs t)) s) (\<lambda>xs. Ok (x # xs))" for k q
    using n t by (cases l; cases r) simp_all
  with IH t show ?case by (cases "levelOrder_loop fuel (map top (us @ subs t @ concat (map subs ts))) s") (simp_all del: subs.simps levelOrder_loop.simps)
qed

lemma height_subs: "u \<in> set (subs t) \<Longrightarrow> height u < height t"
  by (cases t) (auto split: if_splits)

lemma length_subs: "t \<noteq> E \<Longrightarrow> length (addrs t) = Suc (length (concat (map addrs (subs t))))"
  by (cases t) auto

lemma length_rows: "\<forall>t \<in> set ts. t \<noteq> E \<Longrightarrow>
   length (concat (map addrs ts)) = length ts + length (concat (map addrs (concat (map subs ts))))"
proof (induction ts)
  case (Cons t ts)
  with length_subs [of t] show ?case by simp
qed simp

lemma levelOrder_rows:
  "forest s ts \<Longrightarrow> \<forall>t \<in> set ts. height t \<le> n \<Longrightarrow> length (concat (map addrs ts)) < fuel \<Longrightarrow>
   levelOrder_loop fuel (map top ts) s = Ok (concat (map (\<lambda>i. concat (map (level i) ts)) [0..<n]))"
proof (induction n arbitrary: ts fuel)
  case 0
  have "ts = []"
  proof (rule ccontr)
    assume "ts \<noteq> []"
    then obtain t where "t \<in> set ts" by fastforce
    with 0 show False by (cases t) (auto simp: forest_def)
  qed
  with 0 show ?case by (cases fuel) auto
next
  case (Suc n)
  let ?us = "concat (map subs ts)"
  have us: "forest s ?us" using Suc.prems(1) rep_subs subs_nonempty unfolding forest_def by fastforce
  have hu: "\<forall>u \<in> set ?us. height u \<le> n" using Suc.prems(2) height_subs by fastforce
  have l: "length (concat (map addrs ts)) = length ts + length (concat (map addrs ?us))"
    using Suc.prems(1) by (intro length_rows) (auto simp: forest_def)
  define f where "f = fuel - length ts"
  have f: "fuel = length ts + f" "length (concat (map addrs ?us)) < f" using Suc.prems(3) l by (simp_all add: f_def)
  have "concat (map (level i) ?us) = concat (map (level (Suc i)) ts)" for i
    by (induction ts) (simp_all add: level_subs)
  then have e: "map (\<lambda>i. concat (map (level i) ?us)) [0..<n] = map (\<lambda>i. concat (map (level i) ts)) [1..<Suc n]"
    by (intro nth_equalityI) (simp_all del: upt_Suc)
  show ?case using levelOrder_row [OF Suc.prems(1), of f "[]"] Suc.IH [OF us hu f(2)] f(1) e by (simp add: upt_conv_Cons del: upt_Suc)
qed

section \<open>Height\<close>

lemma bal_size: "bal n t \<Longrightarrow> 2 ^ n \<le> Suc (length (keys t))"
proof (induction t arbitrary: n)
  case (N a l c x r)
  show ?case
  proof (cases c)
    case RED
    with N.IH(1) [of n] N.prems show ?thesis by auto
  next
    case BLACK
    with N.prems obtain m where "n = Suc m" "bal m l" "bal m r" by (auto split: nat.splits)
    with N.IH(1) [of m] N.IH(2) [of m] show ?thesis by simp
  qed
qed simp

lemma bal_height: "bal n t \<Longrightarrow> height t \<le> 2 * n + (if col t = RED then 1 else 0)"
proof (induction t arbitrary: n)
  case (N a l c x r)
  show ?case
  proof (cases c)
    case RED
    with N.IH(1) [of n] N.IH(2) [of n] N.prems show ?thesis by auto
  next
    case BLACK
    with N.prems obtain m where "n = Suc m" "bal m l" "bal m r" by (auto split: nat.splits)
    with N.IH(1) [of m] N.IH(2) [of m] BLACK show ?thesis by (auto split: if_splits)
  qed
qed simp

lemma rbt_height: "rbt t \<Longrightarrow> 2 ^ ((height t + 1) div 2) \<le> Suc (length (keys t))"
proof -
  assume "rbt t"
  then obtain n where n: "bal n t" "col t = BLACK" by (auto simp: rbt_def)
  then have "(height t + 1) div 2 \<le> n" using bal_height [of n t] by auto
  then have "(2 :: nat) ^ ((height t + 1) div 2) \<le> 2 ^ n" by (rule power_increasing) simp
  from this bal_size [OF n(1)] show ?thesis by (rule order_trans)
qed

section \<open>The tree as an object\<close>

definition is_rbtree :: "rbtree \<Rightarrow> bool" where
  "is_rbtree s \<longleftrightarrow> (\<exists>t. holds s t \<and> rbt t)"

definition is_search :: "rbtree \<Rightarrow> bool" where
  "is_search s \<longleftrightarrow> (\<exists>t. holds s t \<and> search_tree t)"

definition elems :: "rbtree \<Rightarrow> int set" where
  "elems s = {k. \<exists>t. holds s t \<and> k \<in> set (keys t)}"

lemma rb_rep_unique: "rep h par t \<Longrightarrow> rep h par u \<Longrightarrow> top t = top u \<Longrightarrow> t = u"
proof (induction t arbitrary: par u)
  case (N a l c x r)
  then obtain l' c' x' r' where u: "u = N a l' c' x' r'" by (cases u) auto
  with N.prems have "top l = top l'" "top r = top r'" "c = c'" "x = x'" by auto
  with N.IH(1) [of "Some a" l'] N.IH(2) [of "Some a" r'] N.prems u show ?case by simp
qed simp

lemma elems_holds: "holds s t \<Longrightarrow> elems s = set (keys t)"
  using rb_rep_unique [of "nodes s" None] by (fastforce simp: elems_def holds_def)

lemma new_RBTree_holds: "holds new_RBTree E" "rbt E" "search_tree E"
  by (auto simp: holds_def new_RBTree_def rbt_def search_tree_def)

text \<open>An entry is a key with the colour its memory holds: any colour for a search tree, red for a red-black tree.\<close>

interpretation rb_any: growing_set new_RBTree is_search elems snd "\<lambda>(g, k). insert (Some g) k"
proof unfold_locales
  show "is_search new_RBTree" "elems new_RBTree = {}" using new_RBTree_holds elems_holds [OF new_RBTree_holds(1)] by (auto simp: is_search_def)
  show "\<exists>s'. (case e of (g, k) \<Rightarrow> insert (Some g) k) s = Ok s' \<and> is_search s' \<and> elems s' = Set.insert (snd e) (elems s)"
    if i: "is_search s" "snd e \<notin> elems s" for s and e :: "color \<times> int"
  proof -
    from i obtain t where t: "holds s t" "search_tree t" by (auto simp: is_search_def)
    from rb_insert_any [OF t, of "snd e" "fst e"] i elems_holds [OF t(1)] elems_holds show ?thesis by (cases e) (fastforce simp: is_search_def)
  qed
qed

interpretation rb_red: growing_set new_RBTree is_rbtree elems id "insert (Some RED)"
proof unfold_locales
  show "is_rbtree new_RBTree" "elems new_RBTree = {}" using new_RBTree_holds elems_holds [OF new_RBTree_holds(1)] by (auto simp: is_rbtree_def)
  show "\<exists>s'. insert (Some RED) k s = Ok s' \<and> is_rbtree s' \<and> elems s' = Set.insert (id k) (elems s)" if i: "is_rbtree s" "id k \<notin> elems s" for s k
  proof -
    from i obtain t where t: "holds s t" "rbt t" by (auto simp: is_rbtree_def)
    from rb_insert_new [OF t, of k] i elems_holds [OF t(1)] elems_holds show ?thesis by (fastforce simp: is_rbtree_def)
  qed
qed

lemma inserts_entries: "length gs = length ks \<Longrightarrow> inserts (map Some gs) ks = seqs (map (\<lambda>(g, k). insert (Some g) k) (zip gs ks))"
  by (simp add: inserts_def zip_map1 case_prod_unfold comp_def)

lemma rb_rep_live: "rep h par t \<Longrightarrow> a \<in> set (addrs t) \<Longrightarrow> h a \<noteq> None"
  by (induction t arbitrary: par) auto

section \<open>Colours that are not written\<close>

text \<open>The same store with another colour in one node, which the insertion into the search tree does not look at.\<close>

definition shade :: "color option \<Rightarrow> addr \<Rightarrow> rbtree \<Rightarrow> rbtree" where
  "shade g b s = s\<lparr>nodes := (nodes s)(b := map_option (\<lambda>n. n\<lparr>color := g\<rparr>) (nodes s b))\<rparr>"

lemma get_shade: "(\<And>n. f (n\<lparr>color := g\<rparr>) = f n) \<Longrightarrow> get f p (shade g b s) = get f p s"
  by (cases p) (auto simp: shade_def split: option.splits)

lemma put_shade:
  assumes "\<And>n. f (n\<lparr>color := g\<rparr>) = (f n)\<lparr>color := g\<rparr>"
  shows "put f p (shade g b s) = obind (put f p s) (\<lambda>s. Ok (shade g b s))"
  using assms by (cases p) (auto simp: shade_def fun_upd_twist split: option.splits)

lemma kid_shade [simp]: "kid d (n\<lparr>color := g\<rparr>) = kid d n" "set_kid d p (n\<lparr>color := g\<rparr>) = (set_kid d p n)\<lparr>color := g\<rparr>"
  by (cases d; simp)+

lemma obind_obind: "obind (obind m f) g = obind m (\<lambda>x. obind (f x) g)"
  by (cases m) auto

lemma obind_cong: "m = m' \<Longrightarrow> (\<And>x. f x = f' x) \<Longrightarrow> obind m f = obind m' f'"
  by (cases m') auto

lemma BSTInsert_shade:
  "BSTInsert fuel r pt (shade g b s) = obind (BSTInsert fuel r pt s) (\<lambda>(r, s). Ok (r, shade g b s))"
proof (induction fuel arbitrary: r s)
  case (Suc fuel)
  have "obind (BSTInsert fuel c pt (shade g b s)) (\<lambda>(c, s). obind (put (set_kid d c) r s) (\<lambda>s.
          obind (get (kid d) r s) (\<lambda>c. obind (put_parent r c s) (\<lambda>s. Ok (r, s))))) =
        obind (obind (BSTInsert fuel c pt s) (\<lambda>(c, s). obind (put (set_kid d c) r s) (\<lambda>s.
          obind (get (kid d) r s) (\<lambda>c. obind (put_parent r c s) (\<lambda>s. Ok (r, s)))))) (\<lambda>(r, s). Ok (r, shade g b s))" for c d
    unfolding Suc obind_obind
    by (rule obind_cong) (auto simp: get_shade put_shade put_parent_def obind_obind split: prod.splits)
  then show ?case by (auto simp: get_shade obind_obind Let_def intro!: obind_cong)
qed simp

lemma new_node_shade: "new_node g k s = (p, s1) \<Longrightarrow> new_node g' k s = (p, shade g' (brk s) s1)"
  by (auto simp: new_node_def shade_def)

text \<open>
  The constructor of a node does not set its colour. With memory that may not be read before it is written, every
  insertion into a tree that is not empty reads the colour of the new node before it is written.
\<close>

lemma rb_insert_uninitialised:
  assumes h: "holds s t" and t: "search_tree t" and ne: "t \<noteq> E"
  shows "insert None k s = Fault Uninitialised"
proof -
  let ?b = "brk s"
  obtain p s1 where n: "new_node None k s = (p, s1)" by (cases "new_node None k s")
  note s1 = holds_new [OF h n]
  have f: "length (addrs t) < Suc (brk s1)" using length_addrs [OF s1(2)] by simp
  have "\<exists>s2. BSTInsert (Suc (brk s1)) (top t) (Some ?b) s1 = Ok (top t, s2) \<and> get_color (Some ?b) s2 = Fault Uninitialised"
  proof (cases "k \<in> set (keys t)")
    case True
    have "BSTInsert (Suc (brk s1)) (top t) (Some ?b) s1 = Ok (top t, s1)"
      by (rule BSTInsert_duplicate) (use s1 t True f in \<open>auto simp: holds_def search_tree_def\<close>)
    with s1(3) show ?thesis by (simp add: fresh_def get_color_def)
  next
    case False
    obtain s1' where n': "new_node (Some RED) k s = (p, s1')" using new_node_shade [OF n] by blast
    note s1' = holds_new [OF h n']
    have "grown RED s1' (BSTInsert (Suc (brk s1)) (top t) (Some ?b) s1') None ?b k t"
      by (rule BSTInsert_grows) (use s1' s1(5) False f in \<open>auto simp: holds_def\<close>)
    then obtain m where m: "BSTInsert (Suc (brk s1)) (top t) (Some ?b) s1' = Ok (top (bst RED ?b k t), s1'\<lparr>nodes := m\<rparr>)" "rep m None (bst RED ?b k t)"
      unfolding grown_def by auto
    have "?b \<in> set (addrs (bst RED ?b k t))" using bst_addrs(1) [OF False] by simp
    then have "m ?b \<noteq> None" using m(2) rb_rep_live by blast
    moreover have "top (bst RED ?b k t) = top t" using ne by (cases t) auto
    moreover have "s1 = shade None ?b s1'" using new_node_shade [OF n', of None] n by simp
    then have "BSTInsert (Suc (brk s1)) (top t) (Some ?b) s1 = Ok (top (bst RED ?b k t), shade None ?b (s1'\<lparr>nodes := m\<rparr>))"
      using m(1) BSTInsert_shade [of "Suc (brk s1)" "top t" "Some ?b" None ?b s1'] by (simp del: BSTInsert.simps)
    ultimately show ?thesis by (auto simp: shade_def get_color_def)
  qed
  then obtain s2 where "BSTInsert (Suc (brk s1)) (top t) (Some ?b) s1 = Ok (top t, s2)" "get_color (Some ?b) s2 = Fault Uninitialised" by blast
  moreover have "top t \<noteq> Some ?b" using s1(4) top_in by auto
  ultimately show ?thesis using n s1 by (simp add: insert_def fixViolation_def fix_test_def get_color_def del: BSTInsert.simps)
qed

section \<open>Properties\<close>

text \<open>
  C2: the constructor of a node leaves its colour unwritten, and the insertion is stated for whatever the memory holds. In a store that
  represents a search tree with a black root (keys strictly ascending, parent pointers that fit), if the memory holds a colour, red or black, the insertion
  of a new key returns and the store then represents such a tree with exactly this key more; if it holds red and the tree is
  a red-black tree (no red node with a red child, as many black nodes on every path), so is the result. A key that is there
  already crashes at a null parent when the memory holds red, and changes nothing but the memory used when it holds black. If the memory may not be read
  before it is written, every insertion but the first one fails.
\<close>

theorem rb_insert_refines:
  assumes "holds s t" and "search_tree t"
  shows "case g of
      None \<Rightarrow> if t = E then \<exists>s'. insert g k s = Ok s' \<and> holds s' (N (brk s) E BLACK k E) else insert g k s = Fault Uninitialised
    | Some c \<Rightarrow>
        if k \<in> set (keys t) then (if c = RED then insert g k s = Fault NullDeref else \<exists>s'. insert g k s = Ok s' \<and> holds s' t)
        else \<exists>s' t'. insert g k s = Ok s' \<and> holds s' t' \<and> search_tree t' \<and> set (keys t') = {k} \<union> set (keys t) \<and>
               brk s' = Suc (brk s) \<and> (c = RED \<and> rbt t \<longrightarrow> rbt t')"
proof (cases g)
  case None
  have "\<exists>s'. insert None k s = Ok s' \<and> holds s' (N (brk s) E BLACK k E)" if "t = E"
    using assms(1) that by (auto simp: insert_def new_node_def holds_def fixViolation_def fix_test_def put_color_def)
  then show ?thesis using None rb_insert_uninitialised [OF assms, of k] by simp
next
  case (Some c)
  show ?thesis
  proof (cases "k \<in> set (keys t)")
    case True
    then show ?thesis using insert_duplicate [OF assms] Some by (cases c) auto
  next
    case False
    show ?thesis
    proof (cases "c = RED \<and> rbt t")
      case True
      then show ?thesis using rb_insert_new [OF assms(1) _ False] rbt_search Some False by fastforce
    next
      case other: False
      then show ?thesis using rb_insert_any [OF assms False, of c] Some False by auto
    qed
  qed
qed

definition sample :: rbtree where
  "sample = \<lparr>root = Some 0, nodes = [0 \<mapsto> \<lparr>data = 5, color = Some BLACK, left = None, right = Some 1, parent = None\<rparr>,
     1 \<mapsto> \<lparr>data = 8, color = Some RED, left = None, right = None, parent = Some 0\<rparr>], brk = 2\<rparr>"

lemma sample_rbt: "holds sample (N 0 E BLACK 5 (N 1 E RED 8 E))" "rbt (N 0 E BLACK 5 (N 1 E RED 8 E))"
  by (auto simp: holds_def sample_def rbt_def intro!: exI [of _ 1])

theorem rb_insert_refines_witness:
  "insert None 9 sample = Fault Uninitialised \<and> insert (Some RED) 8 sample = Fault NullDeref \<and>
   (\<exists>s' t'. insert (Some RED) 9 sample = Ok s' \<and> holds s' t' \<and> rbt t' \<and> set (keys t') = {5, 8, 9}) \<and>
   (\<exists>s' t'. insert (Some BLACK) 9 sample = Ok s' \<and> holds s' t' \<and> search_tree t' \<and> set (keys t') = {5, 8, 9})"
proof -
  note r = rb_insert_refines [OF sample_rbt(1) rbt_search [OF sample_rbt(2)]]
  show ?thesis using r [of None 9] r [of "Some RED" 8] r [of "Some RED" 9] r [of "Some BLACK" 9] sample_rbt(2) by (auto simp: insert_commute)
qed

lemma traversals:
  assumes h: "holds s t"
  shows "inorder s = Ok (keys t)" "levelOrder s = Ok (concat (map (\<lambda>i. level i t) [0..<height t]))"
proof -
  have r: "rep (nodes s) None t" "root s = top t" "length (addrs t) < Suc (brk s)" using h length_addrs [OF h] by (auto simp: holds_def)
  then show "inorder s = Ok (keys t)" using inorder_rep [OF r(1,3)] by (simp add: inorder_def del: inorderHelper.simps)
  show "levelOrder s = Ok (concat (map (\<lambda>i. level i t) [0..<height t]))"
  proof (cases "t = E")
    case False
    with levelOrder_rows [of s "[t]" "height t" "Suc (brk s)"] r show ?thesis by (auto simp: levelOrder_def forest_def simp del: levelOrder_loop.simps)
  qed (use r in \<open>simp add: levelOrder_def\<close>)
qed

text \<open>
  C22: different keys are inserted one after the other into a new tree, with any colour in the memory of each new node. Then the inorder
  traversal prints the keys in ascending order and the level order traversal prints the rows of the tree from left to right, top
  down. If all this memory holds red, the tree is a red-black tree, and its height is at most twice the logarithm of the number of keys plus one.
\<close>

theorem rb_inserts_print:
  assumes "distinct ks" and "length gs = length ks"
  shows "\<exists>s t. inserts (map Some gs) ks new_RBTree = Ok s \<and> holds s t \<and> inorder s = Ok (sort ks) \<and>
     levelOrder s = Ok (concat (map (\<lambda>i. level i t) [0..<height t])) \<and>
     (set gs \<subseteq> {RED} \<longrightarrow> rbt t \<and> 2 ^ ((height t + 1) div 2) \<le> length ks + 1)"
proof -
  have d: "distinct (map snd (zip gs ks))" "snd ` set (zip gs ks) = set ks"
    using assms by (simp_all flip: set_map)
  from rb_any.inserts_new [OF d(1)] obtain s t where
    s: "inserts (map Some gs) ks new_RBTree = Ok s" "holds s t" "search_tree t" "elems s = set ks"
    unfolding inserts_entries [OF assms(2)] d(2) is_search_def by blast
  have "set (keys t) = set ks" using elems_holds [OF s(2)] s(4) by simp
  then have k: "keys t = sort ks" using s(3) assms(1) unfolding search_tree_def
    by (metis distinct_sort set_sort sorted_distinct_set_unique sorted_sort strict_sorted_iff)
  have "rbt t" if "set gs \<subseteq> {RED}"
  proof -
    have "map Some gs = replicate (length ks) (Some RED)" using that assms(2) by (intro replicate_eqI) auto
    then have "inserts (map Some gs) ks = seqs (map (insert (Some RED)) ks)"
      by (simp add: inserts_def zip_replicate1 comp_def)
    then obtain t' where t': "holds s t'" "rbt t'" using rb_red.inserts_new [of ks] assms(1) s(1) by (auto simp: is_rbtree_def)
    have "rep (nodes s) None t" "rep (nodes s) None t'" "top t = top t'" using s(2) t'(1) by (auto simp: holds_def)
    from rb_rep_unique [OF this] t'(2) show ?thesis by (rule ssubst)
  qed
  then show ?thesis using s(1,2) k traversals [OF s(2)] rbt_height [of t] by (intro exI [of _ s] exI [of _ t]) auto
qed

theorem rb_inserts_print_witness:
  "\<exists>s. main_inserts (map Some [RED, BLACK, RED, BLACK, RED, RED, BLACK]) = Ok s \<and> inorder s = Ok [1, 2, 3, 4, 5, 6, 7]"
proof -
  have "sort [7, 6, 5, 4, 3, 2, 1] = [1, 2, 3, 4, 5, 6, 7 :: int]" by code_simp
  with rb_inserts_print [of "[7, 6, 5, 4, 3, 2, 1]" "[RED, BLACK, RED, BLACK, RED, RED, BLACK]"] show ?thesis by (auto simp: main_inserts_def)
qed

end
