(* ===== verification/Cells.thy ===== *)
theory Cells
  imports Outcome
begin

text \<open>
  Singly linked lists as the exercises of \<open>src/computation\<close> have them: a cell with a payload and a pointer to the next one, on a
  heap. A list of cells is given with its addresses; \<open>chain\<close> says that the heap holds these cells, linked in this
  order, and that the last one points to \<open>q\<close>. \<open>malloc\<close> takes the next unused address and does not fail. Every program
  has its own copy of \<open>push\<close> and \<open>printList\<close>; they are the same.
\<close>

section \<open>Access\<close>

fun at :: "('a cell \<Rightarrow> 'b) \<Rightarrow> ptr \<Rightarrow> 'a heap \<Rightarrow> 'b res" where
  "at f None h = Fault NullDeref"
| "at f (Some p) h = (case h p of None \<Rightarrow> Fault (WildDeref p) | Some c \<Rightarrow> Ok (f c))"

fun set_at :: "('a cell \<Rightarrow> 'a cell) \<Rightarrow> ptr \<Rightarrow> 'a heap \<Rightarrow> 'a heap res" where
  "set_at f None h = Fault NullDeref"
| "set_at f (Some p) h = (case h p of None \<Rightarrow> Fault (WildDeref p) | Some c \<Rightarrow> Ok (h(p \<mapsto> f c)))"

definition set_next :: "ptr \<Rightarrow> ptr \<Rightarrow> 'a heap \<Rightarrow> 'a heap res" where
  "set_next p q = set_at (\<lambda>c. c\<lparr>cell_next := q\<rparr>) p"

definition set_data :: "ptr \<Rightarrow> 'a \<Rightarrow> 'a heap \<Rightarrow> 'a heap res" where
  "set_data p x = set_at (\<lambda>c. c\<lparr>cell_data := x\<rparr>) p"

text \<open>\<open>free\<close> of a null pointer does nothing.\<close>

definition free :: "ptr \<Rightarrow> 'a heap \<Rightarrow> 'a heap res" where
  "free p h = (case p of None \<Rightarrow> Ok h | Some a \<Rightarrow> if h a = None then Fault (WildDeref a) else Ok (h(a := None)))"

record 'a lists =
  heap :: "'a heap"
  brk :: addr

definition malloc :: "'a lists \<Rightarrow> addr \<times> 'a lists" where
  "malloc s = (brk s, s\<lparr>brk := Suc (brk s)\<rparr>)"

definition init_cell :: "addr \<Rightarrow> 'a \<Rightarrow> ptr \<Rightarrow> 'a lists \<Rightarrow> 'a lists" where
  "init_cell b x p s = s\<lparr>heap := (heap s)(b \<mapsto> \<lparr>cell_next = p, cell_data = x\<rparr>)\<rparr>"

definition push :: "ptr \<Rightarrow> 'a \<Rightarrow> 'a lists \<Rightarrow> ptr \<times> 'a lists" where
  "push head_ref new_data s = (case malloc s of (b, s) \<Rightarrow> (Some b, init_cell b new_data head_ref s))"

fun printList :: "nat \<Rightarrow> ptr \<Rightarrow> 'a heap \<Rightarrow> 'a list res" where
  "printList 0 p h = Timeout"
| "printList (Suc fuel) p h =
     (if p = None then Ok []
      else obind (at cell_data p h) (\<lambda>x. obind (at cell_next p h) (\<lambda>p. obind (printList fuel p h) (\<lambda>xs. Ok (x # xs)))))"

section \<open>Chains\<close>

type_synonym 'a cells = "(addr \<times> 'a) list"

fun first :: "'a cells \<Rightarrow> ptr \<Rightarrow> ptr" where
  "first [] q = q"
| "first ((a, x) # cs) q = Some a"

fun chain :: "'a heap \<Rightarrow> 'a cells \<Rightarrow> ptr \<Rightarrow> bool" where
  "chain h [] q = True"
| "chain h ((a, x) # cs) q = (h a = Some \<lparr>cell_next = first cs q, cell_data = x\<rparr> \<and> chain h cs q)"

abbreviation cell_addrs :: "'a cells \<Rightarrow> addr set" where
  "cell_addrs cs \<equiv> fst ` set cs"

abbreviation vals :: "'a cells \<Rightarrow> 'a list" where
  "vals cs \<equiv> map snd cs"

lemma first_append [simp]: "first (cs @ ds) q = first cs (first ds q)"
  by (cases cs) auto

lemma first_None [simp]: "first cs None = None \<longleftrightarrow> cs = []" "None = first cs None \<longleftrightarrow> cs = []"
  by (cases cs; auto)+

lemma first_in: "first cs q = Some a \<Longrightarrow> a \<notin> cell_addrs cs \<Longrightarrow> cs = [] \<and> q = Some a"
  by (cases cs) auto

lemma chain_append [simp]: "chain h (cs @ ds) q \<longleftrightarrow> chain h cs (first ds q) \<and> chain h ds q"
  by (induction cs) auto

lemma chain_cong: "(\<And>a. a \<in> cell_addrs cs \<Longrightarrow> h' a = h a) \<Longrightarrow> chain h' cs q = chain h cs q"
  by (induction cs) auto

lemma chain_upd [simp]: "a \<notin> cell_addrs cs \<Longrightarrow> chain (h(a := v)) cs q = chain h cs q"
  by (rule chain_cong) auto

lemma chain_frame: "\<forall>a. a \<notin> A \<longrightarrow> h' a = h a \<Longrightarrow> A \<inter> cell_addrs cs = {} \<Longrightarrow> chain h' cs q = chain h cs q"
  by (rule chain_cong) blast

lemma chain_last:
  assumes "chain h (ms @ [(a, x)]) q" and "a \<notin> cell_addrs ms"
  shows "chain (h(a \<mapsto> \<lparr>cell_next = p, cell_data = x\<rparr>)) (ms @ [(a, x)]) p"
  using assms by simp

lemma chain_live: "chain h cs q \<Longrightarrow> a \<in> cell_addrs cs \<Longrightarrow> h a \<noteq> None"
  by (induction cs) force+

lemma at_first [simp]: "h a = Some c \<Longrightarrow> at f (Some a) h = Ok (f c)"
  by simp

lemma at_first_data: "chain h cs None \<Longrightarrow> cs \<noteq> [] \<Longrightarrow> \<exists>x. at cell_data (first cs None) h = Ok x"
  by (cases cs) auto

lemma printList_chain: "chain h cs None \<Longrightarrow> length cs < fuel \<Longrightarrow> printList fuel (first cs None) h = Ok (vals cs)"
proof (induction cs arbitrary: fuel)
  case Nil
  then show ?case by (cases fuel) auto
next
  case (Cons c cs)
  then show ?case by (cases c; cases fuel) auto
qed

section \<open>Growing heaps\<close>

text \<open>What was there stays as it was; new cells are at new addresses.\<close>

definition extends :: "'a lists \<Rightarrow> 'a lists \<Rightarrow> bool" where
  "extends s s' \<longleftrightarrow> brk s \<le> brk s' \<and> (\<forall>a < brk s. heap s' a = heap s a)"

definition owned :: "'a lists \<Rightarrow> 'a cells \<Rightarrow> bool" where
  "owned s cs \<longleftrightarrow> chain (heap s) cs None \<and> distinct (map fst cs) \<and> (\<forall>a \<in> cell_addrs cs. a < brk s)"

definition fresh_in :: "'a lists \<Rightarrow> 'a lists \<Rightarrow> 'a cells \<Rightarrow> bool" where
  "fresh_in s s' cs \<longleftrightarrow> chain (heap s') cs None \<and> distinct (map fst cs) \<and> (\<forall>a \<in> cell_addrs cs. brk s \<le> a \<and> a < brk s')"

lemma extends_refl [simp]: "extends s s"
  by (simp add: extends_def)

lemma extends_trans: "extends s s' \<Longrightarrow> extends s' s'' \<Longrightarrow> extends s s''"
  by (auto simp: extends_def)

lemma extends_owned: "extends s s' \<Longrightarrow> owned s cs \<Longrightarrow> owned s' cs"
  unfolding owned_def extends_def using chain_cong [of cs "heap s'" "heap s"] by fastforce

lemma fresh_owned: "fresh_in s s' cs \<Longrightarrow> owned s' cs"
  by (auto simp: fresh_in_def owned_def)

lemma push_fresh:
  assumes "fresh_in s s1 cs" and "extends s s1" and "push (first cs None) x s1 = (p, s2)"
  shows "p = first ((brk s1, x) # cs) None" "fresh_in s s2 ((brk s1, x) # cs)" "extends s s2"
proof -
  have b: "brk s1 \<notin> cell_addrs cs" using assms(1) by (auto simp: fresh_in_def)
  from assms b show "p = first ((brk s1, x) # cs) None" "fresh_in s s2 ((brk s1, x) # cs)" "extends s s2"
    by (auto simp: push_def malloc_def init_cell_def fresh_in_def extends_def simp del: fun_upd_apply simp: fun_upd_same fun_upd_other)
qed

end
