(* ===== verification/List_Add.thy ===== *)
theory List_Add
  imports Cells
begin

text \<open>
  Addition of two numbers given as lists of digits, the leading one first (\<open>AddNumberByLinkedList.cpp\<close>, of which
  \<open>add-linked-list.h\<close> is a copy): the shorter list is added to the end of the longer one, the carry is returned through the
  recursion and propagated into the rest.
\<close>

section \<open>The program\<close>

fun getSize :: "nat \<Rightarrow> ptr \<Rightarrow> int heap \<Rightarrow> int res" where
  "getSize 0 p h = Timeout"
| "getSize (Suc fuel) p h =
     (if p = None then Ok 0 else obind (at cell_next p h) (\<lambda>p. obind (getSize fuel p h) (\<lambda>n. Ok (n + 1))))"

text \<open>The cell of the sum is allocated before the recursion and written after it; nothing reads it in between.\<close>

fun addSameSize :: "nat \<Rightarrow> ptr \<Rightarrow> ptr \<Rightarrow> int \<Rightarrow> int lists \<Rightarrow> (ptr \<times> int \<times> int lists) res" where
  "addSameSize 0 head1 head2 carry s = Timeout"
| "addSameSize (Suc fuel) head1 head2 carry s =
     (if head1 = None then Ok (None, carry, s)
      else case malloc s of (b, s) \<Rightarrow>
        obind (at cell_next head1 (heap s)) (\<lambda>n1. obind (at cell_next head2 (heap s)) (\<lambda>n2.
        obind (addSameSize fuel n1 n2 carry s) (\<lambda>(r, carry, s).
        obind (at cell_data head1 (heap s)) (\<lambda>d1. obind (at cell_data head2 (heap s)) (\<lambda>d2.
          let sum = d1 + d2 + carry in Ok (Some b, c_quot sum 10, init_cell b (c_rem sum 10) r s)))))))"

fun addCarryToRemaining :: "nat \<Rightarrow> ptr \<Rightarrow> ptr \<Rightarrow> int \<Rightarrow> ptr \<Rightarrow> int lists \<Rightarrow> (int \<times> ptr \<times> int lists) res" where
  "addCarryToRemaining 0 head1 cur carry r s = Timeout"
| "addCarryToRemaining (Suc fuel) head1 cur carry r s =
     (if head1 \<noteq> cur then
        obind (at cell_next head1 (heap s)) (\<lambda>n.
        obind (addCarryToRemaining fuel n cur carry r s) (\<lambda>(carry, r, s).
        obind (at cell_data head1 (heap s)) (\<lambda>d.
          let sum = d + carry in case push r (c_rem sum 10) s of (r, s) \<Rightarrow> Ok (c_quot sum 10, r, s))))
      else Ok (carry, r, s))"

text \<open>\<open>for (cur = head1; diff--; cur = cur->next);\<close>\<close>

fun advance :: "nat \<Rightarrow> ptr \<Rightarrow> int heap \<Rightarrow> ptr res" where
  "advance 0 cur h = Ok cur"
| "advance (Suc diff) cur h = obind (at cell_next cur h) (\<lambda>cur. advance diff cur h)"

text \<open>The fuel is one more than the number of cells ever allocated: no list is longer.\<close>

definition addList :: "ptr \<Rightarrow> ptr \<Rightarrow> int lists \<Rightarrow> (ptr \<times> int lists) res" where
  "addList head1 head2 s =
     (if head1 = None then Ok (head2, s)
      else if head2 = None then Ok (head1, s)
      else
        obind (getSize (Suc (brk s)) head1 (heap s)) (\<lambda>size1. obind (getSize (Suc (brk s)) head2 (heap s)) (\<lambda>size2.
        obind (if size1 = size2 then
                 obind (addSameSize (Suc (brk s)) head1 head2 0 s) (\<lambda>(r, carry, s). Ok (carry, r, s))
               else
                 let diff = nat \<bar>size1 - size2\<bar>; (head1, head2) = (if size1 < size2 then (head2, head1) else (head1, head2)) in
                 obind (advance diff head1 (heap s)) (\<lambda>cur.
                 obind (addSameSize (Suc (brk s)) cur head2 0 s) (\<lambda>(r, carry, s').
                   addCarryToRemaining (Suc (brk s)) head1 cur carry r s'))) (\<lambda>(carry, r, s).
          if carry \<noteq> 0 then Ok (push r carry s) else Ok (r, s)))))"

section \<open>Numbers\<close>

fun number :: "int list \<Rightarrow> int" where
  "number [] = 0"
| "number (d # ds) = d * 10 ^ length ds + number ds"

definition digits :: "int list \<Rightarrow> bool" where
  "digits ds \<longleftrightarrow> (\<forall>d \<in> set ds. 0 \<le> d \<and> d \<le> 9)"

lemma digits_simps [simp]: "digits []" "digits (d # ds) \<longleftrightarrow> 0 \<le> d \<and> d \<le> 9 \<and> digits ds" "digits (cs @ ds) \<longleftrightarrow> digits cs \<and> digits ds"
  by (auto simp: digits_def)

lemma number_append: "number (cs @ ds) = number cs * 10 ^ length ds + number ds"
  by (induction cs) (auto simp: algebra_simps power_add)

section \<open>Correctness\<close>

lemma getSize_chain: "chain h cs None \<Longrightarrow> length cs < fuel \<Longrightarrow> getSize fuel (first cs None) h = Ok (int (length cs))"
proof (induction cs arbitrary: fuel)
  case Nil
  then show ?case by (cases fuel) auto
next
  case (Cons c cs)
  then show ?case by (cases c; cases fuel) auto
qed

lemma advance_chain: "chain h (cs @ ds) None \<Longrightarrow> advance (length cs) (first (cs @ ds) None) h = Ok (first ds None)"
proof (induction cs)
  case (Cons c cs)
  then show ?case by (cases c) auto
qed simp

lemma digit_carry: "0 \<le> s \<Longrightarrow> s \<le> 19 \<Longrightarrow> c_quot s 10 * 10 + c_rem s 10 = s \<and> 0 \<le> c_rem s 10 \<and> c_rem s 10 \<le> 9 \<and> c_quot s 10 \<in> {0, 1}"
  by (auto simp: div_mult_mod_eq)

definition summed :: "int lists \<Rightarrow> int lists \<Rightarrow> ptr \<Rightarrow> int \<Rightarrow> nat \<Rightarrow> int \<Rightarrow> bool" where
  "summed s s' r carry n v \<longleftrightarrow> (\<exists>zs. r = first zs None \<and> fresh_in s s' zs \<and> extends s s' \<and> length zs = n \<and> digits (vals zs) \<and>
     carry \<in> {0, 1} \<and> carry * 10 ^ n + number (vals zs) = v)"

lemma carry_place:
  fixes t :: int
  assumes "u * 10 + w = t"
  shows "u * 10 ^ Suc m + (w * 10 ^ m + z) = t * 10 ^ m + z"
  unfolding assms [symmetric] by (simp add: algebra_simps)

lemma init_front:
  assumes "malloc s = (b, s1)" and "fresh_in s1 s2 zs" and "extends s1 s2"
  shows "fresh_in s (init_cell b d (first zs None) s2) ((b, d) # zs)" "extends s (init_cell b d (first zs None) s2)"
proof -
  have b: "b = brk s" "brk s1 = Suc (brk s)" "heap s1 = heap s" using assms(1) by (auto simp: malloc_def)
  have "b \<notin> cell_addrs zs" using assms(2) b by (auto simp: fresh_in_def)
  with assms(2,3) b show "fresh_in s (init_cell b d (first zs None) s2) ((b, d) # zs)" "extends s (init_cell b d (first zs None) s2)"
    by (auto simp: init_cell_def fresh_in_def extends_def Suc_le_eq less_imp_le simp del: fun_upd_apply simp: fun_upd_same fun_upd_other)
qed

lemma malloc_extends: "malloc s = (b, s1) \<Longrightarrow> extends s s1"
  by (auto simp: malloc_def extends_def)

lemma extends_cell: "extends s s' \<Longrightarrow> owned s ((a, x) # cs) \<Longrightarrow> heap s' a = Some \<lparr>cell_next = first cs None, cell_data = x\<rparr>"
  by (auto simp: extends_def owned_def)

lemma owned_tl: "owned s (c # cs) \<Longrightarrow> owned s cs"
  by (cases c) (auto simp: owned_def)

lemma addSameSize_sum:
  "owned s cs \<Longrightarrow> owned s ds \<Longrightarrow> length cs = length ds \<Longrightarrow> digits (vals cs) \<Longrightarrow> digits (vals ds) \<Longrightarrow> carry \<in> {0, 1} \<Longrightarrow> length cs < fuel \<Longrightarrow>
   \<exists>r carry' s'. addSameSize fuel (first cs None) (first ds None) carry s = Ok (r, carry', s') \<and>
     summed s s' r carry' (length cs) (number (vals cs) + number (vals ds) + carry)"
proof (induction cs arbitrary: ds s fuel)
  case Nil
  then obtain f where "fuel = Suc f" by (cases fuel) auto
  with Nil show ?case by (auto simp: summed_def fresh_in_def intro!: exI [of _ "[]"])
next
  case (Cons c cs)
  obtain a x where c: "c = (a, x)" by (cases c)
  from Cons.prems(3) obtain b y ds' where d: "ds = (b, y) # ds'" by (cases ds) auto
  from Cons.prems(7) obtain f where f: "fuel = Suc f" by (cases fuel) auto
  obtain m s1 where m: "malloc s = (m, s1)" by (cases "malloc s")
  note e = malloc_extends [OF m]
  from extends_owned [OF e owned_tl] Cons.prems c d have o: "owned s1 cs" "owned s1 ds'" by auto
  from Cons.IH [OF o, of f] Cons.prems c d f obtain r k s2 where
    r: "addSameSize f (first cs None) (first ds' None) carry s1 = Ok (r, k, s2)"
      "summed s1 s2 r k (length cs) (number (vals cs) + number (vals ds') + carry)" by auto
  from r(2) obtain zs where zs: "r = first zs None" "fresh_in s1 s2 zs" "extends s1 s2" "length zs = length cs" "digits (vals zs)" "k \<in> {0, 1}"
    "k * 10 ^ length cs + number (vals zs) = number (vals cs) + number (vals ds') + carry" by (auto simp: summed_def)
  have n: "heap s1 a = Some \<lparr>cell_next = first cs None, cell_data = x\<rparr>" "heap s2 a = Some \<lparr>cell_next = first cs None, cell_data = x\<rparr>"
    "heap s1 b = Some \<lparr>cell_next = first ds' None, cell_data = y\<rparr>" "heap s2 b = Some \<lparr>cell_next = first ds' None, cell_data = y\<rparr>"
    using extends_cell [OF e] extends_cell [OF extends_trans [OF e zs(3)]] Cons.prems(1,2) c d by auto
  let ?t = "x + y + k"
  let ?s = "init_cell m (c_rem ?t 10) r s2"
  have q: "c_quot ?t 10 * 10 + c_rem ?t 10 = ?t" "0 \<le> c_rem ?t 10" "c_rem ?t 10 \<le> 9" "c_quot ?t 10 \<in> {0, 1}"
    using digit_carry [of ?t] zs(6) Cons.prems(4,5) c d by auto
  have "addSameSize fuel (first (c # cs) None) (first ds None) carry s = Ok (Some m, c_quot ?t 10, ?s)"
    using f m n r(1) c d by (simp add: Let_def)
  moreover have "summed s ?s (Some m) (c_quot ?t 10) (length (c # cs)) (number (vals (c # cs)) + number (vals ds) + carry)"
  proof -
    have "c_quot ?t 10 * 10 ^ Suc (length cs) + (c_rem ?t 10 * 10 ^ length cs + number (vals zs)) = ?t * 10 ^ length cs + number (vals zs)"
      by (rule carry_place [OF q(1)])
    also have "\<dots> = number (vals (c # cs)) + number (vals ds) + carry" using zs(7) Cons.prems(3) c d by (simp add: algebra_simps)
    finally show ?thesis using init_front [OF m zs(2,3), of "c_rem ?t 10"] zs(1,4,5) q(2,3,4)
      by (auto simp: summed_def intro!: exI [of _ "(m, c_rem ?t 10) # zs"] simp del: c_quot_nonneg c_rem_nonneg)
  qed
  ultimately show ?case by blast
qed

lemma addCarry_sum:
  assumes "owned s (cs @ ds)" and "digits (vals cs)" and "extends s s1" and "summed s s1 r k n v" and "length cs < fuel"
  shows "\<exists>k' r' s'. addCarryToRemaining fuel (first (cs @ ds) None) (first ds None) k r s1 = Ok (k', r', s') \<and>
     summed s s' r' k' (length cs + n) (number (vals cs) * 10 ^ n + v)"
  using assms
proof (induction cs arbitrary: fuel)
  case Nil
  then show ?case by (cases fuel) auto
next
  case (Cons c cs)
  obtain a x where c: "c = (a, x)" by (cases c)
  from Cons.prems(5) obtain f where f: "fuel = Suc f" by (cases fuel) auto
  from Cons.IH [of f] owned_tl Cons.prems c f obtain k1 r1 s2 where
    r1: "addCarryToRemaining f (first (cs @ ds) None) (first ds None) k r s1 = Ok (k1, r1, s2)"
      "summed s s2 r1 k1 (length cs + n) (number (vals cs) * 10 ^ n + v)" by fastforce
  from r1(2) obtain zs where zs: "r1 = first zs None" "fresh_in s s2 zs" "extends s s2" "length zs = length cs + n" "digits (vals zs)" "k1 \<in> {0, 1}"
    "k1 * 10 ^ (length cs + n) + number (vals zs) = number (vals cs) * 10 ^ n + v" by (auto simp: summed_def)
  have h: "heap s1 a = Some \<lparr>cell_next = first (cs @ ds) None, cell_data = x\<rparr>" "heap s2 a = Some \<lparr>cell_next = first (cs @ ds) None, cell_data = x\<rparr>"
    using extends_cell [OF Cons.prems(3)] extends_cell [OF zs(3)] Cons.prems(1) c by auto
  have ne: "first ds None \<noteq> Some a" using Cons.prems(1) c by (cases ds) (auto simp: owned_def)
  let ?t = "x + k1"
  have q: "c_quot ?t 10 * 10 + c_rem ?t 10 = ?t" "0 \<le> c_rem ?t 10" "c_rem ?t 10 \<le> 9" "c_quot ?t 10 \<in> {0, 1}"
    using digit_carry [of ?t] zs(6) Cons.prems(2) c by auto
  obtain r2 s3 where p: "push r1 (c_rem ?t 10) s2 = (r2, s3)" by (cases "push r1 (c_rem ?t 10) s2")
  note pf = push_fresh [OF zs(2,3) p [unfolded zs(1)]]
  have "addCarryToRemaining fuel (first ((c # cs) @ ds) None) (first ds None) k r s1 = Ok (c_quot ?t 10, r2, s3)"
    using f h r1(1) c ne p by (simp add: Let_def eq_commute [of "Some a"])
  moreover have "summed s s3 r2 (c_quot ?t 10) (length (c # cs) + n) (number (vals (c # cs)) * 10 ^ n + v)"
  proof -
    let ?m = "length cs + n"
    have "c_quot ?t 10 * 10 ^ Suc ?m + (c_rem ?t 10 * 10 ^ ?m + number (vals zs)) = ?t * 10 ^ ?m + number (vals zs)"
      by (rule carry_place [OF q(1)])
    also have "\<dots> = number (vals (c # cs)) * 10 ^ n + v" using zs(7) c by (simp add: algebra_simps power_add)
    finally show ?thesis using pf zs(4,5) q(2,3,4)
      by (auto simp: summed_def intro!: exI [of _ "(brk s2, c_rem ?t 10) # zs"] simp del: c_quot_nonneg c_rem_nonneg)
  qed
  ultimately show ?case by blast
qed

declare getSize.simps [simp del] addSameSize.simps [simp del] addCarryToRemaining.simps [simp del]

lemma owned_length: "owned s cs \<Longrightarrow> length cs \<le> brk s"
proof -
  assume "owned s cs"
  then have "distinct (map fst cs)" "set (map fst cs) \<subseteq> {..<brk s}" by (auto simp: owned_def)
  then show ?thesis using card_mono [of "{..<brk s}" "set (map fst cs)"] distinct_card [of "map fst cs"] by simp
qed

text \<open>The carry that is left becomes the leading digit.\<close>

lemma last_carry:
  assumes "summed s s' r k n v"
  shows "\<exists>zs s''. (if k \<noteq> 0 then Ok (push r k s') else Ok (r, s')) = Ok (first zs None, s'') \<and> fresh_in s s'' zs \<and> extends s s'' \<and>
     digits (vals zs) \<and> number (vals zs) = v"
proof -
  from assms obtain zs where zs: "r = first zs None" "fresh_in s s' zs" "extends s s'" "length zs = n" "digits (vals zs)" "k \<in> {0, 1}"
    "k * 10 ^ n + number (vals zs) = v" by (auto simp: summed_def)
  obtain p s'' where p: "push (first zs None) k s' = (p, s'')" by (cases "push (first zs None) k s'")
  show ?thesis
  proof (cases "k = 0")
    case True
    with zs show ?thesis by (intro exI [of _ zs] exI [of _ s']) simp
  next
    case False
    with zs(6) have "digits (k # vals zs)" using zs(5) by auto
    with False push_fresh [OF zs(2,3) p] p zs(1,4,7) show ?thesis by (intro exI [of _ "(brk s', k) # zs"] exI [of _ s'']) auto
  qed
qed

text \<open>The longer list first.\<close>

lemma addList_unequal:
  assumes cs: "owned s cs" "digits (vals cs)" and ds: "owned s ds" "digits (vals ds)" and l: "length ds < length cs"
  shows "\<exists>k r s'. obind (advance (nat \<bar>int (length cs) - int (length ds)\<bar>) (first cs None) (heap s)) (\<lambda>cur.
       obind (addSameSize (Suc (brk s)) cur (first ds None) 0 s) (\<lambda>(r, carry, s').
         addCarryToRemaining (Suc (brk s)) (first cs None) cur carry r s')) = Ok (k, r, s') \<and>
     summed s s' r k (length cs) (number (vals cs) + number (vals ds))"
proof -
  define m where "m = length cs - length ds"
  define us where "us = take m cs"
  define ws where "ws = drop m cs"
  have c: "cs = us @ ws" "length us = m" "length ws = length ds" using l by (simp_all add: us_def ws_def m_def)
  have m: "nat \<bar>int (length cs) - int (length ds)\<bar> = length us" using l c(2) by (simp add: m_def nat_diff_distrib' of_nat_diff)
  have w: "owned s ws" "digits (vals ws)" "digits (vals us)" "chain (heap s) (us @ ws) None" using cs c(1) by (auto simp: owned_def)
  have f: "length ws < Suc (brk s)" "length us < Suc (brk s)" using owned_length [OF cs(1)] c(1) by auto
  from addSameSize_sum [OF w(1) ds(1) c(3) w(2) ds(2), of 0 "Suc (brk s)"] f(1) obtain r k s1 where
    r: "addSameSize (Suc (brk s)) (first ws None) (first ds None) 0 s = Ok (r, k, s1)"
      "summed s s1 r k (length ws) (number (vals ws) + number (vals ds))" by auto
  have e: "extends s s1" using r(2) by (auto simp: summed_def)
  from addCarry_sum [OF cs(1) [unfolded c(1)] w(3) e r(2) f(2)] obtain k' r' s' where
    r': "addCarryToRemaining (Suc (brk s)) (first (us @ ws) None) (first ws None) k r s1 = Ok (k', r', s')"
      "summed s s' r' k' (length us + length ws) (number (vals us) * 10 ^ length ws + (number (vals ws) + number (vals ds)))" by blast
  have v: "number (vals us) * 10 ^ length ws + (number (vals ws) + number (vals ds)) = number (vals cs) + number (vals ds)"
    using c(1) number_append [of "vals us" "vals ws"] by simp
  show ?thesis unfolding m using advance_chain [OF w(4)] r(1) r' c(1) v
    by (intro exI [of _ k'] exI [of _ r'] exI [of _ s']) simp
qed

text \<open>
  C23: for two lists of decimal digits, leading digit first, \<open>addList\<close> returns a list of decimal digits whose number is the
  sum of the two numbers, whatever the lengths are; when neither list is empty all its cells are new and the two lists
  are still there unchanged.
\<close>

theorem addList_adds:
  assumes "owned s cs" and "digits (vals cs)" and "owned s ds" and "digits (vals ds)"
  shows "\<exists>zs s'. addList (first cs None) (first ds None) s = Ok (first zs None, s') \<and> owned s' zs \<and> digits (vals zs) \<and>
     number (vals zs) = number (vals cs) + number (vals ds) \<and> owned s' cs \<and> owned s' ds \<and> (cs \<noteq> [] \<and> ds \<noteq> [] \<longrightarrow> fresh_in s s' zs)"
proof (cases "cs = [] \<or> ds = []")
  case True
  with assms show ?thesis by (auto simp: addList_def)
next
  case False
  have sz: "getSize (Suc (brk s)) (first cs None) (heap s) = Ok (int (length cs))" "getSize (Suc (brk s)) (first ds None) (heap s) = Ok (int (length ds))"
    using owned_length [OF assms(1)] owned_length [OF assms(3)] assms(1,3) by (auto intro!: getSize_chain simp: owned_def)
  consider "length cs = length ds" | "length ds < length cs" | "length cs < length ds" by linarith
  then have "\<exists>k r s' n. addList (first cs None) (first ds None) s = (if k \<noteq> 0 then Ok (push r k s') else Ok (r, s')) \<and>
     summed s s' r k n (number (vals cs) + number (vals ds))"
  proof cases
    case 1
    from addSameSize_sum [OF assms(1,3) 1 assms(2,4), of 0 "Suc (brk s)"] owned_length [OF assms(1)] obtain r k s1 where
      "addSameSize (Suc (brk s)) (first cs None) (first ds None) 0 s = Ok (r, k, s1)"
      "summed s s1 r k (length cs) (number (vals cs) + number (vals ds))" by auto
    with False sz 1 show ?thesis
      by (intro exI [of _ k] exI [of _ r] exI [of _ s1] exI [of _ "length cs"]) (simp add: addList_def del: obind_eq_Ok)
  next
    case 2
    from addList_unequal [OF assms 2] obtain k r s' where
      "obind (advance (nat \<bar>int (length cs) - int (length ds)\<bar>) (first cs None) (heap s)) (\<lambda>cur.
         obind (addSameSize (Suc (brk s)) cur (first ds None) 0 s) (\<lambda>(r, carry, s').
           addCarryToRemaining (Suc (brk s)) (first cs None) cur carry r s')) = Ok (k, r, s')"
      "summed s s' r k (length cs) (number (vals cs) + number (vals ds))" by blast
    with False sz 2 show ?thesis
      by (intro exI [of _ k] exI [of _ r] exI [of _ s'] exI [of _ "length cs"]) (simp add: addList_def del: obind_eq_Ok)
  next
    case 3
    from addList_unequal [OF assms(3,4,1,2) 3, unfolded abs_minus_commute [of "int (length ds)"] add.commute [of "number (vals ds)"]] obtain k r s' where
      "obind (advance (nat \<bar>int (length cs) - int (length ds)\<bar>) (first ds None) (heap s)) (\<lambda>cur.
         obind (addSameSize (Suc (brk s)) cur (first cs None) 0 s) (\<lambda>(r, carry, s').
           addCarryToRemaining (Suc (brk s)) (first ds None) cur carry r s')) = Ok (k, r, s')"
      "summed s s' r k (length ds) (number (vals cs) + number (vals ds))" by blast
    with False sz 3 show ?thesis
      by (intro exI [of _ k] exI [of _ r] exI [of _ s'] exI [of _ "length ds"]) (simp add: addList_def del: obind_eq_Ok)
  qed
  then obtain k r s' n where a: "addList (first cs None) (first ds None) s = (if k \<noteq> 0 then Ok (push r k s') else Ok (r, s'))"
    "summed s s' r k n (number (vals cs) + number (vals ds))" by blast
  from last_carry [OF a(2)] a(1) obtain zs s'' where "addList (first cs None) (first ds None) s = Ok (first zs None, s'')" "fresh_in s s'' zs"
    "extends s s''" "digits (vals zs)" "number (vals zs) = number (vals cs) + number (vals ds)" by metis
  then show ?thesis using extends_owned assms(1,3) fresh_owned by blast
qed

definition two_lists :: "int lists" where
  "two_lists = \<lparr>heap = [0 \<mapsto> \<lparr>cell_next = Some 1, cell_data = 9\<rparr>, 1 \<mapsto> \<lparr>cell_next = Some 2, cell_data = 9\<rparr>, 2 \<mapsto> \<lparr>cell_next = None, cell_data = 9\<rparr>,
     3 \<mapsto> \<lparr>cell_next = Some 4, cell_data = 1\<rparr>, 4 \<mapsto> \<lparr>cell_next = None, cell_data = 8\<rparr>], brk = 5\<rparr>"

theorem addList_adds_witness:
  "\<exists>zs s'. addList (Some 0) (Some 3) two_lists = Ok (first zs None, s') \<and> owned s' zs \<and> digits (vals zs) \<and> number (vals zs) = 1017"
proof -
  have "owned two_lists [(0, 9), (1, 9), (2, 9)]" "owned two_lists [(3, 1), (4, 8)]" by (simp_all add: owned_def two_lists_def)
  from addList_adds [OF this(1) _ this(2)] show ?thesis by auto
qed

end
