(* ===== verification/List_Merge.thy ===== *)
theory List_Merge
  imports Cells
begin

text \<open>
  Merging of linked lists in place: two sorted lists into one, twice, with a dummy cell and with a pointer to the last link
  (\<open>MergeTwoLinkedList.cpp\<close>), and one list into another at alternate positions (\<open>MergeLinkedList.cpp\<close>, of which
  \<open>LinkedListInsertAtAlternate.h\<close> is a copy). No cell is allocated: the cells of the result are those of the arguments.
\<close>

section \<open>Merging of sorted lists\<close>

text \<open>
  Where a pointer to a link points: to the variable \<open>result\<close> (to the link of the dummy cell), or to the link of a cell. The
  variable and the heap together are the memory.
\<close>

datatype link = Var | Next addr

type_synonym 'a memory = "ptr \<times> 'a heap"

fun read_link :: "link \<Rightarrow> 'a memory \<Rightarrow> ptr res" where
  "read_link Var (r, h) = Ok r"
| "read_link (Next a) (r, h) = at cell_next (Some a) h"

fun write_link :: "link \<Rightarrow> ptr \<Rightarrow> 'a memory \<Rightarrow> 'a memory res" where
  "write_link Var p (r, h) = Ok (p, h)"
| "write_link (Next a) p (r, h) = obind (set_next (Some a) p h) (\<lambda>h. Ok (r, h))"

text \<open>The source is a variable of the caller: its new value is returned. The assertion is a test for a null pointer.\<close>

definition MoveNode :: "link \<Rightarrow> ptr \<Rightarrow> 'a memory \<Rightarrow> (ptr \<times> 'a memory) res" where
  "MoveNode destRef source m =
     (case m of (r, h) \<Rightarrow>
        let newNode = source in
        if newNode = None then Fault (Aborted 0)
        else obind (at cell_next newNode h) (\<lambda>source.
          obind (read_link destRef (r, h)) (\<lambda>d.
          obind (set_next newNode d h) (\<lambda>h.
          obind (write_link destRef newNode (r, h)) (\<lambda>m. Ok (source, m))))))"

text \<open>\<open>&((*lastPtrRef)->next)\<close>\<close>

definition next_link :: "link \<Rightarrow> 'a memory \<Rightarrow> link res" where
  "next_link l m = obind (read_link l m) (\<lambda>p. case p of None \<Rightarrow> Fault NullDeref | Some a \<Rightarrow> Ok (Next a))"

fun merge2_loop :: "nat \<Rightarrow> link \<Rightarrow> ptr \<Rightarrow> ptr \<Rightarrow> int memory \<Rightarrow> int memory res" where
  "merge2_loop 0 lastPtrRef a b m = Timeout"
| "merge2_loop (Suc fuel) lastPtrRef a b m =
     (if a = None then write_link lastPtrRef b m
      else if b = None then write_link lastPtrRef a m
      else obind (at cell_data a (snd m)) (\<lambda>x. obind (at cell_data b (snd m)) (\<lambda>y.
        if x \<le> y then
          obind (MoveNode lastPtrRef a m) (\<lambda>(a, m). obind (next_link lastPtrRef m) (\<lambda>l. merge2_loop fuel l a b m))
        else
          obind (MoveNode lastPtrRef b m) (\<lambda>(b, m). obind (next_link lastPtrRef m) (\<lambda>l. merge2_loop fuel l a b m)))))"

definition SortedMerge2 :: "nat \<Rightarrow> ptr \<Rightarrow> ptr \<Rightarrow> int heap \<Rightarrow> int memory res" where
  "SortedMerge2 fuel a b h = merge2_loop fuel Var a b (None, h)"

text \<open>
  With the dummy cell. \<open>tail\<close> is given by the link it is used for. After a cell of \<open>b\<close> has been moved, what has been merged so
  far is printed, with fuel of its own: the output comes last.
\<close>

fun merge_loop :: "nat \<Rightarrow> nat \<Rightarrow> link \<Rightarrow> ptr \<Rightarrow> ptr \<Rightarrow> int memory \<Rightarrow> int list list \<Rightarrow> (int memory \<times> int list list) res" where
  "merge_loop pf 0 tail a b m out = Timeout"
| "merge_loop pf (Suc fuel) tail a b m out =
     (if a = None then obind (write_link tail b m) (\<lambda>m. Ok (m, out))
      else if b = None then obind (write_link tail a m) (\<lambda>m. Ok (m, out))
      else obind (at cell_data a (snd m)) (\<lambda>x. obind (at cell_data b (snd m)) (\<lambda>y.
        if x \<le> y then
          obind (MoveNode tail a m) (\<lambda>(a, m). obind (next_link tail m) (\<lambda>l. merge_loop pf fuel l a b m out))
        else
          obind (MoveNode tail b m) (\<lambda>(b, m). obind (printList pf (fst m) (snd m)) (\<lambda>xs.
            obind (next_link tail m) (\<lambda>l. merge_loop pf fuel l a b m (out @ [xs])))))))"

definition SortedMerge :: "nat \<Rightarrow> ptr \<Rightarrow> ptr \<Rightarrow> int heap \<Rightarrow> (int memory \<times> int list list) res" where
  "SortedMerge fuel a b h = merge_loop fuel fuel Var a b (None, h) []"

section \<open>Merging at alternate positions\<close>

fun merge :: "nat \<Rightarrow> ptr \<Rightarrow> ptr \<Rightarrow> 'a heap \<Rightarrow> (ptr \<times> 'a heap) res" where
  "merge 0 p_curr q_curr h = Timeout"
| "merge (Suc fuel) p_curr q_curr h =
     (if p_curr \<noteq> None \<and> q_curr \<noteq> None then
        obind (at cell_next p_curr h) (\<lambda>p_next. obind (at cell_next q_curr h) (\<lambda>q_next.
        obind (set_next q_curr p_next h) (\<lambda>h. obind (set_next p_curr q_curr h) (\<lambda>h. merge fuel p_next q_next h))))
      else Ok (q_curr, h))"

section \<open>Correctness of the sorted merge\<close>

fun merged :: "int cells \<Rightarrow> int cells \<Rightarrow> int cells" where
  "merged [] ds = ds"
| "merged (c # cs) [] = c # cs"
| "merged (c # cs) (d # ds) = (if snd c \<le> snd d then c # merged cs (d # ds) else d # merged (c # cs) ds)"

lemma merged_Nil [simp]: "merged cs [] = cs"
  by (cases cs) auto

lemma mset_merged: "mset (merged cs ds) = mset cs + mset ds"
  by (induction cs ds rule: merged.induct) auto

lemma sorted_merged: "sorted (vals cs) \<Longrightarrow> sorted (vals ds) \<Longrightarrow> sorted (vals (merged cs ds))"
proof (induction cs ds rule: merged.induct)
  case (3 c cs d ds)
  have "set (merged us ws) = set us \<union> set ws" for us ws using mset_merged [of us ws] by (metis set_mset_mset set_mset_union)
  with 3 show ?case by force
qed auto

definition end_link :: "'a cells \<Rightarrow> link" where
  "end_link cs = (if cs = [] then Var else Next (fst (last cs)))"

text \<open>What has been merged so far, \<open>ms\<close>, is a list that ends in a null pointer, and \<open>end_link ms\<close> is its last link.\<close>

lemma write_end:
  assumes "chain h ms q" and "distinct (map fst ms)"
  shows "\<exists>h'. write_link (end_link ms) p (first ms q, h) = Ok (first ms p, h') \<and> chain h' ms p \<and> (\<forall>a. a \<notin> cell_addrs ms \<longrightarrow> h' a = h a)"
proof (cases ms rule: rev_cases)
  case (snoc us c)
  obtain a x where "c = (a, x)" by (cases c)
  with snoc assms show ?thesis using chain_last [of h us a x q p] by (cases us) (auto simp: end_link_def set_next_def)
qed (simp add: end_link_def)

lemma read_end: "chain h ms q \<Longrightarrow> read_link (end_link ms) (first ms q, h) = Ok q"
proof (cases ms rule: rev_cases)
  case (snoc us c)
  assume "chain h ms q"
  with snoc show ?thesis by (cases c) (simp add: end_link_def)
qed (simp add: end_link_def)

lemma MoveNode_end:
  assumes ms: "chain h ms None" "distinct (map fst ms)" and c: "chain h ((a, x) # cs) None" and ds: "a \<notin> cell_addrs ms"
  shows "\<exists>h'. MoveNode (end_link ms) (Some a) (first ms None, h) = Ok (first cs None, first (ms @ [(a, x)]) None, h') \<and>
     chain h' (ms @ [(a, x)]) None \<and> next_link (end_link ms) (first (ms @ [(a, x)]) None, h') = Ok (end_link (ms @ [(a, x)])) \<and>
     (\<forall>b. b \<notin> cell_addrs (ms @ [(a, x)]) \<longrightarrow> h' b = h b)"
proof -
  let ?h = "h(a \<mapsto> \<lparr>cell_next = None, cell_data = x\<rparr>)"
  have n: "set_next (Some a) None h = Ok ?h" using c by (simp add: set_next_def)
  have "chain ?h ms None" using ms ds by simp
  from write_end [OF this ms(2), of "Some a"] obtain h' where
    h': "write_link (end_link ms) (Some a) (first ms None, ?h) = Ok (first ms (Some a), h')" "chain h' ms (Some a)"
      "\<forall>b. b \<notin> cell_addrs ms \<longrightarrow> h' b = ?h b" by blast
  have ch: "chain h' (ms @ [(a, x)]) None" using h'(2,3) ds by auto
  have "MoveNode (end_link ms) (Some a) (first ms None, h) = Ok (first cs None, first (ms @ [(a, x)]) None, h')"
    using n h'(1) read_end [OF ms(1)] c by (simp add: MoveNode_def Let_def)
  moreover have "next_link (end_link ms) (first (ms @ [(a, x)]) None, h') = Ok (end_link (ms @ [(a, x)]))"
    using read_end [OF h'(2)] by (simp add: next_link_def end_link_def)
  ultimately show ?thesis using ch h'(3) by auto
qed

lemma distinct_moved:
  assumes "distinct (map fst (ms @ cs @ c # ds))"
  shows "distinct (map fst ((ms @ [c]) @ cs @ ds))"
  using assms by auto

text \<open>Both loops give the same memory.\<close>

definition merging :: "nat \<Rightarrow> nat \<Rightarrow> int cells \<Rightarrow> int cells \<Rightarrow> int cells \<Rightarrow> int list list \<Rightarrow> int heap \<Rightarrow> bool" where
  "merging pf fuel ms cs ds out h \<longleftrightarrow> (\<exists>h' outs.
     merge2_loop fuel (end_link ms) (first cs None) (first ds None) (first ms None, h) = Ok (first (ms @ merged cs ds) None, h') \<and>
     merge_loop pf fuel (end_link ms) (first cs None) (first ds None) (first ms None, h) out = Ok ((first (ms @ merged cs ds) None, h'), outs) \<and>
     chain h' (ms @ merged cs ds) None \<and> (\<forall>a. a \<notin> cell_addrs (ms @ cs @ ds) \<longrightarrow> h' a = h a))"

lemma merging_end:
  assumes "chain h ms None" and "chain h es None" and "distinct (map fst (ms @ es))"
  shows "\<exists>h'. write_link (end_link ms) (first es None) (first ms None, h) = Ok (first (ms @ es) None, h') \<and> chain h' (ms @ es) None \<and>
     (\<forall>a. a \<notin> cell_addrs ms \<longrightarrow> h' a = h a)"
proof -
  from write_end [OF assms(1), of "first es None"] assms(3) obtain h' where
    h': "write_link (end_link ms) (first es None) (first ms None, h) = Ok (first ms (first es None), h')" "chain h' ms (first es None)"
      "\<forall>a. a \<notin> cell_addrs ms \<longrightarrow> h' a = h a" by auto
  have "chain h' es None = chain h es None" by (rule chain_cong) (use h'(3) assms(3) in auto)
  with h' assms(2) show ?thesis by auto
qed

lemma merge_loops:
  assumes "chain h ms None" and "chain h cs None" and "chain h ds None" and "distinct (map fst (ms @ cs @ ds))"
    and "length cs + length ds < fuel" and "length ms + length cs + length ds < pf"
  shows "merging pf fuel ms cs ds out h"
  using assms
proof (induction fuel arbitrary: ms cs ds h out)
  case (Suc fuel)
  note ch = Suc.prems(1-3) and di = Suc.prems(4)
  show ?case
  proof (cases "cs = [] \<or> ds = []")
    case True
    have "\<exists>h'. write_link (end_link ms) (first (merged cs ds) None) (first ms None, h) = Ok (first (ms @ merged cs ds) None, h') \<and>
        chain h' (ms @ merged cs ds) None \<and> (\<forall>a. a \<notin> cell_addrs ms \<longrightarrow> h' a = h a)"
    proof (rule merging_end [OF ch(1)])
      show "chain h (merged cs ds) None" "distinct (map fst (ms @ merged cs ds))" using True ch di by (elim disjE; simp)+
    qed
    with True show ?thesis by (auto simp: merging_def image_Un)
  next
    case False
    then obtain a x cs' b y ds' where e: "cs = (a, x) # cs'" "ds = (b, y) # ds'" by (cases cs; cases ds) auto
    have n: "at cell_data (Some a) h = Ok x" "at cell_data (Some b) h = Ok y" using ch e by auto
    show ?thesis
    proof (cases "x \<le> y")
      case True
      from MoveNode_end [OF ch(1) _ ch(2) [unfolded e(1)]] di e obtain h1 where
        h1: "MoveNode (end_link ms) (Some a) (first ms None, h) = Ok (first cs' None, first (ms @ [(a, x)]) None, h1)"
          "chain h1 (ms @ [(a, x)]) None" "next_link (end_link ms) (first (ms @ [(a, x)]) None, h1) = Ok (end_link (ms @ [(a, x)]))"
          "\<forall>c. c \<notin> cell_addrs (ms @ [(a, x)]) \<longrightarrow> h1 c = h c" by auto
      have t: "chain h1 cs' None = chain h cs' None" "chain h1 ds None = chain h ds None"
        by (rule chain_frame [OF h1(4)]; use di e in \<open>simp add: image_Un Int_Un_distrib\<close>)+
      have "merging pf fuel (ms @ [(a, x)]) cs' ds out h1"
        using h1(2) t ch(2,3) Suc.prems(4-6) e by (intro Suc.IH) (simp_all add: image_Un Int_Un_distrib)
      with n h1(1,3,4) e True show ?thesis by (auto simp: merging_def image_Un)
    next
      case False
      from MoveNode_end [OF ch(1) _ ch(3) [unfolded e(2)]] di e obtain h1 where
        h1: "MoveNode (end_link ms) (Some b) (first ms None, h) = Ok (first ds' None, first (ms @ [(b, y)]) None, h1)"
          "chain h1 (ms @ [(b, y)]) None" "next_link (end_link ms) (first (ms @ [(b, y)]) None, h1) = Ok (end_link (ms @ [(b, y)]))"
          "\<forall>c. c \<notin> cell_addrs (ms @ [(b, y)]) \<longrightarrow> h1 c = h c" by auto
      have t: "chain h1 cs None = chain h cs None" "chain h1 ds' None = chain h ds' None"
        by (rule chain_frame [OF h1(4)]; use di e in \<open>simp add: image_Un Int_Un_distrib\<close>)+
      have p: "printList pf (first (ms @ [(b, y)]) None) h1 = Ok (vals (ms @ [(b, y)]))"
        using printList_chain [OF h1(2), of pf] Suc.prems(6) e by simp
      have "merging pf fuel (ms @ [(b, y)]) cs ds' (out @ [vals (ms @ [(b, y)])]) h1"
        using h1(2) t ch(2,3) Suc.prems(4-6) e by (intro Suc.IH) (simp_all add: image_Un Int_Un_distrib)
      with n h1(1,3,4) e False p show ?thesis by (auto simp: merging_def image_Un)
    qed
  qed
qed simp

text \<open>
  C26: two disjoint linked lists are merged into one list that consists of exactly their cells and is sorted if both are;
  nothing else on the heap changes. Both versions, with the dummy cell and with the pointer to the last link, return and leave
  the same result and the same heap.
\<close>

theorem SortedMerge_equiv:
  assumes "chain h cs None" and "chain h ds None" and "distinct (map fst (cs @ ds))" and "length cs + length ds < fuel"
  shows "\<exists>es h' out. SortedMerge2 fuel (first cs None) (first ds None) h = Ok (first es None, h') \<and>
     SortedMerge fuel (first cs None) (first ds None) h = Ok ((first es None, h'), out) \<and> chain h' es None \<and> mset es = mset cs + mset ds \<and>
     (sorted (vals cs) \<and> sorted (vals ds) \<longrightarrow> sorted (vals es)) \<and> (\<forall>a. a \<notin> cell_addrs (cs @ ds) \<longrightarrow> h' a = h a)"
  using merge_loops [of h "[]" cs ds fuel fuel "[]"] assms mset_merged [of cs ds] sorted_merged [of cs ds]
  by (auto simp: merging_def SortedMerge2_def SortedMerge_def end_link_def)

definition merge_sample :: "int heap" where
  "merge_sample = [0 \<mapsto> \<lparr>cell_next = Some 1, cell_data = 5\<rparr>, 1 \<mapsto> \<lparr>cell_next = None, cell_data = 10\<rparr>,
     2 \<mapsto> \<lparr>cell_next = Some 3, cell_data = 2\<rparr>, 3 \<mapsto> \<lparr>cell_next = None, cell_data = 20\<rparr>]"

lemma merge_sample_chains: "chain merge_sample [(0, 5), (1, 10)] None" "chain merge_sample [(2, 2), (3, 20)] None"
  by (simp_all add: merge_sample_def)

theorem SortedMerge_equiv_witness:
  "\<exists>es h' out. SortedMerge2 5 (Some 0) (Some 2) merge_sample = Ok (first es None, h') \<and>
     SortedMerge 5 (Some 0) (Some 2) merge_sample = Ok ((first es None, h'), out) \<and> chain h' es None \<and> sorted (vals es) \<and>
     mset es = {#(0, 5), (1, 10), (2, 2), (3, 20)#}"
  using SortedMerge_equiv [OF merge_sample_chains, of 5] by (fastforce simp: ac_simps add_mset_commute)

section \<open>Correctness of the alternate merge\<close>

fun weave :: "'a list \<Rightarrow> 'a list \<Rightarrow> 'a list" where
  "weave (x # xs) (y # ys) = x # y # weave xs ys"
| "weave [] ys = []"
| "weave (x # xs) [] = x # xs"

lemma merge_weaves:
  assumes "chain h cs None" and "chain h ds None" and "distinct (map fst (cs @ ds))" and "length cs < fuel"
  shows "\<exists>h'. merge fuel (first cs None) (first ds None) h = Ok (first (drop (length cs) ds) None, h') \<and> chain h' (weave cs ds) None \<and>
     chain h' (drop (length cs) ds) None \<and> (\<forall>a. a \<notin> cell_addrs (cs @ ds) \<longrightarrow> h' a = h a) \<and> (cs \<noteq> [] \<longrightarrow> first (weave cs ds) None = first cs None)"
  using assms
proof (induction cs ds arbitrary: h fuel rule: weave.induct)
  case (1 c cs d ds)
  obtain a x b y where e: "c = (a, x)" "d = (b, y)" by (cases c; cases d)
  from 1(5) obtain f where f: "fuel = Suc f" by (cases fuel) auto
  let ?h = "h(b \<mapsto> \<lparr>cell_next = first cs None, cell_data = y\<rparr>, a \<mapsto> \<lparr>cell_next = Some b, cell_data = x\<rparr>)"
  have n: "h a = Some \<lparr>cell_next = first cs None, cell_data = x\<rparr>" "h b = Some \<lparr>cell_next = first ds None, cell_data = y\<rparr>" "a \<noteq> b"
    using 1(2-4) e by auto
  have "chain ?h cs None" "chain ?h ds None" using 1(2-4) e by (auto simp del: fun_upd_apply)
  moreover have "distinct (map fst (cs @ ds))" "length cs < f" using 1(4,5) f by auto
  ultimately obtain h' where
    h': "merge f (first cs None) (first ds None) ?h = Ok (first (drop (length cs) ds) None, h')" "chain h' (weave cs ds) None"
      "chain h' (drop (length cs) ds) None" "\<forall>a. a \<notin> cell_addrs (cs @ ds) \<longrightarrow> h' a = ?h a" "cs \<noteq> [] \<longrightarrow> first (weave cs ds) None = first cs None"
    using 1(1) [of ?h f] by blast
  have w: "first (weave cs ds) None = first cs None" using h'(5) by (cases "cs = []") auto
  have "h' a = ?h a" "h' b = ?h b" using h'(4) 1(4) e by auto
  with n h' f e w show ?case by (auto simp: set_next_def)
next
  case (2 ds)
  then show ?case by (cases fuel) auto
next
  case (3 c cs)
  then show ?case by (cases fuel; cases c) auto
qed

end
