(* ===== verification/List_Edit.thy ===== *)
theory List_Edit
  imports Cells
begin

text \<open>
  Operations on one linked list: reversal in groups of \<open>k\<close> (\<open>ReverseLinkedListForKgroup.cpp\<close>), deletion of a given cell
  (\<open>DeleteNodeFromLinkedList.cpp\<close>), insertion into a sorted list (\<open>NodeInsertLinkedList.cpp\<close>), and comparison of two strings
  given as lists of characters (\<open>CompareStringsByLinkedLists.cpp\<close>).
\<close>

section \<open>Reversal in groups\<close>

text \<open>The loop runs while \<open>count < k\<close>: \<open>left\<close> is \<open>k - count\<close>. The variables are \<open>current\<close>, \<open>next\<close> and \<open>prev\<close>.\<close>

fun rev_loop :: "nat \<Rightarrow> ptr \<Rightarrow> ptr \<Rightarrow> ptr \<Rightarrow> 'a heap \<Rightarrow> (ptr \<times> ptr \<times> 'a heap) res" where
  "rev_loop 0 current nxt prev h = Ok (nxt, prev, h)"
| "rev_loop (Suc left) current nxt prev h =
     (if current = None then Ok (nxt, prev, h)
      else obind (at cell_data current h) (\<lambda>_. obind (at cell_next current h) (\<lambda>nxt.
        obind (set_next current prev h) (\<lambda>h. rev_loop left nxt nxt current h))))"

text \<open>What is printed on the way is left out; the cells read for it are not.\<close>

fun reverse :: "nat \<Rightarrow> ptr \<Rightarrow> int \<Rightarrow> 'a heap \<Rightarrow> (ptr \<times> 'a heap) res" where
  "reverse 0 head k h = Timeout"
| "reverse (Suc fuel) head k h =
     obind (rev_loop (nat k) head None None h) (\<lambda>(nxt, prev, h).
     obind (if nxt \<noteq> None then
              obind (at cell_data head h) (\<lambda>_. obind (reverse fuel nxt k h) (\<lambda>(r, h). obind (set_next head r h) (\<lambda>h.
                obind (at cell_next head h) (\<lambda>r. if r \<noteq> None then obind (at cell_data r h) (\<lambda>_. Ok h) else Ok h))))
            else Ok h) (\<lambda>h.
     obind (at cell_data prev h) (\<lambda>_. Ok (prev, h))))"

section \<open>Deletion\<close>

fun find_prev :: "nat \<Rightarrow> ptr \<Rightarrow> ptr \<Rightarrow> 'a heap \<Rightarrow> ptr res" where
  "find_prev 0 prev n h = Timeout"
| "find_prev (Suc fuel) prev n h =
     obind (at cell_next prev h) (\<lambda>q. if q \<noteq> None \<and> q \<noteq> n then find_prev fuel q n h else Ok prev)"

definition deleteNode :: "nat \<Rightarrow> ptr \<Rightarrow> ptr \<Rightarrow> 'a heap \<Rightarrow> 'a heap res" where
  "deleteNode fuel head n h =
     (if head = n then
        obind (at cell_next head h) (\<lambda>q.
          if q = None then Ok h
          else obind (at cell_data q h) (\<lambda>x. obind (set_data head x h) (\<lambda>h.
            obind (at cell_next head h) (\<lambda>n. obind (at cell_next n h) (\<lambda>r. obind (set_next head r h) (free n))))))
      else
        obind (find_prev fuel head n h) (\<lambda>prev. obind (at cell_next prev h) (\<lambda>q.
          if q = None then Ok h
          else obind (at cell_next q h) (\<lambda>r. obind (set_next prev r h) (free n)))))"

section \<open>Insertion into a sorted list\<close>

fun find_place :: "nat \<Rightarrow> ptr \<Rightarrow> int \<Rightarrow> int heap \<Rightarrow> ptr res" where
  "find_place 0 current x h = Timeout"
| "find_place (Suc fuel) current x h =
     obind (at cell_next current h) (\<lambda>q.
       if q = None then Ok current
       else obind (at cell_data q h) (\<lambda>y. if y < x then find_place fuel q x h else Ok current))"

text \<open>The new head is returned.\<close>

definition sortedInsert :: "nat \<Rightarrow> ptr \<Rightarrow> ptr \<Rightarrow> int heap \<Rightarrow> (ptr \<times> int heap) res" where
  "sortedInsert fuel head new_node h =
     obind (if head = None then Ok True else obind (at cell_data head h) (\<lambda>y. obind (at cell_data new_node h) (\<lambda>x. Ok (y \<ge> x)))) (\<lambda>front.
       if front then obind (set_next new_node head h) (\<lambda>h. Ok (new_node, h))
       else obind (at cell_data new_node h) (\<lambda>x. obind (find_place fuel head x h) (\<lambda>current.
         obind (at cell_next current h) (\<lambda>q. obind (set_next new_node q h) (\<lambda>h. obind (set_next current new_node h) (\<lambda>h. Ok (head, h)))))))"

definition newNode :: "'a \<Rightarrow> 'a lists \<Rightarrow> ptr \<times> 'a lists" where
  "newNode x s = (case malloc s of (b, s) \<Rightarrow> (Some b, init_cell b x None s))"

definition insert_new :: "int \<Rightarrow> ptr \<times> int lists \<Rightarrow> (ptr \<times> int lists) res" where
  "insert_new x hs = (case hs of (head, s) \<Rightarrow> case newNode x s of (p, s) \<Rightarrow>
     obind (sortedInsert (Suc (brk s)) head p (heap s)) (\<lambda>(head, h). Ok (head, s\<lparr>heap := h\<rparr>)))"

definition main_insert :: "(ptr \<times> int lists) res" where
  "main_insert = seqs (map insert_new [5, 10, 7, 3, 1, 9]) (None, \<lparr>heap = Map.empty, brk = 0\<rparr>)"

section \<open>Comparison\<close>

text \<open>Characters are given by their values as \<open>char\<close>.\<close>

fun compare :: "nat \<Rightarrow> ptr \<Rightarrow> ptr \<Rightarrow> int heap \<Rightarrow> int res" where
  "compare 0 list1 list2 h = Timeout"
| "compare (Suc fuel) list1 list2 h =
     (if list1 \<noteq> None \<and> list2 \<noteq> None then
        obind (at cell_data list1 h) (\<lambda>c. obind (at cell_data list2 h) (\<lambda>d.
          if c = d then obind (at cell_next list1 h) (\<lambda>p. obind (at cell_next list2 h) (\<lambda>q. compare fuel p q h))
          else Ok (if c > d then 1 else - 1)))
      else if list1 \<noteq> None \<and> list2 = None then Ok 1
      else if list2 \<noteq> None \<and> list1 = None then Ok (- 1)
      else Ok 0)"

section \<open>Reversal in groups is correct\<close>

function rev_groups :: "nat \<Rightarrow> 'a list \<Rightarrow> 'a list" where
  "rev_groups k xs = (if xs = [] \<or> k = 0 then [] else rev (take k xs) @ rev_groups k (drop k xs))"
  by auto

termination
  by (relation "measure (\<lambda>(k, xs). length xs)") auto

declare rev_groups.simps [simp del]

lemma rev_loop_chain:
  assumes "chain h cs None" and "chain h ds None" and "distinct (map fst (cs @ ds))"
  shows "\<exists>h' nxt'. rev_loop k (first cs None) nxt (first ds None) h = Ok (nxt', first (rev (take k cs) @ ds) None, h') \<and>
     chain h' (rev (take k cs) @ ds) None \<and> chain h' (drop k cs) None \<and>
     (nxt' = (if k = 0 \<or> cs = [] then nxt else first (drop k cs) None)) \<and> (\<forall>a. a \<notin> cell_addrs (cs @ ds) \<longrightarrow> h' a = h a)"
  using assms
proof (induction k arbitrary: cs ds h nxt)
  case (Suc k)
  show ?case
  proof (cases cs)
    case (Cons c cs')
    obtain a x where c: "c = (a, x)" by (cases c)
    let ?h = "h(a \<mapsto> \<lparr>cell_next = first ds None, cell_data = x\<rparr>)"
    have n: "h a = Some \<lparr>cell_next = first cs' None, cell_data = x\<rparr>" using Suc.prems Cons c by simp
    have "chain ?h cs' None" "chain ?h ((a, x) # ds) None" "distinct (map fst (cs' @ (a, x) # ds))"
      using Suc.prems Cons c by auto
    from Suc.IH [OF this, of "first cs' None"] obtain h' nxt' where
      h': "rev_loop k (first cs' None) (first cs' None) (first ((a, x) # ds) None) ?h = Ok (nxt', first (rev (take k cs') @ (a, x) # ds) None, h')"
        "chain h' (rev (take k cs') @ (a, x) # ds) None" "chain h' (drop k cs') None"
        "nxt' = (if k = 0 \<or> cs' = [] then first cs' None else first (drop k cs') None)" "\<forall>b. b \<notin> cell_addrs (cs' @ (a, x) # ds) \<longrightarrow> h' b = ?h b" by blast
    have "nxt' = first (drop k cs') None" using h'(4) by (cases "cs' = []") auto
    moreover have "\<forall>b. b \<notin> cell_addrs (cs @ ds) \<longrightarrow> h' b = h b" using h'(5) Cons c by auto
    ultimately show ?thesis using n h'(1-3) Cons c by (auto simp: set_next_def)
  qed (use Suc.prems in auto)
qed auto

lemma rev_groups_Nil [simp]: "rev_groups k [] = []"
  by (simp add: rev_groups.simps)

lemma rev_groups_ne: "xs \<noteq> [] \<Longrightarrow> 0 < k \<Longrightarrow> rev_groups k xs \<noteq> []"
  by (simp add: rev_groups.simps [of k xs])

lemma mset_rev_groups: "0 < k \<Longrightarrow> mset (rev_groups k xs) = mset xs"
proof (induction k xs rule: rev_groups.induct)
  case (1 k xs)
  show ?case
  proof (cases "xs = []")
    case False
    with 1 have "mset (rev_groups k xs) = mset (take k xs) + mset (drop k xs)" by (simp add: rev_groups.simps [of k xs])
    then show ?thesis by (metis append_take_drop_id mset_append)
  qed simp
qed

definition reversed :: "nat \<Rightarrow> 'a cells \<Rightarrow> 'a heap \<Rightarrow> (ptr \<times> 'a heap) res \<Rightarrow> bool" where
  "reversed k cs h r \<longleftrightarrow> (\<exists>h'. r = Ok (first (rev_groups k cs) None, h') \<and> chain h' (rev_groups k cs) None \<and>
     (\<forall>a. a \<notin> cell_addrs cs \<longrightarrow> h' a = h a))"

lemma reverse_chain:
  assumes "chain h cs None" and "distinct (map fst cs)" and "cs \<noteq> []" and "0 < k" and "length cs < fuel"
  shows "reversed (nat k) cs h (reverse fuel (first cs None) k h)"
  using assms
proof (induction fuel arbitrary: cs h)
  case (Suc fuel)
  define n where "n = nat k"
  have n: "n \<noteq> 0" using Suc.prems(4) by (simp add: n_def)
  let ?t = "take n cs" and ?d = "drop n cs"
  from rev_loop_chain [OF Suc.prems(1), of "[]" n None] Suc.prems(2,3) n obtain h1 where
    h1: "rev_loop n (first cs None) None None h = Ok (first ?d None, first (rev ?t) None, h1)"
      "chain h1 (rev ?t) None" "chain h1 ?d None" "\<forall>a. a \<notin> cell_addrs cs \<longrightarrow> h1 a = h a" by auto
  have rt: "rev ?t \<noteq> []" using Suc.prems(3) n by simp
  have g: "rev_groups n cs = rev ?t @ rev_groups n ?d" using Suc.prems(3) n by (simp add: rev_groups.simps [of n cs])
  show ?case
  proof (cases "?d = []")
    case True
    with h1 g at_first_data [OF h1(2) rt] show ?thesis by (auto simp: reversed_def n_def)
  next
    case False
    have dj: "cell_addrs ?t \<inter> cell_addrs ?d = {}" "distinct (map fst ?t)" "distinct (map fst ?d)"
      using Suc.prems(2) by (metis append_take_drop_id distinct_append map_append list.set_map)+
    obtain a x us where u: "cs = (a, x) # us" using Suc.prems(3) by (cases cs) auto
    define vs where "vs = rev (take (n - 1) us)"
    have v: "rev ?t = vs @ [(a, x)]" "?t = (a, x) # rev vs" using n u by (cases n; simp add: vs_def)+
    have "reversed n ?d h1 (reverse fuel (first ?d None) k h1)"
      unfolding n_def by (rule Suc.IH) (use h1(3) dj(3) False Suc.prems(4,5) n u in \<open>auto simp: n_def\<close>)
    then obtain h2 where h2: "reverse fuel (first ?d None) k h1 = Ok (first (rev_groups n ?d) None, h2)" "chain h2 (rev_groups n ?d) None"
      "\<forall>a. a \<notin> cell_addrs ?d \<longrightarrow> h2 a = h1 a" by (auto simp: reversed_def)
    let ?r = "first (rev_groups n ?d) None"
    let ?h = "h2(a \<mapsto> \<lparr>cell_next = ?r, cell_data = x\<rparr>)"
    have a: "a \<notin> cell_addrs vs" "a \<notin> cell_addrs ?d" using dj v by auto
    have ga: "cell_addrs (rev_groups n ?d) = cell_addrs ?d" using mset_rev_groups [of n ?d] n by (metis neq0_conv set_mset_mset)
    have c2: "chain h2 (vs @ [(a, x)]) None" using h1(2) chain_frame [OF h2(3), of "rev ?t"] dj(1) v by (simp add: Int_commute)
    then have h2a: "h2 a = Some \<lparr>cell_next = None, cell_data = x\<rparr>" by simp
    have c3: "chain ?h (vs @ [(a, x)]) ?r" by (rule chain_last [OF c2 a(1)])
    have c4: "chain ?h (rev_groups n ?d) None" using h2(2) a(2) ga by simp
    have gne: "rev_groups n ?d \<noteq> []" using rev_groups_ne [OF False] n by simp
    obtain y where y: "at cell_data ?r ?h = Ok y" using at_first_data [OF c4 gne] by blast
    obtain z where z: "at cell_data (first (rev ?t) None) ?h = Ok z"
      using at_first_data [of ?h "rev_groups n cs"] c3 c4 g v rt by (metis chain_append first_append append_is_Nil_conv list.exhaust first.simps(2) surj_pair)
    have d1: "\<exists>w. at cell_data (Some a) h1 = Ok w" using h1(2) v by simp
    have "reverse (Suc fuel) (first cs None) k h = Ok (first (rev ?t) None, ?h)"
      using h1(1) False u d1 h2(1) h2a gne y z by (auto simp: n_def [symmetric] set_next_def)
    moreover have "first (rev ?t) None = first (rev_groups n cs) None" using g rt by (cases "rev ?t") auto
    moreover have "chain ?h (rev_groups n cs) None" using c3 c4 g v by simp
    moreover have "\<forall>b. b \<notin> cell_addrs cs \<longrightarrow> ?h b = h b"
    proof (intro allI impI)
      fix b assume b: "b \<notin> cell_addrs cs"
      then have "b \<noteq> a" "b \<notin> cell_addrs ?d" using u image_mono [OF set_drop_subset, of fst n cs] by auto
      with b h1(4) h2(3) show "?h b = h b" by simp
    qed
    ultimately show ?thesis unfolding reversed_def n_def [symmetric] by metis
  qed
qed simp

lemma reverse_fault:
  assumes "head = None \<or> k \<le> 0"
  shows "reverse (Suc fuel) head k h = Fault NullDeref"
  using assms by (cases "nat k") auto

text \<open>
  \<open>reverse\<close> on a list that is not empty, with groups of \<open>k > 0\<close> cells, returns a list of the same cells in which each group
  of \<open>k\<close> is reversed, the rest at the end too; nothing else on the heap changes. For an empty list, and for \<open>k \<le> 0\<close>, it
  dereferences a null pointer.
\<close>

theorem reverse_groups:
  assumes "chain h cs None" and "distinct (map fst cs)" and "length cs < fuel"
  shows "if cs \<noteq> [] \<and> 0 < k
         then \<exists>h'. reverse fuel (first cs None) k h = Ok (first (rev_groups (nat k) cs) None, h') \<and> chain h' (rev_groups (nat k) cs) None \<and>
                (\<forall>a. a \<notin> cell_addrs cs \<longrightarrow> h' a = h a)
         else reverse fuel (first cs None) k h = Fault NullDeref"
proof (cases "cs \<noteq> [] \<and> 0 < k")
  case True
  then show ?thesis using reverse_chain [OF assms(1,2) _ _ assms(3)] by (simp add: reversed_def)
next
  case False
  obtain f where "fuel = Suc f" using assms(3) by (cases fuel) auto
  with False reverse_fault [of "first cs None" k f h] show ?thesis by (cases "cs = []") auto
qed

definition seven :: "int cells" where
  "seven = zip [0..<7] [1..7]"

theorem reverse_groups_witness:
  "\<exists>h' cs. reverse 8 (Some 0) 3 (map_of (map (\<lambda>(a, x). (a, \<lparr>cell_next = if a = 6 then None else Some (Suc a), cell_data = x\<rparr>)) seven)) =
       Ok (first cs None, h') \<and> chain h' cs None \<and> vals cs = [3, 2, 1, 6, 5, 4, 7]"
proof -
  let ?h = "map_of (map (\<lambda>(a, x). (a, \<lparr>cell_next = if a = 6 then None else Some (Suc a), cell_data = x\<rparr>)) seven)"
  have c: "chain ?h seven None" "distinct (map fst seven)" "length seven < 8" "first seven None = Some 0" by code_simp+
  have v: "vals (rev_groups (nat 3) seven) = [3, 2, 1, 6, 5, 4, 7]" by code_simp
  have "seven \<noteq> []" using c(4) by auto
  then obtain h' where "reverse 8 (Some 0) 3 ?h = Ok (first (rev_groups (nat 3) seven) None, h')" "chain h' (rev_groups (nat 3) seven) None"
    using reverse_groups [OF c(1,2,3), of 3] c(4) by auto
  with v show ?thesis by (intro exI [of _ h'] exI [of _ "rev_groups (nat 3) seven"] conjI)
qed

section \<open>Comparison is lexicographic\<close>

text \<open>
  \<open>compare\<close> returns 0 for equal strings, 1 if the first one is greater in the lexicographic order of the character values, and
  -1 if it is smaller.
\<close>

lemma compare_lexicographic:
  assumes "chain h cs None" and "chain h ds None" and "length cs < fuel"
  shows "compare fuel (first cs None) (first ds None) h =
     Ok (if vals cs = vals ds then 0 else if ord_class.lexordp (vals ds) (vals cs) then 1 else - 1)"
  using assms
proof (induction fuel arbitrary: cs ds)
  case (Suc fuel)
  show ?case
  proof (cases "cs = [] \<or> ds = []")
    case True
    then show ?thesis by (cases cs; cases ds) auto
  next
    case False
    then obtain a x us b y ws where e: "cs = (a, x) # us" "ds = (b, y) # ws" by (cases cs; cases ds) auto
    with Suc.prems Suc.IH [of us ws] show ?thesis by auto
  qed
qed simp

section \<open>Insertion sorts\<close>

lemma find_place_chain:
  assumes "chain h ((a, y) # ds) None" and "y < x" and "length ds < fuel"
  shows "find_place fuel (Some a) x h = Ok (Some (fst (last (takeWhile (\<lambda>c. snd c < x) ((a, y) # ds)))))"
  using assms
proof (induction ds arbitrary: a y fuel)
  case Nil
  then show ?case by (cases fuel) auto
next
  case (Cons d ds)
  obtain b z where "d = (b, z)" by (cases d)
  with Cons show ?case by (cases fuel) auto
qed

definition placed :: "addr \<Rightarrow> int \<Rightarrow> int cells \<Rightarrow> int cells" where
  "placed a x cs = takeWhile (\<lambda>c. snd c < x) cs @ (a, x) # dropWhile (\<lambda>c. snd c < x) cs"

lemma vals_placed: "sorted (vals cs) \<Longrightarrow> vals (placed a x cs) = insort x (vals cs)"
  by (induction cs) (auto simp: placed_def insort_is_Cons)

lemma mset_placed: "mset (placed a x cs) = add_mset (a, x) (mset cs)"
  by (induction cs) (auto simp: placed_def)

lemma sortedInsert_chain:
  assumes c: "chain h cs None" "distinct (map fst cs)" and a: "h a = Some \<lparr>cell_next = q, cell_data = x\<rparr>" "a \<notin> cell_addrs cs" and f: "length cs < fuel"
  shows "\<exists>h'. sortedInsert fuel (first cs None) (Some a) h = Ok (first (placed a x cs) None, h') \<and> chain h' (placed a x cs) None \<and>
     (\<forall>b. b \<notin> cell_addrs ((a, x) # cs) \<longrightarrow> h' b = h b)"
proof (cases cs)
  case Nil
  with a show ?thesis by (auto simp: sortedInsert_def placed_def set_next_def)
next
  case (Cons d ds)
  obtain b y where d: "d = (b, y)" by (cases d)
  show ?thesis
  proof (cases "y \<ge> x")
    case True
    with Cons d c a show ?thesis by (auto simp: sortedInsert_def placed_def set_next_def)
  next
    case False
    define ts where "ts = takeWhile (\<lambda>c. snd c < x) cs"
    define ws where "ws = dropWhile (\<lambda>c. snd c < x) cs"
    have t: "cs = ts @ ws" "placed a x cs = ts @ (a, x) # ws" by (simp_all add: ts_def ws_def placed_def)
    have "ts \<noteq> []" using False Cons d by (simp add: ts_def)
    then obtain us b' z where u: "ts = us @ [(b', z)]" by (cases ts rule: rev_cases) auto
    have p: "cs = us @ (b', z) # ws" using t(1) u by simp
    have pl: "placed a x cs = us @ (b', z) # (a, x) # ws" using t(2) u by simp
    have "find_place fuel (Some b) x h = Ok (Some (fst (last ts)))"
      using find_place_chain [of h b y ds x fuel] False c f Cons d by (simp add: ts_def)
    then have fp: "find_place fuel (Some b) x h = Ok (Some b')" using u by simp
    have ab: "a \<noteq> b'" using a(2) p by auto
    let ?h = "h(a \<mapsto> \<lparr>cell_next = first ws None, cell_data = x\<rparr>, b' \<mapsto> \<lparr>cell_next = Some a, cell_data = z\<rparr>)"
    have "sortedInsert fuel (Some b) (Some a) h = Ok (Some b, ?h)"
    proof -
      have "at cell_data (Some b) h = Ok y" using c(1) Cons d by simp
      moreover have "h b' = Some \<lparr>cell_next = first ws None, cell_data = z\<rparr>" using c(1) p by simp
      ultimately show ?thesis using False a fp ab by (simp add: sortedInsert_def set_next_def del: at.simps)
    qed
    moreover have "first (placed a x cs) None = Some b" using pl p Cons d by (cases us) auto
    moreover have "chain ?h (placed a x cs) None" unfolding pl using c a p ab by (auto simp del: fun_upd_apply simp: fun_upd_same fun_upd_other image_Un)
    moreover have "\<forall>c. c \<notin> cell_addrs ((a, x) # cs) \<longrightarrow> ?h c = h c" using p by simp
    moreover have "first cs None = Some b" using Cons d by simp
    ultimately show ?thesis by metis
  qed
qed

lemma insert_new_owned:
  assumes o: "owned s cs" and s: "sorted (vals cs)"
  shows "\<exists>ds s'. insert_new x (first cs None, s) = Ok (first ds None, s') \<and> owned s' ds \<and> vals ds = insort x (vals cs)"
proof -
  let ?b = "brk s" and ?h = "(heap s)(brk s \<mapsto> \<lparr>cell_next = None, cell_data = x\<rparr>)"
  have b: "?b \<notin> cell_addrs cs" using o by (auto simp: owned_def)
  have "chain ?h cs None" "distinct (map fst cs)" using o b by (auto simp: owned_def simp del: fun_upd_apply)
  moreover have l: "length cs < Suc (Suc (brk s))"
  proof -
    have "set (map fst cs) \<subseteq> {..<brk s}" "distinct (map fst cs)" using o by (auto simp: owned_def)
    then show ?thesis using card_mono [of "{..<brk s}" "set (map fst cs)"] distinct_card [of "map fst cs"] by simp
  qed
  ultimately obtain h' where h': "sortedInsert (Suc (Suc (brk s))) (first cs None) (Some ?b) ?h = Ok (first (placed ?b x cs) None, h')"
    "chain h' (placed ?b x cs) None" using sortedInsert_chain [of ?h cs ?b None x "Suc (Suc (brk s))"] b by (auto simp: fun_upd_same)
  have m: "mset (map fst (placed ?b x cs)) = mset (?b # map fst cs)" using mset_placed [of ?b x cs] by (simp add: mset_map [symmetric] del: mset_map) (simp add: mset_map)
  then have "distinct (map fst (placed ?b x cs))" "set (map fst (placed ?b x cs)) = set (?b # map fst cs)"
    using mset_eq_imp_distinct_iff [OF m] mset_eq_setD [OF m] o b by (auto simp: owned_def)
  then have "owned (s\<lparr>brk := Suc (brk s), heap := h'\<rparr>) (placed ?b x cs)" using h'(2) o by (auto simp: owned_def less_Suc_eq)
  then show ?thesis using h'(1) vals_placed [OF s, of ?b x]
    by (auto simp: insert_new_def newNode_def malloc_def init_cell_def simp del: fun_upd_apply intro!: exI [of _ "placed ?b x cs"])
qed

text \<open>
  Cells with arbitrary values, inserted by \<open>sortedInsert\<close> one after the other into an empty list, form the sorted list of
  these values: the program sorts by insertion.
\<close>

theorem sortedInsert_sorts:
  "\<exists>cs s. seqs (map insert_new xs) (None, \<lparr>heap = Map.empty, brk = 0\<rparr>) = Ok (first cs None, s) \<and> owned s cs \<and> vals cs = sort xs"
proof -
  have "\<exists>ds s'. seqs (map insert_new xs) (first cs None, s) = Ok (first ds None, s') \<and> owned s' ds \<and> vals ds = fold insort xs (vals cs)"
    if "owned s cs" "sorted (vals cs)" for cs s
    using that
  proof (induction xs arbitrary: cs s)
    case (Cons x xs)
    from insert_new_owned [OF Cons.prems, of x] obtain ds s' where
      d: "insert_new x (first cs None, s) = Ok (first ds None, s')" "owned s' ds" "vals ds = insort x (vals cs)" by blast
    with Cons.IH [of s' ds] Cons.prems(2) show ?case by (simp add: sorted_insort)
  qed auto
  from this [of "\<lparr>heap = Map.empty, brk = 0\<rparr>" "[]"] obtain ds s' where
    "seqs (map insert_new xs) (None, \<lparr>heap = Map.empty, brk = 0\<rparr>) = Ok (first ds None, s')" "owned s' ds" "vals ds = fold insort xs []"
    by (auto simp: owned_def)
  moreover have "fold insort xs [] = sort xs" by (simp add: sort_conv_fold)
  ultimately show ?thesis by auto
qed

section \<open>Deletion removes one value\<close>

lemma find_prev_chain:
  assumes "chain h (us @ (a, x) # ws) None" and "n \<notin> cell_addrs (tl us)" and "us \<noteq> [] \<longrightarrow> a \<noteq> n" and "ws = [] \<or> first ws None = Some n"
    and "length us < fuel"
  shows "find_prev fuel (first (us @ (a, x) # ws) None) (Some n) h = Ok (Some a)"
  using assms
proof (induction us arbitrary: fuel)
  case Nil
  then show ?case by (cases fuel) auto
next
  case (Cons u us)
  obtain b y where u: "u = (b, y)" by (cases u)
  from Cons.prems(5) obtain f where f: "fuel = Suc f" by (cases fuel) auto
  have "first (us @ (a, x) # ws) None \<noteq> Some n" using Cons.prems(2,3) by (cases us) auto
  moreover have "find_prev f (first (us @ (a, x) # ws) None) (Some n) h = Ok (Some a)"
  proof (rule Cons.IH)
    show "chain h (us @ (a, x) # ws) None" using Cons.prems(1) u by simp
    show "n \<notin> cell_addrs (tl us)" using Cons.prems(2) by (cases us) auto
  qed (use Cons.prems f in auto)
  moreover have "first (us @ (a, x) # ws) None \<noteq> None" by (cases us) auto
  ultimately show ?case using Cons.prems(1) u f by auto
qed

lemma free_live [simp]: "h a = Some c \<Longrightarrow> free (Some a) h = Ok (h(a := None))"
  by (simp add: free_def)

text \<open>
  \<open>deleteNode\<close> on a list with the cell \<open>n\<close>: the values that are left are those of the other cells, in order, and one
  cell is freed. A list of one cell stays as it is, and so does a list that does not have the cell.
\<close>

lemma deleteNode_head:
  assumes "chain h ((a, x) # (b, y) # ws) None" and "distinct (map fst ((a, x) # (b, y) # ws))"
  shows "\<exists>h'. deleteNode fuel (Some a) (Some a) h = Ok h' \<and> chain h' ((a, y) # ws) None \<and> dom h' = dom h - {b}"
proof -
  let ?h = "h(a \<mapsto> \<lparr>cell_next = Some b, cell_data = y\<rparr>, a \<mapsto> \<lparr>cell_next = first ws None, cell_data = y\<rparr>, b := None)"
  have n: "h a = Some \<lparr>cell_next = Some b, cell_data = x\<rparr>" "h b = Some \<lparr>cell_next = first ws None, cell_data = y\<rparr>" "a \<noteq> b"
    using assms by auto
  have "deleteNode fuel (Some a) (Some a) h = Ok ?h" using n by (auto simp: deleteNode_def set_data_def set_next_def)
  moreover have "chain ?h ((a, y) # ws) None" using assms n by (auto simp del: fun_upd_apply simp: fun_upd_same fun_upd_other)
  moreover have "dom ?h = dom h - {b}" using n by auto
  ultimately show ?thesis by blast
qed

lemma deleteNode_inner:
  assumes c: "chain h (us @ (a, x) # (n, y) # ws) None" and d: "distinct (map fst (us @ (a, x) # (n, y) # ws))" and f: "length us < fuel"
  shows "\<exists>h'. deleteNode fuel (first (us @ (a, x) # (n, y) # ws) None) (Some n) h = Ok h' \<and> chain h' (us @ (a, x) # ws) None \<and> dom h' = dom h - {n}"
proof -
  let ?p = "first (us @ (a, x) # (n, y) # ws) None"
  let ?h = "h(a \<mapsto> \<lparr>cell_next = first ws None, cell_data = x\<rparr>, n := None)"
  have k: "h a = Some \<lparr>cell_next = Some n, cell_data = x\<rparr>" "h n = Some \<lparr>cell_next = first ws None, cell_data = y\<rparr>" "a \<noteq> n" using c d by auto
  have "?p \<noteq> Some n" using d by (cases us) auto
  moreover have "find_prev fuel ?p (Some n) h = Ok (Some a)"
    using c d f k(3) by (intro find_prev_chain) (cases us; auto)+
  ultimately have "deleteNode fuel ?p (Some n) h = Ok ?h" using k by (simp add: deleteNode_def set_next_def)
  moreover have "chain ?h (us @ (a, x) # ws) None" using c d by (auto simp del: fun_upd_apply simp: fun_upd_same fun_upd_other)
  moreover have "dom ?h = dom h - {n}" using k by auto
  ultimately show ?thesis by blast
qed

lemma deleteNode_absent:
  assumes c: "chain h (us @ [(a, x)]) None" and n: "n \<notin> cell_addrs (us @ [(a, x)])" and f: "length us < fuel"
  shows "deleteNode fuel (first (us @ [(a, x)]) None) (Some n) h = Ok h"
proof -
  let ?p = "first (us @ [(a, x)]) None"
  have "find_prev fuel ?p (Some n) h = Ok (Some a)" using c n f by (intro find_prev_chain) (cases us; auto)+
  moreover have "?p \<noteq> Some n" using n by (cases us) auto
  ultimately show ?thesis using c by (simp add: deleteNode_def)
qed

lemma deleteNode_single: "chain h [(a, x)] None \<Longrightarrow> deleteNode fuel (Some a) (Some a) h = Ok h"
  by (simp add: deleteNode_def)

text \<open>
  \<open>deleteNode\<close> with a list that is not empty and a cell \<open>n\<close> returns, and the list from the same head then has the values of
  the cells other than \<open>n\<close>, in order; exactly one cell has been freed. If \<open>n\<close> is the only cell, or not in the list, nothing
  changes.
\<close>

theorem deleteNode_removes:
  assumes c: "chain h cs None" and d: "distinct (map fst cs)" and ne: "cs \<noteq> []" and f: "length cs < fuel"
  shows "\<exists>h' cs' A. deleteNode fuel (first cs None) (Some n) h = Ok h' \<and> chain h' cs' None \<and> first cs' None = first cs None \<and>
     dom h' = dom h - A \<and> (if n \<in> cell_addrs cs \<and> length cs > 1 then vals cs' = vals (filter (\<lambda>c. fst c \<noteq> n) cs) \<and> (\<exists>b. A = {b} \<and> h b \<noteq> None)
     else cs' = cs \<and> h' = h \<and> A = {})"
proof (cases "n \<in> cell_addrs cs")
  case False
  obtain us a x where "cs = us @ [(a, x)]" using ne by (cases cs rule: rev_cases) auto
  with deleteNode_absent [of h us a x n fuel] False c f show ?thesis by auto
next
  case True
  then obtain us y ws where u: "cs = us @ (n, y) # ws" by (metis imageE prod.collapse split_list)
  have fl: "filter (\<lambda>c. fst c \<noteq> n) us = us" "filter (\<lambda>c. fst c \<noteq> n) ws = ws" using d u by (auto simp: filter_id_conv)
  show ?thesis
  proof (cases us rule: rev_cases)
    case Nil
    show ?thesis
    proof (cases ws)
      case Nil
      with u \<open>us = []\<close> deleteNode_single [of h n y fuel] c show ?thesis by auto
    next
      case (Cons w ws')
      obtain b z where w: "w = (b, z)" by (cases w)
      from deleteNode_head [of h n y b z ws' fuel] c d u \<open>us = []\<close> Cons w obtain h' where
        "deleteNode fuel (Some n) (Some n) h = Ok h'" "chain h' ((n, z) # ws') None" "dom h' = dom h - {b}" by auto
      moreover have "h b \<noteq> None" using c u Cons w by auto
      ultimately show ?thesis using u \<open>us = []\<close> Cons w fl(2)
        by (intro exI [of _ h'] exI [of _ "(n, z) # ws'"] exI [of _ "{b}"]) auto
    qed
  next
    case (snoc vs v)
    obtain a x where v: "v = (a, x)" by (cases v)
    have e: "cs = vs @ (a, x) # (n, y) # ws" using u snoc v by simp
    from deleteNode_inner [OF c [unfolded e] d [unfolded e], of fuel] f e obtain h' where
      "deleteNode fuel (first cs None) (Some n) h = Ok h'" "chain h' (vs @ (a, x) # ws) None" "dom h' = dom h - {n}" by auto
    moreover have "h n \<noteq> None" using c u by auto
    moreover have "first (vs @ (a, x) # ws) None = first cs None" using e by (cases vs) auto
    ultimately show ?thesis using u snoc v fl True
      by (intro exI [of _ h'] exI [of _ "vs @ (a, x) # ws"] exI [of _ "{n}"]) auto
  qed
qed

theorem deleteNode_removes_witness:
  "\<exists>h' cs'. deleteNode 3 (Some 0) (Some 0) [0 \<mapsto> \<lparr>cell_next = Some 1, cell_data = 12\<rparr>, 1 \<mapsto> \<lparr>cell_next = None, cell_data = 15 :: int\<rparr>] = Ok h' \<and>
     chain h' cs' None \<and> first cs' None = Some 0 \<and> vals cs' = [15]"
proof -
  let ?h = "[0 \<mapsto> \<lparr>cell_next = Some 1, cell_data = 12\<rparr>, 1 \<mapsto> \<lparr>cell_next = None, cell_data = 15 :: int\<rparr>]" and ?cs = "[(0, 12), (1, 15)] :: int cells"
  have p: "chain ?h ?cs None" "distinct (map fst ?cs)" "?cs \<noteq> []" "length ?cs < 3" by simp_all
  have i: "0 \<in> cell_addrs ?cs \<and> length ?cs > 1" by simp
  from deleteNode_removes [OF p, of 0, unfolded if_P [OF i]] obtain h' cs' where
    "deleteNode 3 (first ?cs None) (Some 0) ?h = Ok h'" "chain h' cs' None" "first cs' None = first ?cs None" "vals cs' = vals (filter (\<lambda>c. fst c \<noteq> 0) ?cs)" by blast
  then show ?thesis by (intro exI [of _ h'] exI [of _ cs']) simp
qed

end
