(* ===== verification/List_Cycle.thy ===== *)
theory List_Cycle
  imports Cells
begin

text \<open>
  Cycles in linked lists: the detection by a slow and a fast pointer (\<open>DetectCircleInList.h\<close>), and the removal of the link that
  closes the cycle, by counting its cells (\<open>RemoveCycleInList.h\<close>) and by looking for the first cell of the list that is on
  the cycle (\<open>RemoveCycle.h\<close>). All loops end; the cycle is found exactly if there is one; both removals leave the same
  list, which has all the cells.
\<close>

section \<open>The programs\<close>

text \<open>The loop with the two pointers: where they meet, or \<open>None\<close> when the list ends.\<close>

fun floyd :: "nat \<Rightarrow> ptr \<Rightarrow> ptr \<Rightarrow> 'a heap \<Rightarrow> ptr res" where
  "floyd 0 slow_p fast_p h = Timeout"
| "floyd (Suc fuel) slow_p fast_p h =
     (if slow_p = None \<or> fast_p = None then Ok None
      else obind (at cell_next fast_p h) (\<lambda>q.
        if q = None then Ok None
        else obind (at cell_next slow_p h) (\<lambda>slow_p. obind (at cell_next q h) (\<lambda>fast_p.
          if slow_p = fast_p then Ok slow_p else floyd fuel slow_p fast_p h))))"

definition detectloop :: "nat \<Rightarrow> ptr \<Rightarrow> 'a heap \<Rightarrow> int res" where
  "detectloop fuel p h = obind (floyd fuel p p h) (\<lambda>r. Ok (if r = None then 0 else 1))"

text \<open>\<open>while (p->next != target) p = p->next\<close>, with the number of steps.\<close>

fun find_before :: "nat \<Rightarrow> ptr \<Rightarrow> ptr \<Rightarrow> 'a heap \<Rightarrow> (ptr \<times> nat) res" where
  "find_before 0 p target h = Timeout"
| "find_before (Suc fuel) p target h =
     obind (at cell_next p h) (\<lambda>q.
       if q \<noteq> target then obind (find_before fuel q target h) (\<lambda>(r, k). Ok (r, Suc k)) else Ok (p, 0))"

fun steps :: "nat \<Rightarrow> ptr \<Rightarrow> 'a heap \<Rightarrow> ptr res" where
  "steps 0 p h = Ok p"
| "steps (Suc k) p h = obind (at cell_next p h) (\<lambda>p. steps k p h)"

fun meet :: "nat \<Rightarrow> ptr \<Rightarrow> ptr \<Rightarrow> 'a heap \<Rightarrow> ptr res" where
  "meet 0 ptr1 ptr2 h = Timeout"
| "meet (Suc fuel) ptr1 ptr2 h =
     (if ptr2 \<noteq> ptr1 then obind (at cell_next ptr1 h) (\<lambda>ptr1. obind (at cell_next ptr2 h) (\<lambda>ptr2. meet fuel ptr1 ptr2 h)) else Ok ptr1)"

definition removeLoop :: "nat \<Rightarrow> ptr \<Rightarrow> ptr \<Rightarrow> 'a heap \<Rightarrow> 'a heap res" where
  "removeLoop fuel loop_node head h =
     obind (find_before fuel loop_node loop_node h) (\<lambda>(_, n).
     obind (steps (n + 1) head h) (\<lambda>ptr2.
     obind (meet fuel head ptr2 h) (\<lambda>ptr1.
     obind (at cell_next ptr1 h) (\<lambda>ptr2.
     obind (find_before fuel ptr2 ptr1 h) (\<lambda>(ptr2, _). set_next ptr2 None h)))))"

definition detectAndRemoveLoop :: "nat \<Rightarrow> ptr \<Rightarrow> 'a heap \<Rightarrow> (int \<times> 'a heap) res" where
  "detectAndRemoveLoop fuel p h =
     obind (floyd fuel p p h) (\<lambda>r. if r = None then Ok (0, h) else obind (removeLoop fuel r p h) (\<lambda>h. Ok (1, h)))"

text \<open>The inner loop of the other version: \<open>while (ptr2->next != loop_node && ptr2->next != ptr1) ptr2 = ptr2->next\<close>.\<close>

fun find_either :: "nat \<Rightarrow> ptr \<Rightarrow> ptr \<Rightarrow> ptr \<Rightarrow> 'a heap \<Rightarrow> ptr res" where
  "find_either 0 p loop_node ptr1 h = Timeout"
| "find_either (Suc fuel) p loop_node ptr1 h =
     obind (at cell_next p h) (\<lambda>q. if q \<noteq> loop_node \<and> q \<noteq> ptr1 then find_either fuel q loop_node ptr1 h else Ok p)"

fun remove_from :: "nat \<Rightarrow> nat \<Rightarrow> ptr \<Rightarrow> ptr \<Rightarrow> 'a heap \<Rightarrow> 'a heap res" where
  "remove_from inner 0 loop_node ptr1 h = Timeout"
| "remove_from inner (Suc fuel) loop_node ptr1 h =
     obind (find_either inner loop_node loop_node ptr1 h) (\<lambda>ptr2.
     obind (at cell_next ptr2 h) (\<lambda>q.
       if q = ptr1 then set_next ptr2 None h
       else obind (at cell_next ptr1 h) (\<lambda>ptr1. remove_from inner fuel loop_node ptr1 h)))"

definition detectAndRemoveLoop1 :: "nat \<Rightarrow> ptr \<Rightarrow> 'a heap \<Rightarrow> (int \<times> 'a heap) res" where
  "detectAndRemoveLoop1 fuel p h =
     obind (floyd fuel p p h) (\<lambda>r. if r = None then Ok (0, h) else obind (remove_from fuel fuel r p h) (\<lambda>h. Ok (1, h)))"

section \<open>Positions\<close>

lemma chain_nth:
  "chain h cs q \<Longrightarrow> i < length cs \<Longrightarrow>
   h (fst (cs ! i)) = Some \<lparr>cell_next = (if Suc i < length cs then Some (fst (cs ! Suc i)) else q), cell_data = snd (cs ! i)\<rparr>"
proof (induction cs arbitrary: i)
  case (Cons c cs)
  obtain a x where c: "c = (a, x)" by (cases c)
  show ?case
  proof (cases i)
    case 0
    with Cons c show ?thesis by (cases cs) auto
  next
    case (Suc j)
    with Cons show ?thesis using c by auto
  qed
qed simp

text \<open>
  A list with a cycle: the cells \<open>us\<close> lead to the cells \<open>ws\<close>, the last of which points to the first. After \<open>i\<close> steps from the
  head one is at position \<open>wrap i\<close>.
\<close>

definition lasso :: "'a heap \<Rightarrow> 'a cells \<Rightarrow> 'a cells \<Rightarrow> bool" where
  "lasso h us ws \<longleftrightarrow> ws \<noteq> [] \<and> distinct (map fst (us @ ws)) \<and> chain h (us @ ws) (first ws None)"

definition wrap :: "nat \<Rightarrow> nat \<Rightarrow> nat \<Rightarrow> nat" where
  "wrap m l i = (if i < m then i else m + (i - m) mod l)"

lemma wrap_less: "0 < l \<Longrightarrow> wrap m l i < m + l"
  by (simp add: wrap_def)

lemma wrap_small: "i < m + l \<Longrightarrow> wrap m l i = i"
  by (auto simp: wrap_def)

lemma wrap_Suc: "0 < l \<Longrightarrow> wrap m l (Suc i) = (if Suc (wrap m l i) < m + l then Suc (wrap m l i) else m)"
proof -
  assume "0 < l"
  then have "(i - m) mod l < l" by simp
  then show ?thesis by (auto simp: wrap_def Suc_diff_le mod_Suc less_Suc_eq_le not_less le_Suc_eq)
qed

lemma wrap_eq: "0 < l \<Longrightarrow> i \<le> j \<Longrightarrow> wrap m l i = wrap m l j \<longleftrightarrow> i = j \<or> m \<le> i \<and> l dvd (j - i)"
proof -
  assume l: "0 < l" "i \<le> j"
  show ?thesis
  proof (cases "m \<le> i")
    case True
    then have "wrap m l i = wrap m l j \<longleftrightarrow> (i - m) mod l = (j - m) mod l" using l by (simp add: wrap_def)
    also have "\<dots> \<longleftrightarrow> l dvd (j - m) - (i - m)" using l True by (metis diff_le_mono mod_eq_dvd_iff_nat)
    finally show ?thesis using True l by auto
  next
    case False
    with l show ?thesis by (auto simp: wrap_def)
  qed
qed

definition pos :: "'a cells \<Rightarrow> 'a cells \<Rightarrow> nat \<Rightarrow> ptr" where
  "pos us ws i = Some (fst ((us @ ws) ! wrap (length us) (length ws) i))"

lemma pos_ne [simp]: "pos us ws i \<noteq> None" "None \<noteq> pos us ws i"
  by (simp_all add: pos_def)

lemma pos_next:
  assumes "lasso h us ws"
  shows "at cell_next (pos us ws i) h = Ok (pos us ws (Suc i))"
proof -
  let ?w = "wrap (length us) (length ws)"
  have l: "0 < length ws" using assms by (simp add: lasso_def)
  have "first ws None = Some (fst ((us @ ws) ! length us))" using l by (cases ws) auto
  moreover have "h (fst ((us @ ws) ! ?w i)) = Some \<lparr>cell_next = (if Suc (?w i) < length (us @ ws) then Some (fst ((us @ ws) ! Suc (?w i))) else first ws None),
      cell_data = snd ((us @ ws) ! ?w i)\<rparr>"
    using assms wrap_less [OF l, of "length us" i] by (intro chain_nth) (auto simp: lasso_def)
  ultimately show ?thesis using wrap_Suc [OF l, of "length us" i] by (auto simp: pos_def)
qed

lemma pos_eq:
  assumes "lasso h us ws" and "i \<le> j"
  shows "pos us ws i = pos us ws j \<longleftrightarrow> i = j \<or> length us \<le> i \<and> length ws dvd (j - i)"
proof -
  let ?w = "wrap (length us) (length ws)"
  have l: "0 < length ws" using assms by (simp add: lasso_def)
  have "distinct (map fst (us @ ws))" using assms by (simp add: lasso_def)
  then have "pos us ws i = pos us ws j \<longleftrightarrow> ?w i = ?w j"
    using wrap_less [OF l, of "length us"] nth_eq_iff_index_eq [of "map fst (us @ ws)" "?w i" "?w j"]
    by (simp add: pos_def del: map_append)
  with wrap_eq [OF l assms(2)] show ?thesis by simp
qed

lemma pos_head: "lasso h us ws \<Longrightarrow> pos us ws 0 = first (us @ ws) None"
  by (cases us; cases ws) (auto simp: pos_def lasso_def wrap_def)

section \<open>The loops on a list with a cycle\<close>

text \<open>The pointers meet at the first positive multiple of the length of the cycle that is on the cycle.\<close>

definition meeting :: "'a cells \<Rightarrow> 'a cells \<Rightarrow> nat \<Rightarrow> bool" where
  "meeting us ws i \<longleftrightarrow> 0 < i \<and> length us \<le> i \<and> length ws dvd i"

lemma meeting_exists:
  assumes "ws \<noteq> []"
  shows "\<exists>n. meeting us ws n \<and> (\<forall>i < n. \<not> meeting us ws i) \<and> n \<le> length us + length ws"
proof -
  let ?l = "length ws" and ?m = "length us"
  let ?k = "?l * (?m div ?l + 1)"
  have "?m mod ?l < ?l" using assms by simp
  moreover have "?l * (?m div ?l) + ?m mod ?l = ?m" by (rule mult_div_mod_eq)
  moreover have "?k = ?l * (?m div ?l) + ?l" by simp
  ultimately have k: "?m < ?k" "?k \<le> ?m + ?l" by linarith+
  with assms have "meeting us ws ?k" by (simp add: meeting_def)
  from ex_least_nat_le [of "meeting us ws", OF this] k(2) show ?thesis by (meson order_trans)
qed

lemma floyd_lasso:
  assumes l: "lasso h us ws" and n: "meeting us ws n" "\<forall>i < n. \<not> meeting us ws i" and i: "i < n" "n - i \<le> fuel"
  shows "floyd fuel (pos us ws i) (pos us ws (2 * i)) h = Ok (pos us ws n)"
  using i
proof (induction fuel arbitrary: i)
  case (Suc fuel)
  have e: "pos us ws (Suc i) = pos us ws (Suc (Suc (2 * i))) \<longleftrightarrow> meeting us ws (Suc i)"
    using pos_eq [OF l, of "Suc i" "Suc (Suc (2 * i))"] by (auto simp: meeting_def)
  have step: "floyd (Suc fuel) (pos us ws i) (pos us ws (2 * i)) h =
      (if meeting us ws (Suc i) then Ok (pos us ws (Suc i)) else floyd fuel (pos us ws (Suc i)) (pos us ws (2 * Suc i)) h)"
    using pos_next [OF l] e by simp
  show ?case
  proof (cases "Suc i = n")
    case True
    with step n(1) show ?thesis by simp
  next
    case False
    with step n(2) Suc.IH [of "Suc i"] Suc.prems show ?thesis by simp
  qed
qed simp

lemma find_before_lasso:
  assumes l: "lasso h us ws" and t: "\<And>x. i < x \<Longrightarrow> x < t \<Longrightarrow> pos us ws x \<noteq> pos us ws t" and i: "i < t" "t - i \<le> fuel"
  shows "find_before fuel (pos us ws i) (pos us ws t) h = Ok (pos us ws (t - 1), t - 1 - i)"
  using t i
proof (induction fuel arbitrary: i)
  case (Suc fuel)
  show ?case
  proof (cases "Suc i = t")
    case True
    with pos_next [OF l, of i] show ?thesis by auto
  next
    case False
    have "find_before fuel (pos us ws (Suc i)) (pos us ws t) h = Ok (pos us ws (t - 1), t - 1 - Suc i)"
      by (rule Suc.IH) (use Suc.prems False in auto)
    with pos_next [OF l, of i] Suc.prems(1) [of "Suc i"] Suc.prems(2) False show ?thesis by auto
  qed
qed simp

lemma find_either_lasso:
  assumes l: "lasso h us ws" and t: "\<And>x. i < x \<Longrightarrow> x < t \<Longrightarrow> pos us ws x \<noteq> p \<and> pos us ws x \<noteq> q" "pos us ws t = p \<or> pos us ws t = q"
    and i: "i < t" "t - i \<le> fuel"
  shows "find_either fuel (pos us ws i) p q h = Ok (pos us ws (t - 1))"
  using t i
proof (induction fuel arbitrary: i)
  case (Suc fuel)
  show ?case
  proof (cases "Suc i = t")
    case True
    with pos_next [OF l, of i] Suc.prems(2) show ?thesis by auto
  next
    case False
    have "find_either fuel (pos us ws (Suc i)) p q h = Ok (pos us ws (t - 1))"
      by (rule Suc.IH) (use Suc.prems False in auto)
    with pos_next [OF l, of i] Suc.prems(1) [of "Suc i"] Suc.prems(3) False show ?thesis by auto
  qed
qed simp

lemma steps_lasso: "lasso h us ws \<Longrightarrow> steps k (pos us ws i) h = Ok (pos us ws (i + k))"
  by (induction k arbitrary: i) (simp_all add: pos_next)

lemma meet_lasso:
  assumes l: "lasso h us ws" and i: "i \<le> length us" "length us - i < fuel"
  shows "meet fuel (pos us ws i) (pos us ws (i + length ws)) h = Ok (pos us ws (length us))"
  using i
proof (induction fuel arbitrary: i)
  case (Suc fuel)
  have "0 < length ws" using l by (simp add: lasso_def)
  with pos_eq [OF l, of i "i + length ws"] Suc.prems(1)
  have e: "pos us ws (i + length ws) = pos us ws i \<longleftrightarrow> i = length us" by auto
  show ?case
  proof (cases "i = length us")
    case False
    with Suc.IH [of "Suc i"] Suc.prems e pos_next [OF l] show ?thesis by auto
  qed (use e in simp)
qed simp

section \<open>The link that closes the cycle\<close>

lemma pos_last:
  assumes "lasso h us ws" and "length us \<le> i" and "length ws dvd (Suc i - length us)"
  shows "\<exists>vs x. us @ ws = vs @ [(the (pos us ws i), x)] \<and> pos us ws i \<noteq> None"
proof -
  let ?l = "length ws" and ?m = "length us"
  have l: "0 < ?l" using assms by (simp add: lasso_def)
  have "Suc (i - ?m) mod ?l = 0" using assms(2,3) by (simp add: Suc_diff_le)
  then have "(i - ?m) mod ?l = ?l - 1" using l by (auto simp: mod_Suc split: if_splits)
  then have "wrap ?m ?l i = length (us @ ws) - 1" using assms(2) l by (simp add: wrap_def del: length_greater_0_conv)
  moreover have "us @ ws \<noteq> []" using l by auto
  then obtain vs a x where v: "us @ ws = vs @ [(a, x)]" by (metis rev_exhaust surj_pair)
  ultimately show ?thesis by (auto simp: pos_def)
qed

lemma cut_last:
  assumes l: "lasso h us ws" and i: "length us \<le> i" "length ws dvd (Suc i - length us)"
  shows "\<exists>h' a. set_next (pos us ws i) None h = Ok h' \<and> chain h' (us @ ws) None \<and> h' = h(a := h' a) \<and> a = fst (last ws)"
proof -
  from pos_last [OF l i] obtain vs a x where v: "us @ ws = vs @ [(a, x)]" "pos us ws i = Some a" by (metis option.collapse)
  have c: "chain h (vs @ [(a, x)]) (first ws None)" "a \<notin> cell_addrs vs" using l v(1) by (auto simp: lasso_def simp del: chain_append)
  have "last ws = (a, x)" using l v(1) by (metis last_appendR last_snoc lasso_def)
  moreover have "set_next (Some a) None h = Ok (h(a \<mapsto> \<lparr>cell_next = None, cell_data = x\<rparr>))" using c(1) by (simp add: set_next_def)
  ultimately show ?thesis using chain_last [OF c, of None] v by (intro exI [of _ "h(a \<mapsto> \<lparr>cell_next = None, cell_data = x\<rparr>)"] exI [of _ a]) simp
qed

text \<open>Both removals find the last cell of the cycle.\<close>

lemma removeLoop_lasso:
  assumes l: "lasso h us ws" and n: "meeting us ws n" and f: "length us + length ws < fuel"
  shows "\<exists>h'. removeLoop fuel (pos us ws n) (pos us ws 0) h = Ok h' \<and> set_next (Some (fst (last ws))) None h = Ok h' \<and> chain h' (us @ ws) None"
proof -
  let ?l = "length ws" and ?m = "length us"
  have lp: "0 < ?l" "?m \<le> n" using l n by (auto simp: lasso_def meeting_def)
  have round: "pos us ws (i + ?l) = pos us ws i" if "?m \<le> i" for i using pos_eq [OF l, of i "i + ?l"] that by auto
  have "find_before fuel (pos us ws n) (pos us ws (n + ?l)) h = Ok (pos us ws (n + ?l - 1), n + ?l - 1 - n)"
  proof (rule find_before_lasso [OF l])
    show "pos us ws x \<noteq> pos us ws (n + ?l)" if "n < x" "x < n + ?l" for x
      using pos_eq [OF l, of x "n + ?l"] that nat_dvd_not_less [of "n + ?l - x" ?l] by auto
  qed (use lp f in auto)
  then have c: "find_before fuel (pos us ws n) (pos us ws n) h = Ok (pos us ws (n + ?l - 1), ?l - 1)" using round [OF lp(2)] by simp
  have s: "steps ?l (pos us ws 0) h = Ok (pos us ws ?l)" using steps_lasso [OF l, of ?l 0] by simp
  have m: "meet fuel (pos us ws 0) (pos us ws ?l) h = Ok (pos us ws ?m)" using meet_lasso [OF l, of 0 fuel] f by simp
  define t where "t = (if ?l = 1 then ?m + 2 else ?m + ?l)"
  have t2: "Suc ?m < t" using lp(1) by (auto simp: t_def simp del: length_greater_0_conv)
  then have "?m \<le> t - 1" by simp
  with t2 have t: "pos us ws t = pos us ws ?m" "Suc ?m < t" "?m \<le> t - 1" "?l dvd Suc (t - 1) - ?m" "t - Suc ?m \<le> fuel"
    using lp round [of ?m] round [of "?m + 1"] f by (auto simp: t_def simp del: length_greater_0_conv)
  have "find_before fuel (pos us ws (Suc ?m)) (pos us ws t) h = Ok (pos us ws (t - 1), t - 1 - Suc ?m)"
  proof (rule find_before_lasso [OF l])
    show "pos us ws x \<noteq> pos us ws t" if "Suc ?m < x" "x < t" for x
      using pos_eq [OF l, of x t] that nat_dvd_not_less [of "t - x" ?l] by (auto simp: t_def split: if_splits)
  qed (use t in auto)
  then have fb: "find_before fuel (pos us ws (Suc ?m)) (pos us ws ?m) h = Ok (pos us ws (t - 1), t - 1 - Suc ?m)" using t(1) by simp
  from cut_last [OF l t(3,4)] obtain h' where h': "set_next (pos us ws (t - 1)) None h = Ok h'" "chain h' (us @ ws) None" by blast
  have "Suc (?l - 1) = ?l" using lp by simp
  then have "removeLoop fuel (pos us ws n) (pos us ws 0) h = Ok h'"
    using c s m fb h'(1) pos_next [OF l, of ?m] unfolding removeLoop_def by (simp del: steps.simps)
  moreover have "pos us ws (t - 1) = Some (fst (last ws))" using pos_last [OF l t(3,4)] l
    by (metis fst_conv last_appendR last_snoc lasso_def option.collapse)
  ultimately show ?thesis using h' by auto
qed

lemma remove_from_lasso:
  assumes l: "lasso h us ws" and n: "meeting us ws n" and f: "length ws \<le> inner" and i: "i \<le> length us" "length us - i < fuel"
  shows "\<exists>h'. remove_from inner fuel (pos us ws n) (pos us ws i) h = Ok h' \<and> set_next (Some (fst (last ws))) None h = Ok h'"
  using i
proof (induction fuel arbitrary: i)
  case (Suc fuel)
  let ?l = "length ws" and ?m = "length us"
  have lp: "0 < ?l" "?m \<le> n" using l n by (auto simp: lasso_def meeting_def)
  have round: "pos us ws (n + ?l) = pos us ws n" using pos_eq [OF l, of n "n + ?l"] lp by auto
  have apart: "pos us ws x \<noteq> pos us ws n" if "n < x" "x < n + ?l" for x
    using pos_eq [OF l, of n x] that nat_dvd_not_less [of "x - n" ?l] by auto
  show ?case
  proof (cases "i = ?m")
    case False
    have off: "pos us ws x \<noteq> pos us ws i" if "?m \<le> x" for x using pos_eq [OF l, of i x] that Suc.prems(1) False by auto
    have "find_either inner (pos us ws n) (pos us ws n) (pos us ws i) h = Ok (pos us ws (n + ?l - 1))"
      by (rule find_either_lasso [OF l]) (use apart off round lp f in auto)
    moreover have "at cell_next (pos us ws (n + ?l - 1)) h = Ok (pos us ws n)" using pos_next [OF l, of "n + ?l - 1"] round lp by simp
    moreover have "pos us ws n \<noteq> pos us ws i" using off lp by simp
    ultimately show ?thesis using Suc.IH [of "Suc i"] Suc.prems False pos_next [OF l, of i] by auto
  next
    case True
    define P where "P t \<longleftrightarrow> n < t \<and> ?l dvd (t - ?m)" for t
    let ?k = "n + (?l - (n - ?m) mod ?l)"
    have "(n - ?m) mod ?l < ?l" using lp by simp
    then have k: "n < ?k" "?k \<le> n + ?l" by auto
    have "?l * ((n - ?m) div ?l) + (n - ?m) mod ?l = n - ?m" by (rule mult_div_mod_eq)
    moreover have "?l * ((n - ?m) div ?l + 1) = ?l * ((n - ?m) div ?l) + ?l" by simp
    ultimately have "?k - ?m = ?l * ((n - ?m) div ?l + 1)" using lp(2) \<open>(n - ?m) mod ?l < ?l\<close> by linarith
    then have "P ?k" using k(1) unfolding P_def by simp
    from ex_least_nat_le [of P, OF this] obtain t where t: "t \<le> ?k" "\<forall>x < t. \<not> P x" "P t" by blast
    have tm: "n < t" "pos us ws t = pos us ws ?m" "?m \<le> t - 1" "?l dvd (Suc (t - 1) - ?m)" "t \<le> n + ?l"
      using t(3) pos_eq [OF l, of ?m t] lp t(1) k(2) by (auto simp: P_def)
    have "find_either inner (pos us ws n) (pos us ws n) (pos us ws ?m) h = Ok (pos us ws (t - 1))"
    proof (rule find_either_lasso [OF l])
      show "pos us ws x \<noteq> pos us ws n \<and> pos us ws x \<noteq> pos us ws ?m" if "n < x" "x < t" for x
        using apart [of x] that tm(5) t(2) pos_eq [OF l, of ?m x] lp(2) by (auto simp: P_def)
    qed (use tm f in auto)
    moreover have "at cell_next (pos us ws (t - 1)) h = Ok (pos us ws ?m)" using pos_next [OF l, of "t - 1"] tm by simp
    moreover have "pos us ws (t - 1) = Some (fst (last ws))" using pos_last [OF l tm(3,4)] l
      by (metis fst_conv last_appendR last_snoc lasso_def option.collapse)
    moreover obtain h' where "set_next (pos us ws (t - 1)) None h = Ok h'" using cut_last [OF l tm(3,4)] by blast
    ultimately show ?thesis using True by simp
  qed
qed simp

section \<open>Lists without a cycle\<close>

lemma floyd_chain:
  assumes c: "chain h cs None" and d: "distinct (map fst cs)" and i: "i \<le> length cs" "length cs - i < fuel"
  shows "floyd fuel (first (drop i cs) None) (first (drop (2 * i) cs) None) h = Ok None"
  using i
proof (induction fuel arbitrary: i)
  case (Suc fuel)
  have nx: "at cell_next (first (drop j cs) None) h = Ok (first (drop (Suc j) cs) None)" if "j < length cs" for j
  proof -
    have "chain h (take j cs @ drop j cs) None" using c by simp
    then have "chain h (drop j cs) None" unfolding chain_append by simp
    moreover obtain a x where "cs ! j = (a, x)" by (cases "cs ! j")
    ultimately show ?thesis using that Cons_nth_drop_Suc [of j cs, symmetric] by auto
  qed
  show ?case
  proof (cases "2 * i + 1 < length cs")
    case True
    have ne: "first (drop (Suc i) cs) None \<noteq> first (drop (Suc (Suc (2 * i))) cs) None"
    proof
      assume e: "first (drop (Suc i) cs) None = first (drop (Suc (Suc (2 * i))) cs) None"
      have fd: "first (drop j cs) None = (if j < length cs then Some (fst (cs ! j)) else None)" for j
        by (cases "j < length cs") (auto simp: Cons_nth_drop_Suc [of j cs, symmetric] split: prod.splits, metis first.simps(2) prod.collapse)
      from e True have "2 * i + 2 < length cs" "fst (cs ! Suc i) = fst (cs ! Suc (Suc (2 * i)))" unfolding fd by (auto split: if_splits)
      with d nth_eq_iff_index_eq [of "map fst cs" "Suc i" "Suc (Suc (2 * i))"] show False by simp
    qed
    have "floyd (Suc fuel) (first (drop i cs) None) (first (drop (2 * i) cs) None) h =
        floyd fuel (first (drop (Suc i) cs) None) (first (drop (2 * Suc i) cs) None) h"
      using True nx [of i] nx [of "2 * i"] nx [of "Suc (2 * i)"] ne by simp
    with Suc.IH [of "Suc i"] Suc.prems True show ?thesis by simp
  next
    case False
    then show ?thesis using nx [of "2 * i"] by (cases "2 * i < length cs") auto
  qed
qed simp

section \<open>Detection and removal\<close>

text \<open>
  A list in memory: finitely many cells, and the last one points nowhere or back to one of them. There is no other shape.
\<close>

definition list_shape :: "'a heap \<Rightarrow> 'a cells \<Rightarrow> ptr \<Rightarrow> bool" where
  "list_shape h cs q \<longleftrightarrow> distinct (map fst cs) \<and> chain h cs q \<and> (case q of None \<Rightarrow> True | Some a \<Rightarrow> a \<in> cell_addrs cs)"

lemma shape_lasso:
  assumes "list_shape h cs (Some a)"
  obtains us ws where "cs = us @ ws" and "lasso h us ws" and "first ws None = Some a"
proof -
  from assms have "a \<in> cell_addrs cs" by (simp add: list_shape_def)
  then obtain x where "(a, x) \<in> set cs" by auto
  then obtain us ws where u: "cs = us @ (a, x) # ws" by (meson split_list)
  with assms have "lasso h us ((a, x) # ws)" by (auto simp: list_shape_def lasso_def)
  with u that [of us "(a, x) # ws"] show ?thesis by simp
qed

lemma floyd_shape:
  assumes "list_shape h cs (Some a)" and "length cs < fuel"
  obtains us ws n where "cs = us @ ws" and "lasso h us ws" and "first cs (Some a) = pos us ws 0" and "meeting us ws n"
    and "floyd fuel (first cs (Some a)) (first cs (Some a)) h = Ok (pos us ws n)"
proof -
  from shape_lasso [OF assms(1)] obtain us ws where u: "cs = us @ ws" "lasso h us ws" "first ws None = Some a" .
  have ne: "ws \<noteq> []" using u(2) by (simp add: lasso_def)
  from meeting_exists [OF ne, of us] obtain n where n: "meeting us ws n" "\<forall>i < n. \<not> meeting us ws i" "n \<le> length us + length ws" by blast
  have p: "first cs (Some a) = pos us ws 0" using pos_head [OF u(2)] u(1) ne by (cases us; cases ws) auto
  have "floyd fuel (pos us ws 0) (pos us ws (2 * 0)) h = Ok (pos us ws n)"
    by (rule floyd_lasso [OF u(2) n(1,2)]) (use n assms(2) u(1) in \<open>auto simp: meeting_def\<close>)
  with that [OF u(1,2) p n(1)] p show ?thesis by simp
qed

text \<open>
  C25: for every list, the loop with the slow and the fast pointer ends, after no more rounds than there are cells, and
  \<open>detectloop\<close> returns 1 exactly if the list runs into a cycle.
\<close>

theorem detectloop_iff:
  assumes "list_shape h cs q" and "length cs < fuel"
  shows "detectloop fuel (first cs q) h = Ok (if q = None then 0 else 1)"
proof (cases q)
  case None
  with assms floyd_chain [of h cs 0 fuel] show ?thesis by (auto simp: list_shape_def detectloop_def)
next
  case (Some a)
  from floyd_shape [OF assms(1) [unfolded Some] assms(2)] obtain us ws n where
    u: "cs = us @ ws" "lasso h us ws" "first cs (Some a) = pos us ws 0" "meeting us ws n"
      "floyd fuel (first cs (Some a)) (first cs (Some a)) h = Ok (pos us ws n)" .
  with Some show ?thesis by (simp add: detectloop_def)
qed

text \<open>
  C24: both versions of \<open>detectAndRemoveLoop\<close> return, with the same result and the same heap: 0 and the unchanged heap for a
  list without a cycle, and 1 for one with a cycle, in which the cell that closed it now points nowhere, so that all
  cells form a list in the same order.
\<close>

theorem remove_loop_equiv:
  assumes "list_shape h cs q" and "length cs < fuel"
  shows "\<exists>h'. detectAndRemoveLoop fuel (first cs q) h = Ok (if q = None then 0 else 1, h') \<and>
     detectAndRemoveLoop1 fuel (first cs q) h = Ok (if q = None then 0 else 1, h') \<and> chain h' cs None \<and> (q = None \<longrightarrow> h' = h)"
proof (cases q)
  case None
  with assms floyd_chain [of h cs 0 fuel] show ?thesis
    by (auto simp: list_shape_def detectAndRemoveLoop_def detectAndRemoveLoop1_def)
next
  case (Some a)
  from floyd_shape [OF assms(1) [unfolded Some] assms(2)] obtain us ws n where
    u: "cs = us @ ws" "lasso h us ws" "first cs (Some a) = pos us ws 0" "meeting us ws n"
      "floyd fuel (first cs (Some a)) (first cs (Some a)) h = Ok (pos us ws n)" .
  have f: "length us + length ws < fuel" using assms(2) u(1) by simp
  from removeLoop_lasso [OF u(2,4) f] obtain h' where
    h': "removeLoop fuel (pos us ws n) (pos us ws 0) h = Ok h'" "set_next (Some (fst (last ws))) None h = Ok h'" "chain h' (us @ ws) None" by blast
  have "remove_from fuel fuel (pos us ws n) (pos us ws 0) h = Ok h'"
    using remove_from_lasso [OF u(2,4), of fuel 0 fuel] f h'(2) by auto
  with h' u Some show ?thesis by (auto simp: detectAndRemoveLoop_def detectAndRemoveLoop1_def)
qed

definition looped :: "int heap" where
  "looped = [0 \<mapsto> \<lparr>cell_next = Some 1, cell_data = 1\<rparr>, 1 \<mapsto> \<lparr>cell_next = Some 2, cell_data = 2\<rparr>, 2 \<mapsto> \<lparr>cell_next = Some 1, cell_data = 3\<rparr>]"

lemma looped_shape: "list_shape looped [(0, 1), (1, 2), (2, 3)] (Some 1)"
  by (simp add: list_shape_def looped_def)

theorem detectloop_iff_witness: "detectloop 4 (Some 0) looped = Ok 1"
  using detectloop_iff [OF looped_shape, of 4] by simp

theorem remove_loop_equiv_witness:
  "\<exists>h'. detectAndRemoveLoop 4 (Some 0) looped = Ok (1, h') \<and> detectAndRemoveLoop1 4 (Some 0) looped = Ok (1, h') \<and>
     chain h' [(0, 1), (1, 2), (2, 3)] None"
  using remove_loop_equiv [OF looped_shape, of 4] by auto

end
