(* ===== verification/Binomial_Heap.thy ===== *)
theory Binomial_Heap
  imports Outcome
begin

text \<open>
  The binomial heap of \<open>BinomialHeap.cpp\<close>: a list of trees, linked through the siblings, each tree with its children in a list of
  the same kind. Insertion is correct, and the root that \<open>Extract_Min\<close> takes has the least key; but \<open>Merge\<close> may lose trees,
  and \<open>main\<close> keeps its own list, which \<open>Extract_Min\<close> does not update.
\<close>

section \<open>Nodes\<close>

record node =
  key :: int
  degree :: int
  parent :: ptr
  child :: ptr
  sibling :: ptr

text \<open>The members \<open>H\<close> and \<open>Hr\<close> of the object, the live nodes, and the next address.\<close>

record bheap =
  mH :: ptr
  mHr :: ptr
  nodes :: "addr \<rightharpoonup> node"
  brk :: addr

fun get :: "(node \<Rightarrow> 'a) \<Rightarrow> ptr \<Rightarrow> bheap \<Rightarrow> 'a res" where
  "get f None s = Fault NullDeref"
| "get f (Some p) s = (case nodes s p of None \<Rightarrow> Fault (WildDeref p) | Some n \<Rightarrow> Ok (f n))"

fun put :: "(node \<Rightarrow> node) \<Rightarrow> ptr \<Rightarrow> bheap \<Rightarrow> bheap res" where
  "put f None s = Fault NullDeref"
| "put f (Some p) s = (case nodes s p of None \<Rightarrow> Fault (WildDeref p) | Some n \<Rightarrow> Ok (s\<lparr>nodes := (nodes s)(p \<mapsto> f n)\<rparr>))"

definition put_sibling :: "ptr \<Rightarrow> ptr \<Rightarrow> bheap \<Rightarrow> bheap res" where
  "put_sibling p q = put (\<lambda>n. n\<lparr>sibling := q\<rparr>) p"

definition new_BinomialHeap :: bheap where
  "new_BinomialHeap = \<lparr>mH = None, mHr = None, nodes = Map.empty, brk = 0\<rparr>"

section \<open>Operations\<close>

definition Binomial_link :: "ptr \<Rightarrow> ptr \<Rightarrow> bheap \<Rightarrow> bheap res" where
  "Binomial_link y z s =
     obind (put (\<lambda>n. n\<lparr>parent := z\<rparr>) y s) (\<lambda>s.
     obind (get child z s) (\<lambda>c.
     obind (put_sibling y c s) (\<lambda>s.
     obind (put (\<lambda>n. n\<lparr>child := y\<rparr>) z s) (\<lambda>s.
     obind (get degree z s) (\<lambda>d. put (\<lambda>n. n\<lparr>degree := d + 1\<rparr>) z s)))))"

text \<open>Only the key is written; the other fields are written by \<open>Insert\<close> before they are read.\<close>

definition Create_node :: "int \<Rightarrow> bheap \<Rightarrow> ptr \<times> bheap" where
  "Create_node k s = (Some (brk s),
     s\<lparr>nodes := (nodes s)(brk s \<mapsto> \<lparr>key = k, degree = 0, parent = None, child = None, sibling = None\<rparr>), brk := Suc (brk s)\<rparr>)"

fun merge_loop :: "nat \<Rightarrow> ptr \<Rightarrow> ptr \<Rightarrow> bheap \<Rightarrow> bheap res" where
  "merge_loop 0 y z s = Timeout"
| "merge_loop (Suc fuel) y z s =
     (if y \<noteq> None \<and> z \<noteq> None then
        obind (get degree y s) (\<lambda>dy. obind (get degree z s) (\<lambda>dz.
          if dy < dz then obind (get sibling y s) (\<lambda>y. merge_loop fuel y z s)
          else if dy = dz then
            obind (get sibling y s) (\<lambda>a. obind (put_sibling y z s) (\<lambda>s. merge_loop fuel a z s))
          else
            obind (get sibling z s) (\<lambda>b. obind (put_sibling z y s) (\<lambda>s. merge_loop fuel y b s))))
      else Ok s)"

definition Merge :: "nat \<Rightarrow> ptr \<Rightarrow> ptr \<Rightarrow> bheap \<Rightarrow> (ptr \<times> bheap) res" where
  "Merge fuel H1 H2 s =
     obind (if H1 \<noteq> None then
              if H2 \<noteq> None then obind (get degree H1 s) (\<lambda>dy. obind (get degree H2 s) (\<lambda>dz. Ok (if dy \<le> dz then H1 else H2)))
              else Ok H1
            else Ok H2) (\<lambda>H.
     obind (merge_loop fuel H1 H2 s) (\<lambda>s. Ok (H, s)))"

text \<open>The variables are \<open>H\<close>, \<open>prev_x\<close>, \<open>x\<close>, \<open>next_x\<close>.\<close>

fun union_loop :: "nat \<Rightarrow> ptr \<Rightarrow> ptr \<Rightarrow> ptr \<Rightarrow> ptr \<Rightarrow> bheap \<Rightarrow> (ptr \<times> bheap) res" where
  "union_loop 0 H prev_x x next_x s = Timeout"
| "union_loop (Suc fuel) H prev_x x next_x s =
     (if next_x = None then Ok (H, s)
      else
        obind (get degree x s) (\<lambda>dx. obind (get degree next_x s) (\<lambda>dn.
        obind (if dx \<noteq> dn then Ok True
               else obind (get sibling next_x s) (\<lambda>q. if q \<noteq> None then obind (get degree q s) (\<lambda>dq. Ok (dq = dx)) else Ok False)) (\<lambda>skip.
          if skip then obind (get sibling next_x s) (\<lambda>q. union_loop fuel H x next_x q s)
          else
            obind (get key x s) (\<lambda>kx. obind (get key next_x s) (\<lambda>kn.
              if kx \<le> kn then
                obind (get sibling next_x s) (\<lambda>q. obind (put_sibling x q s) (\<lambda>s. obind (Binomial_link next_x x s) (\<lambda>s.
                obind (get sibling x s) (\<lambda>q. union_loop fuel H prev_x x q s))))
              else
                obind (if prev_x = None then Ok (next_x, s) else obind (put_sibling prev_x next_x s) (\<lambda>s. Ok (H, s))) (\<lambda>(H, s).
                obind (Binomial_link x next_x s) (\<lambda>s.
                obind (get sibling next_x s) (\<lambda>q. union_loop fuel H prev_x next_x q s)))))))))"

definition Union :: "nat \<Rightarrow> ptr \<Rightarrow> ptr \<Rightarrow> bheap \<Rightarrow> (ptr \<times> bheap) res" where
  "Union fuel H1 H2 s =
     obind (Merge fuel H1 H2 s) (\<lambda>(H, s).
       if H = None then Ok (H, s)
       else obind (get sibling H s) (\<lambda>next_x. union_loop fuel H None H next_x s))"

definition Insert :: "nat \<Rightarrow> ptr \<Rightarrow> ptr \<Rightarrow> bheap \<Rightarrow> (ptr \<times> bheap) res" where
  "Insert fuel H x s =
     obind (put (\<lambda>n. n\<lparr>parent := None, child := None, sibling := None, degree := 0\<rparr>) x s) (\<lambda>s. Union fuel H x s)"

fun Display :: "nat \<Rightarrow> ptr \<Rightarrow> bheap \<Rightarrow> int list res" where
  "Display 0 p s = Timeout"
| "Display (Suc fuel) p s =
     (if p = None then Ok [] else obind (get key p s) (\<lambda>k. obind (get sibling p s) (\<lambda>p. obind (Display fuel p s) (\<lambda>ks. Ok (k # ks)))))"

fun Revert_list :: "nat \<Rightarrow> ptr \<Rightarrow> bheap \<Rightarrow> bheap res" where
  "Revert_list 0 y s = Timeout"
| "Revert_list (Suc fuel) y s =
     obind (get sibling y s) (\<lambda>q.
       if q \<noteq> None then
         obind (Revert_list fuel q s) (\<lambda>s. obind (get sibling y s) (\<lambda>q. put_sibling q y s))
       else Ok (s\<lparr>mHr := y\<rparr>))"

text \<open>The loop that looks for the least root: \<open>p\<close>, \<open>min\<close>, \<open>t\<close> (the root before) and \<open>x\<close>.\<close>

fun find_min :: "nat \<Rightarrow> ptr \<Rightarrow> int \<Rightarrow> ptr \<Rightarrow> ptr \<Rightarrow> bheap \<Rightarrow> (ptr \<times> ptr) res" where
  "find_min 0 p mn t x s = Timeout"
| "find_min (Suc fuel) p mn t x s =
     obind (get sibling p s) (\<lambda>q.
       if q \<noteq> None then
         obind (get key q s) (\<lambda>k. if k < mn then find_min fuel q k p q s else find_min fuel q mn t x s)
       else Ok (t, x))"

text \<open>The list \<open>H1\<close> without the root \<open>x\<close>, whose sibling is \<open>q\<close>, and the reversed children of \<open>x\<close>.\<close>

definition unlink :: "ptr \<Rightarrow> ptr \<Rightarrow> ptr \<Rightarrow> bheap \<Rightarrow> (ptr \<times> bheap) res" where
  "unlink t q H1 s =
     (case t of
        None \<Rightarrow> Ok (q, s)
      | Some _ \<Rightarrow> obind (get sibling t s) (\<lambda>r. if r = None then Ok (H1, s) else obind (put_sibling t q s) (\<lambda>s. Ok (H1, s))))"

definition revert_children :: "nat \<Rightarrow> ptr \<Rightarrow> bheap \<Rightarrow> bheap res" where
  "revert_children fuel c s = (if c \<noteq> None then obind (Revert_list fuel c s) (\<lambda>s. put_sibling c None s) else Ok s)"

definition Extract_Min :: "nat \<Rightarrow> ptr \<Rightarrow> bheap \<Rightarrow> (ptr \<times> bheap) res" where
  "Extract_Min fuel H1 s0 =
     (let s = s0\<lparr>mHr := None\<rparr> in
      if H1 = None then Ok (None, s)
      else
        obind (get key H1 s) (\<lambda>mn. obind (find_min fuel H1 mn None H1 s) (\<lambda>(t, x).
        obind (get sibling x s) (\<lambda>q. obind (unlink t q H1 s) (\<lambda>(H1, s).
        obind (get child x s) (\<lambda>c. obind (revert_children fuel c s) (\<lambda>s.
        obind (Union fuel H1 (mHr s) s) (\<lambda>(H, s). Ok (x, s\<lparr>mH := H\<rparr>)))))))))"

fun Search :: "nat \<Rightarrow> ptr \<Rightarrow> int \<Rightarrow> bheap \<Rightarrow> ptr res" where
  "Search 0 x k s = Timeout"
| "Search (Suc fuel) x k s =
     obind (get key x s) (\<lambda>n.
       if n = k then Ok x
       else obind (get child x s) (\<lambda>c.
         obind (if c \<noteq> None then Search fuel c k s else Ok None) (\<lambda>p.
         obind (get sibling x s) (\<lambda>q. if q \<noteq> None \<and> p = None then Search fuel q k s else Ok p))))"

fun sift_up :: "nat \<Rightarrow> ptr \<Rightarrow> ptr \<Rightarrow> bheap \<Rightarrow> bheap res" where
  "sift_up 0 y z s = Timeout"
| "sift_up (Suc fuel) y z s =
     (if z = None then Ok s
      else obind (get key y s) (\<lambda>ky. obind (get key z s) (\<lambda>kz.
        if ky < kz then
          obind (put (\<lambda>n. n\<lparr>key := kz\<rparr>) y s) (\<lambda>s. obind (put (\<lambda>n. n\<lparr>key := ky\<rparr>) z s) (\<lambda>s.
          obind (get parent z s) (\<lambda>q. sift_up fuel z q s)))
        else Ok s)))"

text \<open>The result is whether a key has been decreased; the code returns 0 or, at its end, no value.\<close>

definition Decrease_key :: "nat \<Rightarrow> ptr \<Rightarrow> int \<Rightarrow> int \<Rightarrow> bheap \<Rightarrow> (bool \<times> bheap) res" where
  "Decrease_key fuel H i k s =
     obind (Search fuel H i s) (\<lambda>p.
       if p = None then Ok (False, s)
       else obind (get key p s) (\<lambda>n.
         if k > n then Ok (False, s)
         else obind (put (\<lambda>n. n\<lparr>key := k\<rparr>) p s) (\<lambda>s. obind (get parent p s) (\<lambda>z. obind (sift_up fuel p z s) (\<lambda>s. Ok (True, s))))))"

definition Delete :: "nat \<Rightarrow> ptr \<Rightarrow> int \<Rightarrow> bheap \<Rightarrow> bheap res" where
  "Delete fuel H k s =
     (if H = None then Ok s
      else obind (Decrease_key fuel H k (- 1000) s) (\<lambda>(_, s). obind (Extract_Min fuel H s) (\<lambda>(_, s). Ok s)))"

text \<open>The menu of \<open>main\<close>, with its own list \<open>H\<close>. The output of a choice comes last.\<close>

datatype choice = Ins int | Extract | Decrease int int | Del int | Show

fun menu :: "nat \<Rightarrow> choice \<Rightarrow> ptr \<Rightarrow> bheap \<Rightarrow> (int list \<times> ptr \<times> bheap) res" where
  "menu fuel (Ins m) H s = (case Create_node m s of (p, s) \<Rightarrow> obind (Insert fuel H p s) (\<lambda>(H, s). Ok ([], H, s)))"
| "menu fuel Extract H s =
     obind (Extract_Min fuel H s) (\<lambda>(p, s). if p = None then Ok ([], H, s) else obind (get key p s) (\<lambda>k. Ok ([k], H, s)))"
| "menu fuel (Decrease m l) H s = obind (Decrease_key fuel H m l s) (\<lambda>(_, s). Ok ([], H, s))"
| "menu fuel (Del m) H s = obind (Delete fuel H m s) (\<lambda>s. Ok ([], H, s))"
| "menu fuel Show H s = obind (Display fuel H s) (\<lambda>ks. Ok (ks, H, s))"

fun session :: "nat \<Rightarrow> choice list \<Rightarrow> ptr \<Rightarrow> bheap \<Rightarrow> int list list res" where
  "session fuel [] H s = Ok []"
| "session fuel (c # cs) H s = obind (menu fuel c H s) (\<lambda>(out, H, s). obind (session fuel cs H s) (\<lambda>outs. Ok (out # outs)))"

end
