(* ===== verification/Binomial_Insert.thy ===== *)
theory Binomial_Insert
  imports Binomial_Heap "HOL-Library.Multiset"
begin

text \<open>
  What the heap of \<open>BinomialHeap.cpp\<close> holds: a list of trees with their addresses. Insertion adds with carry on lists of trees
  of increasing degrees, and keeps every tree a binomial tree whose parents are not greater than their children. The search and
  the choice of the least root are correct on such lists.
\<close>

section \<open>Trees on the heap\<close>

datatype bt = B addr int "bt list"

fun kids :: "bt \<Rightarrow> bt list" where
  "kids (B a k ts) = ts"

fun root :: "bt \<Rightarrow> int" where
  "root (B a k ts) = k"

abbreviation rank :: "bt \<Rightarrow> nat" where
  "rank t \<equiv> length (kids t)"

fun head :: "bt list \<Rightarrow> ptr" where
  "head [] = None"
| "head (B a k ts # us) = Some a"

fun addrs :: "bt list \<Rightarrow> addr list" where
  "addrs [] = []"
| "addrs (B a k ts # us) = a # addrs ts @ addrs us"

fun keys :: "bt list \<Rightarrow> int multiset" where
  "keys [] = {#}"
| "keys (B a k ts # us) = add_mset k (keys ts + keys us)"

fun rep :: "(addr \<rightharpoonup> node) \<Rightarrow> ptr \<Rightarrow> bt list \<Rightarrow> bool" where
  "rep h par [] = True"
| "rep h par (B a k ts # us) \<longleftrightarrow>
     h a = Some \<lparr>key = k, degree = int (length ts), parent = par, child = head ts, sibling = head us\<rparr> \<and>
     rep h (Some a) ts \<and> rep h par us"

text \<open>A binomial tree of rank \<open>n\<close> has children of ranks \<open>n - 1\<close> to \<open>0\<close>, none less than its root.\<close>

fun binom :: "bt list \<Rightarrow> bool" where
  "binom [] = True"
| "binom (B a k ts # us) \<longleftrightarrow>
     map rank ts = rev [0..<length ts] \<and> (\<forall>t \<in> set ts. k \<le> root t) \<and> binom ts \<and> binom us"

definition bheap_at :: "bheap \<Rightarrow> ptr \<Rightarrow> bt list \<Rightarrow> bool" where
  "bheap_at s H us \<longleftrightarrow>
     head us = H \<and> rep (nodes s) None us \<and> distinct (addrs us) \<and> (\<forall>a \<in> set (addrs us). a < brk s) \<and>
     binom us \<and> sorted_wrt (<) (map rank us)"

lemma head_None [simp]: "head us = None \<longleftrightarrow> us = []" "None = head us \<longleftrightarrow> us = []"
  by (cases us rule: head.cases; simp)+

lemma addrs_append [simp]: "addrs (us @ vs) = addrs us @ addrs vs"
  by (induction us rule: addrs.induct) auto

lemma bh_rep_cong: "(\<And>a. a \<in> set (addrs us) \<Longrightarrow> h' a = h a) \<Longrightarrow> rep h' p us = rep h p us"
  by (induction h p us rule: rep.induct) auto

lemma bh_rep_upd [simp]: "a \<notin> set (addrs us) \<Longrightarrow> rep (h(a := v)) p us = rep h p us"
  by (rule bh_rep_cong) auto

lemma binomial_Cons: "binom (t # us) \<longleftrightarrow> binom [t] \<and> binom us"
  by (cases t) auto

section \<open>Addition with carry\<close>

fun link :: "bt \<Rightarrow> bt \<Rightarrow> bt" where
  "link (B a k ts) (B b l us) = (if k \<le> l then B a k (B b l us # ts) else B b l (B a k ts # us))"

fun carry :: "bt \<Rightarrow> bt list \<Rightarrow> bt list" where
  "carry t [] = [t]"
| "carry t (u # us) = (if rank t = rank u then carry (link t u) us else t # u # us)"

lemma rank_link [simp]: "rank t = rank u \<Longrightarrow> rank (link t u) = Suc (rank u)"
  by (cases t; cases u) auto

lemma binomial_link: "binom [t] \<Longrightarrow> binom [u] \<Longrightarrow> rank t = rank u \<Longrightarrow> binom [link t u]"
  by (cases t; cases u) force

lemma keys_link [simp]: "keys (link t u # us) = keys (t # u # us)"
  by (cases t; cases u) auto

lemma addrs_link: "mset (addrs (link t u # us)) = mset (addrs (t # u # us))"
  by (cases t; cases u) auto

lemma keys_carry: "keys (carry t us) = keys (t # us)"
  by (induction t us rule: carry.induct) auto

lemma binomial_carry: "binom [t] \<Longrightarrow> binom us \<Longrightarrow> binom (carry t us)"
proof (induction t us rule: carry.induct)
  case (2 t u us)
  then show ?case using binomial_link [of t u] binomial_Cons [of u us] binomial_Cons [of t "u # us"] by auto
qed auto

lemma sorted_carry:
  "sorted_wrt (<) (map rank us) \<Longrightarrow> \<forall>u \<in> set us. rank t \<le> rank u \<Longrightarrow> sorted_wrt (<) (map rank (carry t us))"
proof (induction t us rule: carry.induct)
  case (2 t u us)
  show ?case
  proof (cases "rank t = rank u")
    case True
    with 2 show ?thesis by (auto simp: Suc_le_eq)
  next
    case False
    with 2 show ?thesis by fastforce
  qed
qed auto

lemma addrs_carry: "mset (addrs (carry t us)) = mset (addrs (t # us))"
  by (induction t us rule: carry.induct) (auto simp: addrs_link)

lemmas set_addrs_carry = mset_eq_setD [OF addrs_carry]
lemmas distinct_addrs_carry = mset_eq_imp_distinct_iff [OF addrs_carry]

section \<open>Insertion on the heap\<close>

lemma union_loop_walk:
  "rep (nodes s) None (t # us) \<Longrightarrow> sorted_wrt (<) (map rank (t # us)) \<Longrightarrow> length us < fuel \<Longrightarrow>
   union_loop fuel H p (head (t # us)) (head us) s = Ok (H, s)"
proof (induction us arbitrary: t p fuel)
  case Nil
  then show ?case by (cases fuel) auto
next
  case (Cons u us)
  obtain fuel' where f: "fuel = Suc fuel'" using Cons.prems(3) by (cases fuel) auto
  obtain a k ts b l vs where tu: "t = B a k ts" "u = B b l vs" by (cases t; cases u) blast
  have "union_loop fuel' H (Some a) (head (u # us)) (head us) s = Ok (H, s)"
    by (rule Cons.IH) (use Cons.prems tu f in auto)
  then show ?case using Cons.prems f tu by auto
qed

text \<open>Linking the second tree below the first, and the first below the second.\<close>

lemma link_left:
  assumes "rep (nodes s) None (B a k ts # B b l us # vs)" and "distinct (addrs (B a k ts # B b l us # vs))"
  shows "\<exists>s' s''. put_sibling (Some a) (head vs) s = Ok s' \<and> Binomial_link (Some b) (Some a) s' = Ok s'' \<and>
     rep (nodes s'') None (B a k (B b l us # ts) # vs) \<and> brk s'' = brk s"
  using assms by (auto simp: put_sibling_def Binomial_link_def)

lemma link_right:
  assumes "rep (nodes s) None (B a k ts # B b l us # vs)" and "distinct (addrs (B a k ts # B b l us # vs))"
  shows "\<exists>s'. Binomial_link (Some a) (Some b) s = Ok s' \<and> rep (nodes s') None (B b l (B a k ts # us) # vs) \<and> brk s' = brk s"
  using assms by (auto simp: put_sibling_def Binomial_link_def)

lemma union_loop_link:
  assumes "rep (nodes s) None (B a k ts # B b l vs # us)" and "length ts = length vs" and "\<forall>x \<in> set us. length vs < rank x"
  shows "union_loop (Suc fuel) H None (Some a) (Some b) s =
     (if k \<le> l then
        obind (put_sibling (Some a) (head us) s) (\<lambda>s. obind (Binomial_link (Some b) (Some a) s) (\<lambda>s.
        obind (get sibling (Some a) s) (\<lambda>q. union_loop fuel H None (Some a) q s)))
      else
        obind (Binomial_link (Some a) (Some b) s) (\<lambda>s.
        obind (get sibling (Some b) s) (\<lambda>q. union_loop fuel (Some b) None (Some b) q s)))"
  using assms by (cases us rule: head.cases) (auto simp del: obind_eq_Ok)

lemma union_loop_carry:
  "rep (nodes s) None (t # us) \<Longrightarrow> distinct (addrs (t # us)) \<Longrightarrow> sorted_wrt (<) (map rank us) \<Longrightarrow> \<forall>u \<in> set us. rank t \<le> rank u \<Longrightarrow>
   length us < fuel \<Longrightarrow>
   \<exists>s'. union_loop fuel (head (t # us)) None (head (t # us)) (head us) s = Ok (head (carry t us), s') \<and>
     rep (nodes s') None (carry t us) \<and> brk s' = brk s"
proof (induction us arbitrary: t s fuel)
  case Nil
  then show ?case by (cases fuel; cases t) auto
next
  case (Cons u us)
  obtain fuel' where f: "fuel = Suc fuel'" using Cons.prems(5) by (cases fuel) auto
  obtain a k ts b l vs where tu: "t = B a k ts" "u = B b l vs" by (cases t; cases u) blast
  have step: "rank t = rank u \<Longrightarrow> \<forall>x \<in> set us. length vs < rank x" using Cons.prems(3) tu by auto
  show ?case
  proof (cases "rank t = rank u")
    case False
    then have w: "union_loop fuel (Some a) None (head (t # u # us)) (head (u # us)) s = Ok (Some a, s)"
      by (intro union_loop_walk) (use Cons.prems in fastforce)+
    show ?thesis using Cons.prems w tu False by simp
  next
    case True
    have next_le: "\<forall>x \<in> set us. rank (link t u) \<le> rank x" using Cons.prems(3,4) True by (auto simp: Suc_le_eq)
    have d: "distinct (addrs (link t u # us))"
      using Cons.prems(2) mset_eq_imp_distinct_iff [OF addrs_link [of t u us]] by simp
    show ?thesis
    proof (cases "k \<le> l")
      case kl: True
      obtain s' s'' where s': "put_sibling (Some a) (head us) s = Ok s'" "Binomial_link (Some b) (Some a) s' = Ok s''"
        "rep (nodes s'') None (link t u # us)" "brk s'' = brk s"
        using link_left [of s a k ts b l vs us] Cons.prems(1,2) tu kl by auto
      have "\<exists>s'. union_loop fuel' (head (link t u # us)) None (head (link t u # us)) (head us) s'' = Ok (head (carry (link t u) us), s') \<and>
          rep (nodes s') None (carry (link t u) us) \<and> brk s' = brk s''"
        by (rule Cons.IH) (use Cons.prems s' d next_le f in auto)
      then show ?thesis using Cons.prems(1) s' f tu True kl step union_loop_link [of s a k ts b l vs us fuel'] by auto
    next
      case kl: False
      obtain s' where s': "Binomial_link (Some a) (Some b) s = Ok s'" "rep (nodes s') None (link t u # us)" "brk s' = brk s"
        using link_right [of s a k ts b l vs us] Cons.prems(1,2) tu kl by auto
      have "\<exists>s''. union_loop fuel' (head (link t u # us)) None (head (link t u # us)) (head us) s' = Ok (head (carry (link t u) us), s'') \<and>
          rep (nodes s'') None (carry (link t u) us) \<and> brk s'' = brk s'"
        by (rule Cons.IH) (use Cons.prems s' d next_le f in auto)
      then show ?thesis using Cons.prems(1) s' f tu True kl step union_loop_link [of s a k ts b l vs us fuel'] by auto
    qed
  qed
qed

text \<open>Where \<open>Merge\<close> puts a single node.\<close>

fun place :: "bt \<Rightarrow> bt list \<Rightarrow> bt \<times> bt list" where
  "place t [] = (t, [])"
| "place t (u # us) = (if rank u = 0 then (u, t # us) else (t, u # us))"

lemma Merge_single:
  assumes "rep (nodes s) None us" and "distinct (b # addrs us)" and "nodes s b = Some \<lparr>key = k, degree = 0, parent = None, child = None, sibling = None\<rparr>"
    and "sorted_wrt (<) (map rank us)" and "place (B b k []) us = (t, vs)" and "2 < fuel"
  shows "\<exists>s'. Merge fuel (head us) (Some b) s = Ok (head (t # vs), s') \<and> rep (nodes s') None (t # vs) \<and> brk s' = brk s"
proof -
  obtain f where f: "fuel = Suc (Suc (Suc f))" using assms(6) by (metis less_iff_Suc_add numeral_2_eq_2 add_Suc)
  show ?thesis
  proof (cases us rule: head.cases)
    case 1
    then show ?thesis using assms f by (auto simp: Merge_def)
  next
    case (2 a l ts ws)
    show ?thesis
    proof (cases ws rule: head.cases)
      case 1
      then show ?thesis using assms 2 f by (auto simp: Merge_def put_sibling_def split: if_splits)
    next
      case (2 c m xs ys)
      then show ?thesis using assms \<open>us = _\<close> f by (auto simp: Merge_def put_sibling_def split: if_splits)
    qed
  qed
qed

lemma place_props:
  assumes "place t us = (u, vs)" and "rank t = 0" and "sorted_wrt (<) (map rank us)" and "binom [t]" and "binom us"
  shows "mset (addrs (u # vs)) = mset (addrs (t # us))" "keys (u # vs) = keys (t # us)" "binom [u]" "binom vs"
    "sorted_wrt (<) (map rank vs)" "\<forall>v \<in> set vs. rank u \<le> rank v" "length vs = length us"
  using assms binomial_Cons [of t] binomial_Cons [of "hd us" "tl us"]
  by (cases us; cases t; cases u; auto split: if_splits)+

definition insert_bt :: "bt \<Rightarrow> bt list \<Rightarrow> bt list" where
  "insert_bt t us = (case place t us of (u, vs) \<Rightarrow> carry u vs)"

lemma keys_insert_bt: "rank t = 0 \<Longrightarrow> sorted_wrt (<) (map rank us) \<Longrightarrow> binom [t] \<Longrightarrow> binom us \<Longrightarrow> keys (insert_bt t us) = keys (t # us)"
  using place_props [of t us] by (cases "place t us") (simp add: insert_bt_def keys_carry)

lemma insert_node:
  assumes h: "bheap_at s H us" and fuel: "length us + 2 < fuel"
  shows "\<exists>s'. menu fuel (Ins k) H s = Ok ([], head (insert_bt (B (brk s) k []) us), s') \<and> 
     bheap_at s' (head (insert_bt (B (brk s) k []) us)) (insert_bt (B (brk s) k []) us)"
proof -
  let ?t = "B (brk s) k []" and ?n = "\<lparr>key = k, degree = 0, parent = None, child = None, sibling = None\<rparr>"
  let ?s = "s\<lparr>brk := Suc (brk s), nodes := (nodes s)(brk s \<mapsto> ?n)\<rparr>"
  obtain u vs where p: "place ?t us = (u, vs)" by fastforce
  have fresh: "brk s \<notin> set (addrs us)" using h by (auto simp: bheap_at_def)
  have us: "rep (nodes s) None us" "distinct (addrs us)" "binom us" "sorted_wrt (<) (map rank us)" "head us = H"
    using h by (auto simp: bheap_at_def)
  have t: "rank ?t = 0" "binom [?t]" by simp_all
  note pp = place_props [OF p t(1) us(4) t(2) us(3)]
  obtain s1 where s1: "Merge fuel H (Some (brk s)) ?s = Ok (head (u # vs), s1)" "rep (nodes s1) None (u # vs)" "brk s1 = Suc (brk s)"
    using Merge_single [of ?s us "brk s" k u vs fuel] us fresh p fuel by auto
  have d: "distinct (addrs (u # vs))" using mset_eq_imp_distinct_iff [OF pp(1)] us(2) fresh by simp
  obtain s2 where s2: "union_loop fuel (head (u # vs)) None (head (u # vs)) (head vs) s1 = Ok (head (carry u vs), s2)"
    "rep (nodes s2) None (carry u vs)" "brk s2 = brk s1"
    using union_loop_carry [OF s1(2) d pp(5,6), of fuel] pp(7) fuel by auto
  have "set (addrs (carry u vs)) = insert (brk s) (set (addrs us))" using set_addrs_carry [of u vs] mset_eq_setD [OF pp(1)] by simp
  then have "\<forall>a \<in> set (addrs (carry u vs)). a < brk s2" using h s1(3) s2(3) by (auto simp: bheap_at_def)
  then have "bheap_at s2 (head (carry u vs)) (carry u vs)"
    using s2 pp d by (simp add: bheap_at_def distinct_addrs_carry binomial_carry sorted_carry)
  moreover have "menu fuel (Ins k) H s = Ok ([], head (carry u vs), s2)"
    using s1 s2 by (cases u) (simp add: Create_node_def Insert_def Union_def del: obind_eq_Ok)
  ultimately show ?thesis using p by (auto simp: insert_bt_def)
qed

section \<open>Sizes\<close>

text \<open>The list is a binary number: a tree of rank \<open>n\<close> has \<open>2 ^ n\<close> keys, and no two trees have the same rank.\<close>

fun weight :: "bt list \<Rightarrow> nat" where
  "weight [] = 0"
| "weight (t # us) = 2 ^ rank t + weight us"

section \<open>The least root and the search\<close>

lemma Display_roots: "rep (nodes s) p us \<Longrightarrow> length us < fuel \<Longrightarrow> Display fuel (head us) s = Ok (map root us)"
proof (induction us arbitrary: fuel)
  case Nil
  then show ?case by (cases fuel) auto
next
  case (Cons u us)
  then show ?case by (cases fuel; cases u) auto
qed

lemma binomial_least: "binom us \<Longrightarrow> k \<in># keys us \<Longrightarrow> \<exists>u \<in> set us. root u \<le> k"
proof (induction us rule: binom.induct)
  case (2 a l ts us)
  then show ?case by (fastforce intro: order_trans)
qed auto

lemma root_in_keys: "u \<in> set us \<Longrightarrow> root u \<in># keys us"
  by (induction us rule: keys.induct) auto

lemma binomial_weight: "binom us \<Longrightarrow> size (keys us) = weight us"
proof (induction us rule: binom.induct)
  case (2 a l ts us)
  have "map rank ts = rev [0..<n] \<Longrightarrow> Suc (weight ts) = 2 ^ n" for n
  proof (induction n arbitrary: ts)
    case (Suc n)
    then show ?case by (cases ts) auto
  qed simp
  with 2 show ?case by simp
qed auto

text \<open>The search goes down and then right; it finds a key if and only if it is there.\<close>

lemma Search_finds:
  "rep (nodes s) p us \<Longrightarrow> us \<noteq> [] \<Longrightarrow> size (keys us) \<le> fuel \<Longrightarrow>
   \<exists>q. Search fuel (head us) k s = Ok q \<and> (q = None \<longleftrightarrow> k \<notin># keys us) \<and>
     (\<forall>a. q = Some a \<longrightarrow> a \<in> set (addrs us) \<and> get key q s = Ok k)"
proof (induction us arbitrary: p fuel rule: keys.induct)
  case (2 a l ts us)
  obtain f where f: "fuel = Suc f" using 2(5) by (cases fuel) auto
  show ?case
  proof (cases "l = k")
    case True
    then show ?thesis using 2(3) f by auto
  next
    case False
    have down: "ts \<noteq> [] \<Longrightarrow> \<exists>q. Search f (head ts) k s = Ok q \<and> (q = None \<longleftrightarrow> k \<notin># keys ts) \<and>
       (\<forall>a. q = Some a \<longrightarrow> a \<in> set (addrs ts) \<and> get key q s = Ok k)"
      by (rule 2(1)) (use 2(3,5) f in auto)
    have right: "us \<noteq> [] \<Longrightarrow> \<exists>q. Search f (head us) k s = Ok q \<and> (q = None \<longleftrightarrow> k \<notin># keys us) \<and>
       (\<forall>a. q = Some a \<longrightarrow> a \<in> set (addrs us) \<and> get key q s = Ok k)"
      by (rule 2(2)) (use 2(3,5) f in auto)
    show ?thesis using 2(3) f False down right by (cases "ts = []"; cases "us = []") auto
  qed
qed auto

lemma length_weight: "length us \<le> weight us"
proof (induction us)
  case (Cons t us)
  have "(1::nat) \<le> 2 ^ rank t" by simp
  with Cons show ?case unfolding weight.simps list.size by linarith
qed simp

section \<open>Any number of insertions\<close>

definition insert_key :: "nat \<Rightarrow> int \<Rightarrow> ptr \<times> bheap \<Rightarrow> (ptr \<times> bheap) res" where
  "insert_key fuel k Hs = (case Hs of (H, s) \<Rightarrow> obind (menu fuel (Ins k) H s) (\<lambda>(_, H, s). Ok (H, s)))"

lemma insert_key_ok:
  assumes "bheap_at s H us" and "size (keys us) + 2 < fuel"
  shows "\<exists>H' s' us'. insert_key fuel k (H, s) = Ok (H', s') \<and> bheap_at s' H' us' \<and> keys us' = add_mset k (keys us)"
proof -
  let ?us = "insert_bt (B (brk s) k []) us"
  have us: "binom us" "sorted_wrt (<) (map rank us)" using assms(1) by (auto simp: bheap_at_def)
  have "length us + 2 < fuel" using length_weight [of us] binomial_weight [OF us(1)] assms(2) by simp
  from insert_node [OF assms(1) this, of k]
  obtain s' where s': "menu fuel (Ins k) H s = Ok ([], head ?us, s')" "bheap_at s' (head ?us) ?us" by blast
  have "keys ?us = add_mset k (keys us)" using keys_insert_bt [of "B (brk s) k []" us] us by simp
  with s' show ?thesis by (auto simp: insert_key_def)
qed

lemma insert_keys_ok:
  "bheap_at s H us \<Longrightarrow> size (keys us) + length ks + 2 < fuel \<Longrightarrow>
   \<exists>H' s' us'. seqs (map (insert_key fuel) ks) (H, s) = Ok (H', s') \<and> bheap_at s' H' us' \<and> keys us' = keys us + mset ks"
proof (induction ks arbitrary: s H us)
  case (Cons k ks)
  obtain H1 s1 us1 where s1: "insert_key fuel k (H, s) = Ok (H1, s1)" "bheap_at s1 H1 us1" "keys us1 = add_mset k (keys us)"
    using insert_key_ok [of s H us fuel k] Cons.prems by auto
  have "size (keys us1) + length ks + 2 < fuel" using s1(3) Cons.prems(2) by simp
  from Cons.IH [OF s1(2) this] s1 show ?case by fastforce
qed auto

lemma new_bheap_at: "bheap_at new_BinomialHeap None []"
  by (simp add: bheap_at_def new_BinomialHeap_def)

text \<open>
  C27: inserting any keys one after another into the empty heap returns, and the heap then holds exactly these keys, in binomial
  trees whose parents are not greater than their children, with increasing degrees, of together as many nodes as keys: the
  degrees are the positions of the ones in the binary number of the keys.
\<close>

theorem binomial_inserts:
  assumes "length ks + 2 < fuel"
  shows "\<exists>s us. seqs (map (insert_key fuel) ks) (None, new_BinomialHeap) = Ok (head us, s) \<and>
     rep (nodes s) None us \<and> distinct (addrs us) \<and> binom us \<and> keys us = mset ks \<and>
     sorted_wrt (<) (map rank us) \<and> weight us = length ks"
proof -
  obtain H s us where s: "seqs (map (insert_key fuel) ks) (None, new_BinomialHeap) = Ok (H, s)" "bheap_at s H us" "keys us = mset ks"
    using insert_keys_ok [OF new_bheap_at, of ks fuel] assms by auto
  then have "weight us = length ks" using binomial_weight [of us] by (simp add: bheap_at_def)
  with s show ?thesis by (auto simp: bheap_at_def)
qed

theorem binomial_inserts_witness:
  "\<exists>s us. seqs (map (insert_key 7) [5, 3, 8]) (None, new_BinomialHeap) = Ok (head us, s) \<and>
     rep (nodes s) None us \<and> distinct (addrs us) \<and> binom us \<and> keys us = mset [5, 3, 8] \<and>
     sorted_wrt (<) (map rank us) \<and> weight us = 3"
  using binomial_inserts [of "[5, 3, 8]" 7] by (simp add: numeral_3_eq_3)

end
