(* ===== verification/Binomial_Extract.thy ===== *)
theory Binomial_Extract
  imports Binomial_Insert
begin

text \<open>
  \<open>Extract_Min\<close>: it returns on every heap the insertions build, with the least key. The list it leaves in the object is a list,
  but not always one of all the remaining keys, since \<open>Merge\<close> may lose trees.
\<close>

section \<open>Lists of siblings\<close>

fun sibs :: "(addr \<rightharpoonup> node) \<Rightarrow> ptr \<Rightarrow> addr list \<Rightarrow> ptr \<Rightarrow> bool" where
  "sibs h p [] q \<longleftrightarrow> p = q"
| "sibs h p (a # as) q \<longleftrightarrow> p = Some a \<and> (\<exists>n. h a = Some n \<and> sibs h (sibling n) as q)"

fun addr_of :: "bt \<Rightarrow> addr" where
  "addr_of (B a k ts) = a"

lemma sibs_append: "sibs h p (as @ bs) q \<longleftrightarrow> (\<exists>r. sibs h p as r \<and> sibs h r bs q)"
  by (induction as arbitrary: p) auto

lemma sibs_cong:
  "(\<And>a. a \<in> set as \<Longrightarrow> map_option sibling (h' a) = map_option sibling (h a)) \<Longrightarrow> sibs h' p as q = sibs h p as q"
proof (induction as arbitrary: p)
  case (Cons a as)
  have "map_option sibling (h' a) = map_option sibling (h a)" using Cons.prems by simp
  moreover have "sibs h' r as q = sibs h r as q" for r by (rule Cons.IH) (simp add: Cons.prems)
  ultimately show ?case by (cases "h a"; cases "h' a") auto
qed simp

lemma sibs_upd [simp]: "a \<notin> set as \<Longrightarrow> sibs (h(a := v)) p as q = sibs h p as q"
  by (rule sibs_cong) auto

lemma sibs_frame: "\<forall>a. a \<notin> A \<longrightarrow> h' a = h a \<Longrightarrow> A \<inter> set as = {} \<Longrightarrow> sibs h' p as q = sibs h p as q"
  by (rule sibs_cong) (metis disjoint_iff)

lemma sibs_None [simp]: "sibs h None as None \<longleftrightarrow> as = []"
  by (cases as) auto

lemma rep_sibs: "rep h p us \<Longrightarrow> sibs h (head us) (map addr_of us) None"
  by (induction h p us rule: rep.induct) auto

lemma addr_of_addrs: "set (map addr_of us) \<subseteq> set (addrs us)"
  by (induction us rule: addrs.induct) auto

lemma addr_of_distinct: "distinct (addrs us) \<Longrightarrow> distinct (map addr_of us)"
proof (induction us rule: addrs.induct)
  case (2 a k ts us)
  then show ?case using addr_of_addrs [of us] by auto
qed simp

text \<open>The keys, and which nodes are live, do not change.\<close>

definition same_keys :: "bheap \<Rightarrow> bheap \<Rightarrow> bool" where
  "same_keys s s' \<longleftrightarrow> (\<forall>a. map_option key (nodes s' a) = map_option key (nodes s a))"

lemma same_keys_refl [simp]: "same_keys s s"
  by (simp add: same_keys_def)

lemma same_keys_trans: "same_keys s s' \<Longrightarrow> same_keys s' s'' \<Longrightarrow> same_keys s s''"
  by (simp add: same_keys_def)

lemma same_keys_put [simp]:
  "nodes s a = Some n \<Longrightarrow> key n' = key n \<Longrightarrow> same_keys s (s\<lparr>nodes := (nodes s)(a \<mapsto> n')\<rparr>)"
  by (simp add: same_keys_def)

lemma same_keys_live: "same_keys s s' \<Longrightarrow> nodes s a = Some n \<Longrightarrow> \<exists>n'. nodes s' a = Some n' \<and> key n' = key n"
  by (fastforce simp: same_keys_def dest: spec [of _ a])

section \<open>The loops return\<close>

lemma link_sibs:
  assumes "nodes s y = Some n" and "nodes s z = Some m" and "y \<noteq> z"
  shows "\<exists>s'. Binomial_link (Some y) (Some z) s = Ok s' \<and> same_keys s s' \<and>
     (\<forall>a. a \<noteq> y \<longrightarrow> map_option sibling (nodes s' a) = map_option sibling (nodes s a))"
  using assms by (auto simp: Binomial_link_def put_sibling_def same_keys_def)

lemma union_loop_branches:
  assumes "nodes s x = Some n" and "nodes s b = Some m" and "\<forall>c. sibling m = Some c \<longrightarrow> nodes s c \<noteq> None"
  shows "union_loop (Suc fuel) H prev (Some x) (Some b) s = union_loop fuel H (Some x) (Some b) (sibling m) s \<or>
    union_loop (Suc fuel) H prev (Some x) (Some b) s =
      obind (put_sibling (Some x) (sibling m) s) (\<lambda>s. obind (Binomial_link (Some b) (Some x) s) (\<lambda>s.
      obind (get sibling (Some x) s) (\<lambda>q. union_loop fuel H prev (Some x) q s))) \<or>
    union_loop (Suc fuel) H prev (Some x) (Some b) s =
      obind (if prev = None then Ok (Some b, s) else obind (put_sibling prev (Some b) s) (\<lambda>s. Ok (H, s))) (\<lambda>(H, s).
      obind (Binomial_link (Some x) (Some b) s) (\<lambda>s.
      obind (get sibling (Some b) s) (\<lambda>q. union_loop fuel H prev (Some b) q s)))"
  using assms by (cases "sibling m") (auto simp del: obind_eq_Ok)

lemma put_prev:
  assumes "\<forall>p. prev = Some p \<longrightarrow> nodes s p \<noteq> None"
  shows "\<exists>H1 s1. (if prev = None then Ok (b, s) else obind (put_sibling prev b s) (\<lambda>s. Ok (H, s))) = Ok (H1, s1) \<and>
     same_keys s s1 \<and> (\<forall>a. prev \<noteq> Some a \<longrightarrow> nodes s1 a = nodes s a)"
  using assms by (cases prev) (auto simp: put_sibling_def same_keys_def)

lemma union_loop_returns:
  "sibs (nodes s) (Some x) (x # as) None \<Longrightarrow> distinct (x # as) \<Longrightarrow> \<forall>p. prev = Some p \<longrightarrow> p \<notin> set (x # as) \<and> nodes s p \<noteq> None \<Longrightarrow>
   get sibling (Some x) s = Ok next_x \<Longrightarrow> length as < fuel \<Longrightarrow>
   \<exists>H' s'. union_loop fuel H prev (Some x) next_x s = Ok (H', s') \<and> same_keys s s'"
proof (induction as arbitrary: x prev next_x H s fuel)
  case Nil
  then show ?case by (cases fuel) auto
next
  case (Cons b as)
  obtain f where f: "fuel = Suc f" using Cons.prems(5) by (cases fuel) auto
  obtain n m where n: "nodes s x = Some n" "sibling n = Some b" "nodes s b = Some m" "sibs (nodes s) (sibling m) as None"
    using Cons.prems(1) by auto
  have c: "\<forall>c. sibling m = Some c \<longrightarrow> nodes s c \<noteq> None" using n(4) by (cases as) auto
  have nx: "next_x = Some b" using Cons.prems(4) n by simp
  consider (skip) "union_loop fuel H prev (Some x) next_x s = union_loop f H (Some x) (Some b) (sibling m) s"
    | (left) "union_loop fuel H prev (Some x) next_x s =
      obind (put_sibling (Some x) (sibling m) s) (\<lambda>s. obind (Binomial_link (Some b) (Some x) s) (\<lambda>s.
      obind (get sibling (Some x) s) (\<lambda>q. union_loop f H prev (Some x) q s)))"
    | (right) "union_loop fuel H prev (Some x) next_x s =
      obind (if prev = None then Ok (Some b, s) else obind (put_sibling prev (Some b) s) (\<lambda>s. Ok (H, s))) (\<lambda>(H, s).
      obind (Binomial_link (Some x) (Some b) s) (\<lambda>s.
      obind (get sibling (Some b) s) (\<lambda>q. union_loop f H prev (Some b) q s)))"
    using union_loop_branches [OF n(1,3) c, of f H prev] f nx by blast
  then show ?case
  proof cases
    case skip
    have "sibs (nodes s) (Some b) (b # as) None" "get sibling (Some b) s = Ok (sibling m)" using n by simp_all
    with skip show ?thesis using Cons.IH [of s b "Some x" "sibling m" f H] Cons.prems(2,5) n(1) f by (simp del: union_loop.simps)
  next
    case left
    let ?s = "s\<lparr>nodes := (nodes s)(x \<mapsto> n\<lparr>sibling := sibling m\<rparr>)\<rparr>"
    have s1: "put_sibling (Some x) (sibling m) s = Ok ?s" "same_keys s ?s" using n by (auto simp: put_sibling_def)
    obtain s2 where s2: "Binomial_link (Some b) (Some x) ?s = Ok s2" "same_keys ?s s2"
      "\<forall>a. a \<noteq> b \<longrightarrow> map_option sibling (nodes s2 a) = map_option sibling (nodes ?s a)"
      using link_sibs [of ?s b m x "n\<lparr>sibling := sibling m\<rparr>"] n Cons.prems(2) by auto
    have "sibs (nodes s2) (Some x) (x # as) None = sibs (nodes ?s) (Some x) (x # as) None"
      by (rule sibs_cong) (use s2(3) Cons.prems(2) in auto)
    then have x: "sibs (nodes s2) (Some x) (x # as) None" using n Cons.prems(2) by simp
    then obtain q where q: "get sibling (Some x) s2 = Ok q" by auto
    have k: "same_keys s s2" using s1(2) s2(2) by (rule same_keys_trans)
    have p: "\<forall>p. prev = Some p \<longrightarrow> p \<notin> set (x # as) \<and> nodes s2 p \<noteq> None" using Cons.prems(3) same_keys_live [OF k] by fastforce
    obtain H' s' where "union_loop f H prev (Some x) q s2 = Ok (H', s')" "same_keys s2 s'"
      using Cons.IH [OF x _ p q, of f H] Cons.prems(2,5) f by auto
    then show ?thesis using left s1(1) s2(1) q same_keys_trans [OF k, of s'] by (simp del: obind_eq_Ok union_loop.simps get.simps)
  next
    case right
    obtain H1 s1 where s1: "(if prev = None then Ok (Some b, s) else obind (put_sibling prev (Some b) s) (\<lambda>s. Ok (H, s))) = Ok (H1, s1)"
      "same_keys s s1" "\<forall>a. prev \<noteq> Some a \<longrightarrow> nodes s1 a = nodes s a"
      using put_prev [of prev s] Cons.prems(3) by blast
    have "nodes s1 x = Some n" "nodes s1 b = Some m" using s1(3) Cons.prems(3) n by force+
    then obtain s2 where s2: "Binomial_link (Some x) (Some b) s1 = Ok s2" "same_keys s1 s2"
      "\<forall>a. a \<noteq> x \<longrightarrow> map_option sibling (nodes s2 a) = map_option sibling (nodes s1 a)"
      using link_sibs [of s1 x n b m] Cons.prems(2) by auto
    have "sibs (nodes s2) (Some b) (b # as) None = sibs (nodes s) (Some b) (b # as) None"
      by (rule sibs_cong) (use s1(3) s2(3) Cons.prems(2,3) in force)
    then have b: "sibs (nodes s2) (Some b) (b # as) None" using n by simp
    then obtain q where q: "get sibling (Some b) s2 = Ok q" by auto
    have k: "same_keys s s2" using s1(2) s2(2) by (rule same_keys_trans)
    have p: "\<forall>p. prev = Some p \<longrightarrow> p \<notin> set (b # as) \<and> nodes s2 p \<noteq> None" using Cons.prems(3) same_keys_live [OF k] by fastforce
    obtain H' s' where "union_loop f H1 prev (Some b) q s2 = Ok (H', s')" "same_keys s2 s'"
      using Cons.IH [OF b _ p q, of f H1] Cons.prems(2,5) f by auto
    then show ?thesis using right s1(1) s2(1) q same_keys_trans [OF k, of s'] by (simp del: obind_eq_Ok union_loop.simps get.simps)
  qed
qed

lemma merge_loop_returns:
  "sibs (nodes s) y as None \<Longrightarrow> sibs (nodes s) z bs None \<Longrightarrow> distinct (as @ bs) \<Longrightarrow> length as + length bs < fuel \<Longrightarrow>
   \<exists>s' cs ds. merge_loop fuel y z s = Ok s' \<and> same_keys s s' \<and> (\<forall>a. a \<notin> set (as @ bs) \<longrightarrow> nodes s' a = nodes s a) \<and>
     sibs (nodes s') y cs None \<and> sibs (nodes s') z ds None \<and> distinct cs \<and> distinct ds \<and> set (cs @ ds) \<subseteq> set (as @ bs)"
proof (induction fuel arbitrary: y z as bs s)
  case (Suc fuel)
  show ?case
  proof (cases "as = [] \<or> bs = []")
    case True
    then have "merge_loop (Suc fuel) y z s = Ok s" using Suc.prems by auto
    then show ?thesis using Suc.prems by (intro exI [of _ s] exI [of _ as] exI [of _ bs]) auto
  next
    case False
    then obtain a as' b bs' where ab: "as = a # as'" "bs = b # bs'" by (meson neq_Nil_conv)
    obtain n m where n: "y = Some a" "z = Some b" "nodes s a = Some n" "nodes s b = Some m"
      "sibs (nodes s) (sibling n) as' None" "sibs (nodes s) (sibling m) bs' None"
      using Suc.prems(1,2) ab by auto
    consider (less) "degree n < degree m" | (eq) "degree n = degree m" | (greater) "degree n > degree m" by linarith
    then show ?thesis
    proof cases
      case less
      have d: "distinct (as' @ bs)" "length as' + length bs < fuel" using Suc.prems(3,4) ab by auto
      obtain s' cs ds where s': "merge_loop fuel (sibling n) z s = Ok s'" "same_keys s s'" "\<forall>c. c \<notin> set (as' @ bs) \<longrightarrow> nodes s' c = nodes s c"
        "sibs (nodes s') (sibling n) cs None" "sibs (nodes s') z ds None" "distinct cs" "distinct ds" "set (cs @ ds) \<subseteq> set (as' @ bs)"
        using Suc.IH [OF n(5) Suc.prems(2)] d by blast
      have "nodes s' a = Some n" "a \<notin> set cs" using s'(3,8) Suc.prems(3) ab n by auto
      moreover have "merge_loop (Suc fuel) y z s = Ok s'" using n less s'(1) by (simp del: obind_eq_Ok)
      moreover have "\<forall>c. c \<notin> set (as @ bs) \<longrightarrow> nodes s' c = nodes s c" using s'(3) ab by simp
      ultimately show ?thesis using s'(2,4-8) n(1) ab by (intro exI [of _ s'] exI [of _ "a # cs"] exI [of _ ds]) (auto simp del: merge_loop.simps)
    next
      case eq
      let ?s = "s\<lparr>nodes := (nodes s)(a \<mapsto> n\<lparr>sibling := z\<rparr>)\<rparr>"
      have "sibs (nodes ?s) (sibling n) as' None" "sibs (nodes ?s) z bs None" "distinct (as' @ bs)" "length as' + length bs < fuel"
        using n ab Suc.prems by auto
      then obtain s' cs ds where s': "merge_loop fuel (sibling n) z ?s = Ok s'" "same_keys ?s s'" "\<forall>c. c \<notin> set (as' @ bs) \<longrightarrow> nodes s' c = nodes ?s c"
        "sibs (nodes s') (sibling n) cs None" "sibs (nodes s') z ds None" "distinct cs" "distinct ds" "set (cs @ ds) \<subseteq> set (as' @ bs)"
        using Suc.IH [of ?s "sibling n" as' z bs] by blast
      have "nodes s' a = Some (n\<lparr>sibling := z\<rparr>)" "a \<notin> set ds" using s'(3) [rule_format, of a] s'(8) Suc.prems(3) ab by auto
      moreover have "same_keys s s'" using s'(2) same_keys_trans [of s ?s s'] n by simp
      moreover have "merge_loop (Suc fuel) y z s = Ok s'" using n eq s'(1) by (simp add: put_sibling_def del: obind_eq_Ok)
      moreover have "\<forall>c. c \<notin> set (as @ bs) \<longrightarrow> nodes s' c = nodes s c" using s'(3) ab by simp
      ultimately show ?thesis using s'(4-8) n ab by (intro exI [of _ s'] exI [of _ "a # ds"] exI [of _ ds]) (auto simp del: merge_loop.simps)
    next
      case greater
      let ?s = "s\<lparr>nodes := (nodes s)(b \<mapsto> m\<lparr>sibling := y\<rparr>)\<rparr>"
      have "sibs (nodes ?s) y as None" "sibs (nodes ?s) (sibling m) bs' None" "distinct (as @ bs')" "length as + length bs' < fuel"
        using n ab Suc.prems by auto
      then obtain s' cs ds where s': "merge_loop fuel y (sibling m) ?s = Ok s'" "same_keys ?s s'" "\<forall>c. c \<notin> set (as @ bs') \<longrightarrow> nodes s' c = nodes ?s c"
        "sibs (nodes s') y cs None" "sibs (nodes s') (sibling m) ds None" "distinct cs" "distinct ds" "set (cs @ ds) \<subseteq> set (as @ bs')"
        using Suc.IH [of ?s y as "sibling m" bs'] by blast
      have "nodes s' b = Some (m\<lparr>sibling := y\<rparr>)" "b \<notin> set cs" using s'(3) [rule_format, of b] s'(8) Suc.prems(3) ab by auto
      moreover have "same_keys s s'" using s'(2) same_keys_trans [of s ?s s'] n by simp
      moreover have "merge_loop (Suc fuel) y z s = Ok s'" using n greater s'(1) by (simp add: put_sibling_def del: obind_eq_Ok)
      moreover have "\<forall>c. c \<notin> set (as @ bs) \<longrightarrow> nodes s' c = nodes s c" using s'(3) ab by simp
      ultimately show ?thesis using s'(4-8) n ab by (intro exI [of _ s'] exI [of _ cs] exI [of _ "b # cs"]) (auto simp del: merge_loop.simps)
    qed
  qed
qed simp

lemma Revert_list_reverses:
  "sibs (nodes s) (Some y) (y # ys) None \<Longrightarrow> distinct (y # ys) \<Longrightarrow> length ys < fuel \<Longrightarrow>
   \<exists>s'. Revert_list fuel (Some y) s = Ok s' \<and> same_keys s s' \<and> sibs (nodes s') (mHr s') (rev ys) (Some y) \<and>
     (\<forall>a. a \<notin> set ys \<longrightarrow> nodes s' a = nodes s a)"
proof (induction ys arbitrary: y fuel)
  case Nil
  then obtain f where "fuel = Suc f" by (cases fuel) auto
  then show ?case using Nil by (intro exI [of _ "s\<lparr>mHr := Some y\<rparr>"]) (auto simp: same_keys_def simp del: obind_eq_Ok)
next
  case (Cons z ys)
  obtain f where f: "fuel = Suc f" using Cons.prems(3) by (cases fuel) auto
  obtain n m where n: "nodes s y = Some n" "sibling n = Some z" "nodes s z = Some m" "sibs (nodes s) (sibling m) ys None"
    using Cons.prems(1) by auto
  obtain s' where s': "Revert_list f (Some z) s = Ok s'" "same_keys s s'" "sibs (nodes s') (mHr s') (rev ys) (Some z)"
     "\<forall>a. a \<notin> set ys \<longrightarrow> nodes s' a = nodes s a"
    using Cons.IH [of z f] Cons.prems f n by auto
  let ?s = "s'\<lparr>nodes := (nodes s')(z \<mapsto> m\<lparr>sibling := Some y\<rparr>)\<rparr>"
  have yz: "nodes s' y = Some n" "nodes s' z = Some m" using s'(4) n Cons.prems(2) by auto
  then have "Revert_list fuel (Some y) s = Ok ?s" using f n s'(1) by (simp add: put_sibling_def del: obind_eq_Ok)
  moreover have "same_keys s ?s" using s'(2) yz same_keys_trans [of s s' ?s] by simp
  moreover have "sibs (nodes ?s) (mHr s') (rev ys) (Some z)" using s'(3) Cons.prems(2) by simp
  ultimately show ?case using s' Cons.prems(2) by (intro exI [of _ ?s]) (auto simp: sibs_append fun_upd_def)
qed

lemma Merge_returns:
  assumes "sibs (nodes s) H1 as None" and "sibs (nodes s) H2 bs None" and "distinct (as @ bs)" and "length as + length bs < fuel"
  shows "\<exists>H s' cs. Merge fuel H1 H2 s = Ok (H, s') \<and> same_keys s s' \<and> sibs (nodes s') H cs None \<and> distinct cs \<and> set cs \<subseteq> set (as @ bs)"
proof -
  obtain s' cs ds where s': "merge_loop fuel H1 H2 s = Ok s'" "same_keys s s'" "sibs (nodes s') H1 cs None" "sibs (nodes s') H2 ds None"
    "distinct cs" "distinct ds" "set (cs @ ds) \<subseteq> set (as @ bs)"
    using merge_loop_returns [OF assms] by blast
  obtain H where "(if H1 \<noteq> None then
              if H2 \<noteq> None then obind (get degree H1 s) (\<lambda>dy. obind (get degree H2 s) (\<lambda>dz. Ok (if dy \<le> dz then H1 else H2)))
              else Ok H1
            else Ok H2) = Ok H" "H = H1 \<or> H = H2"
    using assms(1,2) by (cases as; cases bs) auto
  then show ?thesis using s' by (auto simp: Merge_def)
qed

lemma Union_returns:
  assumes "sibs (nodes s) H1 as None" and "sibs (nodes s) H2 bs None" and "distinct (as @ bs)" and "length as + length bs < fuel"
  shows "\<exists>H s'. Union fuel H1 H2 s = Ok (H, s') \<and> same_keys s s'"
proof -
  obtain H s' cs where s': "Merge fuel H1 H2 s = Ok (H, s')" "same_keys s s'" "sibs (nodes s') H cs None" "distinct cs" "set cs \<subseteq> set (as @ bs)"
    using Merge_returns [OF assms] by blast
  show ?thesis
  proof (cases cs)
    case Nil
    then show ?thesis using s' by (auto simp: Union_def)
  next
    case (Cons c cs')
    have "length cs \<le> length (as @ bs)" using s'(4,5) assms(3) by (metis card_mono distinct_card finite_set)
    then have l: "length cs' < fuel" using assms(4) Cons by simp
    obtain q where H: "H = Some c" "get sibling (Some c) s' = Ok q" using s'(3) Cons by auto
    obtain H' s'' where "union_loop fuel H None (Some c) q s' = Ok (H', s'')" "same_keys s' s''"
      using union_loop_returns [of s' c cs' None q fuel H] s'(3,4) Cons H l by auto
    then show ?thesis using s'(1,2) H same_keys_trans by (fastforce simp: Union_def)
  qed
qed

section \<open>The least root\<close>

abbreviation key_at :: "bheap \<Rightarrow> addr \<Rightarrow> int" where
  "key_at s a \<equiv> key (the (nodes s a))"

text \<open>
  What the loop returns from the root \<open>p\<close> on, when \<open>as\<close> follow: what it had, when none of them is less than \<open>mn\<close>, or
  the least of them with its predecessor.
\<close>

definition chosen :: "bheap \<Rightarrow> int \<Rightarrow> ptr \<Rightarrow> ptr \<Rightarrow> addr \<Rightarrow> addr list \<Rightarrow> ptr \<Rightarrow> ptr \<Rightarrow> bool" where
  "chosen s mn t x p as t' x' \<longleftrightarrow>
     t' = t \<and> x' = x \<and> (\<forall>a \<in> set as. mn \<le> key_at s a) \<or>
     (\<exists>pre q b post. p # as = pre @ [q, b] @ post \<and> t' = Some q \<and> x' = Some b \<and> key_at s b < mn \<and> (\<forall>a \<in> set as. key_at s b \<le> key_at s a))"

lemma chosen_old: "t' = t \<Longrightarrow> x' = x \<Longrightarrow> \<forall>a \<in> set as. mn \<le> key_at s a \<Longrightarrow> chosen s mn t x p as t' x'"
  by (simp add: chosen_def)

lemma chosen_new:
  "p # as = pre @ [q, b] @ post \<Longrightarrow> t' = Some q \<Longrightarrow> x' = Some b \<Longrightarrow> key_at s b < mn \<Longrightarrow> \<forall>a \<in> set as. key_at s b \<le> key_at s a \<Longrightarrow>
   chosen s mn t x p as t' x'"
  unfolding chosen_def by blast

lemma chosen_cases:
  assumes "chosen s mn t x p as t' x'"
  obtains (old) "t' = t" "x' = x" "\<forall>a \<in> set as. mn \<le> key_at s a"
  | (new) pre q b post where "p # as = pre @ [q, b] @ post" "t' = Some q" "x' = Some b" "key_at s b < mn" "\<forall>a \<in> set as. key_at s b \<le> key_at s a"
  using assms unfolding chosen_def by blast

lemma chosen_less:
  assumes "chosen s (key_at s c) (Some p) (Some c) c as t' x'" and "key_at s c < mn"
  shows "chosen s mn t x p (c # as) t' x'"
  using assms(1)
proof (cases rule: chosen_cases)
  case old
  then show ?thesis using assms(2) by (intro chosen_new [of p "c # as" "[]" p c as]) auto
next
  case (new pre q b post)
  have "key_at s b < mn" "\<forall>a \<in> set (c # as). key_at s b \<le> key_at s a" using new(4,5) assms(2) by auto
  with new(1-3) show ?thesis by (intro chosen_new [of p "c # as" "p # pre" q b post]) simp_all
qed

lemma chosen_skip:
  assumes "chosen s mn t x c as t' x'" and "\<not> key_at s c < mn"
  shows "chosen s mn t x p (c # as) t' x'"
  using assms(1)
proof (cases rule: chosen_cases)
  case old
  then show ?thesis using assms(2) by (intro chosen_old) auto
next
  case (new pre q b post)
  have "key_at s b < mn" "\<forall>a \<in> set (c # as). key_at s b \<le> key_at s a" using new(4,5) assms(2) by auto
  with new(1-3) show ?thesis by (intro chosen_new [of p "c # as" "p # pre" q b post]) simp_all
qed

lemma find_min_chosen:
  "sibs (nodes s) (Some p) (p # as) None \<Longrightarrow> length as < fuel \<Longrightarrow> \<exists>t' x'. find_min fuel (Some p) mn t x s = Ok (t', x') \<and> chosen s mn t x p as t' x'"
proof (induction as arbitrary: p mn t x fuel)
  case Nil
  then show ?case by (cases fuel) (auto simp: chosen_def)
next
  case (Cons c as)
  obtain f where f: "fuel = Suc f" using Cons.prems(2) by (cases fuel) auto
  obtain n m where n: "nodes s p = Some n" "sibling n = Some c" "nodes s c = Some m" "sibs (nodes s) (Some c) (c # as) None"
    using Cons.prems(1) by auto
  have l: "length as < f" using Cons.prems(2) f by simp
  have "find_min fuel (Some p) mn t x s =
      (if key_at s c < mn then find_min f (Some c) (key_at s c) (Some p) (Some c) s else find_min f (Some c) mn t x s)"
    using f n by (simp del: obind_eq_Ok)
  then show ?case
    using Cons.IH [OF n(4) l, of "key_at s c" "Some p" "Some c"] Cons.IH [OF n(4) l, of mn t x]
      chosen_less [of s c p as _ _ mn t x] chosen_skip [of s mn t x c as _ _ p]
    by (metis (full_types))
qed

section \<open>Extraction\<close>

lemma rep_member:
  "rep h p us \<Longrightarrow> B a k ts \<in> set us \<Longrightarrow> (\<exists>n. h a = Some n \<and> key n = k \<and> child n = head ts) \<and> rep h (Some a) ts"
  by (induction h p us rule: rep.induct) auto

lemma addrs_member: "B a k ts \<in> set us \<Longrightarrow> a \<in> set (addrs us) \<and> set (addrs ts) \<subseteq> set (addrs us)"
  by (induction us rule: addrs.induct) auto

lemma member_distinct:
  "distinct (addrs us) \<Longrightarrow> B a k ts \<in> set us \<Longrightarrow> distinct (addrs ts) \<and> set (addrs ts) \<inter> set (map addr_of us) = {}"
proof (induction us rule: addrs.induct)
  case (2 b l vs us)
  then show ?case using addrs_member [of a k ts us] addr_of_addrs [of us] by auto
qed simp

lemma unlink_ok:
  assumes sib: "sibs (nodes s) (Some p) (p # as) None" and d: "distinct (p # as)" and x: "nodes s b = Some m"
    and c: "t = None \<and> b = p \<or> (\<exists>pre q post. p # as = pre @ [q, b] @ post \<and> t = Some q)"
  shows "\<exists>H1 s1 cs. unlink t (sibling m) (Some p) s = Ok (H1, s1) \<and> sibs (nodes s1) H1 cs None \<and> distinct cs \<and>
     set cs \<subseteq> set (p # as) - {b} \<and> length cs = length as \<and> same_keys s s1 \<and> (\<forall>a. a \<notin> set (p # as) - {b} \<longrightarrow> nodes s1 a = nodes s a) \<and> mHr s1 = mHr s"
  using c
proof
  assume "t = None \<and> b = p"
  then show ?thesis using sib d x by (intro exI [of _ "sibling m"] exI [of _ s] exI [of _ as]) (auto simp: unlink_def)
next
  assume "\<exists>pre q post. p # as = pre @ [q, b] @ post \<and> t = Some q"
  then obtain pre q post where e: "p # as = pre @ [q, b] @ post" "t = Some q" by blast
  obtain n where n: "nodes s q = Some n" "sibling n = Some b" "sibs (nodes s) (Some p) pre (Some q)" "sibs (nodes s) (sibling m) post None"
    using sib x unfolding e(1) by (auto simp: sibs_append)
  have dist: "distinct (pre @ [q, b] @ post)" using d unfolding e(1) .
  let ?s = "s\<lparr>nodes := (nodes s)(q \<mapsto> n\<lparr>sibling := sibling m\<rparr>)\<rparr>"
  have "unlink t (sibling m) (Some p) s = Ok (Some p, ?s)" using n e(2) by (simp add: unlink_def put_sibling_def del: obind_eq_Ok)
  moreover have "sibs (nodes ?s) (Some p) (pre @ [q] @ post) None" using n dist by (auto simp: sibs_append simp del: fun_upd_apply simp: fun_upd_same)
  moreover have "length (pre @ [q] @ post) = length as" using arg_cong [OF e(1), of length] by simp
  moreover have "same_keys s ?s" using n by simp
  ultimately show ?thesis using dist unfolding e(1) by (intro exI [of _ "Some p"] exI [of _ ?s] exI [of _ "pre @ [q] @ post"]) auto
qed

lemma revert_children_ok:
  assumes "sibs (nodes s) c cs None" and "distinct cs" and "length cs < fuel" and "mHr s = None"
  shows "\<exists>s'. revert_children fuel c s = Ok s' \<and> same_keys s s' \<and> sibs (nodes s') (mHr s') (rev cs) None \<and> (\<forall>a. a \<notin> set cs \<longrightarrow> nodes s' a = nodes s a)"
proof (cases cs)
  case Nil
  then show ?thesis using assms by (simp add: revert_children_def)
next
  case (Cons y ys)
  have c: "c = Some y" "sibs (nodes s) (Some y) (y # ys) None" using assms(1) Cons by auto
  obtain s' where s': "Revert_list fuel (Some y) s = Ok s'" "same_keys s s'" "sibs (nodes s') (mHr s') (rev ys) (Some y)"
    "\<forall>a. a \<notin> set ys \<longrightarrow> nodes s' a = nodes s a"
    using Revert_list_reverses [OF c(2), of fuel] assms(2,3) Cons by auto
  obtain n where n: "nodes s' y = Some n" using s'(4) c(2) assms(2) Cons by auto
  let ?s = "s'\<lparr>nodes := (nodes s')(y \<mapsto> n\<lparr>sibling := None\<rparr>)\<rparr>"
  have "revert_children fuel c s = Ok ?s" using s'(1) n c(1) by (simp add: revert_children_def put_sibling_def del: obind_eq_Ok Revert_list.simps)
  moreover have "sibs (nodes ?s) (mHr s') (rev ys) (Some y)" using s'(3) assms(2) Cons by simp
  moreover have "same_keys s ?s" using same_keys_trans [OF s'(2)] n by simp
  ultimately show ?thesis using s'(4) Cons
    by (intro exI [of _ ?s]) (auto simp: sibs_append simp del: fun_upd_apply simp: fun_upd_same fun_upd_other)
qed

lemma length_keys: "length us \<le> size (keys us)"
  by (induction us rule: keys.induct) auto

lemma member_size: "B b k ts \<in> set us \<Longrightarrow> length ts + length us \<le> size (keys us)"
proof (induction us rule: keys.induct)
  case (2 a l vs us)
  then show ?case using length_keys [of us] length_keys [of vs] by auto
qed simp

lemma Extract_Min_least:
  assumes h: "bheap_at s0 H us" and ne: "us \<noteq> []" and fuel: "size (keys us) < fuel"
  shows "\<exists>a k s'. Extract_Min fuel H s0 = Ok (Some a, s') \<and> get key (Some a) s' = Ok k \<and> k \<in># keys us \<and> (\<forall>j \<in># keys us. k \<le> j)"
proof -
  let ?s = "s0\<lparr>mHr := None\<rparr>"
  obtain u us' where u: "us = u # us'" using ne by (cases us) auto
  let ?p = "addr_of u" and ?as = "map addr_of us'"
  have rep: "rep (nodes ?s) None us" "distinct (addrs us)" "binom us" "H = Some ?p" using h u by (cases u; auto simp: bheap_at_def)+
  have sib: "sibs (nodes ?s) (Some ?p) (?p # ?as) None" "distinct (?p # ?as)"
    using rep_sibs [OF rep(1)] addr_of_distinct [OF rep(2)] u by (cases u; simp)+
  have len: "length ?as < fuel" using fuel binomial_weight [OF rep(3)] length_weight [of us] u by simp
  have root: "v \<in> set us \<Longrightarrow> key_at ?s (addr_of v) = root v" for v using rep_member [OF rep(1)] by (cases v) fastforce
  obtain t x where fm: "find_min fuel (Some ?p) (root u) None (Some ?p) ?s = Ok (t, x)" and ch: "chosen ?s (root u) None (Some ?p) ?p ?as t x"
    using find_min_chosen [OF sib(1) len] by blast
  obtain b where b: "x = Some b" "b \<in> set (?p # ?as)" "\<forall>a \<in> set (?p # ?as). key_at ?s b \<le> key_at ?s a"
      "t = None \<and> b = ?p \<or> (\<exists>pre q post. ?p # ?as = pre @ [q, b] @ post \<and> t = Some q)"
    using ch
  proof (cases rule: chosen_cases)
    case old
    then show ?thesis using that [of ?p] root [of u] u by simp
  next
    case (new pre q b post)
    have "b \<in> set (?p # ?as)" unfolding new(1) by simp
    moreover have "\<forall>a \<in> set (?p # ?as). key_at ?s b \<le> key_at ?s a" using new(4,5) root [of u] u by auto
    ultimately show ?thesis using that [of b] new(1-3) by blast
  qed
  obtain v k ts where v: "v \<in> set us" "v = B b k ts" 
  proof -
    have "b \<in> addr_of ` set us" using b(2) u by simp
    then obtain w where w: "w \<in> set us" "b = addr_of w" by blast
    obtain a k ts where "w = B a k ts" by (cases w)
    with w show ?thesis using that [of w k ts] by simp
  qed
  obtain m where m: "nodes ?s b = Some m" "key m = k" "child m = head ts" and kids: "rep (nodes ?s) (Some b) ts"
    using rep_member [OF rep(1)] v by blast
  obtain H1 s1 cs where s1: "unlink t (sibling m) (Some ?p) ?s = Ok (H1, s1)" "sibs (nodes s1) H1 cs None" "distinct cs"
    "set cs \<subseteq> set (?p # ?as) - {b}" "length cs = length ?as" "same_keys ?s s1" "\<forall>a. a \<notin> set (?p # ?as) - {b} \<longrightarrow> nodes s1 a = nodes ?s a" "mHr s1 = None"
    using unlink_ok [OF sib m(1) b(4)] by auto
  let ?ks = "map addr_of ts"
  have md: "distinct (addrs ts)" "set (addrs ts) \<inter> set (?p # ?as) = {}" using member_distinct [OF rep(2)] v u by fastforce+
  have dk: "distinct ?ks" "set ?ks \<inter> set (?p # ?as) = {}"
    using addr_of_distinct [OF md(1)] addr_of_addrs [of ts] md(2) by blast+
  have "sibs (nodes s1) (head ts) ?ks None = sibs (nodes ?s) (head ts) ?ks None"
    by (rule sibs_frame [OF s1(7)]) (use dk(2) in blast)
  then have sk: "sibs (nodes s1) (head ts) ?ks None" using rep_sibs [OF kids] by simp
  have lk: "length ?ks + length cs < fuel" using member_size [of b k ts us] v s1(5) fuel u by simp
  obtain s2 where s2: "revert_children fuel (head ts) s1 = Ok s2" "same_keys s1 s2" "sibs (nodes s2) (mHr s2) (rev ?ks) None"
    "\<forall>a. a \<notin> set ?ks \<longrightarrow> nodes s2 a = nodes s1 a"
    using revert_children_ok [OF sk dk(1) _ s1(8), of fuel] lk by auto
  have "sibs (nodes s2) H1 cs None = sibs (nodes s1) H1 cs None"
    by (rule sibs_frame [OF s2(4)]) (use s1(4) dk(2) in blast)
  then have sc: "sibs (nodes s2) H1 cs None" using s1(2) by simp
  have dc: "distinct (cs @ rev ?ks)" unfolding distinct_append distinct_rev set_rev using s1(3,4) dk by blast
  obtain H2 s3 where s3: "Union fuel H1 (mHr s2) s2 = Ok (H2, s3)" "same_keys s2 s3"
    using Union_returns [OF sc s2(3) dc, of fuel] lk by auto
  have same: "same_keys ?s s3" using s1(6) s2(2) s3(2) same_keys_trans by blast
  have "get key (Some ?p) ?s = Ok (root u)" using sib(1) root [of u] u by auto
  moreover have "get sibling (Some b) ?s = Ok (sibling m)" "get child (Some b) s1 = Ok (head ts)" using s1(7) m(1,3) by auto
  ultimately have "Extract_Min fuel H s0 = Ok (Some b, s3\<lparr>mH := H2\<rparr>)"
    using rep(4) fm b(1) s1(1) s2(1) s3(1) by (simp add: Extract_Min_def Let_def del: obind_eq_Ok get.simps find_min.simps)
  moreover have "get key (Some b) (s3\<lparr>mH := H2\<rparr>) = Ok k" using same_keys_live [OF same m(1)] m(2) by auto
  moreover have "k \<in># keys us" using root_in_keys [OF v(1)] v(2) by simp
  moreover have "\<forall>j \<in># keys us. k \<le> j"
  proof
    fix j
    assume "j \<in># keys us"
    then obtain w where w: "w \<in> set us" "root w \<le> j" using binomial_least [OF rep(3)] by blast
    then have "key_at ?s b \<le> root w" using b(3) root [of w] u by auto
    then show "k \<le> j" using m w(2) by simp
  qed
  ultimately show ?thesis by blast
qed

text \<open>
  C28: after inserting any keys, at least one, \<open>Extract_Min\<close> returns a node, and its key is the least of the keys.
\<close>

theorem Extract_Min_minimum:
  assumes "length ks + 2 < fuel" and "ks \<noteq> []"
  shows "\<exists>H s a s'. seqs (map (insert_key fuel) ks) (None, new_BinomialHeap) = Ok (H, s) \<and>
     Extract_Min fuel H s = Ok (Some a, s') \<and> get key (Some a) s' = Ok (Min (set ks))"
proof -
  obtain H s us where s: "seqs (map (insert_key fuel) ks) (None, new_BinomialHeap) = Ok (H, s)" "bheap_at s H us" "keys us = mset ks"
    using insert_keys_ok [OF new_bheap_at, of ks fuel] assms(1) by auto
  have ne: "us \<noteq> []" using s(3) assms(2) by auto
  have "size (keys us) < fuel" using s(3) assms(1) by simp
  from Extract_Min_least [OF s(2) ne this]
  obtain a k s' where e: "Extract_Min fuel H s = Ok (Some a, s')" "get key (Some a) s' = Ok k" "k \<in># keys us" "\<forall>j \<in># keys us. k \<le> j"
    by blast
  have "Min (set ks) = k" by (rule Min_eqI) (use e(3,4) s(3) in auto)
  with s(1) e(1,2) show ?thesis by blast
qed

theorem Extract_Min_minimum_witness:
  "\<exists>H s a s'. seqs (map (insert_key 7) [5, 3, 8]) (None, new_BinomialHeap) = Ok (H, s) \<and>
     Extract_Min 7 H s = Ok (Some a, s') \<and> get key (Some a) s' = Ok (Min (set [5, 3, 8]))"
  using Extract_Min_minimum [of "[5, 3, 8]" 7] by (simp del: obind_eq_Ok get.simps)

section \<open>What the program loses\<close>

text \<open>
  \<open>Merge\<close> does not link a tree of the first list whose degree is less to what comes next, nor does it link two successive
  trees of the second list to each other. With twelve keys, one tree of degree 2 and one of degree 3, extracting the root of the
  first loses one of its children, with the keys 3 and 4.
\<close>

lemma Merge_loses_keys:
  "obind (seqs (map (insert_key 20) [5, 6, 7, 8, 9, 10, 11, 12, 1, 2, 3, 4]) (None, new_BinomialHeap)) (\<lambda>(H, s).
   obind (Extract_Min 20 H s) (\<lambda>(_, s). obind (Display 20 (mH s) s) (\<lambda>roots. obind (Search 20 (mH s) 3 s) (\<lambda>p. Ok (roots, p))))) = Ok ([2, 5], None)"
  by code_simp

text \<open>
  The menu keeps the list it had before an extraction: the only key is extracted again and again, and after one extraction from six
  keys the second gives 4, although 2 and 3 are still in the object's list.
\<close>

lemma extraction_stale:
  "session 20 [Ins 5, Extract, Extract, Show] None new_BinomialHeap = Ok [[], [5], [5], [5]]"
  "session 20 (map Ins [4, 3, 2, 1, 5, 6] @ [Extract, Extract]) None new_BinomialHeap = Ok [[], [], [], [], [], [], [1], [4]]"
  by code_simp+

end
