(* ===== verification/Spec2Isabelle.thy ===== *)
theory Spec2Isabelle
  imports Accumulate Arg_List Articulation Graph_Cycle Perm_Cycles Cuckoo Coin_Game Grid_Path Alternate Bin_Arrays Bin_Bottom Threaded Barrier_Demo Workq Workq_Demo Crew Tty_Server Pipeline Alarm Susp Counters Dotprod Wakeups Cancel Streams CTree_Set CTree_Demo Median AVL_Tree Counting War RB_Set List_Add List_Merge List_Edit List_Cycle Binomial_Extract
begin

text \<open>
  A verification of the programs of the repository. The repository is a collection of programs rather than one:
  thread packages and the programs around them (\<open>src/*.c\<close>, after the POSIX threads book by Butenhof), and
  data structures in C++ (\<open>src/computation\<close>). What they share is C: pointers into a heap, calls that fail, integers
  of a fixed width, and threads that interleave at mutexes and condition variables.

  \<^bold>\<open>Foundations.\<close>
  \<^item> \<open>C_Prelude\<close>: status codes, faults (\<open>fault\<close>), machine integers, counting and list lemmas, and the locale
    \<open>invariant_system\<close>: an initial state, a step relation and an invariant kept by every step give a fact about every
    reachable state. Each multi-threaded program is an interpretation of it.
  \<^item> \<open>Pthread\<close>: mutexes, condition variables and thread states as the programs use them. The status of a
    call is an argument of the model, so that the error branches of the code are branches of the definitions.
  \<^item> \<open>Fifo\<close>: the locale \<open>fifo\<close>, the contract of a linked queue with a head and a tail pointer on an explicit heap;
    the queues of \<open>crew.c\<close> and \<open>server.c\<close> are interpretations.
  \<^item> \<open>C_String\<close>: \<open>strncpy\<close>, \<open>strcat\<close>, \<open>sprintf\<close> and reading of C strings on byte buffers.

  \<^bold>\<open>Thread packages.\<close> A program is a record of its shared variables, one function per piece of code that runs between
  two points where the thread can lose the mutex, and an inductive step relation that lets any thread run its next
  piece; spurious wake-ups and timeouts are steps. So a theorem about the reachable states is about every interleaving.
  \<^item> \<open>Barrier\<close> (\<open>barrier.h\<close>, \<open>barrier_main.c\<close>): the barrier separates rounds, elects one thread per round and
    does not get stuck; the copy of the 64 bit cycle to an \<open>int\<close> ends this after \<open>2 ^ 31\<close> rounds; \<open>barrier_destroy\<close> can run
    too early. \<open>Barrier_Demo\<close>: the program around it, with the joins and prints of \<open>main\<close>: the arrays are the same in every interleaving and
    the threads do not race, but an increment that \<open>main\<close> prints may be changed at the same time (\<open>demo_print_races\<close>).
  \<^item> \<open>Workq\<close> (\<open>workq.h\<close>, \<open>workq.c\<close>): first in first out and a bounded number of servers in every run; no lost wake-up, and \<open>workq_destroy\<close>
    drains the queue, in the runs in which no \<open>pthread_create\<close> and no timed wait has failed (\<open>workq_create_failure_loses_work\<close> is a run in which
    one has); the assignment in a condition that makes \<open>workq_add\<close> crash. \<open>Workq_Demo\<close>: the engines.
  \<^item> \<open>Crew\<close> (\<open>crew.c\<close>): when \<open>crew_start\<close> returns the whole directory tree has been searched; reports are sound; the work
    count; the directory that cannot be opened. While a worker is left a search goes on; each search ends a worker.
  \<^item> \<open>Tty_Server\<close> (\<open>server.c\<close>): order of service, which steps fault and why, synchronous callers, no lost wake-up, the text written.
  \<^item> \<open>Pipeline\<close> (\<open>pipe.c\<close>), \<open>Alarm\<close> (\<open>alarm.c\<close>, \<open>alarm_mutex.c\<close>, \<open>alarm_cond.c\<close>), \<open>Susp\<close> (\<open>susp.c\<close>).
  \<^item> \<open>Counters\<close> (\<open>condition.c\<close>, \<open>cond.c\<close>, \<open>trylock.c\<close>), \<open>Dotprod\<close> (\<open>mutex-1.c\<close>), \<open>Wakeups\<close> (\<open>sigwait.c\<close>,
    \<open>sigev_thread.c\<close>, \<open>semaphore_signal.c\<close>), \<open>Cancel\<close> (\<open>cancel_cleanp.c\<close>, \<open>cancel_subcontract.c\<close>), \<open>Streams\<close>
    (\<open>putchar.c\<close>, \<open>flock.c\<close>, \<open>once.c\<close>, \<open>tsd_once.c\<close>).
  \<^item> \<open>Accumulate\<close> (\<open>CPlusThread/accumulate.cpp\<close>): the blocks cover the range, and the result is that of one thread in every interleaving; the locale
    \<open>accumulation\<close> has what the template needs of its type (associative, with a neutral initial value, as unsigned integers are). \<open>Arg_List\<close> (\<open>advancedC/print-arg-list.c\<close>): the arguments of a process.

  \<^bold>\<open>The 2-3 tree\<close> of \<open>src/computation/src 2-3TreeImplementation\<close>, a template class on nodes with parent pointers.
  \<^item> \<open>CNode\<close> (\<open>CNode.h\<close>): nodes on an explicit store (\<open>ctree\<close>: root, live nodes, next address). A call returns (\<open>Ok\<close>), faults
    (\<open>Fault\<close>: null or freed node, key never written) or runs out of fuel (\<open>Timeout\<close>).
  \<^item> \<open>CTree\<close> (\<open>CTree.h\<close>: search, insertion), \<open>CTree_Walk\<close> (traversals, \<open>print\<close>, \<open>removeAll\<close>), \<open>CTree_Delete\<close>
    (\<open>deleteItem\<close> with its 19 cases), statement by statement; \<open>CTree_Demo\<close>: the integer test cases of the test program.
  \<^item> \<open>CTree_Rep\<close>: the abstract tree a store represents (\<open>rep\<close>, \<open>repr\<close>) and paths of frames up the parent pointers;
    \<open>CTree_Insert\<close>: \<open>insert\<close> and \<open>find\<close> on a store that represents a tree; \<open>CTree_Walk\<close>: an inorder \<open>print\<close> lists the keys,
    \<open>removeAll\<close> frees every node once; \<open>CTree_Set\<close>: the locale \<open>set_object\<close>, what a client of a set relies on, interpreted
    on the tree, and the properties of the tree object. Deletion is not correct: \<open>CTree_Demo.ctree_delete_breaks\<close>.

  \<^bold>\<open>Other data structures and algorithms\<close> of \<open>src/computation\<close>, over the outcomes of \<open>Outcome\<close>.
  \<^item> \<open>Median\<close> (\<open>FindMedian.cpp\<close>): array heaps with the comparison as a member; the locale \<open>comparison\<close> (a strict weak order) carries the
    lemmas on the heap order and is interpreted on \<open>Greater\<close> and \<open>Smaller\<close>. Insertion is correct and no element is lost; \<open>deleteTop\<close>
    breaks the order, so medians are wrong (\<open>median_wrong\<close>), and the capacity test is off by one.
  \<^item> \<open>AVL_Tree\<close> (\<open>AVL.cpp\<close>): insertion keeps the search order, or dereferences a null pointer; the wrong heights stored by
    \<open>rightRotate\<close> lead there (\<open>avl_insert_crashes\<close>).
  \<^item> \<open>RB_Tree\<close>, \<open>RB_Rep\<close>, \<open>RB_Insert\<close>, \<open>RB_Set\<close> (\<open>RedBlackTree.cpp\<close>): the tree on a store of nodes with parent pointers; which tree a store
    represents, with paths as zippers, and the effect of rotations on it; the repair of an insertion; the object as two interpretations of
    \<open>growing_set\<close>, the traversals and the height. The colour of a new node is not set by the code; what its memory holds is an argument, and the theorems are for
    all its values: with any colours the tree is a search tree, with red ones a red-black tree, and a read of it that is not allowed is a fault.
  \<^item> \<open>Binomial_Heap\<close>, \<open>Binomial_Insert\<close>, \<open>Binomial_Extract\<close> (\<open>BinomialHeap.cpp\<close>): the heap as a list of binomial trees with their
    addresses; insertion is addition of one with carry, and extraction returns the least key. What it leaves is not always a heap
    of the other keys: \<open>Merge_loses_keys\<close>, \<open>extraction_stale\<close>.
  \<^item> \<open>Counting\<close> (\<open>EditDistance.cpp\<close>, \<open>CoverSteps.cpp\<close>, \<open>PartitionASetIntoTwo.cpp\<close>, \<open>Triplets.cpp\<close>, \<open>ArrayUnionAndIntersection.cpp\<close>): each
    function equals what it is meant to count or print.
  \<^item> \<open>Cells\<close>: linked lists on a heap, as chains of cells with their addresses; what the list exercises share. \<open>List_Add\<close>
    (\<open>AddNumberByLinkedList.cpp\<close>): the sum of two numbers. \<open>List_Merge\<close> (\<open>MergeTwoLinkedList.cpp\<close>, \<open>MergeLinkedList.cpp\<close>): merging in
    place, two versions with the same result. \<open>List_Edit\<close> (\<open>ReverseLinkedListForKgroup.cpp\<close>, \<open>DeleteNodeFromLinkedList.cpp\<close>,
    \<open>NodeInsertLinkedList.cpp\<close>, \<open>CompareStringsByLinkedLists.cpp\<close>). \<open>List_Cycle\<close> (\<open>DetectCircleInList.h\<close>, \<open>RemoveCycleInList.h\<close>,
    \<open>RemoveCycle.h\<close>): a list is a path into a cycle, positions on it are numbers modulo its length, and the loops end.
  \<^item> \<open>Bin_Trees\<close> (\<open>FullBinaryTest.h\<close>, \<open>minBinaryTreeHeight.h\<close>, \<open>MaxBinaryTreeSumPath.h\<close>, \<open>Common Ancestor.cpp\<close>,
    \<open>RemoveNodesOnRoot.cpp\<close>, \<open>SumLeftLeaves.cpp\<close>, \<open>PathToLeafBinaryTree.cpp\<close>): recursions over trees, on the trees of the library, each
    with what it computes in terms of subtrees and of paths. \<open>Bin_Arrays\<close> (\<open>BinarySubTree.cpp\<close>, \<open>ReverseBinaryTree.cpp\<close>): trees written into
    arrays of 100 characters; what they compute inside these bounds, and that nothing checks them. \<open>Bin_Bottom\<close> (\<open>BottomView.cpp\<close>): the
    walk in level order. \<open>Threaded\<close> (\<open>ThreadedTree.cpp\<close>): threads to successors on a heap, but for the last node, which reads an
    empty queue; the walk along them, and addition by bits.
  \<^item> \<open>War\<close> (\<open>GoToWar.cpp\<close>): the queue in a circular array is another interpretation of \<open>fifo\<close>; a round of the game plays the
    decks as typed to the end, loses no card and announces the winner it should by its own order of cards, which is that of characters.

  \<^item> \<open>Cut_Vertex\<close>: depth first forests and the cut vertices of a graph. \<open>Articulation\<close> (\<open>articulation.cpp\<close>): the search builds such a forest,
    so that \<open>AP\<close> prints exactly the cut vertices, as long as its static counter does not overflow.
  \<^item> \<open>Graph_Cycle\<close> (\<open>FindCycleInGraph.h\<close>): union and find on an array of parents, and the cycles of a graph. \<open>Perm_Cycles\<close>
    (\<open>Cyclic.cpp\<close>, \<open>computation.cpp\<close>): the cycles of a permutation; \<open>make_inverse\<close> destroys it, and the program does not end. \<open>Cuckoo\<close>
    (\<open>Cucoo.cpp\<close>): the tables hold every key that was not reported, at one of its two places. \<open>Coin_Game\<close> (\<open>Game.cpp\<close>): the value of the
    game, up to the size of the table and of an \<open>int\<close>. \<open>Grid_Path\<close> (\<open>FindLongestPath.cpp\<close>): the longest path in a matrix. \<open>Alternate\<close>
    (\<open>GeneratePairsFromArray.cpp\<close>): increasing arrays of alternate elements.

  \<^bold>\<open>Bounds and fuel.\<close> Loops over a tree take fuel. The number of nodes ever allocated (\<open>brk\<close>) is enough for every
  loop that goes down or up a tree (a path is no longer than the height, which is at most the number of nodes), and twice it for
  the rounds of \<open>print\<close> (a node has at most two keys); the theorems say so, with the result the call returns. The fuel
  of 40 in \<open>CTree_Demo\<close> is more than the nodes a test case makes. Thread counts and array sizes are those of the code, or arbitrary.

  \<^bold>\<open>Parameters.\<close> The status of a library call is an argument of the function that makes it, so that each of its error branches is there. In the
  runs of a whole program (the functions \<open>_exec\<close>) the calls on mutexes and condition variables succeed, \<open>malloc\<close> may fail in \<open>Workq\<close>, \<open>Crew\<close> and \<open>Tty_Server\<close>, and
  \<open>pthread_create\<close> and the timed wait may fail in \<open>Workq\<close>; a line of \<open>Alarm\<close> too long for the message has no step, and the \<open>malloc(40)\<close> of a path in \<open>Crew\<close>
  succeeds. The contents of the file system, the input lines, the clock and the
  scheduler are arguments or steps; nothing is assumed of them beyond what the statements say. \<open>double\<close> arithmetic
  is exact with an arbitrary rounding function where order matters (\<open>Dotprod\<close>).

  \<^bold>\<open>Not modelled.\<close> Programs that are sequences of system calls (the rest of \<open>src/advancedC\<close>, the process and signal programs), notes on C++
  syntax (\<open>src/quetions\<close> and the small programs beside it), programs whose work is a library (the rest of \<open>src/CPlusThread\<close>, \<open>qtTest\<close>),
  formatted output, and the movie test cases of the 2-3 tree (string keys through the same template). What these programs do is the
  operating system, the compiler or a library, of which the sources only have the calls. Also open: which deletions from the 2-3 tree
  are correct, beyond the cases of the test program.
\<close>

end
